(* ===== verification/Prelude.thy ===== *)
theory Prelude
  imports Main "HOL-Library.Word" "HOL-Library.Multiset"
begin

text \<open>
  Shared vocabulary of the development.

  \<^item> Results: a fallible operation returns \<open>failure + 'a\<close>. A failure is a \<open>Status\<close> the
    code returns (\<open>Err\<close>), a C++ exception that escapes (\<open>Thrown\<close>) or undefined
    behaviour (\<open>UB\<close>); the last two keep the model from giving a meaning to runs that the
    source leaves without one.
  \<^item> Machine integers: \<open>int\<close> and \<open>int64_t\<close> are \<open>int\<close> with an explicit overflow check
    (\<open>cint32\<close>, \<open>cint64\<close>: signed overflow is \<open>UB\<close>); \<open>size_t\<close> and the other
    unsigned types are \<open>nat\<close> with the wrap-around written out (\<open>wrap64\<close>).
  \<^item> Text: \<open>std::to_string\<close> and the concatenations the messages use.
  \<^item> Generic facts on lists and folds that several components share.
\<close>

named_theorems result_simps \<open>rewriting of results\<close>
named_theorems eval_simps \<open>evaluation of closed terms in witnesses\<close>
named_theorems invariant_intros \<open>preservation of component invariants\<close>

section \<open>Status codes and failures\<close>

datatype error_code =
    Ok
  | InvalidArgument
  | OutOfRange
  | ShapeMismatch
  | Unsupported
  | NotImplemented
  | RuntimeError
  | InternalError
  | IOError
  | NotFound
  | TypeError

datatype failure =
    Err error_code string
  | Thrown string
  | UB string

type_synonym 'a result = "failure + 'a"

text \<open>The factory functions of \<open>class Status\<close> (\<open>make_ok\<close> is \<open>Inr ()\<close>).\<close>

abbreviation make_ok :: "unit result" where
  "make_ok \<equiv> Inr ()"

definition invalid_argument :: "string \<Rightarrow> failure" where
  "invalid_argument m = Err InvalidArgument m"

definition out_of_range :: "string \<Rightarrow> failure" where
  "out_of_range m = Err OutOfRange m"

definition shape_mismatch :: "string \<Rightarrow> failure" where
  "shape_mismatch m = Err ShapeMismatch m"

definition unsupported :: "string \<Rightarrow> failure" where
  "unsupported m = Err Unsupported m"

definition not_implemented :: "string \<Rightarrow> failure" where
  "not_implemented m = Err NotImplemented m"

definition runtime_error :: "string \<Rightarrow> failure" where
  "runtime_error m = Err RuntimeError m"

definition internal_error :: "string \<Rightarrow> failure" where
  "internal_error m = Err InternalError m"

definition io_error :: "string \<Rightarrow> failure" where
  "io_error m = Err IOError m"

definition not_found :: "string \<Rightarrow> failure" where
  "not_found m = Err NotFound m"

definition type_error :: "string \<Rightarrow> failure" where
  "type_error m = Err TypeError m"

lemmas status_defs =
  invalid_argument_def out_of_range_def shape_mismatch_def unsupported_def not_implemented_def
  runtime_error_def internal_error_def io_error_def not_found_def type_error_def

text \<open>A failure is \<^emph>\<open>defined\<close> when it is a \<open>Status\<close>, not an exception or undefined behaviour.\<close>

fun is_status :: "failure \<Rightarrow> bool" where
  "is_status (Err c m) = (c \<noteq> Ok)"
| "is_status (Thrown m) = False"
| "is_status (UB m) = False"

lemma is_status_factories [simp]:
  "is_status (invalid_argument m)" "is_status (out_of_range m)" "is_status (shape_mismatch m)"
  "is_status (unsupported m)" "is_status (not_implemented m)" "is_status (runtime_error m)"
  "is_status (internal_error m)" "is_status (io_error m)" "is_status (not_found m)"
  "is_status (type_error m)"
  by (simp_all add: status_defs)

lemma factories_not_thrown [simp]:
  "invalid_argument m \<noteq> Thrown s" "invalid_argument m \<noteq> UB s"
  "out_of_range m \<noteq> Thrown s" "out_of_range m \<noteq> UB s"
  "shape_mismatch m \<noteq> Thrown s" "shape_mismatch m \<noteq> UB s"
  "not_found m \<noteq> Thrown s" "not_found m \<noteq> UB s"
  "runtime_error m \<noteq> Thrown s" "runtime_error m \<noteq> UB s"
  by (simp_all add: status_defs)

section \<open>Sequencing\<close>

text \<open>\<open>if (!x) return x.error();\<close> on pure and on state-passing operations (the \<open>TRY\<close> macro).\<close>

definition rbind :: "'a result \<Rightarrow> ('a \<Rightarrow> 'b result) \<Rightarrow> 'b result" where
  "rbind r f = (case r of Inl e \<Rightarrow> Inl e | Inr x \<Rightarrow> f x)"

definition sbind :: "'a result \<times> 's \<Rightarrow> ('a \<Rightarrow> 's \<Rightarrow> 'b result \<times> 's) \<Rightarrow> 'b result \<times> 's" where
  "sbind m f = (case m of (Inl e, s) \<Rightarrow> (Inl e, s) | (Inr x, s) \<Rightarrow> f x s)"

lemma rbind_simps [simp, result_simps]:
  "rbind (Inl e) f = Inl e"
  "rbind (Inr x) f = f x"
  by (simp_all add: rbind_def)

lemma rbind_Inr_iff [result_simps]: "rbind r f = Inr y \<longleftrightarrow> (\<exists>x. r = Inr x \<and> f x = Inr y)"
  by (cases r) auto

lemma rbind_Inl_iff: "rbind r f = Inl e \<longleftrightarrow> r = Inl e \<or> (\<exists>x. r = Inr x \<and> f x = Inl e)"
  by (cases r) auto

lemma rbind_InrE [elim]:
  assumes "rbind r f = Inr y"
  obtains x where "r = Inr x" and "f x = Inr y"
  using assms by (auto simp: rbind_Inr_iff)

lemma sbind_simps [simp, result_simps]:
  "sbind (Inl e, s) f = (Inl e, s)"
  "sbind (Inr x, s) f = f x s"
  by (simp_all add: sbind_def)

lemma sbind_Inr_iff [result_simps]:
  "sbind m f = (Inr y, s') \<longleftrightarrow> (\<exists>x s. m = (Inr x, s) \<and> f x s = (Inr y, s'))"
  by (cases m; cases "fst m") auto

lemma sbind_InrE [elim]:
  assumes "sbind m f = (Inr y, s')"
  obtains x s where "m = (Inr x, s)" and "f x s = (Inr y, s')"
  using assms by (auto simp: sbind_Inr_iff)

lemma sbind_cases:
  assumes "sbind m f = (r, s')"
  obtains (fail) e where "m = (Inl e, s')" and "r = Inl e"
    | (ok) x s where "m = (Inr x, s)" and "f x s = (r, s')"
  using assms by (cases m; cases "fst m") auto

definition isOK :: "'a result \<Rightarrow> bool" where
  "isOK r = (case r of Inl _ \<Rightarrow> False | Inr _ \<Rightarrow> True)"

lemma isOK_simps [simp]: "isOK (Inr x)" "\<not> isOK (Inl e)"
  by (simp_all add: isOK_def)

lemma isOK_iff: "isOK r \<longleftrightarrow> (\<exists>x. r = Inr x)"
  by (cases r) auto

section \<open>Machine integers\<close>

definition int32_ok :: "int \<Rightarrow> bool" where
  "int32_ok x \<longleftrightarrow> - (2 ^ 31) \<le> x \<and> x < 2 ^ 31"

definition int64_ok :: "int \<Rightarrow> bool" where
  "int64_ok x \<longleftrightarrow> - (2 ^ 63) \<le> x \<and> x < 2 ^ 63"

text \<open>The result of a signed operation: undefined when the exact value does not fit.\<close>

definition cint32 :: "int \<Rightarrow> int result" where
  "cint32 x = (if int32_ok x then Inr x else Inl (UB ''signed overflow''))"

definition cint64 :: "int \<Rightarrow> int result" where
  "cint64 x = (if int64_ok x then Inr x else Inl (UB ''signed overflow''))"

lemma cint32_Inr_iff [simp]: "cint32 x = Inr y \<longleftrightarrow> int32_ok x \<and> y = x"
  by (auto simp: cint32_def)

lemma cint64_Inr_iff [simp]: "cint64 x = Inr y \<longleftrightarrow> int64_ok x \<and> y = x"
  by (auto simp: cint64_def)

lemma cint32_ok: "int32_ok x \<Longrightarrow> cint32 x = Inr x"
  by (simp add: cint32_def)

lemma cint64_ok: "int64_ok x \<Longrightarrow> cint64 x = Inr x"
  by (simp add: cint64_def)

lemma int32_ok_small [simp]: "int32_ok 0" "int32_ok 1"
  by (simp_all add: int32_ok_def)

lemma int32_ok_between: "int32_ok b \<Longrightarrow> 0 \<le> a \<Longrightarrow> a \<le> b \<Longrightarrow> int32_ok a"
  by (simp add: int32_ok_def)

lemma int64_ok_between: "int64_ok b \<Longrightarrow> 0 \<le> a \<Longrightarrow> a \<le> b \<Longrightarrow> int64_ok a"
  by (simp add: int64_ok_def)

text \<open>Unsigned 64-bit arithmetic (\<open>size_t\<close>, \<open>uint64_t\<close>).\<close>

definition wrap64 :: "nat \<Rightarrow> nat" where
  "wrap64 n = n mod 2 ^ 64"

abbreviation size_max :: nat where
  "size_max \<equiv> 2 ^ 64 - 1"

lemma wrap64_small [simp]: "n < 2 ^ 64 \<Longrightarrow> wrap64 n = n"
  by (simp add: wrap64_def)

lemma wrap64_less [simp]: "wrap64 n < 2 ^ 64"
  by (simp add: wrap64_def)

lemma wrap64_le: "wrap64 n \<le> n"
  by (simp add: wrap64_def)

text \<open>A \<open>static_cast\<close> of an unsigned 64-bit value to \<open>int64_t\<close>.\<close>

definition to_int64 :: "nat \<Rightarrow> int" where
  "to_int64 n = (let m = int (wrap64 n) in if m < 2 ^ 63 then m else m - 2 ^ 64)"

lemma to_int64_small: "n < 2 ^ 63 \<Longrightarrow> to_int64 n = int n"
proof -
  assume n: "n < 2 ^ 63"
  then have "n < 2 ^ 64" by simp
  with n show ?thesis by (simp add: to_int64_def Let_def)
qed

text \<open>The overflow test \<open>n > max / d\<close> that the code writes before a product.\<close>

lemma mul_overflow_test:
  assumes "0 < (d::nat)"
  shows "size_max div d < n \<longleftrightarrow> 2 ^ 64 \<le> n * d"
proof -
  have "size_max div d < n \<longleftrightarrow> size_max < n * d"
    using assms by (simp add: div_less_iff_less_mult)
  also have "\<dots> \<longleftrightarrow> 2 ^ 64 \<le> n * d"
    by (cases "n * d") auto
  finally show ?thesis .
qed

lemma wrap64_mult_left: "wrap64 (a * wrap64 b) = wrap64 (a * b)"
  by (simp add: wrap64_def mod_mult_right_eq)

lemma wrap64_add_left: "wrap64 (wrap64 a + b) = wrap64 (a + b)"
  by (simp add: wrap64_def mod_add_left_eq)

text \<open>A \<open>static_cast<size_t>\<close> of a signed value.\<close>

definition size_of_int :: "int \<Rightarrow> nat" where
  "size_of_int i = nat (i mod 2 ^ 64)"

lemma size_of_int_nonneg: "0 \<le> i \<Longrightarrow> i < 2 ^ 64 \<Longrightarrow> size_of_int i = nat i"
  by (simp add: size_of_int_def)

lemma size_of_int32 [simp]: "0 \<le> i \<Longrightarrow> int32_ok i \<Longrightarrow> size_of_int i = nat i"
  by (simp add: size_of_int_def int32_ok_def)

text \<open>Division and remainder of C++ truncate towards zero; a zero divisor is undefined.\<close>

definition cdiv :: "int \<Rightarrow> int \<Rightarrow> int result" where
  "cdiv a b = (if b = 0 then Inl (UB ''division by zero'')
     else Inr (sgn a * sgn b * (\<bar>a\<bar> div \<bar>b\<bar>)))"

definition cmod :: "int \<Rightarrow> int \<Rightarrow> int result" where
  "cmod a b = (if b = 0 then Inl (UB ''division by zero'')
     else Inr (a - b * (sgn a * sgn b * (\<bar>a\<bar> div \<bar>b\<bar>))))"

lemma cdiv_nonneg [simp]: "0 \<le> a \<Longrightarrow> 0 < b \<Longrightarrow> cdiv a b = Inr (a div b)"
  by (cases "a = 0") (simp_all add: cdiv_def)

lemma cmod_nonneg [simp]: "0 \<le> a \<Longrightarrow> 0 < b \<Longrightarrow> cmod a b = Inr (a mod b)"
  by (cases "a = 0") (simp_all add: cmod_def minus_mult_div_eq_mod)

lemma int_div_less:
  assumes "0 < b" and "a < n * b"
  shows "a div b < (n :: int)"
proof (rule ccontr)
  assume "\<not> a div b < n"
  then have "n * b \<le> a div b * b" using assms by (intro mult_right_mono) auto
  also have "\<dots> \<le> a" using assms div_mult_mod_eq [of a b] pos_mod_sign [of b a] by linarith
  finally show False using assms by simp
qed

section \<open>Text\<close>

definition digit_char :: "nat \<Rightarrow> char" where
  "digit_char d = char_of (48 + d)"

fun nat_to_string :: "nat \<Rightarrow> string" where
  "nat_to_string n = (if n < 10 then [digit_char n]
     else nat_to_string (n div 10) @ [digit_char (n mod 10)])"

declare nat_to_string.simps [simp del]

definition int_to_string :: "int \<Rightarrow> string" where
  "int_to_string i = (if i < 0 then ''-'' @ nat_to_string (nat (- i)) else nat_to_string (nat i))"

lemma nat_to_string_nonempty [simp]: "nat_to_string n \<noteq> []"
  by (subst nat_to_string.simps) simp

lemma digit_char_inj: "a < 10 \<Longrightarrow> b < 10 \<Longrightarrow> digit_char a = digit_char b \<longleftrightarrow> a = b"
proof -
  assume ab: "a < 10" "b < 10"
  have "digit_char a = digit_char b \<Longrightarrow> a = b"
  proof -
    assume "digit_char a = digit_char b"
    then have "of_char (digit_char a) = (of_char (digit_char b) :: nat)" by simp
    with ab show "a = b" by (simp add: digit_char_def of_char_of)
  qed
  then show ?thesis by auto
qed

lemma nat_to_string_inj: "nat_to_string a = nat_to_string b \<longleftrightarrow> a = b"
proof -
  have "nat_to_string a = nat_to_string b \<Longrightarrow> a = b"
  proof (induction a arbitrary: b rule: nat_to_string.induct)
    case (1 a)
    note eq = "1.prems"
    show ?case
    proof (cases "a < 10")
      case True
      show ?thesis
      proof (cases "b < 10")
        case b: True
        with True eq show ?thesis
          by (simp add: nat_to_string.simps [of a] nat_to_string.simps [of b] digit_char_inj)
      next
        case False
        with True eq show ?thesis
          by (simp add: nat_to_string.simps [of a] nat_to_string.simps [of b]
              del: nat_to_string_nonempty)
            (metis nat_to_string_nonempty)
      qed
    next
      case False
      have b: "\<not> b < 10"
      proof
        assume "b < 10"
        with False eq show False
          by (simp add: nat_to_string.simps [of a] nat_to_string.simps [of b])
      qed
      from False b eq have "nat_to_string (a div 10) = nat_to_string (b div 10)"
        and "digit_char (a mod 10) = digit_char (b mod 10)"
        by (simp_all add: nat_to_string.simps [of a] nat_to_string.simps [of b])
      with "1.IH" [OF False] have "a div 10 = b div 10" and "a mod 10 = b mod 10"
        by (simp_all add: digit_char_inj)
      then show ?thesis
        by (metis div_mult_mod_eq)
    qed
  qed
  then show ?thesis by auto
qed

text \<open>The comma-separated lists the \<open>to_string\<close> functions build.\<close>

fun join_with :: "string \<Rightarrow> string list \<Rightarrow> string" where
  "join_with sep [] = ''''"
| "join_with sep [x] = x"
| "join_with sep (x # y # zs) = x @ sep @ join_with sep (y # zs)"

section \<open>Lists\<close>

lemma replicate_numeral_eval [eval_simps]:
  "replicate (numeral n) x = x # replicate (pred_numeral n) x"
  by (simp add: numeral_eq_Suc)

lemma upt_numeral_eval [eval_simps]:
  "[i..<numeral k] = (if i < numeral k then i # [Suc i..<numeral k] else [])"
  by (rule upt_rec)

lemma filter_as_indices: "filter P xs = map ((!) xs) (filter (\<lambda>i. P (xs ! i)) [0..<length xs])"
  using filter_map [of P "(!) xs" "[0..<length xs]"] by (simp add: map_nth comp_def)

lemma upt_from_Suc: "[p..<p + Suc n] = p # [Suc p..<Suc p + n]"
  by (subst upt_conv_Cons) simp_all

lemma nth_append_left [simp]: "i < length xs \<Longrightarrow> (xs @ ys) ! i = xs ! i"
  by (simp add: nth_append)

lemma list_update_same_length [simp]: "length (xs[i := v]) = length xs"
  by simp

text \<open>
  \<open>std::vector::resize\<close> with value-initialised new elements.
\<close>

definition vec_resize :: "'a \<Rightarrow> nat \<Rightarrow> 'a list \<Rightarrow> 'a list" where
  "vec_resize d n xs = take n xs @ replicate (n - length xs) d"

lemma length_vec_resize [simp]: "length (vec_resize d n xs) = n"
  by (simp add: vec_resize_def)

lemma vec_resize_nth_old [simp]: "i < length xs \<Longrightarrow> i < n \<Longrightarrow> vec_resize d n xs ! i = xs ! i"
  by (simp add: vec_resize_def nth_append)

lemma vec_resize_nth_new [simp]: "length xs \<le> i \<Longrightarrow> i < n \<Longrightarrow> vec_resize d n xs ! i = d"
  by (simp add: vec_resize_def nth_append)

lemma vec_resize_ge: "length xs \<le> n \<Longrightarrow> vec_resize d n xs = xs @ replicate (n - length xs) d"
  by (simp add: vec_resize_def)

text \<open>Replacing one list in a concatenation.\<close>

lemma mset_concat_update:
  assumes "i < length xs"
  shows "mset (concat (map f (xs[i := y]))) + mset (f (xs ! i)) = mset (concat (map f xs)) + mset (f y)"
  using assms
proof (induction xs arbitrary: i)
  case (Cons x xs)
  then show ?case by (cases i) (auto simp: add_ac)
qed simp

lemma in_concat_nth: "i < length xs \<Longrightarrow> b \<in> set (f (xs ! i)) \<Longrightarrow> b \<in> set (concat (map f xs))"
  by force

text \<open>Blocks that occur once in a concatenation belong to one list only.\<close>

lemma distinct_concat_nth:
  assumes "distinct (concat (map f xs))" and "i < length xs" and "j < length xs"
    and "b \<in> set (f (xs ! i))" and "b \<in> set (f (xs ! j))"
  shows "i = j"
  using assms
proof (induction xs arbitrary: i j)
  case (Cons x xs)
  have clash: "b \<in> set (f x) \<Longrightarrow> n < length xs \<Longrightarrow> b \<in> set (f (xs ! n)) \<Longrightarrow> False" for n
    using Cons.prems(1) in_concat_nth [of n xs b f] by auto
  show ?case
    using Cons.prems clash by (cases i; cases j) (auto intro: Cons.IH)
qed simp

lemma distinct_concat_nth_distinct:
  "distinct (concat (map f xs)) \<Longrightarrow> i < length xs \<Longrightarrow> distinct (f (xs ! i))"
  by (simp add: distinct_concat_iff)

text \<open>
  Arrays of rows: a flat list seen as rows of \<open>w\<close> elements, one of which is read or replaced.
\<close>

definition row_at :: "nat \<Rightarrow> nat \<Rightarrow> 'a list \<Rightarrow> 'a list" where
  "row_at w r xs = take w (drop (r * w) xs)"

definition put_row :: "nat \<Rightarrow> nat \<Rightarrow> 'a list \<Rightarrow> 'a list \<Rightarrow> 'a list" where
  "put_row w r ys xs = take (r * w) xs @ ys @ drop (r * w + w) xs"

lemma row_fits: "r < n \<Longrightarrow> r * w + w \<le> n * (w :: nat)"
  using mult_le_mono1 [of "Suc r" n w] by simp

lemma length_put_row [simp]:
  "length ys = w \<Longrightarrow> r * w + w \<le> length xs \<Longrightarrow> length (put_row w r ys xs) = length xs"
  by (simp add: put_row_def)

lemma length_row_at [simp]: "r * w + w \<le> length xs \<Longrightarrow> length (row_at w r xs) = w"
  by (simp add: row_at_def)

lemma row_at_put_same:
  "length ys = w \<Longrightarrow> r * w + w \<le> length xs \<Longrightarrow> row_at w r (put_row w r ys xs) = ys"
  by (simp add: row_at_def put_row_def)

lemma row_at_put_other:
  assumes "length ys = w" and "r * w + w \<le> length xs" and "r' \<noteq> r"
  shows "row_at w r' (put_row w r ys xs) = row_at w r' xs"
proof (cases "r' < r")
  case True
  then have le: "r' * w + w \<le> r * w" by (rule row_fits)
  then have "w \<le> r * w - r' * w" and "r' * w \<le> r * w" by linarith+
  moreover have "r * w \<le> length xs" using assms by simp
  ultimately show ?thesis
    by (simp add: row_at_def put_row_def drop_take)
next
  case False
  with assms have "r < r'" by simp
  then have le: "r * w + w \<le> r' * w" by (rule row_fits)
  then have "r * w \<le> r' * w" by linarith
  then have "r * w - r' * w = 0" and "drop (r' * w) (take (r * w) xs) = []"
    by (simp_all add: min.coboundedI2 del: mult_le_cancel2)
  with le show ?thesis using assms
    by (simp add: row_at_def put_row_def)
qed

text \<open>
  \<open>std::sort\<close> with a comparator: insertion of each element before the first one it precedes.
  Elements the comparator does not separate keep their order.
\<close>

fun insort_by :: "('a \<Rightarrow> 'a \<Rightarrow> bool) \<Rightarrow> 'a \<Rightarrow> 'a list \<Rightarrow> 'a list" where
  "insort_by lt x [] = [x]"
| "insort_by lt x (y # ys) = (if lt y x then y # insort_by lt x ys else x # y # ys)"

definition sort_by :: "('a \<Rightarrow> 'a \<Rightarrow> bool) \<Rightarrow> 'a list \<Rightarrow> 'a list" where
  "sort_by lt xs = foldr (insort_by lt) xs []"

lemma mset_insort_by [simp]: "mset (insort_by lt x ys) = add_mset x (mset ys)"
  by (induction ys) auto

lemma set_insort_by [simp]: "set (insort_by lt x ys) = insert x (set ys)"
  by (induction ys) auto

lemma length_insort_by [simp]: "length (insort_by lt x ys) = Suc (length ys)"
  by (induction ys) auto

lemma mset_sort_by [simp]: "mset (sort_by lt xs) = mset xs"
  by (induction xs) (auto simp: sort_by_def)

lemma set_sort_by [simp]: "set (sort_by lt xs) = set xs"
  by (metis mset_sort_by set_mset_mset)

lemma length_sort_by [simp]: "length (sort_by lt xs) = length xs"
  by (metis mset_sort_by size_mset)

lemma distinct_sort_by [simp]: "distinct (sort_by lt xs) = distinct xs"
  by (metis mset_sort_by mset_eq_imp_distinct_iff)

text \<open>The result is sorted for any transitive and total relation implied by \<open>\<not> lt y x\<close>.\<close>

lemma sorted_insort_by:
  assumes "sorted_wrt R ys" and "\<And>a b. \<not> lt b a \<Longrightarrow> R a b" and "\<And>a b. lt a b \<Longrightarrow> R a b"
    and "transp R"
  shows "sorted_wrt R (insort_by lt x ys)"
  using assms(1)
proof (induction ys)
  case (Cons y ys)
  show ?case
  proof (cases "lt y x")
    case True
    with Cons assms(3) show ?thesis by auto
  next
    case False
    with assms(2) have "R x y" by blast
    with Cons.prems False assms(4) show ?thesis
      by (auto dest: transpD)
  qed
qed simp

lemma sorted_sort_by:
  assumes "\<And>a b. \<not> lt b a \<Longrightarrow> R a b" and "\<And>a b. lt a b \<Longrightarrow> R a b" and "transp R"
  shows "sorted_wrt R (sort_by lt xs)"
  using assms by (induction xs) (auto simp: sort_by_def intro: sorted_insort_by)

text \<open>
  What the standard promises of \<open>std::sort\<close>, for a comparator that is a strict weak order; the order of
  equivalent elements is open, and \<open>sort_by\<close> is one of the functions it allows.
\<close>

definition strict_weak :: "('a \<Rightarrow> 'a \<Rightarrow> bool) \<Rightarrow> bool" where
  "strict_weak lt \<longleftrightarrow> (\<forall>a b. lt a b \<longrightarrow> \<not> lt b a) \<and> transp (\<lambda>a b. \<not> lt b a)"

definition std_sort_law :: "(('a \<Rightarrow> 'a \<Rightarrow> bool) \<Rightarrow> 'a list \<Rightarrow> 'a list) \<Rightarrow> bool" where
  "std_sort_law srt \<longleftrightarrow> (\<forall>lt xs. strict_weak lt \<longrightarrow>
     mset (srt lt xs) = mset xs \<and> sorted_wrt (\<lambda>a b. \<not> lt b a) (srt lt xs))"

lemma std_sort_law_sort_by: "std_sort_law sort_by"
  unfolding std_sort_law_def strict_weak_def by (intro allI impI conjI mset_sort_by sorted_sort_by) blast+

lemma std_sort_lawD:
  assumes "std_sort_law srt" and "strict_weak lt"
  shows "mset (srt lt xs) = mset xs" "set (srt lt xs) = set xs" "distinct (srt lt xs) = distinct xs"
    "sorted_wrt (\<lambda>a b. \<not> lt b a) (srt lt xs)"
proof -
  show m: "mset (srt lt xs) = mset xs" "sorted_wrt (\<lambda>a b. \<not> lt b a) (srt lt xs)"
    using assms by (auto simp: std_sort_law_def)
  show "set (srt lt xs) = set xs" by (rule mset_eq_setD [OF m(1)])
  show "distinct (srt lt xs) = distinct xs" by (rule mset_eq_imp_distinct_iff [OF m(1)])
qed

end
