(* ===== verification/Paged_KV_Cache.thy ===== *)
theory Paged_KV_Cache
  imports Prelude
begin

text \<open>
  \<open>PagedKVCache\<close> (include/minillm/runtime/cache/paged_kv_cache.h,
  src/runtime/cache/paged_kv_cache.cpp) in the default build without CUDA.

  K/V memory is cut into \<open>max_blocks_\<close> blocks of \<open>block_size_\<close> token rows; every sequence
  owns a block table, freed blocks return to a stack. A pointer into \<open>layer.k\<close> or
  \<open>layer.v\<close> is the index of the float it points to; copying or reading outside a vector is
  \<open>UB\<close>. The element type is a parameter, since the cache only moves floats around.
\<close>

section \<open>State\<close>

record 'f paged_layer =
  pl_k :: "'f list"
  pl_v :: "'f list"

record paged_seq =
  ps_length :: int
  ps_blocks :: "int list"

record 'f paged_cache =
  pc_layers :: "'f paged_layer list"
  pc_free_blocks :: "int list"
  pc_block_used :: "bool list"
  pc_sequences :: "paged_seq list"
  pc_num_kv_heads :: int
  pc_head_dim :: int
  pc_block_size :: int
  pc_max_blocks :: int

definition empty_seq :: paged_seq where
  "empty_seq = \<lparr>ps_length = 0, ps_blocks = []\<rparr>"

definition empty_paged :: "'f paged_cache" where
  "empty_paged = \<lparr>pc_layers = [], pc_free_blocks = [], pc_block_used = [], pc_sequences = [],
     pc_num_kv_heads = 0, pc_head_dim = 0, pc_block_size = 0, pc_max_blocks = 0\<rparr>"

section \<open>Accessors\<close>

definition pc_initialized :: "'f paged_cache \<Rightarrow> bool" where
  "pc_initialized c \<longleftrightarrow> 0 < pc_block_size c \<and> 0 < pc_max_blocks c"

definition pc_num_layers :: "'f paged_cache \<Rightarrow> int" where
  "pc_num_layers c = int (length (pc_layers c))"

definition pc_kv_hidden :: "'f paged_cache \<Rightarrow> int result" where
  "pc_kv_hidden c = cint32 (pc_num_kv_heads c * pc_head_dim c)"

definition pc_free_block_count :: "'f paged_cache \<Rightarrow> int" where
  "pc_free_block_count c = int (length (pc_free_blocks c))"

text \<open>The test \<open>sequence_id < 0 || sequence_id >= sequences_.size()\<close>, negated.\<close>

definition known_sequence :: "'f paged_cache \<Rightarrow> int \<Rightarrow> bool" where
  "known_sequence c sid \<longleftrightarrow> 0 \<le> sid \<and> nat sid < length (pc_sequences c)"

definition has_sequence :: "'f paged_cache \<Rightarrow> int \<Rightarrow> bool" where
  "has_sequence c sid \<longleftrightarrow> known_sequence c sid \<and>
     (ps_blocks (pc_sequences c ! nat sid) \<noteq> [] \<or> 0 < ps_length (pc_sequences c ! nat sid))"

definition sequence_length :: "'f paged_cache \<Rightarrow> int \<Rightarrow> int" where
  "sequence_length c sid =
     (if known_sequence c sid then ps_length (pc_sequences c ! nat sid) else 0)"

definition sequence_capacity :: "'f paged_cache \<Rightarrow> int \<Rightarrow> int result" where
  "sequence_capacity c sid =
     (if known_sequence c sid
      then cint32 (int (length (ps_blocks (pc_sequences c ! nat sid))) * pc_block_size c)
      else Inr 0)"

definition block_table :: "'f paged_cache \<Rightarrow> int \<Rightarrow> int list option" where
  "block_table c sid =
     (if known_sequence c sid then Some (ps_blocks (pc_sequences c ! nat sid)) else None)"

section \<open>Initialisation\<close>

definition ceil_div_int :: "int \<Rightarrow> int \<Rightarrow> int result" where
  "ceil_div_int a b = rbind (cint32 (a + b)) (\<lambda>s. rbind (cint32 (s - 1)) (\<lambda>t. cdiv t b))"

definition paged_release :: "'f paged_cache \<Rightarrow> unit result \<times> 'f paged_cache" where
  "paged_release c = (make_ok, empty_paged)"

text \<open>\<open>for (int b = max_blocks_ - 1; b >= 0; --b) free_blocks_.push_back(b);\<close>\<close>

definition free_stack :: "int \<Rightarrow> int list" where
  "free_stack mb = map int (rev [0..<nat mb])"

definition paged_init ::
  "int \<Rightarrow> int \<Rightarrow> int \<Rightarrow> int \<Rightarrow> int \<Rightarrow> ('f :: zero) paged_cache \<Rightarrow> unit result \<times> 'f paged_cache"
where
  "paged_init nl nkv hdim bs mb c = sbind (paged_release c) (\<lambda>_ c0.
     if nl \<le> 0 \<or> nkv \<le> 0 \<or> hdim \<le> 0 \<or> bs \<le> 0 \<or> mb \<le> 0 then
       (Inl (invalid_argument
          ''PagedKVCache init requires positive layers, heads, head_dim, block_size, and max_blocks''), c0)
     else
       let c1 = c0\<lparr>pc_num_kv_heads := nkv, pc_head_dim := hdim, pc_block_size := bs, pc_max_blocks := mb\<rparr>
       in case pc_kv_hidden c1 of
            Inl e \<Rightarrow> (Inl e, c1)
          | Inr kvh \<Rightarrow>
              let block_floats = wrap64 (size_of_int bs * size_of_int kvh);
                  total = wrap64 (size_of_int mb * block_floats);
                  layer = \<lparr>pl_k = replicate total 0, pl_v = replicate total 0\<rparr>
              in (make_ok, c1\<lparr>pc_layers := replicate (nat nl) layer,
                    pc_block_used := replicate (nat mb) False,
                    pc_free_blocks := free_stack mb,
                    pc_sequences := []\<rparr>))"

definition zero_layer :: "('f :: zero) paged_layer \<Rightarrow> 'f paged_layer" where
  "zero_layer l = \<lparr>pl_k = map (\<lambda>_. 0) (pl_k l), pl_v = map (\<lambda>_. 0) (pl_v l)\<rparr>"

definition paged_reset :: "('f :: zero) paged_cache \<Rightarrow> 'f paged_cache" where
  "paged_reset c = c\<lparr>pc_layers := map zero_layer (pc_layers c),
     pc_block_used := replicate (size_of_int (pc_max_blocks c)) False,
     pc_free_blocks := free_stack (pc_max_blocks c),
     pc_sequences := []\<rparr>"

section \<open>Sequences and blocks\<close>

definition ensure_sequence :: "int \<Rightarrow> 'f paged_cache \<Rightarrow> unit result \<times> 'f paged_cache" where
  "ensure_sequence sid c =
     (if \<not> pc_initialized c then (Inl (runtime_error ''PagedKVCache is not initialized''), c)
      else if sid < 0 then (Inl (invalid_argument ''sequence_id must be non-negative''), c)
      else (make_ok, if length (pc_sequences c) \<le> nat sid
              then c\<lparr>pc_sequences := vec_resize empty_seq (nat sid + 1) (pc_sequences c)\<rparr> else c))"

text \<open>The loop of \<open>free_sequence\<close>: the used flags and the stack of free blocks.\<close>

fun free_loop :: "int \<Rightarrow> int list \<Rightarrow> bool list \<Rightarrow> int list \<Rightarrow> bool list \<times> int list" where
  "free_loop mb [] used free = (used, free)"
| "free_loop mb (b # bs) used free =
     (if 0 \<le> b \<and> b < mb \<and> used ! nat b
      then free_loop mb bs (used[nat b := False]) (free @ [b])
      else free_loop mb bs used free)"

definition free_sequence :: "int \<Rightarrow> 'f paged_cache \<Rightarrow> unit result \<times> 'f paged_cache" where
  "free_sequence sid c =
     (if \<not> known_sequence c sid then (make_ok, c)
      else let (used, free) = free_loop (pc_max_blocks c) (ps_blocks (pc_sequences c ! nat sid))
                                (pc_block_used c) (pc_free_blocks c)
           in (make_ok, c\<lparr>pc_free_blocks := free, pc_block_used := used,
                 pc_sequences := (pc_sequences c)[nat sid := empty_seq]\<rparr>))"

text \<open>The loop of \<open>reserve_sequence\<close>: pop a block, mark it used, append it to the table.\<close>

fun alloc_loop :: "nat \<Rightarrow> int list \<Rightarrow> bool list \<Rightarrow> int list \<Rightarrow> (int list \<times> bool list \<times> int list) result" where
  "alloc_loop 0 free used blocks = Inr (free, used, blocks)"
| "alloc_loop (Suc n) free used blocks =
     (if free = [] then Inl (UB ''back() of an empty vector'')
      else let b = last free in
        if 0 \<le> b \<and> nat b < length used
        then alloc_loop n (butlast free) (used[nat b := True]) (blocks @ [b])
        else Inl (UB ''block_used_ index out of range''))"

definition reserve_sequence :: "int \<Rightarrow> int \<Rightarrow> 'f paged_cache \<Rightarrow> unit result \<times> 'f paged_cache" where
  "reserve_sequence sid n c = sbind (ensure_sequence sid c) (\<lambda>_ c1.
     if n < 0 then (Inl (invalid_argument ''total_tokens must be non-negative''), c1)
     else let seq = pc_sequences c1 ! nat sid in
       case (if n = 0 then Inr 0 else ceil_div_int n (pc_block_size c1)) of
         Inl e \<Rightarrow> (Inl e, c1)
       | Inr needed \<Rightarrow>
           let current = int (length (ps_blocks seq)) in
           if needed \<le> current then (make_ok, c1)
           else if int (length (pc_free_blocks c1)) < needed - current then
             (Inl (out_of_range ''PagedKVCache does not have enough free blocks''), c1)
           else case alloc_loop (nat (needed - current)) (pc_free_blocks c1) (pc_block_used c1)
                       (ps_blocks seq) of
                  Inl e \<Rightarrow> (Inl e, c1)
                | Inr (free, used, blocks) \<Rightarrow>
                    (make_ok, c1\<lparr>pc_free_blocks := free, pc_block_used := used,
                       pc_sequences := (pc_sequences c1)[nat sid := seq\<lparr>ps_blocks := blocks\<rparr>]\<rparr>))"

definition set_sequence_length :: "int \<Rightarrow> int \<Rightarrow> 'f paged_cache \<Rightarrow> unit result \<times> 'f paged_cache" where
  "set_sequence_length sid len c =
     (if len < 0 then (Inl (invalid_argument ''sequence length must be non-negative''), c)
      else sbind (reserve_sequence sid len c) (\<lambda>_ c1.
        (make_ok, c1\<lparr>pc_sequences :=
           (pc_sequences c1)[nat sid := (pc_sequences c1 ! nat sid)\<lparr>ps_length := len\<rparr>]\<rparr>)))"

section \<open>Addressing\<close>

definition physical_block_for_position :: "'f paged_cache \<Rightarrow> int \<Rightarrow> int \<Rightarrow> int result" where
  "physical_block_for_position c sid pos =
     (if \<not> known_sequence c sid then Inl (not_found ''sequence not found in PagedKVCache'')
      else if pos < 0 then Inl (out_of_range ''token position must be non-negative'')
      else rbind (cdiv pos (pc_block_size c)) (\<lambda>logical.
        let blocks = ps_blocks (pc_sequences c ! nat sid) in
        if logical < 0 \<or> length blocks \<le> nat logical
        then Inl (out_of_range ''token position outside block table'')
        else Inr (blocks ! nat logical)))"

definition token_index :: "'f paged_cache \<Rightarrow> int \<Rightarrow> int \<Rightarrow> nat result" where
  "token_index c sid pos =
     rbind (physical_block_for_position c sid pos) (\<lambda>block.
       rbind (cmod pos (pc_block_size c)) (\<lambda>offset.
         rbind (pc_kv_hidden c) (\<lambda>kvh.
           let block_stride = wrap64 (size_of_int (pc_block_size c) * size_of_int kvh)
           in Inr (wrap64 (size_of_int block * block_stride + size_of_int offset * size_of_int kvh)))))"

definition mutable_token_ptr :: "'f paged_cache \<Rightarrow> int \<Rightarrow> int \<Rightarrow> int \<Rightarrow> nat result" where
  "mutable_token_ptr c sid layer pos =
     (if layer < 0 \<or> pc_num_layers c \<le> layer
      then Inl (out_of_range ''layer index out of range'')
      else token_index c sid pos)"

definition token_ptr :: "'f paged_cache \<Rightarrow> int \<Rightarrow> int \<Rightarrow> int \<Rightarrow> int \<Rightarrow> nat result" where
  "token_ptr c sid layer pos kv_head =
     (if layer < 0 \<or> pc_num_layers c \<le> layer
      then Inl (out_of_range ''layer index out of range'')
      else if kv_head < 0 \<or> pc_num_kv_heads c \<le> kv_head
      then Inl (out_of_range ''KV head index out of range'')
      else if pos < 0 \<or> sequence_length c sid \<le> pos
      then Inl (out_of_range ''token position outside sequence length'')
      else rbind (token_index c sid pos) (\<lambda>i.
        Inr (wrap64 (i + size_of_int kv_head * size_of_int (pc_head_dim c)))))"

text \<open>\<open>key_ptr\<close> and \<open>value_ptr\<close> select the K or the V storage of the layer.\<close>

definition layer_storage :: "bool \<Rightarrow> 'f paged_cache \<Rightarrow> int \<Rightarrow> 'f list" where
  "layer_storage key c layer =
     (if key then pl_k (pc_layers c ! nat layer) else pl_v (pc_layers c ! nat layer))"

text \<open>The \<open>head_dim\<close> floats behind such a pointer; reading past the vector is undefined.\<close>

definition read_floats :: "'f list \<Rightarrow> nat \<Rightarrow> nat \<Rightarrow> 'f list result" where
  "read_floats xs i n = (if i + n \<le> length xs then Inr (take n (drop i xs))
     else Inl (UB ''read outside the vector''))"

definition read_token :: "bool \<Rightarrow> 'f paged_cache \<Rightarrow> int \<Rightarrow> int \<Rightarrow> int \<Rightarrow> int \<Rightarrow> 'f list result" where
  "read_token key c sid layer pos kv_head =
     rbind (token_ptr c sid layer pos kv_head) (\<lambda>i.
       read_floats (layer_storage key c layer) i (nat (pc_head_dim c)))"

section \<open>Writing tokens\<close>

text \<open>\<open>std::memcpy\<close> of \<open>n\<close> floats between two vectors.\<close>

definition copy_floats :: "'f list \<Rightarrow> nat \<Rightarrow> 'f list \<Rightarrow> nat \<Rightarrow> nat \<Rightarrow> 'f list result" where
  "copy_floats dst di src si n =
     (if si + n \<le> length src \<and> di + n \<le> length dst
      then Inr (take di dst @ take n (drop si src) @ drop (di + n) dst)
      else Inl (UB ''memcpy outside a buffer''))"

definition write_row ::
  "int \<Rightarrow> int \<Rightarrow> int \<Rightarrow> nat \<Rightarrow> 'f list \<Rightarrow> 'f list \<Rightarrow> 'f paged_cache \<Rightarrow> 'f paged_cache result"
where
  "write_row sid layer pos t k v c =
     rbind (mutable_token_ptr c sid layer pos) (\<lambda>i.
       rbind (pc_kv_hidden c) (\<lambda>kvh.
         let l = pc_layers c ! nat layer; w = nat kvh in
         rbind (copy_floats (pl_k l) i k (t * w) w) (\<lambda>k'.
           rbind (copy_floats (pl_v l) i v (t * w) w) (\<lambda>v'.
             Inr (c\<lparr>pc_layers := (pc_layers c)[nat layer := \<lparr>pl_k = k', pl_v = v'\<rparr>]\<rparr>)))))"

fun write_loop ::
  "int \<Rightarrow> int \<Rightarrow> int \<Rightarrow> nat \<Rightarrow> nat \<Rightarrow> 'f list \<Rightarrow> 'f list \<Rightarrow> 'f paged_cache \<Rightarrow> unit result \<times> 'f paged_cache"
where
  "write_loop sid layer start t 0 k v c = (make_ok, c)"
| "write_loop sid layer start t (Suc n) k v c =
     (case write_row sid layer (start + int t) t k v c of
        Inl e \<Rightarrow> (Inl e, c)
      | Inr c' \<Rightarrow> write_loop sid layer start (Suc t) n k v c')"

text \<open>The K and V arguments are pointers: \<open>None\<close> is null.\<close>

definition write_tokens ::
  "int \<Rightarrow> int \<Rightarrow> int \<Rightarrow> 'f list option \<Rightarrow> 'f list option \<Rightarrow> int \<Rightarrow> 'f paged_cache
   \<Rightarrow> unit result \<times> 'f paged_cache"
where
  "write_tokens sid layer start k v cnt c =
     (case (k, v) of
        (Some kd, Some vd) \<Rightarrow>
          if start < 0 \<or> cnt < 0 then
            (Inl (invalid_argument ''start_pos and token_count must be non-negative''), c)
          else if layer < 0 \<or> pc_num_layers c \<le> layer then
            (Inl (out_of_range ''layer index out of range''), c)
          else if cnt = 0 then (make_ok, c)
          else (case cint32 (start + cnt) of
              Inl e \<Rightarrow> (Inl e, c)
            | Inr end_pos \<Rightarrow>
                sbind (reserve_sequence sid end_pos c) (\<lambda>_ c1.
                  sbind (write_loop sid layer start 0 (nat cnt) kd vd c1) (\<lambda>_ c2.
                    let seq = pc_sequences c2 ! nat sid in
                    (make_ok, c2\<lparr>pc_sequences := (pc_sequences c2)[nat sid :=
                       seq\<lparr>ps_length := max (ps_length seq) end_pos\<rparr>]\<rparr>))))
      | _ \<Rightarrow> (Inl (invalid_argument ''write_tokens requires non-null K/V''), c))"

definition append_tokens ::
  "int \<Rightarrow> int \<Rightarrow> 'f list option \<Rightarrow> 'f list option \<Rightarrow> int \<Rightarrow> 'f paged_cache
   \<Rightarrow> unit result \<times> 'f paged_cache"
where
  "append_tokens sid layer k v cnt c = write_tokens sid layer (sequence_length c sid) k v cnt c"

end
