(* ===== verification/Paged_Cache_Invariant.thy ===== *)
theory Paged_Cache_Invariant
  imports Paged_KV_Cache
begin

text \<open>
  The invariant of the paged cache and its preservation by every operation. The heart of it is
  conservation of blocks: the free stack and the block tables together hold every physical block
  exactly once, so no block is shared and none is lost.
\<close>

section \<open>The invariant\<close>

definition owned_blocks :: "'f paged_cache \<Rightarrow> int list" where
  "owned_blocks c = concat (map ps_blocks (pc_sequences c))"

definition kv_width :: "'f paged_cache \<Rightarrow> nat" where
  "kv_width c = nat (pc_num_kv_heads c * pc_head_dim c)"

definition storage_floats :: "'f paged_cache \<Rightarrow> nat" where
  "storage_floats c = nat (pc_max_blocks c) * nat (pc_block_size c) * kv_width c"

definition dims_ok :: "'f paged_cache \<Rightarrow> bool" where
  "dims_ok c \<longleftrightarrow> 0 < pc_num_kv_heads c \<and> 0 < pc_head_dim c \<and> 0 < pc_block_size c \<and> 0 < pc_max_blocks c
     \<and> int32_ok (pc_num_kv_heads c) \<and> int32_ok (pc_head_dim c)
     \<and> int32_ok (pc_block_size c) \<and> int32_ok (pc_max_blocks c)
     \<and> int32_ok (pc_num_kv_heads c * pc_head_dim c) \<and> storage_floats c < 2 ^ 64"

definition blocks_conserved :: "'f paged_cache \<Rightarrow> bool" where
  "blocks_conserved c \<longleftrightarrow>
     mset (pc_free_blocks c @ owned_blocks c) = mset (map int [0..<nat (pc_max_blocks c)])"

definition flags_agree :: "'f paged_cache \<Rightarrow> bool" where
  "flags_agree c \<longleftrightarrow> length (pc_block_used c) = nat (pc_max_blocks c) \<and>
     (\<forall>i < length (pc_block_used c). pc_block_used c ! i \<longleftrightarrow> int i \<in> set (owned_blocks c))"

definition seq_ok :: "int \<Rightarrow> paged_seq \<Rightarrow> bool" where
  "seq_ok bs s \<longleftrightarrow> 0 \<le> ps_length s \<and> ps_length s \<le> int (length (ps_blocks s)) * bs"

definition layers_ok :: "'f paged_cache \<Rightarrow> bool" where
  "layers_ok c \<longleftrightarrow> (\<forall>l \<in> set (pc_layers c).
     length (pl_k l) = storage_floats c \<and> length (pl_v l) = storage_floats c)"

definition paged_inv :: "'f paged_cache \<Rightarrow> bool" where
  "paged_inv c \<longleftrightarrow> dims_ok c \<and> blocks_conserved c \<and> flags_agree c
     \<and> (\<forall>s \<in> set (pc_sequences c). seq_ok (pc_block_size c) s) \<and> layers_ok c"

lemma paged_invD:
  assumes "paged_inv c"
  shows "dims_ok c" "blocks_conserved c" "flags_agree c" "layers_ok c"
    "\<And>s. s \<in> set (pc_sequences c) \<Longrightarrow> seq_ok (pc_block_size c) s"
  using assms by (simp_all add: paged_inv_def)

lemma paged_inv_initialized: "paged_inv c \<Longrightarrow> pc_initialized c"
  by (simp add: paged_inv_def dims_ok_def pc_initialized_def)

lemma empty_seq_ok [simp]: "seq_ok bs empty_seq"
  by (simp add: seq_ok_def empty_seq_def)

lemma empty_seq_simps [simp]: "ps_blocks empty_seq = []" "ps_length empty_seq = 0"
  by (simp_all add: empty_seq_def)

text \<open>What conservation says in terms of sets and positions.\<close>

lemma blocks_conserved_distinct:
  assumes "blocks_conserved c"
  shows "distinct (pc_free_blocks c @ owned_blocks c)"
proof -
  have "distinct (map int [0..<nat (pc_max_blocks c)])"
    by (simp add: distinct_map)
  then show ?thesis
    using assms unfolding blocks_conserved_def by (metis mset_eq_imp_distinct_iff)
qed

lemma blocks_conserved_set:
  assumes "blocks_conserved c"
  shows "set (pc_free_blocks c) \<union> set (owned_blocks c) = {b. 0 \<le> b \<and> b < pc_max_blocks c}"
proof -
  have "set (pc_free_blocks c @ owned_blocks c) = set (map int [0..<nat (pc_max_blocks c)])"
    using assms unfolding blocks_conserved_def by (rule mset_eq_setD)
  also have "\<dots> = {b. 0 \<le> b \<and> b < pc_max_blocks c}"
  proof -
    have "b \<in> int ` {0..<nat (pc_max_blocks c)}" if "0 \<le> b" and "b < pc_max_blocks c" for b
      using that by (intro image_eqI [of _ _ "nat b"]) auto
    then show ?thesis by auto
  qed
  finally show ?thesis by simp
qed

lemma blocks_conserved_length:
  assumes "blocks_conserved c" and "0 < pc_max_blocks c"
  shows "int (length (pc_free_blocks c)) + int (length (owned_blocks c)) = pc_max_blocks c"
proof -
  have "length (pc_free_blocks c @ owned_blocks c) = length (map int [0..<nat (pc_max_blocks c)])"
    using assms(1) unfolding blocks_conserved_def by (metis size_mset)
  with assms(2) show ?thesis by simp
qed

lemma seq_block_range:
  assumes "paged_inv c" and "i < length (pc_sequences c)" and "b \<in> set (ps_blocks (pc_sequences c ! i))"
  shows "0 \<le> b" "b < pc_max_blocks c" "b \<in> set (owned_blocks c)"
proof -
  have "b \<in> set (owned_blocks c)"
    using assms(2,3) unfolding owned_blocks_def by (rule in_concat_nth)
  then show "0 \<le> b" "b < pc_max_blocks c" "b \<in> set (owned_blocks c)"
    using blocks_conserved_set [OF paged_invD(2) [OF assms(1)]] by auto
qed

section \<open>The two loops\<close>

lemma alloc_loop_spec:
  assumes "n \<le> length free" and "\<forall>b \<in> set free. 0 \<le> b \<and> nat b < length used"
  shows "\<exists>used'. alloc_loop n free used blocks =
      Inr (take (length free - n) free, used', blocks @ rev (drop (length free - n) free))
    \<and> length used' = length used
    \<and> (\<forall>i < length used. used' ! i \<longleftrightarrow> used ! i \<or> int i \<in> set (drop (length free - n) free))"
  using assms
proof (induction n arbitrary: free used blocks)
  case (Suc n)
  from Suc.prems(1) have ne: "free \<noteq> []" by auto
  then obtain fs b where free: "free = fs @ [b]" by (metis rev_exhaust)
  from Suc.prems(2) free have b: "0 \<le> b" "nat b < length used" by auto
  obtain used' where u: "alloc_loop n fs (used[nat b := True]) (blocks @ [b]) =
        Inr (take (length fs - n) fs, used', (blocks @ [b]) @ rev (drop (length fs - n) fs))"
      and len: "length used' = length used"
      and upd: "\<forall>i < length used. used' ! i \<longleftrightarrow>
          (used[nat b := True]) ! i \<or> int i \<in> set (drop (length fs - n) fs)"
    using Suc.IH [of fs "used[nat b := True]" "blocks @ [b]"] Suc.prems free by auto
  have "used' ! i \<longleftrightarrow> used ! i \<or> int i \<in> set (drop (length free - Suc n) free)"
    if "i < length used" for i
    using upd [rule_format, OF that] that b Suc.prems(1)
    by (cases "int i = b") (auto simp: free nth_list_update Suc_diff_le)
  moreover have "alloc_loop (Suc n) free used blocks =
      Inr (take (length free - Suc n) free, used', blocks @ rev (drop (length free - Suc n) free))"
    using u b Suc.prems(1) by (simp add: free)
  ultimately show ?case using len by blast
qed simp

lemma free_loop_spec:
  assumes "distinct bs" and "\<forall>b \<in> set bs. 0 \<le> b \<and> b < mb \<and> nat b < length used \<and> used ! nat b"
  shows "\<exists>used'. free_loop mb bs used free = (used', free @ bs)
    \<and> length used' = length used
    \<and> (\<forall>i < length used. used' ! i \<longleftrightarrow> used ! i \<and> int i \<notin> set bs)"
  using assms
proof (induction bs arbitrary: used free)
  case (Cons b bs)
  have "\<forall>x \<in> set bs. 0 \<le> x \<and> x < mb \<and> nat x < length (used[nat b := False]) \<and> (used[nat b := False]) ! nat x"
    using Cons.prems by (auto simp: nth_list_update eq_nat_nat_iff)
  with Cons.IH [of "used[nat b := False]" "free @ [b]"] Cons.prems obtain used' where
      u: "free_loop mb bs (used[nat b := False]) (free @ [b]) = (used', (free @ [b]) @ bs)"
      and len: "length used' = length used"
      and upd: "\<forall>i < length used. used' ! i \<longleftrightarrow> (used[nat b := False]) ! i \<and> int i \<notin> set bs"
    by auto
  have "used' ! i \<longleftrightarrow> used ! i \<and> int i \<notin> set (b # bs)" if "i < length used" for i
    using upd [rule_format, OF that] that Cons.prems(2)
    by (cases "int i = b") (auto simp: nth_list_update)
  moreover have "free_loop mb (b # bs) used free = (used', free @ b # bs)"
    using u Cons.prems(2) by simp
  ultimately show ?case using len by auto
qed simp

section \<open>Frames\<close>

text \<open>The fields that fix the geometry of the cache.\<close>

definition same_geometry :: "'f paged_cache \<Rightarrow> 'f paged_cache \<Rightarrow> bool" where
  "same_geometry c d \<longleftrightarrow> pc_num_kv_heads d = pc_num_kv_heads c \<and> pc_head_dim d = pc_head_dim c
     \<and> pc_block_size d = pc_block_size c \<and> pc_max_blocks d = pc_max_blocks c
     \<and> length (pc_layers d) = length (pc_layers c)"

lemma same_geometry_refl [simp]: "same_geometry c c"
  by (simp add: same_geometry_def)

lemma same_geometry_trans: "same_geometry a b \<Longrightarrow> same_geometry b c \<Longrightarrow> same_geometry a c"
  by (simp add: same_geometry_def)

lemma same_geometry_dims:
  "same_geometry c d \<Longrightarrow> dims_ok d = dims_ok c"
  "same_geometry c d \<Longrightarrow> storage_floats d = storage_floats c"
  "same_geometry c d \<Longrightarrow> kv_width d = kv_width c"
  by (simp_all add: same_geometry_def dims_ok_def storage_floats_def kv_width_def)

text \<open>An invariant state with other sequences, flags and free blocks of the same geometry.\<close>

lemma paged_inv_update:
  assumes "paged_inv c"
    and "mset (free @ concat (map ps_blocks seqs)) = mset (pc_free_blocks c @ owned_blocks c)"
    and "length used = length (pc_block_used c)"
    and "\<forall>i < length used. used ! i \<longleftrightarrow> int i \<in> set (concat (map ps_blocks seqs))"
    and "\<forall>s \<in> set seqs. seq_ok (pc_block_size c) s"
  shows "paged_inv (c\<lparr>pc_free_blocks := free, pc_block_used := used, pc_sequences := seqs\<rparr>)"
  using assms
  by (simp add: paged_inv_def dims_ok_def blocks_conserved_def flags_agree_def layers_ok_def
      storage_floats_def kv_width_def owned_blocks_def)

text \<open>Changing one sequence's length only.\<close>

lemma paged_inv_set_length:
  assumes "paged_inv c" and "i < length (pc_sequences c)"
    and "seq_ok (pc_block_size c) (s\<lparr>ps_length := n\<rparr>)" and "s = pc_sequences c ! i"
  shows "paged_inv (c\<lparr>pc_sequences := (pc_sequences c)[i := s\<lparr>ps_length := n\<rparr>]\<rparr>)"
proof -
  have blocks: "map ps_blocks ((pc_sequences c)[i := s\<lparr>ps_length := n\<rparr>]) = map ps_blocks (pc_sequences c)"
    using assms(2,4) by (simp add: map_update list_update_same_conv)
  have seqs: "\<forall>x \<in> set ((pc_sequences c)[i := s\<lparr>ps_length := n\<rparr>]). seq_ok (pc_block_size c) x"
    using assms(1,3) set_update_subset_insert [of "pc_sequences c" i] by (auto simp: paged_inv_def)
  show ?thesis
    using assms(1) blocks seqs
    by (simp add: paged_inv_def dims_ok_def blocks_conserved_def flags_agree_def layers_ok_def
        storage_floats_def kv_width_def owned_blocks_def)
qed

section \<open>Operations on sequences\<close>

lemma owned_resize:
  "length (pc_sequences c) \<le> n \<Longrightarrow>
   concat (map ps_blocks (vec_resize empty_seq n (pc_sequences c))) = owned_blocks c"
  by (simp add: vec_resize_ge owned_blocks_def concat_replicate_trivial)

lemma ensure_sequence_cases:
  assumes "ensure_sequence sid c = (r, c')"
  obtains (bad) e where "r = Inl e" and "is_status e" and "c' = c" and "\<not> pc_initialized c \<or> sid < 0"
    | (ok) "r = make_ok" and "pc_initialized c" and "0 \<le> sid"
        and "c' = (if length (pc_sequences c) \<le> nat sid
               then c\<lparr>pc_sequences := vec_resize empty_seq (nat sid + 1) (pc_sequences c)\<rparr> else c)"
  using assms by (auto simp: ensure_sequence_def split: if_splits)

lemma ensure_sequence_inv [invariant_intros]:
  assumes "paged_inv c" and "ensure_sequence sid c = (r, c')"
  shows "paged_inv c' \<and> same_geometry c c'"
  using assms(2)
proof (cases rule: ensure_sequence_cases)
  case bad
  with assms(1) show ?thesis by simp
next
  case ok
  have "paged_inv (c\<lparr>pc_sequences := vec_resize empty_seq (nat sid + 1) (pc_sequences c)\<rparr>)"
    if "length (pc_sequences c) \<le> nat sid"
    using assms(1) that owned_resize [of c "nat sid + 1"]
    by (auto simp: paged_inv_def dims_ok_def blocks_conserved_def flags_agree_def layers_ok_def
        storage_floats_def kv_width_def owned_blocks_def vec_resize_ge)
  with ok assms(1) show ?thesis by (auto simp: same_geometry_def)
qed

text \<open>After it, the sequence is there; sequences that were there are untouched.\<close>

lemma ensure_sequence_ok:
  assumes "ensure_sequence sid c = (make_ok, c')"
  shows "0 \<le> sid \<and> nat sid < length (pc_sequences c')
     \<and> pc_free_blocks c' = pc_free_blocks c \<and> pc_block_used c' = pc_block_used c
     \<and> pc_layers c' = pc_layers c
     \<and> owned_blocks c' = owned_blocks c
     \<and> (\<forall>i. i < length (pc_sequences c) \<longrightarrow> pc_sequences c' ! i = pc_sequences c ! i)
     \<and> (\<forall>i. length (pc_sequences c) \<le> i \<longrightarrow> i < length (pc_sequences c') \<longrightarrow> pc_sequences c' ! i = empty_seq)"
  using assms owned_resize [of c "nat sid + 1"]
  by (cases rule: ensure_sequence_cases) (auto simp: owned_blocks_def split: if_splits)

text \<open>The abstract contents of one sequence: its length and its block table.\<close>

definition seq_of :: "'f paged_cache \<Rightarrow> int \<Rightarrow> paged_seq" where
  "seq_of c sid = (if known_sequence c sid then pc_sequences c ! nat sid else empty_seq)"

lemma seq_of_views:
  "sequence_length c sid = ps_length (seq_of c sid)"
  "has_sequence c sid \<longleftrightarrow> ps_blocks (seq_of c sid) \<noteq> [] \<or> 0 < ps_length (seq_of c sid)"
  by (auto simp: sequence_length_def has_sequence_def seq_of_def)

lemma seq_of_ok: "paged_inv c \<Longrightarrow> seq_ok (pc_block_size c) (seq_of c sid)"
  by (simp add: seq_of_def known_sequence_def paged_inv_def)

lemma ensure_sequence_seq_of:
  assumes "ensure_sequence sid c = (make_ok, c')"
  shows "seq_of c' s = seq_of c s" "known_sequence c' sid"
proof -
  note ok = ensure_sequence_ok [OF assms]
  have len: "length (pc_sequences c) \<le> length (pc_sequences c')"
    using assms by (cases rule: ensure_sequence_cases) auto
  show "known_sequence c' sid" using ok by (simp add: known_sequence_def)
  show "seq_of c' s = seq_of c s"
    using ok len by (auto simp: seq_of_def known_sequence_def)
qed

subsection \<open>Freeing\<close>

lemma free_sequence_spec:
  assumes "paged_inv c" and "known_sequence c sid"
  shows "\<exists>used. free_sequence sid c = (make_ok, c\<lparr>pc_free_blocks := pc_free_blocks c @ ps_blocks (seq_of c sid),
            pc_block_used := used,
            pc_sequences := (pc_sequences c)[nat sid := empty_seq]\<rparr>)
      \<and> length used = length (pc_block_used c)
      \<and> (\<forall>i < length used. used ! i \<longleftrightarrow> pc_block_used c ! i \<and> int i \<notin> set (ps_blocks (seq_of c sid)))"
proof -
  let ?bs = "ps_blocks (seq_of c sid)"
  have i: "nat sid < length (pc_sequences c)" using assms(2) by (simp add: known_sequence_def)
  have bs: "?bs = ps_blocks (pc_sequences c ! nat sid)" using assms(2) by (simp add: seq_of_def)
  have "distinct (owned_blocks c)"
    using blocks_conserved_distinct [OF paged_invD(2) [OF assms(1)]] by simp
  then have d: "distinct ?bs"
    unfolding bs owned_blocks_def using i by (rule distinct_concat_nth_distinct)
  have "\<forall>b \<in> set ?bs. 0 \<le> b \<and> b < pc_max_blocks c \<and> nat b < length (pc_block_used c) \<and> pc_block_used c ! nat b"
    using seq_block_range [OF assms(1) i] paged_invD(3) [OF assms(1)] paged_invD(1) [OF assms(1)]
    unfolding bs flags_agree_def dims_ok_def by force
  from free_loop_spec [OF d this, of "pc_free_blocks c"] obtain used where
    "free_loop (pc_max_blocks c) ?bs (pc_block_used c) (pc_free_blocks c) = (used, pc_free_blocks c @ ?bs)"
    "length used = length (pc_block_used c)"
    "\<forall>i < length (pc_block_used c). used ! i \<longleftrightarrow> pc_block_used c ! i \<and> int i \<notin> set ?bs"
    by blast
  then show ?thesis
    using assms(2) bs by (auto simp: free_sequence_def)
qed

lemma owned_after_clear:
  assumes "i < length seqs"
  shows "mset (concat (map ps_blocks (seqs[i := empty_seq]))) + mset (ps_blocks (seqs ! i))
    = mset (concat (map ps_blocks seqs))"
  using mset_concat_update [OF assms, of ps_blocks empty_seq] by simp

lemma free_sequence_inv [invariant_intros]:
  assumes "paged_inv c" and "free_sequence sid c = (r, c')"
  shows "paged_inv c' \<and> same_geometry c c' \<and> r = make_ok"
proof (cases "known_sequence c sid")
  case False
  with assms show ?thesis by (auto simp: free_sequence_def)
next
  case True
  let ?bs = "ps_blocks (seq_of c sid)" and ?seqs = "(pc_sequences c)[nat sid := empty_seq]"
  have i: "nat sid < length (pc_sequences c)" using True by (simp add: known_sequence_def)
  have bs: "?bs = ps_blocks (pc_sequences c ! nat sid)" using True by (simp add: seq_of_def)
  obtain used where
    eq: "free_sequence sid c = (make_ok, c\<lparr>pc_free_blocks := pc_free_blocks c @ ?bs,
            pc_block_used := used, pc_sequences := ?seqs\<rparr>)"
    and len: "length used = length (pc_block_used c)"
    and upd: "\<forall>i < length used. used ! i \<longleftrightarrow> pc_block_used c ! i \<and> int i \<notin> set ?bs"
    using free_sequence_spec [OF assms(1) True] by blast
  have ms: "mset (concat (map ps_blocks ?seqs)) + mset ?bs = mset (owned_blocks c)"
    using owned_after_clear [OF i] by (simp add: bs owned_blocks_def)
  then have "mset ((pc_free_blocks c @ ?bs) @ concat (map ps_blocks ?seqs))
      = mset (pc_free_blocks c @ owned_blocks c)"
    by (simp add: add_ac)
  moreover have "\<forall>j < length used. used ! j \<longleftrightarrow> int j \<in> set (concat (map ps_blocks ?seqs))"
  proof (intro allI impI)
    fix j assume j: "j < length used"
    have dist: "distinct (owned_blocks c)"
      using blocks_conserved_distinct [OF paged_invD(2) [OF assms(1)]] by simp
    have "distinct (concat (map ps_blocks ?seqs) @ ?bs)"
      using dist ms by (metis mset_append mset_eq_imp_distinct_iff)
    moreover have "set (owned_blocks c) = set (concat (map ps_blocks ?seqs)) \<union> set ?bs"
      using ms by (metis set_mset_mset set_mset_union)
    ultimately show "used ! j \<longleftrightarrow> int j \<in> set (concat (map ps_blocks ?seqs))"
      using upd j len paged_invD(3) [OF assms(1)] by (auto simp: flags_agree_def)
  qed
  moreover have "\<forall>s \<in> set ?seqs. seq_ok (pc_block_size c) s"
    using assms(1) set_update_subset_insert [of "pc_sequences c" "nat sid" empty_seq]
    by (auto simp: paged_inv_def)
  ultimately have "paged_inv (c\<lparr>pc_free_blocks := pc_free_blocks c @ ?bs, pc_block_used := used,
      pc_sequences := ?seqs\<rparr>)"
    using assms(1) len by (intro paged_inv_update) auto
  with eq assms(2) show ?thesis by (auto simp: same_geometry_def)
qed

subsection \<open>Reserving\<close>

definition blocks_needed :: "int \<Rightarrow> int \<Rightarrow> int" where
  "blocks_needed n bs = (if n = 0 then 0 else (n + bs - 1) div bs)"

lemma blocks_needed_bounds:
  assumes "0 \<le> n" and "0 < bs"
  shows "0 \<le> blocks_needed n bs" "n \<le> blocks_needed n bs * bs"
    "0 < blocks_needed n bs \<Longrightarrow> (blocks_needed n bs - 1) * bs < n"
proof -
  define q r where "q = (n + bs - 1) div bs" and "r = (n + bs - 1) mod bs"
  have eq: "q * bs + r = n + bs - 1" and r: "0 \<le> r" "r < bs"
    using assms by (simp_all add: q_def r_def)
  have b: "blocks_needed n bs = (if n = 0 then 0 else q)"
    by (simp add: blocks_needed_def q_def)
  show "0 \<le> blocks_needed n bs"
    using assms by (simp add: blocks_needed_def pos_imp_zdiv_nonneg_iff)
  show "n \<le> blocks_needed n bs * bs"
    using eq r by (simp add: b)
  show "0 < blocks_needed n bs \<Longrightarrow> (blocks_needed n bs - 1) * bs < n"
    using eq r by (simp add: b left_diff_distrib split: if_splits)
qed

lemma blocks_needed_le:
  assumes "0 \<le> n" and "0 < bs" and "0 \<le> m" and "n \<le> m * bs"
  shows "blocks_needed n bs \<le> m"
proof (rule ccontr)
  assume "\<not> blocks_needed n bs \<le> m"
  then have gt: "m \<le> blocks_needed n bs - 1" "0 < blocks_needed n bs" using assms(3) by simp_all
  have "m * bs \<le> (blocks_needed n bs - 1) * bs" using gt(1) assms(2) by (intro mult_right_mono) simp_all
  with blocks_needed_bounds(3) [OF assms(1,2) gt(2)] assms(4) show False by linarith
qed

lemma ceil_div_int_ok:
  assumes "0 < n" and "0 < bs" and "int32_ok (n + bs)"
  shows "ceil_div_int n bs = Inr (blocks_needed n bs)"
proof -
  have "int32_ok (n + bs - 1)"
    using assms int32_ok_between [of "n + bs" "n + bs - 1"] by simp
  then have "ceil_div_int n bs = cdiv (n + bs - 1) bs"
    using assms by (simp only: ceil_div_int_def cint32_ok rbind_simps)
  also have "\<dots> = Inr ((n + bs - 1) div bs)"
    using assms by (intro cdiv_nonneg) auto
  finally show ?thesis
    using assms by (simp add: blocks_needed_def)
qed

lemma needed_ok:
  assumes "0 \<le> n" and "0 < bs" and "int32_ok (n + bs)"
  shows "(if n = 0 then Inr 0 else ceil_div_int n bs) = Inr (blocks_needed n bs)"
  using assms ceil_div_int_ok [of n bs] by (cases "n = 0") (auto simp: blocks_needed_def)

text \<open>The state after \<open>k\<close> blocks moved from the stack to the table of \<open>sid\<close>.\<close>

lemma reserve_update_inv:
  assumes inv: "paged_inv c" and known: "known_sequence c sid" and k: "k \<le> length (pc_free_blocks c)"
    and used: "length used = length (pc_block_used c)"
      "\<forall>i < length (pc_block_used c). used ! i \<longleftrightarrow> pc_block_used c ! i
         \<or> int i \<in> set (drop (length (pc_free_blocks c) - k) (pc_free_blocks c))"
    and blocks: "blocks = ps_blocks (seq_of c sid) @ rev (drop (length (pc_free_blocks c) - k) (pc_free_blocks c))"
  shows "paged_inv (c\<lparr>pc_free_blocks := take (length (pc_free_blocks c) - k) (pc_free_blocks c),
      pc_block_used := used,
      pc_sequences := (pc_sequences c)[nat sid := (seq_of c sid)\<lparr>ps_blocks := blocks\<rparr>]\<rparr>)"
proof (rule paged_inv_update [OF inv])
  let ?free = "pc_free_blocks c" and ?seqs = "(pc_sequences c)[nat sid := (seq_of c sid)\<lparr>ps_blocks := blocks\<rparr>]"
  let ?new = "drop (length ?free - k) ?free"
  have i: "nat sid < length (pc_sequences c)" using known by (simp add: known_sequence_def)
  have seq: "seq_of c sid = pc_sequences c ! nat sid" using known by (simp add: seq_of_def)
  have owned: "mset (concat (map ps_blocks ?seqs)) = mset (owned_blocks c) + mset ?new"
    using mset_concat_update [OF i, of ps_blocks "(seq_of c sid)\<lparr>ps_blocks := blocks\<rparr>"]
    by (simp add: blocks seq owned_blocks_def add_ac)
  have split: "mset ?free = mset (take (length ?free - k) ?free) + mset ?new"
    by (metis append_take_drop_id mset_append)
  show "mset (take (length ?free - k) ?free @ concat (map ps_blocks ?seqs)) = mset (?free @ owned_blocks c)"
    using owned split by (simp add: add_ac)
  show "length used = length (pc_block_used c)" by (rule used)
  have "set (concat (map ps_blocks ?seqs)) = set (owned_blocks c) \<union> set ?new"
    using owned by (metis set_mset_mset set_mset_union)
  then show "\<forall>i<length used. used ! i = (int i \<in> set (concat (map ps_blocks ?seqs)))"
    using used paged_invD(3) [OF inv] by (auto simp: flags_agree_def)
  have "int (length (ps_blocks (seq_of c sid))) * pc_block_size c \<le> int (length blocks) * pc_block_size c"
    using paged_invD(1) [OF inv] by (intro mult_right_mono) (auto simp: blocks dims_ok_def)
  then have "seq_ok (pc_block_size c) ((seq_of c sid)\<lparr>ps_blocks := blocks\<rparr>)"
    using seq_of_ok [OF inv, of sid] by (simp add: seq_ok_def)
  then show "\<forall>s\<in>set ?seqs. seq_ok (pc_block_size c) s"
    using inv set_update_subset_insert [of "pc_sequences c" "nat sid"] by (auto simp: paged_inv_def)
qed

lemma seq_of_update:
  assumes "known_sequence c sid"
  shows "seq_of (c\<lparr>pc_free_blocks := f, pc_block_used := u,
      pc_sequences := (pc_sequences c)[nat sid := x]\<rparr>) s = (if s = sid then x else seq_of c s)"
    "seq_of (c\<lparr>pc_sequences := (pc_sequences c)[nat sid := x]\<rparr>) s = (if s = sid then x else seq_of c s)"
  using assms by (auto simp: seq_of_def known_sequence_def nth_list_update eq_nat_nat_iff)

definition reserve_outcome ::
  "'f paged_cache \<Rightarrow> int \<Rightarrow> int \<Rightarrow> unit result \<Rightarrow> 'f paged_cache \<Rightarrow> bool"
where
  "reserve_outcome c sid n r c' \<longleftrightarrow>
     (let free = pc_free_blocks c; old = ps_blocks (seq_of c sid);
          k = nat (blocks_needed n (pc_block_size c) - int (length old))
      in pc_layers c' = pc_layers c \<and> known_sequence c' sid \<and>
         (if k \<le> length free
          then r = make_ok \<and> pc_free_blocks c' = take (length free - k) free
            \<and> seq_of c' = (seq_of c)(sid := (seq_of c sid)\<lparr>ps_blocks := old @ rev (drop (length free - k) free)\<rparr>)
          else r = Inl (out_of_range ''PagedKVCache does not have enough free blocks'')
            \<and> pc_free_blocks c' = free \<and> seq_of c' = seq_of c))"

lemma reserve_sequence_spec:
  assumes inv: "paged_inv c" and sid: "0 \<le> sid" and n: "0 \<le> n" "int32_ok (n + pc_block_size c)"
  shows "\<exists>r c'. reserve_sequence sid n c = (r, c') \<and> reserve_outcome c sid n r c' \<and> paged_inv c'
    \<and> same_geometry c c'"
proof -
  obtain c1 where e: "ensure_sequence sid c = (make_ok, c1)"
    using sid paged_inv_initialized [OF inv] by (auto simp: ensure_sequence_def)
  note ok = ensure_sequence_ok [OF e] and views = ensure_sequence_seq_of [OF e]
  from ensure_sequence_inv [OF inv e] have inv1: "paged_inv c1" and geo: "same_geometry c c1" by simp_all
  have bs: "pc_block_size c1 = pc_block_size c" "0 < pc_block_size c"
    using geo paged_invD(1) [OF inv] by (simp_all add: same_geometry_def dims_ok_def)
  let ?free = "pc_free_blocks c" and ?old = "ps_blocks (seq_of c sid)"
  let ?k = "nat (blocks_needed n (pc_block_size c) - int (length ?old))"
  have seq1: "pc_sequences c1 ! nat sid = seq_of c sid"
    using views by (metis seq_of_def)
  have need: "(if n = 0 then Inr 0 else ceil_div_int n (pc_block_size c1)) = Inr (blocks_needed n (pc_block_size c))"
    using needed_ok [of n "pc_block_size c"] n bs by (simp only: bs)
  have run: "reserve_sequence sid n c = (if blocks_needed n (pc_block_size c) \<le> int (length ?old) then (make_ok, c1)
      else if int (length ?free) < blocks_needed n (pc_block_size c) - int (length ?old) then
        (Inl (out_of_range ''PagedKVCache does not have enough free blocks''), c1)
      else case alloc_loop ?k ?free (pc_block_used c) ?old of
         Inl e \<Rightarrow> (Inl e, c1)
       | Inr (free, used, blocks) \<Rightarrow> (make_ok, c1\<lparr>pc_free_blocks := free, pc_block_used := used,
            pc_sequences := (pc_sequences c1)[nat sid := (seq_of c sid)\<lparr>ps_blocks := blocks\<rparr>]\<rparr>))"
    unfolding reserve_sequence_def e sbind_simps Let_def seq1 need using n ok by simp
  consider "?k = 0" | "0 < ?k" "?k \<le> length ?free" | "length ?free < ?k" by linarith
  then show ?thesis
  proof cases
    case 1
    then have "reserve_sequence sid n c = (make_ok, c1)" using run by simp
    moreover have "reserve_outcome c sid n make_ok c1"
      using 1 ok views by (auto simp: reserve_outcome_def Let_def)
    ultimately show ?thesis using inv1 geo by blast
  next
    case 3
    then have "reserve_sequence sid n c =
        (Inl (out_of_range ''PagedKVCache does not have enough free blocks''), c1)" using run by simp
    moreover have "reserve_outcome c sid n (Inl (out_of_range ''PagedKVCache does not have enough free blocks'')) c1"
      using 3 ok views by (auto simp: reserve_outcome_def Let_def)
    ultimately show ?thesis using inv1 geo by blast
  next
    case 2
    have range: "\<forall>b \<in> set ?free. 0 \<le> b \<and> nat b < length (pc_block_used c)"
      using blocks_conserved_set [OF paged_invD(2) [OF inv]] paged_invD(3) [OF inv] bs(2)
        paged_invD(1) [OF inv] by (auto simp: flags_agree_def dims_ok_def)
    from alloc_loop_spec [OF 2(2) range, of ?old] obtain used where
      a: "alloc_loop ?k ?free (pc_block_used c) ?old = Inr (take (length ?free - ?k) ?free, used,
           ?old @ rev (drop (length ?free - ?k) ?free))"
      and len: "length used = length (pc_block_used c)"
      and upd: "\<forall>i<length (pc_block_used c). used ! i \<longleftrightarrow> pc_block_used c ! i
           \<or> int i \<in> set (drop (length ?free - ?k) ?free)" by blast
    let ?c' = "c1\<lparr>pc_free_blocks := take (length ?free - ?k) ?free, pc_block_used := used,
        pc_sequences := (pc_sequences c1)[nat sid :=
          (seq_of c sid)\<lparr>ps_blocks := ?old @ rev (drop (length ?free - ?k) ?free)\<rparr>]\<rparr>"
    have r: "reserve_sequence sid n c = (make_ok, ?c')"
      using run 2 a by simp
    have "paged_inv ?c'"
      using reserve_update_inv [OF inv1 views(2), of ?k used] 2 len upd ok views(1) by simp
    moreover have "reserve_outcome c sid n make_ok ?c'"
      using 2 ok views seq_of_update(1) [OF views(2)]
      by (auto simp: reserve_outcome_def Let_def known_sequence_def)
    moreover have "same_geometry c ?c'" using geo by (simp add: same_geometry_def)
    ultimately show ?thesis using r by blast
  qed
qed

end
