(* ===== verification/Paged_Cache_Tokens.thy ===== *)
theory Paged_Cache_Tokens
  imports Paged_Cache_Invariant
begin

text \<open>
  The token rows of the paged cache: where a row lies, that no two tokens share one, and what
  reading, writing and appending do to the rows of every sequence. The abstract view is
  \<open>token_row\<close>, the row of floats that a sequence holds at a token position of a layer.
\<close>

section \<open>Rows\<close>

text \<open>The number of the physical row that holds a token position.\<close>

definition has_slot :: "'f paged_cache \<Rightarrow> int \<Rightarrow> int \<Rightarrow> bool" where
  "has_slot c sid pos \<longleftrightarrow> 0 \<le> pos \<and> known_sequence c sid \<and>
     nat (pos div pc_block_size c) < length (ps_blocks (seq_of c sid))"

definition slot_block :: "'f paged_cache \<Rightarrow> int \<Rightarrow> int \<Rightarrow> int" where
  "slot_block c sid pos = ps_blocks (seq_of c sid) ! nat (pos div pc_block_size c)"

definition row_index :: "'f paged_cache \<Rightarrow> int \<Rightarrow> int \<Rightarrow> nat" where
  "row_index c sid pos =
     nat (slot_block c sid pos) * nat (pc_block_size c) + nat (pos mod pc_block_size c)"

definition token_row :: "bool \<Rightarrow> 'f paged_cache \<Rightarrow> int \<Rightarrow> int \<Rightarrow> int \<Rightarrow> 'f list" where
  "token_row key c sid layer pos = row_at (kv_width c) (row_index c sid pos) (layer_storage key c layer)"

definition valid_layer :: "'f paged_cache \<Rightarrow> int \<Rightarrow> bool" where
  "valid_layer c layer \<longleftrightarrow> 0 \<le> layer \<and> layer < pc_num_layers c"

lemma slot_below_length:
  assumes "paged_inv c" and "0 \<le> pos" and "pos < sequence_length c sid"
  shows "has_slot c sid pos"
proof -
  have known: "known_sequence c sid"
    using assms by (auto simp: sequence_length_def split: if_splits)
  have bs: "0 < pc_block_size c" using paged_invD(1) [OF assms(1)] by (simp add: dims_ok_def)
  have "pos < int (length (ps_blocks (seq_of c sid))) * pc_block_size c"
    using assms(3) seq_of_ok [OF assms(1), of sid] by (simp add: seq_of_views seq_ok_def)
  then have "pos div pc_block_size c < int (length (ps_blocks (seq_of c sid)))"
    using bs by (intro int_div_less)
  then have "nat (pos div pc_block_size c) < length (ps_blocks (seq_of c sid))"
    using assms(2) bs by (simp add: nat_less_iff pos_imp_zdiv_nonneg_iff)
  with known assms(2) show ?thesis by (simp add: has_slot_def)
qed

lemma slot_block_range:
  assumes "paged_inv c" and "has_slot c sid pos"
  shows "0 \<le> slot_block c sid pos" "slot_block c sid pos < pc_max_blocks c"
proof -
  have i: "nat sid < length (pc_sequences c)"
    using assms(2) by (simp add: has_slot_def known_sequence_def)
  have "slot_block c sid pos \<in> set (ps_blocks (pc_sequences c ! nat sid))"
    using assms(2) by (auto simp: slot_block_def has_slot_def seq_of_def)
  from seq_block_range [OF assms(1) i this]
  show "0 \<le> slot_block c sid pos" "slot_block c sid pos < pc_max_blocks c" by simp_all
qed

lemma row_index_bound:
  assumes "paged_inv c" and "has_slot c sid pos"
  shows "row_index c sid pos < nat (pc_max_blocks c) * nat (pc_block_size c)"
proof -
  have bs: "0 < pc_block_size c" using paged_invD(1) [OF assms(1)] by (simp add: dims_ok_def)
  have "nat (pos mod pc_block_size c) < nat (pc_block_size c)" using bs by simp
  moreover have "nat (slot_block c sid pos) < nat (pc_max_blocks c)"
    using slot_block_range [OF assms] by simp
  then have "nat (slot_block c sid pos) * nat (pc_block_size c) + nat (pc_block_size c)
      \<le> nat (pc_max_blocks c) * nat (pc_block_size c)" by (rule row_fits)
  ultimately show ?thesis unfolding row_index_def by linarith
qed

lemma row_in_storage:
  assumes "paged_inv c" and "has_slot c sid pos"
  shows "row_index c sid pos * kv_width c + kv_width c \<le> storage_floats c"
  using row_fits [OF row_index_bound [OF assms]] by (simp add: storage_floats_def)

text \<open>No two tokens, of the same or of different sequences, share a physical row.\<close>

lemma row_index_inj:
  assumes inv: "paged_inv c" and a: "has_slot c s p" and b: "has_slot c s' p'"
    and eq: "row_index c s p = row_index c s' p'"
  shows "s = s' \<and> p = p'"
proof -
  let ?bs = "pc_block_size c"
  have bs: "0 < ?bs" using paged_invD(1) [OF inv] by (simp add: dims_ok_def)
  have pos: "0 \<le> p" "0 \<le> p'" "0 \<le> s" "0 \<le> s'"
    and i: "nat s < length (pc_sequences c)" "nat s' < length (pc_sequences c)"
    using a b by (simp_all add: has_slot_def known_sequence_def)
  have m: "nat (p mod ?bs) < nat ?bs" "nat (p' mod ?bs) < nat ?bs" using bs by simp_all
  have "nat (slot_block c s p) = row_index c s p div nat ?bs"
    and "nat (p mod ?bs) = row_index c s p mod nat ?bs"
    and "nat (slot_block c s' p') = row_index c s' p' div nat ?bs"
    and "nat (p' mod ?bs) = row_index c s' p' mod nat ?bs"
    using m bs by (simp_all add: row_index_def)
  with eq have blk: "slot_block c s p = slot_block c s' p'" and off: "p mod ?bs = p' mod ?bs"
    using slot_block_range [OF inv a] slot_block_range [OF inv b] bs
      pos_mod_sign [OF bs, of p] pos_mod_sign [OF bs, of p']
    by (simp_all only: eq_nat_nat_iff)
  have dist: "distinct (concat (map ps_blocks (pc_sequences c)))"
    using blocks_conserved_distinct [OF paged_invD(2) [OF inv]] by (simp add: owned_blocks_def)
  have "nat s = nat s'"
    using distinct_concat_nth [OF dist i, of "slot_block c s p"] a b blk
    by (metis has_slot_def nth_mem seq_of_def slot_block_def)
  then have ss: "s = s'" using pos by simp
  have "distinct (ps_blocks (seq_of c s))"
    using distinct_concat_nth_distinct [OF dist i(1)] a by (simp add: seq_of_def has_slot_def)
  then have "nat (p div ?bs) = nat (p' div ?bs)"
    using a b blk ss by (simp add: has_slot_def slot_block_def nth_eq_iff_index_eq)
  then have "p div ?bs = p' div ?bs"
    using pos bs by (simp add: eq_nat_nat_iff pos_imp_zdiv_nonneg_iff)
  with off have "p = p'" by (metis mult_div_mod_eq)
  with ss show ?thesis by simp
qed

section \<open>Addresses\<close>

lemma kv_hidden_ok:
  assumes "paged_inv c"
  shows "pc_kv_hidden c = Inr (int (kv_width c))" "0 < kv_width c" "int32_ok (int (kv_width c))"
proof -
  have d: "dims_ok c" by (rule paged_invD(1) [OF assms])
  then have p: "0 < pc_num_kv_heads c * pc_head_dim c" by (simp add: dims_ok_def)
  with d show "pc_kv_hidden c = Inr (int (kv_width c))" "0 < kv_width c" "int32_ok (int (kv_width c))"
    by (simp_all add: pc_kv_hidden_def kv_width_def cint32_ok dims_ok_def)
qed

lemma physical_block_ok:
  assumes "paged_inv c" and "has_slot c sid pos"
  shows "physical_block_for_position c sid pos = Inr (slot_block c sid pos)"
proof -
  have bs: "0 < pc_block_size c" using paged_invD(1) [OF assms(1)] by (simp add: dims_ok_def)
  have "0 \<le> pos div pc_block_size c"
    using assms(2) bs by (simp add: has_slot_def pos_imp_zdiv_nonneg_iff)
  with assms(2) bs show ?thesis
    by (auto simp: physical_block_for_position_def has_slot_def slot_block_def seq_of_def Let_def)
qed

lemma physical_block_out:
  assumes "paged_inv c" and "\<not> has_slot c sid pos"
  shows "\<exists>e. physical_block_for_position c sid pos = Inl e \<and> is_status e"
proof -
  have bs: "0 < pc_block_size c" using paged_invD(1) [OF assms(1)] by (simp add: dims_ok_def)
  show ?thesis
    using assms(2) bs
    by (auto simp: physical_block_for_position_def has_slot_def seq_of_def Let_def)
qed

lemma token_index_ok:
  assumes inv: "paged_inv c" and slot: "has_slot c sid pos"
  shows "token_index c sid pos = Inr (row_index c sid pos * kv_width c)"
proof -
  let ?bs = "pc_block_size c" and ?w = "kv_width c"
  have d: "dims_ok c" by (rule paged_invD(1) [OF inv])
  then have bs: "0 < ?bs" "int32_ok ?bs" by (simp_all add: dims_ok_def)
  have pos: "0 \<le> pos" using slot by (simp add: has_slot_def)
  have off: "0 \<le> pos mod ?bs" "pos mod ?bs < ?bs" using bs by simp_all
  then have off32: "int32_ok (pos mod ?bs)" using int32_ok_between [OF bs(2) off(1)] by simp
  have blk: "0 \<le> slot_block c sid pos" "int32_ok (slot_block c sid pos)"
    using slot_block_range [OF inv slot] d by (auto simp: dims_ok_def intro: int32_ok_between)
  have "wrap64 (nat (slot_block c sid pos) * wrap64 (nat ?bs * ?w) + nat (pos mod ?bs) * ?w)
      = wrap64 (wrap64 (nat (slot_block c sid pos) * wrap64 (nat ?bs * ?w)) + nat (pos mod ?bs) * ?w)"
    by (simp only: wrap64_add_left)
  also have "\<dots> = wrap64 (row_index c sid pos * ?w)"
    by (simp only: wrap64_mult_left wrap64_add_left) (simp add: row_index_def algebra_simps)
  also have "\<dots> = row_index c sid pos * ?w"
    using row_in_storage [OF inv slot] d kv_hidden_ok(2) [OF inv]
    by (intro wrap64_small) (simp add: dims_ok_def)
  finally show ?thesis
    using physical_block_ok [OF inv slot] kv_hidden_ok [OF inv] bs pos off off32 blk
    by (simp add: token_index_def Let_def)
qed

lemma layer_storage_length:
  assumes "paged_inv c" and "valid_layer c layer"
  shows "length (layer_storage key c layer) = storage_floats c"
proof -
  have "pc_layers c ! nat layer \<in> set (pc_layers c)"
    using assms(2) by (intro nth_mem) (auto simp: valid_layer_def pc_num_layers_def)
  with paged_invD(4) [OF assms(1)] show ?thesis
    by (auto simp: layers_ok_def layer_storage_def)
qed

text \<open>Reading one head of a token inside the sequence gives its slice of the token's row.\<close>

lemma read_token_ok:
  assumes inv: "paged_inv c" and layer: "valid_layer c layer"
    and head: "0 \<le> h" "h < pc_num_kv_heads c"
    and pos: "0 \<le> pos" "pos < sequence_length c sid"
  shows "read_token key c sid layer pos h =
    Inr (row_at (nat (pc_head_dim c)) (nat h) (token_row key c sid layer pos))"
proof -
  let ?w = "kv_width c" and ?d = "nat (pc_head_dim c)" and ?r = "row_index c sid pos"
  have d: "dims_ok c" by (rule paged_invD(1) [OF inv])
  have slot: "has_slot c sid pos" by (rule slot_below_length [OF inv pos])
  have w: "?w = nat (pc_num_kv_heads c) * ?d"
    using d by (simp add: kv_width_def nat_mult_distrib dims_ok_def)
  have h: "nat h * ?d + ?d \<le> ?w"
    unfolding w using head by (intro row_fits) simp
  have fits: "?r * ?w + ?w \<le> storage_floats c" by (rule row_in_storage [OF inv slot])
  have len: "length (layer_storage key c layer) = storage_floats c"
    by (rule layer_storage_length [OF inv layer])
  have h32: "size_of_int h = nat h" "size_of_int (pc_head_dim c) = ?d"
    using head d by (auto simp: dims_ok_def intro!: size_of_int32 intro: int32_ok_between)
  have "0 < ?d" using d by (simp add: dims_ok_def)
  then have "?r * ?w + nat h * ?d < 2 ^ 64" using h fits d by (simp add: dims_ok_def)
  then have ptr: "token_ptr c sid layer pos h = Inr (?r * ?w + nat h * ?d)"
    using layer head pos token_index_ok [OF inv slot]
    by (simp add: token_ptr_def valid_layer_def h32)
  have "take ?d (drop (?r * ?w + nat h * ?d) (layer_storage key c layer))
      = row_at ?d (nat h) (token_row key c sid layer pos)"
    using h by (simp add: token_row_def row_at_def drop_take min_def add.commute)
  then show ?thesis
    using ptr h fits len by (simp add: read_token_def read_floats_def)
qed

section \<open>Writing\<close>

text \<open>Writing touches layer storage only; sequences and blocks are as before.\<close>

definition rows_written ::
  "'f paged_cache \<Rightarrow> 'f paged_cache \<Rightarrow> int \<Rightarrow> int \<Rightarrow> int \<Rightarrow> nat \<Rightarrow> nat \<Rightarrow> 'f list \<Rightarrow> 'f list \<Rightarrow> bool"
where
  "rows_written c c' sid layer start a n k v \<longleftrightarrow>
     pc_sequences c' = pc_sequences c \<and> pc_free_blocks c' = pc_free_blocks c
     \<and> pc_block_used c' = pc_block_used c \<and> same_geometry c c'
     \<and> (\<forall>key s l p. valid_layer c l \<longrightarrow> has_slot c s p \<longrightarrow>
          token_row key c' s l p =
            (if s = sid \<and> l = layer \<and> start + int a \<le> p \<and> p < start + int (a + n)
             then row_at (kv_width c) (nat (p - start)) (if key then k else v)
             else token_row key c s l p))"

lemma same_rows:
  assumes "pc_sequences c' = pc_sequences c" and "same_geometry c c'"
  shows "has_slot c' = has_slot c" "row_index c' = row_index c" "kv_width c' = kv_width c"
    "valid_layer c' = valid_layer c" "seq_of c' = seq_of c" "known_sequence c' = known_sequence c"
proof -
  show k: "known_sequence c' = known_sequence c"
    using assms by (intro ext) (simp add: known_sequence_def)
  show s: "seq_of c' = seq_of c"
    using assms k by (intro ext) (simp add: seq_of_def)
  show "kv_width c' = kv_width c" using assms(2) by (simp add: kv_width_def same_geometry_def)
  show "has_slot c' = has_slot c" "row_index c' = row_index c"
    using assms k s
    by (intro ext; simp add: has_slot_def row_index_def slot_block_def same_geometry_def)+
  show "valid_layer c' = valid_layer c"
    using assms(2) by (intro ext) (simp add: valid_layer_def same_geometry_def pc_num_layers_def)
qed

lemma copy_floats_row:
  assumes "length dst = n" and "r * w + w \<le> n" and "t * w + w \<le> length src"
  shows "copy_floats dst (r * w) src (t * w) w = Inr (put_row w r (row_at w t src) dst)"
  using assms by (simp add: copy_floats_def put_row_def row_at_def)

lemma write_row_ok:
  assumes inv: "paged_inv c" and layer: "valid_layer c layer" and slot: "has_slot c sid pos"
    and kv: "t * kv_width c + kv_width c \<le> length k" "t * kv_width c + kv_width c \<le> length v"
  shows "write_row sid layer pos t k v c = Inr (c\<lparr>pc_layers := (pc_layers c)[nat layer :=
      \<lparr>pl_k = put_row (kv_width c) (row_index c sid pos) (row_at (kv_width c) t k) (layer_storage True c layer),
       pl_v = put_row (kv_width c) (row_index c sid pos) (row_at (kv_width c) t v) (layer_storage False c layer)\<rparr>]\<rparr>)"
proof -
  have len: "length (layer_storage key c layer) = storage_floats c" for key
    by (rule layer_storage_length [OF inv layer])
  note fits = row_in_storage [OF inv slot]
  have ptr: "mutable_token_ptr c sid layer pos = Inr (row_index c sid pos * kv_width c)"
    using layer token_index_ok [OF inv slot] by (simp add: mutable_token_ptr_def valid_layer_def)
  show ?thesis
    using ptr kv_hidden_ok(1) [OF inv]
      copy_floats_row [OF len [of True] fits kv(1)] copy_floats_row [OF len [of False] fits kv(2)]
    by (simp add: write_row_def Let_def layer_storage_def)
qed

lemma layers_update_inv:
  assumes "paged_inv c" and "length (pl_k l) = storage_floats c" and "length (pl_v l) = storage_floats c"
  shows "paged_inv (c\<lparr>pc_layers := (pc_layers c)[i := l]\<rparr>)"
  using assms set_update_subset_insert [of "pc_layers c" i l]
  by (auto simp: paged_inv_def dims_ok_def blocks_conserved_def flags_agree_def layers_ok_def
      storage_floats_def kv_width_def owned_blocks_def)

lemma write_row_spec:
  assumes inv: "paged_inv c" and layer: "valid_layer c layer" and slot: "has_slot c sid (start + int a)"
    and start: "0 \<le> start"
    and kv: "a * kv_width c + kv_width c \<le> length k" "a * kv_width c + kv_width c \<le> length v"
  shows "\<exists>c'. write_row sid layer (start + int a) a k v c = Inr c' \<and> paged_inv c'
    \<and> rows_written c c' sid layer start a 1 k v"
proof -
  let ?w = "kv_width c" and ?r = "row_index c sid (start + int a)"
  let ?st = "\<lambda>key. put_row ?w ?r (row_at ?w a (if key then k else v)) (layer_storage key c layer)"
  let ?c' = "c\<lparr>pc_layers := (pc_layers c)[nat layer := \<lparr>pl_k = ?st True, pl_v = ?st False\<rparr>]\<rparr>"
  have len: "length (layer_storage key c layer) = storage_floats c" for key
    by (rule layer_storage_length [OF inv layer])
  note fits = row_in_storage [OF inv slot]
  have lk: "length (row_at ?w a (if key then k else v)) = ?w" for key using kv by simp
  have st: "length (?st key) = storage_floats c" for key
    using length_put_row [OF lk [of key], of ?r "layer_storage key c layer"] fits len by simp
  define c' where "c' = ?c'"
  have eq: "write_row sid layer (start + int a) a k v c = Inr c'"
    using write_row_ok [OF inv layer slot kv] by (simp add: c'_def)
  have inv': "paged_inv c'"
    using st [of True] st [of False] unfolding c'_def by (intro layers_update_inv [OF inv]) simp_all
  have geo: "same_geometry c c'" by (simp add: same_geometry_def c'_def)
  have seqs: "pc_sequences c' = pc_sequences c" "pc_free_blocks c' = pc_free_blocks c"
    "pc_block_used c' = pc_block_used c" by (simp_all add: c'_def)
  note same = same_rows [OF seqs(1) geo]
  have nl: "nat layer < length (pc_layers c)"
    using layer by (auto simp: valid_layer_def pc_num_layers_def)
  have "token_row key c' s l p = (if s = sid \<and> l = layer \<and> start + int a \<le> p \<and> p < start + int (a + 1)
       then row_at ?w (nat (p - start)) (if key then k else v) else token_row key c s l p)"
    if l: "valid_layer c l" and p: "has_slot c s p" for key s l p
  proof (cases "l = layer")
    case False
    then have "nat l \<noteq> nat layer" using l layer by (simp add: valid_layer_def eq_nat_nat_iff)
    then have "layer_storage key c' l = layer_storage key c l"
      by (simp add: layer_storage_def c'_def)
    with False show ?thesis by (simp add: token_row_def same)
  next
    case True
    have store: "layer_storage key c' layer = ?st key"
      using nl by (simp add: layer_storage_def c'_def)
    show ?thesis
    proof (cases "s = sid \<and> p = start + int a")
      case here: True
      then have "token_row key c' s l p = row_at ?w ?r (?st key)"
        using True store by (simp add: token_row_def same)
      also have "\<dots> = row_at ?w a (if key then k else v)"
        using fits len by (intro row_at_put_same lk) simp
      finally show ?thesis using here True by simp
    next
      case other: False
      then have "row_index c s p \<noteq> ?r" using row_index_inj [OF inv p slot] by blast
      then have "row_at ?w (row_index c s p) (?st key) = row_at ?w (row_index c s p) (layer_storage key c layer)"
        using fits len by (intro row_at_put_other lk) simp_all
      then have "token_row key c' s l p = token_row key c s l p"
        using True store by (simp add: token_row_def same)
      with other show ?thesis by auto
    qed
  qed
  then have "rows_written c c' sid layer start a 1 k v"
    using geo seqs by (simp add: rows_written_def)
  with eq inv' show ?thesis by blast
qed

lemma rows_written_trans:
  assumes "rows_written c c1 sid layer start a 1 k v" and "rows_written c1 c2 sid layer start (Suc a) n k v"
  shows "rows_written c c2 sid layer start a (Suc n) k v"
proof -
  have seqs: "pc_sequences c1 = pc_sequences c" and geo: "same_geometry c c1"
    using assms(1) by (simp_all add: rows_written_def)
  note same = same_rows [OF seqs geo]
  from assms show ?thesis
    unfolding rows_written_def same by (auto intro: same_geometry_trans)
qed

lemma write_loop_spec:
  assumes "paged_inv c" and "valid_layer c layer" and "0 \<le> start"
    and "\<And>i. i < n \<Longrightarrow> has_slot c sid (start + int (a + i))"
    and "(a + n) * kv_width c \<le> length k" and "(a + n) * kv_width c \<le> length v"
  shows "\<exists>c'. write_loop sid layer start a n k v c = (make_ok, c') \<and> paged_inv c'
    \<and> rows_written c c' sid layer start a n k v"
  using assms
proof (induction n arbitrary: a c)
  case 0
  then show ?case by (auto simp: rows_written_def)
next
  case (Suc n)
  have row: "a * kv_width c + kv_width c \<le> (a + Suc n) * kv_width c" by (rule row_fits) simp
  have slot: "has_slot c sid (start + int a)" using Suc.prems(4) [of 0] by simp
  from write_row_spec [OF Suc.prems(1,2) slot Suc.prems(3), of k v] row Suc.prems(5,6)
  obtain c1 where w: "write_row sid layer (start + int a) a k v c = Inr c1" and inv1: "paged_inv c1"
    and r1: "rows_written c c1 sid layer start a 1 k v" by auto
  have seqs: "pc_sequences c1 = pc_sequences c" and geo: "same_geometry c c1"
    using r1 by (simp_all add: rows_written_def)
  note same = same_rows [OF seqs geo]
  have "has_slot c1 sid (start + int (Suc a + i))" if "i < n" for i
    using Suc.prems(4) [of "Suc i"] that by (simp add: same)
  with Suc.IH [of c1 "Suc a"] Suc.prems inv1 same
  obtain c2 where l: "write_loop sid layer start (Suc a) n k v c1 = (make_ok, c2)" and inv2: "paged_inv c2"
    and r2: "rows_written c1 c2 sid layer start (Suc a) n k v" by auto
  have "write_loop sid layer start a (Suc n) k v c = (make_ok, c2)" using w l by simp
  with inv2 rows_written_trans [OF r1 r2] show ?case by blast
qed

end
