(* ===== verification/Paged_Cache_Writes.thy ===== *)
theory Paged_Cache_Writes
  imports Paged_Cache_Tokens
begin

text \<open>
  The operations that write tokens, and the remaining operations of the paged cache: their exact
  effect on the lengths, the block tables and the rows, and the preservation of the invariant from
  \<open>init\<close> on by any sequence of calls.
\<close>

section \<open>Reserving keeps the rows\<close>

text \<open>Enough free blocks for \<open>n\<close> tokens of a sequence.\<close>

definition can_hold :: "'f paged_cache \<Rightarrow> int \<Rightarrow> int \<Rightarrow> bool" where
  "can_hold c sid n \<longleftrightarrow>
     blocks_needed n (pc_block_size c) - int (length (ps_blocks (seq_of c sid)))
       \<le> int (length (pc_free_blocks c))"

definition same_rows_on :: "'f paged_cache \<Rightarrow> 'f paged_cache \<Rightarrow> bool" where
  "same_rows_on c c' \<longleftrightarrow> (\<forall>s p. has_slot c s p \<longrightarrow> has_slot c' s p
     \<and> (\<forall>key l. token_row key c' s l p = token_row key c s l p))"

lemma known_of_slot: "has_slot c s p \<Longrightarrow> ps_blocks (seq_of c s) \<noteq> []"
  by (auto simp: has_slot_def)

lemma known_seq_of: "seq_of c s \<noteq> empty_seq \<Longrightarrow> known_sequence c s"
  by (auto simp: seq_of_def split: if_splits)

lemma reserve_ok:
  assumes inv: "paged_inv c" and sid: "0 \<le> sid" and n: "0 \<le> n" "int32_ok (n + pc_block_size c)"
    and fits: "can_hold c sid n"
  shows "\<exists>c'. reserve_sequence sid n c = (make_ok, c') \<and> paged_inv c' \<and> same_geometry c c'
    \<and> known_sequence c' sid \<and> same_rows_on c c' \<and> pc_layers c' = pc_layers c
    \<and> (\<forall>s. ps_length (seq_of c' s) = ps_length (seq_of c s))
    \<and> (\<forall>s. s \<noteq> sid \<longrightarrow> seq_of c' s = seq_of c s)
    \<and> n \<le> int (length (ps_blocks (seq_of c' sid))) * pc_block_size c"
proof -
  let ?k = "nat (blocks_needed n (pc_block_size c) - int (length (ps_blocks (seq_of c sid))))"
  have bs: "0 < pc_block_size c" using paged_invD(1) [OF inv] by (simp add: dims_ok_def)
  from reserve_sequence_spec [OF inv sid n] obtain r c' where
    run: "reserve_sequence sid n c = (r, c')" and out: "reserve_outcome c sid n r c'"
    and inv': "paged_inv c'" and geo: "same_geometry c c'" by blast
  have k: "?k \<le> length (pc_free_blocks c)" using fits by (simp add: can_hold_def)
  have ok: "r = make_ok" "pc_layers c' = pc_layers c" "known_sequence c' sid"
    and seqs: "seq_of c' = (seq_of c)(sid := (seq_of c sid)\<lparr>ps_blocks := ps_blocks (seq_of c sid) @
        rev (drop (length (pc_free_blocks c) - ?k) (pc_free_blocks c))\<rparr>)"
    using out k by (simp_all add: reserve_outcome_def Let_def)
  have "has_slot c' s p \<and> (\<forall>key l. token_row key c' s l p = token_row key c s l p)"
    if slot: "has_slot c s p" for s p
  proof -
    have "known_sequence c' s"
    proof (cases "s = sid")
      case False
      with slot seqs have "seq_of c' s \<noteq> empty_seq" by (auto dest: known_of_slot)
      then show ?thesis by (rule known_seq_of)
    qed (use ok in simp)
    with slot seqs geo ok(2) show ?thesis
      by (auto simp: has_slot_def token_row_def row_index_def slot_block_def kv_width_def
          same_geometry_def layer_storage_def nth_append)
  qed
  then have rows: "same_rows_on c c'" by (simp add: same_rows_on_def)
  have "blocks_needed n (pc_block_size c) \<le> int (length (ps_blocks (seq_of c' sid)))"
    using k by (simp add: seqs)
  then have "blocks_needed n (pc_block_size c) * pc_block_size c
      \<le> int (length (ps_blocks (seq_of c' sid))) * pc_block_size c"
    using bs by (intro mult_right_mono) simp_all
  then have "n \<le> int (length (ps_blocks (seq_of c' sid))) * pc_block_size c"
    using blocks_needed_bounds(2) [OF n(1) bs] by linarith
  with run ok(1,2,3) inv' geo rows seqs show ?thesis by auto
qed

lemma slot_from_capacity:
  assumes "known_sequence c sid" and "0 < pc_block_size c" and "0 \<le> p"
    and "p < int (length (ps_blocks (seq_of c sid))) * pc_block_size c"
  shows "has_slot c sid p"
proof -
  have "p div pc_block_size c < int (length (ps_blocks (seq_of c sid)))"
    using assms by (intro int_div_less)
  then show ?thesis
    using assms by (simp add: has_slot_def nat_less_iff pos_imp_zdiv_nonneg_iff)
qed

section \<open>Writing tokens\<close>

text \<open>What a successful write leaves: the new rows, the new length, everything else as before.\<close>

definition tokens_written ::
  "'f paged_cache \<Rightarrow> 'f paged_cache \<Rightarrow> int \<Rightarrow> int \<Rightarrow> int \<Rightarrow> int \<Rightarrow> 'f list \<Rightarrow> 'f list \<Rightarrow> bool"
where
  "tokens_written c c' sid layer start n k v \<longleftrightarrow>
     sequence_length c' sid = max (sequence_length c sid) (start + n)
     \<and> (\<forall>s. s \<noteq> sid \<longrightarrow> seq_of c' s = seq_of c s)
     \<and> (\<forall>key p. start \<le> p \<longrightarrow> p < start + n \<longrightarrow>
          token_row key c' sid layer p = row_at (kv_width c) (nat (p - start)) (if key then k else v))
     \<and> (\<forall>key s l p. valid_layer c l \<longrightarrow> has_slot c s p \<longrightarrow>
          \<not> (s = sid \<and> l = layer \<and> start \<le> p \<and> p < start + n) \<longrightarrow>
          token_row key c' s l p = token_row key c s l p)"

lemma write_tokens_spec:
  assumes inv: "paged_inv c" and layer: "valid_layer c layer" and sid: "0 \<le> sid"
    and start: "0 \<le> start" and n: "0 < n" "int32_ok (start + n + pc_block_size c)"
    and kv: "nat n * kv_width c \<le> length k" "nat n * kv_width c \<le> length v"
    and fits: "can_hold c sid (start + n)"
  shows "\<exists>c'. write_tokens sid layer start (Some k) (Some v) n c = (make_ok, c') \<and> paged_inv c'
    \<and> same_geometry c c' \<and> known_sequence c' sid \<and> tokens_written c c' sid layer start n k v"
proof -
  have bs: "0 < pc_block_size c" using paged_invD(1) [OF inv] by (simp add: dims_ok_def)
  obtain c1 where res: "reserve_sequence sid (start + n) c = (make_ok, c1)" and inv1: "paged_inv c1"
    and geo1: "same_geometry c c1" and known1: "known_sequence c1 sid" and rows1: "same_rows_on c c1"
    and len1: "\<And>s. ps_length (seq_of c1 s) = ps_length (seq_of c s)"
    and other1: "\<And>s. s \<noteq> sid \<Longrightarrow> seq_of c1 s = seq_of c s"
    and cap1: "start + n \<le> int (length (ps_blocks (seq_of c1 sid))) * pc_block_size c"
    using reserve_ok [OF inv sid _ n(2) fits] start n(1) by auto
  have g1: "pc_block_size c1 = pc_block_size c" "kv_width c1 = kv_width c" "valid_layer c1 = valid_layer c"
    using geo1 by (auto simp: same_geometry_def same_geometry_dims kv_width_def valid_layer_def
        pc_num_layers_def fun_eq_iff)
  have slots: "has_slot c1 sid p" if "0 \<le> p" "p < start + n" for p
    using slot_from_capacity [OF known1] that cap1 bs by (simp add: g1)
  obtain c2 where loop: "write_loop sid layer start 0 (nat n) k v c1 = (make_ok, c2)"
    and inv2: "paged_inv c2" and wr: "rows_written c1 c2 sid layer start 0 (nat n) k v"
    using write_loop_spec [OF inv1, of layer start "nat n" sid 0 k v] layer start kv slots n(1)
    by (auto simp: g1)
  have seqs2: "pc_sequences c2 = pc_sequences c1" and geo2: "same_geometry c1 c2"
    using wr by (simp_all add: rows_written_def)
  note same2 = same_rows [OF seqs2 geo2]
  let ?s = "pc_sequences c2 ! nat sid" and ?m = "max (sequence_length c sid) (start + n)"
  define c' where "c' = c2\<lparr>pc_sequences := (pc_sequences c2)[nat sid := ?s\<lparr>ps_length := ?m\<rparr>]\<rparr>"
  have s: "?s = seq_of c1 sid" using known1 same2 by (simp add: seq_of_def seqs2)
  have lenm: "ps_length ?s = sequence_length c sid" using len1 s by (simp add: seq_of_views)
  have i: "nat sid < length (pc_sequences c2)" using known1 by (simp add: seqs2 known_sequence_def)
  have g2: "pc_block_size c2 = pc_block_size c" using geo2 g1 by (simp add: same_geometry_def)
  have "seq_ok (pc_block_size c2) (?s\<lparr>ps_length := ?m\<rparr>)"
    using seq_of_ok [OF inv1, of sid] cap1 start n(1) lenm
    by (auto simp: seq_ok_def s g1 g2)
  then have inv': "paged_inv c'"
    using paged_inv_set_length [OF inv2 i] by (simp add: c'_def)
  have known2: "known_sequence c2 sid" using known1 same2 by simp
  have seq': "seq_of c' t = (if t = sid then ?s\<lparr>ps_length := ?m\<rparr> else seq_of c1 t)" for t
    using seq_of_update(2) [OF known2, of _ t] same2 by (simp add: c'_def)
  have run: "write_tokens sid layer start (Some k) (Some v) n c = (make_ok, c')"
    using start n layer res loop lenm int32_ok_between [OF n(2), of "start + n"] bs
    by (simp add: write_tokens_def valid_layer_def cint32_ok c'_def Let_def)
  have k': "known_sequence c' t = known_sequence c1 t" for t
    by (simp add: known_sequence_def c'_def seqs2)
  have bs': "pc_block_size c' = pc_block_size c1" using geo2 by (simp add: c'_def same_geometry_def)
  have blk': "ps_blocks (seq_of c' t) = ps_blocks (seq_of c1 t)" for t using seq' s by simp
  have slot': "has_slot c' t p = has_slot c1 t p" and row': "row_index c' t p = row_index c1 t p" for t p
    using k' blk' bs' by (simp_all add: has_slot_def row_index_def slot_block_def)
  have tok': "token_row key c' t l p = token_row key c2 t l p" for key t l p
    using row' same2 by (simp add: token_row_def) (simp add: c'_def kv_width_def layer_storage_def)
  have "tokens_written c c' sid layer start n k v"
    unfolding tokens_written_def
  proof (intro conjI allI impI)
    show "sequence_length c' sid = max (sequence_length c sid) (start + n)"
      by (simp add: seq_of_views(1) [of c'] seq')
    show "seq_of c' t = seq_of c t" if "t \<noteq> sid" for t using that by (simp add: seq' other1)
    show "token_row key c' sid layer p = row_at (kv_width c) (nat (p - start)) (if key then k else v)"
      if "start \<le> p" "p < start + n" for key p
      using wr layer slots that start by (simp add: rows_written_def tok' g1)
    show "token_row key c' t l p = token_row key c t l p"
      if "valid_layer c l" "has_slot c t p" "\<not> (t = sid \<and> l = layer \<and> start \<le> p \<and> p < start + n)"
      for key t l p
      using wr rows1 that by (auto simp: rows_written_def same_rows_on_def tok' g1)
  qed
  moreover have "same_geometry c c'" "known_sequence c' sid"
    using same_geometry_trans [OF geo1 geo2] known2
    by (auto simp: c'_def same_geometry_def known_sequence_def)
  ultimately show ?thesis using run inv' by blast
qed

end
