(* ===== verification/State_Machine.thy ===== *)
theory State_Machine
  imports Prelude
begin

text \<open>
  Runs of a component: the states reachable from its start by its operations, and the principle
  that an invariant of the start and of every operation holds in all of them. The interface
  is a locale; every stateful component of the runtime interprets it on its own operations.
\<close>

locale state_machine =
  fixes start :: "'s \<Rightarrow> bool"
    and enabled :: "'s \<Rightarrow> 'op \<Rightarrow> bool"
    and exec :: "'op \<Rightarrow> 's \<Rightarrow> 's"
begin

inductive reachable :: "'s \<Rightarrow> bool" where
  reachable_start: "start s \<Longrightarrow> reachable s"
| reachable_exec: "reachable s \<Longrightarrow> enabled s op \<Longrightarrow> reachable (exec op s)"

fun allowed :: "'s \<Rightarrow> 'op list \<Rightarrow> bool" where
  "allowed s [] = True"
| "allowed s (op # ops) = (enabled s op \<and> allowed (exec op s) ops)"

lemma reachable_run: "reachable s \<Longrightarrow> allowed s ops \<Longrightarrow> reachable (foldl (\<lambda>s op. exec op s) s ops)"
  by (induction ops arbitrary: s) (auto intro: reachable_exec)

end

locale invariant_machine = state_machine start enabled exec
  for start :: "'s \<Rightarrow> bool" and enabled :: "'s \<Rightarrow> 'op \<Rightarrow> bool" and exec :: "'op \<Rightarrow> 's \<Rightarrow> 's" +
  fixes inv :: "'s \<Rightarrow> bool"
  assumes inv_start: "start s \<Longrightarrow> inv s"
    and inv_exec: "inv s \<Longrightarrow> enabled s op \<Longrightarrow> inv (exec op s)"
begin

lemma reachable_inv: "reachable s \<Longrightarrow> inv s"
  by (induction rule: reachable.induct) (auto intro: inv_start inv_exec)

lemma run_inv:
  assumes "inv s" and "allowed s ops"
  shows "inv (foldl (\<lambda>s op. exec op s) s ops)"
  using assms by (induction ops arbitrary: s) (auto intro: inv_exec)

lemma run_from_start:
  assumes "start s" and "allowed s ops"
  shows "inv (foldl (\<lambda>s op. exec op s) s ops)"
  using assms by (intro run_inv inv_start)

end

end
