(* ===== verification/Paged_Cache_Runs.thy ===== *)
theory Paged_Cache_Runs
  imports Paged_Cache_Writes State_Machine
begin

text \<open>
  The paged cache from \<open>init\<close> on: every operation, as a value, and its step; the invariant is
  established by \<open>init\<close> and kept by every operation, successful or not, and no
  operation has undefined behaviour. The contract of the cache's properties closes the theory.
\<close>

section \<open>Initialisation\<close>

definition init_args_ok :: "int \<Rightarrow> int \<Rightarrow> int \<Rightarrow> int \<Rightarrow> int \<Rightarrow> bool" where
  "init_args_ok nl nkv hdim bs mb \<longleftrightarrow> 0 < nl \<and> 0 < nkv \<and> 0 < hdim \<and> 0 < bs \<and> 0 < mb
     \<and> int32_ok nl \<and> int32_ok nkv \<and> int32_ok hdim \<and> int32_ok bs \<and> int32_ok mb
     \<and> int32_ok (nkv * hdim) \<and> mb * bs * (nkv * hdim) < 2 ^ 64"

lemma set_free_stack: "mset (free_stack mb) = mset (map int [0..<nat mb])"
  by (simp add: free_stack_def flip: rev_map)

lemma free_stack_inv:
  assumes "dims_ok c" and "layers_ok c"
  shows "paged_inv (c\<lparr>pc_block_used := replicate (nat (pc_max_blocks c)) False,
     pc_free_blocks := free_stack (pc_max_blocks c), pc_sequences := []\<rparr>)"
  using assms set_free_stack
  by (simp add: paged_inv_def dims_ok_def layers_ok_def blocks_conserved_def flags_agree_def
      owned_blocks_def storage_floats_def kv_width_def)

lemma paged_init_ok:
  fixes c :: "('f :: zero) paged_cache"
  assumes "init_args_ok nl nkv hdim bs mb"
  shows "\<exists>c'. paged_init nl nkv hdim bs mb c = (make_ok, c') \<and> paged_inv c' \<and> pc_sequences c' = []
    \<and> pc_num_layers c' = nl \<and> pc_num_kv_heads c' = nkv \<and> pc_head_dim c' = hdim
    \<and> pc_block_size c' = bs \<and> pc_max_blocks c' = mb \<and> pc_free_block_count c' = mb"
proof -
  define n where "n = nat mb * nat bs * nat (nkv * hdim)"
  define c' :: "'f paged_cache" where "c' = \<lparr>pc_layers = replicate (nat nl) \<lparr>pl_k = replicate n 0, pl_v = replicate n 0\<rparr>,
     pc_free_blocks = free_stack mb, pc_block_used = replicate (nat mb) False, pc_sequences = [],
     pc_num_kv_heads = nkv, pc_head_dim = hdim, pc_block_size = bs, pc_max_blocks = mb\<rparr>"
  note a = assms [unfolded init_args_ok_def]
  have kvh: "0 < nkv * hdim" using a by simp
  have "int n = mb * bs * (nkv * hdim)" using a kvh by (simp add: n_def)
  then have "int n < 2 ^ 64" using a by simp
  then have n: "n < 2 ^ 64" by simp
  have "wrap64 (nat mb * wrap64 (nat bs * nat (nkv * hdim))) = wrap64 n"
    by (simp only: wrap64_mult_left) (simp add: n_def mult.assoc)
  then have total: "wrap64 (nat mb * wrap64 (nat bs * nat (nkv * hdim))) = n"
    using n by simp
  have "paged_init nl nkv hdim bs mb c = (make_ok, c')"
    using a kvh total unfolding paged_init_def
    by (simp add: paged_release_def pc_kv_hidden_def Let_def c'_def cint32_ok empty_paged_def)
  moreover have "dims_ok c'" "layers_ok c'"
    using a n kvh by (simp_all add: dims_ok_def layers_ok_def storage_floats_def kv_width_def c'_def n_def)
  then have "paged_inv c'"
    using free_stack_inv [of c'] by (simp add: c'_def)
  ultimately show ?thesis
    using a by (auto simp: pc_num_layers_def pc_free_block_count_def free_stack_def c'_def)
qed

lemma paged_reset_inv [invariant_intros]:
  assumes "paged_inv c"
  shows "paged_inv (paged_reset c)" "same_geometry c (paged_reset c)"
proof -
  have d: "dims_ok c" "layers_ok c" by (rule paged_invD [OF assms])+
  let ?c = "c\<lparr>pc_layers := map zero_layer (pc_layers c)\<rparr>"
  have "dims_ok ?c" "layers_ok ?c"
    using d by (auto simp: dims_ok_def layers_ok_def zero_layer_def storage_floats_def kv_width_def)
  from free_stack_inv [OF this] d(1) show "paged_inv (paged_reset c)"
    by (simp add: paged_reset_def dims_ok_def)
  show "same_geometry c (paged_reset c)" by (simp add: paged_reset_def same_geometry_def)
qed

section \<open>Operations\<close>

text \<open>Every call that a client makes; the buffers of a write are values.\<close>

datatype 'f paged_op =
    ResetCache
  | EnsureSequence int
  | FreeSequence int
  | ReserveSequence int int
  | SetSequenceLength int int
  | WriteTokens int int int "'f list option" "'f list option" int
  | AppendTokens int int "'f list option" "'f list option" int

fun paged_exec :: "('f :: zero) paged_op \<Rightarrow> 'f paged_cache \<Rightarrow> unit result \<times> 'f paged_cache" where
  "paged_exec ResetCache c = (make_ok, paged_reset c)"
| "paged_exec (EnsureSequence sid) c = ensure_sequence sid c"
| "paged_exec (FreeSequence sid) c = free_sequence sid c"
| "paged_exec (ReserveSequence sid n) c = reserve_sequence sid n c"
| "paged_exec (SetSequenceLength sid n) c = set_sequence_length sid n c"
| "paged_exec (WriteTokens sid l p k v n) c = write_tokens sid l p k v n c"
| "paged_exec (AppendTokens sid l k v n) c = append_tokens sid l k v n c"

text \<open>
  What the caller owes: the token counts stay in the range of \<open>int\<close>, also rounded up to a
  block, and a buffer holds the rows that it is said to hold. Sequence ids, layers, positions
  and counts are otherwise arbitrary.
\<close>

definition rows_given :: "nat \<Rightarrow> 'f list option \<Rightarrow> int \<Rightarrow> bool" where
  "rows_given w b n = (case b of None \<Rightarrow> True | Some xs \<Rightarrow> nat n * w \<le> length xs)"

fun paged_call_ok :: "'f paged_cache \<Rightarrow> 'f paged_op \<Rightarrow> bool" where
  "paged_call_ok c (ReserveSequence sid n) = (0 \<le> n \<longrightarrow> int32_ok (n + pc_block_size c))"
| "paged_call_ok c (SetSequenceLength sid n) = (0 \<le> n \<longrightarrow> int32_ok (n + pc_block_size c))"
| "paged_call_ok c (WriteTokens sid l p k v n) =
     ((0 \<le> p \<longrightarrow> 0 \<le> n \<longrightarrow> int32_ok (p + n + pc_block_size c))
      \<and> rows_given (kv_width c) k n \<and> rows_given (kv_width c) v n)"
| "paged_call_ok c (AppendTokens sid l k v n) =
     ((0 \<le> n \<longrightarrow> int32_ok (sequence_length c sid + n + pc_block_size c))
      \<and> rows_given (kv_width c) k n \<and> rows_given (kv_width c) v n)"
| "paged_call_ok c _ = True"

text \<open>A result without undefined behaviour.\<close>

definition defined_result :: "'a result \<Rightarrow> bool" where
  "defined_result r = (case r of Inl e \<Rightarrow> is_status e | Inr _ \<Rightarrow> True)"

lemma defined_result_simps [simp]:
  "defined_result (Inr x)" "defined_result (Inl e) = is_status e"
  by (simp_all add: defined_result_def)

lemma ensure_sequence_defined: "ensure_sequence sid c = (r, c') \<Longrightarrow> defined_result r"
  by (auto simp: ensure_sequence_def split: if_splits)

lemma reserve_sequence_keeps:
  assumes inv: "paged_inv c" and n: "0 \<le> n \<longrightarrow> int32_ok (n + pc_block_size c)"
    and run: "reserve_sequence sid n c = (r, c')"
  shows "paged_inv c' \<and> same_geometry c c' \<and> defined_result r
    \<and> (r = make_ok \<longrightarrow> 0 \<le> sid \<and> 0 \<le> n \<and> can_hold c sid n)"
proof (cases "0 \<le> sid \<and> 0 \<le> n")
  case True
  then obtain r1 c1 where "reserve_sequence sid n c = (r1, c1)" "reserve_outcome c sid n r1 c1"
    "paged_inv c1" "same_geometry c c1"
    using reserve_sequence_spec [OF inv, of sid n] n by blast
  with run show ?thesis
    using True by (auto simp: reserve_outcome_def Let_def can_hold_def split: if_splits)
next
  case False
  obtain r1 c1 where e: "ensure_sequence sid c = (r1, c1)" by (cases "ensure_sequence sid c")
  have "paged_inv c1 \<and> same_geometry c c1" "defined_result r1"
    using ensure_sequence_inv [OF inv e] ensure_sequence_defined [OF e] by simp_all
  moreover have "r1 = make_ok \<Longrightarrow> n < 0" using False ensure_sequence_ok [of sid c c1] e by auto
  ultimately show ?thesis
    using run False by (cases r1) (auto simp: reserve_sequence_def e)
qed

text \<open>Exactly when \<open>ceil_div_int\<close> does not overflow.\<close>

lemma reserve_sequence_overflows:
  assumes inv: "paged_inv c" and "0 \<le> sid" "0 < n" and big: "2 ^ 31 \<le> n + pc_block_size c"
  shows "\<not> defined_result (fst (reserve_sequence sid n c))"
proof -
  obtain c1 where e: "ensure_sequence sid c = (make_ok, c1)"
    using assms(2) paged_inv_initialized [OF inv] by (auto simp: ensure_sequence_def)
  have "pc_block_size c1 = pc_block_size c" using ensure_sequence_inv [OF inv e] by (simp add: same_geometry_def)
  moreover have "\<not> int32_ok (n + pc_block_size c)" using big by (simp add: int32_ok_def)
  ultimately show ?thesis using assms(3) by (simp add: reserve_sequence_def e ceil_div_int_def cint32_def Let_def)
qed

lemma reserve_sequence_defined_iff:
  assumes inv: "paged_inv c"
  shows "defined_result (fst (reserve_sequence sid n c)) \<longleftrightarrow> sid < 0 \<or> n \<le> 0 \<or> n + pc_block_size c < 2 ^ 31"
proof (cases "0 \<le> sid \<and> 0 < n \<and> 2 ^ 31 \<le> n + pc_block_size c")
  case True
  with reserve_sequence_overflows [OF inv, of sid n] show ?thesis by auto
next
  case False
  have bs: "0 < pc_block_size c" "int32_ok (pc_block_size c)" using paged_invD(1) [OF inv] by (simp_all add: dims_ok_def)
  have "defined_result (fst (reserve_sequence sid n c))"
  proof (cases "sid < 0")
    case True
    then show ?thesis using paged_inv_initialized [OF inv] by (simp add: reserve_sequence_def ensure_sequence_def)
  next
    case nonneg: False
    with False have "0 \<le> n \<longrightarrow> int32_ok (n + pc_block_size c)"
      using bs by (cases "n = 0") (auto simp: int32_ok_def)
    from reserve_sequence_keeps [OF inv this] show ?thesis by (metis prod.collapse)
  qed
  with False show ?thesis by auto
qed

lemma set_sequence_length_keeps:
  assumes inv: "paged_inv c" and n: "0 \<le> n \<longrightarrow> int32_ok (n + pc_block_size c)"
    and run: "set_sequence_length sid n c = (r, c')"
  shows "paged_inv c' \<and> same_geometry c c' \<and> defined_result r"
proof -
  obtain r1 c1 where res: "reserve_sequence sid n c = (r1, c1)" by (cases "reserve_sequence sid n c")
  note keeps = reserve_sequence_keeps [OF inv n res]
  show ?thesis
  proof (cases "n < 0 \<or> r1 \<noteq> make_ok")
    case True
    with run keeps inv res show ?thesis
      by (cases r1) (auto simp: set_sequence_length_def split: if_splits)
  next
    case False
    then have ok: "0 \<le> sid" "0 \<le> n" "can_hold c sid n" and res': "reserve_sequence sid n c = (make_ok, c1)"
      using keeps res by auto
    have n32: "int32_ok (n + pc_block_size c)" using n ok by simp
    from reserve_ok [OF inv ok(1,2) n32 ok(3)] res' have known: "known_sequence c1 sid"
      and cap: "n \<le> int (length (ps_blocks (seq_of c1 sid))) * pc_block_size c"
      by auto
    have i: "nat sid < length (pc_sequences c1)" using known by (simp add: known_sequence_def)
    have "seq_ok (pc_block_size c1) ((pc_sequences c1 ! nat sid)\<lparr>ps_length := n\<rparr>)"
      using cap ok known keeps by (simp add: seq_ok_def seq_of_def same_geometry_def)
    then have "paged_inv (c1\<lparr>pc_sequences := (pc_sequences c1)[nat sid := (pc_sequences c1 ! nat sid)\<lparr>ps_length := n\<rparr>]\<rparr>)"
      using paged_inv_set_length [OF _ i] keeps by simp
    with run ok res' keeps show ?thesis
      by (auto simp: set_sequence_length_def same_geometry_def)
  qed
qed

lemma write_tokens_keeps:
  assumes inv: "paged_inv c" and call: "paged_call_ok c (WriteTokens sid layer start k v n)"
    and run: "write_tokens sid layer start k v n c = (r, c')"
  shows "paged_inv c' \<and> same_geometry c c' \<and> defined_result r"
proof (cases "\<exists>kd vd. k = Some kd \<and> v = Some vd \<and> 0 \<le> start \<and> 0 < n \<and> valid_layer c layer")
  case False
  with run inv show ?thesis
    by (auto simp: write_tokens_def valid_layer_def split: option.splits if_splits)
next
  case True
  then obtain kd vd where kv: "k = Some kd" "v = Some vd" and start: "0 \<le> start" "0 < n"
    and layer: "valid_layer c layer" by blast
  have n32: "int32_ok (start + n + pc_block_size c)" and len: "nat n * kv_width c \<le> length kd"
    "nat n * kv_width c \<le> length vd"
    using call kv start by (simp_all add: rows_given_def)
  have bs: "0 < pc_block_size c" using paged_invD(1) [OF inv] by (simp add: dims_ok_def)
  have e32: "int32_ok (start + n)" using int32_ok_between [OF n32, of "start + n"] start bs by simp
  obtain r1 c1 where res: "reserve_sequence sid (start + n) c = (r1, c1)"
    by (cases "reserve_sequence sid (start + n) c")
  note keeps = reserve_sequence_keeps [OF inv _ res]
  show ?thesis
  proof (cases r1)
    case (Inl e)
    then have "write_tokens sid layer start k v n c = (Inl e, c1)"
      using res kv start layer e32 by (simp add: write_tokens_def valid_layer_def cint32_ok)
    with run keeps n32 Inl show ?thesis by auto
  next
    case (Inr u)
    then have sid: "0 \<le> sid" and fits: "can_hold c sid (start + n)" using keeps n32 by simp_all
    obtain c2 where "write_tokens sid layer start (Some kd) (Some vd) n c = (make_ok, c2)"
      "paged_inv c2" "same_geometry c c2"
      using write_tokens_spec [OF inv layer sid start(1) start(2) n32 len fits] by blast
    with run kv show ?thesis by auto
  qed
qed

lemma sequence_length_nonneg: "paged_inv c \<Longrightarrow> 0 \<le> sequence_length c sid"
  using seq_of_ok [of c sid] by (simp add: seq_of_views seq_ok_def)

lemma paged_exec_keeps:
  assumes "paged_inv c" and "paged_call_ok c op" and "paged_exec op c = (r, c')"
  shows "paged_inv c' \<and> same_geometry c c' \<and> defined_result r"
proof (cases op)
  case (AppendTokens sid l k v n)
  with assms show ?thesis
    using write_tokens_keeps [OF assms(1), of sid l "sequence_length c sid" k v n r c']
    by (simp add: append_tokens_def)
next
  case (WriteTokens sid l p k v n)
  with assms show ?thesis
    using write_tokens_keeps [OF assms(1), of sid l p k v n r c'] by simp
next
  case (EnsureSequence sid)
  with assms show ?thesis
    using ensure_sequence_inv [of c sid r c'] ensure_sequence_defined [of sid c r c'] by simp
next
  case (FreeSequence sid)
  with assms show ?thesis using free_sequence_inv [of c sid r c'] by simp
next
  case (ReserveSequence sid n)
  with assms show ?thesis using reserve_sequence_keeps [of c n sid r c'] by simp
next
  case (SetSequenceLength sid n)
  with assms show ?thesis using set_sequence_length_keeps [of c n sid r c'] by simp
next
  case ResetCache
  with assms show ?thesis using paged_reset_inv [OF assms(1)] by auto
qed

section \<open>Runs\<close>

definition paged_start :: "('f :: zero) paged_cache \<Rightarrow> bool" where
  "paged_start c \<longleftrightarrow> (\<exists>nl nkv hdim bs mb c0. init_args_ok nl nkv hdim bs mb
     \<and> paged_init nl nkv hdim bs mb c0 = (make_ok, c))"

lemma paged_start_inv:
  assumes "paged_start c"
  shows "paged_inv c"
proof -
  from assms obtain nl nkv hdim bs mb and c0 :: "'a paged_cache"
    where "init_args_ok nl nkv hdim bs mb" "paged_init nl nkv hdim bs mb c0 = (make_ok, c)"
    by (auto simp: paged_start_def)
  then show ?thesis using paged_init_ok [of nl nkv hdim bs mb c0] by auto
qed

lemma paged_exec_inv: "paged_inv c \<Longrightarrow> paged_call_ok c op \<Longrightarrow> paged_inv (snd (paged_exec op c))"
  using paged_exec_keeps [of c op "fst (paged_exec op c)" "snd (paged_exec op c)"] by simp

interpretation paged: invariant_machine paged_start paged_call_ok "\<lambda>op c. snd (paged_exec op c)" paged_inv
  by unfold_locales (auto intro: paged_start_inv paged_exec_inv)

text \<open>A successful read tells where the token lies.\<close>

lemma read_token_InrD:
  assumes "read_token key c sid layer pos h = Inr x"
  shows "valid_layer c layer" "0 \<le> h" "h < pc_num_kv_heads c" "0 \<le> pos" "pos < sequence_length c sid"
  using assms by (auto simp: read_token_def token_ptr_def valid_layer_def rbind_Inr_iff split: if_splits)

lemma read_token_agree:
  assumes inv: "paged_inv c" "paged_inv c'" and geo: "same_geometry c c'"
    and len: "sequence_length c sid \<le> sequence_length c' sid"
    and row: "has_slot c sid pos \<Longrightarrow> valid_layer c layer \<Longrightarrow>
      token_row key c' sid layer pos = token_row key c sid layer pos"
    and read: "read_token key c sid layer pos h = Inr x"
  shows "read_token key c' sid layer pos h = Inr x"
proof -
  note d = read_token_InrD [OF read]
  have l: "valid_layer c' layer" and h: "h < pc_num_kv_heads c'" and p: "pos < sequence_length c' sid"
    using d geo len by (simp_all add: valid_layer_def pc_num_layers_def same_geometry_def)
  have "token_row key c' sid layer pos = token_row key c sid layer pos"
    using row d slot_below_length [OF inv(1) d(4,5)] by simp
  then show ?thesis
    using read_token_ok [OF inv(1) d(1-5), of key] read_token_ok [OF inv(2) l d(2) h d(4) p, of key] read geo
    by (simp add: same_geometry_def)
qed

lemma free_sequence_frame:
  assumes inv: "paged_inv c" and run: "free_sequence sid c = (r, c')"
  shows "seq_of c' s = (if s = sid then empty_seq else seq_of c s) \<and> pc_layers c' = pc_layers c
       \<and> pc_free_blocks c' = pc_free_blocks c @ ps_blocks (seq_of c sid)
       \<and> known_sequence c' s = known_sequence c s"
proof (cases "known_sequence c sid")
  case True
  with free_sequence_spec [OF inv True] run seq_of_update(1) [OF True, where x = empty_seq]
  show ?thesis by (auto simp: known_sequence_def)
next
  case False
  with run show ?thesis by (auto simp: free_sequence_def seq_of_def)
qed

end
