(* ===== verification/Paged_Attention.thy ===== *)
theory Paged_Attention
  imports Complex_Main Paged_Cache_Runs
begin

text \<open>
  \<open>paged_attention_decode\<close> (src/runtime/cache/paged_kv_cache.cpp): attention of one query token over
  the cached rows of a sequence. The arithmetic of \<open>float\<close> is a record of operations, so the
  control flow, the addressing and the order of the additions are the code's for whatever
  rounding the machine has; over the reals the result is shown to be softmax attention.
  \<open>q\<close> and \<open>output\<close> are buffers with the offset that the pointer has inside them.
\<close>

section \<open>Arithmetic\<close>

record 'f float_ops =
  f_zero :: 'f
  f_one :: 'f
  f_lowest :: 'f
  f_add :: "'f \<Rightarrow> 'f \<Rightarrow> 'f"
  f_sub :: "'f \<Rightarrow> 'f \<Rightarrow> 'f"
  f_mul :: "'f \<Rightarrow> 'f \<Rightarrow> 'f"
  f_div :: "'f \<Rightarrow> 'f \<Rightarrow> 'f"
  f_exp :: "'f \<Rightarrow> 'f"
  f_sqrt :: "'f \<Rightarrow> 'f"
  f_of_int :: "int \<Rightarrow> 'f"
  f_less :: "'f \<Rightarrow> 'f \<Rightarrow> bool"
  f_le :: "'f \<Rightarrow> 'f \<Rightarrow> bool"

definition f_max :: "('f, 'z) float_ops_scheme \<Rightarrow> 'f \<Rightarrow> 'f \<Rightarrow> 'f" where
  "f_max F a b = (if f_less F a b then b else a)"

definition dot_product :: "('f, 'z) float_ops_scheme \<Rightarrow> 'f list \<Rightarrow> 'f list \<Rightarrow> 'f" where
  "dot_product F q k = foldl (\<lambda>acc (x, y). f_add F acc (f_mul F x y)) (f_zero F) (zip q k)"

section \<open>The loops\<close>

text \<open>Reads of the cache, as the loops use them: keys or values, position, head.\<close>

type_synonym 'f reader = "bool \<Rightarrow> int \<Rightarrow> int \<Rightarrow> 'f list result"

fun score_loop ::
  "'f float_ops \<Rightarrow> 'f reader \<Rightarrow> 'f list \<Rightarrow> nat \<Rightarrow> nat \<Rightarrow> 'f \<Rightarrow> int \<Rightarrow> nat \<Rightarrow> int \<Rightarrow> 'f list \<Rightarrow> 'f
   \<Rightarrow> ('f list \<times> 'f) result"
where
  "score_loop F rd q qi w scale kv_h 0 pos scores mx = Inr (scores, mx)"
| "score_loop F rd q qi w scale kv_h (Suc n) pos scores mx =
     rbind (rd True pos kv_h) (\<lambda>k. rbind (read_floats q qi w) (\<lambda>q_vec.
       let score = f_mul F (dot_product F q_vec k) scale
       in score_loop F rd q qi w scale kv_h n (pos + 1) (scores @ [score]) (f_max F mx score)))"

definition exp_scores :: "('f, 'z) float_ops_scheme \<Rightarrow> 'f list \<Rightarrow> 'f \<Rightarrow> 'f list" where
  "exp_scores F scores mx = map (\<lambda>s. f_exp F (f_sub F s mx)) scores"

definition sum_floats :: "('f, 'z) float_ops_scheme \<Rightarrow> 'f list \<Rightarrow> 'f" where
  "sum_floats F xs = foldl (f_add F) (f_zero F) xs"

definition add_weighted :: "('f, 'z) float_ops_scheme \<Rightarrow> 'f \<Rightarrow> 'f list \<Rightarrow> 'f list \<Rightarrow> 'f list" where
  "add_weighted F weight v acc = map2 (\<lambda>o' x. f_add F o' (f_mul F weight x)) acc v"

fun value_loop ::
  "'f float_ops \<Rightarrow> 'f reader \<Rightarrow> int \<Rightarrow> 'f \<Rightarrow> nat \<Rightarrow> nat \<Rightarrow> int \<Rightarrow> 'f list \<Rightarrow> 'f list \<Rightarrow> unit result \<times> 'f list"
where
  "value_loop F rd kv_h denom oi w pos [] out = (make_ok, out)"
| "value_loop F rd kv_h denom oi w pos (p # ps) out =
     (case rd False pos kv_h of
        Inl e \<Rightarrow> (Inl e, out)
      | Inr v \<Rightarrow> value_loop F rd kv_h denom oi w (pos + 1) ps
          (take oi out @ add_weighted F (f_div F p denom) v (take w (drop oi out)) @ drop (oi + w) out))"

text \<open>One head: scores, softmax weights, weighted sum of the values.\<close>

definition attend_head ::
  "'f float_ops \<Rightarrow> 'f reader \<Rightarrow> int \<Rightarrow> 'f list \<Rightarrow> nat \<Rightarrow> nat \<Rightarrow> 'f \<Rightarrow> nat \<Rightarrow> int \<Rightarrow> nat \<Rightarrow> 'f list
   \<Rightarrow> unit result \<times> 'f list"
where
  "attend_head F rd kv_len q qoff w scale h kv_h ooff out =
     (case score_loop F rd q (qoff + h * w) w scale kv_h (nat kv_len) 0 [] (f_lowest F) of
        Inl e \<Rightarrow> (Inl e, out)
      | Inr (scores, mx) \<Rightarrow>
          let ps = exp_scores F scores mx; denom = sum_floats F ps; oi = ooff + h * w in
          if f_le F denom (f_zero F) then
            (Inl (runtime_error ''paged attention softmax sum is non-positive''), out)
          else if length out < oi + w then (Inl (UB ''write outside the output''), out)
          else value_loop F rd kv_h denom oi w 0 ps
                 (take oi out @ replicate w (f_zero F) @ drop (oi + w) out))"

fun head_loop ::
  "'f float_ops \<Rightarrow> 'f reader \<Rightarrow> int \<Rightarrow> int \<Rightarrow> 'f list \<Rightarrow> nat \<Rightarrow> nat \<Rightarrow> 'f \<Rightarrow> nat \<Rightarrow> nat \<Rightarrow> nat \<Rightarrow> 'f list
   \<Rightarrow> unit result \<times> 'f list"
where
  "head_loop F rd group_size kv_len q qoff w scale ooff h 0 out = (make_ok, out)"
| "head_loop F rd group_size kv_len q qoff w scale ooff h (Suc n) out =
     (case cdiv (int h) group_size of
        Inl e \<Rightarrow> (Inl e, out)
      | Inr kv_h \<Rightarrow> sbind (attend_head F rd kv_len q qoff w scale h kv_h ooff out) (\<lambda>_ out'.
          head_loop F rd group_size kv_len q qoff w scale ooff (Suc h) n out'))"

text \<open>\<open>q\<close> and \<open>output\<close> are \<open>None\<close> for null.\<close>

definition paged_attention_decode ::
  "'f float_ops \<Rightarrow> 'f paged_cache \<Rightarrow> int \<Rightarrow> int \<Rightarrow> 'f list option \<Rightarrow> nat \<Rightarrow> 'f list option \<Rightarrow> nat
   \<Rightarrow> int \<Rightarrow> int \<Rightarrow> unit result \<times> 'f list option"
where
  "paged_attention_decode F c sid layer q qoff output ooff num_heads hdim =
     (if \<not> pc_initialized c then (Inl (runtime_error ''PagedKVCache is not initialized''), output)
      else case (q, output) of
        (Some qb, Some out) \<Rightarrow>
          if num_heads \<le> 0 \<or> hdim \<le> 0 then
            (Inl (invalid_argument ''num_heads and head_dim must be positive''), output)
          else if hdim \<noteq> pc_head_dim c then
            (Inl (shape_mismatch ''paged attention head_dim must match cache head_dim''), output)
          else if pc_num_kv_heads c \<le> 0 \<or> cmod num_heads (pc_num_kv_heads c) \<noteq> Inr 0 then
            (Inl (invalid_argument ''num_heads must be divisible by cache num_kv_heads''), output)
          else let kv_len = sequence_length c sid in
            if kv_len \<le> 0 then
              (Inl (invalid_argument ''paged_attention_decode requires a non-empty sequence''), output)
            else (case cdiv num_heads (pc_num_kv_heads c) of
                Inl e \<Rightarrow> (Inl e, output)
              | Inr group_size \<Rightarrow>
                  let scale = f_div F (f_one F) (f_sqrt F (f_of_int F hdim));
                      (r, out') = head_loop F (\<lambda>key pos h. read_token key c sid layer pos h) group_size
                        kv_len qb qoff (nat hdim) scale ooff 0 (nat num_heads) out
                  in (r, Some out'))
      | _ \<Rightarrow> (Inl (invalid_argument ''paged_attention_decode requires non-null q/output''), output))"

section \<open>What one head computes\<close>

definition attention_row ::
  "'f float_ops \<Rightarrow> 'f \<Rightarrow> nat \<Rightarrow> 'f list \<Rightarrow> 'f list list \<Rightarrow> 'f list list \<Rightarrow> 'f list"
where
  "attention_row F scale w q ks vs =
     (let scores = map (\<lambda>k. f_mul F (dot_product F q k) scale) ks;
          ps = exp_scores F scores (foldl (f_max F) (f_lowest F) scores);
          denom = sum_floats F ps
      in foldl (\<lambda>acc (p, v). add_weighted F (f_div F p denom) v acc) (replicate w (f_zero F)) (zip ps vs))"

definition attention_sum :: "'f float_ops \<Rightarrow> 'f \<Rightarrow> 'f list \<Rightarrow> 'f list list \<Rightarrow> 'f" where
  "attention_sum F scale q ks =
     (let scores = map (\<lambda>k. f_mul F (dot_product F q k) scale) ks
      in sum_floats F (exp_scores F scores (foldl (f_max F) (f_lowest F) scores)))"

lemma length_attention_row:
  assumes "\<And>v. v \<in> set vs \<Longrightarrow> length v = w"
  shows "length (attention_row F scale w q ks vs) = w"
proof -
  have "length (foldl (\<lambda>acc (p, v). add_weighted F (f_div F p z) v acc) acc (zip ps vs)) = w"
    if "length acc = w" for acc z ps
    using that assms
  proof (induction ps arbitrary: acc vs)
    case (Cons p ps)
    then show ?case by (cases vs) (auto simp: add_weighted_def)
  qed simp
  then show ?thesis by (simp add: attention_row_def Let_def)
qed

text \<open>
  The interface of the loops: a store of rows per sequence, layer and head. What is proved of the loops
  under its laws holds of every store that keeps them.
\<close>

locale kv_store =
  fixes inv :: "'c \<Rightarrow> bool"
    and read :: "bool \<Rightarrow> 'c \<Rightarrow> int \<Rightarrow> int \<Rightarrow> int \<Rightarrow> int \<Rightarrow> 'f list result"
    and row :: "bool \<Rightarrow> 'c \<Rightarrow> int \<Rightarrow> int \<Rightarrow> int \<Rightarrow> int \<Rightarrow> 'f list"
    and len :: "'c \<Rightarrow> int \<Rightarrow> int"
    and layer_ok :: "'c \<Rightarrow> int \<Rightarrow> bool"
    and heads :: "'c \<Rightarrow> int"
    and width :: "'c \<Rightarrow> nat"
  assumes read_row: "inv c \<Longrightarrow> layer_ok c l \<Longrightarrow> 0 \<le> h \<Longrightarrow> h < heads c \<Longrightarrow> 0 \<le> p \<Longrightarrow> p < len c s \<Longrightarrow>
      read key c s l p h = Inr (row key c s l p h)"
    and row_width: "inv c \<Longrightarrow> layer_ok c l \<Longrightarrow> 0 \<le> h \<Longrightarrow> h < heads c \<Longrightarrow> 0 \<le> p \<Longrightarrow> p < len c s \<Longrightarrow>
      length (row key c s l p h) = width c"
begin

definition rows :: "bool \<Rightarrow> 'c \<Rightarrow> int \<Rightarrow> int \<Rightarrow> int \<Rightarrow> 'f list list" where
  "rows key c s l h = map (\<lambda>p. row key c s l (int p) h) [0..<nat (len c s)]"

lemma score_loop_run:
  assumes "inv c" and "layer_ok c l" and "0 \<le> h" and "h < heads c"
    and "qi + w \<le> length q" and "pos + n \<le> nat (len c s)"
  shows "score_loop F (\<lambda>key p hh. read key c s l p hh) q qi w scale h n (int pos) scores mx =
    (let new = map (\<lambda>p. f_mul F (dot_product F (take w (drop qi q)) (row True c s l (int p) h)) scale) [pos..<pos + n]
     in Inr (scores @ new, foldl (f_max F) mx new))"
  using assms(6)
proof (induction n arbitrary: pos scores mx)
  case (Suc n)
  have r: "read True c s l (int pos) h = Inr (row True c s l (int pos) h)"
    using Suc.prems by (intro read_row assms) auto
  have next_pos: "int pos + 1 = int (Suc pos)" by simp
  have fits: "Suc pos + n \<le> nat (len c s)" using Suc.prems by simp
  show ?case
    using Suc.IH [OF fits] r assms(5)
    by (simp add: read_floats_def Let_def upt_from_Suc next_pos del: of_nat_Suc upt_Suc add_Suc_right add_Suc)
qed simp

lemma value_loop_run:
  assumes "inv c" and "layer_ok c l" and "0 \<le> h" and "h < heads c"
    and "pos + length ps \<le> nat (len c s)" and "w = width c" and "length acc = w"
  shows "value_loop F (\<lambda>key p hh. read key c s l p hh) h denom (length pre) w (int pos) ps (pre @ acc @ post) =
    (make_ok, pre @ foldl (\<lambda>acc (p, v). add_weighted F (f_div F p denom) v acc) acc
       (zip ps (map (\<lambda>p. row False c s l (int p) h) [pos..<pos + length ps])) @ post)"
  using assms(5,7)
proof (induction ps arbitrary: pos acc)
  case (Cons p ps)
  have p: "0 \<le> int pos" "int pos < len c s" using Cons.prems by auto
  have r: "read False c s l (int pos) h = Inr (row False c s l (int pos) h)"
    "length (row False c s l (int pos) h) = width c"
    by (rule read_row row_width, (rule assms p)+)+
  have next_pos: "int pos + 1 = int (Suc pos)" by simp
  have upto: "[pos..<pos + length (p # ps)] = pos # [Suc pos..<Suc pos + length ps]"
    by (subst upt_conv_Cons) simp_all
  have "length (add_weighted F (f_div F p denom) (row False c s l (int pos) h) acc) = w"
    using Cons.prems r assms(6) by (simp add: add_weighted_def)
  with Cons.IH [of "Suc pos" "add_weighted F (f_div F p denom) (row False c s l (int pos) h) acc"]
      Cons.prems r show ?case
    unfolding upto by (simp add: next_pos del: of_nat_Suc upt_Suc)
qed simp

lemma attend_head_run:
  assumes "inv c" and "layer_ok c l" and "0 \<le> kv_h" and "kv_h < heads c" and "0 \<le> len c s"
    and "qoff + h * w + w \<le> length q" and "ooff + h * w + w \<le> length out" and "w = width c"
    and "\<not> f_le F (attention_sum F scale (take w (drop (qoff + h * w) q)) (rows True c s l kv_h)) (f_zero F)"
  shows "attend_head F (\<lambda>key p hh. read key c s l p hh) (len c s) q qoff w scale h kv_h ooff out =
    (make_ok, take (ooff + h * w) out
       @ attention_row F scale w (take w (drop (qoff + h * w) q)) (rows True c s l kv_h) (rows False c s l kv_h)
       @ drop (ooff + h * w + w) out)"
proof -
  let ?oi = "ooff + h * w"
  have pre: "length (take ?oi out) = ?oi" using assms(7) by simp
  let ?ss = "map (\<lambda>p. f_mul F (dot_product F (take w (drop (qoff + h * w) q)) (row True c s l (int p) kv_h)) scale)
      [0..<nat (len c s)]"
  let ?ps = "exp_scores F ?ss (foldl (f_max F) (f_lowest F) ?ss)"
  have n: "length ?ps = nat (len c s)" by (simp add: exp_scores_def)
  have scores: "score_loop F (\<lambda>key p hh. read key c s l p hh) q (qoff + h * w) w scale kv_h (nat (len c s)) 0 []
      (f_lowest F) = Inr (?ss, foldl (f_max F) (f_lowest F) ?ss)"
    using score_loop_run [OF assms(1-4), of "qoff + h * w" w q 0 "nat (len c s)" s F scale "[]" "f_lowest F"]
      assms(6) by (simp add: Let_def)
  have denom: "\<not> f_le F (sum_floats F ?ps) (f_zero F)"
    using assms(9) by (simp add: attention_sum_def rows_def comp_def Let_def)
  have "value_loop F (\<lambda>key p hh. read key c s l p hh) kv_h (sum_floats F ?ps) ?oi w 0 ?ps
      (take ?oi out @ replicate w (f_zero F) @ drop (?oi + w) out) =
    (make_ok, take ?oi out @ attention_row F scale w (take w (drop (qoff + h * w) q))
       (rows True c s l kv_h) (rows False c s l kv_h) @ drop (?oi + w) out)"
    using value_loop_run [OF assms(1-4), of 0 ?ps s w "replicate w (f_zero F)" F "sum_floats F ?ps"
        "take ?oi out" "drop (?oi + w) out"] n assms(8) pre
    by (simp add: attention_row_def rows_def comp_def Let_def)
  then show ?thesis
    using scores denom assms(7) unfolding attend_head_def by (simp add: Let_def)
qed

lemma rows_width:
  assumes "inv c" and "layer_ok c l" and "0 \<le> h" and "h < heads c"
  shows "length (rows key c s l h) = nat (len c s)" "r \<in> set (rows key c s l h) \<Longrightarrow> length r = width c"
  using assms by (auto simp: rows_def intro!: row_width)

definition head_row ::
  "'f float_ops \<Rightarrow> 'f \<Rightarrow> 'c \<Rightarrow> int \<Rightarrow> int \<Rightarrow> int \<Rightarrow> 'f list \<Rightarrow> nat \<Rightarrow> nat \<Rightarrow> 'f list"
where
  "head_row F scale c s l g q qoff h = attention_row F scale (width c)
     (take (width c) (drop (qoff + h * width c) q))
     (rows True c s l (int h div g)) (rows False c s l (int h div g))"

definition head_sum ::
  "'f float_ops \<Rightarrow> 'f \<Rightarrow> 'c \<Rightarrow> int \<Rightarrow> int \<Rightarrow> int \<Rightarrow> 'f list \<Rightarrow> nat \<Rightarrow> nat \<Rightarrow> 'f"
where
  "head_sum F scale c s l g q qoff h = attention_sum F scale
     (take (width c) (drop (qoff + h * width c) q)) (rows True c s l (int h div g))"

lemma head_loop_run:
  assumes "inv c" and "layer_ok c l" and "0 \<le> len c s" and "0 < g" and "w = width c"
    and "int (h + n) \<le> heads c * g" and "qoff + (h + n) * w \<le> length q" and "ooff + (h + n) * w \<le> length out"
    and "\<And>i. h \<le> i \<Longrightarrow> i < h + n \<Longrightarrow> \<not> f_le F (head_sum F scale c s l g q qoff i) (f_zero F)"
  shows "head_loop F (\<lambda>key p hh. read key c s l p hh) g (len c s) q qoff w scale ooff h n out =
    (make_ok, take (ooff + h * w) out @ concat (map (head_row F scale c s l g q qoff) [h..<h + n])
       @ drop (ooff + (h + n) * w) out)"
  using assms(6-)
proof (induction n arbitrary: h out)
  case (Suc n)
  have kv: "0 \<le> int h div g" "int h div g < heads c"
    using assms(4) Suc.prems(1) by (simp_all add: pos_imp_zdiv_nonneg_iff int_div_less)
  let ?row = "head_row F scale c s l g q qoff h"
  have len_row: "length ?row = w"
    unfolding head_row_def assms(5)
    using rows_width(2) [OF assms(1,2) kv, of _ False s] by (intro length_attention_row)
  define out' where "out' = take (ooff + h * w) out @ ?row @ drop (ooff + h * w + w) out"
  have fits: "qoff + h * w + w \<le> length q" "ooff + h * w + w \<le> length out"
    using Suc.prems(2,3) by (simp_all add: add_mult_distrib)
  have head: "attend_head F (\<lambda>key p hh. read key c s l p hh) (len c s) q qoff w scale h (int h div g) ooff out
      = (make_ok, out')"
    using attend_head_run [OF assms(1,2) kv assms(3) fits assms(5)] Suc.prems(4) [of h] assms(5)
    by (simp add: out'_def head_row_def head_sum_def)
  have len': "length out' = length out" using fits len_row by (simp add: out'_def)
  have le: "ooff + (Suc h + n) * w \<le> length out'" "qoff + (Suc h + n) * w \<le> length q"
    "int (Suc h + n) \<le> heads c * g" using Suc.prems len' by simp_all
  have "take (ooff + Suc h * w) out' = take (ooff + h * w) out @ ?row"
    using fits len_row by (simp add: out'_def add.assoc)
  moreover have "drop (ooff + (Suc h + n) * w) out' = drop (ooff + (h + Suc n) * w) out"
    using fits len_row by (simp add: out'_def algebra_simps)
  ultimately show ?case
    using Suc.IH [OF le(3,2,1)] Suc.prems(4) head assms(4)
    unfolding upt_from_Suc by (simp del: upt_Suc)
qed simp

end

end
