(* ===== verification/Paged_Cache_Properties.thy ===== *)
theory Paged_Cache_Properties
  imports Paged_Cache_Runs
begin

text \<open>
  The contract of the paged cache, for every state that its own calls can reach, each
  property with a run of a small cache as its witness.
\<close>

section \<open>A small cache\<close>

text \<open>One layer, one head of width two, blocks of two tokens, three blocks.\<close>

definition demo_cache :: "int paged_cache" where
  "demo_cache = snd (paged_init 1 1 2 2 3 empty_paged)"

lemma demo_start: "paged_start demo_cache"
proof -
  have args: "init_args_ok 1 1 2 2 3" by (simp add: init_args_ok_def int32_ok_def)
  have "paged_init 1 1 2 2 3 empty_paged = (make_ok, demo_cache)"
    using paged_init_ok [OF args, of "empty_paged :: int paged_cache"] by (auto simp: demo_cache_def)
  with args show ?thesis unfolding paged_start_def by blast
qed

lemma demo_reachable: "paged.reachable demo_cache"
  by (rule paged.reachable_start [OF demo_start])

lemma demo_cache_eval:
  "demo_cache = \<lparr>pc_layers = [\<lparr>pl_k = replicate 12 0, pl_v = replicate 12 0\<rparr>], pc_free_blocks = [2, 1, 0],
     pc_block_used = [False, False, False], pc_sequences = [], pc_num_kv_heads = 1, pc_head_dim = 2,
     pc_block_size = 2, pc_max_blocks = 3\<rparr>"
  by (simp add: demo_cache_def paged_init_def paged_release_def empty_paged_def pc_kv_hidden_def
      cint32_ok int32_ok_def free_stack_def eval_simps Let_def)

text \<open>After two tokens of sequence 0.\<close>

definition demo_written :: "int paged_cache" where
  "demo_written = snd (paged_exec (WriteTokens 0 0 0 (Some [1, 2, 3, 4]) (Some [5, 6, 7, 8]) 2) demo_cache)"

lemma demo_call: "paged_call_ok demo_cache (WriteTokens 0 0 0 (Some [1, 2, 3, 4]) (Some [5, 6, 7, 8]) 2)"
  by (simp add: demo_cache_eval rows_given_def kv_width_def int32_ok_def)

lemma demo_written_reachable: "paged.reachable demo_written"
  using paged.reachable_exec [OF demo_reachable demo_call] by (simp only: demo_written_def)

lemma write_loop_numeral:
  "write_loop sid layer start t (numeral m) k v c = write_loop sid layer start t (Suc (pred_numeral m)) k v c"
  by (simp add: numeral_eq_Suc)

lemma demo_write_eval:
  "write_tokens 0 0 0 (Some [1, 2, 3, 4]) (Some [5, 6, 7, 8]) 2 demo_cache = (make_ok,
     \<lparr>pc_layers = [\<lparr>pl_k = [1, 2, 3, 4, 0, 0, 0, 0, 0, 0, 0, 0], pl_v = [5, 6, 7, 8, 0, 0, 0, 0, 0, 0, 0, 0]\<rparr>],
      pc_free_blocks = [2, 1], pc_block_used = [True, False, False],
      pc_sequences = [\<lparr>ps_length = 2, ps_blocks = [0]\<rparr>], pc_num_kv_heads = 1, pc_head_dim = 2,
      pc_block_size = 2, pc_max_blocks = 3\<rparr>)"
  by (simp add: write_tokens_def demo_cache_eval pc_num_layers_def cint32_ok int32_ok_def
      reserve_sequence_def ensure_sequence_def pc_initialized_def vec_resize_def ceil_div_int_def
      empty_seq_def write_loop_numeral write_row_def mutable_token_ptr_def token_index_def
      physical_block_for_position_def known_sequence_def pc_kv_hidden_def size_of_int_def Let_def
      copy_floats_def eval_simps)

section \<open>Properties\<close>

text \<open>C1. In every state that \<open>init\<close> with sizes that fit (\<open>init_args_ok\<close>: positive, \<open>int\<close>, so is the width of a row,
  and fewer than \<open>2 ^ 64\<close> floats) and calls within \<open>paged_call_ok\<close> after it can reach (the sums of
  lengths stay within \<open>int\<close>, and every row of the written tokens is given), the free stack and
  the block tables together hold every physical block exactly once: no block is shared between
  sequences, none is lost; every sequence has the blocks for its length; no further call within \<open>paged_call_ok\<close>
  has undefined behaviour, whatever its ids and positions; and beyond it there is undefined behaviour: \<open>reserve_sequence\<close>
  is defined exactly if the id or the length is not positive enough to reach \<open>ceil_div_int\<close> (negative id, or no
  token) or the length plus a block is an \<open>int\<close>.\<close>

theorem paged_blocks_conserved:
  assumes "paged.reachable c"
  shows "mset (pc_free_blocks c @ concat (map ps_blocks (pc_sequences c))) = mset (map int [0..<nat (pc_max_blocks c)])
    \<and> (\<forall>sid. 0 \<le> sequence_length c sid \<and>
         sequence_length c sid \<le> int (length (ps_blocks (seq_of c sid))) * pc_block_size c)
    \<and> (\<forall>op. paged_call_ok c op \<longrightarrow> defined_result (fst (paged_exec op c)))
    \<and> (\<forall>sid n. defined_result (fst (reserve_sequence sid n c)) \<longleftrightarrow>
         sid < 0 \<or> n \<le> 0 \<or> n + pc_block_size c < 2 ^ 31)"
proof -
  have inv: "paged_inv c" by (rule paged.reachable_inv [OF assms])
  have "defined_result (fst (paged_exec op c))" if "paged_call_ok c op" for op
    using paged_exec_keeps [OF inv that] by (metis prod.collapse)
  moreover have "mset (pc_free_blocks c @ concat (map ps_blocks (pc_sequences c))) = mset (map int [0..<nat (pc_max_blocks c)])"
    using inv by (simp add: paged_inv_def blocks_conserved_def owned_blocks_def)
  ultimately show ?thesis
    using seq_of_ok [OF inv] reserve_sequence_defined_iff [OF inv] by (simp add: seq_of_views seq_ok_def)
qed

theorem paged_blocks_conserved_witness:
  "mset (pc_free_blocks demo_written @ concat (map ps_blocks (pc_sequences demo_written))) = mset [0, 1, 2]"
proof -
  have "pc_max_blocks demo_written = 3"
    by (simp add: demo_written_def demo_write_eval)
  with paged_blocks_conserved [OF demo_written_reachable] show ?thesis
    by (simp add: eval_simps)
qed

text \<open>C2. After a successful write of \<open>n\<close> tokens at a position, reading any head of any of them
  gives exactly the floats that were written, keys and values alike; and every other read that
  succeeded before, of another sequence, layer or position, still succeeds with the same
  floats.\<close>

theorem paged_write_then_read:
  assumes "paged.reachable c" and "paged_call_ok c (WriteTokens sid layer start (Some k) (Some v) n)"
    and "write_tokens sid layer start (Some k) (Some v) n c = (make_ok, c')"
  shows "(\<forall>t h. 0 \<le> t \<and> t < n \<and> 0 \<le> h \<and> h < pc_num_kv_heads c \<longrightarrow>
        read_token True c' sid layer (start + t) h =
          Inr (row_at (nat (pc_head_dim c)) (nat h) (row_at (kv_width c) (nat t) k))
      \<and> read_token False c' sid layer (start + t) h =
          Inr (row_at (nat (pc_head_dim c)) (nat h) (row_at (kv_width c) (nat t) v)))
    \<and> (\<forall>key s l p h x. read_token key c s l p h = Inr x \<longrightarrow>
        \<not> (s = sid \<and> l = layer \<and> start \<le> p \<and> p < start + n) \<longrightarrow>
        read_token key c' s l p h = Inr x)"
proof (cases "n = 0")
  case True
  with assms(3) show ?thesis by (auto simp: write_tokens_def split: if_splits)
next
  case False
  have inv: "paged_inv c" by (rule paged.reachable_inv [OF assms(1)])
  from False assms(3) have start: "0 \<le> start" "0 < n" and layer: "valid_layer c layer"
    by (auto simp: write_tokens_def valid_layer_def split: if_splits)
  have n32: "int32_ok (start + n + pc_block_size c)"
    and len: "nat n * kv_width c \<le> length k" "nat n * kv_width c \<le> length v"
    using assms(2) start by (simp_all add: rows_given_def)
  obtain r1 c1 where res: "reserve_sequence sid (start + n) c = (r1, c1)"
    by (cases "reserve_sequence sid (start + n) c")
  have bs: "0 < pc_block_size c" using paged_invD(1) [OF inv] by (simp add: dims_ok_def)
  have e32: "int32_ok (start + n)" using int32_ok_between [OF n32, of "start + n"] start bs by simp
  have "r1 = make_ok"
    using assms(3) res start layer e32
    by (cases r1) (auto simp: write_tokens_def valid_layer_def cint32_ok)
  then have sid: "0 \<le> sid" "can_hold c sid (start + n)"
    using reserve_sequence_keeps [OF inv _ res] n32 by simp_all
  from write_tokens_spec [OF inv layer sid(1) start n32 len sid(2)] assms(3)
  have inv': "paged_inv c'" and geo: "same_geometry c c'" and wr: "tokens_written c c' sid layer start n k v"
    by auto
  have seq: "sequence_length c s \<le> sequence_length c' s" "start + n \<le> sequence_length c' sid" for s
    using wr by (auto simp: tokens_written_def seq_of_views(1)) (cases "s = sid", auto)
  have l': "valid_layer c' layer" using layer geo by (simp add: valid_layer_def pc_num_layers_def same_geometry_def)
  have new: "read_token key c' sid layer (start + t) h =
      Inr (row_at (nat (pc_head_dim c)) (nat h) (row_at (kv_width c) (nat t) (if key then k else v)))"
    if "0 \<le> t" "t < n" "0 \<le> h" "h < pc_num_kv_heads c" for key t h
  proof -
    have "token_row key c' sid layer (start + t) = row_at (kv_width c) (nat t) (if key then k else v)"
      using wr that unfolding tokens_written_def by (metis add_diff_cancel_left' add_strict_left_mono le_add_same_cancel1)
    then show ?thesis
      using read_token_ok [OF inv' l' that(3), of "start + t" sid key] that seq(2) start geo
      by (simp add: same_geometry_def)
  qed
  have old: "read_token key c' s l p h = Inr x"
    if "read_token key c s l p h = Inr x" and "\<not> (s = sid \<and> l = layer \<and> start \<le> p \<and> p < start + n)"
    for key s l p h x
    using read_token_agree [OF inv inv' geo seq(1) _ that(1)] that(2) wr
    unfolding tokens_written_def by blast
  show ?thesis using new [of _ _ True] new [of _ _ False] old by auto
qed

theorem paged_write_then_read_witness:
  "read_token True demo_written 0 0 1 0 = Inr [3, 4]"
proof -
  have "write_tokens 0 0 0 (Some [1, 2, 3, 4]) (Some [5, 6, 7, 8]) 2 demo_cache = (make_ok, demo_written)"
    by (simp add: demo_written_def demo_write_eval)
  note reads = paged_write_then_read [OF demo_reachable demo_call this]
  have "pc_num_kv_heads demo_cache = 1" "pc_head_dim demo_cache = 2" "kv_width demo_cache = 2"
    by (simp_all add: demo_cache_eval kv_width_def)
  with reads [THEN conjunct1, rule_format, of 1 0] show ?thesis
    by (simp add: row_at_def)
qed

text \<open>C25. \<open>reserve_sequence\<close> is all or nothing. With enough free blocks it succeeds, takes exactly
  the missing blocks from the stack and appends them to the table, so that the capacity covers
  the tokens asked for; without, it answers \<open>OutOfRange\<close> and takes nothing. Either way the other
  sequences, the length and all stored rows stay as they are.\<close>

theorem paged_reserve_all_or_nothing:
  assumes "paged.reachable c" and "0 \<le> sid" and "0 \<le> n" and "int32_ok (n + pc_block_size c)"
    and "reserve_sequence sid n c = (r, c')"
  shows "let k = max 0 (blocks_needed n (pc_block_size c) - int (length (ps_blocks (seq_of c sid)))) in
     pc_layers c' = pc_layers c
     \<and> (\<forall>s. s \<noteq> sid \<longrightarrow> seq_of c' s = seq_of c s) \<and> sequence_length c' sid = sequence_length c sid
     \<and> (if k \<le> pc_free_block_count c
        then r = make_ok \<and> pc_free_block_count c' = pc_free_block_count c - k
          \<and> (\<exists>new. block_table c' sid = Some (ps_blocks (seq_of c sid) @ new) \<and> int (length new) = k
               \<and> set new \<subseteq> set (pc_free_blocks c))
          \<and> n \<le> int (length (ps_blocks (seq_of c' sid))) * pc_block_size c
        else r = Inl (out_of_range ''PagedKVCache does not have enough free blocks'')
          \<and> pc_free_blocks c' = pc_free_blocks c \<and> seq_of c' sid = seq_of c sid)"
proof -
  have inv: "paged_inv c" by (rule paged.reachable_inv [OF assms(1)])
  have bs: "0 < pc_block_size c" using paged_invD(1) [OF inv] by (simp add: dims_ok_def)
  let ?old = "ps_blocks (seq_of c sid)"
  let ?k = "nat (blocks_needed n (pc_block_size c) - int (length ?old))"
  from reserve_sequence_spec [OF inv assms(2-4)] assms(5) have out: "reserve_outcome c sid n r c'" by auto
  then have layers: "pc_layers c' = pc_layers c" and known: "known_sequence c' sid"
    by (simp_all add: reserve_outcome_def Let_def)
  show ?thesis
  proof (cases "?k \<le> length (pc_free_blocks c)")
    case True
    let ?new = "rev (drop (length (pc_free_blocks c) - ?k) (pc_free_blocks c))"
    from True out have r: "r = make_ok" and free: "pc_free_blocks c' = take (length (pc_free_blocks c) - ?k) (pc_free_blocks c)"
      and seqs: "seq_of c' = (seq_of c)(sid := (seq_of c sid)\<lparr>ps_blocks := ?old @ ?new\<rparr>)"
      by (simp_all add: reserve_outcome_def Let_def)
    have table: "block_table c' sid = Some (?old @ ?new)"
      using known seqs by (simp add: block_table_def) (metis fun_upd_same paged_seq.select_convs(2)
          paged_seq.surjective paged_seq.update_convs(2) seq_of_def)
    have "blocks_needed n (pc_block_size c) * pc_block_size c \<le> int (length (?old @ ?new)) * pc_block_size c"
      using True bs by (intro mult_right_mono) simp_all
    then have "n \<le> int (length (?old @ ?new)) * pc_block_size c"
      using blocks_needed_bounds(2) [OF assms(3) bs] by linarith
    then show ?thesis
      using True r free seqs table layers set_drop_subset [of _ "pc_free_blocks c"]
      by (auto simp: Let_def pc_free_block_count_def seq_of_views intro!: exI [of _ ?new])
  next
    case False
    with out layers show ?thesis
      by (auto simp: Let_def pc_free_block_count_def reserve_outcome_def seq_of_views)
  qed
qed

theorem paged_reserve_all_or_nothing_witness:
  "pc_free_block_count (snd (reserve_sequence 1 5 demo_cache)) = 0
   \<and> fst (reserve_sequence 1 7 demo_cache) = Inl (out_of_range ''PagedKVCache does not have enough free blocks'')"
proof -
  obtain r c' where a: "reserve_sequence 1 5 demo_cache = (r, c')" by (cases "reserve_sequence 1 5 demo_cache")
  obtain r2 c2 where b: "reserve_sequence 1 7 demo_cache = (r2, c2)" by (cases "reserve_sequence 1 7 demo_cache")
  have "int32_ok (5 + pc_block_size demo_cache)" "int32_ok (7 + pc_block_size demo_cache)"
    by (simp_all add: demo_cache_eval int32_ok_def)
  note w = paged_reserve_all_or_nothing [OF demo_reachable _ _ this(1) a]
    paged_reserve_all_or_nothing [OF demo_reachable _ _ this(2) b]
  have d: "pc_free_block_count demo_cache = 3" "seq_of demo_cache 1 = empty_seq" "pc_block_size demo_cache = 2"
    by (simp_all add: demo_cache_eval pc_free_block_count_def seq_of_def known_sequence_def)
  show ?thesis using w a b by (simp add: d blocks_needed_def Let_def)
qed

text \<open>\<open>free_sequence\<close> gives every block of the sequence back to the pool and forgets the
  sequence; the other sequences keep their tables, and every read from them its floats.\<close>

theorem paged_free_returns_blocks:
  assumes "paged.reachable c" and "free_sequence sid c = (r, c')"
  shows "r = make_ok \<and> \<not> has_sequence c' sid \<and> sequence_length c' sid = 0
    \<and> pc_free_block_count c' = pc_free_block_count c + int (length (ps_blocks (seq_of c sid)))
    \<and> (\<forall>s. s \<noteq> sid \<longrightarrow> seq_of c' s = seq_of c s)
    \<and> (\<forall>key s l p h x. s \<noteq> sid \<longrightarrow> read_token key c s l p h = Inr x \<longrightarrow> read_token key c' s l p h = Inr x)"
proof -
  have inv: "paged_inv c" by (rule paged.reachable_inv [OF assms(1)])
  note keep = free_sequence_inv [OF inv assms(2)]
  note frame = free_sequence_frame [OF inv assms(2)]
  have "read_token key c' s l p h = Inr x" if "s \<noteq> sid" "read_token key c s l p h = Inr x" for key s l p h x
  proof (rule read_token_agree [OF inv _ _ _ _ that(2)])
    show "token_row key c' s l p = token_row key c s l p"
      using frame that(1) keep
      by (simp add: token_row_def row_index_def slot_block_def kv_width_def same_geometry_def layer_storage_def)
  qed (use frame that(1) keep in \<open>simp_all add: seq_of_views\<close>)
  then show ?thesis using keep frame by (simp add: seq_of_views pc_free_block_count_def)
qed

theorem paged_free_returns_blocks_witness:
  "pc_free_block_count (snd (free_sequence 0 demo_written)) = 3
   \<and> \<not> has_sequence (snd (free_sequence 0 demo_written)) 0"
proof -
  obtain r c' where a: "free_sequence 0 demo_written = (r, c')" by (cases "free_sequence 0 demo_written")
  have "pc_free_block_count demo_written = 2" "length (ps_blocks (seq_of demo_written 0)) = 1"
    by (simp_all add: demo_written_def demo_write_eval pc_free_block_count_def seq_of_def known_sequence_def)
  with paged_free_returns_blocks [OF demo_written_reachable a] a show ?thesis by simp
qed

end
