(* ===== verification/Softmax_Attention.thy ===== *)
theory Softmax_Attention
  imports Paged_Attention Paged_Cache_Properties
begin

text \<open>
  The loops of paged attention on the paged cache, and over the reals: what
  \<open>paged_attention_decode\<close> computes is softmax attention of the query over the rows of the
  sequence, and the subtraction of the maximum, there against overflow, does not change it.
\<close>

section \<open>The paged cache is a store of rows\<close>

definition cached_row :: "bool \<Rightarrow> 'f paged_cache \<Rightarrow> int \<Rightarrow> int \<Rightarrow> int \<Rightarrow> int \<Rightarrow> 'f list" where
  "cached_row key c sid layer pos h =
     row_at (nat (pc_head_dim c)) (nat h) (token_row key c sid layer pos)"

lemma cached_row_length:
  assumes "paged_inv c" and "valid_layer c l" and "0 \<le> h" and "h < pc_num_kv_heads c"
    and "0 \<le> p" and "p < sequence_length c s"
  shows "length (cached_row key c s l p h) = nat (pc_head_dim c)"
proof -
  have d: "dims_ok c" by (rule paged_invD(1) [OF assms(1)])
  have slot: "has_slot c s p" by (rule slot_below_length [OF assms(1,5,6)])
  have "length (token_row key c s l p) = kv_width c"
    using row_in_storage [OF assms(1) slot] layer_storage_length [OF assms(1,2), of key]
    by (simp add: token_row_def)
  moreover have "kv_width c = nat (pc_num_kv_heads c) * nat (pc_head_dim c)"
    using d by (simp add: kv_width_def nat_mult_distrib dims_ok_def)
  moreover have "nat h * nat (pc_head_dim c) + nat (pc_head_dim c) \<le> nat (pc_num_kv_heads c) * nat (pc_head_dim c)"
    using assms(3,4) by (intro row_fits) simp
  ultimately show ?thesis by (simp add: cached_row_def)
qed

interpretation paged_rows: kv_store paged_inv read_token cached_row sequence_length valid_layer
  pc_num_kv_heads "\<lambda>c. nat (pc_head_dim c)"
  by unfold_locales (simp_all add: read_token_ok cached_row_length, simp add: cached_row_def)

section \<open>Real arithmetic\<close>

text \<open>The lowest float is \<open>-(2^128 - 2^104)\<close>.\<close>

definition real_ops :: "real float_ops" where
  "real_ops = \<lparr>f_zero = 0, f_one = 1, f_lowest = - (2 ^ 128 - 2 ^ 104), f_add = (+), f_sub = (-),
     f_mul = (*), f_div = (/), f_exp = exp, f_sqrt = sqrt, f_of_int = of_int, f_less = (<), f_le = (\<le>)\<rparr>"

lemma real_ops_simps [simp]:
  "f_zero real_ops = 0" "f_one real_ops = 1" "f_add real_ops = (+)" "f_sub real_ops = (-)"
  "f_mul real_ops = (*)" "f_div real_ops = (/)" "f_exp real_ops = exp" "f_sqrt real_ops = sqrt"
  "f_of_int real_ops = of_int" "f_less real_ops = (<)" "f_le real_ops = (\<le>)"
  by (simp_all add: real_ops_def)

definition scaled_scores :: "real \<Rightarrow> real list \<Rightarrow> real list list \<Rightarrow> nat \<Rightarrow> real" where
  "scaled_scores scale q ks p = (\<Sum>i < length q. q ! i * ks ! p ! i) * scale"

definition softmax :: "(nat \<Rightarrow> real) \<Rightarrow> nat \<Rightarrow> nat \<Rightarrow> real" where
  "softmax s n p = exp (s p) / (\<Sum>j < n. exp (s j))"

lemma softmax_sum: "0 < n \<Longrightarrow> (\<Sum>p < n. softmax s n p) = 1"
proof -
  assume "0 < n"
  then have "0 < (\<Sum>j < n. exp (s j))" by (intro sum_pos) auto
  then show ?thesis by (simp add: softmax_def flip: sum_divide_distrib)
qed

lemma softmax_cong: "(\<And>j. j < n \<Longrightarrow> s j = t j) \<Longrightarrow> p < n \<Longrightarrow> softmax s n p = softmax t n p"
  by (simp add: softmax_def)

lemma softmax_shift: "softmax (\<lambda>p. s p - m) n p = softmax s n p"
proof -
  have "(\<Sum>j < n. exp (s j - m)) = (\<Sum>j < n. exp (s j)) / exp m"
    by (simp add: exp_diff sum_divide_distrib)
  then show ?thesis by (simp add: softmax_def exp_diff)
qed

lemma foldl_add_real: "foldl (+) a xs = a + sum_list xs" for a :: real
  by (induction xs arbitrary: a) auto

lemma sum_floats_real: "sum_floats real_ops xs = (\<Sum>i < length xs. xs ! i)"
  by (simp add: sum_floats_def foldl_add_real sum_list_sum_nth atLeast0LessThan)

lemma dot_product_real:
  assumes "length q = length k"
  shows "dot_product real_ops q k = (\<Sum>i < length q. q ! i * k ! i)"
proof -
  have "foldl (\<lambda>acc (x, y). acc + x * y) a (zip q k) = a + (\<Sum>i < length q. q ! i * k ! i)" for a
    using assms by (induction q k arbitrary: a rule: list_induct2) (simp_all add: sum.lessThan_Suc_shift del: sum.lessThan_Suc)
  then show ?thesis by (simp add: dot_product_def)
qed

lemma value_sum_real:
  assumes "length ps = length vs" and "\<forall>v \<in> set vs. length v = w" and "length acc = w" and "d < w"
  shows "foldl (\<lambda>acc (p, v). add_weighted real_ops (p / z) v acc) acc (zip ps vs) ! d
    = acc ! d + (\<Sum>p < length vs. ps ! p / z * vs ! p ! d)"
  using assms
proof (induction ps vs arbitrary: acc rule: list_induct2)
  case (Cons p ps v vs)
  have "length (add_weighted real_ops (p / z) v acc) = w"
    "add_weighted real_ops (p / z) v acc ! d = acc ! d + p / z * v ! d"
    using Cons.prems by (simp_all add: add_weighted_def)
  with Cons show ?case by (simp add: sum.lessThan_Suc_shift del: sum.lessThan_Suc)
qed simp

lemma attention_row_real:
  assumes "length vs = length ks" and "\<forall>v \<in> set vs. length v = w" and "\<forall>k \<in> set ks. length k = length q"
    and "d < w"
  shows "attention_row real_ops scale w q ks vs ! d
    = (\<Sum>p < length ks. softmax (scaled_scores scale q ks) (length ks) p * vs ! p ! d)"
proof -
  let ?ss = "map (\<lambda>k. dot_product real_ops q k * scale) ks"
  let ?m = "foldl (f_max real_ops) (f_lowest real_ops) ?ss"
  let ?ps = "exp_scores real_ops ?ss ?m"
  have ss: "?ss ! p = scaled_scores scale q ks p" if "p < length ks" for p
    using that assms(3) by (simp add: dot_product_real scaled_scores_def)
  then have ps: "?ps ! p = exp (scaled_scores scale q ks p - ?m)" "length ?ps = length ks"
    if "p < length ks" for p
    using that by (simp_all add: exp_scores_def)
  have "sum_floats real_ops ?ps = (\<Sum>j < length ks. exp (scaled_scores scale q ks j - ?m))"
    unfolding sum_floats_real using ps by (intro sum.cong) (simp_all add: exp_scores_def)
  then have "?ps ! p / sum_floats real_ops ?ps = softmax (scaled_scores scale q ks) (length ks) p"
    if "p < length ks" for p
    using softmax_shift [of "scaled_scores scale q ks" ?m "length ks" p] ps that
    by (simp add: softmax_def)
  then have "(\<Sum>p < length vs. ?ps ! p / sum_floats real_ops ?ps * vs ! p ! d)
      = (\<Sum>p < length ks. softmax (scaled_scores scale q ks) (length ks) p * vs ! p ! d)"
    using assms(1) by (intro sum.cong) simp_all
  moreover have "attention_row real_ops scale w q ks vs ! d
      = (\<Sum>p < length vs. ?ps ! p / sum_floats real_ops ?ps * vs ! p ! d)"
    using value_sum_real [of ?ps vs w "replicate w 0" d "sum_floats real_ops ?ps"] assms
    by (simp add: attention_row_def Let_def exp_scores_def)
  ultimately show ?thesis by simp
qed

lemma attention_sum_real:
  assumes "ks \<noteq> []"
  shows "0 < attention_sum real_ops scale q ks"
  unfolding attention_sum_def Let_def sum_floats_real
  using assms by (intro sum_pos) (auto simp: exp_scores_def)

section \<open>The property\<close>

text \<open>The score of a query head against a cached key, and what attention makes of the values.\<close>

definition query_score :: "real paged_cache \<Rightarrow> int \<Rightarrow> int \<Rightarrow> real list \<Rightarrow> nat \<Rightarrow> int \<Rightarrow> nat \<Rightarrow> real" where
  "query_score c sid layer q qi kv_h p =
     (\<Sum>i < nat (pc_head_dim c). q ! (qi + i) * cached_row True c sid layer (int p) kv_h ! i)
       * (1 / sqrt (of_int (pc_head_dim c)))"

definition softmax_attention :: "real paged_cache \<Rightarrow> int \<Rightarrow> int \<Rightarrow> real list \<Rightarrow> nat \<Rightarrow> int \<Rightarrow> nat \<Rightarrow> real" where
  "softmax_attention c sid layer q qi kv_h d =
     (let n = nat (sequence_length c sid)
      in \<Sum>p < n. softmax (query_score c sid layer q qi kv_h) n p * cached_row False c sid layer (int p) kv_h ! d)"

lemma head_row_softmax:
  assumes inv: "paged_inv c" and layer: "valid_layer c layer" and kv_h: "0 \<le> int h div g" "int h div g < pc_num_kv_heads c"
    and q: "qoff + h * nat (pc_head_dim c) + nat (pc_head_dim c) \<le> length q" and d: "d < nat (pc_head_dim c)"
  shows "paged_rows.head_row real_ops (1 / sqrt (of_int (pc_head_dim c))) c sid layer g q qoff h ! d
    = softmax_attention c sid layer q (qoff + h * nat (pc_head_dim c)) (int h div g) d"
proof -
  let ?w = "nat (pc_head_dim c)" and ?n = "nat (sequence_length c sid)" and ?kv = "int h div g"
  let ?scale = "1 / sqrt (of_int (pc_head_dim c))"
  let ?q = "take ?w (drop (qoff + h * ?w) q)" and ?ks = "paged_rows.rows True c sid layer ?kv"
    and ?vs = "paged_rows.rows False c sid layer ?kv"
  note width = paged_rows.rows_width [OF inv layer kv_h]
  have lq: "length ?q = ?w" using q by simp
  have score: "scaled_scores ?scale ?q ?ks p = query_score c sid layer q (qoff + h * ?w) ?kv p" if "p < ?n" for p
    using that lq q by (simp add: scaled_scores_def query_score_def paged_rows.rows_def)
  have "paged_rows.head_row real_ops ?scale c sid layer g q qoff h ! d
      = (\<Sum>p < length ?ks. softmax (scaled_scores ?scale ?q ?ks) (length ?ks) p * ?vs ! p ! d)"
    unfolding paged_rows.head_row_def using width d lq by (intro attention_row_real) auto
  also have "\<dots> = softmax_attention c sid layer q (qoff + h * ?w) ?kv d"
    unfolding softmax_attention_def Let_def width(1)
    using softmax_cong [OF score] by (intro sum.cong) (simp_all add: paged_rows.rows_def)
  finally show ?thesis .
qed

lemma nth_in_concat_rows:
  assumes "\<And>x. x \<in> set xs \<Longrightarrow> length (f x) = w" and "h < length xs" and "d < w"
  shows "concat (map f xs) ! (h * w + d) = f (xs ! h) ! d" and "length (concat (map f xs)) = length xs * w"
  using assms
proof (induction xs arbitrary: h)
  case (Cons x xs)
  {
    case 1
    then show ?case
    proof (cases h)
      case (Suc h')
      have "length (f x) = w" using 1 by simp
      with Suc show ?thesis using Cons.IH(1) [of h'] 1 by (simp add: nth_append add.assoc)
    qed (simp add: nth_append)
  next
    case 2
    have "length (concat (map f xs)) = length xs * w" using 2(1)
      by (induction xs) auto
    with 2 show ?case by simp
  }
qed simp_all

lemma decode_softmax:
  fixes c :: "real paged_cache"
  assumes "paged_inv c" and "valid_layer c layer" and "0 < sequence_length c sid"
    and "0 < g" and "num_heads = pc_num_kv_heads c * g"
    and "qoff + nat num_heads * nat (pc_head_dim c) \<le> length q"
    and "ooff + nat num_heads * nat (pc_head_dim c) \<le> length out"
  shows "\<exists>out'. paged_attention_decode real_ops c sid layer (Some q) qoff (Some out) ooff num_heads (pc_head_dim c)
        = (make_ok, Some out') \<and> length out' = length out
    \<and> (\<forall>h < nat num_heads. \<forall>d < nat (pc_head_dim c). out' ! (ooff + h * nat (pc_head_dim c) + d)
        = softmax_attention c sid layer q (qoff + h * nat (pc_head_dim c)) (int h div g) d)
    \<and> (\<forall>i < length out. i < ooff \<or> ooff + nat num_heads * nat (pc_head_dim c) \<le> i \<longrightarrow> out' ! i = out ! i)"
proof -
  let ?w = "nat (pc_head_dim c)" and ?n = "nat num_heads" and ?scale = "1 / sqrt (of_int (pc_head_dim c))"
  note inv = assms(1)
  have d: "dims_ok c" by (rule paged_invD(1) [OF inv])
  let ?row = "paged_rows.head_row real_ops ?scale c sid layer g q qoff"
  have kv: "0 \<le> int h div g" "int h div g < pc_num_kv_heads c" if "h < ?n" for h
  proof -
    have "int h < pc_num_kv_heads c * g" using that assms(5) by linarith
    then show "0 \<le> int h div g" "int h div g < pc_num_kv_heads c"
      using assms(4) by (simp_all add: pos_imp_zdiv_nonneg_iff int_div_less)
  qed
  have nh: "0 < num_heads" using d assms(4,5) by (simp add: dims_ok_def)
  have sums: "\<not> f_le real_ops (paged_rows.head_sum real_ops ?scale c sid layer g q qoff h) (f_zero real_ops)"
    if "h < ?n" for h
  proof -
    have "paged_rows.rows True c sid layer (int h div g) \<noteq> []"
      using paged_rows.rows_width(1) [OF inv assms(2) kv [OF that], of True sid] assms(3) by auto
    then show ?thesis using attention_sum_real by (simp add: paged_rows.head_sum_def not_le)
  qed
  define out' where "out' = take ooff out @ concat (map ?row [0..<?n]) @ drop (ooff + ?n * ?w) out"
  have run: "head_loop real_ops (\<lambda>key p hh. read_token key c sid layer p hh) g (sequence_length c sid) q qoff ?w
      ?scale ooff 0 ?n out = (make_ok, out')"
    using paged_rows.head_loop_run [OF inv assms(2) _ assms(4) refl, where h = 0 and n = ?n] sums assms(3,5-) nh
    by (simp add: out'_def)
  have wrow: "length (?row h) = ?w" if "h \<in> set [0..<?n]" for h
    unfolding paged_rows.head_row_def using kv [of h] that paged_rows.rows_width(2) [OF inv assms(2)]
    by (intro length_attention_row) auto
  have len: "length (concat (map ?row [0..<?n])) = ?n * ?w"
    using nth_in_concat_rows(2) [of "[0..<?n]" ?row ?w 0 0] wrow nh d by (simp add: dims_ok_def)
  have "cdiv num_heads (pc_num_kv_heads c) = Inr g" "cmod num_heads (pc_num_kv_heads c) = Inr 0"
    using d nh assms(5) by (simp_all add: dims_ok_def)
  then have eval: "paged_attention_decode real_ops c sid layer (Some q) qoff (Some out) ooff num_heads (pc_head_dim c)
      = (make_ok, Some out')"
    using paged_inv_initialized [OF inv] nh d assms(3) run
    by (simp add: paged_attention_decode_def dims_ok_def Let_def)
  have "out' ! (ooff + h * ?w + e) = softmax_attention c sid layer q (qoff + h * ?w) (int h div g) e"
    if h: "h < ?n" and e: "e < ?w" for h e
  proof -
    have i: "h * ?w + e < ?n * ?w" using row_fits [OF h, of ?w] e by linarith
    have "out' ! (ooff + h * ?w + e) = concat (map ?row [0..<?n]) ! (h * ?w + e)"
      using i len assms(7) by (simp add: out'_def nth_append add.assoc)
    also have "\<dots> = ?row h ! e" using nth_in_concat_rows(1) [of "[0..<?n]" ?row ?w h e] wrow h e by simp
    finally show ?thesis
      using head_row_softmax [OF inv assms(2) kv [OF h], of qoff q e sid] row_fits [OF h, of ?w] assms(6) e by simp
  qed
  moreover have "out' ! i = out ! i" if "i < length out" "i < ooff \<or> ooff + ?n * ?w \<le> i" for i
    using that len assms(7) by (auto simp: out'_def nth_append)
  moreover have "length out' = length out" using len assms(7) by (simp add: out'_def)
  ultimately show ?thesis using eval by blast
qed

text \<open>Paged decoding of one token, over the reals, is softmax attention: on every reachable
  cache, for a non-empty sequence, a valid layer and a head count that is a multiple of the KV heads,
  it succeeds and writes into every head of the output the softmax-weighted sum of the cached values, with the
  scores of that head's query against the cached keys scaled by \<open>1 / sqrt head_dim\<close>; the KV head of a query
  head is its group, and nothing outside the heads is written.\<close>

theorem paged_decode_is_softmax_attention:
  fixes c :: "real paged_cache"
  assumes "paged.reachable c" and "valid_layer c layer" and "0 < sequence_length c sid"
    and "0 < g" and "num_heads = pc_num_kv_heads c * g"
    and "qoff + nat num_heads * nat (pc_head_dim c) \<le> length q"
    and "ooff + nat num_heads * nat (pc_head_dim c) \<le> length out"
  shows "\<exists>out'. paged_attention_decode real_ops c sid layer (Some q) qoff (Some out) ooff num_heads (pc_head_dim c)
        = (make_ok, Some out') \<and> length out' = length out
    \<and> (\<forall>h < nat num_heads. \<forall>d < nat (pc_head_dim c). out' ! (ooff + h * nat (pc_head_dim c) + d)
        = softmax_attention c sid layer q (qoff + h * nat (pc_head_dim c)) (int h div g) d)
    \<and> (\<forall>i < length out. i < ooff \<or> ooff + nat num_heads * nat (pc_head_dim c) \<le> i \<longrightarrow> out' ! i = out ! i)"
  using paged.reachable_inv [OF assms(1)] assms(2-) by (rule decode_softmax)

text \<open>One cached token: attention gives its value back, whatever the query.\<close>

definition demo_real :: "real paged_cache" where
  "demo_real = snd (paged_exec (WriteTokens 0 0 0 (Some [3, 4]) (Some [5, 6]) 1)
     (snd (paged_init 1 1 2 2 3 empty_paged)))"

lemma demo_real_eval:
  "demo_real = \<lparr>pc_layers = [\<lparr>pl_k = [3, 4, 0, 0, 0, 0, 0, 0, 0, 0, 0, 0], pl_v = [5, 6, 0, 0, 0, 0, 0, 0, 0, 0, 0, 0]\<rparr>],
      pc_free_blocks = [2, 1], pc_block_used = [True, False, False],
      pc_sequences = [\<lparr>ps_length = 1, ps_blocks = [0]\<rparr>], pc_num_kv_heads = 1, pc_head_dim = 2,
      pc_block_size = 2, pc_max_blocks = 3\<rparr>"
  by (simp add: demo_real_def paged_init_def paged_release_def empty_paged_def free_stack_def
      write_tokens_def pc_num_layers_def cint32_ok int32_ok_def
      reserve_sequence_def ensure_sequence_def pc_initialized_def vec_resize_def ceil_div_int_def
      empty_seq_def write_row_def mutable_token_ptr_def token_index_def
      physical_block_for_position_def known_sequence_def pc_kv_hidden_def size_of_int_def Let_def
      copy_floats_def eval_simps)

lemma demo_real_reachable: "paged.reachable demo_real"
proof -
  have args: "init_args_ok 1 1 2 2 3" by (simp add: init_args_ok_def int32_ok_def)
  obtain c :: "real paged_cache" where c: "paged_init 1 1 2 2 3 empty_paged = (make_ok, c)"
    "pc_num_kv_heads c = 1" "pc_head_dim c = 2" "pc_block_size c = 2"
    using paged_init_ok [OF args, of "empty_paged :: real paged_cache"] by auto
  then have "paged_start c" using args unfolding paged_start_def by blast
  then have "paged.reachable (snd (paged_exec (WriteTokens 0 0 0 (Some [3, 4]) (Some [5, 6]) 1) c))"
    using c by (intro paged.reachable_exec paged.reachable_start)
      (simp_all add: rows_given_def kv_width_def int32_ok_def)
  then show ?thesis by (simp add: demo_real_def c(1))
qed

theorem paged_decode_is_softmax_attention_witness:
  "\<exists>out. paged_attention_decode real_ops demo_real 0 0 (Some [1, 2]) 0 (Some [0, 0]) 0 1 2 = (make_ok, Some out)
     \<and> out ! 0 = 5 \<and> out ! 1 = 6"
proof -
  have d: "valid_layer demo_real 0" "sequence_length demo_real 0 = 1" "pc_num_kv_heads demo_real = 1"
    "pc_head_dim demo_real = 2"
    by (simp_all add: demo_real_eval valid_layer_def pc_num_layers_def sequence_length_def known_sequence_def)
  have row: "cached_row False demo_real 0 0 0 0 = [5, 6]"
    by (simp add: demo_real_eval cached_row_def token_row_def row_at_def row_index_def slot_block_def
        seq_of_def known_sequence_def layer_storage_def kv_width_def numeral_2_eq_2)
  then have "softmax_attention demo_real 0 0 [1, 2] 0 0 e = [5, 6] ! e" for e
    by (simp add: softmax_attention_def softmax_def d)
  with paged_decode_is_softmax_attention [OF demo_real_reachable, of 0 0 1 1 0 "[1, 2]" 0 "[0, 0]"] d
  show ?thesis by force
qed

end
