(* ===== verification/Attention_Scheduler.thy ===== *)
theory Attention_Scheduler
  imports Softmax_Attention
begin

text \<open>
  \<open>PagedAttentionScheduler\<close> (include/minillm/runtime/cache/paged_attention_scheduler.h,
  src/runtime/cache/paged_attention_scheduler.cpp): the active sequences, the flattened block
  tables of a batch and the decoding of a batch on the CPU. The cache that the scheduler refers to is
  an argument, since its other clients change it between the calls.
\<close>

section \<open>State and operations\<close>

record attention_batch =
  ab_sequence_ids :: "int list"
  ab_sequence_lengths :: "int list"
  ab_block_tables :: "int list"
  ab_batch_size :: int
  ab_max_blocks_per_sequence :: int
  ab_block_size :: int
  ab_num_kv_heads :: int
  ab_head_dim :: int

record attention_scheduler =
  as_max_batch_size :: int
  as_active_sequence_ids :: "int list"

definition new_attention_scheduler :: "int \<Rightarrow> attention_scheduler" where
  "new_attention_scheduler mb = \<lparr>as_max_batch_size = mb, as_active_sequence_ids = []\<rparr>"

definition is_active :: "attention_scheduler \<Rightarrow> int \<Rightarrow> bool" where
  "is_active s sid \<longleftrightarrow> sid \<in> set (as_active_sequence_ids s)"

definition add_sequence ::
  "'f paged_cache \<Rightarrow> int \<Rightarrow> attention_scheduler \<Rightarrow> unit result \<times> attention_scheduler"
where
  "add_sequence c sid s =
     (if as_max_batch_size s \<le> 0 then
        (Inl (invalid_argument ''PagedAttentionScheduler max_batch_size must be positive''), s)
      else if sid < 0 then (Inl (invalid_argument ''sequence_id must be non-negative''), s)
      else if \<not> has_sequence c sid \<or> sequence_length c sid \<le> 0 then
        (Inl (not_found (''sequence '' @ int_to_string sid @ '' is not present in PagedKVCache'')), s)
      else if is_active s sid then (make_ok, s)
      else if as_max_batch_size s \<le> int (length (as_active_sequence_ids s)) then
        (Inl (out_of_range ''PagedAttentionScheduler active batch is full''), s)
      else (make_ok, s\<lparr>as_active_sequence_ids := as_active_sequence_ids s @ [sid]\<rparr>))"

definition remove_sequence :: "int \<Rightarrow> attention_scheduler \<Rightarrow> unit result \<times> attention_scheduler" where
  "remove_sequence sid s =
     (make_ok, s\<lparr>as_active_sequence_ids := remove1 sid (as_active_sequence_ids s)\<rparr>)"

definition clear_active :: "attention_scheduler \<Rightarrow> attention_scheduler" where
  "clear_active s = s\<lparr>as_active_sequence_ids := []\<rparr>"

definition blocks_for_length :: "int \<Rightarrow> int \<Rightarrow> int result" where
  "blocks_for_length len bs = rbind (cint32 (len + bs)) (\<lambda>a. rbind (cint32 (a - 1)) (\<lambda>b. cdiv b bs))"

text \<open>The first loop of \<open>build_batch\<close>: lengths and the largest block count.\<close>

fun scan_active ::
  "'f paged_cache \<Rightarrow> int \<Rightarrow> int list \<Rightarrow> int list \<Rightarrow> int \<Rightarrow> (int list \<times> int) result"
where
  "scan_active c bs [] lens mx = Inr (lens, mx)"
| "scan_active c bs (sid # sids) lens mx =
     (let len = sequence_length c sid in
      case block_table c sid of
        None \<Rightarrow> Inl (not_found (''active sequence '' @ int_to_string sid @ '' is missing from PagedKVCache''))
      | Some table \<Rightarrow>
          if len \<le> 0 then
            Inl (not_found (''active sequence '' @ int_to_string sid @ '' is missing from PagedKVCache''))
          else rbind (blocks_for_length len bs) (\<lambda>needed.
            if int (length table) < needed then
              Inl (internal_error (''active sequence '' @ int_to_string sid @
                '' has a shorter block table than its length requires''))
            else scan_active c bs sids (lens @ [len]) (max mx needed)))"

text \<open>The second loop: copy the needed entries of every table into its row.\<close>

fun copy_table :: "int list \<Rightarrow> nat \<Rightarrow> nat \<Rightarrow> nat \<Rightarrow> int list \<Rightarrow> int list result" where
  "copy_table table base i 0 xs = Inr xs"
| "copy_table table base i (Suc n) xs =
     (if i < length table \<and> base + i < length xs
      then copy_table table base (Suc i) n (xs[base + i := table ! i])
      else Inl (UB ''block table index out of range''))"

fun fill_tables ::
  "'f paged_cache \<Rightarrow> int \<Rightarrow> nat \<Rightarrow> nat \<Rightarrow> int list \<Rightarrow> int list \<Rightarrow> int list \<Rightarrow> int list result"
where
  "fill_tables c bs mx b (sid # sids) (len # lens) xs =
     (case block_table c sid of
        None \<Rightarrow> Inl (UB ''null block table'')
      | Some table \<Rightarrow> rbind (blocks_for_length len bs) (\<lambda>needed.
          rbind (copy_table table (b * mx) 0 (nat needed) xs) (\<lambda>xs'.
            fill_tables c bs mx (Suc b) sids lens xs')))"
| "fill_tables c bs mx b sids lens xs = Inr xs"

definition build_batch :: "'f paged_cache \<Rightarrow> attention_scheduler \<Rightarrow> attention_batch result" where
  "build_batch c s =
     (let active = as_active_sequence_ids s in
      if active = [] then
        Inl (invalid_argument ''PagedAttentionScheduler cannot build an empty batch'')
      else if as_max_batch_size s < int (length active) then
        Inl (internal_error ''PagedAttentionScheduler active batch exceeds max_batch_size'')
      else rbind (scan_active c (pc_block_size c) active [] 0) (\<lambda>(lens, mx).
        if mx \<le> 0 then
          Inl (runtime_error ''PagedAttentionScheduler active sequences have no blocks'')
        else rbind (fill_tables c (pc_block_size c) (nat mx) 0 active lens
               (replicate (length active * nat mx) (-1))) (\<lambda>tables.
          Inr \<lparr>ab_sequence_ids = active, ab_sequence_lengths = lens, ab_block_tables = tables,
            ab_batch_size = int (length active), ab_max_blocks_per_sequence = mx,
            ab_block_size = pc_block_size c, ab_num_kv_heads = pc_num_kv_heads c,
            ab_head_dim = pc_head_dim c\<rparr>)))"

fun decode_loop ::
  "'f float_ops \<Rightarrow> 'f paged_cache \<Rightarrow> int \<Rightarrow> 'f list option \<Rightarrow> int \<Rightarrow> int \<Rightarrow> int \<Rightarrow> nat \<Rightarrow> int list
   \<Rightarrow> 'f list option \<Rightarrow> unit result \<times> 'f list option"
where
  "decode_loop F c layer q stride num_heads hdim b [] out = (make_ok, out)"
| "decode_loop F c layer q stride num_heads hdim b (sid # sids) out =
     (let off = wrap64 (b * size_of_int stride) in
      sbind (paged_attention_decode F c sid layer q off out off num_heads hdim) (\<lambda>_ out'.
        decode_loop F c layer q stride num_heads hdim (Suc b) sids out'))"

definition decode_cpu ::
  "'f float_ops \<Rightarrow> 'f paged_cache \<Rightarrow> attention_scheduler \<Rightarrow> int \<Rightarrow> 'f list option \<Rightarrow> 'f list option
   \<Rightarrow> int \<Rightarrow> int \<Rightarrow> unit result \<times> 'f list option"
where
  "decode_cpu F c s layer q output num_heads hdim =
     (if q = None \<or> output = None then
        (Inl (invalid_argument ''decode_cpu requires non-null q/output''), output)
      else case build_batch c s of
        Inl e \<Rightarrow> (Inl e, output)
      | Inr batch \<Rightarrow>
          if hdim \<noteq> ab_head_dim batch then
            (Inl (shape_mismatch ''decode_cpu head_dim must match PagedKVCache head_dim''), output)
          else (case cint32 (num_heads * hdim) of
              Inl e \<Rightarrow> (Inl e, output)
            | Inr stride \<Rightarrow>
                decode_loop F c layer q stride num_heads hdim 0 (ab_sequence_ids batch) output))"

end
