(* ===== verification/Attention_Batches.thy ===== *)
theory Attention_Batches
  imports Attention_Scheduler
begin

text \<open>
  What the paged attention scheduler promises while its cache is used by others: the batch bounds,
  the exact contents of the flattened block tables, and that a decoded batch is softmax attention
  for each of its sequences.
\<close>

section \<open>The scheduler and its cache together\<close>

datatype 'f scheduler_op =
    AddSequence int
  | RemoveSequence int
  | ClearActive
  | CacheOp "'f paged_op"

type_synonym 'f batch_state = "'f paged_cache \<times> attention_scheduler"

fun scheduler_exec :: "('f :: zero) scheduler_op \<Rightarrow> 'f batch_state \<Rightarrow> 'f batch_state" where
  "scheduler_exec (AddSequence sid) (c, s) = (c, snd (add_sequence c sid s))"
| "scheduler_exec (RemoveSequence sid) (c, s) = (c, snd (remove_sequence sid s))"
| "scheduler_exec ClearActive (c, s) = (c, clear_active s)"
| "scheduler_exec (CacheOp op) (c, s) = (snd (paged_exec op c), s)"

fun scheduler_call_ok :: "'f batch_state \<Rightarrow> 'f scheduler_op \<Rightarrow> bool" where
  "scheduler_call_ok (c, s) (CacheOp op) = paged_call_ok c op"
| "scheduler_call_ok cs _ = True"

definition batch_start :: "('f :: zero) batch_state \<Rightarrow> bool" where
  "batch_start cs \<longleftrightarrow> paged_start (fst cs) \<and> (\<exists>mb. snd cs = new_attention_scheduler mb)"

definition batch_inv :: "'f batch_state \<Rightarrow> bool" where
  "batch_inv cs \<longleftrightarrow> paged_inv (fst cs) \<and> distinct (as_active_sequence_ids (snd cs))
     \<and> (\<forall>sid \<in> set (as_active_sequence_ids (snd cs)). 0 \<le> sid)
     \<and> int (length (as_active_sequence_ids (snd cs))) \<le> max 0 (as_max_batch_size (snd cs))"

lemma scheduler_exec_inv:
  assumes "batch_inv cs" and "scheduler_call_ok cs op"
  shows "batch_inv (scheduler_exec op cs)"
proof -
  obtain c s where cs: "cs = (c, s)" by (cases cs)
  show ?thesis
  proof (cases op)
    case (RemoveSequence sid)
    with assms cs show ?thesis
      using set_remove1_subset [of sid "as_active_sequence_ids s"]
      by (auto simp: batch_inv_def remove_sequence_def length_remove1 distinct_remove1)
  qed (use assms cs in \<open>auto simp: batch_inv_def add_sequence_def is_active_def clear_active_def
      intro: paged_exec_inv\<close>)
qed

interpretation batch: invariant_machine batch_start scheduler_call_ok scheduler_exec batch_inv
proof unfold_locales
  show "batch_inv cs" if "batch_start cs" for cs :: "'a batch_state"
    using that by (auto simp: batch_start_def batch_inv_def new_attention_scheduler_def intro: paged_start_inv)
qed (rule scheduler_exec_inv)

section \<open>Building a batch\<close>

text \<open>The token positions of a full cache, rounded up, fit an int.\<close>

definition capacity_ok :: "'f paged_cache \<Rightarrow> bool" where
  "capacity_ok c \<longleftrightarrow> int32_ok ((pc_max_blocks c + 1) * pc_block_size c)"

definition seq_needed :: "'f paged_cache \<Rightarrow> int \<Rightarrow> nat" where
  "seq_needed c sid = nat (blocks_needed (sequence_length c sid) (pc_block_size c))"

definition widest :: "'f paged_cache \<Rightarrow> int list \<Rightarrow> nat" where
  "widest c sids = foldr (\<lambda>sid m. max (seq_needed c sid) m) sids 0"

lemma widest_upper: "sid \<in> set sids \<Longrightarrow> seq_needed c sid \<le> widest c sids"
  by (induction sids) (auto simp: widest_def)

lemma blocks_for_length_ok:
  assumes inv: "paged_inv c" and cap: "capacity_ok c" and len: "0 < sequence_length c sid"
  shows "blocks_for_length (sequence_length c sid) (pc_block_size c) = Inr (int (seq_needed c sid))"
    "seq_needed c sid \<le> length (ps_blocks (seq_of c sid))" "0 < seq_needed c sid"
proof -
  let ?len = "sequence_length c sid" and ?bs = "pc_block_size c" and ?n = "length (ps_blocks (seq_of c sid))"
  have d: "0 < ?bs" "0 < pc_max_blocks c" using paged_invD(1) [OF inv] by (simp_all add: dims_ok_def)
  have ok: "?len \<le> int ?n * ?bs" using seq_of_ok [OF inv, of sid] by (simp add: seq_of_views seq_ok_def)
  have "?n \<le> length (owned_blocks c)"
  proof (cases "known_sequence c sid")
    case True
    then have "ps_blocks (seq_of c sid) \<in> set (map ps_blocks (pc_sequences c))"
      by (auto simp: seq_of_def known_sequence_def)
    from split_list [OF this] obtain xs ys where "map ps_blocks (pc_sequences c) = xs @ ps_blocks (seq_of c sid) # ys"
      by blast
    then show ?thesis by (simp add: owned_blocks_def)
  qed (simp add: seq_of_def)
  then have "int ?n \<le> pc_max_blocks c"
    using blocks_conserved_length [OF paged_invD(2) [OF inv] d(2)] by linarith
  then have "int ?n * ?bs \<le> pc_max_blocks c * ?bs" using d by (intro mult_right_mono) simp_all
  then have "?len + ?bs \<le> (pc_max_blocks c + 1) * ?bs" using ok by (simp add: algebra_simps)
  then have i32: "int32_ok (?len + ?bs)"
    using cap int32_ok_between [of "(pc_max_blocks c + 1) * ?bs" "?len + ?bs"] len d by (simp add: capacity_ok_def)
  have b: "0 \<le> blocks_needed ?len ?bs" using blocks_needed_bounds(1) [of ?len ?bs] len d by simp
  then show "blocks_for_length ?len ?bs = Inr (int (seq_needed c sid))"
    using ceil_div_int_ok [OF len d(1) i32] by (simp add: blocks_for_length_def ceil_div_int_def seq_needed_def)
  show "seq_needed c sid \<le> ?n"
    using blocks_needed_le [of ?len ?bs "int ?n"] len d ok by (simp add: seq_needed_def)
  show "0 < seq_needed c sid"
    using blocks_needed_bounds(2) [of ?len ?bs] len d b
    by (cases "blocks_needed ?len ?bs = 0") (simp_all add: seq_needed_def)
qed

definition table_row :: "'f paged_cache \<Rightarrow> nat \<Rightarrow> int \<Rightarrow> int list" where
  "table_row c mx sid = take (seq_needed c sid) (ps_blocks (seq_of c sid)) @ replicate (mx - seq_needed c sid) (-1)"

lemma scan_active_ok:
  assumes "paged_inv c" and "capacity_ok c" and "\<forall>sid \<in> set sids. 0 < sequence_length c sid"
  shows "scan_active c (pc_block_size c) sids lens (int m)
    = Inr (lens @ map (sequence_length c) sids, int (max m (widest c sids)))"
  using assms(3)
proof (induction sids arbitrary: lens m)
  case (Cons sid sids)
  then have len: "0 < sequence_length c sid" by simp
  then have known: "known_sequence c sid" by (auto simp: sequence_length_def split: if_splits)
  note b = blocks_for_length_ok [OF assms(1,2) len]
  show ?case
    using Cons.IH [of "lens @ [sequence_length c sid]" "max m (seq_needed c sid)"] Cons.prems len b known
    by (simp add: block_table_def seq_of_def widest_def max.assoc of_nat_max [symmetric] del: of_nat_max)
qed (simp add: widest_def)

lemma scan_active_missing:
  assumes "paged_inv c" and "capacity_ok c" and "\<exists>sid \<in> set sids. sequence_length c sid \<le> 0"
  shows "\<exists>msg. scan_active c (pc_block_size c) sids lens m = Inl (not_found msg)"
  using assms(3)
proof (induction sids arbitrary: lens m)
  case (Cons sid sids)
  show ?case
  proof (cases "0 < sequence_length c sid")
    case len: True
    then have known: "known_sequence c sid" by (auto simp: sequence_length_def split: if_splits)
    show ?thesis
      using Cons blocks_for_length_ok [OF assms(1,2) len] len known by (simp add: block_table_def seq_of_def)
  qed (auto simp: Let_def split: option.splits)
qed simp

lemma copy_table_ok:
  assumes "i + n \<le> length table" and "length pre = base + i" and "n \<le> length rest"
  shows "copy_table table base i n (pre @ rest) = Inr (pre @ take n (drop i table) @ drop n rest)"
  using assms
proof (induction n arbitrary: i pre rest)
  case (Suc n)
  then obtain r rest' where rest: "rest = r # rest'" by (cases rest) auto
  have "drop i table = table ! i # drop (Suc i) table" using Suc.prems by (simp add: Cons_nth_drop_Suc)
  with Suc.IH [of "Suc i" "pre @ [table ! i]" rest'] Suc.prems rest show ?case
    by (simp add: list_update_append)
qed simp

lemma fill_tables_ok:
  assumes "paged_inv c" and "capacity_ok c" and "\<forall>sid \<in> set sids. 0 < sequence_length c sid \<and> seq_needed c sid \<le> mx"
    and "length pre = b * mx"
  shows "fill_tables c (pc_block_size c) mx b sids (map (sequence_length c) sids) (pre @ replicate (length sids * mx) (-1))
    = Inr (pre @ concat (map (table_row c mx) sids))"
  using assms(3,4)
proof (induction sids arbitrary: b pre)
  case (Cons sid sids)
  then have len: "0 < sequence_length c sid" and mx: "seq_needed c sid \<le> mx" by simp_all
  then have known: "known_sequence c sid" by (auto simp: sequence_length_def split: if_splits)
  note blk = blocks_for_length_ok [OF assms(1,2) len]
  have row: "length (table_row c mx sid) = mx" using blk mx by (simp add: table_row_def)
  have "copy_table (ps_blocks (seq_of c sid)) (b * mx) 0 (seq_needed c sid) (pre @ replicate (length (sid # sids) * mx) (-1))
      = Inr ((pre @ table_row c mx sid) @ replicate (length sids * mx) (-1))"
    using copy_table_ok [of 0 "seq_needed c sid" "ps_blocks (seq_of c sid)" pre "b * mx"] blk mx Cons.prems
    by (simp add: table_row_def flip: replicate_add)
  with Cons.IH [of "pre @ table_row c mx sid" "Suc b"] Cons.prems row blk known show ?case
    by (simp add: block_table_def seq_of_def)
qed simp

definition paged_batch :: "'f paged_cache \<Rightarrow> int list \<Rightarrow> attention_batch" where
  "paged_batch c active = \<lparr>ab_sequence_ids = active, ab_sequence_lengths = map (sequence_length c) active,
     ab_block_tables = concat (map (table_row c (widest c active)) active),
     ab_batch_size = int (length active), ab_max_blocks_per_sequence = int (widest c active),
     ab_block_size = pc_block_size c, ab_num_kv_heads = pc_num_kv_heads c, ab_head_dim = pc_head_dim c\<rparr>"

lemma build_batch_ok:
  assumes inv: "batch_inv (c, s)" and cap: "capacity_ok c" and ne: "as_active_sequence_ids s \<noteq> []"
    and len: "\<forall>sid \<in> set (as_active_sequence_ids s). 0 < sequence_length c sid"
  shows "build_batch c s = Inr (paged_batch c (as_active_sequence_ids s))"
proof -
  let ?a = "as_active_sequence_ids s" and ?mx = "widest c (as_active_sequence_ids s)"
  have pinv: "paged_inv c" using inv by (simp add: batch_inv_def)
  obtain sid where sid: "sid \<in> set ?a" using ne by (cases ?a) auto
  then have mx: "0 < ?mx"
    using blocks_for_length_ok(3) [OF pinv cap, of sid] len widest_upper [OF sid, of c] by force
  have scan: "scan_active c (pc_block_size c) ?a [] 0 = Inr (map (sequence_length c) ?a, int ?mx)"
    using scan_active_ok [OF pinv cap len, of "[]" 0] by simp
  have fill: "fill_tables c (pc_block_size c) ?mx 0 ?a (map (sequence_length c) ?a) (replicate (length ?a * ?mx) (-1))
      = Inr (concat (map (table_row c ?mx) ?a))"
    using fill_tables_ok [OF pinv cap, of ?a ?mx "[]" 0] len widest_upper [of _ ?a c] by simp
  have "\<not> as_max_batch_size s < int (length ?a)" using inv ne by (auto simp: batch_inv_def max_def split: if_splits)
  then show ?thesis using ne scan fill mx unfolding build_batch_def by (simp add: paged_batch_def Let_def)
qed

section \<open>What the tables contain\<close>

lemma widest_row_length:
  assumes "paged_inv c" and "capacity_ok c" and "sid \<in> set sids" and "0 < sequence_length c sid"
  shows "length (table_row c (widest c sids) sid) = widest c sids"
  using blocks_for_length_ok(2) [OF assms(1,2,4)] widest_upper [OF assms(3), of c] by (simp add: table_row_def)

lemma paged_batch_entry:
  assumes "paged_inv c" and "capacity_ok c" and "\<forall>sid \<in> set sids. 0 < sequence_length c sid"
    and "b < length sids" and "i < widest c sids"
  shows "ab_block_tables (paged_batch c sids) ! (b * widest c sids + i) =
      (if i < seq_needed c (sids ! b) then ps_blocks (seq_of c (sids ! b)) ! i else -1)"
    "length (ab_block_tables (paged_batch c sids)) = length sids * widest c sids"
proof -
  have rows: "length (table_row c (widest c sids) sid) = widest c sids" if "sid \<in> set sids" for sid
    using widest_row_length [OF assms(1,2) that] assms(3) that by simp
  have needed: "seq_needed c (sids ! b) \<le> length (ps_blocks (seq_of c (sids ! b)))"
    using blocks_for_length_ok(2) [OF assms(1,2)] assms(3,4) by simp
  then show "ab_block_tables (paged_batch c sids) ! (b * widest c sids + i) =
      (if i < seq_needed c (sids ! b) then ps_blocks (seq_of c (sids ! b)) ! i else -1)"
    using nth_in_concat_rows(1) [of sids "table_row c (widest c sids)", OF rows assms(4,5)] assms(5)
    by (simp add: paged_batch_def) (auto simp: table_row_def nth_append)
  show "length (ab_block_tables (paged_batch c sids)) = length sids * widest c sids"
    using nth_in_concat_rows(2) [of sids "table_row c (widest c sids)", OF rows assms(4,5)] by (simp add: paged_batch_def)
qed

lemma needed_covers:
  assumes "paged_inv c" and "capacity_ok c" and "0 \<le> p" and "p < sequence_length c sid"
  shows "nat (p div pc_block_size c) < seq_needed c sid"
proof -
  have bs: "0 < pc_block_size c" using paged_invD(1) [OF assms(1)] by (simp add: dims_ok_def)
  have "p < blocks_needed (sequence_length c sid) (pc_block_size c) * pc_block_size c"
    using blocks_needed_bounds(2) [of "sequence_length c sid" "pc_block_size c"] bs assms(3,4) by simp
  then have "p div pc_block_size c < blocks_needed (sequence_length c sid) (pc_block_size c)"
    using bs by (intro int_div_less)
  moreover have "0 \<le> p div pc_block_size c" using assms(3) bs by (simp add: pos_imp_zdiv_nonneg_iff)
  ultimately show ?thesis unfolding seq_needed_def by linarith
qed

lemma shared_block_same_slot:
  assumes inv: "paged_inv c" and "distinct sids" and "b < length sids" and "b' < length sids"
    and "0 \<le> sids ! b" "0 \<le> sids ! b'"
    and i: "i < length (ps_blocks (seq_of c (sids ! b)))" and i': "i' < length (ps_blocks (seq_of c (sids ! b')))"
    and eq: "ps_blocks (seq_of c (sids ! b)) ! i = ps_blocks (seq_of c (sids ! b')) ! i'"
  shows "b = b' \<and> i = i'"
proof -
  let ?bs = "pc_block_size c"
  have bs: "0 < ?bs" using paged_invD(1) [OF inv] by (simp add: dims_ok_def)
  have slot: "has_slot c (sids ! x) (int j * ?bs) \<and> row_index c (sids ! x) (int j * ?bs)
      = nat (ps_blocks (seq_of c (sids ! x)) ! j) * nat ?bs"
    if "j < length (ps_blocks (seq_of c (sids ! x)))" for x j
  proof -
    have "seq_of c (sids ! x) \<noteq> empty_seq" using that by auto
    then show ?thesis
      using that bs by (auto simp: has_slot_def row_index_def slot_block_def dest: known_seq_of)
  qed
  have "sids ! b = sids ! b' \<and> int i * ?bs = int i' * ?bs"
    using slot [OF i] slot [OF i'] eq by (intro row_index_inj [OF inv]) simp_all
  then show ?thesis using assms(2-4) bs by (simp add: nth_eq_iff_index_eq)
qed

lemma paged_batch_disjoint:
  assumes inv: "batch_inv (c, s)" and cap: "capacity_ok c" and a: "a = as_active_sequence_ids s"
    and len: "\<forall>sid \<in> set a. 0 < sequence_length c sid"
    and k: "k < length (ab_block_tables (paged_batch c a))" "k' < length (ab_block_tables (paged_batch c a))"
    and eq: "ab_block_tables (paged_batch c a) ! k = ab_block_tables (paged_batch c a) ! k'"
    and pad: "ab_block_tables (paged_batch c a) ! k \<noteq> -1"
  shows "k = k'"
proof -
  let ?mx = "widest c a"
  have pinv: "paged_inv c" and dist: "distinct a" and nonneg: "\<forall>sid \<in> set a. 0 \<le> sid"
    using inv by (simp_all add: batch_inv_def a)
  have "a \<noteq> []" using k(1) by (auto simp: paged_batch_def)
  then have total: "length (ab_block_tables (paged_batch c a)) = length a * ?mx" and mx: "0 < ?mx"
    using paged_batch_entry(2) [OF pinv cap len, of 0] blocks_for_length_ok(3) [OF pinv cap, of "hd a"]
      widest_upper [of "hd a" a c] len k(1) by (force simp: paged_batch_def)+
  have dec: "x div ?mx < length a" "x mod ?mx < ?mx" "x = x div ?mx * ?mx + x mod ?mx" if "x < length a * ?mx" for x
    using that mx by (simp_all only: less_mult_imp_div_less mod_less_divisor div_mult_mod_eq)
  have entry: "ab_block_tables (paged_batch c a) ! x = (if x mod ?mx < seq_needed c (a ! (x div ?mx))
      then ps_blocks (seq_of c (a ! (x div ?mx))) ! (x mod ?mx) else -1)" if "x < length a * ?mx" for x
    using paged_batch_entry(1) [OF pinv cap len dec(1,2) [OF that]] dec(3) [OF that] by simp
  have inside: "seq_needed c (a ! (x div ?mx)) \<le> length (ps_blocks (seq_of c (a ! (x div ?mx))))" "0 \<le> a ! (x div ?mx)"
    if "x < length a * ?mx" for x
    using blocks_for_length_ok(2) [OF pinv cap] len nonneg dec(1) [OF that] by simp_all
  have "k div ?mx = k' div ?mx \<and> k mod ?mx = k' mod ?mx"
    using entry [of k] entry [of k'] inside [of k] inside [of k'] k eq pad dec(1) [of k] dec(1) [of k'] total
    by (intro shared_block_same_slot [OF pinv dist]) (auto split: if_splits)
  then show ?thesis using dec(3) [of k] dec(3) [of k'] k total by simp
qed

section \<open>Decoding a batch\<close>

lemma decode_loop_softmax:
  fixes c :: "real paged_cache" and out :: "real list"
  assumes inv: "paged_inv c" and layer: "valid_layer c layer" and g: "0 < g" and nh: "num_heads = pc_num_kv_heads c * g"
    and w: "w = nat (pc_head_dim c)" and st: "st = nat num_heads * w" "size_of_int stride = st"
    and len: "\<forall>sid \<in> set sids. 0 < sequence_length c sid"
    and q: "(b + length sids) * st \<le> length q" "length q < 2 ^ 64" and out: "(b + length sids) * st \<le> length out"
  shows "\<exists>out'. decode_loop real_ops c layer (Some q) stride num_heads (pc_head_dim c) b sids (Some out) = (make_ok, Some out')
    \<and> length out' = length out
    \<and> (\<forall>j < length sids. \<forall>h < nat num_heads. \<forall>d < w. out' ! ((b + j) * st + h * w + d)
        = softmax_attention c (sids ! j) layer q ((b + j) * st + h * w) (int h div g) d)
    \<and> (\<forall>i < length out. i < b * st \<or> (b + length sids) * st \<le> i \<longrightarrow> out' ! i = out ! i)"
  using len q(1) out
proof (induction sids arbitrary: b out)
  case (Cons sid sids)
  have fit: "b * st + st \<le> length q" "b * st + st \<le> length out"
    using Cons.prems(2,3) by (simp_all add: add_mult_distrib)
  then have off: "wrap64 (b * size_of_int stride) = b * st" using q(2) st(2) by simp
  have ne: "0 < sequence_length c sid" using Cons.prems(1) by simp
  obtain out1 where run1: "paged_attention_decode real_ops c sid layer (Some q) (b * st) (Some out) (b * st) num_heads (pc_head_dim c)
      = (make_ok, Some out1)" and len1: "length out1 = length out"
    and new1: "\<And>h d. h < nat num_heads \<Longrightarrow> d < w \<Longrightarrow> out1 ! (b * st + h * w + d)
        = softmax_attention c sid layer q (b * st + h * w) (int h div g) d"
    and old1: "\<And>i. i < length out \<Longrightarrow> i < b * st \<or> b * st + st \<le> i \<Longrightarrow> out1 ! i = out ! i"
    using decode_softmax [OF inv layer ne g nh, folded w, folded st(1), OF fit] by blast
  have rest: "\<forall>sid\<in>set sids. 0 < sequence_length c sid" "(Suc b + length sids) * st \<le> length q"
    "(Suc b + length sids) * st \<le> length out1"
    using Cons.prems len1 by simp_all
  obtain out2 where run2: "decode_loop real_ops c layer (Some q) stride num_heads (pc_head_dim c) (Suc b) sids (Some out1)
      = (make_ok, Some out2)" and len2: "length out2 = length out1"
    and new2: "\<And>j h d. j < length sids \<Longrightarrow> h < nat num_heads \<Longrightarrow> d < w \<Longrightarrow> out2 ! ((Suc b + j) * st + h * w + d)
        = softmax_attention c (sids ! j) layer q ((Suc b + j) * st + h * w) (int h div g) d"
    and old2: "\<And>i. i < length out1 \<Longrightarrow> i < Suc b * st \<or> (Suc b + length sids) * st \<le> i \<Longrightarrow> out2 ! i = out1 ! i"
    using Cons.IH [OF rest] by blast
  have slices: "out2 ! ((b + j) * st + h * w + d) = softmax_attention c ((sid # sids) ! j) layer q ((b + j) * st + h * w) (int h div g) d"
    if j: "j < length (sid # sids)" and h: "h < nat num_heads" and d: "d < w" for j h d
  proof (cases j)
    case 0
    have "h * w + d < st" using row_fits [OF h, of w] d st(1) by linarith
    then have "out2 ! (b * st + h * w + d) = out1 ! (b * st + h * w + d)"
      using fit(2) len1 by (intro old2) simp_all
    with 0 new1 [OF h d] show ?thesis by simp
  next
    case (Suc j')
    with j new2 [of j' h d] h d show ?thesis by simp
  qed
  have frame: "out2 ! i = out ! i" if "i < length out" "i < b * st \<or> (b + length (sid # sids)) * st \<le> i" for i
  proof -
    have "i < b * st \<or> b * st + st \<le> i" "i < Suc b * st \<or> (Suc b + length sids) * st \<le> i"
      using that(2) by (auto simp: add_mult_distrib)
    then show ?thesis using old1 [OF that(1)] old2 [of i] that(1) len1 by simp
  qed
  have run: "decode_loop real_ops c layer (Some q) stride num_heads (pc_head_dim c) b (sid # sids) (Some out)
      = (make_ok, Some out2)" using run1 run2 off by (simp add: Let_def)
  show ?case
  proof (intro exI [of _ out2] conjI allI impI)
    show "length out2 = length out" using len1 len2 by simp
  qed (rule run slices frame; assumption?)+
qed simp

section \<open>Properties\<close>

text \<open>C26. A batch of the scheduler, in any interleaving of its calls with calls on its cache:
  the active sequences are distinct and at most \<open>max_batch_size\<close>. \<open>build_batch\<close> answers
  \<open>InvalidArgument\<close> without an active sequence and \<open>NotFound\<close> when an active one was freed; otherwise it
  succeeds, the flattened block table sends every token position of every sequence to its physical block, and
  apart from the padding no two entries of the whole table are the same block.\<close>

theorem build_batch_block_tables:
  assumes "batch.reachable (c, s)" and "capacity_ok c"
  shows "let a = as_active_sequence_ids s in
     distinct a \<and> int (length a) \<le> max 0 (as_max_batch_size s)
     \<and> (a = [] \<longrightarrow> build_batch c s = Inl (invalid_argument ''PagedAttentionScheduler cannot build an empty batch''))
     \<and> ((\<exists>sid \<in> set a. sequence_length c sid = 0) \<longrightarrow> (\<exists>msg. build_batch c s = Inl (not_found msg)))
     \<and> (a \<noteq> [] \<longrightarrow> (\<forall>sid \<in> set a. sequence_length c sid \<noteq> 0) \<longrightarrow>
        (\<exists>t. build_batch c s = Inr t \<and> ab_sequence_ids t = a \<and> ab_sequence_lengths t = map (sequence_length c) a
          \<and> (\<forall>b < length a. \<forall>p. 0 \<le> p \<and> p < sequence_length c (a ! b) \<longrightarrow>
               physical_block_for_position c (a ! b) p = Inr (ab_block_tables t !
                 (b * nat (ab_max_blocks_per_sequence t) + nat (p div pc_block_size c))))
          \<and> (\<forall>k k'. k < length (ab_block_tables t) \<and> k' < length (ab_block_tables t)
               \<and> ab_block_tables t ! k = ab_block_tables t ! k' \<and> ab_block_tables t ! k \<noteq> -1 \<longrightarrow> k = k')))"
proof -
  let ?a = "as_active_sequence_ids s"
  have inv: "batch_inv (c, s)" by (rule batch.reachable_inv [OF assms(1)])
  then have pinv: "paged_inv c" by (simp add: batch_inv_def)
  have missing: "\<exists>msg. build_batch c s = Inl (not_found msg)" if "\<exists>sid \<in> set ?a. sequence_length c sid = 0"
  proof -
    have "\<exists>sid \<in> set ?a. sequence_length c sid \<le> 0" using that by force
    from scan_active_missing [OF pinv assms(2) this, of "[]" 0] that inv show ?thesis
      by (auto simp: build_batch_def batch_inv_def Let_def max_def split: if_splits)
  qed
  have built: "\<exists>t. build_batch c s = Inr t \<and> ab_sequence_ids t = ?a \<and> ab_sequence_lengths t = map (sequence_length c) ?a
      \<and> (\<forall>b < length ?a. \<forall>p. 0 \<le> p \<and> p < sequence_length c (?a ! b) \<longrightarrow>
           physical_block_for_position c (?a ! b) p = Inr (ab_block_tables t !
             (b * nat (ab_max_blocks_per_sequence t) + nat (p div pc_block_size c))))
      \<and> (\<forall>k k'. k < length (ab_block_tables t) \<and> k' < length (ab_block_tables t)
           \<and> ab_block_tables t ! k = ab_block_tables t ! k' \<and> ab_block_tables t ! k \<noteq> -1 \<longrightarrow> k = k')"
    if ne: "?a \<noteq> []" and nz: "\<forall>sid \<in> set ?a. sequence_length c sid \<noteq> 0"
  proof -
    have len: "\<forall>sid \<in> set ?a. 0 < sequence_length c sid"
      using nz sequence_length_nonneg [OF pinv] by (metis order_le_less)
    have "physical_block_for_position c (?a ! b) p = Inr (ab_block_tables (paged_batch c ?a) !
        (b * widest c ?a + nat (p div pc_block_size c)))"
      if b: "b < length ?a" and p: "0 \<le> p" "p < sequence_length c (?a ! b)" for b p
    proof -
      have i: "nat (p div pc_block_size c) < seq_needed c (?a ! b)" by (rule needed_covers [OF pinv assms(2) p])
      moreover have "seq_needed c (?a ! b) \<le> widest c ?a" using b by (intro widest_upper) simp
      ultimately show ?thesis
        using paged_batch_entry(1) [OF pinv assms(2) len b, of "nat (p div pc_block_size c)"]
          physical_block_ok [OF pinv slot_below_length [OF pinv p]] by (simp add: slot_block_def)
    qed
    then show ?thesis
      using build_batch_ok [OF inv assms(2) ne len] paged_batch_disjoint [OF inv assms(2) refl len]
      by (intro exI [of _ "paged_batch c ?a"]) (simp add: paged_batch_def)
  qed
  show ?thesis
    unfolding Let_def using inv missing built by (auto simp: batch_inv_def build_batch_def)
qed

definition demo_scheduler :: attention_scheduler where
  "demo_scheduler = \<lparr>as_max_batch_size = 2, as_active_sequence_ids = [0]\<rparr>"

lemma cache_run_reachable:
  "paged.reachable c \<Longrightarrow> batch.reachable (c, new_attention_scheduler mb)"
proof (induction rule: paged.reachable.induct)
  case (reachable_start c)
  then show ?case by (intro batch.reachable_start) (auto simp: batch_start_def)
next
  case (reachable_exec c op)
  then show ?case using batch.reachable_exec [OF reachable_exec.IH, of "CacheOp op"] by simp
qed

lemma demo_scheduler_reachable:
  assumes "paged.reachable c" and "has_sequence c 0" and "0 < sequence_length c 0"
  shows "batch.reachable (c, demo_scheduler)"
  using batch.reachable_exec [OF cache_run_reachable [OF assms(1), of 2], of "AddSequence 0"] assms(2,3)
  by (simp add: add_sequence_def new_attention_scheduler_def is_active_def demo_scheduler_def)

theorem build_batch_block_tables_witness:
  "\<exists>t. build_batch demo_written demo_scheduler = Inr t
     \<and> physical_block_for_position demo_written 0 1 = Inr (ab_block_tables t ! 0)"
proof -
  have len: "sequence_length demo_written 0 = 2" "has_sequence demo_written 0" "capacity_ok demo_written"
    "pc_block_size demo_written = 2"
    by (simp_all add: demo_written_def demo_write_eval sequence_length_def has_sequence_def known_sequence_def
        capacity_ok_def int32_ok_def)
  have "batch.reachable (demo_written, demo_scheduler)"
    using len by (intro demo_scheduler_reachable [OF demo_written_reachable]) simp_all
  from build_batch_block_tables [OF this len(3)] len obtain t where t: "build_batch demo_written demo_scheduler = Inr t"
    "\<forall>b < 1. \<forall>p. 0 \<le> p \<and> p < sequence_length demo_written ([0] ! b) \<longrightarrow>
       physical_block_for_position demo_written ([0] ! b) p = Inr (ab_block_tables t !
         (b * nat (ab_max_blocks_per_sequence t) + nat (p div 2)))"
    by (auto simp: demo_scheduler_def Let_def)
  from t(2) [rule_format, of 0 1] len t(1) show ?thesis by auto
qed

text \<open>\<open>decode_cpu\<close> decodes every sequence of the batch into its own slice of the output: over the reals
  each head of slice \<open>b\<close> is the softmax attention of the \<open>b\<close>-th active sequence, and nothing past the batch
  is written.\<close>

theorem decode_cpu_is_softmax_attention:
  fixes c :: "real paged_cache"
  assumes "batch.reachable (c, s)" and "capacity_ok c" and "valid_layer c layer"
    and "as_active_sequence_ids s \<noteq> []" and "\<forall>sid \<in> set (as_active_sequence_ids s). 0 < sequence_length c sid"
    and "0 < g" and "num_heads = pc_num_kv_heads c * g" and "int32_ok (num_heads * pc_head_dim c)"
    and "length (as_active_sequence_ids s) * nat (num_heads * pc_head_dim c) \<le> length q" and "length q < 2 ^ 64"
    and "length (as_active_sequence_ids s) * nat (num_heads * pc_head_dim c) \<le> length out"
  shows "\<exists>out'. decode_cpu real_ops c s layer (Some q) (Some out) num_heads (pc_head_dim c) = (make_ok, Some out')
    \<and> length out' = length out
    \<and> (\<forall>b < length (as_active_sequence_ids s). \<forall>h < nat num_heads. \<forall>d < nat (pc_head_dim c).
        out' ! (b * nat (num_heads * pc_head_dim c) + h * nat (pc_head_dim c) + d)
        = softmax_attention c (as_active_sequence_ids s ! b) layer q
            (b * nat (num_heads * pc_head_dim c) + h * nat (pc_head_dim c)) (int h div g) d)
    \<and> (\<forall>i < length out. length (as_active_sequence_ids s) * nat (num_heads * pc_head_dim c) \<le> i \<longrightarrow> out' ! i = out ! i)"
proof -
  let ?a = "as_active_sequence_ids s" and ?w = "nat (pc_head_dim c)"
  have inv: "batch_inv (c, s)" by (rule batch.reachable_inv [OF assms(1)])
  then have pinv: "paged_inv c" by (simp add: batch_inv_def)
  have d: "dims_ok c" by (rule paged_invD(1) [OF pinv])
  then have pos: "0 < num_heads" "0 < pc_head_dim c" using assms(6,7) by (simp_all add: dims_ok_def)
  have st: "nat (num_heads * pc_head_dim c) = nat num_heads * ?w" using pos by (simp add: nat_mult_distrib)
  have stride: "size_of_int (num_heads * pc_head_dim c) = nat (num_heads * pc_head_dim c)"
    using assms(8) pos by (intro size_of_int32) simp_all
  have bounds: "(0 + length ?a) * nat (num_heads * pc_head_dim c) \<le> length q"
    "(0 + length ?a) * nat (num_heads * pc_head_dim c) \<le> length out" using assms(9,11) by simp_all
  note loop = decode_loop_softmax [OF pinv assms(3,6,7) refl st stride assms(5) bounds(1) assms(10) bounds(2)]
  have "decode_cpu real_ops c s layer (Some q) (Some out) num_heads (pc_head_dim c)
      = decode_loop real_ops c layer (Some q) (num_heads * pc_head_dim c) num_heads (pc_head_dim c) 0 ?a (Some out)"
    using build_batch_ok [OF inv assms(2,4,5)] assms(8) by (simp add: decode_cpu_def paged_batch_def cint32_ok)
  then show ?thesis using loop by simp
qed

theorem decode_cpu_is_softmax_attention_witness:
  "\<exists>out. decode_cpu real_ops demo_real demo_scheduler 0 (Some [1, 2]) (Some [0, 0]) 1 2 = (make_ok, Some out)
     \<and> length out = 2"
proof -
  have d: "valid_layer demo_real 0" "sequence_length demo_real 0 = 1" "has_sequence demo_real 0"
    "pc_num_kv_heads demo_real = 1" "pc_head_dim demo_real = 2" "capacity_ok demo_real"
    by (simp_all add: demo_real_eval valid_layer_def pc_num_layers_def sequence_length_def has_sequence_def
        known_sequence_def capacity_ok_def int32_ok_def)
  have "batch.reachable (demo_real, demo_scheduler)"
    using d by (intro demo_scheduler_reachable [OF demo_real_reachable]) simp_all
  from decode_cpu_is_softmax_attention [OF this d(6,1), of 1 1 "[1, 2]" "[0, 0]"] d
  have "\<exists>out. decode_cpu real_ops demo_real demo_scheduler 0 (Some [1, 2]) (Some [0, 0]) 1 (pc_head_dim demo_real)
      = (make_ok, Some out) \<and> length out = length [0::real, 0]"
    by (auto simp: demo_scheduler_def int32_ok_def)
  then show ?thesis by (simp add: d eval_nat_numeral)
qed

end
