(* ===== verification/Core_Types.thy ===== *)
theory Core_Types
  imports Prelude
begin

text \<open>
  The core value types: \<open>Status::to_string\<close> (src/core/status.cpp), \<open>DType\<close>
  (include/minillm/core/dtype.h), \<open>Device\<close> (src/core/device.cpp) and \<open>Shape\<close>
  (src/core/shape.cpp). The main fact is that \<open>Shape::numel\<close> computes the exact product of
  the dimensions and reports, instead of wrapping, whenever it does not fit in \<open>size_t\<close>.
\<close>

section \<open>Status text\<close>

fun error_code_name :: "error_code \<Rightarrow> string" where
  "error_code_name Ok = ''Ok''"
| "error_code_name InvalidArgument = ''InvalidArgument''"
| "error_code_name OutOfRange = ''OutOfRange''"
| "error_code_name ShapeMismatch = ''ShapeMismatch''"
| "error_code_name Unsupported = ''Unsupported''"
| "error_code_name NotImplemented = ''NotImplemented''"
| "error_code_name RuntimeError = ''RuntimeError''"
| "error_code_name InternalError = ''InternalError''"
| "error_code_name IOError = ''IOError''"
| "error_code_name NotFound = ''NotFound''"
| "error_code_name TypeError = ''TypeError''"

text \<open>Exceptions and undefined behaviour carry no \<open>Status\<close>; their text is the diagnostic itself.\<close>

fun status_to_string :: "failure \<Rightarrow> string" where
  "status_to_string (Err c m) =
     (if m = [] then error_code_name c else error_code_name c @ '': '' @ m)"
| "status_to_string (Thrown m) = m"
| "status_to_string (UB m) = m"

section \<open>Element types\<close>

datatype dtype = Float32 | Float16 | BFloat16 | Q8_0 | Int32 | Int64 | UInt8 | Int8 | Bool | UnknownDType

fun dtype_name :: "dtype \<Rightarrow> string" where
  "dtype_name Float32 = ''Float32''"
| "dtype_name Float16 = ''Float16''"
| "dtype_name BFloat16 = ''BFloat16''"
| "dtype_name Q8_0 = ''Q8_0''"
| "dtype_name Int32 = ''Int32''"
| "dtype_name Int64 = ''Int64''"
| "dtype_name UInt8 = ''UInt8''"
| "dtype_name Int8 = ''Int8''"
| "dtype_name Bool = ''Bool''"
| "dtype_name UnknownDType = ''Unknown''"

fun dtype_size :: "dtype \<Rightarrow> nat result" where
  "dtype_size Float32 = Inr 4"
| "dtype_size Float16 = Inr 2"
| "dtype_size BFloat16 = Inr 2"
| "dtype_size Q8_0 = Inl (unsupported ''Q8_0 is block-quantized and has no per-element byte size'')"
| "dtype_size Int32 = Inr 4"
| "dtype_size Int64 = Inr 8"
| "dtype_size UInt8 = Inr 1"
| "dtype_size Int8 = Inr 1"
| "dtype_size Bool = Inr 1"
| "dtype_size UnknownDType = Inl (unsupported ''Unknown dtype has no size'')"

definition is_floating_point :: "dtype \<Rightarrow> bool" where
  "is_floating_point t \<longleftrightarrow> t = Float32 \<or> t = Float16 \<or> t = BFloat16"

definition is_integer :: "dtype \<Rightarrow> bool" where
  "is_integer t \<longleftrightarrow> t = Int32 \<or> t = Int64 \<or> t = UInt8 \<or> t = Int8"

lemma dtype_size_bounds: "dtype_size t = Inr n \<Longrightarrow> 0 < n \<and> n \<le> 8"
  by (cases t) auto

lemma dtype_size_cases: "isOK (dtype_size t) \<longleftrightarrow> t \<noteq> Q8_0 \<and> t \<noteq> UnknownDType"
  by (cases t) auto

section \<open>Devices\<close>

datatype device_type = CPU | CUDA | UnknownDevice

record device =
  dev_type :: device_type
  dev_index :: int

definition device_cpu :: device where
  "device_cpu = \<lparr>dev_type = CPU, dev_index = 0\<rparr>"

definition device_cuda :: "int \<Rightarrow> device" where
  "device_cuda idx = \<lparr>dev_type = CUDA, dev_index = idx\<rparr>"

definition device_to_string :: "device \<Rightarrow> string" where
  "device_to_string d = (case dev_type d of
       CPU \<Rightarrow> ''cpu:'' @ int_to_string (dev_index d)
     | CUDA \<Rightarrow> ''cuda:'' @ int_to_string (dev_index d)
     | UnknownDevice \<Rightarrow> ''unknown:'' @ int_to_string (dev_index d))"

text \<open>The order \<open>std::map\<close> keys use: the position in the enumeration.\<close>

fun device_type_index :: "device_type \<Rightarrow> nat" where
  "device_type_index CPU = 0"
| "device_type_index CUDA = 1"
| "device_type_index UnknownDevice = 2"

lemma device_type_index_inj: "device_type_index a = device_type_index b \<longleftrightarrow> a = b"
  by (cases a; cases b) auto

instantiation device_type :: linorder
begin

definition less_eq_device_type :: "device_type \<Rightarrow> device_type \<Rightarrow> bool" where
  "less_eq_device_type a b \<longleftrightarrow> device_type_index a \<le> device_type_index b"

definition less_device_type :: "device_type \<Rightarrow> device_type \<Rightarrow> bool" where
  "less_device_type a b \<longleftrightarrow> device_type_index a < device_type_index b"

instance
  by standard (auto simp: less_eq_device_type_def less_device_type_def device_type_index_inj)

end

section \<open>Shapes\<close>

datatype shape = Shape (dims: "int list")

text \<open>The constructor: \<open>-1\<close> is a dynamic dimension, every other one must be positive.\<close>

fun check_dims :: "int list \<Rightarrow> unit result" where
  "check_dims [] = make_ok"
| "check_dims (d # ds) =
     (if d < 0 \<and> d \<noteq> -1 then
        Inl (Thrown (''Shape dimension must be >= 0 or -1 (dynamic), got: '' @ int_to_string d))
      else if d = 0 then Inl (Thrown ''Shape dimension must not be zero'')
      else check_dims ds)"

definition make_shape :: "int list \<Rightarrow> shape result" where
  "make_shape ds = rbind (check_dims ds) (\<lambda>_. Inr (Shape ds))"

definition shape_rank :: "shape \<Rightarrow> nat" where
  "shape_rank s = length (dims s)"

definition shape_dim :: "shape \<Rightarrow> nat \<Rightarrow> int result" where
  "shape_dim s i = (if i < length (dims s) then Inr (dims s ! i) else Inl (Thrown ''vector::at''))"

definition has_dynamic_dim :: "shape \<Rightarrow> bool" where
  "has_dynamic_dim s = list_ex (\<lambda>d. d < 0) (dims s)"

definition shape_to_string :: "shape \<Rightarrow> string" where
  "shape_to_string s = (if dims s = [] then ''[]''
     else ''['' @ join_with '', '' (map int_to_string (dims s)) @ '']'')"

fun numel_loop :: "shape \<Rightarrow> nat \<Rightarrow> int list \<Rightarrow> nat result" where
  "numel_loop s n [] = Inr n"
| "numel_loop s n (d # ds) =
     (if 0 < d \<and> size_max div nat d < n then
        Inl (invalid_argument (''numel overflow for shape: '' @ shape_to_string s))
      else numel_loop s (wrap64 (n * nat d)) ds)"

definition numel :: "shape \<Rightarrow> nat result" where
  "numel s = (if has_dynamic_dim s then
       Inl (invalid_argument (''cannot compute numel of shape with dynamic dims: '' @ shape_to_string s))
     else numel_loop s 1 (dims s))"

text \<open>Shapes the constructor accepts.\<close>

definition wf_dims :: "int list \<Rightarrow> bool" where
  "wf_dims ds \<longleftrightarrow> (\<forall>d \<in> set ds. d = -1 \<or> 0 < d)"

abbreviation wf_shape :: "shape \<Rightarrow> bool" where
  "wf_shape s \<equiv> wf_dims (dims s)"

lemma check_dims_iff: "check_dims ds = Inr u \<longleftrightarrow> wf_dims ds"
  by (induction ds) (auto simp: wf_dims_def)

lemma make_shape_iff [simp]: "make_shape ds = Inr s \<longleftrightarrow> wf_dims ds \<and> s = Shape ds"
  by (auto simp: make_shape_def rbind_Inr_iff check_dims_iff)

lemma make_shape_ok: "wf_dims ds \<Longrightarrow> make_shape ds = Inr (Shape ds)"
  by simp

lemma make_shape_throws: "make_shape ds = Inl e \<Longrightarrow> \<not> wf_dims ds \<and> (\<exists>m. e = Thrown m)"
proof (induction ds)
  case Nil
  then show ?case by (simp add: make_shape_def)
next
  case (Cons d ds)
  then show ?case by (auto simp: make_shape_def wf_dims_def rbind_Inl_iff split: if_splits)
qed

lemma wf_dims_simps [simp]:
  "wf_dims []"
  "wf_dims (d # ds) \<longleftrightarrow> (d = -1 \<or> 0 < d) \<and> wf_dims ds"
  "wf_dims (ds @ es) \<longleftrightarrow> wf_dims ds \<and> wf_dims es"
  by (auto simp: wf_dims_def)

lemma shape_dim_ok: "i < shape_rank s \<Longrightarrow> shape_dim s i = Inr (dims s ! i)"
  by (simp add: shape_dim_def shape_rank_def)

lemma static_iff: "wf_shape s \<Longrightarrow> \<not> has_dynamic_dim s \<longleftrightarrow> (\<forall>d \<in> set (dims s). 0 < d)"
  by (fastforce simp: has_dynamic_dim_def wf_dims_def list_ex_iff)

text \<open>The exact number of elements.\<close>

definition volume :: "int list \<Rightarrow> nat" where
  "volume ds = prod_list (map nat ds)"

lemma volume_simps [simp]: "volume [] = 1" "volume (d # ds) = nat d * volume ds"
  by (simp_all add: volume_def)

lemma volume_pos: "\<forall>d \<in> set ds. 0 < d \<Longrightarrow> 0 < volume ds"
  by (induction ds) auto

lemma numel_loop_exact:
  assumes "\<forall>d \<in> set ds. 0 < d" and "0 < n" and "n < 2 ^ 64"
  shows "numel_loop s n ds =
    (if n * volume ds < 2 ^ 64 then Inr (n * volume ds)
     else Inl (invalid_argument (''numel overflow for shape: '' @ shape_to_string s)))"
  using assms
proof (induction ds arbitrary: n)
  case (Cons d ds)
  from Cons.prems have d: "0 < nat d" and ds: "\<forall>d \<in> set ds. 0 < d" by auto
  have test: "size_max div nat d < n \<longleftrightarrow> 2 ^ 64 \<le> n * nat d"
    using d by (rule mul_overflow_test)
  show ?case
  proof (cases "n * nat d < 2 ^ 64")
    case True
    then have "numel_loop s n (d # ds) = numel_loop s (n * nat d) ds"
      using test by simp
    with Cons.IH [OF ds, of "n * nat d"] Cons.prems d True show ?thesis
      by (simp add: mult.assoc)
  next
    case False
    moreover have "n * nat d * 1 \<le> n * nat d * volume ds"
      using volume_pos [OF ds] by (intro mult_le_mono2) simp
    ultimately have "\<not> n * volume (d # ds) < 2 ^ 64"
      unfolding volume_simps mult.assoc [symmetric] by linarith
    with False test Cons.prems show ?thesis by simp
  qed
qed simp

lemma numel_exact:
  assumes "wf_shape s" and "\<not> has_dynamic_dim s" and "volume (dims s) < 2 ^ 64"
  shows "numel s = Inr (volume (dims s))"
  using assms numel_loop_exact [of "dims s" 1 s] by (simp add: numel_def static_iff)

lemma numel_Inr_iff:
  assumes "wf_shape s"
  shows "numel s = Inr n \<longleftrightarrow> \<not> has_dynamic_dim s \<and> volume (dims s) < 2 ^ 64 \<and> n = volume (dims s)"
proof (cases "has_dynamic_dim s")
  case True
  then show ?thesis by (simp add: numel_def)
next
  case False
  then have "\<forall>d \<in> set (dims s). 0 < d" using assms static_iff by blast
  with False numel_loop_exact [of "dims s" 1 s] show ?thesis
    by (auto simp: numel_def)
qed

lemma numel_status: "numel s = Inl e \<Longrightarrow> is_status e"
proof -
  have loop: "numel_loop s n ds = Inl e \<Longrightarrow> is_status e" for n ds
    by (induction s n ds rule: numel_loop.induct) (auto split: if_splits)
  show "numel s = Inl e \<Longrightarrow> is_status e"
    by (auto simp: numel_def loop split: if_splits)
qed

text \<open>\<open>Shape::numel\<close> never wraps: on a shape the constructor accepts it is the exact product of
  the dimensions exactly when there is no dynamic dimension and the product fits in 64 bits; in
  every other case it is an \<open>InvalidArgument\<close> status (no exception, no undefined behaviour).
\<close>

theorem shape_numel_exact_or_error:
  assumes "make_shape ds = Inr s"
  shows "numel s =
    (if (\<forall>d \<in> set ds. 0 < d) \<and> volume ds < 2 ^ 64 then Inr (volume ds)
     else if \<exists>d \<in> set ds. d < 0 then
       Inl (invalid_argument (''cannot compute numel of shape with dynamic dims: '' @ shape_to_string s))
     else Inl (invalid_argument (''numel overflow for shape: '' @ shape_to_string s)))"
proof -
  from assms have s: "s = Shape ds" and wf: "wf_dims ds" by simp_all
  show ?thesis
  proof (cases "has_dynamic_dim s")
    case True
    then have "\<exists>d \<in> set ds. d < 0" by (simp add: s has_dynamic_dim_def list_ex_iff)
    then show ?thesis using True by (force simp: numel_def)
  next
    case False
    then have pos: "\<forall>d \<in> set ds. 0 < d" using wf static_iff [of s] by (simp add: s)
    then have "\<not> (\<exists>d \<in> set ds. d < 0)" by force
    with pos False numel_loop_exact [of ds 1 s] show ?thesis
      by (simp add: numel_def s)
  qed
qed

theorem shape_numel_exact_or_error_witness:
  "make_shape [2, 3, 4] = Inr (Shape [2, 3, 4]) \<and> numel (Shape [2, 3, 4]) = Inr 24"
proof -
  have h: "make_shape [2, 3, 4] = Inr (Shape [2, 3, 4])" by simp
  show ?thesis using h shape_numel_exact_or_error [OF h] by simp
qed

end
