(* ===== verification/KV_Cache.thy ===== *)
theory KV_Cache
  imports Core_Types State_Machine
begin

text \<open>
  \<open>KVCache\<close> (include/minillm/runtime/cache/kv_cache.h, src/runtime/cache/kv_cache.cpp), the
  contiguous cache of one sequence, in the build without CUDA: \<open>init_cuda\<close> only releases
  and answers \<open>Unsupported\<close>, and the CUDA pointers of a layer stay null. The cached length moves by
  saturating steps; \<open>can_append\<close> tells whether a step is exact.
\<close>

section \<open>State and operations\<close>

record 'f kv_layer =
  kl_k :: "'f list"
  kl_v :: "'f list"

record 'f kv_cache =
  kc_layers :: "'f kv_layer list"
  kc_device :: device
  kc_num_kv_heads :: int
  kc_head_dim :: int
  kc_max_seq_len :: int
  kc_cached_len :: int

definition empty_kv :: "'f kv_cache" where
  "empty_kv = \<lparr>kc_layers = [], kc_device = device_cpu, kc_num_kv_heads = 0, kc_head_dim = 0,
     kc_max_seq_len = 0, kc_cached_len = 0\<rparr>"

definition kv_release :: "'f kv_cache \<Rightarrow> unit result \<times> 'f kv_cache" where
  "kv_release c = (make_ok, empty_kv)"

definition kv_init ::
  "int \<Rightarrow> int \<Rightarrow> int \<Rightarrow> int \<Rightarrow> ('f :: zero) kv_cache \<Rightarrow> unit result \<times> 'f kv_cache"
where
  "kv_init nl nkv hdim msl c = sbind (kv_release c) (\<lambda>_ c0.
     if nl \<le> 0 \<or> nkv \<le> 0 \<or> hdim \<le> 0 \<or> msl \<le> 0 then
       (make_ok, c0\<lparr>kc_layers := [], kc_num_kv_heads := 0, kc_head_dim := 0, kc_max_seq_len := 0,
          kc_cached_len := 0\<rparr>)
     else
       let c1 = c0\<lparr>kc_num_kv_heads := nkv, kc_head_dim := hdim, kc_max_seq_len := msl,
          kc_cached_len := 0, kc_device := device_cpu\<rparr>
       in case cint32 (nkv * hdim) of
            Inl e \<Rightarrow> (Inl e, c1)
          | Inr kv_h \<Rightarrow>
              let n = wrap64 (size_of_int msl * size_of_int kv_h)
              in (make_ok, c1\<lparr>kc_layers :=
                    replicate (nat nl) \<lparr>kl_k = replicate n 0, kl_v = replicate n 0\<rparr>\<rparr>))"

definition kv_init_cuda ::
  "int \<Rightarrow> int \<Rightarrow> int \<Rightarrow> int \<Rightarrow> 'f kv_cache \<Rightarrow> unit result \<times> 'f kv_cache"
where
  "kv_init_cuda nl nkv hdim msl c = sbind (kv_release c) (\<lambda>_ c0.
     if nl \<le> 0 \<or> nkv \<le> 0 \<or> hdim \<le> 0 \<or> msl \<le> 0 then
       (Inl (invalid_argument
          ''KVCache CUDA init requires positive layers, heads, head_dim, and max_seq_len''), c0)
     else (Inl (unsupported ''MiniLLMEngine was built without CUDA support''), c0))"

definition kv_num_layers :: "'f kv_cache \<Rightarrow> int" where
  "kv_num_layers c = int (length (kc_layers c))"

definition kv_initialized :: "'f kv_cache \<Rightarrow> bool" where
  "kv_initialized c \<longleftrightarrow> 0 < kc_max_seq_len c"

text \<open>\<open>k_data\<close> and \<open>v_data\<close> index the vector of layers without a check.\<close>

definition kv_data :: "bool \<Rightarrow> int \<Rightarrow> 'f kv_cache \<Rightarrow> 'f list result" where
  "kv_data key layer c =
     (if 0 \<le> layer \<and> nat layer < length (kc_layers c)
      then Inr (if key then kl_k (kc_layers c ! nat layer) else kl_v (kc_layers c ! nat layer))
      else Inl (UB ''layers_ index out of range''))"

definition set_cached_len :: "int \<Rightarrow> 'f kv_cache \<Rightarrow> 'f kv_cache" where
  "set_cached_len len c = c\<lparr>kc_cached_len := max 0 (min len (kc_max_seq_len c))\<rparr>"

definition kv_advance :: "int \<Rightarrow> 'f kv_cache \<Rightarrow> unit result \<times> 'f kv_cache" where
  "kv_advance n c = (case cint32 (kc_cached_len c + n) of
     Inl e \<Rightarrow> (Inl e, c) | Inr len \<Rightarrow> (make_ok, set_cached_len len c))"

definition can_append :: "int \<Rightarrow> 'f kv_cache \<Rightarrow> bool" where
  "can_append n c \<longleftrightarrow> 0 \<le> n \<and> kc_cached_len c \<le> kc_max_seq_len c
     \<and> n \<le> kc_max_seq_len c - kc_cached_len c"

definition kv_reset :: "('f :: zero) kv_cache \<Rightarrow> 'f kv_cache" where
  "kv_reset c = c\<lparr>kc_cached_len := 0, kc_layers := map (\<lambda>l.
     \<lparr>kl_k = map (\<lambda>_. 0) (kl_k l), kl_v = map (\<lambda>_. 0) (kl_v l)\<rparr>) (kc_layers c)\<rparr>"

section \<open>Runs\<close>

text \<open>Inside the library the cache is called with these operations; the arguments are ints.\<close>

datatype kv_op = KVInit int int int int | KVInitCuda int int int int | KVSetLen int
  | KVAdvance int | KVReset | KVRelease

fun kv_exec :: "kv_op \<Rightarrow> ('f :: zero) kv_cache \<Rightarrow> unit result \<times> 'f kv_cache" where
  "kv_exec (KVInit nl nkv hdim msl) c = kv_init nl nkv hdim msl c"
| "kv_exec (KVInitCuda nl nkv hdim msl) c = kv_init_cuda nl nkv hdim msl c"
| "kv_exec (KVSetLen len) c = (make_ok, set_cached_len len c)"
| "kv_exec (KVAdvance n) c = kv_advance n c"
| "kv_exec KVReset c = (make_ok, kv_reset c)"
| "kv_exec KVRelease c = kv_release c"

text \<open>The sizes given to \<open>init\<close> are ints whose products the machine can hold.\<close>

fun kv_call_ok :: "kv_op \<Rightarrow> bool" where
  "kv_call_ok (KVInit nl nkv hdim msl) =
     (int32_ok nl \<and> int32_ok msl \<and> int32_ok (nkv * hdim) \<and> msl * (nkv * hdim) < 2 ^ 64)"
| "kv_call_ok _ = True"

definition kv_inv :: "'f kv_cache \<Rightarrow> bool" where
  "kv_inv c \<longleftrightarrow> 0 \<le> kc_cached_len c \<and> kc_cached_len c \<le> kc_max_seq_len c \<and> int32_ok (kc_max_seq_len c)
     \<and> kc_device c = device_cpu
     \<and> (\<forall>l \<in> set (kc_layers c).
          int (length (kl_k l)) = kc_max_seq_len c * (kc_num_kv_heads c * kc_head_dim c)
        \<and> int (length (kl_v l)) = kc_max_seq_len c * (kc_num_kv_heads c * kc_head_dim c))"

lemma kv_release_inv [invariant_intros]: "kv_inv (snd (kv_release c))"
  by (simp add: kv_release_def kv_inv_def empty_kv_def)

lemma kv_init_inv [invariant_intros]:
  assumes "kv_call_ok (KVInit nl nkv hdim msl)"
  shows "kv_inv (snd (kv_init nl nkv hdim msl c))"
proof (cases "nl \<le> 0 \<or> nkv \<le> 0 \<or> hdim \<le> 0 \<or> msl \<le> 0")
  case True
  then show ?thesis by (auto simp: kv_init_def kv_release_def kv_inv_def empty_kv_def)
next
  case False
  then have p: "0 < nkv * hdim" "0 < msl" by simp_all
  define n where "n = nat msl * nat (nkv * hdim)"
  have len: "int n = msl * (nkv * hdim)" using p by (simp add: n_def)
  then have "int n < 2 ^ 64" using assms by simp
  then have "n < 2 ^ 64" by simp
  then have "wrap64 (nat msl * nat (nkv * hdim)) = n" unfolding n_def by (rule wrap64_small)
  with p assms False len show ?thesis
    by (auto simp: kv_init_def kv_release_def kv_inv_def empty_kv_def cint32_ok Let_def)
qed

lemma kv_exec_inv:
  assumes "kv_inv c" and "kv_call_ok op"
  shows "kv_inv (snd (kv_exec op c))"
proof (cases op)
  case (KVInit nl nkv hdim msl)
  with assms kv_init_inv show ?thesis by simp
qed (use assms in \<open>auto simp: kv_init_cuda_def kv_release_def kv_inv_def empty_kv_def set_cached_len_def
      kv_advance_def kv_reset_def split: sum.splits\<close>)

interpretation kv: invariant_machine "\<lambda>c. c = empty_kv" "\<lambda>_. kv_call_ok" "\<lambda>op c. snd (kv_exec op c)" kv_inv
proof unfold_locales
  show "kv_inv s" if "s = empty_kv" for s :: "'a kv_cache"
    using kv_release_inv [of s] that by (simp add: kv_release_def)
qed (rule kv_exec_inv)

section \<open>Properties\<close>

text \<open>Whatever calls a contiguous cache has seen, its cached length stays between zero and the
  maximum and every layer holds the rows for the maximum. \<open>advance\<close> adds exactly when
  \<open>can_append\<close> says so, and otherwise stops at the maximum; \<open>can_append\<close> is exact: it is true just
  when the sum stays in bounds.\<close>

theorem kv_cache_bounds_and_advance:
  assumes "kv.reachable c" and "0 \<le> n" and "int32_ok n"
  shows "0 \<le> kc_cached_len c \<and> kc_cached_len c \<le> kc_max_seq_len c
    \<and> (\<forall>layer key xs. kv_data key layer c = Inr xs \<longrightarrow>
         int (length xs) = kc_max_seq_len c * (kc_num_kv_heads c * kc_head_dim c))
    \<and> (can_append n c \<longleftrightarrow> kc_cached_len c + n \<le> kc_max_seq_len c)
    \<and> (can_append n c \<longrightarrow> kv_advance n c = (make_ok, c\<lparr>kc_cached_len := kc_cached_len c + n\<rparr>))
    \<and> (\<not> can_append n c \<longrightarrow> int32_ok (kc_cached_len c + n) \<longrightarrow>
         kv_advance n c = (make_ok, c\<lparr>kc_cached_len := kc_max_seq_len c\<rparr>))"
proof -
  have inv: "kv_inv c" by (rule kv.reachable_inv [OF assms(1)])
  have "int32_ok (kc_cached_len c + n)" if "can_append n c"
    using that inv int32_ok_between [of "kc_max_seq_len c"] assms(2) by (simp add: can_append_def kv_inv_def)
  moreover have "int (length xs) = kc_max_seq_len c * (kc_num_kv_heads c * kc_head_dim c)"
    if "kv_data key layer c = Inr xs" for key layer xs
    using that inv by (auto simp: kv_data_def kv_inv_def split: if_splits)
  ultimately show ?thesis
    using inv assms(2) by (auto simp: kv_inv_def can_append_def kv_advance_def set_cached_len_def cint32_ok)
qed

theorem kv_cache_bounds_and_advance_witness:
  "kc_cached_len (snd (kv_advance 3 (snd (kv_init 1 1 2 4 (empty_kv :: int kv_cache))))) = 3"
proof -
  let ?c = "snd (kv_init 1 1 2 4 (empty_kv :: int kv_cache))"
  have "kv.reachable ?c"
    using kv.reachable_exec [OF kv.reachable_start, of "empty_kv :: int kv_cache" "KVInit 1 1 2 4"]
    by (simp add: int32_ok_def)
  from kv_cache_bounds_and_advance [OF this, of 3]
  have "can_append 3 ?c \<longrightarrow> kv_advance 3 ?c = (make_ok, ?c\<lparr>kc_cached_len := kc_cached_len ?c + 3\<rparr>)"
    by (simp add: int32_ok_def)
  moreover have "can_append 3 ?c" "kc_cached_len ?c = 0"
    by (simp_all add: can_append_def kv_init_def kv_release_def empty_kv_def cint32_ok int32_ok_def Let_def)
  ultimately show ?thesis by simp
qed

end
