(* ===== verification/Tensor.thy ===== *)
theory Tensor
  imports Core_Types
begin

text \<open>
  The runtime tensor (include/minillm/core/tensor.h, src/core/tensor.cpp) in the default build,
  without CUDA: \<open>cuda_storage_\<close> is always null and the two CUDA allocators answer
  \<open>Unsupported\<close>. A pointer is \<open>None\<close> (null) or an address; a vector that the tensor owns is
  its list of bytes. Every operation that returns a \<open>Status\<close> returns it with the tensor it
  leaves behind, on the error paths too.
\<close>

type_synonym byte = "8 word"

record tensor =
  t_name :: string
  t_shape :: shape
  t_dtype :: dtype
  t_device :: device
  storage :: "byte list"
  external_data :: "nat option"
  external_bytes :: nat

definition new_tensor :: "string \<Rightarrow> shape \<Rightarrow> dtype \<Rightarrow> device \<Rightarrow> tensor" where
  "new_tensor n s t d = \<lparr>t_name = n, t_shape = s, t_dtype = t, t_device = d,
     storage = [], external_data = None, external_bytes = 0\<rparr>"

text \<open>
  The move operations give the new tensor and the moved-from one, whose name and shape the
  standard leaves unspecified (\<open>nm\<close>, \<open>sh\<close>).
\<close>

definition tensor_move :: "string \<Rightarrow> shape \<Rightarrow> tensor \<Rightarrow> tensor \<times> tensor" where
  "tensor_move nm sh t = (t, t\<lparr>t_name := nm, t_shape := sh, storage := [],
     external_data := None, external_bytes := 0\<rparr>)"

datatype data_ptr = NullPtr | External nat | OwnStorage

definition nbytes :: "tensor \<Rightarrow> nat result" where
  "nbytes t = rbind (numel (t_shape t)) (\<lambda>n.
     rbind (dtype_size (t_dtype t)) (\<lambda>s. Inr (wrap64 (n * s))))"

definition allocated_bytes :: "tensor \<Rightarrow> nat" where
  "allocated_bytes t = (case external_data t of
     Some _ \<Rightarrow> external_bytes t | None \<Rightarrow> length (storage t))"

definition is_allocated :: "tensor \<Rightarrow> bool" where
  "is_allocated t \<longleftrightarrow> external_data t \<noteq> None \<or> storage t \<noteq> []"

definition tensor_data :: "tensor \<Rightarrow> data_ptr" where
  "tensor_data t = (case external_data t of
     Some p \<Rightarrow> External p
   | None \<Rightarrow> if storage t = [] then NullPtr else OwnStorage)"

definition release :: "tensor \<Rightarrow> unit result \<times> tensor" where
  "release t = (make_ok, t\<lparr>external_data := None, external_bytes := 0, storage := []\<rparr>)"

text \<open>The move assignment: the target is released first; assigning a tensor to itself is a no-op.\<close>

definition tensor_move_assign ::
  "bool \<Rightarrow> string \<Rightarrow> shape \<Rightarrow> tensor \<Rightarrow> tensor \<Rightarrow> tensor \<times> tensor" where
  "tensor_move_assign same nm sh dst src =
     (if same then (dst, dst) else tensor_move nm sh src)"

definition allocate_cpu :: "tensor \<Rightarrow> unit result \<times> tensor" where
  "allocate_cpu t =
     (if has_dynamic_dim (t_shape t) then
        (Inl (invalid_argument
           (''cannot allocate tensor with dynamic shape: '' @ shape_to_string (t_shape t))), t)
      else case nbytes t of
        Inl e \<Rightarrow> (Inl e, t)
      | Inr nb \<Rightarrow>
          sbind (release t) (\<lambda>_ t'.
            (make_ok, t'\<lparr>storage := replicate nb 0, t_device := device_cpu\<rparr>)))"

definition allocate_cuda :: "tensor \<Rightarrow> unit result \<times> tensor" where
  "allocate_cuda t = sbind (release t) (\<lambda>_ t'.
     if has_dynamic_dim (t_shape t') then
       (Inl (invalid_argument
          (''cannot allocate tensor with dynamic shape: '' @ shape_to_string (t_shape t'))), t')
     else case nbytes t' of
       Inl e \<Rightarrow> (Inl e, t')
     | Inr _ \<Rightarrow> (Inl (unsupported ''MiniLLMEngine was built without CUDA support''), t'))"

definition allocate_cuda_bytes :: "nat \<Rightarrow> tensor \<Rightarrow> unit result \<times> tensor" where
  "allocate_cuda_bytes n t = sbind (release t) (\<lambda>_ t'.
     (Inl (unsupported ''MiniLLMEngine was built without CUDA support''), t'))"

definition allocate_cpu_bytes :: "nat \<Rightarrow> tensor \<Rightarrow> unit result \<times> tensor" where
  "allocate_cpu_bytes n t = sbind (release t) (\<lambda>_ t'.
     (make_ok, t'\<lparr>storage := replicate n 0, t_device := device_cpu\<rparr>))"

definition bind_cpu_data :: "nat option \<Rightarrow> nat \<Rightarrow> tensor \<Rightarrow> unit result \<times> tensor" where
  "bind_cpu_data p n t = sbind (release t) (\<lambda>_ t'.
     case p of
       None \<Rightarrow> (Inl (invalid_argument (''cannot bind null CPU storage to tensor: '' @ t_name t')), t')
     | Some a \<Rightarrow>
         if has_dynamic_dim (t_shape t') then
           (Inl (invalid_argument
              (''cannot bind tensor with dynamic shape: '' @ shape_to_string (t_shape t'))), t')
         else case nbytes t' of
           Inl e \<Rightarrow> (Inl e, t')
         | Inr nb \<Rightarrow>
             if n < nb then
               (Inl (out_of_range (''external CPU storage is too small for tensor '' @ t_name t')), t')
             else (make_ok, t'\<lparr>external_data := Some a, external_bytes := n,
                              t_device := device_cpu\<rparr>))"

definition bind_cuda_data :: "nat option \<Rightarrow> nat \<Rightarrow> tensor \<Rightarrow> unit result \<times> tensor" where
  "bind_cuda_data p n t = sbind (release t) (\<lambda>_ t'.
     case p of
       None \<Rightarrow> (Inl (invalid_argument (''cannot bind null CUDA storage to tensor: '' @ t_name t')), t')
     | Some a \<Rightarrow>
         if has_dynamic_dim (t_shape t') then
           (Inl (invalid_argument
              (''cannot bind tensor with dynamic shape: '' @ shape_to_string (t_shape t'))), t')
         else case nbytes t' of
           Inl e \<Rightarrow> (Inl e, t')
         | Inr nb \<Rightarrow>
             if n < nb then
               (Inl (out_of_range (''external CUDA storage is too small for tensor '' @ t_name t')), t')
             else (make_ok, t'\<lparr>external_data := Some a, external_bytes := n,
                              t_device := device_cuda (dev_index (t_device t))\<rparr>))"

section \<open>Sizes and ownership\<close>

lemma nbytes_exact:
  assumes "numel (t_shape t) = Inr n" and "dtype_size (t_dtype t) = Inr s" and "n * s < 2 ^ 64"
  shows "nbytes t = Inr (n * s)"
  using assms by (simp add: nbytes_def)

text \<open>The storage a tensor owns and the storage it views are never both there.\<close>

definition one_owner :: "tensor \<Rightarrow> bool" where
  "one_owner t \<longleftrightarrow> (external_data t \<noteq> None \<longrightarrow> storage t = []) \<and>
     (external_data t = None \<longrightarrow> external_bytes t = 0)"

lemma one_owner_new: "one_owner (new_tensor n s t d)"
  by (simp add: one_owner_def new_tensor_def)

lemma one_owner_preserved [invariant_intros]:
  assumes "one_owner t"
  shows "one_owner (snd (release t))" "one_owner (snd (allocate_cpu t))"
    "one_owner (snd (allocate_cuda t))" "one_owner (snd (allocate_cuda_bytes n t))"
    "one_owner (snd (allocate_cpu_bytes n t))" "one_owner (snd (bind_cpu_data p n t))"
    "one_owner (snd (bind_cuda_data p n t))"
  using assms
  by (auto simp: one_owner_def release_def allocate_cpu_def allocate_cuda_def
      allocate_cuda_bytes_def allocate_cpu_bytes_def bind_cpu_data_def bind_cuda_data_def
      split: option.splits sum.splits)

lemma bind_cpu_data_ok:
  assumes "bind_cpu_data p n t = (make_ok, t')"
  shows "\<exists>a nb. p = Some a \<and> nbytes t = Inr nb \<and> nb \<le> n \<and> \<not> has_dynamic_dim (t_shape t) \<and>
     t' = t\<lparr>external_data := Some a, external_bytes := n, storage := [], t_device := device_cpu\<rparr>"
  using assms
  by (auto simp: bind_cpu_data_def release_def nbytes_def split: option.splits sum.splits if_splits)

text \<open>The two ways to give a tensor memory end in one of two states only. On success the tensor
  has at least the bytes its shape and element type need (exactly so when it allocates, and then
  zero-filled), on the CPU, with a single owner. On failure \<open>allocate_cpu\<close> leaves the tensor
  exactly as it was (it computes the size before it releases anything), whereas
  \<open>bind_cpu_data\<close> leaves it released.
\<close>

theorem tensor_storage_contract:
  assumes "one_owner t" and "allocate_cpu t = (ra, ta)" and "bind_cpu_data p n t = (rb, tb)"
  shows "(ra = make_ok \<longrightarrow> (\<exists>nb. nbytes t = Inr nb \<and> storage ta = replicate nb 0 \<and>
            allocated_bytes ta = nb \<and> t_device ta = device_cpu \<and> one_owner ta))
       \<and> (ra \<noteq> make_ok \<longrightarrow> ta = t)
       \<and> (rb = make_ok \<longrightarrow> (\<exists>a nb. p = Some a \<and> tensor_data tb = External a \<and> nbytes t = Inr nb \<and>
            nb \<le> allocated_bytes tb \<and> t_device tb = device_cpu \<and> one_owner tb))
       \<and> (rb \<noteq> make_ok \<longrightarrow> \<not> is_allocated tb \<and> tensor_data tb = NullPtr)"
proof -
  have a: "(ra = make_ok \<longrightarrow> (\<exists>nb. nbytes t = Inr nb \<and> storage ta = replicate nb 0 \<and>
            allocated_bytes ta = nb \<and> t_device ta = device_cpu \<and> one_owner ta)) \<and> (ra \<noteq> make_ok \<longrightarrow> ta = t)"
    using assms(2)
    by (auto simp: allocate_cpu_def release_def allocated_bytes_def one_owner_def
        split: if_splits sum.splits)
  have b: "rb = make_ok \<longrightarrow> (\<exists>a nb. p = Some a \<and> tensor_data tb = External a \<and> nbytes t = Inr nb \<and>
            nb \<le> allocated_bytes tb \<and> t_device tb = device_cpu \<and> one_owner tb)"
    using bind_cpu_data_ok [of p n t tb] assms(3)
    by (auto simp: tensor_data_def allocated_bytes_def one_owner_def)
  have c: "rb \<noteq> make_ok \<longrightarrow> \<not> is_allocated tb \<and> tensor_data tb = NullPtr"
    using assms(3)
    by (auto simp: bind_cpu_data_def release_def is_allocated_def tensor_data_def
        split: option.splits sum.splits if_splits)
  from a b c show ?thesis by simp
qed

theorem tensor_storage_contract_witness:
  "one_owner (new_tensor ''x'' (Shape [2]) UInt8 device_cpu)
   \<and> allocate_cpu (new_tensor ''x'' (Shape [2]) UInt8 device_cpu)
      = (make_ok, (new_tensor ''x'' (Shape [2]) UInt8 device_cpu)\<lparr>storage := [0, 0]\<rparr>)"
proof -
  let ?t = "new_tensor ''x'' (Shape [2]) UInt8 device_cpu"
  have o: "one_owner ?t" by (rule one_owner_new)
  have a: "allocate_cpu ?t = (make_ok, ?t\<lparr>storage := [0, 0]\<rparr>)"
    by (simp add: allocate_cpu_def new_tensor_def has_dynamic_dim_def nbytes_def numel_def
        release_def device_cpu_def eval_simps)
  have b: "bind_cpu_data None 0 ?t =
      (Inl (invalid_argument (''cannot bind null CPU storage to tensor: '' @ ''x'')), ?t)"
    by (simp add: bind_cpu_data_def release_def new_tensor_def)
  show ?thesis
    using tensor_storage_contract [OF o a b] o a by simp
qed

text \<open>\<open>Tensor::nbytes\<close> is exact as long as the byte size fits in 64 bits, and wraps silently
  beyond: a \<open>Float32\<close> tensor with \<open>2 ^ 62\<close> elements, whose element count \<open>Shape::numel\<close>
  accepts, reports a byte size of \<open>0\<close>, and \<open>allocate_cpu\<close> then succeeds with no storage
  at all.
\<close>

theorem nbytes_exact_until_it_wraps:
  "(\<forall>t n s. numel (t_shape t) = Inr n \<longrightarrow> dtype_size (t_dtype t) = Inr s \<longrightarrow>
      nbytes t = Inr (if n * s < 2 ^ 64 then n * s else (n * s) mod 2 ^ 64))
   \<and> (let t = new_tensor ''w'' (Shape [2 ^ 62]) Float32 device_cpu in
        numel (t_shape t) = Inr (2 ^ 62) \<and> nbytes t = Inr 0 \<and>
        fst (allocate_cpu t) = make_ok \<and> \<not> is_allocated (snd (allocate_cpu t)))"
proof (intro conjI allI impI)
  fix t :: tensor and n s
  assume "numel (t_shape t) = Inr n" and "dtype_size (t_dtype t) = Inr s"
  then show "nbytes t = Inr (if n * s < 2 ^ 64 then n * s else (n * s) mod 2 ^ 64)"
    by (simp add: nbytes_def wrap64_def)
next
  show "let t = new_tensor ''w'' (Shape [2 ^ 62]) Float32 device_cpu in
        numel (t_shape t) = Inr (2 ^ 62) \<and> nbytes t = Inr 0 \<and>
        fst (allocate_cpu t) = make_ok \<and> \<not> is_allocated (snd (allocate_cpu t))"
    by (simp add: Let_def new_tensor_def numel_def has_dynamic_dim_def nbytes_def wrap64_def
        allocate_cpu_def release_def is_allocated_def)
qed

theorem nbytes_exact_until_it_wraps_witness:
  "nbytes (new_tensor ''w'' (Shape [3]) Float32 device_cpu) = Inr 12"
proof -
  let ?t = "new_tensor ''w'' (Shape [3]) Float32 device_cpu"
  have n: "numel (t_shape ?t) = Inr 3"
    by (simp add: new_tensor_def numel_def has_dynamic_dim_def)
  have s: "dtype_size (t_dtype ?t) = Inr 4"
    by (simp add: new_tensor_def)
  from conjunct1 [OF nbytes_exact_until_it_wraps] n s
  have "nbytes ?t = Inr (if 3 * 4 < (2 :: nat) ^ 64 then 3 * 4 else (3 * 4) mod 2 ^ 64)"
    by blast
  then show ?thesis by simp
qed

end
