(* ===== verification/Batch_Scheduler.thy ===== *)
theory Batch_Scheduler
  imports Paged_Cache_Properties
begin

text \<open>
  \<open>ContinuousBatchScheduler\<close> (include/minillm/runtime/continuous_batch_scheduler.h,
  src/runtime/continuous_batch_scheduler.cpp): requests wait in a queue, are admitted in order while
  the batch has room and the paged cache has the blocks for the whole sequence, are decoded by
  the client, evicted when finished and collected. The cache is held by reference, so an operation
  takes and returns it next to the scheduler.
\<close>

section \<open>State\<close>

record sequence_request =
  rq_sequence_id :: int
  rq_prompt_tokens :: "int list"
  rq_max_tokens :: int

record sequence_output =
  so_sequence_id :: int
  so_prompt_tokens :: "int list"
  so_generated_tokens :: "int list"
  so_finished :: bool

datatype seq_phase = Waiting | Prefilling | Decoding | Finished

record seq_state =
  sq_sequence_id :: int
  sq_phase :: seq_phase
  sq_prompt_tokens :: "int list"
  sq_generated_tokens :: "int list"
  sq_max_tokens :: int
  sq_prefilled_tokens :: int

definition empty_state :: seq_state where
  "empty_state = \<lparr>sq_sequence_id = -1, sq_phase = Waiting, sq_prompt_tokens = [], sq_generated_tokens = [],
     sq_max_tokens = 64, sq_prefilled_tokens = 0\<rparr>"

record batch_scheduler =
  bs_max_batch_size :: int
  bs_states :: "seq_state list"
  bs_waiting :: "int list"
  bs_active :: "int list"
  bs_next_id :: int

definition new_batch_scheduler :: "int \<Rightarrow> batch_scheduler" where
  "new_batch_scheduler mb = \<lparr>bs_max_batch_size = mb, bs_states = [], bs_waiting = [], bs_active = [],
     bs_next_id = 0\<rparr>"

text \<open>\<open>states_.at(sequence_id)\<close>: a negative id becomes a huge index.\<close>

definition seq_state_at :: "int \<Rightarrow> batch_scheduler \<Rightarrow> seq_state result" where
  "seq_state_at sid s = (if size_of_int sid < length (bs_states s)
     then Inr (bs_states s ! size_of_int sid) else Inl (Thrown ''vector::at''))"

definition put_state :: "int \<Rightarrow> seq_state \<Rightarrow> batch_scheduler \<Rightarrow> batch_scheduler" where
  "put_state sid q s = s\<lparr>bs_states := (bs_states s)[size_of_int sid := q]\<rparr>"

definition all_done :: "batch_scheduler \<Rightarrow> bool" where
  "all_done s \<longleftrightarrow> bs_active s = [] \<and> bs_waiting s = []"

section \<open>Operations\<close>

definition submit :: "sequence_request \<Rightarrow> batch_scheduler \<Rightarrow> unit result \<times> batch_scheduler" where
  "submit rq s =
     (if rq_prompt_tokens rq = [] then
        (Inl (invalid_argument ''SequenceRequest must have at least one prompt token''), s)
      else if rq_max_tokens rq \<le> 0 then
        (Inl (invalid_argument ''SequenceRequest max_tokens must be positive''), s)
      else let sid = (if 0 \<le> rq_sequence_id rq then rq_sequence_id rq else bs_next_id s) in
      case (if 0 \<le> rq_sequence_id rq then Inr (bs_next_id s) else cint32 (bs_next_id s + 1)) of
        Inl e \<Rightarrow> (Inl e, s)
      | Inr nxt \<Rightarrow>
          let s1 = s\<lparr>bs_next_id := nxt\<rparr> in
          if sid < 0 then
            (Inl (invalid_argument ''SequenceRequest sequence_id must be non-negative''), s1)
          else case (if 0 \<le> rq_sequence_id rq \<and> bs_next_id s1 \<le> sid then cint32 (sid + 1)
                     else Inr (bs_next_id s1)) of
            Inl e \<Rightarrow> (Inl e, s1)
          | Inr nxt' \<Rightarrow>
              let states = (if length (bs_states s1) \<le> nat sid
                     then vec_resize empty_state (nat sid + 1) (bs_states s1) else bs_states s1);
                  s2 = s1\<lparr>bs_next_id := nxt', bs_states := states\<rparr>;
                  q = states ! nat sid
              in if 0 \<le> sq_sequence_id q then
                   (Inl (invalid_argument (''SequenceRequest sequence_id is already in use: '' @ int_to_string sid)), s2)
                 else (make_ok, s2\<lparr>bs_states := states[nat sid :=
                        \<lparr>sq_sequence_id = sid, sq_phase = Waiting, sq_prompt_tokens = rq_prompt_tokens rq,
                         sq_generated_tokens = [], sq_max_tokens = rq_max_tokens rq, sq_prefilled_tokens = 0\<rparr>],
                      bs_waiting := bs_waiting s2 @ [sid]\<rparr>))"

text \<open>The loop of \<open>admit_waiting\<close>, over the queue.\<close>

fun admit_loop ::
  "int list \<Rightarrow> 'f paged_cache \<Rightarrow> batch_scheduler \<Rightarrow> unit result \<times> 'f paged_cache \<times> batch_scheduler"
where
  "admit_loop [] c s = (make_ok, c, s)"
| "admit_loop (sid # rest) c s =
     (if bs_max_batch_size s \<le> int (length (bs_active s)) then (make_ok, c, s)
      else case seq_state_at sid s of
        Inl e \<Rightarrow> (Inl e, c, s)
      | Inr q \<Rightarrow> (case ensure_sequence sid c of
          (Inl e, c1) \<Rightarrow> (Inl e, c1, s)
        | (Inr _, c1) \<Rightarrow> (case cint32 (int (length (sq_prompt_tokens q)) + sq_max_tokens q) of
            Inl e \<Rightarrow> (Inl e, c1, s)
          | Inr total_tokens \<Rightarrow> (case reserve_sequence sid total_tokens c1 of
              (Inl e, c2) \<Rightarrow> (if is_status e then (make_ok, c2, s) else (Inl e, c2, s))
            | (Inr _, c2) \<Rightarrow>
                let s1 = put_state sid (q\<lparr>sq_phase := Prefilling\<rparr>) s
                in admit_loop rest c2 (s1\<lparr>bs_active := bs_active s1 @ [sid], bs_waiting := rest\<rparr>)))))"

definition admit_waiting ::
  "'f paged_cache \<Rightarrow> batch_scheduler \<Rightarrow> unit result \<times> 'f paged_cache \<times> batch_scheduler"
where
  "admit_waiting c s =
     (if bs_max_batch_size s \<le> 0 then
        (Inl (invalid_argument ''ContinuousBatchScheduler max_batch_size must be positive''), c, s)
      else admit_loop (bs_waiting s) c s)"

definition mark_prefill_progress :: "int \<Rightarrow> int \<Rightarrow> batch_scheduler \<Rightarrow> unit result \<times> batch_scheduler" where
  "mark_prefill_progress sid n s = (case seq_state_at sid s of
     Inl e \<Rightarrow> (Inl e, s)
   | Inr q \<Rightarrow>
       let q1 = q\<lparr>sq_prefilled_tokens := n\<rparr>;
           q2 = (if int (length (sq_prompt_tokens q1)) \<le> sq_prefilled_tokens q1
                 then q1\<lparr>sq_phase := Decoding\<rparr> else q1)
       in (make_ok, put_state sid q2 s))"

definition mark_token_generated :: "int \<Rightarrow> int \<Rightarrow> batch_scheduler \<Rightarrow> unit result \<times> batch_scheduler" where
  "mark_token_generated sid token s = (case seq_state_at sid s of
     Inl e \<Rightarrow> (Inl e, s)
   | Inr q \<Rightarrow>
       let q1 = q\<lparr>sq_generated_tokens := sq_generated_tokens q @ [token]\<rparr>;
           q2 = (if sq_max_tokens q1 \<le> int (length (sq_generated_tokens q1))
                 then q1\<lparr>sq_phase := Finished\<rparr> else q1)
       in (make_ok, put_state sid q2 s))"

definition mark_finished :: "int \<Rightarrow> batch_scheduler \<Rightarrow> unit result \<times> batch_scheduler" where
  "mark_finished sid s = (case seq_state_at sid s of
     Inl e \<Rightarrow> (Inl e, s)
   | Inr q \<Rightarrow> (make_ok, put_state sid (q\<lparr>sq_phase := Finished\<rparr>) s))"

text \<open>The loop of \<open>evict_finished\<close>: \<open>kept\<close> are the active ids that were passed.\<close>

fun evict_loop ::
  "int list \<Rightarrow> int list \<Rightarrow> 'f paged_cache \<Rightarrow> batch_scheduler \<Rightarrow> unit result \<times> 'f paged_cache \<times> batch_scheduler"
where
  "evict_loop kept [] c s = (make_ok, c, s\<lparr>bs_active := kept\<rparr>)"
| "evict_loop kept (sid # sids) c s = (case seq_state_at sid s of
     Inl e \<Rightarrow> (Inl e, c, s\<lparr>bs_active := kept @ sid # sids\<rparr>)
   | Inr q \<Rightarrow> if sq_phase q = Finished then evict_loop kept sids (snd (free_sequence sid c)) s
              else evict_loop (kept @ [sid]) sids c s)"

definition evict_finished ::
  "'f paged_cache \<Rightarrow> batch_scheduler \<Rightarrow> unit result \<times> 'f paged_cache \<times> batch_scheduler"
where
  "evict_finished c s = evict_loop [] (bs_active s) c s"

definition output_of :: "seq_state \<Rightarrow> sequence_output" where
  "output_of q = \<lparr>so_sequence_id = sq_sequence_id q, so_prompt_tokens = sq_prompt_tokens q,
     so_generated_tokens = sq_generated_tokens q, so_finished = True\<rparr>"

definition collectable :: "seq_state \<Rightarrow> bool" where
  "collectable q \<longleftrightarrow> sq_phase q = Finished \<and> 0 \<le> sq_sequence_id q"

definition collect_finished :: "batch_scheduler \<Rightarrow> sequence_output list \<times> batch_scheduler" where
  "collect_finished s =
     (map output_of (filter collectable (bs_states s)),
      s\<lparr>bs_states := map (\<lambda>q. if collectable q then q\<lparr>sq_sequence_id := -1\<rparr> else q) (bs_states s)\<rparr>)"

end
