(* ===== verification/Batch_Scheduler_Invariant.thy ===== *)
theory Batch_Scheduler_Invariant
  imports Batch_Scheduler
begin

text \<open>
  The invariant of continuous batching and its preservation. The client's discipline is what the
  examples and tests of the repository do: it marks and writes active sequences only, it may collect before or
  after it evicts, and it does not give the id of a request that was collected but is still in the batch to
  a new one.
\<close>

section \<open>What a client's call on the cache touches\<close>

definition touches_only :: "int \<Rightarrow> 'f paged_cache \<Rightarrow> 'f paged_cache \<Rightarrow> bool" where
  "touches_only sid c c' \<longleftrightarrow> (\<forall>t. t \<noteq> sid \<longrightarrow> seq_of c' t = seq_of c t)
     \<and> length (ps_blocks (seq_of c sid)) \<le> length (ps_blocks (seq_of c' sid))"

lemma touches_refl [simp]: "touches_only sid c c"
  by (simp add: touches_only_def)

lemma touches_trans: "touches_only sid a b \<Longrightarrow> touches_only sid b c \<Longrightarrow> touches_only sid a c"
  by (auto simp: touches_only_def intro: order_trans)

lemma ensure_touches:
  assumes "ensure_sequence sid c = (r, c')"
  shows "touches_only sid c c'"
  using assms
proof (cases rule: ensure_sequence_cases)
  case ok
  with assms have "ensure_sequence sid c = (make_ok, c')" by simp
  then show ?thesis by (simp add: touches_only_def ensure_sequence_seq_of)
qed simp

lemma reserve_touches:
  assumes inv: "paged_inv c" and n: "0 \<le> n \<longrightarrow> int32_ok (n + pc_block_size c)"
    and run: "reserve_sequence sid n c = (r, c')"
  shows "touches_only sid c c'"
proof (cases "0 \<le> sid \<and> 0 \<le> n")
  case True
  with reserve_sequence_spec [OF inv, of sid n] n run have "reserve_outcome c sid n r c'" by auto
  then show ?thesis by (auto simp: reserve_outcome_def touches_only_def Let_def split: if_splits)
next
  case False
  obtain r1 c1 where e: "ensure_sequence sid c = (r1, c1)" by (cases "ensure_sequence sid c")
  have "r1 = make_ok \<Longrightarrow> n < 0" using False ensure_sequence_ok [of sid c c1] e by auto
  then have "c' = c1" using run e by (cases r1) (auto simp: reserve_sequence_def)
  with ensure_touches [OF e] show ?thesis by simp
qed

lemma set_length_touches:
  "known_sequence c sid \<Longrightarrow>
   touches_only sid c (c\<lparr>pc_sequences := (pc_sequences c)[nat sid := (pc_sequences c ! nat sid)\<lparr>ps_length := n\<rparr>]\<rparr>)"
  using seq_of_update(2) [of c sid "(pc_sequences c ! nat sid)\<lparr>ps_length := n\<rparr>"]
  by (simp add: touches_only_def seq_of_def)

lemma write_loop_sequences:
  "write_loop sid layer start t n k v c = (r, c') \<Longrightarrow> pc_sequences c' = pc_sequences c"
proof (induction n arbitrary: t c)
  case (Suc n)
  show ?case
  proof (cases "write_row sid layer (start + int t) t k v c")
    case (Inr c1)
    then have "pc_sequences c1 = pc_sequences c"
      by (auto simp: write_row_def rbind_Inr_iff Let_def)
    with Suc.IH [of "Suc t" c1] Suc.prems Inr show ?thesis by simp
  qed (use Suc.prems in simp)
qed simp

lemma touches_same_sequences: "pc_sequences c' = pc_sequences c \<Longrightarrow> touches_only sid c c'"
  by (simp add: touches_only_def seq_of_def known_sequence_def)

lemma write_tokens_touches:
  assumes inv: "paged_inv c" and call: "paged_call_ok c (WriteTokens sid layer start k v n)"
    and run: "write_tokens sid layer start k v n c = (r, c')"
  shows "touches_only sid c c'"
proof (cases "\<exists>kd vd. k = Some kd \<and> v = Some vd \<and> 0 \<le> start \<and> 0 < n \<and> valid_layer c layer \<and> int32_ok (start + n)")
  case False
  with run show ?thesis
    by (auto simp: write_tokens_def valid_layer_def cint32_def split: option.splits if_splits)
next
  case True
  then obtain kd vd where kv: "k = Some kd" "v = Some vd" and start: "0 \<le> start" "0 < n"
    and layer: "valid_layer c layer" and e32: "int32_ok (start + n)" by blast
  obtain r1 c1 where res: "reserve_sequence sid (start + n) c = (r1, c1)"
    by (cases "reserve_sequence sid (start + n) c")
  have n32: "0 \<le> start + n \<longrightarrow> int32_ok (start + n + pc_block_size c)" using call start by simp
  have t1: "touches_only sid c c1" by (rule reserve_touches [OF inv n32 res])
  note keeps = reserve_sequence_keeps [OF inv n32 res]
  have eq: "write_tokens sid layer start k v n c = sbind (r1, c1) (\<lambda>_ c1.
      sbind (write_loop sid layer start 0 (nat n) kd vd c1) (\<lambda>_ c2.
        (make_ok, c2\<lparr>pc_sequences := (pc_sequences c2)[nat sid := (pc_sequences c2 ! nat sid)
           \<lparr>ps_length := max (ps_length (pc_sequences c2 ! nat sid)) (start + n)\<rparr>]\<rparr>)))"
    using kv start layer res e32 by (simp add: write_tokens_def valid_layer_def cint32_ok Let_def)
  show ?thesis
  proof (cases r1)
    case (Inl e)
    with eq run t1 show ?thesis by simp
  next
    case (Inr u)
    obtain r2 c2 where loop: "write_loop sid layer start 0 (nat n) kd vd c1 = (r2, c2)"
      by (cases "write_loop sid layer start 0 (nat n) kd vd c1")
    have seqs: "pc_sequences c2 = pc_sequences c1" by (rule write_loop_sequences [OF loop])
    have "known_sequence c1 sid"
    proof -
      have "0 \<le> sid" "can_hold c sid (start + n)" using keeps Inr by simp_all
      from reserve_ok [OF inv this(1) _ _ this(2)] n32 start res show ?thesis by auto
    qed
    then have "known_sequence c2 sid" by (simp add: known_sequence_def seqs)
    from set_length_touches [OF this] touches_trans [OF t1 touches_same_sequences [OF seqs]]
    show ?thesis
      using eq run Inr loop by (cases r2) (auto intro: touches_trans)
  qed
qed

lemma set_sequence_length_touches:
  assumes inv: "paged_inv c" and n: "0 \<le> n \<longrightarrow> int32_ok (n + pc_block_size c)"
    and run: "set_sequence_length sid n c = (r, c')"
  shows "touches_only sid c c'"
proof -
  obtain r1 c1 where res: "reserve_sequence sid n c = (r1, c1)" by (cases "reserve_sequence sid n c")
  have t1: "touches_only sid c c1" by (rule reserve_touches [OF inv n res])
  note keeps = reserve_sequence_keeps [OF inv n res]
  show ?thesis
  proof (cases "0 \<le> n \<and> r1 = make_ok")
    case True
    then have "0 \<le> sid" "can_hold c sid n" using keeps by simp_all
    from reserve_ok [OF inv this(1) _ _ this(2)] n True res have "known_sequence c1 sid" by auto
    from touches_trans [OF t1 set_length_touches [OF this]] run res True show ?thesis
      by (auto simp: set_sequence_length_def)
  next
    case False
    with run res t1 show ?thesis
      by (cases r1) (auto simp: set_sequence_length_def split: if_splits)
  qed
qed

text \<open>The calls that a client makes for an active sequence.\<close>

fun cache_subject :: "'f paged_op \<Rightarrow> int option" where
  "cache_subject (EnsureSequence sid) = Some sid"
| "cache_subject (ReserveSequence sid n) = Some sid"
| "cache_subject (SetSequenceLength sid n) = Some sid"
| "cache_subject (WriteTokens sid l p k v n) = Some sid"
| "cache_subject (AppendTokens sid l k v n) = Some sid"
| "cache_subject _ = None"

lemma paged_exec_touches:
  assumes "paged_inv c" and "paged_call_ok c op" and "cache_subject op = Some sid"
  shows "touches_only sid c (snd (paged_exec op c))"
proof (cases op)
  case (AppendTokens sid' l k v n)
  with assms show ?thesis
    using write_tokens_touches [OF assms(1), of sid l "sequence_length c sid" k v n]
    by (simp add: append_tokens_def) (metis prod.collapse)
next
  case (WriteTokens sid' l p k v n)
  with assms show ?thesis
    using write_tokens_touches [OF assms(1), of sid l p k v n] by simp (metis prod.collapse)
next
  case (EnsureSequence sid')
  with assms show ?thesis using ensure_touches [of sid c] by simp (metis prod.collapse)
next
  case (ReserveSequence sid' n)
  with assms show ?thesis using reserve_touches [OF assms(1), of n sid] by simp (metis prod.collapse)
next
  case (SetSequenceLength sid' n)
  with assms show ?thesis using set_sequence_length_touches [OF assms(1), of n sid] by simp (metis prod.collapse)
qed (use assms in simp_all)

section \<open>The invariant\<close>

definition live :: "batch_scheduler \<Rightarrow> int \<Rightarrow> bool" where
  "live s sid \<longleftrightarrow> 0 \<le> sid \<and> nat sid < length (bs_states s) \<and> sq_sequence_id (bs_states s ! nat sid) = sid"

text \<open>A request that was collected has given up its id; until it is evicted it is still in the batch.\<close>

definition known :: "batch_scheduler \<Rightarrow> int \<Rightarrow> bool" where
  "known s sid \<longleftrightarrow> 0 \<le> sid \<and> nat sid < length (bs_states s)"

definition held :: "batch_scheduler \<Rightarrow> int \<Rightarrow> bool" where
  "held s sid \<longleftrightarrow> live s sid \<or> sid \<in> set (bs_active s)"

lemma live_known: "live s sid \<Longrightarrow> known s sid"
  by (simp add: live_def known_def)

abbreviation state_of :: "batch_scheduler \<Rightarrow> int \<Rightarrow> seq_state" where
  "state_of s sid \<equiv> bs_states s ! nat sid"

definition total_tokens :: "seq_state \<Rightarrow> int" where
  "total_tokens q = int (length (sq_prompt_tokens q)) + sq_max_tokens q"

definition ids_ok :: "batch_scheduler \<Rightarrow> bool" where
  "ids_ok s \<longleftrightarrow> 0 \<le> bs_next_id s \<and> int32_ok (bs_next_id s) \<and> int (length (bs_states s)) \<le> bs_next_id s
     \<and> (\<forall>i < length (bs_states s). sq_sequence_id (bs_states s ! i) = -1 \<or> sq_sequence_id (bs_states s ! i) = int i)"

definition queues_ok :: "batch_scheduler \<Rightarrow> bool" where
  "queues_ok s \<longleftrightarrow> distinct (bs_waiting s @ bs_active s)
     \<and> int (length (bs_active s)) \<le> max 0 (bs_max_batch_size s)
     \<and> (\<forall>sid \<in> set (bs_waiting s). live s sid \<and> sq_phase (state_of s sid) = Waiting
          \<and> sq_generated_tokens (state_of s sid) = [])
     \<and> (\<forall>sid \<in> set (bs_active s). known s sid \<and> sq_phase (state_of s sid) \<noteq> Waiting
          \<and> (live s sid \<or> sq_phase (state_of s sid) = Finished))
     \<and> (\<forall>sid. live s sid \<longrightarrow> sid \<notin> set (bs_waiting s @ bs_active s) \<longrightarrow> sq_phase (state_of s sid) = Finished)"

text \<open>Every request that is held keeps to its token budget, and its total is representable.\<close>

definition budget_ok :: "int \<Rightarrow> seq_state \<Rightarrow> bool" where
  "budget_ok bs q \<longleftrightarrow> 0 < sq_max_tokens q \<and> int32_ok (total_tokens q + bs)
     \<and> int (length (sq_generated_tokens q)) \<le> sq_max_tokens q
     \<and> (sq_phase q \<noteq> Finished \<longrightarrow> int (length (sq_generated_tokens q)) < sq_max_tokens q)"

definition blocks_ok :: "'f paged_cache \<Rightarrow> batch_scheduler \<Rightarrow> bool" where
  "blocks_ok c s \<longleftrightarrow>
     (\<forall>sid \<in> set (bs_active s). total_tokens (state_of s sid) \<le> int (length (ps_blocks (seq_of c sid))) * pc_block_size c)
     \<and> (\<forall>sid. sid \<notin> set (bs_active s) \<longrightarrow> ps_blocks (seq_of c sid) = [])"

definition sched_inv :: "'f paged_cache \<times> batch_scheduler \<Rightarrow> bool" where
  "sched_inv cs \<longleftrightarrow> (case cs of (c, s) \<Rightarrow> paged_inv c \<and> ids_ok s \<and> queues_ok s
     \<and> (\<forall>sid. held s sid \<longrightarrow> budget_ok (pc_block_size c) (state_of s sid)) \<and> blocks_ok c s)"

section \<open>The client's discipline\<close>

datatype 'f batch_op =
    Submit sequence_request
  | Admit
  | PrefillProgress int int
  | TokenGenerated int int
  | MarkFinished int
  | Evict
  | Collect
  | ClientCall "'f paged_op"

fun batch_exec :: "('f :: zero) batch_op \<Rightarrow> 'f paged_cache \<times> batch_scheduler \<Rightarrow> 'f paged_cache \<times> batch_scheduler" where
  "batch_exec (Submit rq) (c, s) = (c, snd (submit rq s))"
| "batch_exec Admit (c, s) = snd (admit_waiting c s)"
| "batch_exec (PrefillProgress sid n) (c, s) = (c, snd (mark_prefill_progress sid n s))"
| "batch_exec (TokenGenerated sid t) (c, s) = (c, snd (mark_token_generated sid t s))"
| "batch_exec (MarkFinished sid) (c, s) = (c, snd (mark_finished sid s))"
| "batch_exec Evict (c, s) = snd (evict_finished c s)"
| "batch_exec Collect (c, s) = (c, snd (collect_finished s))"
| "batch_exec (ClientCall op) (c, s) = (snd (paged_exec op c), s)"

fun batch_call_ok :: "'f paged_cache \<times> batch_scheduler \<Rightarrow> 'f batch_op \<Rightarrow> bool" where
  "batch_call_ok (c, s) (Submit rq) =
     (int32_ok (int (length (rq_prompt_tokens rq)) + rq_max_tokens rq + pc_block_size c)
      \<and> int32_ok (bs_next_id s + 1) \<and> int32_ok (rq_sequence_id rq + 1)
      \<and> (rq_sequence_id rq \<in> set (bs_active s) \<longrightarrow> live s (rq_sequence_id rq)))"
| "batch_call_ok (c, s) (PrefillProgress sid n) = (sid \<in> set (bs_active s) \<and> sq_phase (state_of s sid) \<noteq> Finished)"
| "batch_call_ok (c, s) (TokenGenerated sid t) = (sid \<in> set (bs_active s) \<and> sq_phase (state_of s sid) \<noteq> Finished)"
| "batch_call_ok (c, s) (MarkFinished sid) = (sid \<in> set (bs_active s))"
| "batch_call_ok (c, s) (ClientCall op) =
     (paged_call_ok c op \<and> (\<exists>sid \<in> set (bs_active s). cache_subject op = Some sid))"
| "batch_call_ok cs _ = True"

section \<open>Preservation\<close>

lemma known_index:
  assumes "ids_ok s" and "known s sid"
  shows "size_of_int sid = nat sid" "seq_state_at sid s = Inr (state_of s sid)"
proof -
  have "sid \<le> bs_next_id s" "0 \<le> sid" "int32_ok (bs_next_id s)"
    using assms by (auto simp: ids_ok_def known_def)
  then have "int32_ok sid" using int32_ok_between [of "bs_next_id s" sid] by simp
  then show "size_of_int sid = nat sid" using assms(2) by (simp add: known_def)
  then show "seq_state_at sid s = Inr (state_of s sid)"
    using assms(2) by (simp add: seq_state_at_def known_def)
qed

lemma sched_invD:
  assumes "sched_inv (c, s)"
  shows "paged_inv c" "ids_ok s" "queues_ok s" "blocks_ok c s"
    "\<And>sid. held s sid \<Longrightarrow> budget_ok (pc_block_size c) (state_of s sid)"
    "\<And>sid. sid \<in> set (bs_waiting s) \<Longrightarrow> live s sid"
    "\<And>sid. sid \<in> set (bs_waiting s @ bs_active s) \<Longrightarrow> known s sid"
    "\<And>sid. sid \<in> set (bs_active s) \<Longrightarrow> sq_phase (state_of s sid) \<noteq> Finished \<Longrightarrow> live s sid"
  using assms by (auto simp: sched_inv_def queues_ok_def live_known)

text \<open>Replacing the state of one active sequence, its id, prompt and maximum kept.\<close>

lemma update_state_inv:
  assumes inv: "sched_inv (c, s)" and active: "sid \<in> set (bs_active s)"
    and same: "sq_sequence_id q = sq_sequence_id (state_of s sid)" "sq_prompt_tokens q = sq_prompt_tokens (state_of s sid)"
      "sq_max_tokens q = sq_max_tokens (state_of s sid)"
    and phase: "sq_phase q \<noteq> Waiting" "live s sid \<or> sq_phase q = Finished"
    and gen: "int (length (sq_generated_tokens q)) \<le> sq_max_tokens q"
      "sq_phase q \<noteq> Finished \<longrightarrow> int (length (sq_generated_tokens q)) < sq_max_tokens q"
  shows "sched_inv (c, put_state sid q s)"
proof -
  note d = sched_invD [OF inv]
  have k: "known s sid" using d(7) active by simp
  have put: "put_state sid q s = s\<lparr>bs_states := (bs_states s)[nat sid := q]\<rparr>"
    using known_index(1) [OF d(2) k] by (simp add: put_state_def)
  have i: "nat sid < length (bs_states s)" "0 \<le> sid" using k by (simp_all add: known_def)
  have at: "state_of (put_state sid q s) t = (if t = sid then q else state_of s t)" if "0 \<le> t" for t
    using i that by (simp add: put nth_list_update eq_nat_nat_iff)
  have live': "live (put_state sid q s) t = live s t" for t
    using same(1) i by (auto simp: live_def put nth_list_update)
  have lists: "bs_waiting (put_state sid q s) = bs_waiting s" "bs_active (put_state sid q s) = bs_active s"
    "bs_next_id (put_state sid q s) = bs_next_id s" "bs_max_batch_size (put_state sid q s) = bs_max_batch_size s"
    "length (bs_states (put_state sid q s)) = length (bs_states s)" "known (put_state sid q s) t = known s t" for t
    by (simp_all add: put known_def)
  have nonneg: "held s t \<Longrightarrow> 0 \<le> t" "t \<in> set (bs_waiting s @ bs_active s) \<Longrightarrow> 0 \<le> t" "live s t \<Longrightarrow> 0 \<le> t" for t
    using d(7) [of t] by (auto simp: held_def live_def known_def)
  have "sid \<notin> set (bs_waiting s)" using d(3) active by (auto simp: queues_ok_def)
  then have queues: "queues_ok (put_state sid q s)"
    using d(3) at nonneg(2,3) phase active unfolding queues_ok_def lists live' by auto
  have "ids_ok (put_state sid q s)"
    using d(2) same(1) i by (auto simp: ids_ok_def put nth_list_update)
  moreover have "budget_ok (pc_block_size c) (state_of (put_state sid q s) t)" if "held s t" for t
    using d(5) [OF that] at [OF nonneg(1) [OF that]] same gen
    by (auto simp: budget_ok_def total_tokens_def)
  moreover have "blocks_ok c (put_state sid q s)"
  proof -
    have "total_tokens (state_of (put_state sid q s) t) = total_tokens (state_of s t)" if "t \<in> set (bs_active s)" for t
      using at [OF nonneg(2)] that same by (simp add: total_tokens_def)
    then show ?thesis using d(4) by (simp add: blocks_ok_def lists)
  qed
  ultimately show ?thesis using d(1) queues live' lists by (simp add: sched_inv_def held_def)
qed

subsection \<open>Submitting\<close>

definition grown :: "int \<Rightarrow> int \<Rightarrow> batch_scheduler \<Rightarrow> batch_scheduler" where
  "grown sid nxt s = s\<lparr>bs_next_id := nxt, bs_states :=
     (if length (bs_states s) \<le> nat sid then vec_resize empty_state (nat sid + 1) (bs_states s) else bs_states s)\<rparr>"

definition fresh_state :: "int \<Rightarrow> sequence_request \<Rightarrow> seq_state" where
  "fresh_state sid rq = \<lparr>sq_sequence_id = sid, sq_phase = Waiting, sq_prompt_tokens = rq_prompt_tokens rq,
     sq_generated_tokens = [], sq_max_tokens = rq_max_tokens rq, sq_prefilled_tokens = 0\<rparr>"

definition enqueue :: "int \<Rightarrow> sequence_request \<Rightarrow> batch_scheduler \<Rightarrow> batch_scheduler" where
  "enqueue sid rq s = s\<lparr>bs_states := (bs_states s)[nat sid := fresh_state sid rq], bs_waiting := bs_waiting s @ [sid]\<rparr>"

lemma grown_nth:
  assumes "i < length (bs_states (grown sid nxt s))"
  shows "bs_states (grown sid nxt s) ! i = (if i < length (bs_states s) then bs_states s ! i else empty_state)"
  using assms by (auto simp: grown_def)

lemma grown_inv:
  assumes inv: "sched_inv (c, s)" and nxt: "bs_next_id s \<le> nxt" "sid < nxt" "int32_ok nxt" "0 \<le> sid"
  shows "sched_inv (c, grown sid nxt s)" "nat sid < length (bs_states (grown sid nxt s))"
proof -
  let ?s = "grown sid nxt s"
  have len: "length (bs_states s) \<le> length (bs_states ?s)" "length (bs_states ?s) \<le> max (length (bs_states s)) (nat sid + 1)"
    by (auto simp: grown_def)
  have live': "live ?s t = live s t" and at: "live s t \<Longrightarrow> state_of ?s t = state_of s t" for t
    using len(1) grown_nth [of "nat t" sid nxt s]
    by (auto simp: live_def empty_state_def split: if_splits)
  have lists: "bs_waiting ?s = bs_waiting s" "bs_active ?s = bs_active s" "bs_max_batch_size ?s = bs_max_batch_size s"
    "bs_next_id ?s = nxt"
    by (simp_all add: grown_def)
  note d = sched_invD [OF inv]
  have known': "known ?s t" "state_of ?s t = state_of s t" if "known s t" for t
    using that len(1) grown_nth [of "nat t" sid nxt s] by (auto simp: known_def)
  have "int (length (bs_states ?s)) \<le> nxt" using len(2) nxt d(2) by (auto simp: ids_ok_def)
  then have "ids_ok ?s"
    using d(2) nxt grown_nth [of _ sid nxt s] by (auto simp: ids_ok_def lists empty_state_def)
  moreover have "queues_ok ?s" using d(3) at known' by (auto simp: queues_ok_def lists live')
  moreover have "blocks_ok c ?s" using d(4,7) known' by (auto simp: blocks_ok_def lists)
  moreover have "budget_ok (pc_block_size c) (state_of ?s t)" if "held ?s t" for t
  proof -
    have "held s t" using that by (simp add: held_def live' lists)
    then show ?thesis using d(5,7) [of t] known' live_known by (auto simp: held_def)
  qed
  ultimately show "sched_inv (c, ?s)" using d(1) by (simp add: sched_inv_def)
  show "nat sid < length (bs_states ?s)" by (simp add: grown_def)
qed

lemma enqueue_inv:
  assumes inv: "sched_inv (c, s)" and sid: "0 \<le> sid" "nat sid < length (bs_states s)"
    and free: "sq_sequence_id (state_of s sid) < 0" "sid \<notin> set (bs_active s)"
    and rq: "0 < rq_max_tokens rq" "int32_ok (int (length (rq_prompt_tokens rq)) + rq_max_tokens rq + pc_block_size c)"
  shows "sched_inv (c, enqueue sid rq s)"
proof -
  let ?s = "enqueue sid rq s"
  note d = sched_invD [OF inv]
  have at: "state_of ?s t = (if t = sid then fresh_state sid rq else state_of s t)" if "0 \<le> t" for t
    using sid that by (simp add: enqueue_def nth_list_update eq_nat_nat_iff)
  have live': "live ?s t \<longleftrightarrow> live s t \<or> t = sid" for t
    using at [of t] sid by (cases "0 \<le> t") (auto simp: live_def fresh_state_def enqueue_def nth_list_update)
  have new: "sid \<notin> set (bs_waiting s @ bs_active s)"
    using d(6) [of sid] free sid by (auto simp: live_def)
  have known': "known ?s t = known s t" for t by (simp add: known_def enqueue_def)
  have lists: "bs_waiting ?s = bs_waiting s @ [sid]" "bs_active ?s = bs_active s"
    "bs_max_batch_size ?s = bs_max_batch_size s" by (simp_all add: enqueue_def)
  have nonneg: "known s t \<Longrightarrow> 0 \<le> t" "live s t \<Longrightarrow> 0 \<le> t" for t by (simp_all add: live_def known_def)
  have "ids_ok ?s" using d(2) sid by (auto simp: ids_ok_def enqueue_def nth_list_update fresh_state_def)
  moreover have "queues_ok ?s"
    using d(3) new at sid(1) nonneg unfolding queues_ok_def lists live' known'
    by (auto simp: fresh_state_def)
  moreover have "blocks_ok c ?s" using d(4,7) new at nonneg by (auto simp: blocks_ok_def lists)
  moreover have "budget_ok (pc_block_size c) (state_of ?s t)" if "held ?s t" for t
  proof (cases "t = sid")
    case True
    then show ?thesis using at [of t] sid(1) rq by (simp add: budget_ok_def fresh_state_def total_tokens_def)
  next
    case False
    then have "held s t" using that by (simp add: held_def live' lists)
    moreover have "0 \<le> t" using that False d(7) [of t] nonneg by (auto simp: held_def live' lists)
    ultimately show ?thesis using d(5) [of t] at [of t] False by simp
  qed
  ultimately show ?thesis using d(1) by (simp add: sched_inv_def)
qed

text \<open>The id a request gets, and what \<open>submit\<close> does with it.\<close>

definition request_id :: "sequence_request \<Rightarrow> batch_scheduler \<Rightarrow> int" where
  "request_id rq s = (if 0 \<le> rq_sequence_id rq then rq_sequence_id rq else bs_next_id s)"

definition next_after :: "sequence_request \<Rightarrow> batch_scheduler \<Rightarrow> int" where
  "next_after rq s = (if 0 \<le> rq_sequence_id rq then max (bs_next_id s) (rq_sequence_id rq + 1) else bs_next_id s + 1)"

lemma submit_eq:
  assumes "ids_ok s" and "int32_ok (bs_next_id s + 1)" and "int32_ok (rq_sequence_id rq + 1)"
    and "rq_prompt_tokens rq \<noteq> []" and "0 < rq_max_tokens rq"
  shows "submit rq s = (let sid = request_id rq s; s2 = grown sid (next_after rq s) s in
     if 0 \<le> sq_sequence_id (state_of s2 sid)
     then (Inl (invalid_argument (''SequenceRequest sequence_id is already in use: '' @ int_to_string sid)), s2)
     else (make_ok, enqueue sid rq s2))"
  using assms
  by (auto simp: submit_def request_id_def next_after_def grown_def enqueue_def fresh_state_def cint32_ok
      ids_ok_def Let_def max_def)

lemma request_id_bounds:
  assumes "ids_ok s" and "int32_ok (bs_next_id s + 1)" and "int32_ok (rq_sequence_id rq + 1)"
  shows "0 \<le> request_id rq s" "request_id rq s < next_after rq s" "bs_next_id s \<le> next_after rq s"
    "int32_ok (next_after rq s)"
  using assms by (auto simp: request_id_def next_after_def ids_ok_def max_def)

lemma submit_inv:
  assumes inv: "sched_inv (c, s)" and ok: "batch_call_ok (c, s) (Submit rq)"
  shows "sched_inv (c, snd (submit rq s))"
proof (cases "rq_prompt_tokens rq = [] \<or> rq_max_tokens rq \<le> 0")
  case True
  then show ?thesis using inv by (auto simp: submit_def)
next
  case False
  note ids = sched_invD(2) [OF inv]
  have i32: "int32_ok (bs_next_id s + 1)" "int32_ok (rq_sequence_id rq + 1)" using ok by simp_all
  note b = request_id_bounds [OF ids i32]
  note g = grown_inv [OF inv b(3,2,4,1)]
  have "sched_inv (c, enqueue (request_id rq s) rq (grown (request_id rq s) (next_after rq s) s))"
    if "sq_sequence_id (state_of (grown (request_id rq s) (next_after rq s) s) (request_id rq s)) < 0"
  proof -
    have "request_id rq s \<notin> set (bs_active s)"
    proof
      assume act: "request_id rq s \<in> set (bs_active s)"
      have "live s (request_id rq s)"
      proof (cases "0 \<le> rq_sequence_id rq")
        case True
        then show ?thesis using act ok by (simp add: request_id_def)
      next
        case False
        then have "nat (request_id rq s) < length (bs_states s)" using act sched_invD(7) [OF inv] by (auto simp: known_def)
        then show ?thesis using False ids by (auto simp: request_id_def ids_ok_def)
      qed
      then show False using that by (auto simp: live_def grown_def)
    qed
    then have "request_id rq s \<notin> set (bs_active (grown (request_id rq s) (next_after rq s) s))" by (simp add: grown_def)
    then show ?thesis using enqueue_inv [OF g(1) b(1) g(2) that] False ok by simp
  qed
  then show ?thesis
    using submit_eq [OF ids i32] False g(1) by (auto simp: Let_def not_le)
qed

text \<open>An id that the scheduler chooses itself is always free.\<close>

lemma submit_auto_id:
  assumes "ids_ok s" and "rq_sequence_id rq < 0"
  shows "sq_sequence_id (state_of (grown (request_id rq s) (next_after rq s) s) (request_id rq s)) < 0"
proof -
  let ?sid = "bs_next_id s"
  have "length (bs_states s) \<le> nat ?sid" "0 \<le> ?sid" using assms(1) by (auto simp: ids_ok_def)
  then show ?thesis using assms(2) by (simp add: request_id_def grown_def empty_state_def)
qed

end
