(* ===== verification/Batch_Scheduler_Runs.thy ===== *)
theory Batch_Scheduler_Runs
  imports Batch_Scheduler_Invariant
begin

text \<open>
  Admission, eviction and collection keep the invariant of continuous batching, so it holds in every state
  that a disciplined client reaches, and no call that it makes is undefined.
\<close>

section \<open>Admission\<close>

text \<open>A sequence gets \<open>k\<close> blocks of the free ones.\<close>

definition takes_blocks :: "int \<Rightarrow> 'f paged_cache \<Rightarrow> int \<Rightarrow> 'f paged_cache \<Rightarrow> bool" where
  "takes_blocks k c sid c' \<longleftrightarrow> int (length (ps_blocks (seq_of c' sid))) = k
     \<and> int (length (pc_free_blocks c')) = int (length (pc_free_blocks c)) - k"

lemma blocks_needed_nonneg: "0 \<le> n \<Longrightarrow> 0 < bs \<Longrightarrow> 0 \<le> blocks_needed n bs"
  by (simp add: blocks_needed_def pos_imp_zdiv_nonneg_iff)

lemma reserve_takes_blocks:
  assumes "reserve_outcome c sid n make_ok c'" and "ps_blocks (seq_of c sid) = []" and "0 \<le> n" and "0 < pc_block_size c"
  shows "takes_blocks (blocks_needed n (pc_block_size c)) c sid c'"
  using assms blocks_needed_nonneg [OF assms(3,4)]
  by (auto simp: reserve_outcome_def takes_blocks_def Let_def of_nat_diff min_def split: if_splits)

lemma ensure_then_reserve:
  assumes inv: "paged_inv c" and sid: "0 \<le> sid" and n: "0 \<le> n" "int32_ok (n + pc_block_size c)"
  shows "\<exists>c1 r c2. ensure_sequence sid c = (make_ok, c1) \<and> reserve_sequence sid n c1 = (r, c2)
    \<and> paged_inv c2 \<and> same_geometry c c2
    \<and> (if can_hold c sid n
       then r = make_ok \<and> (\<forall>t. t \<noteq> sid \<longrightarrow> seq_of c2 t = seq_of c t)
         \<and> n \<le> int (length (ps_blocks (seq_of c2 sid))) * pc_block_size c
         \<and> (ps_blocks (seq_of c sid) = [] \<longrightarrow> takes_blocks (blocks_needed n (pc_block_size c)) c sid c2)
       else r = Inl (out_of_range ''PagedKVCache does not have enough free blocks'')
         \<and> pc_free_blocks c2 = pc_free_blocks c \<and> seq_of c2 = seq_of c)"
proof -
  obtain c1 where e: "ensure_sequence sid c = (make_ok, c1)"
    using sid paged_inv_initialized [OF inv] by (auto simp: ensure_sequence_def)
  have inv1: "paged_inv c1" and geo: "same_geometry c c1" using ensure_sequence_inv [OF inv e] by simp_all
  have free: "pc_free_blocks c1 = pc_free_blocks c" using ensure_sequence_ok [OF e] by simp
  have seqs: "seq_of c1 t = seq_of c t" for t by (rule ensure_sequence_seq_of(1) [OF e])
  have bs: "pc_block_size c1 = pc_block_size c" using geo by (simp add: same_geometry_def)
  have hold: "can_hold c1 sid n = can_hold c sid n" using free seqs bs by (simp add: can_hold_def)
  obtain r c2 where run: "reserve_sequence sid n c1 = (r, c2)" and out: "reserve_outcome c1 sid n r c2"
    and inv2: "paged_inv c2" and geo2: "same_geometry c1 c2"
    using reserve_sequence_spec [OF inv1 sid n(1)] n(2) bs by auto
  show ?thesis
  proof (cases "can_hold c sid n")
    case True
    from reserve_ok [OF inv1 sid n(1)] n(2) True hold bs run
    have "r = make_ok \<and> (\<forall>t. t \<noteq> sid \<longrightarrow> seq_of c2 t = seq_of c t)
        \<and> n \<le> int (length (ps_blocks (seq_of c2 sid))) * pc_block_size c"
      using seqs by auto
    moreover have "takes_blocks (blocks_needed n (pc_block_size c)) c sid c2" if "ps_blocks (seq_of c sid) = []"
    proof -
      have "0 < pc_block_size c1" using paged_invD(1) [OF inv1] by (simp add: dims_ok_def)
      then show ?thesis using reserve_takes_blocks [of c1 sid n c2] out calculation that seqs n(1) bs free
        by (simp add: takes_blocks_def)
    qed
    moreover note True e run inv2 same_geometry_trans [OF geo geo2]
    ultimately show ?thesis by auto
  next
    case False
    with out free seqs hold
    have "r = Inl (out_of_range ''PagedKVCache does not have enough free blocks'') \<and> pc_free_blocks c2 = pc_free_blocks c
        \<and> seq_of c2 = seq_of c"
      by (auto simp: reserve_outcome_def can_hold_def Let_def fun_eq_iff bs split: if_splits)
    with False e run inv2 same_geometry_trans [OF geo geo2] show ?thesis by auto
  qed
qed

definition admitted :: "int \<Rightarrow> int list \<Rightarrow> batch_scheduler \<Rightarrow> batch_scheduler" where
  "admitted sid rest s = (put_state sid ((state_of s sid)\<lparr>sq_phase := Prefilling\<rparr>) s)
     \<lparr>bs_active := bs_active s @ [sid], bs_waiting := rest\<rparr>"

lemma budget_total:
  assumes "budget_ok bs q" and "0 < bs"
  shows "0 < total_tokens q" "int32_ok (total_tokens q)"
  using assms int32_ok_between [of "total_tokens q + bs" "total_tokens q"]
  by (auto simp: budget_ok_def total_tokens_def)

lemma admitted_inv:
  assumes inv: "sched_inv (c, s)" and w: "bs_waiting s = sid # rest" and room: "int (length (bs_active s)) < bs_max_batch_size s"
    and inv2: "paged_inv c2" and geo: "same_geometry c c2"
    and seqs: "\<forall>t. t \<noteq> sid \<longrightarrow> seq_of c2 t = seq_of c t"
    and cap: "total_tokens (state_of s sid) \<le> int (length (ps_blocks (seq_of c2 sid))) * pc_block_size c"
  shows "sched_inv (c2, admitted sid rest s)"
proof -
  let ?s = "admitted sid rest s"
  note d = sched_invD [OF inv]
  have l: "live s sid" using d(6) w by simp
  have bs: "pc_block_size c2 = pc_block_size c" using geo by (simp add: same_geometry_def)
  have states: "bs_states ?s = (bs_states s)[nat sid := (state_of s sid)\<lparr>sq_phase := Prefilling\<rparr>]"
    using known_index(1) [OF d(2) live_known [OF l]] by (simp add: admitted_def put_state_def)
  have i: "nat sid < length (bs_states s)" "0 \<le> sid" using l by (simp_all add: live_def)
  have at: "state_of ?s t = (if t = sid then (state_of s sid)\<lparr>sq_phase := Prefilling\<rparr> else state_of s t)" if "0 \<le> t" for t
    using i that by (simp add: states nth_list_update eq_nat_nat_iff)
  have live': "live ?s t = live s t" for t
    using at l by (cases "0 \<le> t") (auto simp: live_def states)
  have lists: "bs_waiting ?s = rest" "bs_active ?s = bs_active s @ [sid]" "bs_next_id ?s = bs_next_id s"
    "bs_max_batch_size ?s = bs_max_batch_size s" "known ?s t = known s t" for t
    by (simp_all add: admitted_def put_state_def known_def)
  have nonneg: "known s t \<Longrightarrow> 0 \<le> t" "live s t \<Longrightarrow> 0 \<le> t" for t by (simp_all add: live_def known_def)
  have "ids_ok ?s" using d(2) l i by (auto simp: ids_ok_def lists states nth_list_update live_def)
  moreover have "queues_ok ?s"
    using d(3) w at nonneg room live_known [OF l] unfolding queues_ok_def lists live' by (auto simp: l)
  moreover have "budget_ok (pc_block_size c2) (state_of ?s t)" if "held ?s t" for t
  proof -
    have "held s t" using that live' l by (auto simp: held_def lists)
    then have "budget_ok (pc_block_size c) (state_of s t)" "0 \<le> t" using d(5,7) nonneg by (auto simp: held_def)
    moreover have "sq_phase (state_of s sid) = Waiting" using d(3) w by (simp add: queues_ok_def)
    ultimately show ?thesis using at [of t] by (auto simp: bs budget_ok_def total_tokens_def)
  qed
  moreover have "blocks_ok c2 ?s"
    unfolding blocks_ok_def lists
  proof (intro conjI ballI allI impI)
    fix t assume t: "t \<in> set (bs_active s @ [sid])"
    then have "0 \<le> t" using d(7) w nonneg by auto
    then have "total_tokens (state_of ?s t) = total_tokens (state_of s t)" using at by (simp add: total_tokens_def)
    with t cap seqs d(4) bs w d(3) show "total_tokens (state_of ?s t) \<le> int (length (ps_blocks (seq_of c2 t))) * pc_block_size c2"
      by (cases "t = sid") (auto simp: blocks_ok_def)
  next
    fix t assume "t \<notin> set (bs_active s @ [sid])"
    then show "ps_blocks (seq_of c2 t) = []" using seqs d(4) by (simp add: blocks_ok_def)
  qed
  ultimately show ?thesis using inv2 by (simp add: sched_inv_def)
qed

lemma same_sequences_inv:
  assumes inv: "sched_inv (c, s)" and "paged_inv c2" "same_geometry c c2" "seq_of c2 = seq_of c"
  shows "sched_inv (c2, s)"
  using assms by (auto simp: sched_inv_def blocks_ok_def same_geometry_def)

text \<open>One round of the loop: the head of the queue is admitted, or admission stops.\<close>

lemma admit_step:
  assumes inv: "sched_inv (c, s)" and w: "bs_waiting s = sid # rest" and room: "int (length (bs_active s)) < bs_max_batch_size s"
  shows "if can_hold c sid (total_tokens (state_of s sid))
     then \<exists>c2. admit_loop (sid # rest) c s = admit_loop rest c2 (admitted sid rest s) \<and> sched_inv (c2, admitted sid rest s)
       \<and> same_geometry c c2 \<and> (\<forall>t. t \<noteq> sid \<longrightarrow> seq_of c2 t = seq_of c t)
       \<and> takes_blocks (blocks_needed (total_tokens (state_of s sid)) (pc_block_size c)) c sid c2
     else \<exists>c2. admit_loop (sid # rest) c s = (make_ok, c2, s) \<and> sched_inv (c2, s)
       \<and> same_geometry c c2 \<and> pc_free_blocks c2 = pc_free_blocks c \<and> seq_of c2 = seq_of c"
proof -
  note d = sched_invD [OF inv]
  have l: "live s sid" using d(6) w by simp
  then have sid: "0 \<le> sid" by (simp add: live_def)
  have bs: "0 < pc_block_size c" using paged_invD(1) [OF d(1)] by (simp add: dims_ok_def)
  have budget: "budget_ok (pc_block_size c) (state_of s sid)" using d(5) l by (simp add: held_def)
  note b = budget_total [OF budget bs]
  have i32: "int32_ok (total_tokens (state_of s sid) + pc_block_size c)" using budget by (simp add: budget_ok_def)
  obtain c1 r c2 where e: "ensure_sequence sid c = (make_ok, c1)"
    and res: "reserve_sequence sid (total_tokens (state_of s sid)) c1 = (r, c2)"
    and inv2: "paged_inv c2" and geo: "same_geometry c c2"
    and out: "if can_hold c sid (total_tokens (state_of s sid))
       then r = make_ok \<and> (\<forall>t. t \<noteq> sid \<longrightarrow> seq_of c2 t = seq_of c t)
         \<and> total_tokens (state_of s sid) \<le> int (length (ps_blocks (seq_of c2 sid))) * pc_block_size c
         \<and> (ps_blocks (seq_of c sid) = [] \<longrightarrow> takes_blocks (blocks_needed (total_tokens (state_of s sid)) (pc_block_size c)) c sid c2)
       else r = Inl (out_of_range ''PagedKVCache does not have enough free blocks'')
         \<and> pc_free_blocks c2 = pc_free_blocks c \<and> seq_of c2 = seq_of c"
    using ensure_then_reserve [OF d(1) sid _ i32] b(1) by auto
  have eq: "admit_loop (sid # rest) c s = (case r of
      Inl e \<Rightarrow> (if is_status e then (make_ok, c2, s) else (Inl e, c2, s))
    | Inr _ \<Rightarrow> admit_loop rest c2 (admitted sid rest s))"
    using room known_index(2) [OF d(2) live_known [OF l]] e res b(2) unfolding admit_loop.simps
    by (cases r) (simp_all add: cint32_ok total_tokens_def admitted_def put_state_def Let_def not_le)
  show ?thesis
  proof (cases "can_hold c sid (total_tokens (state_of s sid))")
    case True
    have "sid \<notin> set (bs_active s)" using d(3) w by (auto simp: queues_ok_def)
    then have "ps_blocks (seq_of c sid) = []" using d(4) by (simp add: blocks_ok_def)
    with True show ?thesis using out eq geo admitted_inv [OF inv w room inv2 geo] by auto
  next
    case False
    then show ?thesis using out eq geo same_sequences_inv [OF inv inv2 geo] by auto
  qed
qed

text \<open>The loop admits a prefix of the queue, in order, as long as it can.\<close>

definition admits :: "'f paged_cache \<Rightarrow> batch_scheduler \<Rightarrow> int list \<Rightarrow> 'f paged_cache \<Rightarrow> batch_scheduler \<Rightarrow> bool" where
  "admits c s xs c2 s2 \<longleftrightarrow>
     (\<forall>t. t \<notin> set xs \<longrightarrow> seq_of c2 t = seq_of c t \<and> (0 \<le> t \<longrightarrow> state_of s2 t = state_of s t))
     \<and> (\<forall>t \<in> set xs. int (length (ps_blocks (seq_of c2 t))) = blocks_needed (total_tokens (state_of s t)) (pc_block_size c)
          \<and> state_of s2 t = (state_of s t)\<lparr>sq_phase := Prefilling\<rparr>)
     \<and> int (length (pc_free_blocks c2)) = int (length (pc_free_blocks c))
          - (\<Sum>t \<leftarrow> xs. blocks_needed (total_tokens (state_of s t)) (pc_block_size c))"

lemma admits_Cons:
  assumes "admits c1 (admitted sid rest s) xs c2 s2" and "sid \<notin> set xs" and "known s sid" and "size_of_int sid = nat sid"
    and "pc_block_size c1 = pc_block_size c" and "\<forall>t \<in> set xs. 0 \<le> t" and "\<forall>t. t \<noteq> sid \<longrightarrow> seq_of c1 t = seq_of c t"
    and "takes_blocks (blocks_needed (total_tokens (state_of s sid)) (pc_block_size c)) c sid c1"
  shows "admits c s (sid # xs) c2 s2"
proof -
  have at: "state_of (admitted sid rest s) t = (if t = sid then (state_of s sid)\<lparr>sq_phase := Prefilling\<rparr> else state_of s t)" if "0 \<le> t" for t
    using assms(3,4) that by (simp add: admitted_def put_state_def known_def nth_list_update eq_nat_nat_iff)
  have sid: "0 \<le> sid" using assms(3) by (simp add: known_def)
  have same: "state_of (admitted sid rest s) t = state_of s t" if "t \<in> set xs" for t
    using at assms(2,6) that by auto
  then have "(\<Sum>t \<leftarrow> xs. blocks_needed (total_tokens (state_of (admitted sid rest s) t)) (pc_block_size c))
    = (\<Sum>t \<leftarrow> xs. blocks_needed (total_tokens (state_of s t)) (pc_block_size c))"
    by (intro arg_cong [where f = sum_list] map_cong) simp_all
  then show ?thesis using assms(1,2,5,7,8) at sid same by (auto simp: admits_def takes_blocks_def)
qed

lemma admit_loop_spec:
  assumes "sched_inv (c, s)" and "bs_waiting s = w" and "0 < bs_max_batch_size s"
  shows "\<exists>k c2 s2. admit_loop w c s = (make_ok, c2, s2) \<and> sched_inv (c2, s2) \<and> same_geometry c c2
    \<and> k \<le> length w \<and> bs_active s2 = bs_active s @ take k w \<and> bs_waiting s2 = drop k w
    \<and> bs_max_batch_size s2 = bs_max_batch_size s \<and> admits c s (take k w) c2 s2
    \<and> (bs_waiting s2 = [] \<or> bs_max_batch_size s2 \<le> int (length (bs_active s2))
       \<or> \<not> can_hold c2 (hd (bs_waiting s2)) (total_tokens (state_of s2 (hd (bs_waiting s2)))))"
  using assms
proof (induction w arbitrary: c s)
  case Nil
  then show ?case by (intro exI [of _ 0] exI [of _ c] exI [of _ s]) (simp add: admits_def)
next
  case (Cons sid rest)
  consider (full) "bs_max_batch_size s \<le> int (length (bs_active s))" | (room) "int (length (bs_active s)) < bs_max_batch_size s"
    by linarith
  then show ?case
  proof cases
    case full
    with Cons.prems show ?thesis by (intro exI [of _ 0] exI [of _ c] exI [of _ s]) (simp add: admits_def)
  next
    case room
    note step = admit_step [OF Cons.prems(1,2) room]
    note d = sched_invD [OF Cons.prems(1)]
    show ?thesis
    proof (cases "can_hold c sid (total_tokens (state_of s sid))")
      case True
      with step obtain c1 where eq: "admit_loop (sid # rest) c s = admit_loop rest c1 (admitted sid rest s)"
        and inv1: "sched_inv (c1, admitted sid rest s)" and geo: "same_geometry c c1"
        and frame: "\<forall>t. t \<noteq> sid \<longrightarrow> seq_of c1 t = seq_of c t"
        and takes: "takes_blocks (blocks_needed (total_tokens (state_of s sid)) (pc_block_size c)) c sid c1" by auto
      have f: "bs_waiting (admitted sid rest s) = rest" "bs_active (admitted sid rest s) = bs_active s @ [sid]"
        "bs_max_batch_size (admitted sid rest s) = bs_max_batch_size s"
        by (simp_all add: admitted_def put_state_def)
      from Cons.IH [OF inv1 f(1)] f(3) Cons.prems(3) obtain k c2 s2 where
        "admit_loop rest c1 (admitted sid rest s) = (make_ok, c2, s2)" "sched_inv (c2, s2)" "same_geometry c1 c2"
        "k \<le> length rest" "bs_active s2 = bs_active s @ sid # take k rest" "bs_waiting s2 = drop k rest"
        "bs_max_batch_size s2 = bs_max_batch_size s"
        and more: "admits c1 (admitted sid rest s) (take k rest) c2 s2"
        and "bs_waiting s2 = [] \<or> bs_max_batch_size s2 \<le> int (length (bs_active s2))
           \<or> \<not> can_hold c2 (hd (bs_waiting s2)) (total_tokens (state_of s2 (hd (bs_waiting s2))))"
        by (auto simp: f)
      moreover have "sid \<notin> set (take k rest)" using d(3) Cons.prems(2) by (auto simp: queues_ok_def dest: in_set_takeD)
      moreover have "known s sid" using d(7) Cons.prems(2) by simp
      moreover have "\<forall>t \<in> set (take k rest). 0 \<le> t" using d(7) Cons.prems(2) by (auto simp: known_def dest: in_set_takeD)
      moreover have "pc_block_size c1 = pc_block_size c" using geo by (simp add: same_geometry_def)
      ultimately have "admits c s (sid # take k rest) c2 s2"
        using admits_Cons [OF more] known_index(1) [OF d(2)] frame takes by blast
      then show ?thesis using eq same_geometry_trans [OF geo] \<open>same_geometry c1 c2\<close> \<open>sched_inv (c2, s2)\<close>
          \<open>admit_loop rest c1 (admitted sid rest s) = (make_ok, c2, s2)\<close> \<open>k \<le> length rest\<close> \<open>bs_active s2 = bs_active s @ sid # take k rest\<close>
          \<open>bs_waiting s2 = drop k rest\<close> \<open>bs_max_batch_size s2 = bs_max_batch_size s\<close>
          \<open>bs_waiting s2 = [] \<or> bs_max_batch_size s2 \<le> int (length (bs_active s2))
             \<or> \<not> can_hold c2 (hd (bs_waiting s2)) (total_tokens (state_of s2 (hd (bs_waiting s2))))\<close>
        by (intro exI [of _ "Suc k"] exI [of _ c2] exI [of _ s2]) simp
    next
      case False
      with step obtain c2 where "admit_loop (sid # rest) c s = (make_ok, c2, s)" "sched_inv (c2, s)"
        "same_geometry c c2" "pc_free_blocks c2 = pc_free_blocks c" "seq_of c2 = seq_of c" by auto
      moreover from this False have "\<not> can_hold c2 sid (total_tokens (state_of s sid))"
        by (simp add: can_hold_def same_geometry_def)
      ultimately show ?thesis using Cons.prems(2)
        by (intro exI [of _ 0] exI [of _ c2] exI [of _ s]) (simp add: admits_def)
    qed
  qed
qed

section \<open>Eviction and collection\<close>

lemma evict_one:
  assumes inv: "sched_inv (c, s)" and active: "bs_active s = kept @ sid # sids"
    and fin: "sq_phase (state_of s sid) = Finished"
  shows "sched_inv (snd (free_sequence sid c), s\<lparr>bs_active := kept @ sids\<rparr>)"
    "same_geometry c (snd (free_sequence sid c))"
proof -
  let ?s = "s\<lparr>bs_active := kept @ sids\<rparr>"
  obtain r c' where run: "free_sequence sid c = (r, c')" by (cases "free_sequence sid c")
  note d = sched_invD [OF inv]
  note keep = free_sequence_inv [OF d(1) run] and frame = free_sequence_frame [OF d(1) run]
  have ids: "ids_ok ?s" using d(2) by (simp add: ids_ok_def)
  have live': "live ?s t = live s t" "known ?s t = known s t" for t by (simp_all add: live_def known_def)
  have "sid \<notin> set (kept @ sids)" using d(3) active by (auto simp: queues_ok_def)
  then have q: "queues_ok ?s" "blocks_ok c' ?s"
    using d(3,4) active fin frame keep
    by (auto simp: queues_ok_def blocks_ok_def live' same_geometry_def)
  show "sched_inv (snd (free_sequence sid c), ?s)"
    using ids q d(5) keep run active by (auto simp: sched_inv_def held_def live' same_geometry_def)
  show "same_geometry c (snd (free_sequence sid c))" using keep run by simp
qed

lemma evict_loop_spec:
  assumes "sched_inv (c, s\<lparr>bs_active := kept @ sids\<rparr>)"
  shows "\<exists>c2. evict_loop kept sids c s = (make_ok, c2, s\<lparr>bs_active := kept @ filter (\<lambda>sid. sq_phase (state_of s sid) \<noteq> Finished) sids\<rparr>)
    \<and> sched_inv (c2, s\<lparr>bs_active := kept @ filter (\<lambda>sid. sq_phase (state_of s sid) \<noteq> Finished) sids\<rparr>)
    \<and> same_geometry c c2"
  using assms
proof (induction sids arbitrary: kept c)
  case Nil
  then show ?case by (intro exI [of _ c]) simp
next
  case (Cons sid sids)
  let ?s = "s\<lparr>bs_active := kept @ sid # sids\<rparr>"
  note d = sched_invD [OF Cons.prems]
  have l: "known ?s sid" using d(7) by simp
  have at: "seq_state_at sid s = Inr (state_of s sid)"
    using known_index(2) [OF d(2) l] by (simp add: seq_state_at_def split: if_splits)
  show ?case
  proof (cases "sq_phase (state_of s sid) = Finished")
    case True
    note one = evict_one [OF Cons.prems, of kept sid sids]
    from True Cons.IH [of "snd (free_sequence sid c)" kept] one at show ?thesis
      by (auto intro: same_geometry_trans)
  next
    case False
    with Cons.IH [of c "kept @ [sid]"] Cons.prems at show ?thesis by auto
  qed
qed

lemma collect_inv:
  assumes inv: "sched_inv (c, s)"
  shows "sched_inv (c, snd (collect_finished s))"
    "live (snd (collect_finished s)) t \<longleftrightarrow> live s t \<and> sq_phase (state_of s t) \<noteq> Finished"
    "known s t \<Longrightarrow> \<not> (live s t \<and> sq_phase (state_of s t) = Finished) \<Longrightarrow> state_of (snd (collect_finished s)) t = state_of s t"
proof -
  let ?s = "snd (collect_finished s)"
  note d = sched_invD [OF inv]
  have lists: "bs_waiting ?s = bs_waiting s" "bs_active ?s = bs_active s" "bs_max_batch_size ?s = bs_max_batch_size s"
    "bs_next_id ?s = bs_next_id s" "length (bs_states ?s) = length (bs_states s)" "known ?s t = known s t" for t
    by (simp_all add: collect_finished_def known_def)
  have at: "bs_states ?s ! i = (if collectable (bs_states s ! i)
      then (bs_states s ! i)\<lparr>sq_sequence_id := -1\<rparr> else bs_states s ! i)" if "i < length (bs_states s)" for i
    using that by (simp add: collect_finished_def)
  have fields: "sq_phase (state_of ?s t) = sq_phase (state_of s t)" "sq_generated_tokens (state_of ?s t) = sq_generated_tokens (state_of s t)"
    "sq_max_tokens (state_of ?s t) = sq_max_tokens (state_of s t)" "sq_prompt_tokens (state_of ?s t) = sq_prompt_tokens (state_of s t)"
    if "known s t" for t
    using at [of "nat t"] that by (simp_all add: known_def)
  have live': "live ?s t \<longleftrightarrow> live s t \<and> sq_phase (state_of s t) \<noteq> Finished" for t
    using at [of "nat t"] by (auto simp: live_def lists collectable_def split: if_splits)
  then show "live ?s t \<longleftrightarrow> live s t \<and> sq_phase (state_of s t) \<noteq> Finished" .
  show "state_of ?s t = state_of s t" if k: "known s t" and other: "\<not> (live s t \<and> sq_phase (state_of s t) = Finished)"
  proof -
    have i: "nat t < length (bs_states s)" "0 \<le> t" using k by (simp_all add: known_def)
    then have "sq_sequence_id (state_of s t) = -1 \<or> sq_sequence_id (state_of s t) = int (nat t)" using d(2) unfolding ids_ok_def by blast
    then have "\<not> collectable (state_of s t)" using other i by (auto simp: live_def collectable_def)
    with at [OF i(1)] show ?thesis by simp
  qed
  have "ids_ok ?s" using d(2) at by (auto simp: ids_ok_def lists)
  moreover have "queues_ok ?s"
  proof -
    have w: "live ?s t \<and> sq_phase (state_of ?s t) = Waiting \<and> sq_generated_tokens (state_of ?s t) = []"
      if "t \<in> set (bs_waiting s)" for t
      using d(3) d(7) [of t] that by (simp add: queues_ok_def live' fields)
    have a: "known s t \<and> sq_phase (state_of ?s t) \<noteq> Waiting \<and> (live ?s t \<or> sq_phase (state_of ?s t) = Finished)"
      if "t \<in> set (bs_active s)" for t
      using d(3) d(7) [of t] that by (auto simp: queues_ok_def live' fields)
    have f: "sq_phase (state_of ?s t) = Finished" if "live ?s t" "t \<notin> set (bs_waiting s @ bs_active s)" for t
      using d(3) that by (simp add: queues_ok_def live' fields live_known)
    show ?thesis unfolding queues_ok_def lists using d(3) w a f by (simp add: queues_ok_def)
  qed
  moreover have "blocks_ok c ?s" using d(4,7) fields by (simp add: blocks_ok_def lists total_tokens_def)
  moreover have "budget_ok (pc_block_size c) (state_of ?s t)" if "held ?s t" for t
  proof -
    have h: "held s t" using that by (auto simp: held_def live' lists)
    then have "known s t" using d(7) [of t] live_known by (auto simp: held_def)
    then show ?thesis using d(5) [OF h] by (simp add: budget_ok_def total_tokens_def fields)
  qed
  ultimately show "sched_inv (c, ?s)" using d(1) by (simp add: sched_inv_def)
qed

section \<open>The invariant holds\<close>

lemma client_call_inv:
  assumes inv: "sched_inv (c, s)" and ok: "batch_call_ok (c, s) (ClientCall op)"
  shows "sched_inv (snd (paged_exec op c), s)"
proof -
  obtain r c' where run: "paged_exec op c = (r, c')" by (cases "paged_exec op c")
  obtain sid where sid: "sid \<in> set (bs_active s)" "cache_subject op = Some sid" and call: "paged_call_ok c op"
    using ok by auto
  note d = sched_invD [OF inv]
  note keep = paged_exec_keeps [OF d(1) call run]
  have bs: "pc_block_size c' = pc_block_size c" "0 < pc_block_size c"
    using keep paged_invD(1) [OF d(1)] by (simp_all add: same_geometry_def dims_ok_def)
  have "touches_only sid c c'" using paged_exec_touches [OF d(1) call sid(2)] run by simp
  then have grow: "length (ps_blocks (seq_of c t)) \<le> length (ps_blocks (seq_of c' t))"
    and other: "t \<noteq> sid \<Longrightarrow> seq_of c' t = seq_of c t" for t
    by (cases "t = sid"; simp add: touches_only_def)+
  have "int (length (ps_blocks (seq_of c t))) * pc_block_size c \<le> int (length (ps_blocks (seq_of c' t))) * pc_block_size c" for t
    using bs grow by (simp add: mult_right_mono)
  moreover have "ps_blocks (seq_of c' t) = []" if "t \<notin> set (bs_active s)" for t
    using that other [of t] sid(1) d(4) by (cases "t = sid") (auto simp: blocks_ok_def)
  ultimately have "blocks_ok c' s" using d(4) by (auto simp: blocks_ok_def bs intro: order_trans)
  then show ?thesis using d keep run bs by (simp add: sched_inv_def)
qed

definition sched_start :: "('f :: zero) paged_cache \<times> batch_scheduler \<Rightarrow> bool" where
  "sched_start cs \<longleftrightarrow> paged_start (fst cs) \<and> (\<exists>mb. snd cs = new_batch_scheduler mb)"

lemma paged_start_empty:
  fixes c :: "('f :: zero) paged_cache"
  assumes "paged_start c"
  shows "pc_sequences c = []"
proof -
  from assms obtain nl nkv hdim bs mb and c0 :: "'f paged_cache"
    where "init_args_ok nl nkv hdim bs mb" "paged_init nl nkv hdim bs mb c0 = (make_ok, c)"
    by (auto simp: paged_start_def)
  then show ?thesis using paged_init_ok [of nl nkv hdim bs mb c0] by auto
qed

lemma sched_start_inv: "sched_start cs \<Longrightarrow> sched_inv cs"
  by (auto simp: sched_start_def sched_inv_def new_batch_scheduler_def ids_ok_def queues_ok_def live_def held_def
      blocks_ok_def seq_of_def known_sequence_def paged_start_empty intro: paged_start_inv)

lemma admit_waiting_inv:
  assumes "sched_inv (c, s)"
  shows "sched_inv (snd (admit_waiting c s))"
proof (cases "0 < bs_max_batch_size s")
  case True
  with admit_loop_spec [OF assms refl True] show ?thesis by (auto simp: admit_waiting_def)
next
  case False
  with assms show ?thesis by (simp add: admit_waiting_def)
qed

lemma batch_exec_inv:
  assumes "sched_inv cs" and "batch_call_ok cs op"
  shows "sched_inv (batch_exec op cs)"
proof -
  obtain c s where cs: "cs = (c, s)" by (cases cs)
  note inv = assms(1) [unfolded cs] and ok = assms(2) [unfolded cs]
  note d = sched_invD [OF inv]
  have act: "seq_state_at sid s = Inr (state_of s sid) \<and> (live s sid \<or> sq_phase (state_of s sid) = Finished)
      \<and> budget_ok (pc_block_size c) (state_of s sid) \<and> sq_phase (state_of s sid) \<noteq> Waiting" if "sid \<in> set (bs_active s)" for sid
    using that d(3,5,7) known_index(2) [OF d(2)] by (auto simp: queues_ok_def held_def)
  show ?thesis
  proof (cases op)
    case (Submit rq)
    then show ?thesis using submit_inv [OF inv] ok cs by simp
  next
    case Admit
    then show ?thesis using admit_waiting_inv [OF inv] cs by simp
  next
    case (PrefillProgress sid n)
    with ok act [of sid] show ?thesis
      by (auto simp: cs mark_prefill_progress_def budget_ok_def Let_def intro!: update_state_inv [OF inv])
  next
    case (TokenGenerated sid t)
    with ok act [of sid] show ?thesis
      by (auto simp: cs mark_token_generated_def budget_ok_def Let_def intro!: update_state_inv [OF inv])
  next
    case (MarkFinished sid)
    with ok act [of sid] show ?thesis
      by (auto simp: cs mark_finished_def budget_ok_def intro!: update_state_inv [OF inv])
  next
    case Evict
    have "s\<lparr>bs_active := [] @ bs_active s\<rparr> = s" by simp
    with Evict evict_loop_spec [where c = c and s = s and kept = "[]" and sids = "bs_active s"] inv cs show ?thesis by (auto simp: evict_finished_def)
  next
    case Collect
    with collect_inv(1) [OF inv] cs show ?thesis by simp
  next
    case (ClientCall op)
    with client_call_inv [OF inv] ok cs show ?thesis by simp
  qed
qed

interpretation sched: invariant_machine sched_start batch_call_ok batch_exec sched_inv
  by unfold_locales (rule sched_start_inv, assumption, rule batch_exec_inv)

text \<open>What the call answers; \<open>collect_finished\<close> and the operations without a status answer \<open>Ok\<close>.\<close>

fun batch_status :: "('f :: zero) batch_op \<Rightarrow> 'f paged_cache \<times> batch_scheduler \<Rightarrow> unit result" where
  "batch_status (Submit rq) (c, s) = fst (submit rq s)"
| "batch_status Admit (c, s) = fst (admit_waiting c s)"
| "batch_status (PrefillProgress sid n) (c, s) = fst (mark_prefill_progress sid n s)"
| "batch_status (TokenGenerated sid t) (c, s) = fst (mark_token_generated sid t s)"
| "batch_status (MarkFinished sid) (c, s) = fst (mark_finished sid s)"
| "batch_status Evict (c, s) = fst (evict_finished c s)"
| "batch_status Collect (c, s) = make_ok"
| "batch_status (ClientCall op) (c, s) = fst (paged_exec op c)"

lemma batch_status_defined:
  assumes "sched_inv (c, s)" and "batch_call_ok (c, s) op"
  shows "defined_result (batch_status op (c, s))"
proof -
  note d = sched_invD [OF assms(1)]
  have at: "seq_state_at sid s = Inr (state_of s sid)" if "sid \<in> set (bs_active s)" for sid
    using d(7) [of sid] that known_index(2) [OF d(2)] by simp
  show ?thesis
  proof (cases op)
    case (Submit rq)
    show ?thesis
    proof (cases "rq_prompt_tokens rq = [] \<or> rq_max_tokens rq \<le> 0")
      case True
      then show ?thesis by (auto simp: Submit submit_def)
    next
      case False
      then show ?thesis using submit_eq [OF d(2)] assms(2) by (auto simp: Submit Let_def)
    qed
  next
    case Admit
    then show ?thesis using admit_loop_spec [OF assms(1) refl] by (cases "0 < bs_max_batch_size s") (auto simp: admit_waiting_def)
  next
    case (PrefillProgress sid n)
    then show ?thesis using assms(2) at [of sid] by (simp add: mark_prefill_progress_def Let_def)
  next
    case (TokenGenerated sid t)
    then show ?thesis using assms(2) at [of sid] by (simp add: mark_token_generated_def Let_def)
  next
    case (MarkFinished sid)
    then show ?thesis using assms(2) at [of sid] by (simp add: mark_finished_def)
  next
    case Evict
    then show ?thesis
      using evict_loop_spec [where c = c and s = s and kept = "[]" and sids = "bs_active s"] assms(1) by (auto simp: evict_finished_def)
  next
    case Collect
    then show ?thesis by simp
  next
    case (ClientCall op')
    obtain r c' where run: "paged_exec op' c = (r, c')" by (cases "paged_exec op' c")
    have "paged_call_ok c op'" using assms(2) ClientCall by simp
    from paged_exec_keeps [OF d(1) this run] show ?thesis by (simp add: ClientCall run)
  qed
qed

end
