(* ===== verification/Batch_Scheduler_Properties.thy ===== *)
theory Batch_Scheduler_Properties
  imports Batch_Scheduler_Runs
begin

text \<open>
  The contract of continuous batching, with a small run as witness, and two behaviours of
  the scheduler that a client has to know.
\<close>

section \<open>A small run\<close>

definition demo_request :: sequence_request where
  "demo_request = \<lparr>rq_sequence_id = -1, rq_prompt_tokens = [7, 8], rq_max_tokens = 1\<rparr>"

definition demo_submitted :: "int paged_cache \<times> batch_scheduler" where
  "demo_submitted = batch_exec (Submit demo_request) (demo_cache, new_batch_scheduler 2)"

definition demo_admitted :: "int paged_cache \<times> batch_scheduler" where
  "demo_admitted = batch_exec Admit demo_submitted"

lemma demo_new_reachable: "sched.reachable (demo_cache, new_batch_scheduler mb)"
  by (rule sched.reachable_start) (auto simp: sched_start_def demo_start)

lemma demo_submit_ok: "batch_call_ok (demo_cache, new_batch_scheduler 2) (Submit demo_request)"
  by (simp add: demo_request_def demo_cache_eval new_batch_scheduler_def int32_ok_def)

lemma demo_submitted_reachable: "sched.reachable demo_submitted"
  using sched.reachable_exec [OF demo_new_reachable demo_submit_ok] by (simp only: demo_submitted_def)

lemma demo_admitted_reachable: "sched.reachable demo_admitted"
proof -
  have "batch_call_ok demo_submitted Admit" by (cases demo_submitted) simp
  from sched.reachable_exec [OF demo_submitted_reachable this] show ?thesis by (simp only: demo_admitted_def)
qed

definition demo_state :: "seq_phase \<Rightarrow> seq_state" where
  "demo_state p = \<lparr>sq_sequence_id = 0, sq_phase = p, sq_prompt_tokens = [7, 8],
     sq_generated_tokens = [], sq_max_tokens = 1, sq_prefilled_tokens = 0\<rparr>"

lemma demo_submitted_eval:
  "demo_submitted = (demo_cache, \<lparr>bs_max_batch_size = 2, bs_states = [demo_state Waiting],
     bs_waiting = [0], bs_active = [], bs_next_id = 1\<rparr>)"
  by (simp add: demo_submitted_def submit_def demo_request_def new_batch_scheduler_def cint32_ok vec_resize_def
      empty_state_def demo_state_def Let_def)

lemma demo_admitted_eval:
  "demo_admitted = (demo_cache\<lparr>pc_free_blocks := [2], pc_block_used := [True, True, False],
      pc_sequences := [\<lparr>ps_length = 0, ps_blocks = [0, 1]\<rparr>]\<rparr>,
    \<lparr>bs_max_batch_size = 2, bs_states = [demo_state Prefilling], bs_waiting = [], bs_active = [0], bs_next_id = 1\<rparr>)"
  by (simp add: demo_admitted_def demo_submitted_eval admit_waiting_def seq_state_at_def demo_state_def
      ensure_sequence_def demo_cache_eval pc_initialized_def vec_resize_def empty_seq_def cint32_ok int32_ok_def
      reserve_sequence_def ceil_div_int_def put_state_def numeral_2_eq_2 Let_def)

section \<open>Properties\<close>

text \<open>C27. Continuous batching keeps its books. In every state that a client reaches, from an initialised cache
  (\<open>init_args_ok\<close>) and a new scheduler, by any interleaving of
  submissions, admissions, progress, finishing, evictions, collections (before or after the eviction) and
  writes to the cache, as long as it reports progress for unfinished sequences of the batch only, finishes and writes sequences of the
  batch only, and gives no new request the id of one that was collected and not yet evicted (\<open>batch_call_ok\<close>, which also bounds the sums of
  lengths by \<open>INT_MAX\<close>): no id is queued or active twice, the batch is within its size, queued requests are live
  and active ones live or finished, no request exceeds its token budget, every active sequence owns blocks for its
  whole prompt and budget, blocks are owned by active sequences only, when all is done every block of the cache
  is free again, and no further such call throws or is undefined.\<close>

theorem continuous_batching_invariant:
  assumes "sched.reachable (c, s)"
  shows "distinct (bs_waiting s @ bs_active s) \<and> int (length (bs_active s)) \<le> max 0 (bs_max_batch_size s)
    \<and> (\<forall>sid \<in> set (bs_waiting s). live s sid)
    \<and> (\<forall>sid \<in> set (bs_active s). live s sid \<or> sq_phase (state_of s sid) = Finished)
    \<and> (\<forall>sid \<in> set (bs_waiting s @ bs_active s).
         int (length (sq_generated_tokens (state_of s sid))) \<le> sq_max_tokens (state_of s sid))
    \<and> (\<forall>sid \<in> set (bs_active s). int (length (sq_prompt_tokens (state_of s sid))) + sq_max_tokens (state_of s sid)
         \<le> int (length (ps_blocks (seq_of c sid))) * pc_block_size c)
    \<and> (\<forall>sid. ps_blocks (seq_of c sid) \<noteq> [] \<longrightarrow> sid \<in> set (bs_active s))
    \<and> (all_done s \<longrightarrow> pc_free_block_count c = pc_max_blocks c)
    \<and> (\<forall>op. batch_call_ok (c, s) op \<longrightarrow> defined_result (batch_status op (c, s)))"
proof -
  have inv: "sched_inv (c, s)" by (rule sched.reachable_inv [OF assms])
  note d = sched_invD [OF inv]
  have "pc_free_block_count c = pc_max_blocks c" if "all_done s"
  proof -
    have none: "ps_blocks (seq_of c sid) = []" for sid using that d(4) by (simp add: all_done_def blocks_ok_def)
    have "ps_blocks q = []" if "q \<in> set (pc_sequences c)" for q
    proof -
      from that obtain i where "i < length (pc_sequences c)" "q = pc_sequences c ! i" by (auto simp: in_set_conv_nth)
      with none [of "int i"] show ?thesis by (simp add: seq_of_def known_sequence_def)
    qed
    then have "owned_blocks c = []" by (auto simp: owned_blocks_def)
    then show ?thesis
      using blocks_conserved_length [OF paged_invD(2) [OF d(1)]] paged_invD(1) [OF d(1)]
      by (simp add: pc_free_block_count_def dims_ok_def)
  qed
  moreover have "int (length (sq_generated_tokens (state_of s sid))) \<le> sq_max_tokens (state_of s sid)"
    if "sid \<in> set (bs_waiting s @ bs_active s)" for sid
    using d(5,6) [of sid] that by (auto simp: budget_ok_def held_def)
  moreover have "distinct (bs_waiting s @ bs_active s)" "int (length (bs_active s)) \<le> max 0 (bs_max_batch_size s)"
    "\<forall>sid \<in> set (bs_waiting s). live s sid" "\<forall>sid \<in> set (bs_active s). live s sid \<or> sq_phase (state_of s sid) = Finished"
    using d(3) by (simp_all add: queues_ok_def)
  moreover have "int (length (sq_prompt_tokens (state_of s sid))) + sq_max_tokens (state_of s sid)
      \<le> int (length (ps_blocks (seq_of c sid))) * pc_block_size c" if "sid \<in> set (bs_active s)" for sid
    using d(4) that by (simp add: blocks_ok_def total_tokens_def)
  moreover have "sid \<in> set (bs_active s)" if "ps_blocks (seq_of c sid) \<noteq> []" for sid
    using d(4) that by (auto simp: blocks_ok_def)
  ultimately show ?thesis using batch_status_defined [OF inv] by blast
qed

theorem continuous_batching_invariant_witness:
  "2 + 1 \<le> int (length (ps_blocks (seq_of (fst demo_admitted) 0))) * 2"
proof -
  have "sched.reachable (fst demo_admitted, snd demo_admitted)" using demo_admitted_reachable by simp
  from continuous_batching_invariant [OF this] show ?thesis
    by (simp add: demo_admitted_eval demo_state_def demo_cache_eval)
qed

text \<open>C28. Admission is first come, first served, within its limits and as large as possible: in every state that
  calls within \<open>batch_call_ok\<close> reach, with a positive batch size, \<open>admit_waiting\<close> succeeds and moves a prefix of the waiting queue, in order, to the end of the batch, which stays within
  its size. Exactly the moved requests become \<open>Prefilling\<close> and get exactly the blocks that prompt and budget need,
  taken from the free blocks; every other sequence and request is untouched. It stops only when the queue is
  empty, the batch is full, or the free blocks that are left are too few for the prompt and budget of the next
  request.\<close>

theorem admission_is_fifo_and_maximal:
  assumes "sched.reachable (c, s)" and "0 < bs_max_batch_size s"
  shows "\<exists>k c2 s2. admit_waiting c s = (make_ok, c2, s2)
    \<and> bs_active s2 = bs_active s @ take k (bs_waiting s) \<and> bs_waiting s2 = drop k (bs_waiting s)
    \<and> int (length (bs_active s2)) \<le> bs_max_batch_size s
    \<and> (\<forall>sid \<in> set (take k (bs_waiting s)). state_of s2 sid = (state_of s sid)\<lparr>sq_phase := Prefilling\<rparr>
         \<and> int (length (ps_blocks (seq_of c2 sid))) = blocks_needed (total_tokens (state_of s sid)) (pc_block_size c))
    \<and> pc_free_block_count c2 = pc_free_block_count c
         - (\<Sum>sid \<leftarrow> take k (bs_waiting s). blocks_needed (total_tokens (state_of s sid)) (pc_block_size c))
    \<and> (\<forall>sid. 0 \<le> sid \<and> sid \<notin> set (take k (bs_waiting s)) \<longrightarrow> state_of s2 sid = state_of s sid \<and> seq_of c2 sid = seq_of c sid)
    \<and> (bs_waiting s2 = [] \<or> bs_max_batch_size s \<le> int (length (bs_active s2))
       \<or> pc_free_block_count c2 < blocks_needed (total_tokens (state_of s2 (hd (bs_waiting s2)))) (pc_block_size c))"
proof -
  have inv: "sched_inv (c, s)" by (rule sched.reachable_inv [OF assms(1)])
  from admit_loop_spec [OF inv refl assms(2)] obtain k c2 s2 where
    run: "admit_loop (bs_waiting s) c s = (make_ok, c2, s2)" and inv2: "sched_inv (c2, s2)" and geo: "same_geometry c c2"
    and lists: "bs_active s2 = bs_active s @ take k (bs_waiting s)" "bs_waiting s2 = drop k (bs_waiting s)"
    and mb: "bs_max_batch_size s2 = bs_max_batch_size s" and adm: "admits c s (take k (bs_waiting s)) c2 s2"
    and stop: "bs_waiting s2 = [] \<or> bs_max_batch_size s2 \<le> int (length (bs_active s2))
       \<or> \<not> can_hold c2 (hd (bs_waiting s2)) (total_tokens (state_of s2 (hd (bs_waiting s2))))" by blast
  have "ps_blocks (seq_of c2 (hd (bs_waiting s2))) = []" if "bs_waiting s2 \<noteq> []"
  proof -
    have "hd (bs_waiting s2) \<notin> set (bs_active s2)"
      using sched_invD(3) [OF inv2] that by (cases "bs_waiting s2") (auto simp: queues_ok_def)
    then show ?thesis using sched_invD(4) [OF inv2] by (simp add: blocks_ok_def)
  qed
  with stop have "bs_waiting s2 = [] \<or> bs_max_batch_size s \<le> int (length (bs_active s2))
      \<or> pc_free_block_count c2 < blocks_needed (total_tokens (state_of s2 (hd (bs_waiting s2)))) (pc_block_size c)"
    using geo by (auto simp: can_hold_def pc_free_block_count_def same_geometry_def mb)
  moreover have "int (length (bs_active s2)) \<le> bs_max_batch_size s"
    using sched_invD(3) [OF inv2] assms(2) mb by (simp add: queues_ok_def)
  moreover have "admit_waiting c s = (make_ok, c2, s2)" using run assms(2) by (simp add: admit_waiting_def)
  ultimately show ?thesis using lists adm
    by (intro exI [of _ k] exI [of _ c2] exI [of _ s2]) (simp add: admits_def pc_free_block_count_def)
qed

theorem admission_is_fifo_and_maximal_witness:
  "\<exists>k c2 s2. admit_waiting (fst demo_submitted) (snd demo_submitted) = (make_ok, c2, s2)
     \<and> bs_active s2 = take k [0]"
proof -
  have r: "sched.reachable (fst demo_submitted, snd demo_submitted)" using demo_submitted_reachable by simp
  have d: "0 < bs_max_batch_size (snd demo_submitted)" "bs_active (snd demo_submitted) = []"
    "bs_waiting (snd demo_submitted) = [0]"
    by (simp_all add: demo_submitted_eval)
  from admission_is_fifo_and_maximal [OF r d(1)] show ?thesis unfolding d by auto
qed

text \<open>C29. An admitted sequence never runs out of cache: as long as it stays active, any write of its
  tokens within its prompt and budget succeeds, whatever the other sequences have taken.\<close>

theorem admitted_writes_succeed:
  assumes "sched.reachable (c, s)" and "sid \<in> set (bs_active s)" and "valid_layer c layer"
    and "0 \<le> start" and "0 < n"
    and "start + n \<le> int (length (sq_prompt_tokens (state_of s sid))) + sq_max_tokens (state_of s sid)"
    and "nat n * kv_width c \<le> length k" and "nat n * kv_width c \<le> length v"
  shows "fst (write_tokens sid layer start (Some k) (Some v) n c) = make_ok"
proof -
  have inv: "sched_inv (c, s)" by (rule sched.reachable_inv [OF assms(1)])
  note d = sched_invD [OF inv]
  have l: "known s sid" and b: "budget_ok (pc_block_size c) (state_of s sid)"
    using d(5,7) assms(2) by (simp_all add: held_def)
  have bs: "0 < pc_block_size c" using paged_invD(1) [OF d(1)] by (simp add: dims_ok_def)
  have total: "start + n \<le> total_tokens (state_of s sid)" using assms(6) by (simp add: total_tokens_def)
  have n32: "int32_ok (start + n + pc_block_size c)"
    using b total assms(4,5) bs
      int32_ok_between [of "total_tokens (state_of s sid) + pc_block_size c" "start + n + pc_block_size c"]
    by (simp add: budget_ok_def)
  let ?m = "int (length (ps_blocks (seq_of c sid)))" and ?need = "blocks_needed (start + n) (pc_block_size c)"
  have "start + n \<le> ?m * pc_block_size c" using d(4) assms(2) total by (auto simp: blocks_ok_def)
  then have "?need \<le> ?m" using assms(4,5) bs by (intro blocks_needed_le) simp_all
  then have "can_hold c sid (start + n)" by (simp add: can_hold_def)
  moreover have "0 \<le> sid" using l by (simp add: known_def)
  ultimately obtain c2 where "write_tokens sid layer start (Some k) (Some v) n c = (make_ok, c2)"
    using write_tokens_spec [OF d(1) assms(3) _ assms(4,5) n32 assms(7,8)] by blast
  then show ?thesis by simp
qed

theorem admitted_writes_succeed_witness:
  "fst (write_tokens 0 0 2 (Some [1, 2]) (Some [3, 4]) 1 (fst demo_admitted)) = make_ok"
proof -
  have r: "sched.reachable (fst demo_admitted, snd demo_admitted)" using demo_admitted_reachable by simp
  show ?thesis
    by (rule admitted_writes_succeed [OF r])
      (simp_all add: demo_admitted_eval demo_state_def demo_cache_eval valid_layer_def pc_num_layers_def kv_width_def)
qed

text \<open>\<open>submit\<close> without an id always finds a free one: a request with a prompt and a positive budget is
  accepted, gets the next id, which no request in the scheduler has, and goes to the end of the queue with
  its own prompt and budget.\<close>

theorem submit_assigns_fresh_id:
  assumes "sched.reachable (c, s)" and "batch_call_ok (c, s) (Submit rq)" and "rq_sequence_id rq < 0"
    and "rq_prompt_tokens rq \<noteq> []" and "0 < rq_max_tokens rq"
  shows "\<exists>s'. submit rq s = (make_ok, s') \<and> \<not> live s (bs_next_id s)
    \<and> bs_waiting s' = bs_waiting s @ [bs_next_id s] \<and> bs_active s' = bs_active s
    \<and> state_of s' (bs_next_id s) = fresh_state (bs_next_id s) rq"
proof -
  have inv: "sched_inv (c, s)" by (rule sched.reachable_inv [OF assms(1)])
  note ids = sched_invD(2) [OF inv]
  have i32: "int32_ok (bs_next_id s + 1)" "int32_ok (rq_sequence_id rq + 1)" using assms(2) by simp_all
  let ?g = "grown (request_id rq s) (next_after rq s) s"
  have id: "request_id rq s = bs_next_id s" using assms(3) by (simp add: request_id_def)
  have run: "submit rq s = (make_ok, enqueue (bs_next_id s) rq ?g)"
    using submit_eq [OF ids i32 assms(4,5)] submit_auto_id [OF ids assms(3)] by (simp add: id Let_def)
  have "\<not> live s (bs_next_id s)" using ids by (auto simp: live_def ids_ok_def)
  moreover have "nat (bs_next_id s) < length (bs_states ?g)"
    using grown_inv(2) [OF inv request_id_bounds(3,2,4,1) [OF ids i32]] by (simp add: id)
  ultimately show ?thesis
    by (intro exI [of _ "enqueue (bs_next_id s) rq ?g"] conjI run) (simp_all add: enqueue_def grown_def)
qed

theorem submit_assigns_fresh_id_witness:
  "\<exists>s'. submit demo_request (new_batch_scheduler 2) = (make_ok, s') \<and> bs_waiting s' = [0]"
proof -
  have "rq_sequence_id demo_request < 0" "rq_prompt_tokens demo_request \<noteq> []" "0 < rq_max_tokens demo_request"
    by (simp_all add: demo_request_def)
  from submit_assigns_fresh_id [OF demo_new_reachable demo_submit_ok this] show ?thesis
    by (auto simp: new_batch_scheduler_def)
qed

text \<open>\<open>evict_finished\<close> removes exactly the finished sequences from the batch, keeps the order of the others
  and frees their blocks; \<open>collect_finished\<close> after it returns every finished request exactly once, with the
  prompt and the tokens that its state holds, and forgets it.\<close>

theorem evict_then_collect:
  assumes "sched.reachable (c, s)"
  shows "\<exists>c2 s2 outs s3. evict_finished c s = (make_ok, c2, s2) \<and> collect_finished s2 = (outs, s3)
    \<and> bs_active s2 = filter (\<lambda>sid. sq_phase (state_of s sid) \<noteq> Finished) (bs_active s)
    \<and> (\<forall>sid \<in> set (bs_active s). sid \<notin> set (bs_active s2) \<longrightarrow> ps_blocks (seq_of c2 sid) = [])
    \<and> distinct (map so_sequence_id outs)
    \<and> set outs = {output_of (state_of s sid) | sid. live s sid \<and> sq_phase (state_of s sid) = Finished}
    \<and> (\<forall>sid. live s3 sid \<longleftrightarrow> live s sid \<and> sq_phase (state_of s sid) \<noteq> Finished)"
proof -
  have inv: "sched_inv (c, s)" by (rule sched.reachable_inv [OF assms])
  let ?s2 = "s\<lparr>bs_active := filter (\<lambda>sid. sq_phase (state_of s sid) \<noteq> Finished) (bs_active s)\<rparr>"
  obtain c2 where run: "evict_finished c s = (make_ok, c2, ?s2)" and inv2: "sched_inv (c2, ?s2)"
    using evict_loop_spec [where c = c and s = s and kept = "[]" and sids = "bs_active s"] inv
    by (auto simp: evict_finished_def)
  let ?s3 = "snd (collect_finished ?s2)"
  have ids: "ids_ok s" by (rule sched_invD(2) [OF inv])
  have collectable_iff: "collectable (bs_states s ! i) \<longleftrightarrow> live s (int i) \<and> sq_phase (bs_states s ! i) = Finished"
    if "i < length (bs_states s)" for i
    using ids that by (auto simp: collectable_def live_def ids_ok_def)
  have outs: "set (fst (collect_finished ?s2)) = {output_of (state_of s sid) | sid. live s sid \<and> sq_phase (state_of s sid) = Finished}"
  proof (intro set_eqI iffI)
    fix x assume "x \<in> set (fst (collect_finished ?s2))"
    then obtain i where i: "i < length (bs_states s)" "collectable (bs_states s ! i)" "x = output_of (bs_states s ! i)"
      by (auto simp: collect_finished_def in_set_conv_nth)
    then show "x \<in> {output_of (state_of s sid) | sid. live s sid \<and> sq_phase (state_of s sid) = Finished}"
      using collectable_iff [OF i(1)] by (intro CollectI exI [of _ "int i"]) simp
  next
    fix x assume "x \<in> {output_of (state_of s sid) | sid. live s sid \<and> sq_phase (state_of s sid) = Finished}"
    then obtain sid where sid: "x = output_of (state_of s sid)" "live s sid" "sq_phase (state_of s sid) = Finished" by blast
    then have i: "nat sid < length (bs_states s)" "0 \<le> sid" by (simp_all add: live_def)
    with collectable_iff [OF i(1)] sid show "x \<in> set (fst (collect_finished ?s2))"
      by (auto simp: collect_finished_def)
  qed
  have "map so_sequence_id (map output_of (filter collectable (bs_states s)))
      = map (\<lambda>i. sq_sequence_id (bs_states s ! i)) (filter (\<lambda>i. collectable (bs_states s ! i)) [0..<length (bs_states s)])"
    unfolding filter_as_indices [of collectable] by (simp add: output_of_def comp_def)
  also have "\<dots> = map int (filter (\<lambda>i. collectable (bs_states s ! i)) [0..<length (bs_states s)])"
    using ids by (auto simp: ids_ok_def collectable_def)
  finally have "distinct (map so_sequence_id (fst (collect_finished ?s2)))"
    by (simp add: collect_finished_def distinct_map)
  moreover have "live ?s3 sid \<longleftrightarrow> live s sid \<and> sq_phase (state_of s sid) \<noteq> Finished" for sid
    using collect_inv(2) [OF inv2] by (simp add: live_def)
  moreover have "ps_blocks (seq_of c2 sid) = []" if "sid \<notin> set (bs_active ?s2)" for sid
    using sched_invD(4) [OF inv2] that by (simp add: blocks_ok_def)
  ultimately show ?thesis using run outs by (intro exI [of _ c2] exI [of _ ?s2] exI [of _ "fst (collect_finished ?s2)"] exI [of _ ?s3]) auto
qed

theorem evict_then_collect_witness:
  "\<exists>c2 s2. evict_finished (fst demo_admitted) (snd demo_admitted) = (make_ok, c2, s2) \<and> bs_active s2 = [0]"
proof -
  have r: "sched.reachable (fst demo_admitted, snd demo_admitted)" using demo_admitted_reachable by simp
  have "filter (\<lambda>sid. sq_phase (state_of (snd demo_admitted) sid) \<noteq> Finished) (bs_active (snd demo_admitted)) = [0]"
    by (simp add: demo_admitted_eval demo_state_def)
  with evict_then_collect [OF r] show ?thesis by metis
qed

section \<open>Two behaviours to know\<close>

text \<open>The request \<open>sid\<close> at the head of the queue, \<open>rest\<close> behind it, and a batch within \<open>A\<close>.\<close>

definition stuck :: "int \<Rightarrow> int list \<Rightarrow> int set \<Rightarrow> 'f paged_cache \<times> batch_scheduler \<Rightarrow> bool" where
  "stuck sid rest A cs \<longleftrightarrow> (case cs of (c, s) \<Rightarrow> sched_inv (c, s) \<and> (\<exists>w. bs_waiting s = sid # rest @ w)
     \<and> set (bs_active s) \<subseteq> A \<and> pc_max_blocks c < blocks_needed (total_tokens (state_of s sid)) (pc_block_size c))"

lemma stuck_admit:
  assumes "stuck sid rest A (c, s)"
  shows "stuck sid rest A (snd (admit_waiting c s))"
proof -
  from assms obtain w where inv: "sched_inv (c, s)" and w: "bs_waiting s = sid # rest @ w"
    and A: "set (bs_active s) \<subseteq> A"
    and big: "pc_max_blocks c < blocks_needed (total_tokens (state_of s sid)) (pc_block_size c)"
    by (auto simp: stuck_def)
  note d = sched_invD [OF inv]
  show ?thesis
  proof (cases "int (length (bs_active s)) < bs_max_batch_size s")
    case True
    have "sid \<notin> set (bs_active s)" using d(3) w by (auto simp: queues_ok_def)
    then have "ps_blocks (seq_of c sid) = []" using d(4) by (simp add: blocks_ok_def)
    moreover have "int (length (pc_free_blocks c)) \<le> pc_max_blocks c"
      using blocks_conserved_length [OF paged_invD(2) [OF d(1)]] paged_invD(1) [OF d(1)] by (simp add: dims_ok_def)
    ultimately have "\<not> can_hold c sid (total_tokens (state_of s sid))" using big by (simp add: can_hold_def)
    with admit_step [OF inv w True] obtain c2 where "admit_loop (sid # rest @ w) c s = (make_ok, c2, s)" "sched_inv (c2, s)"
      "same_geometry c c2" by auto
    with big w True A show ?thesis by (auto simp: admit_waiting_def stuck_def same_geometry_def)
  next
    case False
    with assms w show ?thesis by (auto simp: admit_waiting_def)
  qed
qed

lemma submit_keeps_queue:
  assumes inv: "sched_inv (c, s)" and ok: "batch_call_ok (c, s) (Submit rq)" and l: "live s t"
  shows "state_of (snd (submit rq s)) t = state_of s t \<and> (\<exists>xs. bs_waiting (snd (submit rq s)) = bs_waiting s @ xs)
    \<and> bs_active (snd (submit rq s)) = bs_active s"
proof (cases "rq_prompt_tokens rq = [] \<or> rq_max_tokens rq \<le> 0")
  case True
  then show ?thesis by (auto simp: submit_def)
next
  case False
  note ids = sched_invD(2) [OF inv]
  have i32: "int32_ok (bs_next_id s + 1)" "int32_ok (rq_sequence_id rq + 1)" using ok by simp_all
  let ?sid = "request_id rq s" and ?g = "grown (request_id rq s) (next_after rq s) s"
  have t: "nat t < length (bs_states s)" "0 \<le> t" "sq_sequence_id (state_of s t) = t" using l by (simp_all add: live_def)
  have g: "state_of ?g t = state_of s t" using t by (simp add: grown_def)
  have "t \<noteq> ?sid" if "sq_sequence_id (state_of ?g ?sid) < 0" using that g t by auto
  moreover have "0 \<le> ?sid" by (rule request_id_bounds(1) [OF ids i32])
  ultimately show ?thesis
    using submit_eq [OF ids i32] False g t(2)
    by (auto simp: Let_def enqueue_def not_le nth_list_update eq_nat_nat_iff grown_def)
qed

lemma stuck_step:
  assumes "stuck sid rest A (c, s)" and "batch_call_ok (c, s) op"
  shows "stuck sid rest A (batch_exec op (c, s))"
proof -
  from assms obtain w where inv: "sched_inv (c, s)" and w: "bs_waiting s = sid # rest @ w"
    and A: "set (bs_active s) \<subseteq> A"
    and big: "pc_max_blocks c < blocks_needed (total_tokens (state_of s sid)) (pc_block_size c)"
    by (auto simp: stuck_def)
  note d = sched_invD [OF inv]
  have l: "live s sid" and out: "sid \<notin> set (bs_active s)" and waits: "sq_phase (state_of s sid) = Waiting"
    using d(3) w by (auto simp: queues_ok_def)
  have inv': "sched_inv (batch_exec op (c, s))" by (rule batch_exec_inv [OF inv assms(2)])
  have put: "bs_waiting (put_state t q s) = bs_waiting s \<and> bs_active (put_state t q s) = bs_active s
      \<and> state_of (put_state t q s) sid = state_of s sid"
    if "t \<in> set (bs_active s)" for t q
  proof -
    have "known s t" "t \<noteq> sid" using that d(7) out by auto
    then show ?thesis using l known_index(1) [OF d(2)]
      by (simp add: put_state_def live_def known_def nth_list_update eq_nat_nat_iff)
  qed
  have at: "seq_state_at t s = Inr (state_of s t)" if "t \<in> set (bs_active s)" for t
    using that d(7) known_index(2) [OF d(2)] by simp
  show ?thesis
  proof (cases op)
    case (Submit rq)
    with submit_keeps_queue [OF inv _ l] assms(2) inv' w A big show ?thesis by (auto simp: stuck_def)
  next
    case Admit
    with stuck_admit [OF assms(1)] show ?thesis by simp
  next
    case (PrefillProgress t n)
    with assms(2) at [of t] put [of t] inv' w A big show ?thesis
      by (auto simp: stuck_def mark_prefill_progress_def Let_def split: if_splits)
  next
    case (TokenGenerated t k)
    with assms(2) at [of t] put [of t] inv' w A big show ?thesis
      by (auto simp: stuck_def mark_token_generated_def Let_def split: if_splits)
  next
    case (MarkFinished t)
    with assms(2) at [of t] put [of t] inv' w A big show ?thesis by (auto simp: stuck_def mark_finished_def)
  next
    case Evict
    with evict_loop_spec [where c = c and s = s and kept = "[]" and sids = "bs_active s"] inv inv' w A big
    show ?thesis by (auto simp: stuck_def evict_finished_def same_geometry_def subset_iff)
  next
    case Collect
    with collect_inv(3) [OF inv live_known [OF l]] waits inv' w A big show ?thesis
      by (auto simp: stuck_def collect_finished_def)
  next
    case (ClientCall op')
    obtain r c' where run: "paged_exec op' c = (r, c')" by (cases "paged_exec op' c")
    with ClientCall paged_exec_keeps [OF d(1) _ run] assms(2) inv' w A big show ?thesis
      by (auto simp: stuck_def same_geometry_def)
  qed
qed

lemma stuck_run:
  assumes "stuck sid rest A cs" and "sched.allowed cs ops"
  shows "stuck sid rest A (foldl (\<lambda>cs op. batch_exec op cs) cs ops)"
  using assms
proof (induction ops arbitrary: cs)
  case (Cons op ops)
  then show ?case using stuck_step [of sid rest A "fst cs" "snd cs" op] by simp
qed simp

text \<open>C30. A request that no cache state can hold, more blocks than the cache has, is accepted and then blocks the
  queue for good: whatever calls the client makes from there (each with its arguments within \<open>batch_call_ok\<close>), the
  request stays at the head of the queue with everything behind it still there, no sequence enters the batch that was not
  in it before, and \<open>admit_waiting\<close> keeps answering \<open>Ok\<close>.\<close>

theorem infeasible_request_blocks_queue:
  assumes "sched.reachable (c, s)" and "bs_waiting s = sid # rest"
    and "pc_max_blocks c < blocks_needed (total_tokens (state_of s sid)) (pc_block_size c)"
    and "sched.allowed (c, s) ops" and "foldl (\<lambda>cs op. batch_exec op cs) (c, s) ops = (c', s')"
  shows "(\<exists>w. bs_waiting s' = sid # rest @ w) \<and> set (bs_active s') \<subseteq> set (bs_active s)
    \<and> (0 < bs_max_batch_size s' \<longrightarrow> fst (admit_waiting c' s') = make_ok)"
proof -
  have "stuck sid rest (set (bs_active s)) (c, s)"
    using sched.reachable_inv [OF assms(1)] assms(2,3) by (simp add: stuck_def)
  from stuck_run [OF this assms(4)] have st: "stuck sid rest (set (bs_active s)) (c', s')" by (simp add: assms(5))
  then have "sched_inv (c', s')" by (simp add: stuck_def)
  from admit_loop_spec [OF this refl] have "0 < bs_max_batch_size s' \<longrightarrow> fst (admit_waiting c' s') = make_ok"
    by (auto simp: admit_waiting_def)
  with st show ?thesis by (simp add: stuck_def)
qed

definition huge_request :: sequence_request where
  "huge_request = \<lparr>rq_sequence_id = -1, rq_prompt_tokens = [7], rq_max_tokens = 6\<rparr>"

theorem infeasible_request_blocks_queue_witness:
  "(\<exists>w. bs_waiting (snd (foldl (\<lambda>cs op. batch_exec op cs)
     (batch_exec (Submit huge_request) (demo_cache, new_batch_scheduler 2)) [Admit, Evict, Collect])) = 0 # w)
   \<and> bs_active (snd (foldl (\<lambda>cs op. batch_exec op cs)
     (batch_exec (Submit huge_request) (demo_cache, new_batch_scheduler 2)) [Admit, Evict, Collect])) = []"
proof -
  let ?cs = "batch_exec (Submit huge_request) (demo_cache, new_batch_scheduler 2)"
  have ok: "batch_call_ok (demo_cache, new_batch_scheduler 2) (Submit huge_request)"
    by (simp add: huge_request_def demo_cache_eval new_batch_scheduler_def int32_ok_def)
  have eval: "?cs = (demo_cache, \<lparr>bs_max_batch_size = 2, bs_states = [(demo_state Waiting)\<lparr>sq_prompt_tokens := [7],
      sq_max_tokens := 6\<rparr>], bs_waiting = [0], bs_active = [], bs_next_id = 1\<rparr>)"
    by (simp add: submit_def huge_request_def new_batch_scheduler_def cint32_ok vec_resize_def
        empty_state_def demo_state_def Let_def)
  have r: "sched.reachable (fst ?cs, snd ?cs)" using sched.reachable_exec [OF demo_new_reachable ok] by simp
  have allowed: "sched.allowed (fst ?cs, snd ?cs) [Admit, Evict, Collect]"
    unfolding eval
    by (simp add: admit_waiting_def seq_state_at_def demo_state_def ensure_sequence_def demo_cache_eval pc_initialized_def
        vec_resize_def empty_seq_def cint32_ok int32_ok_def reserve_sequence_def ceil_div_int_def evict_finished_def
        out_of_range_def)
  have w: "bs_waiting (snd ?cs) = 0 # []" unfolding eval by simp
  have big: "pc_max_blocks (fst ?cs) < blocks_needed (total_tokens (state_of (snd ?cs) 0)) (pc_block_size (fst ?cs))"
    unfolding eval by (simp add: demo_state_def demo_cache_eval blocks_needed_def total_tokens_def)
  have idle: "bs_active (snd ?cs) = []" unfolding eval by simp
  obtain c' s' where out: "foldl (\<lambda>cs op. batch_exec op cs) (fst ?cs, snd ?cs) [Admit, Evict, Collect] = (c', s')" by fastforce
  from infeasible_request_blocks_queue [OF r w big allowed out] show ?thesis using idle out [unfolded prod.collapse] by simp
qed

text \<open>Why the client must not reuse an id between collecting and evicting: the finished request gives up its id
  while the sequence is still active, so a new request may take the id, be admitted, and stand in the
  batch a second time, on the same blocks.\<close>

theorem collect_before_evict_duplicates:
  "bs_active (snd (foldl (\<lambda>cs op. batch_exec op cs) demo_admitted
     [MarkFinished 0, Collect, Submit (demo_request\<lparr>rq_sequence_id := 0\<rparr>), Admit])) = [0, 0]"
  by (simp add: demo_admitted_eval mark_finished_def seq_state_at_def put_state_def collect_finished_def collectable_def
      demo_state_def submit_def demo_request_def cint32_ok int32_ok_def admit_waiting_def ensure_sequence_def demo_cache_eval
      pc_initialized_def reserve_sequence_def ceil_div_int_def Let_def)

end
