(* ===== verification/Graph_IR.thy ===== *)
theory Graph_IR
  imports Core_Types "HOL-Library.AList"
begin

text \<open>
  The graph of a model (include/minillm/graph: attribute.h, op_type.h, value.h, node.h, graph.h;
  src/graph: attribute.cpp, node.cpp, graph.cpp): typed values, operator nodes with attributes,
  validation, Kahn's topological sort and the textual dump. The type \<open>'d\<close> stands for \<open>double\<close>, which
  the graph only stores. An \<open>unordered_map\<close> of attributes is an association list with
  one entry per key; the order in which \<open>dump\<close> meets them is a parameter.
\<close>

section \<open>Attributes\<close>

datatype 'd attribute_value =
    AttrInt int
  | AttrDouble 'd
  | AttrBool bool
  | AttrString string
  | AttrShape shape
  | AttrInts "int list"

fun attribute_to_string :: "('d \<Rightarrow> string) \<Rightarrow> 'd attribute_value \<Rightarrow> string" where
  "attribute_to_string fmt (AttrInt i) = int_to_string i"
| "attribute_to_string fmt (AttrDouble d) = fmt d"
| "attribute_to_string fmt (AttrBool b) = (if b then ''true'' else ''false'')"
| "attribute_to_string fmt (AttrString s) = s"
| "attribute_to_string fmt (AttrShape s) = shape_to_string s"
| "attribute_to_string fmt (AttrInts is) = ''['' @ join_with '', '' (map int_to_string is) @ '']''"

section \<open>Operators, values and nodes\<close>

datatype op_type =
    OpInput | OpConstant | OpEmbedding | OpMatMul | OpLinear | OpAdd | OpMul | OpRMSNorm | OpLayerNorm
  | OpSiLU | OpSwiGLU | OpRoPE | OpAttention | OpQKNorm | OpSoftmax | OpReshape | OpTranspose | OpView
  | OpContiguous | OpOutput | OpCustom

fun op_type_name :: "op_type \<Rightarrow> string" where
  "op_type_name OpInput = ''Input''"
| "op_type_name OpConstant = ''Constant''"
| "op_type_name OpEmbedding = ''Embedding''"
| "op_type_name OpMatMul = ''MatMul''"
| "op_type_name OpLinear = ''Linear''"
| "op_type_name OpAdd = ''Add''"
| "op_type_name OpMul = ''Mul''"
| "op_type_name OpRMSNorm = ''RMSNorm''"
| "op_type_name OpLayerNorm = ''LayerNorm''"
| "op_type_name OpSiLU = ''SiLU''"
| "op_type_name OpSwiGLU = ''SwiGLU''"
| "op_type_name OpRoPE = ''RoPE''"
| "op_type_name OpAttention = ''Attention''"
| "op_type_name OpQKNorm = ''QKNorm''"
| "op_type_name OpSoftmax = ''Softmax''"
| "op_type_name OpReshape = ''Reshape''"
| "op_type_name OpTranspose = ''Transpose''"
| "op_type_name OpView = ''View''"
| "op_type_name OpContiguous = ''Contiguous''"
| "op_type_name OpOutput = ''Output''"
| "op_type_name OpCustom = ''Custom''"

type_synonym value_id = nat
type_synonym node_id = nat

datatype value_kind = KInput | KConstant | KIntermediate | KOutput

fun kind_name :: "value_kind \<Rightarrow> string" where
  "kind_name KInput = ''Input''"
| "kind_name KConstant = ''Constant''"
| "kind_name KIntermediate = ''Intermediate''"
| "kind_name KOutput = ''Output''"

record graph_value =
  v_id :: value_id
  v_name :: string
  v_shape :: shape
  v_dtype :: dtype
  v_device :: device
  v_kind :: value_kind

record 'd graph_node =
  n_id :: node_id
  n_op_type :: op_type
  n_name :: string
  n_inputs :: "value_id list"
  n_outputs :: "value_id list"
  n_attrs :: "(string \<times> 'd attribute_value) list"

definition make_node :: "node_id \<Rightarrow> op_type \<Rightarrow> string \<Rightarrow> value_id list \<Rightarrow> value_id list \<Rightarrow> 'd graph_node" where
  "make_node i op nm ins outs = \<lparr>n_id = i, n_op_type = op, n_name = nm, n_inputs = ins, n_outputs = outs, n_attrs = []\<rparr>"

definition set_attr :: "string \<Rightarrow> 'd attribute_value \<Rightarrow> 'd graph_node \<Rightarrow> 'd graph_node" where
  "set_attr k v nd = nd\<lparr>n_attrs := AList.update k v (n_attrs nd)\<rparr>"

definition get_attr :: "string \<Rightarrow> 'd graph_node \<Rightarrow> 'd attribute_value option" where
  "get_attr k nd = map_of (n_attrs nd) k"

section \<open>The graph\<close>

record 'd graph =
  g_values :: "graph_value list"
  g_nodes :: "'d graph_node list"

definition empty_graph :: "'d graph" where
  "empty_graph = \<lparr>g_values = [], g_nodes = []\<rparr>"

definition add_value ::
  "string \<Rightarrow> shape \<Rightarrow> dtype \<Rightarrow> device \<Rightarrow> value_kind \<Rightarrow> 'd graph \<Rightarrow> value_id result \<times> 'd graph"
where
  "add_value nm sh t d k g =
     (let idx = length (g_values g)
      in (Inr idx, g\<lparr>g_values := g_values g @
            [\<lparr>v_id = idx, v_name = nm, v_shape = sh, v_dtype = t, v_device = d, v_kind = k\<rparr>]\<rparr>))"

definition add_node ::
  "op_type \<Rightarrow> string \<Rightarrow> value_id list \<Rightarrow> value_id list \<Rightarrow> 'd graph \<Rightarrow> node_id result \<times> 'd graph"
where
  "add_node op nm ins outs g =
     (let idx = length (g_nodes g)
      in (Inr idx, g\<lparr>g_nodes := g_nodes g @ [make_node idx op nm ins outs]\<rparr>))"

definition g_value :: "value_id \<Rightarrow> 'd graph \<Rightarrow> graph_value result" where
  "g_value i g = (if i < length (g_values g) then Inr (g_values g ! i)
     else Inl (out_of_range (''ValueId %'' @ nat_to_string i @ '' out of range'')))"

definition g_node :: "node_id \<Rightarrow> 'd graph \<Rightarrow> 'd graph_node result" where
  "g_node i g = (if i < length (g_nodes g) then Inr (g_nodes g ! i)
     else Inl (out_of_range (''NodeId #'' @ nat_to_string i @ '' out of range'')))"

lemma g_value_Inr [simp]: "g_value i g = Inr v \<longleftrightarrow> i < length (g_values g) \<and> v = g_values g ! i"
  by (auto simp: g_value_def)

text \<open>Writing through the pointer that \<open>mutable_value\<close> or \<open>mutable_node\<close> returned.\<close>

definition mutable_value :: "value_id \<Rightarrow> (graph_value \<Rightarrow> graph_value) \<Rightarrow> 'd graph \<Rightarrow> unit result \<times> 'd graph" where
  "mutable_value i f g = (if i < length (g_values g)
     then (make_ok, g\<lparr>g_values := (g_values g)[i := f (g_values g ! i)]\<rparr>)
     else (Inl (out_of_range (''ValueId %'' @ nat_to_string i @ '' out of range'')), g))"

definition mutable_node :: "node_id \<Rightarrow> ('d graph_node \<Rightarrow> 'd graph_node) \<Rightarrow> 'd graph \<Rightarrow> unit result \<times> 'd graph" where
  "mutable_node i f g = (if i < length (g_nodes g)
     then (make_ok, g\<lparr>g_nodes := (g_nodes g)[i := f (g_nodes g ! i)]\<rparr>)
     else (Inl (out_of_range (''NodeId #'' @ nat_to_string i @ '' out of range'')), g))"

section \<open>Validation\<close>

fun check_refs :: "nat \<Rightarrow> 'd graph_node \<Rightarrow> value_id list \<Rightarrow> unit result" where
  "check_refs nv nd [] = make_ok"
| "check_refs nv nd (v # vs) =
     (if nv \<le> v then Inl (invalid_argument (''Node #'' @ nat_to_string (n_id nd) @ '' ('' @
        op_type_name (n_op_type nd) @ '') references non-existent ValueId %'' @ nat_to_string v))
      else check_refs nv nd vs)"

fun validate_nodes :: "nat \<Rightarrow> 'd graph_node list \<Rightarrow> unit result" where
  "validate_nodes nv [] = make_ok"
| "validate_nodes nv (nd # nds) =
     rbind (check_refs nv nd (n_inputs nd)) (\<lambda>_. rbind (check_refs nv nd (n_outputs nd)) (\<lambda>_.
       if n_op_type nd = OpOutput \<and> n_inputs nd = [] then
         Inl (invalid_argument (''Output node #'' @ nat_to_string (n_id nd) @ '' must have at least one input''))
       else validate_nodes nv nds))"

definition validate :: "'d graph \<Rightarrow> unit result" where
  "validate g = validate_nodes (length (g_values g)) (g_nodes g)"

section \<open>Topological sort\<close>

text \<open>The map from a value to the node that produces it; a later producer replaces an earlier.\<close>

fun produce_outputs :: "nat \<Rightarrow> value_id list \<Rightarrow> (value_id \<Rightarrow> nat option) \<Rightarrow> value_id \<Rightarrow> nat option" where
  "produce_outputs i [] m = m"
| "produce_outputs i (v # vs) m = produce_outputs i vs (m(v \<mapsto> i))"

fun produce_nodes :: "nat \<Rightarrow> 'd graph_node list \<Rightarrow> (value_id \<Rightarrow> nat option) \<Rightarrow> value_id \<Rightarrow> nat option" where
  "produce_nodes i [] m = m"
| "produce_nodes i (nd # nds) m = produce_nodes (Suc i) nds (produce_outputs i (n_outputs nd) m)"

definition value_producer :: "'d graph_node list \<Rightarrow> value_id \<Rightarrow> nat option" where
  "value_producer nds = produce_nodes 0 nds Map.empty"

text \<open>Adjacency lists and in-degrees, one entry per input that some node produces.\<close>

fun link_inputs ::
  "(value_id \<Rightarrow> nat option) \<Rightarrow> nat \<Rightarrow> value_id list \<Rightarrow> nat list list \<times> int list \<Rightarrow> nat list list \<times> int list"
where
  "link_inputs pm i [] s = s"
| "link_inputs pm i (v # vs) (adj, deg) = (case pm v of
     None \<Rightarrow> link_inputs pm i vs (adj, deg)
   | Some p \<Rightarrow> link_inputs pm i vs (adj[p := adj ! p @ [i]], deg[i := deg ! i + 1]))"

fun link_nodes ::
  "(value_id \<Rightarrow> nat option) \<Rightarrow> nat \<Rightarrow> 'd graph_node list \<Rightarrow> nat list list \<times> int list \<Rightarrow> nat list list \<times> int list"
where
  "link_nodes pm i [] s = s"
| "link_nodes pm i (nd # nds) s = link_nodes pm (Suc i) nds (link_inputs pm i (n_inputs nd) s)"

text \<open>One dequeued node: its successors lose one input each, and join the queue at zero. Every
  index is below the number of nodes; the test says so for the termination proof.\<close>

fun relax :: "nat list \<Rightarrow> int list \<Rightarrow> nat list \<Rightarrow> int list \<times> nat list" where
  "relax [] deg q = (deg, q)"
| "relax (nxt # ns) deg q =
     (let deg' = deg[nxt := deg ! nxt - 1]
      in if nxt < length deg \<and> deg' ! nxt = 0 then relax ns deg' (q @ [nxt]) else relax ns deg' q)"

definition positive_count :: "int list \<Rightarrow> nat" where
  "positive_count deg = length (filter (\<lambda>d. 0 < d) deg)"

lemma positive_count_update:
  assumes "i < length deg"
  shows "positive_count (deg[i := x]) + (if 0 < deg ! i then 1 else 0) = positive_count deg + (if 0 < x then 1 else 0)"
  using assms
proof (induction deg arbitrary: i)
  case (Cons d deg)
  then show ?case by (cases i) (auto simp: positive_count_def)
qed simp

lemma relax_measure:
  "positive_count (fst (relax ns deg q)) + length (snd (relax ns deg q)) \<le> positive_count deg + length q"
proof (induction ns deg q rule: relax.induct)
  case (2 nxt ns deg q)
  show ?case
  proof (cases "nxt < length deg")
    case True
    from positive_count_update [OF True, of "deg ! nxt - 1"] positive_count_update [OF True, of 0] 2 True show ?thesis
      by (auto simp: Let_def split: if_splits)
  next
    case False
    with 2(2) [OF refl] show ?thesis by (simp add: Let_def list_update_beyond)
  qed
qed simp

function kahn_loop :: "nat list list \<Rightarrow> nat list \<Rightarrow> int list \<Rightarrow> nat list \<Rightarrow> nat list" where
  "kahn_loop adj [] deg order = order"
| "kahn_loop adj (cur # q) deg order =
     kahn_loop adj (snd (relax (adj ! cur) deg q)) (fst (relax (adj ! cur) deg q)) (order @ [cur])"
  by pat_completeness auto
termination
proof (relation "measure (\<lambda>(adj, q, deg, order). positive_count deg + length q)")
  fix adj :: "nat list list" and cur q deg order
  show "((adj, snd (relax (adj ! cur) deg q), fst (relax (adj ! cur) deg q), order @ [cur]), adj, cur # q, deg, order)
      \<in> measure (\<lambda>(adj, q, deg, order). positive_count deg + length q)"
    using relax_measure [of "adj ! cur" deg q] by simp
qed simp

definition topological_sort :: "'d graph \<Rightarrow> node_id list result" where
  "topological_sort g = rbind (validate g) (\<lambda>_.
     let n = length (g_nodes g);
         (adj, in_degree) = link_nodes (value_producer (g_nodes g)) 0 (g_nodes g) (replicate n [], replicate n 0);
         order = kahn_loop adj (filter (\<lambda>i. in_degree ! i = 0) [0..<n]) in_degree []
     in if length order \<noteq> n then Inl (runtime_error ''graph has cycles'') else Inr order)"

section \<open>Dump\<close>

abbreviation newline :: string where "newline \<equiv> [CHR 0x0A]"

definition dump_value :: "graph_value \<Rightarrow> string" where
  "dump_value v = ''    %'' @ nat_to_string (v_id v) @ '' '' @ v_name v @ '' shape='' @ shape_to_string (v_shape v) @
     '' dtype='' @ dtype_name (v_dtype v) @ '' device='' @ device_to_string (v_device v) @
     '' kind='' @ kind_name (v_kind v) @ newline"

definition dump_node ::
  "('d \<Rightarrow> string) \<Rightarrow> ((string \<times> 'd attribute_value) list \<Rightarrow> (string \<times> 'd attribute_value) list)
   \<Rightarrow> 'd graph_node \<Rightarrow> string"
where
  "dump_node fmt order nd = ''    #'' @ nat_to_string (n_id nd) @ '' '' @ op_type_name (n_op_type nd) @
     ''(name='' @ n_name nd @ '') inputs=['' @ join_with '', '' (map (\<lambda>v. ''%'' @ nat_to_string v) (n_inputs nd)) @
     ''] outputs=['' @ join_with '', '' (map (\<lambda>v. ''%'' @ nat_to_string v) (n_outputs nd)) @ '']'' @
     (if n_attrs nd = [] then []
      else '' attrs={'' @ join_with '', '' (map (\<lambda>(k, v). k @ ''='' @ attribute_to_string fmt v) (order (n_attrs nd))) @ ''}'') @
     newline"

definition dump ::
  "('d \<Rightarrow> string) \<Rightarrow> ((string \<times> 'd attribute_value) list \<Rightarrow> (string \<times> 'd attribute_value) list)
   \<Rightarrow> 'd graph \<Rightarrow> string"
where
  "dump fmt order g = ''Graph:'' @ newline @ ''  Values:'' @ newline @ concat (map dump_value (g_values g)) @
     ''  Nodes:'' @ newline @ concat (map (dump_node fmt order) (g_nodes g))"

end
