(* ===== verification/Graph_Order.thy ===== *)
theory Graph_Order
  imports Graph_IR
begin

text \<open>
  Kahn's algorithm as the graph uses it sorts exactly the acyclic graphs. Its loop is analysed under the laws of an
  interface, a numbered dependency relation with its adjacency lists; the lists that \<open>topological_sort\<close>
  builds satisfy them.
\<close>

section \<open>The loop\<close>

lemma filter_insert_count:
  "cur \<notin> S \<Longrightarrow> length (filter (\<lambda>p. p \<notin> insert cur S) xs) + count_list xs cur = length (filter (\<lambda>p. p \<notin> S) xs)"
  by (induction xs) auto

lemma relax_spec:
  assumes "\<forall>i \<in> set ns. i < length deg \<and> int (count_list ns i) \<le> deg ! i"
  shows "\<exists>new. snd (relax ns deg q) = q @ new \<and> length (fst (relax ns deg q)) = length deg
    \<and> (\<forall>i < length deg. fst (relax ns deg q) ! i = deg ! i - int (count_list ns i))
    \<and> distinct new \<and> set new = {i \<in> set ns. deg ! i = int (count_list ns i)}"
  using assms
proof (induction ns deg q rule: relax.induct)
  case (2 nxt ns deg q)
  let ?deg = "deg[nxt := deg ! nxt - 1]"
  have nxt: "nxt < length deg" "int (count_list ns nxt) \<le> deg ! nxt - 1" using 2(3) by auto
  have prem: "\<forall>i \<in> set ns. i < length ?deg \<and> int (count_list ns i) \<le> ?deg ! i"
    using 2(3) nxt by (auto simp: nth_list_update)
  have deg': "?deg ! i - int (count_list ns i) = deg ! i - int (count_list (nxt # ns) i)" if "i < length deg" for i
    using that nxt by (simp add: nth_list_update)
  show ?case
  proof (cases "?deg ! nxt = 0")
    case True
    then have none: "nxt \<notin> set ns" using nxt by (simp add: count_list_0_iff [symmetric])
    from 2(1) [OF refl _ prem] True nxt obtain new where
      "snd (relax ns ?deg (q @ [nxt])) = (q @ [nxt]) @ new" "length (fst (relax ns ?deg (q @ [nxt]))) = length deg"
      "\<forall>i < length deg. fst (relax ns ?deg (q @ [nxt])) ! i = ?deg ! i - int (count_list ns i)"
      "distinct new" "set new = {i \<in> set ns. ?deg ! i = int (count_list ns i)}" by auto
    then show ?thesis
      using True nxt none deg' by (intro exI [of _ "nxt # new"]) (auto simp: Let_def nth_list_update)
  next
    case False
    from 2(2) [OF refl _ prem] False obtain new where new:
      "snd (relax ns ?deg q) = q @ new" "length (fst (relax ns ?deg q)) = length deg"
      "\<forall>i < length deg. fst (relax ns ?deg q) ! i = ?deg ! i - int (count_list ns i)"
      "distinct new" "set new = {i \<in> set ns. ?deg ! i = int (count_list ns i)}" by auto
    have "nxt \<notin> set ns \<Longrightarrow> deg ! nxt \<noteq> 1" using False nxt by auto
    then have "set new = {i \<in> set (nxt # ns). deg ! i = int (count_list (nxt # ns) i)}"
      unfolding new(5) using nxt by (cases "nxt \<in> set ns") (auto simp: nth_list_update count_notin)
    then show ?thesis
      using False nxt new deg' by (intro exI [of _ new]) (auto simp: Let_def)
  qed
qed simp

locale dependency_order =
  fixes n :: nat and preds :: "nat \<Rightarrow> nat list" and adj :: "nat list list"
  assumes preds_bound: "i < n \<Longrightarrow> p \<in> set (preds i) \<Longrightarrow> p < n"
    and adj_count: "p < n \<Longrightarrow> count_list (adj ! p) i = (if i < n then count_list (preds i) p else 0)"
begin

definition depends :: "(nat \<times> nat) set" where
  "depends = {(p, i). i < n \<and> p \<in> set (preds i)}"

definition open_preds :: "nat list \<Rightarrow> nat \<Rightarrow> nat" where
  "open_preds order i = length (filter (\<lambda>p. p \<notin> set order) (preds i))"

definition kahn_inv :: "nat list \<Rightarrow> nat list \<Rightarrow> int list \<Rightarrow> bool" where
  "kahn_inv order q deg \<longleftrightarrow> distinct (order @ q) \<and> set (order @ q) \<subseteq> {..<n} \<and> length deg = n
     \<and> (\<forall>i < n. deg ! i = int (open_preds order i))
     \<and> (\<forall>i < n. i \<in> set (order @ q) \<longleftrightarrow> open_preds order i = 0)
     \<and> (\<forall>k < length order. set (preds (order ! k)) \<subseteq> set (take k order))"

lemma kahn_step:
  assumes inv: "kahn_inv order (cur # q) deg"
  shows "kahn_inv (order @ [cur]) (snd (relax (adj ! cur) deg q)) (fst (relax (adj ! cur) deg q))"
proof -
  from inv have cur: "cur < n" "cur \<notin> set order" "cur \<notin> set q" and len: "length deg = n"
    and deg: "\<And>i. i < n \<Longrightarrow> deg ! i = int (open_preds order i)"
    and zero: "\<And>i. i < n \<Longrightarrow> i \<in> set order \<or> i = cur \<or> i \<in> set q \<longleftrightarrow> open_preds order i = 0"
    and dist: "distinct order" "distinct q" "set order \<inter> set q = {}" "set order \<subseteq> {..<n}" "set q \<subseteq> {..<n}"
    and before: "\<And>k. k < length order \<Longrightarrow> set (preds (order ! k)) \<subseteq> set (take k order)"
    by (auto simp: kahn_inv_def)
  have step: "open_preds (order @ [cur]) i + count_list (preds i) cur = open_preds order i" for i
    using filter_insert_count [OF cur(2), of "preds i"] by (simp add: open_preds_def)
  have cnt: "count_list (adj ! cur) i = (if i < n then count_list (preds i) cur else 0)" for i
    by (rule adj_count [OF cur(1)])
  have mem: "i \<in> set (adj ! cur) \<longleftrightarrow> i < n \<and> cur \<in> set (preds i)" for i
    using cnt [of i] by (metis count_list_0_iff)
  have prem: "\<forall>i \<in> set (adj ! cur). i < length deg \<and> int (count_list (adj ! cur) i) \<le> deg ! i"
    using mem cnt deg step len by (metis le_add2 of_nat_le_iff)
  from relax_spec [OF prem, of q] obtain new where new: "snd (relax (adj ! cur) deg q) = q @ new"
    "length (fst (relax (adj ! cur) deg q)) = n"
    "\<And>i. i < n \<Longrightarrow> fst (relax (adj ! cur) deg q) ! i = deg ! i - int (count_list (adj ! cur) i)"
    "distinct new" "set new = {i \<in> set (adj ! cur). deg ! i = int (count_list (adj ! cur) i)}"
    using len by auto
  have deg': "fst (relax (adj ! cur) deg q) ! i = int (open_preds (order @ [cur]) i)" if "i < n" for i
    using new(3) [OF that] deg [OF that] cnt [of i] step [of i] that by simp
  have new_iff: "i \<in> set new \<longleftrightarrow> open_preds order i \<noteq> 0 \<and> open_preds (order @ [cur]) i = 0" if "i < n" for i
  proof -
    have "0 < count_list (preds i) cur \<longleftrightarrow> cur \<in> set (preds i)"
      by (simp add: count_list_0_iff zero_less_iff_neq_zero)
    then have "i \<in> set new \<longleftrightarrow> 0 < count_list (preds i) cur \<and> open_preds order i = count_list (preds i) cur"
      using new(5) mem [of i] deg [OF that] cnt [of i] that by auto
    then show ?thesis using step [of i] by auto
  qed
  have sub: "set new \<subseteq> {..<n}" using new(5) mem by auto
  have fresh: "set new \<inter> (set order \<union> {cur} \<union> set q) = {}" using new_iff zero sub by blast
  have ready: "set (preds cur) \<subseteq> set order"
    using zero [OF cur(1)] by (auto simp: open_preds_def filter_empty_conv)
  have "set (preds ((order @ [cur]) ! k)) \<subseteq> set (take k (order @ [cur]))" if "k < length (order @ [cur])" for k
    using that before [of k] ready by (cases "k < length order") (auto simp: nth_append less_Suc_eq)
  moreover have "i \<in> set ((order @ [cur]) @ q @ new) \<longleftrightarrow> open_preds (order @ [cur]) i = 0" if "i < n" for i
    using new_iff [OF that] zero [OF that] step [of i] by auto
  moreover have "distinct ((order @ [cur]) @ q @ new)" "set ((order @ [cur]) @ q @ new) \<subseteq> {..<n}"
    using dist cur fresh sub new(4) by auto
  ultimately show ?thesis using deg' new(1,2) by (simp add: kahn_inv_def)
qed

lemma kahn_loop_inv:
  assumes "kahn_inv order q deg"
  shows "\<exists>deg'. kahn_inv (kahn_loop adj q deg order) [] deg'"
proof -
  have "a = adj \<Longrightarrow> kahn_inv order q deg \<Longrightarrow> \<exists>deg'. kahn_inv (kahn_loop a q deg order) [] deg'" for a
  proof (induction a q deg order rule: kahn_loop.induct)
    case (2 a cur q deg order)
    then show ?case using kahn_step [of order cur q deg] by simp
  qed auto
  with assms show ?thesis by simp
qed

lemma kahn_inv_start:
  assumes "length deg = n" and "\<And>i. i < n \<Longrightarrow> deg ! i = int (length (preds i))"
  shows "kahn_inv [] (filter (\<lambda>i. deg ! i = 0) [0..<n]) deg"
  using assms by (auto simp: kahn_inv_def open_preds_def)

lemma finite_depends: "finite depends"
  by (rule finite_subset [of _ "{..<n} \<times> {..<n}"]) (auto simp: depends_def preds_bound)

text \<open>The loop reaches every node exactly when the dependencies have no cycle.\<close>

lemma kahn_end:
  assumes "kahn_inv order [] deg"
  shows "length order = n \<longleftrightarrow> acyclic depends"
    "length order = n \<Longrightarrow> distinct order \<and> set order = {..<n}"
    "k < length order \<Longrightarrow> set (preds (order ! k)) \<subseteq> set (take k order)"
proof -
  from assms have dist: "distinct order" and sub: "set order \<subseteq> {..<n}"
    and zero: "\<And>i. i < n \<Longrightarrow> i \<in> set order \<longleftrightarrow> open_preds order i = 0"
    and before: "\<And>k. k < length order \<Longrightarrow> set (preds (order ! k)) \<subseteq> set (take k order)"
    by (auto simp: kahn_inv_def)
  have full: "set order = {..<n}" if "length order = n"
    using that dist sub by (intro card_subset_eq) (auto simp: distinct_card)
  show "length order = n \<Longrightarrow> distinct order \<and> set order = {..<n}" using dist full by simp
  show "k < length order \<Longrightarrow> set (preds (order ! k)) \<subseteq> set (take k order)" by (rule before)
  show "length order = n \<longleftrightarrow> acyclic depends"
  proof
    assume len: "length order = n"
    define pos where "pos i = (THE k. k < length order \<and> order ! k = i)" for i
    have pos: "pos (order ! k) = k" if "k < length order" for k
      unfolding pos_def using that dist by (auto simp: nth_eq_iff_index_eq)
    have "(p, i) \<in> measure pos" if "(p, i) \<in> depends" for p i
    proof -
      have "i \<in> set order" "p \<in> set (preds i)" using that full [OF len] by (auto simp: depends_def)
      then obtain k where k: "k < length order" "order ! k = i" by (auto simp: in_set_conv_nth)
      with before [of k] \<open>p \<in> set (preds i)\<close> have "p \<in> set (take k order)" by auto
      then obtain j where "j < k" "order ! j = p" by (auto simp: in_set_conv_nth)
      with k pos [of j] pos [of k] show ?thesis by auto
    qed
    then have "depends \<subseteq> measure pos" by auto
    then show "acyclic depends" by (meson acyclic_subset wf_acyclic wf_measure)
  next
    assume "acyclic depends"
    then have wf: "wf depends" by (rule finite_acyclic_wf [OF finite_depends])
    have "i < n \<longrightarrow> i \<in> set order" for i
      using wf
    proof (induction i rule: wf_induct_rule)
      case (less i)
      show ?case
      proof
        assume i: "i < n"
        then have "p \<in> set order" if "p \<in> set (preds i)" for p
          using less [of p] that preds_bound by (auto simp: depends_def)
        then have "open_preds order i = 0" by (auto simp: open_preds_def filter_empty_conv)
        with zero [OF i] show "i \<in> set order" by simp
      qed
    qed
    then have "set order = {..<n}" using sub by auto
    then show "length order = n" using distinct_card [OF dist] by simp
  qed
qed

end

section \<open>The lists that the graph builds\<close>

lemma produce_outputs_eq: "produce_outputs i vs m v = (if v \<in> set vs then Some i else m v)"
  by (induction vs arbitrary: m) auto

lemma produce_nodes_spec:
  "produce_nodes i nds m v = Some p \<longleftrightarrow>
     (\<exists>k < length nds. p = i + k \<and> v \<in> set (n_outputs (nds ! k))
        \<and> (\<forall>j. k < j \<longrightarrow> j < length nds \<longrightarrow> v \<notin> set (n_outputs (nds ! j))))
     \<or> (m v = Some p \<and> (\<forall>j < length nds. v \<notin> set (n_outputs (nds ! j))))"
proof (induction nds arbitrary: i m)
  case (Cons nd nds)
  have all: "(\<forall>j < length (nd # nds). P j) \<longleftrightarrow> P 0 \<and> (\<forall>j < length nds. P (Suc j))" for P
    by (auto simp: less_Suc_eq_0_disj)
  have ex: "(\<exists>k < length (nd # nds). P k) \<longleftrightarrow> P 0 \<or> (\<exists>k < length nds. P (Suc k))" for P
    by (auto simp: less_Suc_eq_0_disj)
  have after: "(\<forall>j. 0 < j \<longrightarrow> j < length (nd # nds) \<longrightarrow> P j) \<longleftrightarrow> (\<forall>j < length nds. P (Suc j))"
    "(\<forall>j. Suc k < j \<longrightarrow> j < length (nd # nds) \<longrightarrow> P j) \<longleftrightarrow> (\<forall>j. k < j \<longrightarrow> j < length nds \<longrightarrow> P (Suc j))" for P k
    by (auto simp: less_Suc_eq_0_disj gr0_conv_Suc)
  show ?case
    unfolding all ex after produce_nodes.simps Cons.IH by (auto simp: produce_outputs_eq)
qed simp

text \<open>The producer of a value is the last node that lists it as an output.\<close>

lemma value_producer_iff:
  "value_producer nds v = Some p \<longleftrightarrow> p < length nds \<and> v \<in> set (n_outputs (nds ! p))
     \<and> (\<forall>j. p < j \<longrightarrow> j < length nds \<longrightarrow> v \<notin> set (n_outputs (nds ! j)))"
  by (auto simp: value_producer_def produce_nodes_spec)

definition producers_of :: "'d graph_node list \<Rightarrow> nat \<Rightarrow> nat list" where
  "producers_of nds i = List.map_filter (value_producer nds) (n_inputs (nds ! i))"

definition links :: "'d graph_node list \<Rightarrow> nat list list \<times> int list" where
  "links nds = link_nodes (value_producer nds) 0 nds (replicate (length nds) [], replicate (length nds) 0)"

lemma link_inputs_spec:
  assumes "i < length deg" and "\<forall>v p. pm v = Some p \<longrightarrow> p < length adj"
  shows "length (fst (link_inputs pm i vs (adj, deg))) = length adj
    \<and> length (snd (link_inputs pm i vs (adj, deg))) = length deg
    \<and> (\<forall>p < length adj. count_list (fst (link_inputs pm i vs (adj, deg)) ! p) j
         = count_list (adj ! p) j + (if j = i then count_list (List.map_filter pm vs) p else 0))
    \<and> (j < length deg \<longrightarrow> snd (link_inputs pm i vs (adj, deg)) ! j
         = deg ! j + (if j = i then int (length (List.map_filter pm vs)) else 0))"
  using assms
proof (induction vs arbitrary: adj deg)
  case (Cons v vs)
  show ?case
  proof (cases "pm v")
    case None
    with Cons show ?thesis by (simp add: map_filter_simps)
  next
    case (Some p)
    from Cons.IH [of "deg[i := deg ! i + 1]" "adj[p := adj ! p @ [i]]"] Cons.prems Some show ?thesis
      by (auto simp: map_filter_simps nth_list_update)
  qed
qed (simp add: map_filter_simps)

lemma link_nodes_spec:
  assumes "i + length nds \<le> length deg" and "\<forall>v p. pm v = Some p \<longrightarrow> p < length adj"
  shows "length (fst (link_nodes pm i nds (adj, deg))) = length adj
    \<and> length (snd (link_nodes pm i nds (adj, deg))) = length deg
    \<and> (\<forall>p < length adj. count_list (fst (link_nodes pm i nds (adj, deg)) ! p) j = count_list (adj ! p) j +
         (if i \<le> j \<and> j < i + length nds then count_list (List.map_filter pm (n_inputs (nds ! (j - i)))) p else 0))
    \<and> (j < length deg \<longrightarrow> snd (link_nodes pm i nds (adj, deg)) ! j = deg ! j +
         (if i \<le> j \<and> j < i + length nds then int (length (List.map_filter pm (n_inputs (nds ! (j - i))))) else 0))"
  using assms
proof (induction nds arbitrary: i adj deg)
  case (Cons nd nds)
  obtain adj1 deg1 where s: "link_inputs pm i (n_inputs nd) (adj, deg) = (adj1, deg1)"
    by (cases "link_inputs pm i (n_inputs nd) (adj, deg)")
  note one = link_inputs_spec [of i deg pm adj "n_inputs nd" j, unfolded s fst_conv snd_conv]
  note rest = Cons.IH [of "Suc i" deg1 adj1]
  have at: "(nd # nds) ! (j - i) = (if j = i then nd else nds ! (j - Suc i))" if "i \<le> j"
    using that by (auto simp: nth_Cons split: nat.splits) (metis Suc_diff_Suc diff_Suc_Suc le_neq_implies_less old.nat.inject)
  consider "j < i" | "j = i" | "i < j" by linarith
  then show ?case
    using one rest Cons.prems s at by cases auto
qed auto

lemma links_spec:
  "length (fst (links nds)) = length nds" "length (snd (links nds)) = length nds"
  "p < length nds \<Longrightarrow> count_list (fst (links nds) ! p) i = (if i < length nds then count_list (producers_of nds i) p else 0)"
  "i < length nds \<Longrightarrow> snd (links nds) ! i = int (length (producers_of nds i))"
proof -
  have pm: "\<forall>v p. value_producer nds v = Some p \<longrightarrow> p < length (replicate (length nds) ([] :: nat list))"
    by (simp add: value_producer_iff)
  note l = link_nodes_spec [of 0 nds "replicate (length nds) 0" "value_producer nds" "replicate (length nds) []",
      OF _ pm, folded links_def]
  show "length (fst (links nds)) = length nds" "length (snd (links nds)) = length nds" using l by simp_all
  show "p < length nds \<Longrightarrow> count_list (fst (links nds) ! p) i = (if i < length nds then count_list (producers_of nds i) p else 0)"
    using l [of i] by (simp add: producers_of_def)
  show "i < length nds \<Longrightarrow> snd (links nds) ! i = int (length (producers_of nds i))"
    using l [of i] by (simp add: producers_of_def)
qed

lemma producers_of_iff:
  "p \<in> set (producers_of nds i) \<longleftrightarrow> (\<exists>v \<in> set (n_inputs (nds ! i)). value_producer nds v = Some p)"
  by (auto simp: producers_of_def List.map_filter_def image_iff)

interpretation kahn: dependency_order "length nds" "producers_of nds" "fst (links nds)" for nds :: "'d graph_node list"
  by unfold_locales (auto simp: producers_of_iff value_producer_iff links_spec(3))

section \<open>The property\<close>

definition depends_on :: "'d graph \<Rightarrow> (nat \<times> nat) set" where
  "depends_on g = {(p, i). i < length (g_nodes g)
     \<and> (\<exists>v \<in> set (n_inputs (g_nodes g ! i)). value_producer (g_nodes g) v = Some p)}"

lemma depends_on_kahn: "depends_on g = dependency_order.depends (length (g_nodes g)) (producers_of (g_nodes g))"
  by (simp add: depends_on_def dependency_order.depends_def [OF kahn.dependency_order_axioms] producers_of_iff)

lemma topological_sort_eq:
  "topological_sort g = rbind (validate g) (\<lambda>_.
     let order = kahn_loop (fst (links (g_nodes g)))
           (filter (\<lambda>i. snd (links (g_nodes g)) ! i = 0) [0..<length (g_nodes g)]) (snd (links (g_nodes g))) []
     in if length order \<noteq> length (g_nodes g) then Inl (runtime_error ''graph has cycles'') else Inr order)"
  by (simp add: topological_sort_def links_def Let_def split: prod.splits)

lemma topological_sort_run:
  "\<exists>order deg. dependency_order.kahn_inv (length (g_nodes g)) (producers_of (g_nodes g)) order [] deg \<and>
     topological_sort g = rbind (validate g) (\<lambda>_.
       if length order \<noteq> length (g_nodes g) then Inl (runtime_error ''graph has cycles'') else Inr order)"
proof -
  let ?l = "links (g_nodes g)"
  have "dependency_order.kahn_inv (length (g_nodes g)) (producers_of (g_nodes g)) [] (filter (\<lambda>i. snd ?l ! i = 0) [0..<length (g_nodes g)]) (snd ?l)"
    by (rule kahn.kahn_inv_start) (simp_all add: links_spec)
  from kahn.kahn_loop_inv [OF this] show ?thesis unfolding topological_sort_eq Let_def by blast
qed

lemma topological_sort_invalid: "validate g = Inl e \<Longrightarrow> topological_sort g = Inl e"
  using topological_sort_run [of g] by auto

lemma topological_sort_acyclic:
  assumes "isOK (validate g)" and "acyclic (depends_on g)"
  shows "\<exists>order. topological_sort g = Inr order \<and> distinct order \<and> set order = {..<length (g_nodes g)}
        \<and> (\<forall>p i k. (p, i) \<in> depends_on g \<longrightarrow> k < length order \<longrightarrow> order ! k = i \<longrightarrow> p \<in> set (take k order))"
proof -
  obtain order deg where inv: "dependency_order.kahn_inv (length (g_nodes g)) (producers_of (g_nodes g)) order [] deg"
    and eq: "topological_sort g = rbind (validate g) (\<lambda>_.
       if length order \<noteq> length (g_nodes g) then Inl (runtime_error ''graph has cycles'') else Inr order)"
    using topological_sort_run [of g] by blast
  note fin = kahn.kahn_end [OF inv, folded depends_on_kahn]
  have before: "p \<in> set (take k order)" if "(p, i) \<in> depends_on g" "k < length order" "order ! k = i" for p i k
  proof -
    have "p \<in> set (producers_of (g_nodes g) (order ! k))"
      using that by (auto simp: depends_on_def producers_of_iff)
    with fin(3) [OF that(2)] show ?thesis by blast
  qed
  show ?thesis using eq assms fin(1,2) before by (auto simp: isOK_iff)
qed

lemma topological_sort_cyclic:
  assumes "isOK (validate g)" and "\<not> acyclic (depends_on g)"
  shows "topological_sort g = Inl (runtime_error ''graph has cycles'')"
proof -
  obtain order deg where inv: "dependency_order.kahn_inv (length (g_nodes g)) (producers_of (g_nodes g)) order [] deg"
    and eq: "topological_sort g = rbind (validate g) (\<lambda>_.
       if length order \<noteq> length (g_nodes g) then Inl (runtime_error ''graph has cycles'') else Inr order)"
    using topological_sort_run [of g] by blast
  show ?thesis using eq assms kahn.kahn_end(1,2) [OF inv, folded depends_on_kahn] by (auto simp: isOK_iff)
qed

lemma topological_sort_InrD:
  assumes "topological_sort g = Inr order"
  shows "distinct order" "set order = {..<length (g_nodes g)}"
    "(p, i) \<in> depends_on g \<Longrightarrow> k < length order \<Longrightarrow> order ! k = i \<Longrightarrow> p \<in> set (take k order)"
proof -
  have valid: "isOK (validate g)"
    using assms topological_sort_invalid [of g] by (cases "validate g") auto
  then have ok: "isOK (validate g)" "acyclic (depends_on g)"
    using assms topological_sort_cyclic [OF valid] by auto
  show "distinct order" "set order = {..<length (g_nodes g)}"
    "(p, i) \<in> depends_on g \<Longrightarrow> k < length order \<Longrightarrow> order ! k = i \<Longrightarrow> p \<in> set (take k order)"
    using topological_sort_acyclic [OF ok] assms by auto
qed

text \<open>C31. \<open>topological_sort\<close> succeeds exactly on the valid graphs without a cycle of dependencies,
  where a node depends on the last node that lists one of its inputs as an output. Then its result holds every node
  once and every node after all the nodes it depends on; a valid graph with a cycle gives the
  error "graph has cycles", an invalid one the error of \<open>validate\<close>.\<close>

theorem topological_sort_correct:
  "(\<forall>e. validate g = Inl e \<longrightarrow> topological_sort g = Inl e)
   \<and> (isOK (validate g) \<longrightarrow> \<not> acyclic (depends_on g) \<longrightarrow> topological_sort g = Inl (runtime_error ''graph has cycles''))
   \<and> (isOK (validate g) \<longrightarrow> acyclic (depends_on g) \<longrightarrow>
      (\<exists>order. topological_sort g = Inr order \<and> distinct order \<and> set order = {..<length (g_nodes g)}
        \<and> (\<forall>p i k. (p, i) \<in> depends_on g \<longrightarrow> k < length order \<longrightarrow> order ! k = i \<longrightarrow> p \<in> set (take k order))))"
  using topological_sort_invalid topological_sort_acyclic topological_sort_cyclic by blast

definition two_nodes :: "nat graph" where
  "two_nodes = \<lparr>g_values = replicate 3 \<lparr>v_id = 0, v_name = ''v'', v_shape = Shape [1], v_dtype = Float32,
       v_device = device_cpu, v_kind = KIntermediate\<rparr>,
     g_nodes = [make_node 0 OpSiLU ''b'' [1] [2], make_node 1 OpSiLU ''a'' [0] [1]]\<rparr>"

theorem topological_sort_correct_witness:
  "\<exists>order. topological_sort two_nodes = Inr order \<and> set order = {..<2}"
proof -
  have v: "isOK (validate two_nodes)"
    by (simp add: two_nodes_def validate_def make_node_def)
  have "depends_on two_nodes \<subseteq> {(1, 0)}"
    by (auto simp: depends_on_def two_nodes_def value_producer_iff make_node_def less_Suc_eq nth_Cons' split: if_splits)
  then have "acyclic (depends_on two_nodes)"
    by (rule acyclic_subset [rotated]) (simp add: acyclic_def trancl_insert)
  with v topological_sort_correct [of two_nodes] show ?thesis by (auto simp: two_nodes_def)
qed

end
