(* ===== verification/Shape_Infer.thy ===== *)
theory Shape_Infer
  imports Core_Types
begin

text \<open>
  Shape inference (src/graph/shape_infer.cpp). A dimension \<open>-1\<close> is unknown until run time and
  passes every check. \<open>Shape(\<dots>)\<close> is the checking constructor \<open>make_shape\<close>; \<open>int64_t\<close>
  arithmetic that could leave its range is undefined behaviour.
\<close>

section \<open>The rules\<close>

abbreviation show_shapes :: "string \<Rightarrow> shape \<Rightarrow> string \<Rightarrow> shape \<Rightarrow> string" where
  "show_shapes p a m b \<equiv> p @ shape_to_string a @ m @ shape_to_string b"

text \<open>Two dimensions clash when both are known and differ.\<close>

definition dims_clash :: "int \<Rightarrow> int \<Rightarrow> bool" where
  "dims_clash a b \<longleftrightarrow> 0 \<le> a \<and> 0 \<le> b \<and> a \<noteq> b"

definition infer_matmul_shape :: "shape \<Rightarrow> shape \<Rightarrow> shape result" where
  "infer_matmul_shape a b =
     (if shape_rank a \<noteq> 2 \<or> shape_rank b \<noteq> 2 then
        Inl (shape_mismatch (show_shapes ''MatMul expects rank-2 inputs, got '' a '' and '' b))
      else if dims_clash (dims a ! 1) (dims b ! 0) then
        Inl (shape_mismatch (show_shapes ''MatMul inner dims mismatch: '' a '' x '' b))
      else make_shape [dims a ! 0, dims b ! 1])"

definition infer_linear_shape :: "shape \<Rightarrow> shape \<Rightarrow> shape result" where
  "infer_linear_shape x w =
     (if shape_rank w \<noteq> 2 then
        Inl (shape_mismatch (''Linear weight must be rank 2, got '' @ shape_to_string w))
      else if shape_rank x < 1 then
        Inl (shape_mismatch (''Linear input must have rank >= 1, got '' @ shape_to_string x))
      else if dims_clash (dims x ! (shape_rank x - 1)) (dims w ! 1) then
        Inl (shape_mismatch (show_shapes ''Linear in_features mismatch: x '' x '' vs weight '' w))
      else make_shape (take (shape_rank x - 1) (dims x) @ [dims w ! 0]))"

fun check_axes :: "string \<Rightarrow> shape \<Rightarrow> shape \<Rightarrow> nat \<Rightarrow> int list \<Rightarrow> int list \<Rightarrow> unit result" where
  "check_axes what a b i (da # das) (db # dbs) =
     (if dims_clash da db then
        Inl (shape_mismatch (show_shapes (what @ '' dim mismatch at axis '' @ nat_to_string i @ '': '') a '' vs '' b))
      else check_axes what a b (Suc i) das dbs)"
| "check_axes what a b i _ _ = make_ok"

definition infer_elementwise_shape :: "shape \<Rightarrow> shape \<Rightarrow> shape result" where
  "infer_elementwise_shape a b =
     (if shape_rank a \<noteq> shape_rank b then
        Inl (shape_mismatch (show_shapes ''Elementwise op requires same rank: '' a '' vs '' b))
      else rbind (check_axes ''Elementwise'' a b 0 (dims a) (dims b)) (\<lambda>_. Inr a))"

definition infer_add_shape :: "shape \<Rightarrow> shape \<Rightarrow> shape result" where
  "infer_add_shape a b =
     (if shape_rank a \<noteq> shape_rank b then
        Inl (shape_mismatch (show_shapes ''Add requires same rank: '' a '' vs '' b))
      else rbind (check_axes ''Add'' a b 0 (dims a) (dims b)) (\<lambda>_. Inr a))"

definition infer_same_shape_unary :: "shape \<Rightarrow> shape result" where
  "infer_same_shape_unary x = Inr x"

definition infer_embedding_shape :: "shape \<Rightarrow> shape \<Rightarrow> shape result" where
  "infer_embedding_shape ids w =
     (if shape_rank ids < 1 \<or> shape_rank w \<noteq> 2 then
        Inl (shape_mismatch (show_shapes ''Embedding expects input_ids rank>=1 and weight rank 2, got '' ids '' and '' w))
      else make_shape (dims ids @ [dims w ! 1]))"

text \<open>The scan of the target: the inferred axis, \<open>-1\<close> if there is none, and the product of the others.\<close>

fun reshape_scan :: "shape \<Rightarrow> nat \<Rightarrow> int list \<Rightarrow> int \<Rightarrow> int \<Rightarrow> (int \<times> int) result" where
  "reshape_scan target i [] axis known = Inr (axis, known)"
| "reshape_scan target i (d # ds) axis known =
     (if d = -1 then
        if 0 \<le> axis then
          Inl (shape_mismatch (''Reshape target can contain at most one inferred dim: '' @ shape_to_string target))
        else reshape_scan target (Suc i) ds (int i) known
      else if d \<le> 0 then
        Inl (shape_mismatch (''Reshape target dims must be positive or -1: '' @ shape_to_string target))
      else rbind (cint64 (known * d)) (\<lambda>known'. reshape_scan target (Suc i) ds axis known'))"

definition infer_reshape_shape :: "shape \<Rightarrow> shape \<Rightarrow> shape result" where
  "infer_reshape_shape inp target = rbind (reshape_scan target 0 (dims target) (-1) 1) (\<lambda>(axis, known).
     if has_dynamic_dim inp then Inr target
     else rbind (numel inp) (\<lambda>n.
       if 0 \<le> axis then
         if known = 0 \<or> cmod (to_int64 n) known \<noteq> Inr 0 then
           Inl (shape_mismatch (show_shapes ''Reshape cannot infer target dim for '' inp '' -> '' target))
         else rbind (cdiv (to_int64 n) known) (\<lambda>q. make_shape ((dims target)[nat axis := q]))
       else rbind (numel target) (\<lambda>m.
         if n \<noteq> m then Inl (shape_mismatch (show_shapes ''Reshape element count mismatch: '' inp '' -> '' target))
         else Inr target)))"

definition infer_transpose_shape :: "shape \<Rightarrow> int \<Rightarrow> int \<Rightarrow> shape result" where
  "infer_transpose_shape inp axis0 axis1 =
     (let rank = int (shape_rank inp) in
      if rank \<le> 0 then
        Inl (shape_mismatch (''Transpose expects rank >= 1, got '' @ shape_to_string inp))
      else
        let a0 = (if axis0 < 0 then axis0 + rank else axis0); a1 = (if axis1 < 0 then axis1 + rank else axis1)
        in if a0 < 0 \<or> rank \<le> a0 \<or> a1 < 0 \<or> rank \<le> a1 then
             Inl (out_of_range (''Transpose axes out of range for shape '' @ shape_to_string inp))
           else make_shape ((dims inp)[nat a0 := dims inp ! nat a1, nat a1 := dims inp ! nat a0]))"

lemmas infer_defs = infer_matmul_shape_def infer_linear_shape_def infer_elementwise_shape_def infer_add_shape_def
  infer_same_shape_unary_def infer_embedding_shape_def infer_transpose_shape_def

section \<open>Inferred shapes are well formed\<close>

lemma wf_dims_nth [intro]: "wf_dims ds \<Longrightarrow> i < length ds \<Longrightarrow> ds ! i = -1 \<or> 0 < ds ! i"
  by (auto simp: wf_dims_def)

lemma wf_dims_take [intro]: "wf_dims ds \<Longrightarrow> wf_dims (take n ds)"
  by (auto simp: wf_dims_def dest: in_set_takeD)

lemma wf_dims_update [intro]: "wf_dims ds \<Longrightarrow> d = -1 \<or> 0 < d \<Longrightarrow> wf_dims (ds[i := d])"
  using set_update_subset_insert [of ds i d] by (auto simp: wf_dims_def)

lemma infer_wf:
  assumes "wf_shape a" and "wf_shape b"
  shows "infer_matmul_shape a b = Inr s \<Longrightarrow> wf_shape s"
    "infer_linear_shape a b = Inr s \<Longrightarrow> wf_shape s"
    "infer_elementwise_shape a b = Inr s \<Longrightarrow> wf_shape s"
    "infer_add_shape a b = Inr s \<Longrightarrow> wf_shape s"
    "infer_same_shape_unary a = Inr s \<Longrightarrow> wf_shape s"
    "infer_embedding_shape a b = Inr s \<Longrightarrow> wf_shape s"
    "infer_transpose_shape a x y = Inr s \<Longrightarrow> wf_shape s"
  using assms by (auto simp: infer_defs rbind_Inr_iff Let_def split: if_splits)

text \<open>The rules on well-formed shapes fail with a status, never with the constructor's exception.\<close>

lemma check_axes_status: "check_axes w a b i das dbs = Inl e \<Longrightarrow> is_status e"
  by (induction w a b i das dbs rule: check_axes.induct) (auto split: if_splits)

lemma infer_status:
  assumes "wf_shape a" and "wf_shape b"
  shows "infer_matmul_shape a b = Inl e \<Longrightarrow> is_status e"
    "infer_linear_shape a b = Inl e \<Longrightarrow> is_status e"
    "infer_elementwise_shape a b = Inl e \<Longrightarrow> is_status e"
    "infer_add_shape a b = Inl e \<Longrightarrow> is_status e"
    "infer_embedding_shape a b = Inl e \<Longrightarrow> is_status e"
    "infer_transpose_shape a x y = Inl e \<Longrightarrow> is_status e"
proof -
  have no_throw: "make_shape ds \<noteq> Inl e" if "wf_dims ds" for ds
    using make_shape_ok [OF that] by (cases "make_shape ds") (auto simp del: make_shape_iff)
  have d: "wf_dims [dims a ! 0, dims b ! 1]" if "shape_rank a = 2" "shape_rank b = 2"
    using that assms by (simp add: shape_rank_def wf_dims_nth)
  have l: "wf_dims (take n (dims a) @ [dims b ! 0])" if "shape_rank b = 2" for n
    using that assms by (simp add: shape_rank_def wf_dims_nth wf_dims_take)
  have m: "wf_dims (dims a @ [dims b ! 1])" if "shape_rank b = 2"
    using that assms by (simp add: shape_rank_def wf_dims_nth)
  have t: "wf_dims ((dims a)[i := dims a ! j, j := dims a ! i])" if "i < length (dims a)" "j < length (dims a)" for i j
    using that assms by (simp add: wf_dims_nth wf_dims_update)
  show "infer_matmul_shape a b = Inl e \<Longrightarrow> is_status e"
    using no_throw [OF d] by (auto simp: infer_matmul_shape_def split: if_splits)
  show "infer_linear_shape a b = Inl e \<Longrightarrow> is_status e"
    using no_throw [OF l] by (auto simp: infer_linear_shape_def split: if_splits)
  show "infer_elementwise_shape a b = Inl e \<Longrightarrow> is_status e" "infer_add_shape a b = Inl e \<Longrightarrow> is_status e"
    using check_axes_status by (auto simp: infer_defs rbind_Inl_iff split: if_splits)
  show "infer_embedding_shape a b = Inl e \<Longrightarrow> is_status e"
    using no_throw [OF m] by (auto simp: infer_embedding_shape_def split: if_splits)
  show "infer_transpose_shape a x y = Inl e \<Longrightarrow> is_status e"
    using no_throw [OF t] by (auto simp: infer_transpose_shape_def shape_rank_def Let_def nat_less_iff split: if_splits)
qed

section \<open>Reshape\<close>

definition known_dims :: "int list \<Rightarrow> int list" where
  "known_dims ds = filter (\<lambda>d. d \<noteq> -1) ds"

lemma known_volume_pos: "wf_dims ds \<Longrightarrow> 0 < volume (known_dims ds)"
  by (rule volume_pos) (auto simp: known_dims_def wf_dims_def)

lemma reshape_scan_sound:
  assumes "wf_dims ds" and "0 < known" and "reshape_scan t i ds axis known = Inr (axis', known')"
  shows "known' = known * int (volume (known_dims ds))
    \<and> (if 0 \<le> axis then axis' = axis \<and> -1 \<notin> set ds
       else if -1 \<in> set ds then (\<exists>k < length ds. axis' = int (i + k) \<and> ds ! k = -1
              \<and> (\<forall>j < length ds. j \<noteq> k \<longrightarrow> ds ! j \<noteq> -1))
       else axis' = axis)"
  using assms
proof (induction t i ds axis known rule: reshape_scan.induct)
  case (2 target i d ds axis known)
  show ?case
  proof (cases "d = -1")
    case True
    then have ax: "\<not> 0 \<le> axis" and rest: "reshape_scan target (Suc i) ds (int i) known = Inr (axis', known')"
      using 2(5) by (auto split: if_splits)
    from 2(1) [OF True ax] 2(3,4) rest have "known' = known * int (volume (known_dims ds))" "axis' = int i" "-1 \<notin> set ds"
      by auto
    moreover have "\<forall>j < length (d # ds). j \<noteq> 0 \<longrightarrow> (d # ds) ! j \<noteq> -1"
      using calculation(3) by (auto simp: nth_Cons' in_set_conv_nth)
    ultimately show ?thesis using True ax by (auto simp: known_dims_def intro!: exI [of _ 0])
  next
    case False
    then have d: "0 < d" and k: "int64_ok (known * d)"
      and rest: "reshape_scan target (Suc i) ds axis (known * d) = Inr (axis', known')"
      using 2(3,5) by (auto simp: rbind_Inr_iff split: if_splits)
    have "known' = known * d * int (volume (known_dims ds))
      \<and> (if 0 \<le> axis then axis' = axis \<and> -1 \<notin> set ds
         else if -1 \<in> set ds then (\<exists>k < length ds. axis' = int (Suc i + k) \<and> ds ! k = -1
                \<and> (\<forall>j < length ds. j \<noteq> k \<longrightarrow> ds ! j \<noteq> -1))
         else axis' = axis)"
      by (rule 2(2) [OF False]) (use d 2(3,4) rest in auto)
    moreover have "\<exists>k < length (d # ds). axis' = int (i + k) \<and> (d # ds) ! k = -1
        \<and> (\<forall>j < length (d # ds). j \<noteq> k \<longrightarrow> (d # ds) ! j \<noteq> -1)"
      if "k < length ds" "axis' = int (Suc i + k)" "ds ! k = -1" "\<forall>j < length ds. j \<noteq> k \<longrightarrow> ds ! j \<noteq> -1" for k
      using that False by (intro exI [of _ "Suc k"]) (auto simp: nth_Cons' less_Suc_eq_0_disj)
    ultimately show ?thesis using False d by (auto simp: known_dims_def)
  qed
qed (auto simp: known_dims_def)

lemma volume_append [simp]: "volume (xs @ ys) = volume xs * volume ys"
  by (simp add: volume_def)

lemma volume_fill_axis:
  assumes "k < length ds" and "ds ! k = -1" and "\<forall>j < length ds. j \<noteq> k \<longrightarrow> ds ! j \<noteq> -1"
  shows "volume (ds[k := q]) = nat q * volume (known_dims ds)"
    "set (ds[k := q]) = insert q (set (known_dims ds))"
proof -
  let ?a = "take k ds" and ?b = "drop (Suc k) ds"
  have ds: "ds = ?a @ -1 # ?b" using assms(1,2) by (metis id_take_nth_drop)
  have a: "-1 \<notin> set ?a" using assms(1,3) by (auto simp: in_set_conv_nth)
  have b: "-1 \<notin> set ?b"
  proof
    assume "-1 \<in> set ?b"
    then obtain j where "j < length ?b" "?b ! j = -1" by (auto simp: in_set_conv_nth)
    with assms(3) [rule_format, of "Suc k + j"] show False by auto
  qed
  have known: "known_dims ds = ?a @ ?b"
  proof -
    have drop_none: "filter (\<lambda>d. d \<noteq> -1) xs = xs" if "-1 \<notin> set xs" for xs :: "int list"
      using that by (auto simp: filter_id_conv)
    have "known_dims ds = filter (\<lambda>d. d \<noteq> -1) ?a @ filter (\<lambda>d. d \<noteq> -1) ?b"
      by (subst ds) (simp add: known_dims_def)
    then show ?thesis using drop_none [OF a] drop_none [OF b] by simp
  qed
  have upd: "ds[k := q] = ?a @ q # ?b" using assms(1) by (simp add: upd_conv_take_nth_drop)
  show "volume (ds[k := q]) = nat q * volume (known_dims ds)" by (simp add: upd known)
  show "set (ds[k := q]) = insert q (set (known_dims ds))" by (auto simp: upd known)
qed

lemma reshape_scan_complete:
  assumes "wf_dims ds" and "0 < known" and "known * int (volume (known_dims ds)) < 2 ^ 63"
    and "0 \<le> axis \<Longrightarrow> -1 \<notin> set ds" and "length (filter (\<lambda>d. d = -1) ds) \<le> 1"
  shows "isOK (reshape_scan t i ds axis known)"
  using assms
proof (induction t i ds axis known rule: reshape_scan.induct)
  case (2 target i d ds axis known)
  show ?case
  proof (cases "d = -1")
    case True
    then have "\<not> 0 \<le> axis" "-1 \<notin> set ds" "length (filter (\<lambda>d. d = -1) ds) \<le> 1"
      using 2(6,7) by (auto simp: filter_empty_conv)
    with True 2(1,3-5) show ?thesis by (simp add: known_dims_def)
  next
    case False
    then have d: "0 < d" using 2(3) by simp
    have "known * d * 1 \<le> known * d * int (volume (known_dims ds))"
      using known_volume_pos [of ds] 2(3,4) d by (intro mult_left_mono) simp_all
    moreover have total: "known * d * int (volume (known_dims ds)) < 2 ^ 63"
      using 2(5) False d by (simp add: known_dims_def mult.assoc)
    ultimately have "known * d < 2 ^ 63" by linarith
    then have k: "int64_ok (known * d)" using d 2(4) by (simp add: int64_ok_def) (smt (verit) mult_pos_pos)
    have "isOK (reshape_scan target (Suc i) ds axis (known * d))"
      by (rule 2(2) [OF False]) (use d 2(3,4,6,7) total False in auto)
    with False d k show ?thesis by (simp add: cint64_ok)
  qed
qed simp

text \<open>A shape is a solution of a reshape when it agrees with the target wherever that is known.\<close>

definition reshape_solution :: "nat \<Rightarrow> shape \<Rightarrow> shape \<Rightarrow> bool" where
  "reshape_solution n target out \<longleftrightarrow> length (dims out) = length (dims target) \<and> (\<forall>d \<in> set (dims out). 0 < d)
     \<and> volume (dims out) = n \<and> (\<forall>i < length (dims target). dims target ! i \<noteq> -1 \<longrightarrow> dims out ! i = dims target ! i)"

lemma solution_known_volume:
  assumes "wf_dims ds" and "length es = length ds" and "\<forall>e \<in> set es. 0 < e"
    and "\<forall>i < length ds. ds ! i \<noteq> -1 \<longrightarrow> es ! i = ds ! i"
  shows "volume (known_dims ds) dvd volume es"
  using assms
proof (induction ds arbitrary: es)
  case (Cons d ds)
  then obtain e es' where es: "es = e # es'" by (cases es) auto
  have agree: "\<forall>i < length ds. ds ! i \<noteq> -1 \<longrightarrow> es' ! i = ds ! i" using Cons.prems(4) es by auto
  have ih: "volume (known_dims ds) dvd volume es'"
    by (rule Cons.IH) (use Cons.prems es agree in auto)
  have "d \<noteq> -1 \<Longrightarrow> e = d" using Cons.prems(4) es by (metis nth_Cons_0 length_greater_0_conv list.distinct(1))
  with ih es show ?case by (auto simp: known_dims_def intro: mult_dvd_mono)
qed (simp add: known_dims_def)

lemma reshape_infer_sound:
  assumes wf: "wf_shape inp" "wf_shape target" and n: "numel inp = Inr n" "n < 2 ^ 63"
    and run: "infer_reshape_shape inp target = Inr out"
  shows "reshape_solution n target out"
proof -
  let ?ds = "dims target" and ?kv = "volume (known_dims (dims target))"
  have nv: "\<not> has_dynamic_dim inp" "n = volume (dims inp)" using n(1) numel_Inr_iff [OF wf(1)] by simp_all
  then have pos: "0 < n" using volume_pos [of "dims inp"] static_iff [OF wf(1)] by simp
  have n64: "to_int64 n = int n" using n(2) by (rule to_int64_small)
  obtain axis known where scan: "reshape_scan target 0 ?ds (-1) 1 = Inr (axis, known)"
    using run by (auto simp: infer_reshape_shape_def rbind_Inr_iff)
  from reshape_scan_sound [OF wf(2) _ scan] have known: "known = int ?kv"
    and axis: "if -1 \<in> set ?ds then (\<exists>k < length ?ds. axis = int k \<and> ?ds ! k = -1
        \<and> (\<forall>j < length ?ds. j \<noteq> k \<longrightarrow> ?ds ! j \<noteq> -1)) else axis = -1" by auto
  have kv: "0 < ?kv" by (rule known_volume_pos [OF wf(2)])
  show ?thesis
  proof (cases "-1 \<in> set ?ds")
    case True
    then obtain k where k: "k < length ?ds" "axis = int k" "?ds ! k = -1" "\<forall>j < length ?ds. j \<noteq> k \<longrightarrow> ?ds ! j \<noteq> -1"
      using axis by auto
    have div: "int n mod known = 0" and out: "out = Shape (?ds[k := int n div known])"
      using run scan nv n(1) k(2) n64 known kv by (auto simp: infer_reshape_shape_def rbind_Inr_iff split: if_splits)
    then have nk: "n = (n div ?kv) * ?kv" by (simp add: known flip: zmod_int) (metis mod_0_imp_dvd dvd_div_mult_self)
    have q: "int n div known = int (n div ?kv)" by (simp add: known zdiv_int)
    have "0 < n div ?kv" using nk pos by (metis gr0I mult_0)
    moreover have "\<forall>d \<in> set (known_dims ?ds). 0 < d" using wf(2) by (auto simp: known_dims_def wf_dims_def)
    ultimately show ?thesis
      using volume_fill_axis [OF k(1,3,4), of "int (n div ?kv)"] nk k
      by (auto simp: reshape_solution_def out q nth_list_update)
  next
    case False
    then have "numel target = Inr n" "out = target"
      using run scan nv n(1) axis by (auto simp: infer_reshape_shape_def rbind_Inr_iff split: if_splits)
    then show ?thesis
      using numel_Inr_iff [OF wf(2)] static_iff [OF wf(2)] by (simp add: reshape_solution_def)
  qed
qed

lemma reshape_infer_complete:
  assumes wf: "wf_shape inp" "wf_shape target" and n: "numel inp = Inr n" "n < 2 ^ 63"
    and sol: "reshape_solution n target out" and one: "length (filter (\<lambda>d. d = -1) (dims target)) \<le> 1"
  shows "infer_reshape_shape inp target = Inr out"
proof -
  let ?ds = "dims target" and ?kv = "volume (known_dims (dims target))"
  have nv: "\<not> has_dynamic_dim inp" "n = volume (dims inp)" using n(1) numel_Inr_iff [OF wf(1)] by simp_all
  then have pos: "0 < n" using volume_pos [of "dims inp"] static_iff [OF wf(1)] by simp
  have n64: "to_int64 n = int n" using n(2) by (rule to_int64_small)
  have kv: "0 < ?kv" by (rule known_volume_pos [OF wf(2)])
  have vol: "volume (dims out) = n" and len: "length (dims out) = length ?ds" and opos: "\<forall>d \<in> set (dims out). 0 < d"
    and agree: "\<forall>i < length ?ds. ?ds ! i \<noteq> -1 \<longrightarrow> dims out ! i = ?ds ! i"
    using sol by (simp_all add: reshape_solution_def)
  have "?kv dvd n" using solution_known_volume [OF wf(2) len opos agree] vol by simp
  then have "?kv \<le> n" using pos by (intro dvd_imp_le)
  then have "int ?kv \<le> int n" "int n < 2 ^ 63" using n(2) by simp_all
  then have "isOK (reshape_scan target 0 ?ds (-1) 1)" using one wf(2) by (intro reshape_scan_complete) simp_all
  then obtain axis known where scan: "reshape_scan target 0 ?ds (-1) 1 = Inr (axis, known)" by (auto simp: isOK_iff)
  from reshape_scan_sound [OF wf(2) _ scan] have known: "known = int ?kv"
    and axis: "if -1 \<in> set ?ds then (\<exists>k < length ?ds. axis = int k \<and> ?ds ! k = -1
        \<and> (\<forall>j < length ?ds. j \<noteq> k \<longrightarrow> ?ds ! j \<noteq> -1)) else axis = -1" by auto
  show ?thesis
  proof (cases "-1 \<in> set ?ds")
    case True
    then obtain k where k: "k < length ?ds" "axis = int k" "?ds ! k = -1" "\<forall>j < length ?ds. j \<noteq> k \<longrightarrow> ?ds ! j \<noteq> -1"
      using axis by auto
    have out: "dims out = ?ds[k := dims out ! k]"
      using len agree k by (intro nth_equalityI) (auto simp: nth_list_update)
    have ok: "0 < dims out ! k" using opos k(1) len by simp
    have "n = nat (dims out ! k) * ?kv" using volume_fill_axis(1) [OF k(1,3,4), of "dims out ! k"] out vol by metis
    then have "int n = dims out ! k * known" using ok by (simp add: known)
    then have d: "int n mod known = 0" "int n div known = dims out ! k" using kv by (simp_all add: known)
    have "wf_dims (?ds[k := dims out ! k])" using wf(2) ok by (intro wf_dims_update) simp_all
    then have "infer_reshape_shape inp target = Inr (Shape (?ds[k := dims out ! k]))"
      using scan nv n(1) k(2) n64 d known kv by (simp add: infer_reshape_shape_def)
    then show ?thesis using out by (metis shape.collapse)
  next
    case False
    then have "dims out = ?ds" using len agree by (intro nth_equalityI) (metis nth_mem)+
    then have eq: "out = target" by (simp add: shape.expand)
    then have "\<not> has_dynamic_dim target" using opos static_iff [OF wf(2)] by simp
    moreover have "volume ?ds < 2 ^ 64" using vol n(2) eq by simp
    ultimately have "numel target = Inr n" using vol eq numel_Inr_iff [OF wf(2)] by simp
    then show ?thesis using scan nv n(1) axis False eq by (simp add: infer_reshape_shape_def)
  qed
qed

section \<open>Properties\<close>

text \<open>Reshape inference is exact: for a static input of \<open>n\<close> elements and a target with at most one
  \<open>-1\<close>, it returns a shape exactly when the target can be completed to \<open>n\<close> elements, and then the
  completion, which is unique. On every other pair it returns no shape.\<close>

theorem reshape_inference_exact:
  assumes "make_shape ids = Inr inp" and "make_shape tds = Inr target" and "numel inp = Inr n" and "n < 2 ^ 63"
    and "length (filter (\<lambda>d. d = -1) (dims target)) \<le> 1"
  shows "infer_reshape_shape inp target = Inr out \<longleftrightarrow> reshape_solution n target out"
proof -
  have wf: "wf_shape inp" "wf_shape target" using assms(1,2) by auto
  show ?thesis using reshape_infer_sound [OF wf assms(3,4)] reshape_infer_complete [OF wf assms(3,4) _ assms(5)] by blast
qed

theorem reshape_inference_exact_witness:
  "reshape_solution 6 (Shape [2, -1]) (Shape [2, 3])"
proof -
  have s: "make_shape [6] = Inr (Shape [6])" "make_shape [2, -1] = Inr (Shape [2, -1])" by simp_all
  have n: "numel (Shape [6]) = Inr 6" by (simp add: numel_def has_dynamic_dim_def)
  have "infer_reshape_shape (Shape [6]) (Shape [2, -1]) = Inr (Shape [2, 3])"
    by (simp add: infer_reshape_shape_def cint64_ok int64_ok_def has_dynamic_dim_def n to_int64_small)
  then show ?thesis using reshape_inference_exact [OF s n, of "Shape [2, 3]"] by simp
qed

text \<open>The product of the target dimensions is an unchecked \<open>int64_t\<close>: two dimensions of
  \<open>2 ^ 32\<close>, which the constructor accepts, make the multiplication overflow, which is undefined
  behaviour, before any check of the element count could refuse the target.\<close>

theorem reshape_known_product_overflows:
  "make_shape [2 ^ 32, 2 ^ 32] = Inr (Shape [2 ^ 32, 2 ^ 32])
   \<and> (\<exists>m. infer_reshape_shape inp (Shape [2 ^ 32, 2 ^ 32]) = Inl (UB m))"
  by (simp add: infer_reshape_shape_def cint64_def int64_ok_def)

end
