(* ===== verification/Graph_Builder.thy ===== *)
theory Graph_Builder
  imports Graph_Order Shape_Infer State_Machine
begin

text \<open>
  \<open>GraphBuilder\<close> (include/minillm/graph/graph_builder.h, src/graph/graph_builder.cpp): each method looks
  its operands up, infers the shape of the result, adds an intermediate value and the node that
  produces it, and sets the node's attributes. \<open>'d\<close> is \<open>double\<close>, as in the graph.
\<close>

section \<open>The common steps\<close>

definition make_intermediate :: "string \<Rightarrow> shape \<Rightarrow> dtype \<Rightarrow> device \<Rightarrow> 'd graph \<Rightarrow> value_id result \<times> 'd graph" where
  "make_intermediate nm sh t d g = add_value nm sh t d KIntermediate g"

text \<open>The lines that end every method: the value \<open>name.out\<close>, the node, its attributes.\<close>

definition emit ::
  "op_type \<Rightarrow> string \<Rightarrow> value_id list \<Rightarrow> shape \<Rightarrow> dtype \<Rightarrow> device \<Rightarrow> (string \<times> 'd attribute_value) list
   \<Rightarrow> 'd graph \<Rightarrow> value_id result \<times> 'd graph"
where
  "emit op nm ins sh t d attrs g =
     sbind (make_intermediate (nm @ ''.out'') sh t d g) (\<lambda>out g1.
       sbind (add_node op nm ins [out] g1) (\<lambda>nid g2.
         (Inr out, snd (mutable_node nid (\<lambda>nd. foldl (\<lambda>nd (k, v). set_attr k v nd) nd attrs) g2))))"

text \<open>A lookup or an inference in the middle of a method.\<close>

definition step_result :: "'a result \<Rightarrow> 'g \<Rightarrow> ('a \<Rightarrow> 'b result \<times> 'g) \<Rightarrow> 'b result \<times> 'g" where
  "step_result r g f = sbind (r, g) (\<lambda>x _. f x)"

lemma step_result_simps [simp]:
  "step_result (Inl e) g f = (Inl e, g)" "step_result (Inr x) g f = f x"
  by (simp_all add: step_result_def)

section \<open>The methods\<close>

definition b_input :: "string \<Rightarrow> shape \<Rightarrow> dtype \<Rightarrow> device \<Rightarrow> 'd graph \<Rightarrow> value_id result \<times> 'd graph" where
  "b_input nm sh t d g = add_value nm sh t d KInput g"

definition b_constant :: "string \<Rightarrow> shape \<Rightarrow> dtype \<Rightarrow> device \<Rightarrow> 'd graph \<Rightarrow> value_id result \<times> 'd graph" where
  "b_constant nm sh t d g = add_value nm sh t d KConstant g"

definition b_embedding :: "value_id \<Rightarrow> value_id \<Rightarrow> string \<Rightarrow> 'd graph \<Rightarrow> value_id result \<times> 'd graph" where
  "b_embedding input_ids weight nm g =
     step_result (g_value input_ids g) g (\<lambda>iv. step_result (g_value weight g) g (\<lambda>wv.
       step_result (infer_embedding_shape (v_shape iv) (v_shape wv)) g (\<lambda>sh.
         emit OpEmbedding nm [input_ids, weight] sh (v_dtype wv) (v_device wv) [] g)))"

definition b_matmul :: "value_id \<Rightarrow> value_id \<Rightarrow> string \<Rightarrow> 'd graph \<Rightarrow> value_id result \<times> 'd graph" where
  "b_matmul a b nm g =
     step_result (g_value a g) g (\<lambda>av. step_result (g_value b g) g (\<lambda>bv.
       step_result (infer_matmul_shape (v_shape av) (v_shape bv)) g (\<lambda>sh.
         emit OpMatMul nm [a, b] sh (v_dtype av) (v_device av) [] g)))"

definition b_linear :: "value_id \<Rightarrow> value_id \<Rightarrow> value_id option \<Rightarrow> string \<Rightarrow> 'd graph \<Rightarrow> value_id result \<times> 'd graph" where
  "b_linear x weight bias nm g =
     step_result (g_value x g) g (\<lambda>xv. step_result (g_value weight g) g (\<lambda>wv.
       step_result (infer_linear_shape (v_shape xv) (v_shape wv)) g (\<lambda>sh.
         step_result (case bias of
             None \<Rightarrow> make_ok
           | Some b \<Rightarrow> rbind (g_value b g) (\<lambda>bv.
               if shape_rank (v_shape bv) \<noteq> 1 \<or> dims (v_shape bv) ! 0 \<noteq> dims (v_shape wv) ! 0
               then Inl (shape_mismatch (''Linear bias must have shape ['' @ int_to_string (dims (v_shape wv) ! 0) @
                 ''], got '' @ shape_to_string (v_shape bv)))
               else make_ok)) g (\<lambda>_.
           emit OpLinear nm ([x, weight] @ (case bias of None \<Rightarrow> [] | Some b \<Rightarrow> [b])) sh
             (v_dtype wv) (v_device wv) [] g))))"

definition b_add :: "value_id \<Rightarrow> value_id \<Rightarrow> string \<Rightarrow> 'd graph \<Rightarrow> value_id result \<times> 'd graph" where
  "b_add a b nm g =
     step_result (g_value a g) g (\<lambda>av. step_result (g_value b g) g (\<lambda>bv.
       step_result (infer_add_shape (v_shape av) (v_shape bv)) g (\<lambda>sh.
         emit OpAdd nm [a, b] sh (v_dtype av) (v_device av) [] g)))"

definition b_mul :: "value_id \<Rightarrow> value_id \<Rightarrow> string \<Rightarrow> 'd graph \<Rightarrow> value_id result \<times> 'd graph" where
  "b_mul a b nm g =
     step_result (g_value a g) g (\<lambda>av. step_result (g_value b g) g (\<lambda>bv.
       step_result (infer_elementwise_shape (v_shape av) (v_shape bv)) g (\<lambda>sh.
         emit OpMul nm [a, b] sh (v_dtype av) (v_device av) [] g)))"

definition b_rms_norm :: "value_id \<Rightarrow> value_id \<Rightarrow> 'd \<Rightarrow> string \<Rightarrow> 'd graph \<Rightarrow> value_id result \<times> 'd graph" where
  "b_rms_norm x weight eps nm g =
     step_result (g_value x g) g (\<lambda>xv. step_result (infer_same_shape_unary (v_shape xv)) g (\<lambda>sh.
       emit OpRMSNorm nm [x, weight] sh (v_dtype xv) (v_device xv) [(''eps'', AttrDouble eps)] g))"

definition b_silu :: "value_id \<Rightarrow> string \<Rightarrow> 'd graph \<Rightarrow> value_id result \<times> 'd graph" where
  "b_silu x nm g =
     step_result (g_value x g) g (\<lambda>xv. step_result (infer_same_shape_unary (v_shape xv)) g (\<lambda>sh.
       emit OpSiLU nm [x] sh (v_dtype xv) (v_device xv) [] g))"

definition b_swiglu :: "value_id \<Rightarrow> value_id \<Rightarrow> string \<Rightarrow> 'd graph \<Rightarrow> value_id result \<times> 'd graph" where
  "b_swiglu gate up nm g =
     step_result (g_value gate g) g (\<lambda>gv. step_result (g_value up g) g (\<lambda>uv.
       step_result (infer_elementwise_shape (v_shape gv) (v_shape uv)) g (\<lambda>sh.
         emit OpSwiGLU nm [gate, up] sh (v_dtype gv) (v_device gv) [] g)))"

definition b_rope :: "value_id \<Rightarrow> int \<Rightarrow> int \<Rightarrow> 'd \<Rightarrow> string \<Rightarrow> 'd graph \<Rightarrow> value_id result \<times> 'd graph" where
  "b_rope x num_heads hdim rope_base nm g =
     step_result (g_value x g) g (\<lambda>xv. step_result (infer_same_shape_unary (v_shape xv)) g (\<lambda>sh.
       emit OpRoPE nm [x] sh (v_dtype xv) (v_device xv)
         [(''num_heads'', AttrInt num_heads), (''head_dim'', AttrInt hdim), (''rope_base'', AttrDouble rope_base)] g))"

definition b_attention ::
  "value_id \<Rightarrow> value_id \<Rightarrow> value_id \<Rightarrow> bool \<Rightarrow> int \<Rightarrow> int \<Rightarrow> int \<Rightarrow> int \<Rightarrow> string \<Rightarrow> 'd graph
   \<Rightarrow> value_id result \<times> 'd graph"
where
  "b_attention q k v causal num_heads num_kv_heads hdim layer_idx nm g =
     step_result (g_value q g) g (\<lambda>qv. step_result (g_value k g) g (\<lambda>_. step_result (g_value v g) g (\<lambda>_.
       emit OpAttention nm [q, k, v] (v_shape qv) (v_dtype qv) (v_device qv)
         [(''causal'', AttrBool causal), (''num_heads'', AttrInt num_heads), (''num_kv_heads'', AttrInt num_kv_heads),
          (''head_dim'', AttrInt hdim), (''layer_idx'', AttrInt layer_idx)] g)))"

definition b_qk_norm ::
  "value_id \<Rightarrow> value_id \<Rightarrow> 'd \<Rightarrow> int \<Rightarrow> int \<Rightarrow> string \<Rightarrow> 'd graph \<Rightarrow> value_id result \<times> 'd graph"
where
  "b_qk_norm x weight eps num_heads hdim nm g =
     step_result (g_value x g) g (\<lambda>xv. step_result (g_value weight g) g (\<lambda>_.
       step_result (infer_same_shape_unary (v_shape xv)) g (\<lambda>sh.
         emit OpQKNorm nm [x, weight] sh (v_dtype xv) (v_device xv)
           [(''eps'', AttrDouble eps), (''num_heads'', AttrInt num_heads), (''head_dim'', AttrInt hdim)] g)))"

definition b_softmax :: "value_id \<Rightarrow> int \<Rightarrow> string \<Rightarrow> 'd graph \<Rightarrow> value_id result \<times> 'd graph" where
  "b_softmax x axis nm g =
     step_result (g_value x g) g (\<lambda>xv. step_result (infer_same_shape_unary (v_shape xv)) g (\<lambda>sh.
       emit OpSoftmax nm [x] sh (v_dtype xv) (v_device xv) [(''axis'', AttrInt axis)] g))"

definition b_reshape :: "value_id \<Rightarrow> shape \<Rightarrow> string \<Rightarrow> 'd graph \<Rightarrow> value_id result \<times> 'd graph" where
  "b_reshape x target_shape nm g =
     step_result (g_value x g) g (\<lambda>xv. step_result (infer_reshape_shape (v_shape xv) target_shape) g (\<lambda>sh.
       emit OpReshape nm [x] sh (v_dtype xv) (v_device xv) [(''shape'', AttrShape sh)] g))"

definition b_transpose :: "value_id \<Rightarrow> int \<Rightarrow> int \<Rightarrow> string \<Rightarrow> 'd graph \<Rightarrow> value_id result \<times> 'd graph" where
  "b_transpose x axis0 axis1 nm g =
     step_result (g_value x g) g (\<lambda>xv. step_result (infer_transpose_shape (v_shape xv) axis0 axis1) g (\<lambda>sh.
       emit OpTranspose nm [x] sh (v_dtype xv) (v_device xv)
         [(''axis0'', AttrInt axis0), (''axis1'', AttrInt axis1)] g))"

definition b_output :: "value_id \<Rightarrow> string \<Rightarrow> 'd graph \<Rightarrow> value_id result \<times> 'd graph" where
  "b_output x nm g =
     step_result (g_value x g) g (\<lambda>_.
       sbind (mutable_value x (\<lambda>v. v\<lparr>v_kind := KOutput\<rparr>) g) (\<lambda>_ g1. (Inr x, g1)))"

lemmas builder_defs = b_input_def b_constant_def b_embedding_def b_matmul_def b_linear_def b_add_def b_mul_def
  b_rms_norm_def b_silu_def b_swiglu_def b_rope_def b_attention_def b_qk_norm_def b_softmax_def b_reshape_def
  b_transpose_def b_output_def

section \<open>What a method does to the graph\<close>

definition emitted ::
  "op_type \<Rightarrow> string \<Rightarrow> value_id list \<Rightarrow> shape \<Rightarrow> dtype \<Rightarrow> device \<Rightarrow> (string \<times> 'd attribute_value) list
   \<Rightarrow> 'd graph \<Rightarrow> 'd graph"
where
  "emitted op nm ins sh t d attrs g =
     g\<lparr>g_values := g_values g @ [\<lparr>v_id = length (g_values g), v_name = nm @ ''.out'', v_shape = sh, v_dtype = t,
           v_device = d, v_kind = KIntermediate\<rparr>],
       g_nodes := g_nodes g @ [foldl (\<lambda>nd (k, v). set_attr k v nd)
           (make_node (length (g_nodes g)) op nm ins [length (g_values g)]) attrs]\<rparr>"

lemma emit_eq: "emit op nm ins sh t d attrs g = (Inr (length (g_values g)), emitted op nm ins sh t d attrs g)"
  by (simp add: emit_def make_intermediate_def add_value_def add_node_def mutable_node_def emitted_def Let_def nth_append)

lemma set_attrs_frame [simp]:
  "n_id (foldl (\<lambda>nd (k, v). set_attr k v nd) nd attrs) = n_id nd"
  "n_op_type (foldl (\<lambda>nd (k, v). set_attr k v nd) nd attrs) = n_op_type nd"
  "n_inputs (foldl (\<lambda>nd (k, v). set_attr k v nd) nd attrs) = n_inputs nd"
  "n_outputs (foldl (\<lambda>nd (k, v). set_attr k v nd) nd attrs) = n_outputs nd"
  by (induction attrs arbitrary: nd) (auto simp: set_attr_def split: prod.splits)

text \<open>
  The invariant: ids are positions, shapes are well formed, every node produces one value, later
  nodes produce later values, and a node's inputs come before its output.
\<close>

definition node_ok :: "nat \<Rightarrow> 'd graph_node \<Rightarrow> bool" where
  "node_ok k nd \<longleftrightarrow> n_id nd = k \<and> n_op_type nd \<noteq> OpOutput \<and> length (n_outputs nd) = 1
     \<and> (\<forall>v \<in> set (n_inputs nd). v < hd (n_outputs nd))"

definition graph_ok :: "'d graph \<Rightarrow> bool" where
  "graph_ok g \<longleftrightarrow> (\<forall>i < length (g_values g). v_id (g_values g ! i) = i \<and> wf_shape (v_shape (g_values g ! i)))
     \<and> (\<forall>k < length (g_nodes g). node_ok k (g_nodes g ! k) \<and> hd (n_outputs (g_nodes g ! k)) < length (g_values g))
     \<and> (\<forall>j k. j < k \<longrightarrow> k < length (g_nodes g) \<longrightarrow> hd (n_outputs (g_nodes g ! j)) < hd (n_outputs (g_nodes g ! k)))"

lemma emitted_ok:
  assumes "graph_ok g" and "wf_shape sh" and "op \<noteq> OpOutput" and "\<forall>v \<in> set ins. v < length (g_values g)"
  shows "graph_ok (emitted op nm ins sh t d attrs g)"
proof -
  let ?g = "emitted op nm ins sh t d attrs g"
  have len: "length (g_values ?g) = Suc (length (g_values g))" "length (g_nodes ?g) = Suc (length (g_nodes g))"
    by (simp_all add: emitted_def)
  have vals: "g_values ?g ! i = g_values g ! i" if "i < length (g_values g)" for i
    using that by (simp add: emitted_def)
  have nodes: "g_nodes ?g ! k = g_nodes g ! k" if "k < length (g_nodes g)" for k
    using that by (simp add: emitted_def)
  have new: "n_outputs (g_nodes ?g ! length (g_nodes g)) = [length (g_values g)]"
    "node_ok (length (g_nodes g)) (g_nodes ?g ! length (g_nodes g))"
    "v_id (g_values ?g ! length (g_values g)) = length (g_values g)"
    "v_shape (g_values ?g ! length (g_values g)) = sh"
    using assms(3,4) by (simp_all add: emitted_def node_ok_def make_node_def nth_append)
  show ?thesis
    unfolding graph_ok_def len
  proof (intro conjI allI impI)
    fix i assume "i < Suc (length (g_values g))"
    then show "v_id (g_values ?g ! i) = i" "wf_shape (v_shape (g_values ?g ! i))"
      using assms(1,2) vals new(3,4) by (auto simp: graph_ok_def less_Suc_eq)
  next
    fix k assume "k < Suc (length (g_nodes g))"
    then show "node_ok k (g_nodes ?g ! k)" "hd (n_outputs (g_nodes ?g ! k)) < Suc (length (g_values g))"
      using assms(1) nodes new(1,2) by (auto simp: graph_ok_def less_Suc_eq)
  next
    fix j k assume "j < k" "k < Suc (length (g_nodes g))"
    then show "hd (n_outputs (g_nodes ?g ! j)) < hd (n_outputs (g_nodes ?g ! k))"
      using assms(1) nodes new(1) by (auto simp: graph_ok_def less_Suc_eq)
  qed
qed

lemma add_value_ok:
  assumes "graph_ok g" and "wf_shape sh"
  shows "graph_ok (snd (add_value nm sh t d k g))"
  using assms by (auto simp: add_value_def graph_ok_def Let_def nth_append less_Suc_eq intro: less_SucI)

lemma mark_output_ok:
  assumes "graph_ok g"
  shows "graph_ok (snd (mutable_value x (\<lambda>v. v\<lparr>v_kind := KOutput\<rparr>) g))"
  using assms by (auto simp: mutable_value_def graph_ok_def nth_list_update)

text \<open>From the invariant: the graph is valid, and dependencies go to earlier nodes.\<close>

lemma check_refs_ok: "\<forall>v \<in> set vs. v < nv \<Longrightarrow> check_refs nv nd vs = make_ok"
  by (induction vs) auto

lemma validate_nodes_ok:
  "\<forall>nd \<in> set nds. (\<forall>v \<in> set (n_inputs nd @ n_outputs nd). v < nv) \<and> n_op_type nd \<noteq> OpOutput
   \<Longrightarrow> validate_nodes nv nds = make_ok"
  by (induction nds) (auto simp: check_refs_ok)

lemma single_output: "length xs = 1 \<Longrightarrow> xs = [hd xs]"
  by (cases xs) auto

lemma graph_ok_valid:
  assumes "graph_ok g"
  shows "validate g = make_ok"
proof -
  have "(\<forall>v \<in> set (n_inputs nd @ n_outputs nd). v < length (g_values g)) \<and> n_op_type nd \<noteq> OpOutput"
    if nd: "nd \<in> set (g_nodes g)" for nd
  proof -
    obtain k where "k < length (g_nodes g)" "nd = g_nodes g ! k" using nd by (auto simp: in_set_conv_nth)
    then have ok: "node_ok k nd" "hd (n_outputs nd) < length (g_values g)" using assms by (auto simp: graph_ok_def)
    then have "n_outputs nd = [hd (n_outputs nd)]" by (intro single_output) (simp add: node_ok_def)
    then have "set (n_outputs nd) = {hd (n_outputs nd)}" by (metis list.set(1) list.simps(15))
    with ok show ?thesis by (auto simp: node_ok_def)
  qed
  then show ?thesis by (simp add: validate_def validate_nodes_ok)
qed

lemma graph_ok_acyclic:
  assumes "graph_ok g"
  shows "depends_on g \<subseteq> {(p, i). p < i}" "acyclic (depends_on g)"
proof -
  have "p < i" if "(p, i) \<in> depends_on g" for p i
  proof -
    from that obtain v where i: "i < length (g_nodes g)" and v: "v \<in> set (n_inputs (g_nodes g ! i))"
      and p: "p < length (g_nodes g)" "v \<in> set (n_outputs (g_nodes g ! p))"
      by (auto simp: depends_on_def value_producer_iff)
    have ok: "node_ok i (g_nodes g ! i)" "node_ok p (g_nodes g ! p)" using assms i p by (auto simp: graph_ok_def)
    then have "n_outputs (g_nodes g ! p) = [hd (n_outputs (g_nodes g ! p))]"
      by (intro single_output) (simp add: node_ok_def)
    then have "v = hd (n_outputs (g_nodes g ! p))" using p(2) by (metis list.set(1) list.simps(15) singletonD)
    then have "hd (n_outputs (g_nodes g ! p)) < hd (n_outputs (g_nodes g ! i))"
      using ok(1) v by (simp add: node_ok_def)
    then show ?thesis using assms p(1) by (metis graph_ok_def less_asym linorder_neqE_nat)
  qed
  then show sub: "depends_on g \<subseteq> {(p, i). p < i}" by auto
  show "acyclic (depends_on g)" by (rule acyclic_subset [OF wf_acyclic [OF wf_less] sub])
qed

section \<open>Building a graph\<close>

datatype 'd builder_op =
    BInput string shape dtype device
  | BConstant string shape dtype device
  | BEmbedding value_id value_id string
  | BMatMul value_id value_id string
  | BLinear value_id value_id "value_id option" string
  | BAdd value_id value_id string
  | BMul value_id value_id string
  | BRMSNorm value_id value_id 'd string
  | BSiLU value_id string
  | BSwiGLU value_id value_id string
  | BRoPE value_id int int 'd string
  | BAttention value_id value_id value_id bool int int int int string
  | BQKNorm value_id value_id 'd int int string
  | BSoftmax value_id int string
  | BReshape value_id shape string
  | BTranspose value_id int int string
  | BOutput value_id string

fun builder_exec :: "'d builder_op \<Rightarrow> 'd graph \<Rightarrow> value_id result \<times> 'd graph" where
  "builder_exec (BInput nm sh t d) g = b_input nm sh t d g"
| "builder_exec (BConstant nm sh t d) g = b_constant nm sh t d g"
| "builder_exec (BEmbedding i w nm) g = b_embedding i w nm g"
| "builder_exec (BMatMul a b nm) g = b_matmul a b nm g"
| "builder_exec (BLinear x w b nm) g = b_linear x w b nm g"
| "builder_exec (BAdd a b nm) g = b_add a b nm g"
| "builder_exec (BMul a b nm) g = b_mul a b nm g"
| "builder_exec (BRMSNorm x w e nm) g = b_rms_norm x w e nm g"
| "builder_exec (BSiLU x nm) g = b_silu x nm g"
| "builder_exec (BSwiGLU a b nm) g = b_swiglu a b nm g"
| "builder_exec (BRoPE x nh hdim base nm) g = b_rope x nh hdim base nm g"
| "builder_exec (BAttention q k v c nh nkv hdim l nm) g = b_attention q k v c nh nkv hdim l nm g"
| "builder_exec (BQKNorm x w e nh hdim nm) g = b_qk_norm x w e nh hdim nm g"
| "builder_exec (BSoftmax x axis nm) g = b_softmax x axis nm g"
| "builder_exec (BReshape x sh nm) g = b_reshape x sh nm g"
| "builder_exec (BTranspose x a0 a1 nm) g = b_transpose x a0 a1 nm g"
| "builder_exec (BOutput x nm) g = b_output x nm g"

text \<open>A \<open>Shape\<close> object is well formed; \<open>rms_norm\<close> does not look its weight up, so its caller must.\<close>

fun builder_call_ok :: "'d graph \<Rightarrow> 'd builder_op \<Rightarrow> bool" where
  "builder_call_ok g (BInput nm sh t d) = wf_shape sh"
| "builder_call_ok g (BConstant nm sh t d) = wf_shape sh"
| "builder_call_ok g (BReshape x sh nm) = wf_shape sh"
| "builder_call_ok g (BRMSNorm x w e nm) = (w < length (g_values g))"
| "builder_call_ok g op = True"

text \<open>The four things a method can do.\<close>

inductive builder_outcome :: "'d graph \<Rightarrow> value_id result \<Rightarrow> 'd graph \<Rightarrow> bool" where
  refused: "builder_outcome g (Inl e) g"
| built: "wf_shape sh \<Longrightarrow> op \<noteq> OpOutput \<Longrightarrow> \<forall>v \<in> set ins. v < length (g_values g) \<Longrightarrow>
    builder_outcome g (Inr (length (g_values g))) (emitted op nm ins sh t d attrs g)"
| declared: "wf_shape sh \<Longrightarrow> builder_outcome g (Inr (length (g_values g))) (snd (add_value nm sh t d k g))"
| marked: "x < length (g_values g) \<Longrightarrow>
    builder_outcome g (Inr x) (snd (mutable_value x (\<lambda>v. v\<lparr>v_kind := KOutput\<rparr>) g))"

lemma step_outcome:
  assumes "\<And>x. r = Inr x \<Longrightarrow> builder_outcome g (fst (f x)) (snd (f x))"
  shows "builder_outcome g (fst (step_result r g f)) (snd (step_result r g f))"
  using assms by (cases r) (auto intro: builder_outcome.refused)

lemma emit_outcome:
  "wf_shape sh \<Longrightarrow> op \<noteq> OpOutput \<Longrightarrow> \<forall>v \<in> set ins. v < length (g_values g) \<Longrightarrow>
   builder_outcome g (fst (emit op nm ins sh t d attrs g)) (snd (emit op nm ins sh t d attrs g))"
  by (simp add: emit_eq builder_outcome.built)

lemma graph_ok_wf: "graph_ok g \<Longrightarrow> i < length (g_values g) \<Longrightarrow> wf_shape (v_shape (g_values g ! i))"
  by (simp add: graph_ok_def)

lemma infer_reshape_wf:
  assumes "wf_shape inp" and "wf_shape target" and "infer_reshape_shape inp target = Inr out"
  shows "wf_shape out"
  using assms by (auto simp: infer_reshape_shape_def rbind_Inr_iff split: if_splits)

lemma builder_exec_outcome:
  assumes "graph_ok g" and "builder_call_ok g op"
  shows "builder_outcome g (fst (builder_exec op g)) (snd (builder_exec op g))"
proof -
  note wf = graph_ok_wf [OF assms(1)]
  note wfs = infer_wf (1,2,3,4,6) [OF wf wf, rotated 2]
  show ?thesis
  proof (cases op)
    case (BLinear x w b nm)
    then show ?thesis
      by (auto simp: b_linear_def rbind_Inr_iff intro!: step_outcome emit_outcome
          dest: wfs split: option.splits if_splits)
  next
    case (BReshape x sh nm)
    with assms(2) show ?thesis
      by (auto simp: b_reshape_def intro!: step_outcome emit_outcome dest: infer_reshape_wf [OF wf, rotated 2])
  next
    case (BTranspose x a0 a1 nm)
    then show ?thesis
      by (auto simp: b_transpose_def intro!: step_outcome emit_outcome intro: infer_wf(7) [OF wf wf])
  next
    case (BInput nm sh t d)
    with assms(2) show ?thesis
      using builder_outcome.declared [of sh g nm t d KInput] by (simp add: b_input_def add_value_def Let_def)
  next
    case (BConstant nm sh t d)
    with assms(2) show ?thesis
      using builder_outcome.declared [of sh g nm t d KConstant] by (simp add: b_constant_def add_value_def Let_def)
  next
    case (BOutput x nm)
    then show ?thesis
      using builder_outcome.marked [of x g]
      by (auto simp: b_output_def mutable_value_def intro!: step_outcome)
  qed (use assms(2) in \<open>auto simp: builder_defs infer_same_shape_unary_def
      intro!: step_outcome emit_outcome wf dest: wfs\<close>)
qed

lemma builder_outcome_ok:
  assumes "builder_outcome g r g'" and "graph_ok g"
  shows "graph_ok g'" "length (g_values g) \<le> length (g_values g')"
    "(case r of Inl e \<Rightarrow> g' = g | Inr v \<Rightarrow> v < length (g_values g'))"
  using assms
  by (induction rule: builder_outcome.induct)
    (auto simp: emitted_ok add_value_ok mark_output_ok, auto simp: emitted_def add_value_def mutable_value_def Let_def)

lemma builder_outcome_nodes: "builder_outcome g r g' \<Longrightarrow> \<exists>nds. g_nodes g' = g_nodes g @ nds"
  by (induction rule: builder_outcome.induct)
    (auto simp: emitted_def add_value_def mutable_value_def Let_def)

lemma builder_exec_ok:
  assumes "graph_ok g" and "builder_call_ok g op"
  shows "graph_ok (snd (builder_exec op g))"
  using builder_outcome_ok(1) [OF builder_exec_outcome [OF assms] assms(1)] .

lemma empty_graph_ok: "graph_ok empty_graph"
  by (simp add: empty_graph_def graph_ok_def)

interpretation building: invariant_machine "\<lambda>g. g = empty_graph" builder_call_ok "\<lambda>op g. snd (builder_exec op g)" graph_ok
  by unfold_locales (auto intro: builder_exec_ok empty_graph_ok)

text \<open>What follows when \<open>rms_norm\<close> is given a weight that is not there: the id after the last is the node's own output.\<close>

lemma validated_inputs:
  "validate_nodes nv nds = make_ok \<Longrightarrow> nd \<in> set nds \<Longrightarrow> v \<in> set (n_inputs nd) \<Longrightarrow> v < nv"
proof (induction nds)
  case (Cons a nds)
  have "check_refs nv nd vs = make_ok \<Longrightarrow> v \<in> set vs \<Longrightarrow> v < nv" for vs
    by (induction vs) (auto split: if_splits)
  with Cons show ?case by (auto simp: rbind_Inr_iff split: if_splits)
qed simp

lemma unknown_weight_never_sorts:
  assumes "x < length (g_values g)" and "length (g_values g) \<le> w"
  shows "\<exists>g'. b_rms_norm x w e nm g = (Inr (length (g_values g)), g') \<and> \<not> isOK (topological_sort g')"
proof -
  let ?v = "g_values g ! x"
  let ?g = "emitted OpRMSNorm nm [x, w] (v_shape ?v) (v_dtype ?v) (v_device ?v) [(''eps'', AttrDouble e)] g"
  have run: "b_rms_norm x w e nm g = (Inr (length (g_values g)), ?g)"
    using assms(1) by (simp add: b_rms_norm_def g_value_def infer_same_shape_unary_def emit_eq)
  have nd: "n_inputs (g_nodes ?g ! length (g_nodes g)) = [x, w]" "n_outputs (g_nodes ?g ! length (g_nodes g)) = [length (g_values g)]"
    and len: "length (g_nodes ?g) = Suc (length (g_nodes g))" "length (g_values ?g) = Suc (length (g_values g))"
    by (simp_all add: emitted_def make_node_def nth_append set_attr_def)
  have "\<not> isOK (topological_sort ?g)"
  proof (cases "validate ?g")
    case (Inl err)
    then show ?thesis by (simp add: topological_sort_invalid)
  next
    case (Inr u)
    have "g_nodes ?g ! length (g_nodes g) \<in> set (g_nodes ?g)" using len by simp
    with Inr have "w < Suc (length (g_values g))"
      using validated_inputs [of "Suc (length (g_values g))" "g_nodes ?g" "g_nodes ?g ! length (g_nodes g)" w] nd(1) len(2)
      by (simp add: validate_def)
    with assms(2) have w: "w = length (g_values g)" by simp
    have "(length (g_nodes g), length (g_nodes g)) \<in> depends_on ?g"
      using nd len by (auto simp: depends_on_def value_producer_iff w)
    then have "\<not> acyclic (depends_on ?g)" by (auto simp: acyclic_def)
    with Inr topological_sort_cyclic [of ?g] show ?thesis by simp
  qed
  with run show ?thesis by blast
qed

text \<open>C32. Every graph the builder can make by calls within \<open>builder_call_ok\<close>, in whatever order, failing calls
  included, is valid, its shapes are well formed, its dependencies are acyclic, and
  \<open>topological_sort\<close> returns all of its nodes, producers first. Within \<open>builder_call_ok\<close> every \<open>Shape\<close> that is passed
  is well formed, and \<open>rms_norm\<close> gets the id of a value as its weight, the one id that the builder does not look
  up: with any other weight the method succeeds too, and the graph it leaves can never be sorted.\<close>

theorem built_graphs_sort:
  assumes "building.reachable g"
  shows "validate g = make_ok \<and> acyclic (depends_on g) \<and> (\<forall>v \<in> set (g_values g). wf_shape (v_shape v))
     \<and> (\<exists>order. topological_sort g = Inr order \<and> distinct order \<and> set order = {..<length (g_nodes g)}
        \<and> (\<forall>p i k. (p, i) \<in> depends_on g \<longrightarrow> k < length order \<longrightarrow> order ! k = i \<longrightarrow> p \<in> set (take k order)))
     \<and> (\<forall>x w e nm. x < length (g_values g) \<and> length (g_values g) \<le> w \<longrightarrow>
          (\<exists>g'. b_rms_norm x w e nm g = (Inr (length (g_values g)), g') \<and> \<not> isOK (topological_sort g')))"
proof -
  have ok: "graph_ok g" by (rule building.reachable_inv [OF assms])
  then have "\<forall>v \<in> set (g_values g). wf_shape (v_shape v)" using graph_ok_wf [OF ok] by (auto simp: in_set_conv_nth)
  then show ?thesis
    using graph_ok_valid [OF ok] graph_ok_acyclic(2) [OF ok] topological_sort_acyclic [of g] unknown_weight_never_sorts [of _ g]
    by simp
qed

definition silu_ops :: "nat builder_op list" where
  "silu_ops = [BInput ''x'' (Shape [2, 3]) Float32 device_cpu, BSiLU 0 ''act'', BSiLU 9 ''bad'', BOutput 1 ''out'']"

lemma silu_ops_allowed: "building.allowed empty_graph silu_ops"
  by (simp add: silu_ops_def)

lemma silu_graph_reachable: "building.reachable (foldl (\<lambda>g op. snd (builder_exec op g)) empty_graph silu_ops)"
  by (rule building.reachable_run [OF building.reachable_start [OF refl] silu_ops_allowed])

theorem built_graphs_sort_witness:
  "\<exists>order. topological_sort (foldl (\<lambda>g op. snd (builder_exec op g)) empty_graph silu_ops) = Inr order \<and> distinct order"
  using built_graphs_sort [OF silu_graph_reachable] by blast

text \<open>C33. A method that fails leaves the graph as it was; one that succeeds returns the id of a value of the graph,
  whose shape is well formed, and removes no value or node.\<close>

theorem builder_call_atomic:
  assumes "building.reachable g" and "builder_call_ok g op"
  shows "(case builder_exec op g of
      (Inl e, g') \<Rightarrow> g' = g
    | (Inr v, g') \<Rightarrow> v < length (g_values g') \<and> wf_shape (v_shape (g_values g' ! v))
        \<and> length (g_values g) \<le> length (g_values g') \<and> (\<exists>nds. g_nodes g' = g_nodes g @ nds))"
proof -
  have ok: "graph_ok g" by (rule building.reachable_inv [OF assms(1)])
  note out = builder_exec_outcome [OF ok assms(2)]
  show ?thesis
    using builder_outcome_ok [OF out ok] builder_outcome_nodes [OF out] graph_ok_wf
    by (auto split: prod.splits sum.splits)
qed

theorem builder_call_atomic_witness:
  "snd (builder_exec (BSiLU 9 ''bad'') (foldl (\<lambda>g op. snd (builder_exec op g)) empty_graph silu_ops))
   = foldl (\<lambda>g op. snd (builder_exec op g)) empty_graph silu_ops"
proof -
  let ?g = "foldl (\<lambda>g op. snd (builder_exec op g)) empty_graph silu_ops"
  have len: "length (g_values ?g) = 2"
    by (simp add: silu_ops_def b_input_def add_value_def b_silu_def emit_eq emitted_def infer_same_shape_unary_def
        empty_graph_def Let_def b_output_def mutable_value_def g_value_def)
  have "builder_call_ok ?g (BSiLU 9 ''bad'')" by simp
  from builder_call_atomic [OF silu_graph_reachable this] show ?thesis
    using len by (auto simp: b_silu_def g_value_def)
qed

end
