(* ===== verification/Transformer_Builder.thy ===== *)
theory Transformer_Builder
  imports Graph_Builder
begin

text \<open>
  \<open>TransformerGraphBuilder\<close> (include/minillm/model/transformer_graph_builder.h,
  src/model/transformer_graph_builder.cpp): the graph of a decoder-only transformer, made by calls of the graph
  builder. \<open>'d\<close> is \<open>double\<close>.
\<close>

section \<open>Configuration and weights\<close>

record 'd transformer_config =
  tc_batch_size :: int
  tc_seq_len :: int
  tc_vocab_size :: int
  tc_hidden_size :: int
  tc_intermediate_size :: int
  tc_num_layers :: int
  tc_num_heads :: int
  tc_num_kv_heads :: int
  tc_head_dim :: int
  tc_rms_norm_eps :: 'd
  tc_rope_base :: 'd
  tc_use_qk_norm :: bool
  tc_dtype :: dtype
  tc_device :: device

text \<open>\<open>builder_.constant(name, Shape({...}), cfg.dtype, dev)\<close>; the dimensions may contain a product.\<close>

definition weight :: "'d transformer_config \<Rightarrow> string \<Rightarrow> int list result \<Rightarrow> 'd graph \<Rightarrow> value_id result \<times> 'd graph" where
  "weight cfg nm ds g = step_result (rbind ds make_shape) g (\<lambda>sh. b_constant nm sh (tc_dtype cfg) (tc_device cfg) g)"

definition q_width :: "'d transformer_config \<Rightarrow> int result" where
  "q_width cfg = cint64 (tc_num_heads cfg * tc_head_dim cfg)"

definition kv_width :: "'d transformer_config \<Rightarrow> int result" where
  "kv_width cfg = cint64 (tc_num_kv_heads cfg * tc_head_dim cfg)"

record layer_weights =
  lw_attn_norm :: value_id
  lw_q :: value_id
  lw_k :: value_id
  lw_v :: value_id
  lw_o :: value_id
  lw_q_norm :: "value_id option"
  lw_k_norm :: "value_id option"
  lw_ffn_norm :: value_id
  lw_gate :: value_id
  lw_up :: value_id
  lw_down :: value_id

text \<open>The two QK-norm weights, where the model has them.\<close>

definition norm_weights ::
  "'d transformer_config \<Rightarrow> string \<Rightarrow> bool \<Rightarrow> 'd graph \<Rightarrow> (value_id option \<times> value_id option) result \<times> 'd graph"
where
  "norm_weights cfg prefix use g =
     (if \<not> use then (Inr (None, None), g)
      else sbind (weight cfg (prefix @ ''q_norm.weight'') (Inr [tc_head_dim cfg]) g) (\<lambda>qn g.
        sbind (weight cfg (prefix @ ''k_norm.weight'') (Inr [tc_head_dim cfg]) g) (\<lambda>kn g. (Inr (Some qn, Some kn), g))))"

definition declare_layer ::
  "'d transformer_config \<Rightarrow> string \<Rightarrow> bool \<Rightarrow> 'd graph \<Rightarrow> layer_weights result \<times> 'd graph"
where
  "declare_layer cfg prefix use_qk g =
     sbind (weight cfg (prefix @ ''attn_norm.weight'') (Inr [tc_hidden_size cfg]) g) (\<lambda>an g.
     sbind (weight cfg (prefix @ ''q_proj.weight'') (rbind (q_width cfg) (\<lambda>n. Inr [n, tc_hidden_size cfg])) g) (\<lambda>q g.
     sbind (weight cfg (prefix @ ''k_proj.weight'') (rbind (kv_width cfg) (\<lambda>n. Inr [n, tc_hidden_size cfg])) g) (\<lambda>k g.
     sbind (weight cfg (prefix @ ''v_proj.weight'') (rbind (kv_width cfg) (\<lambda>n. Inr [n, tc_hidden_size cfg])) g) (\<lambda>v g.
     sbind (weight cfg (prefix @ ''o_proj.weight'') (rbind (q_width cfg) (\<lambda>n. Inr [tc_hidden_size cfg, n])) g) (\<lambda>w g.
     sbind (norm_weights cfg prefix use_qk g) (\<lambda>(qn, kn) g.
     sbind (weight cfg (prefix @ ''ffn_norm.weight'') (Inr [tc_hidden_size cfg]) g) (\<lambda>fn g.
     sbind (weight cfg (prefix @ ''gate_proj.weight'') (Inr [tc_intermediate_size cfg, tc_hidden_size cfg]) g) (\<lambda>gate g.
     sbind (weight cfg (prefix @ ''up_proj.weight'') (Inr [tc_intermediate_size cfg, tc_hidden_size cfg]) g) (\<lambda>up g.
     sbind (weight cfg (prefix @ ''down_proj.weight'') (Inr [tc_hidden_size cfg, tc_intermediate_size cfg]) g) (\<lambda>down g.
       (Inr \<lparr>lw_attn_norm = an, lw_q = q, lw_k = k, lw_v = v, lw_o = w, lw_q_norm = qn, lw_k_norm = kn,
             lw_ffn_norm = fn, lw_gate = gate, lw_up = up, lw_down = down\<rparr>, g)))))))))))"

section \<open>The blocks of a layer\<close>

definition norm_qk ::
  "'d transformer_config \<Rightarrow> string \<Rightarrow> layer_weights \<Rightarrow> value_id \<Rightarrow> value_id \<Rightarrow> 'd graph
   \<Rightarrow> (value_id \<times> value_id) result \<times> 'd graph"
where
  "norm_qk cfg prefix ws q k g = (case (lw_q_norm ws, lw_k_norm ws) of
     (Some qn, Some kn) \<Rightarrow>
       if tc_use_qk_norm cfg then
         sbind (b_qk_norm q qn (tc_rms_norm_eps cfg) (tc_num_heads cfg) (tc_head_dim cfg) (prefix @ ''q_norm'') g) (\<lambda>q' g.
         sbind (b_qk_norm k kn (tc_rms_norm_eps cfg) (tc_num_kv_heads cfg) (tc_head_dim cfg) (prefix @ ''k_norm'') g) (\<lambda>k' g.
           (Inr (q', k'), g)))
       else (Inr (q, k), g)
   | _ \<Rightarrow> (Inr (q, k), g))"

text \<open>Rotary positions, attention, output projection and residual.\<close>

definition attend ::
  "'d transformer_config \<Rightarrow> string \<Rightarrow> int \<Rightarrow> layer_weights \<Rightarrow> value_id \<Rightarrow> value_id \<Rightarrow> value_id \<times> value_id \<Rightarrow> 'd graph
   \<Rightarrow> value_id result \<times> 'd graph"
where
  "attend cfg prefix layer ws hidden v qk g =
     sbind (b_rope (fst qk) (tc_num_heads cfg) (tc_head_dim cfg) (tc_rope_base cfg) (prefix @ ''rope_q'') g) (\<lambda>q_rope g.
     sbind (b_rope (snd qk) (tc_num_kv_heads cfg) (tc_head_dim cfg) (tc_rope_base cfg) (prefix @ ''rope_k'') g) (\<lambda>k_rope g.
     sbind (b_attention q_rope k_rope v True (tc_num_heads cfg) (tc_num_kv_heads cfg) (tc_head_dim cfg) layer
              (prefix @ ''attention'') g) (\<lambda>attn_out g.
     sbind (b_linear attn_out (lw_o ws) None (prefix @ ''o_proj'') g) (\<lambda>o_proj g.
       b_add o_proj hidden (prefix @ ''residual_add_1'') g))))"

definition attention_block ::
  "'d transformer_config \<Rightarrow> string \<Rightarrow> int \<Rightarrow> layer_weights \<Rightarrow> value_id \<Rightarrow> 'd graph \<Rightarrow> value_id result \<times> 'd graph"
where
  "attention_block cfg prefix layer ws hidden g =
     sbind (b_rms_norm hidden (lw_attn_norm ws) (tc_rms_norm_eps cfg) (prefix @ ''attn_norm'') g) (\<lambda>normed g.
     sbind (b_linear normed (lw_q ws) None (prefix @ ''q_proj'') g) (\<lambda>q g.
     sbind (b_linear normed (lw_k ws) None (prefix @ ''k_proj'') g) (\<lambda>k g.
     sbind (b_linear normed (lw_v ws) None (prefix @ ''v_proj'') g) (\<lambda>v g.
     sbind (norm_qk cfg prefix ws q k g) (\<lambda>qk g. attend cfg prefix layer ws hidden v qk g)))))"

definition ffn_block ::
  "'d transformer_config \<Rightarrow> string \<Rightarrow> layer_weights \<Rightarrow> value_id \<Rightarrow> 'd graph \<Rightarrow> value_id result \<times> 'd graph"
where
  "ffn_block cfg prefix ws add1 g =
     sbind (b_rms_norm add1 (lw_ffn_norm ws) (tc_rms_norm_eps cfg) (prefix @ ''ffn_norm'') g) (\<lambda>normed g.
     sbind (b_linear normed (lw_gate ws) None (prefix @ ''gate_proj'') g) (\<lambda>gate g.
     sbind (b_linear normed (lw_up ws) None (prefix @ ''up_proj'') g) (\<lambda>up g.
     sbind (b_swiglu gate up (prefix @ ''swiglu'') g) (\<lambda>act g.
     sbind (b_linear act (lw_down ws) None (prefix @ ''down_proj'') g) (\<lambda>down g.
       b_add down add1 (prefix @ ''residual_add_2'') g)))))"

section \<open>The graphs\<close>

text \<open>One block, its weights declared first; it never norms queries and keys.\<close>

definition build_tiny_decoder_block :: "'d transformer_config \<Rightarrow> 'd graph \<Rightarrow> value_id result \<times> 'd graph" where
  "build_tiny_decoder_block cfg g =
     sbind (step_result (make_shape [tc_batch_size cfg, tc_seq_len cfg]) g (\<lambda>sh.
              b_input ''input_ids'' sh Int32 (tc_device cfg) g)) (\<lambda>input_ids g.
     sbind (weight cfg ''tok_embeddings.weight'' (Inr [tc_vocab_size cfg, tc_hidden_size cfg]) g) (\<lambda>tok_emb_w g.
     sbind (declare_layer cfg ''layer_0.'' False g) (\<lambda>ws g.
     sbind (weight cfg ''lm_head.weight'' (Inr [tc_vocab_size cfg, tc_hidden_size cfg]) g) (\<lambda>lm_head_w g.
     sbind (b_embedding input_ids tok_emb_w ''tok_embedding'' g) (\<lambda>hidden g.
     sbind (attention_block cfg [] 0 ws hidden g) (\<lambda>add1 g.
     sbind (ffn_block cfg [] ws add1 g) (\<lambda>add2 g.
     sbind (b_linear add2 lm_head_w None ''lm_head'' g) (\<lambda>logits g.
       b_output logits ''output'' g))))))))"

definition transformer_layer ::
  "'d transformer_config \<Rightarrow> int \<Rightarrow> value_id \<Rightarrow> 'd graph \<Rightarrow> value_id result \<times> 'd graph"
where
  "transformer_layer cfg layer hidden g =
     (let prefix = ''layer_'' @ int_to_string layer @ ''.'' in
      sbind (declare_layer cfg prefix (tc_use_qk_norm cfg) g) (\<lambda>ws g.
      sbind (attention_block cfg prefix layer ws hidden g) (\<lambda>add1 g.
        ffn_block cfg prefix ws add1 g)))"

fun transformer_layers ::
  "'d transformer_config \<Rightarrow> nat \<Rightarrow> int \<Rightarrow> value_id \<Rightarrow> 'd graph \<Rightarrow> value_id result \<times> 'd graph"
where
  "transformer_layers cfg 0 layer hidden g = (Inr hidden, g)"
| "transformer_layers cfg (Suc n) layer hidden g =
     sbind (transformer_layer cfg layer hidden g) (\<lambda>hidden' g. transformer_layers cfg n (layer + 1) hidden' g)"

definition build_transformer :: "'d transformer_config \<Rightarrow> 'd graph \<Rightarrow> value_id result \<times> 'd graph" where
  "build_transformer cfg g =
     sbind (step_result (make_shape [tc_batch_size cfg, tc_seq_len cfg]) g (\<lambda>sh.
              b_input ''input_ids'' sh Int32 (tc_device cfg) g)) (\<lambda>input_ids g.
     sbind (weight cfg ''tok_embeddings.weight'' (Inr [tc_vocab_size cfg, tc_hidden_size cfg]) g) (\<lambda>tok_emb_w g.
     sbind (weight cfg ''lm_head.weight'' (Inr [tc_vocab_size cfg, tc_hidden_size cfg]) g) (\<lambda>lm_head_w g.
     sbind (b_embedding input_ids tok_emb_w ''tok_embedding'' g) (\<lambda>hidden g.
     sbind (transformer_layers cfg (nat (tc_num_layers cfg)) 0 hidden g) (\<lambda>hidden g.
     sbind (weight cfg ''output_norm.weight'' (Inr [tc_hidden_size cfg]) g) (\<lambda>final_norm_w g.
     sbind (b_rms_norm hidden final_norm_w (tc_rms_norm_eps cfg) ''output_norm'' g) (\<lambda>final_normed g.
     sbind (b_linear final_normed lm_head_w None ''lm_head'' g) (\<lambda>logits g.
       b_output logits ''output'' g))))))))"

section \<open>Safety: whatever the configuration, the graph stays a builder's graph\<close>

definition grows :: "'d graph \<Rightarrow> 'a result \<times> 'd graph \<Rightarrow> ('a \<Rightarrow> nat \<Rightarrow> bool) \<Rightarrow> bool" where
  "grows g out Q \<longleftrightarrow> building.reachable (snd out) \<and> length (g_values g) \<le> length (g_values (snd out))
     \<and> (\<forall>x. fst out = Inr x \<longrightarrow> Q x (length (g_values (snd out))))"

lemma grows_bind:
  assumes "grows g m P"
    and "\<And>x g'. building.reachable g' \<Longrightarrow> length (g_values g) \<le> length (g_values g') \<Longrightarrow> P x (length (g_values g')) \<Longrightarrow> grows g' (f x g') Q"
  shows "grows g (sbind m f) Q"
proof (cases m)
  case (Pair r g')
  have m: "building.reachable g'" "length (g_values g) \<le> length (g_values g')" "\<And>x. r = Inr x \<Longrightarrow> P x (length (g_values g'))"
    using assms(1) by (auto simp: grows_def Pair)
  show ?thesis
  proof (cases r)
    case (Inr x)
    from assms(2) [OF m(1,2) m(3) [OF Inr]] m(2) show ?thesis by (auto simp: grows_def Pair Inr)
  qed (use m in \<open>auto simp: grows_def Pair\<close>)
qed

lemma grows_return: "building.reachable g \<Longrightarrow> Q x (length (g_values g)) \<Longrightarrow> grows g (Inr x, g) Q"
  by (simp add: grows_def)

lemma grows_call:
  assumes "building.reachable g" and "builder_call_ok g op"
  shows "grows g (builder_exec op g) (\<lambda>v n. v < n)"
proof -
  have ok: "graph_ok g" by (rule building.reachable_inv [OF assms(1)])
  note out = builder_outcome_ok [OF builder_exec_outcome [OF ok assms(2)] ok]
  have "building.reachable (snd (builder_exec op g))" by (rule building.reachable_exec [OF assms])
  then show ?thesis using out by (auto simp: grows_def)
qed

lemma grows_fail: "building.reachable g \<Longrightarrow> grows g (Inl e, g) Q"
  by (simp add: grows_def)

lemma grows_calls:
  assumes "building.reachable g"
  shows "grows g (b_embedding i w nm g) (\<lambda>v n. v < n)" "grows g (b_linear x w b nm g) (\<lambda>v n. v < n)"
    "grows g (b_add x y nm g) (\<lambda>v n. v < n)" "grows g (b_swiglu x y nm g) (\<lambda>v n. v < n)"
    "grows g (b_rope x nh hdim base nm g) (\<lambda>v n. v < n)" "grows g (b_attention q k v c nh nkv hdim l nm g) (\<lambda>v n. v < n)"
    "grows g (b_qk_norm x w eps nh hdim nm g) (\<lambda>v n. v < n)" "grows g (b_output x nm g) (\<lambda>v n. v < n)"
    "w < length (g_values g) \<Longrightarrow> grows g (b_rms_norm x w eps nm g) (\<lambda>v n. v < n)"
  using grows_call [OF assms, of "BEmbedding i w nm"] grows_call [OF assms, of "BLinear x w b nm"]
    grows_call [OF assms, of "BAdd x y nm"] grows_call [OF assms, of "BSwiGLU x y nm"]
    grows_call [OF assms, of "BRoPE x nh hdim base nm"] grows_call [OF assms, of "BAttention q k v c nh nkv hdim l nm"]
    grows_call [OF assms, of "BQKNorm x w eps nh hdim nm"] grows_call [OF assms, of "BOutput x nm"]
    grows_call [OF assms, of "BRMSNorm x w eps nm"]
  by simp_all

lemma grows_weight: "building.reachable g \<Longrightarrow> grows g (weight cfg nm ds g) (\<lambda>v n. v < n)"
  using grows_call [of g "BConstant nm sh (tc_dtype cfg) (tc_device cfg)" for sh]
  by (cases "rbind ds make_shape") (auto simp: weight_def rbind_Inr_iff make_shape_ok intro: grows_fail)

lemma grows_input: "building.reachable g \<Longrightarrow> grows g (step_result (make_shape ds) g (\<lambda>sh. b_input nm sh t d g)) (\<lambda>v n. v < n)"
  using grows_call [of g "BInput nm sh t d" for sh] by (cases "make_shape ds") (auto simp: make_shape_ok intro: grows_fail)

definition any_result :: "'a \<Rightarrow> nat \<Rightarrow> bool" where
  "any_result x n = True"

lemma grows_norm_weights: "building.reachable g \<Longrightarrow> grows g (norm_weights cfg prefix use g) any_result"
  unfolding norm_weights_def
  by (auto intro!: grows_bind grows_weight grows_return simp: any_result_def)

lemma grows_declare:
  "building.reachable g \<Longrightarrow> grows g (declare_layer cfg prefix use g) (\<lambda>ws n. lw_attn_norm ws < n \<and> lw_ffn_norm ws < n)"
  unfolding declare_layer_def
  by (rule grows_bind [OF grows_weight], assumption)+
    (rule grows_bind [OF grows_norm_weights], assumption, clarify, (rule grows_bind [OF grows_weight], assumption)+, rule grows_return, auto)

lemma grows_norm_qk: "building.reachable g \<Longrightarrow> grows g (norm_qk cfg prefix ws q k g) any_result"
  unfolding norm_qk_def
  by (auto intro!: grows_bind grows_calls grows_return simp: any_result_def split: option.split)

lemma grows_attend: "building.reachable g \<Longrightarrow> grows g (attend cfg prefix l ws hidden v qk g) (\<lambda>v n. v < n)"
  unfolding attend_def
  by ((rule grows_bind [OF grows_calls(5)], assumption)+, rule grows_bind [OF grows_calls(6)], assumption,
      rule grows_bind [OF grows_calls(2)], assumption, rule grows_calls(3))

lemma grows_attention:
  assumes "building.reachable g" and "lw_attn_norm ws < length (g_values g)"
  shows "grows g (attention_block cfg prefix l ws hidden g) (\<lambda>v n. v < n)"
  unfolding attention_block_def
  by (rule grows_bind [OF grows_calls(9) [OF assms]], (rule grows_bind [OF grows_calls(2)], assumption)+,
      rule grows_bind [OF grows_norm_qk], assumption, rule grows_attend)

lemma grows_ffn:
  assumes "building.reachable g" and "lw_ffn_norm ws < length (g_values g)"
  shows "grows g (ffn_block cfg prefix ws add1 g) (\<lambda>v n. v < n)"
  unfolding ffn_block_def
  by (rule grows_bind [OF grows_calls(9) [OF assms]], (rule grows_bind [OF grows_calls(2)], assumption)+,
      rule grows_bind [OF grows_calls(4)], assumption, rule grows_bind [OF grows_calls(2)], assumption, rule grows_calls(3))

lemma grows_layer:
  assumes "building.reachable g"
  shows "grows g (transformer_layer cfg l hidden g) (\<lambda>v n. v < n)"
  unfolding transformer_layer_def Let_def
  by (rule grows_bind [OF grows_declare [OF assms]], rule grows_bind [OF grows_attention], assumption, simp,
      rule grows_ffn, assumption, simp)

lemma grows_layers:
  "building.reachable g \<Longrightarrow> hidden < length (g_values g) \<Longrightarrow> grows g (transformer_layers cfg n l hidden g) (\<lambda>v n. v < n)"
proof (induction n arbitrary: l hidden g)
  case (Suc n)
  show ?case unfolding transformer_layers.simps by (rule grows_bind [OF grows_layer [OF Suc.prems(1)]], rule Suc.IH)
qed (simp add: grows_return)

lemma grows_transformer: "building.reachable g \<Longrightarrow> grows g (build_transformer cfg g) (\<lambda>v n. v < n)"
  unfolding build_transformer_def
  by (rule grows_bind [OF grows_input], assumption, (rule grows_bind [OF grows_weight], assumption)+,
      rule grows_bind [OF grows_calls(1)], assumption, rule grows_bind [OF grows_layers], assumption+,
      rule grows_bind [OF grows_weight], assumption, rule grows_bind [OF grows_calls(9)], assumption+,
      rule grows_bind [OF grows_calls(2)], assumption, rule grows_calls(8))

lemma grows_tiny: "building.reachable g \<Longrightarrow> grows g (build_tiny_decoder_block cfg g) (\<lambda>v n. v < n)"
  unfolding build_tiny_decoder_block_def
  by (rule grows_bind [OF grows_input], assumption, rule grows_bind [OF grows_weight], assumption,
      rule grows_bind [OF grows_declare], assumption, rule grows_bind [OF grows_weight], assumption,
      rule grows_bind [OF grows_calls(1)], assumption, rule grows_bind [OF grows_attention], assumption, simp,
      rule grows_bind [OF grows_ffn], assumption, simp, rule grows_bind [OF grows_calls(2)], assumption, rule grows_calls(8))

text \<open>Whatever the configuration, sensible or not, and wherever the construction stops, the transformer builders leave a
  graph that is valid and acyclic and that \<open>topological_sort\<close> can order; a graph that is returned
  has the returned output value.\<close>

theorem transformer_graphs_always_valid:
  assumes "building.reachable g"
  shows "\<forall>(r, g') \<in> {build_transformer cfg g, build_tiny_decoder_block cfg g}.
    validate g' = make_ok \<and> acyclic (depends_on g') \<and> isOK (topological_sort g')
    \<and> (case r of Inl e \<Rightarrow> True | Inr v \<Rightarrow> v < length (g_values g'))"
proof -
  have "validate (snd out) = make_ok \<and> acyclic (depends_on (snd out)) \<and> isOK (topological_sort (snd out))
      \<and> (case fst out of Inl e \<Rightarrow> True | Inr v \<Rightarrow> v < length (g_values (snd out)))" if out: "grows g out (\<lambda>v n. v < n)" for out
  proof -
    have ok: "graph_ok (snd out)" by (rule building.reachable_inv) (use out in \<open>simp add: grows_def\<close>)
    have "isOK (validate (snd out))" by (simp add: graph_ok_valid [OF ok])
    from topological_sort_acyclic [OF this graph_ok_acyclic(2) [OF ok]] show ?thesis
      using out graph_ok_valid [OF ok] graph_ok_acyclic(2) [OF ok] by (auto simp: grows_def split: sum.split)
  qed
  from this [OF grows_transformer [OF assms]] this [OF grows_tiny [OF assms]] show ?thesis
    by (auto simp: split_beta)
qed

theorem transformer_graphs_always_valid_witness:
  "validate (snd (build_transformer \<lparr>tc_batch_size = 1, tc_seq_len = -1, tc_vocab_size = 2 ^ 62, tc_hidden_size = 8,
     tc_intermediate_size = 0, tc_num_layers = 2, tc_num_heads = 2 ^ 62, tc_num_kv_heads = 1, tc_head_dim = 4,
     tc_rms_norm_eps = 0, tc_rope_base = 1, tc_use_qk_norm = False, tc_dtype = Float32, tc_device = device_cpu\<rparr>
     (empty_graph :: nat graph))) = make_ok"
  using transformer_graphs_always_valid [OF building.reachable_start [OF refl], of "\<lparr>tc_batch_size = 1, tc_seq_len = -1,
     tc_vocab_size = 2 ^ 62, tc_hidden_size = 8, tc_intermediate_size = 0, tc_num_layers = 2, tc_num_heads = 2 ^ 62,
     tc_num_kv_heads = 1, tc_head_dim = 4, tc_rms_norm_eps = 0, tc_rope_base = 1, tc_use_qk_norm = False,
     tc_dtype = Float32, tc_device = device_cpu\<rparr> :: nat transformer_config"]
  by (auto simp: split_beta)

section \<open>Shapes: a sensible configuration gives the logits\<close>

text \<open>What is known of a graph: its size, and the shapes of some of its values.\<close>

definition known :: "'d graph \<Rightarrow> (value_id \<Rightarrow> int list option) \<Rightarrow> nat \<Rightarrow> nat \<Rightarrow> bool" where
  "known g \<Gamma> n k \<longleftrightarrow> length (g_values g) = n \<and> length (g_nodes g) = k
     \<and> (\<forall>v ds. \<Gamma> v = Some ds \<longrightarrow> v < n \<and> v_shape (g_values g ! v) = Shape ds)"

definition succeeds :: "'a result \<times> 'd graph \<Rightarrow> ('a \<Rightarrow> 'd graph \<Rightarrow> bool) \<Rightarrow> bool" where
  "succeeds out Q \<longleftrightarrow> (\<exists>x g'. out = (Inr x, g') \<and> Q x g')"

lemma succeeds_bind: "succeeds m P \<Longrightarrow> (\<And>x g'. P x g' \<Longrightarrow> succeeds (f x g') Q) \<Longrightarrow> succeeds (sbind m f) Q"
  by (auto simp: succeeds_def)

lemma succeeds_mono: "succeeds m P \<Longrightarrow> (\<And>x g'. P x g' \<Longrightarrow> Q x g') \<Longrightarrow> succeeds m Q"
  by (auto simp: succeeds_def)

lemma succeeds_return: "Q x g \<Longrightarrow> succeeds (Inr x, g) Q"
  by (simp add: succeeds_def)

definition fresh :: "(value_id \<Rightarrow> int list option) \<Rightarrow> nat \<Rightarrow> nat \<Rightarrow> int list \<Rightarrow> value_id \<Rightarrow> 'd graph \<Rightarrow> bool" where
  "fresh \<Gamma> n k ds v g \<longleftrightarrow> v = n \<and> known g (\<Gamma>(n \<mapsto> ds)) (Suc n) k"

lemma known_value: "known g \<Gamma> n k \<Longrightarrow> \<Gamma> v = Some ds \<Longrightarrow> g_value v g = Inr (g_values g ! v) \<and> v_shape (g_values g ! v) = Shape ds"
  by (auto simp: known_def g_value_def)

lemma emit_fresh: "known g \<Gamma> n k \<Longrightarrow> succeeds (emit op nm ins (Shape ds) t d attrs g) (fresh \<Gamma> n (Suc k) ds)"
  by (auto simp: succeeds_def emit_eq fresh_def known_def emitted_def nth_append intro: less_SucI)

lemma declare_fresh: "known g \<Gamma> n k \<Longrightarrow> succeeds (add_value nm (Shape ds) t d kind g) (fresh \<Gamma> n k ds)"
  by (auto simp: succeeds_def add_value_def Let_def fresh_def known_def nth_append intro: less_SucI)

lemma weight_fresh: "known g \<Gamma> n k \<Longrightarrow> ds = Inr xs \<Longrightarrow> wf_dims xs \<Longrightarrow> succeeds (weight cfg nm ds g) (fresh \<Gamma> n k xs)"
  by (simp add: weight_def make_shape_ok b_constant_def declare_fresh)

lemma input_fresh: "known g \<Gamma> n k \<Longrightarrow> wf_dims xs \<Longrightarrow>
  succeeds (step_result (make_shape xs) g (\<lambda>sh. b_input nm sh t d g)) (fresh \<Gamma> n k xs)"
  by (simp add: make_shape_ok b_input_def declare_fresh)

lemma linear_fresh:
  assumes "known g \<Gamma> n k" and "\<Gamma> x = Some dx" and "dx = [b, s, c]" and "\<Gamma> w = Some dw" and "dw = [m, c]" and "wf_dims [b, s, m]"
  shows "succeeds (b_linear x w None nm g) (fresh \<Gamma> n (Suc k) [b, s, m])"
  using known_value [OF assms(1,2)] known_value [OF assms(1,4)] assms(3,5,6) emit_fresh [OF assms(1)]
  by (simp add: b_linear_def infer_linear_shape_def shape_rank_def dims_clash_def make_shape_ok del: g_value_Inr)

lemma embedding_fresh:
  assumes "known g \<Gamma> n k" and "\<Gamma> x = Some dx" and "dx = [b, s]" and "\<Gamma> w = Some dw" and "dw = [m, c]" and "wf_dims [b, s, c]"
  shows "succeeds (b_embedding x w nm g) (fresh \<Gamma> n (Suc k) [b, s, c])"
  using known_value [OF assms(1,2)] known_value [OF assms(1,4)] assms(3,5,6) emit_fresh [OF assms(1)]
  by (simp add: b_embedding_def infer_embedding_shape_def shape_rank_def make_shape_ok del: g_value_Inr)

lemma same_axes: "check_axes what a b i ds ds = make_ok"
  by (induction ds arbitrary: i) (auto simp: dims_clash_def)

lemma add_fresh:
  assumes "known g \<Gamma> n k" and "\<Gamma> x = Some ds" and "\<Gamma> y = Some ds"
  shows "succeeds (b_add x y nm g) (fresh \<Gamma> n (Suc k) ds)"
  using known_value [OF assms(1,2)] known_value [OF assms(1,3)] emit_fresh [OF assms(1)]
  by (simp add: b_add_def infer_add_shape_def same_axes del: g_value_Inr)

lemma swiglu_fresh:
  assumes "known g \<Gamma> n k" and "\<Gamma> x = Some ds" and "\<Gamma> y = Some ds"
  shows "succeeds (b_swiglu x y nm g) (fresh \<Gamma> n (Suc k) ds)"
  using known_value [OF assms(1,2)] known_value [OF assms(1,3)] emit_fresh [OF assms(1)]
  by (simp add: b_swiglu_def infer_elementwise_shape_def same_axes del: g_value_Inr)

lemma unary_fresh:
  assumes "known g \<Gamma> n k" and "\<Gamma> x = Some ds"
  shows "succeeds (b_rms_norm x w eps nm g) (fresh \<Gamma> n (Suc k) ds)" "succeeds (b_rope x nh hdim base nm g) (fresh \<Gamma> n (Suc k) ds)"
    "\<Gamma> w = Some dw \<Longrightarrow> succeeds (b_qk_norm x w eps nh hdim nm g) (fresh \<Gamma> n (Suc k) ds)"
    "\<Gamma> y = Some dy \<Longrightarrow> \<Gamma> z = Some dz \<Longrightarrow> succeeds (b_attention x y z c nh nkv hdim l nm g) (fresh \<Gamma> n (Suc k) ds)"
  using known_value [OF assms] known_value [OF assms(1), of w dw] known_value [OF assms(1), of y dy] known_value [OF assms(1), of z dz]
    emit_fresh [OF assms(1)]
  by (simp_all add: b_rms_norm_def b_rope_def b_qk_norm_def b_attention_def infer_same_shape_unary_def del: g_value_Inr)

lemma linear_step:
  assumes "known g \<Gamma> n k" and "\<Gamma> x = Some [b, s, c]" and "\<Gamma> w = Some [m, c]" and "wf_dims [b, s, m]"
    and "\<And>g'. known g' (\<Gamma>(n \<mapsto> [b, s, m])) (Suc n) (Suc k) \<Longrightarrow> succeeds (f n g') Q"
  shows "succeeds (sbind (b_linear x w None nm g) f) Q"
  by (rule succeeds_bind [OF linear_fresh [OF assms(1,2) refl assms(3) refl assms(4)]]) (auto simp: fresh_def assms(5))

lemma step_fresh:
  assumes "succeeds m (fresh \<Gamma> n k ds)" and "\<And>g'. known g' (\<Gamma>(n \<mapsto> ds)) (Suc n) k \<Longrightarrow> succeeds (f n g') Q"
  shows "succeeds (sbind m f) Q"
  by (rule succeeds_bind [OF assms(1)]) (auto simp: fresh_def assms(2))

text \<open>A configuration whose dimensions are positive (batch and sequence may be unknown) and whose widths fit.\<close>

definition config_ok :: "'d transformer_config \<Rightarrow> bool" where
  "config_ok cfg \<longleftrightarrow> wf_dims [tc_batch_size cfg, tc_seq_len cfg] \<and> 0 < tc_vocab_size cfg \<and> 0 < tc_hidden_size cfg
     \<and> 0 < tc_intermediate_size cfg \<and> 0 < tc_num_heads cfg \<and> 0 < tc_num_kv_heads cfg \<and> 0 < tc_head_dim cfg
     \<and> int64_ok (tc_num_heads cfg * tc_head_dim cfg) \<and> int64_ok (tc_num_kv_heads cfg * tc_head_dim cfg)"

abbreviation q_dim :: "'d transformer_config \<Rightarrow> int" where "q_dim cfg \<equiv> tc_num_heads cfg * tc_head_dim cfg"
abbreviation kv_dim :: "'d transformer_config \<Rightarrow> int" where "kv_dim cfg \<equiv> tc_num_kv_heads cfg * tc_head_dim cfg"

abbreviation rows :: "'d transformer_config \<Rightarrow> int \<Rightarrow> int list" where
  "rows cfg n \<equiv> [tc_batch_size cfg, tc_seq_len cfg, n]"

lemma config_okD:
  assumes "config_ok cfg"
  shows "q_width cfg = Inr (q_dim cfg)" "kv_width cfg = Inr (kv_dim cfg)" "0 < q_dim cfg" "0 < kv_dim cfg"
    "0 < n \<Longrightarrow> wf_dims (rows cfg n)"
    "0 < tc_hidden_size cfg" "0 < tc_intermediate_size cfg" "0 < tc_vocab_size cfg" "0 < tc_head_dim cfg"
    "wf_dims [tc_batch_size cfg, tc_seq_len cfg]"
  using assms by (auto simp: config_ok_def q_width_def kv_width_def cint64_ok)

definition norms_known :: "layer_weights \<Rightarrow> bool \<Rightarrow> (value_id \<Rightarrow> int list option) \<Rightarrow> bool" where
  "norms_known ws use \<Gamma> \<longleftrightarrow> (if use then \<exists>qn kn dq dk. lw_q_norm ws = Some qn \<and> lw_k_norm ws = Some kn \<and> \<Gamma> qn = Some dq \<and> \<Gamma> kn = Some dk
     else lw_q_norm ws = None \<and> lw_k_norm ws = None)"

definition weights_known :: "'d transformer_config \<Rightarrow> layer_weights \<Rightarrow> (value_id \<Rightarrow> int list option) \<Rightarrow> bool" where
  "weights_known cfg ws \<Gamma> \<longleftrightarrow>
     \<Gamma> (lw_q ws) = Some [q_dim cfg, tc_hidden_size cfg] \<and> \<Gamma> (lw_k ws) = Some [kv_dim cfg, tc_hidden_size cfg]
   \<and> \<Gamma> (lw_v ws) = Some [kv_dim cfg, tc_hidden_size cfg] \<and> \<Gamma> (lw_o ws) = Some [tc_hidden_size cfg, q_dim cfg]
   \<and> \<Gamma> (lw_gate ws) = Some [tc_intermediate_size cfg, tc_hidden_size cfg]
   \<and> \<Gamma> (lw_up ws) = Some [tc_intermediate_size cfg, tc_hidden_size cfg]
   \<and> \<Gamma> (lw_down ws) = Some [tc_hidden_size cfg, tc_intermediate_size cfg]"

text \<open>A step keeps what was known, adds \<open>k\<close> nodes in all, and makes more known.\<close>

definition reaches :: "(value_id \<Rightarrow> int list option) \<Rightarrow> nat \<Rightarrow> ((value_id \<Rightarrow> int list option) \<Rightarrow> bool) \<Rightarrow> 'd graph \<Rightarrow> bool" where
  "reaches \<Gamma> k Q g \<longleftrightarrow> (\<exists>\<Gamma>' n. known g \<Gamma>' n k \<and> \<Gamma> \<subseteq>\<^sub>m \<Gamma>' \<and> Q \<Gamma>')"

lemma reachesI: "known g \<Gamma>' n k \<Longrightarrow> k = k' \<Longrightarrow> \<Gamma> \<subseteq>\<^sub>m \<Gamma>' \<Longrightarrow> Q \<Gamma>' \<Longrightarrow> reaches \<Gamma> k' Q g"
  by (auto simp: reaches_def)

lemma known_dom: "known g \<Gamma> n k \<Longrightarrow> \<Gamma> v = Some ds \<Longrightarrow> v < n"
  by (simp add: known_def)

lemma known_fresh: "known g \<Gamma> n k \<Longrightarrow> n \<le> m \<Longrightarrow> \<Gamma> m = None"
  using known_dom [of g \<Gamma> n k m] by (cases "\<Gamma> m") auto

lemma map_le_fresh: "\<Gamma> \<subseteq>\<^sub>m \<Gamma>' \<Longrightarrow> \<Gamma> n = None \<Longrightarrow> \<Gamma> \<subseteq>\<^sub>m \<Gamma>'(n \<mapsto> ds)"
  by (auto simp: map_le_def dom_def)

lemma map_leD: "\<Gamma> \<subseteq>\<^sub>m \<Gamma>' \<Longrightarrow> \<Gamma> v = Some ds \<Longrightarrow> \<Gamma>' v = Some ds"
  by (auto simp: map_le_def dom_def)

lemma norm_qk_succeeds:
  assumes kn: "known g \<Gamma> n k" and ws: "norms_known ws (tc_use_qk_norm cfg) \<Gamma>" and q: "\<Gamma> q = Some dq" and k: "\<Gamma> kk = Some dk"
  shows "succeeds (norm_qk cfg prefix ws q kk g) (\<lambda>(q', k'). reaches \<Gamma> (if tc_use_qk_norm cfg then k + 2 else k)
     (\<lambda>\<Gamma>'. \<Gamma>' q' = Some dq \<and> \<Gamma>' k' = Some dk))"
proof (cases "tc_use_qk_norm cfg")
  case False
  then have "norm_qk cfg prefix ws q kk g = (Inr (q, kk), g)" using ws by (auto simp: norm_qk_def norms_known_def)
  with kn q k False show ?thesis by (auto simp: succeeds_def reaches_def)
next
  case True
  then obtain qn kn' d1 d2 where n: "lw_q_norm ws = Some qn" "lw_k_norm ws = Some kn'" "\<Gamma> qn = Some d1" "\<Gamma> kn' = Some d2"
    using ws by (auto simp: norms_known_def)
  have ids: "kk < n" "kn' < n" using known_dom [OF kn] k n by blast+
  show ?thesis
    unfolding norm_qk_def n prod.case option.case
    using True
    apply (simp only: if_True)
    apply (rule step_fresh [OF unary_fresh(3) [OF kn q n(3)]])
    apply (rule step_fresh [OF unary_fresh(3)], assumption)
    using ids k n apply (simp, simp)
    apply (rule succeeds_return)
    apply (unfold prod.case, rule reachesI, assumption, simp, (intro map_le_fresh map_le_refl known_fresh [OF kn]; simp), simp)
    done
qed

lemma norms_known_le: "norms_known ws use \<Gamma> \<Longrightarrow> \<Gamma> \<subseteq>\<^sub>m \<Gamma>' \<Longrightarrow> norms_known ws use \<Gamma>'"
  unfolding norms_known_def by (simp split: if_splits) (meson map_leD)

text \<open>The two halves of the attention block.\<close>

lemma attend_succeeds:
  assumes cfg: "config_ok cfg" and kn: "known g \<Gamma> n k" and q: "\<Gamma> (fst qk) = Some (rows cfg (q_dim cfg))"
    and kk: "\<Gamma> (snd qk) = Some dk" and v: "\<Gamma> v = Some dv"
    and w: "\<Gamma> (lw_o ws) = Some [tc_hidden_size cfg, q_dim cfg]" and h: "\<Gamma> hidden = Some (rows cfg (tc_hidden_size cfg))"
  shows "succeeds (attend cfg prefix l ws hidden v qk g)
     (\<lambda>v'. reaches \<Gamma> (k + 5) (\<lambda>\<Gamma>'. \<Gamma>' v' = Some (rows cfg (tc_hidden_size cfg))))"
proof -
  have ids: "snd qk < n" "v < n" "lw_o ws < n" "hidden < n" using known_dom [OF kn] kk v w h by blast+
  note none = known_fresh [OF kn]
  show ?thesis
    unfolding attend_def
    apply (rule step_fresh [OF unary_fresh(2) [OF kn q]])
    apply (rule step_fresh [OF unary_fresh(2)], assumption)
    using kk ids apply simp
    apply (rule step_fresh [OF unary_fresh(4)], assumption, simp, simp)
    using v ids apply simp
    apply (rule linear_step, assumption, simp)
    using w ids apply simp
    apply (rule config_okD(5) [OF cfg config_okD(6) [OF cfg]])
    apply (rule succeeds_mono [OF add_fresh], assumption, simp)
    using h ids apply simp
    apply (unfold fresh_def, elim conjE, hypsubst)
    apply (rule reachesI, assumption, simp, (intro map_le_fresh map_le_refl none; simp), simp)
    done
qed

lemma attention_succeeds:
  fixes cfg :: "'d transformer_config"
  assumes cfg: "config_ok cfg" and kn: "known g \<Gamma> n k" and ws: "weights_known cfg ws \<Gamma>" "norms_known ws (tc_use_qk_norm cfg) \<Gamma>"
    and h: "\<Gamma> hidden = Some (rows cfg (tc_hidden_size cfg))"
  shows "succeeds (attention_block cfg prefix l ws hidden g)
     (\<lambda>v. reaches \<Gamma> (k + (if tc_use_qk_norm cfg then 11 else 9)) (\<lambda>\<Gamma>'. \<Gamma>' v = Some (rows cfg (tc_hidden_size cfg))))"
proof -
  note w = ws(1) [unfolded weights_known_def]
  have ids: "lw_q ws < n" "lw_k ws < n" "lw_v ws < n" using known_dom [OF kn] w by blast+
  note none = known_fresh [OF kn]
  let ?\<Gamma> = "\<Gamma>(n \<mapsto> rows cfg (tc_hidden_size cfg), Suc n \<mapsto> rows cfg (q_dim cfg), Suc (Suc n) \<mapsto> rows cfg (kv_dim cfg),
    Suc (Suc (Suc n)) \<mapsto> rows cfg (kv_dim cfg))" and ?k = "Suc (Suc (Suc (Suc k)))"
  have le: "\<Gamma> \<subseteq>\<^sub>m ?\<Gamma>" by (intro map_le_fresh map_le_refl none) auto
  note norms = norms_known_le [OF ws(2) le]
  have rest: "succeeds (sbind (norm_qk cfg prefix ws (Suc n) (Suc (Suc n)) g4) (attend cfg prefix l ws hidden (Suc (Suc (Suc n)))))
     (\<lambda>v. reaches \<Gamma> (k + (if tc_use_qk_norm cfg then 11 else 9)) (\<lambda>\<Gamma>'. \<Gamma>' v = Some (rows cfg (tc_hidden_size cfg))))"
    if kn4: "known g4 ?\<Gamma> (Suc (Suc (Suc (Suc n)))) ?k" for g4
  proof (rule succeeds_bind [OF norm_qk_succeeds [OF kn4 norms]])
    fix qk and g5 :: "'d graph" assume "(case qk of (q', k') \<Rightarrow> reaches ?\<Gamma> (if tc_use_qk_norm cfg then ?k + 2 else ?k)
        (\<lambda>\<Gamma>'. \<Gamma>' q' = Some (rows cfg (q_dim cfg)) \<and> \<Gamma>' k' = Some (rows cfg (kv_dim cfg)))) g5"
    then obtain \<Gamma>' n' where kn5: "known g5 \<Gamma>' n' (if tc_use_qk_norm cfg then ?k + 2 else ?k)" and le5: "?\<Gamma> \<subseteq>\<^sub>m \<Gamma>'"
      and q5: "\<Gamma>' (fst qk) = Some (rows cfg (q_dim cfg))" "\<Gamma>' (snd qk) = Some (rows cfg (kv_dim cfg))"
      by (auto simp: reaches_def)
    have le': "\<Gamma> \<subseteq>\<^sub>m \<Gamma>'" by (rule map_le_trans [OF le le5])
    have v5: "\<Gamma>' (Suc (Suc (Suc n))) = Some (rows cfg (kv_dim cfg))" by (rule map_leD [OF le5]) simp
    have o5: "\<Gamma>' (lw_o ws) = Some [tc_hidden_size cfg, q_dim cfg]" using w by (intro map_leD [OF le']) simp
    show "succeeds (attend cfg prefix l ws hidden (Suc (Suc (Suc n))) qk g5)
      (\<lambda>v. reaches \<Gamma> (k + (if tc_use_qk_norm cfg then 11 else 9)) (\<lambda>\<Gamma>'. \<Gamma>' v = Some (rows cfg (tc_hidden_size cfg))))"
      by (rule succeeds_mono [OF attend_succeeds [OF cfg kn5 q5(1,2) v5 o5 map_leD [OF le' h]]])
        (auto simp: reaches_def numeral_eq_Suc intro: map_le_trans [OF le'] split: if_splits)
  qed (simp_all)
  show ?thesis
    unfolding attention_block_def
    apply (rule step_fresh [OF unary_fresh(1) [OF kn h]])
    apply (rule linear_step, assumption, simp)
    using w ids apply simp
    apply (rule config_okD(5) [OF cfg config_okD(3) [OF cfg]])
    apply (rule linear_step, assumption, simp)
    using w ids apply simp
    apply (rule config_okD(5) [OF cfg config_okD(4) [OF cfg]])
    apply (rule linear_step, assumption, simp)
    using w ids apply simp
    apply (rule config_okD(5) [OF cfg config_okD(4) [OF cfg]])
    apply (rule rest, assumption)
    done
qed

lemma ffn_succeeds:
  assumes cfg: "config_ok cfg" and kn: "known g \<Gamma> n k" and ws: "weights_known cfg ws \<Gamma>"
    and h: "\<Gamma> hidden = Some (rows cfg (tc_hidden_size cfg))"
  shows "succeeds (ffn_block cfg prefix ws hidden g) (\<lambda>v. reaches \<Gamma> (k + 6) (\<lambda>\<Gamma>'. \<Gamma>' v = Some (rows cfg (tc_hidden_size cfg))))"
proof -
  note w = ws [unfolded weights_known_def]
  have ids: "lw_gate ws < n" "lw_up ws < n" "lw_down ws < n" "hidden < n" using known_dom [OF kn] w h by blast+
  note none = known_fresh [OF kn]
  show ?thesis
    unfolding ffn_block_def
    apply (rule step_fresh [OF unary_fresh(1) [OF kn h]])
    apply (rule linear_step, assumption, simp)
    using w ids apply simp
    apply (rule config_okD(5) [OF cfg config_okD(7) [OF cfg]])
    apply (rule linear_step, assumption, simp)
    using w ids apply simp
    apply (rule config_okD(5) [OF cfg config_okD(7) [OF cfg]])
    apply (rule step_fresh [OF swiglu_fresh], assumption, simp, simp)
    apply (rule linear_step, assumption, simp)
    using w ids apply simp
    apply (rule config_okD(5) [OF cfg config_okD(6) [OF cfg]])
    apply (rule succeeds_mono [OF add_fresh], assumption, simp)
    using h ids apply simp
    apply (unfold fresh_def, elim conjE, hypsubst)
    apply (rule reachesI, assumption, simp, (intro map_le_fresh map_le_refl none; simp), simp)
    done
qed

lemma norm_weights_succeed:
  assumes cfg: "config_ok cfg" and kn: "known g \<Gamma> n k"
  shows "succeeds (norm_weights cfg prefix use g) (\<lambda>(qn, kn). reaches \<Gamma> k (\<lambda>\<Gamma>'.
     if use then \<exists>q k d. qn = Some q \<and> kn = Some k \<and> \<Gamma>' q = Some d \<and> \<Gamma>' k = Some d else qn = None \<and> kn = None))"
proof (cases use)
  case True
  have wf: "wf_dims [tc_head_dim cfg]" using config_okD(9) [OF cfg] by simp
  show ?thesis
    unfolding norm_weights_def
    using True apply simp
    apply (rule step_fresh [OF weight_fresh [OF kn refl wf]])
    apply (rule step_fresh [OF weight_fresh [OF _ refl wf]], assumption)
    apply (rule succeeds_return)
    apply (unfold prod.case, rule reachesI, assumption, simp, (intro map_le_fresh map_le_refl known_fresh [OF kn]; simp), simp)
    done
qed (use kn in \<open>auto simp: norm_weights_def succeeds_def reaches_def\<close>)

lemma declare_succeeds:
  fixes cfg :: "'d transformer_config"
  assumes cfg: "config_ok cfg" and kn: "known g \<Gamma> n k"
  shows "succeeds (declare_layer cfg prefix use g) (\<lambda>ws. reaches \<Gamma> k (\<lambda>\<Gamma>'. weights_known cfg ws \<Gamma>' \<and> norms_known ws use \<Gamma>'))"
proof -
  note D = config_okD [OF cfg]
  have wf: "wf_dims [tc_hidden_size cfg]" "wf_dims [q_dim cfg, tc_hidden_size cfg]" "wf_dims [kv_dim cfg, tc_hidden_size cfg]"
    "wf_dims [tc_hidden_size cfg, q_dim cfg]" "wf_dims [tc_intermediate_size cfg, tc_hidden_size cfg]"
    "wf_dims [tc_hidden_size cfg, tc_intermediate_size cfg]"
    using D by simp_all
  have widths: "rbind (q_width cfg) (\<lambda>n. Inr [n, tc_hidden_size cfg]) = Inr [q_dim cfg, tc_hidden_size cfg]"
    "rbind (kv_width cfg) (\<lambda>n. Inr [n, tc_hidden_size cfg]) = Inr [kv_dim cfg, tc_hidden_size cfg]"
    "rbind (q_width cfg) (\<lambda>n. Inr [tc_hidden_size cfg, n]) = Inr [tc_hidden_size cfg, q_dim cfg]" using D by simp_all
  let ?\<Gamma> = "\<Gamma>(n \<mapsto> [tc_hidden_size cfg], Suc n \<mapsto> [q_dim cfg, tc_hidden_size cfg], Suc (Suc n) \<mapsto> [kv_dim cfg, tc_hidden_size cfg],
    Suc (Suc (Suc n)) \<mapsto> [kv_dim cfg, tc_hidden_size cfg], Suc (Suc (Suc (Suc n))) \<mapsto> [tc_hidden_size cfg, q_dim cfg])"
  have le: "\<Gamma> \<subseteq>\<^sub>m ?\<Gamma>" by (intro map_le_fresh map_le_refl known_fresh [OF kn]) auto
  have rest: "succeeds (sbind (norm_weights cfg prefix use g5) (\<lambda>(qn, kn) g.
     sbind (weight cfg (prefix @ ''ffn_norm.weight'') (Inr [tc_hidden_size cfg]) g) (\<lambda>fn g.
     sbind (weight cfg (prefix @ ''gate_proj.weight'') (Inr [tc_intermediate_size cfg, tc_hidden_size cfg]) g) (\<lambda>gate g.
     sbind (weight cfg (prefix @ ''up_proj.weight'') (Inr [tc_intermediate_size cfg, tc_hidden_size cfg]) g) (\<lambda>up g.
     sbind (weight cfg (prefix @ ''down_proj.weight'') (Inr [tc_hidden_size cfg, tc_intermediate_size cfg]) g) (\<lambda>down g.
       (Inr \<lparr>lw_attn_norm = n, lw_q = Suc n, lw_k = Suc (Suc n), lw_v = Suc (Suc (Suc n)), lw_o = Suc (Suc (Suc (Suc n))),
             lw_q_norm = qn, lw_k_norm = kn, lw_ffn_norm = fn, lw_gate = gate, lw_up = up, lw_down = down\<rparr>, g)))))))
     (\<lambda>ws. reaches \<Gamma> k (\<lambda>\<Gamma>'. weights_known cfg ws \<Gamma>' \<and> norms_known ws use \<Gamma>'))"
    if kn5: "known g5 ?\<Gamma> (Suc (Suc (Suc (Suc (Suc n))))) k" for g5 :: "'d graph"
  proof (rule succeeds_bind [OF norm_weights_succeed [OF cfg kn5]], clarify)
    fix qn kn' and g6 :: "'d graph"
    assume "reaches ?\<Gamma> k (\<lambda>\<Gamma>'. if use then \<exists>q k d. qn = Some q \<and> kn' = Some k \<and> \<Gamma>' q = Some d \<and> \<Gamma>' k = Some d
        else qn = None \<and> kn' = None) g6"
    then obtain \<Gamma>' m where kn6: "known g6 \<Gamma>' m k" and le6: "?\<Gamma> \<subseteq>\<^sub>m \<Gamma>'"
      and norms: "if use then \<exists>q k d. qn = Some q \<and> kn' = Some k \<and> \<Gamma>' q = Some d \<and> \<Gamma>' k = Some d else qn = None \<and> kn' = None"
      by (auto simp: reaches_def)
    note none = known_fresh [OF kn6]
    let ?\<Gamma>' = "\<Gamma>'(m \<mapsto> [tc_hidden_size cfg], Suc m \<mapsto> [tc_intermediate_size cfg, tc_hidden_size cfg],
      Suc (Suc m) \<mapsto> [tc_intermediate_size cfg, tc_hidden_size cfg], Suc (Suc (Suc m)) \<mapsto> [tc_hidden_size cfg, tc_intermediate_size cfg])"
    have le': "\<Gamma>' \<subseteq>\<^sub>m ?\<Gamma>'" by (intro map_le_fresh map_le_refl none) auto
    have old: "?\<Gamma>' v = Some ds" if "?\<Gamma> v = Some ds" for v ds using map_leD [OF le' map_leD [OF le6 that]] .
    have ws: "weights_known cfg \<lparr>lw_attn_norm = n, lw_q = Suc n, lw_k = Suc (Suc n), lw_v = Suc (Suc (Suc n)),
        lw_o = Suc (Suc (Suc (Suc n))), lw_q_norm = qn, lw_k_norm = kn', lw_ffn_norm = m, lw_gate = Suc m,
        lw_up = Suc (Suc m), lw_down = Suc (Suc (Suc m))\<rparr> ?\<Gamma>'"
      unfolding weights_known_def layer_weights.select_convs
      by (intro conjI; (rule old; simp; fail)?; simp)
    have norms': "norms_known \<lparr>lw_attn_norm = n, lw_q = Suc n, lw_k = Suc (Suc n), lw_v = Suc (Suc (Suc n)),
        lw_o = Suc (Suc (Suc (Suc n))), lw_q_norm = qn, lw_k_norm = kn', lw_ffn_norm = m, lw_gate = Suc m,
        lw_up = Suc (Suc m), lw_down = Suc (Suc (Suc m))\<rparr> use ?\<Gamma>'"
      by (rule norms_known_le [OF _ le']) (use norms in \<open>auto simp: norms_known_def split: if_splits\<close>)
    show "succeeds (sbind (weight cfg (prefix @ ''ffn_norm.weight'') (Inr [tc_hidden_size cfg]) g6) (\<lambda>fn g.
       sbind (weight cfg (prefix @ ''gate_proj.weight'') (Inr [tc_intermediate_size cfg, tc_hidden_size cfg]) g) (\<lambda>gate g.
       sbind (weight cfg (prefix @ ''up_proj.weight'') (Inr [tc_intermediate_size cfg, tc_hidden_size cfg]) g) (\<lambda>up g.
       sbind (weight cfg (prefix @ ''down_proj.weight'') (Inr [tc_hidden_size cfg, tc_intermediate_size cfg]) g) (\<lambda>down g.
         (Inr \<lparr>lw_attn_norm = n, lw_q = Suc n, lw_k = Suc (Suc n), lw_v = Suc (Suc (Suc n)), lw_o = Suc (Suc (Suc (Suc n))),
               lw_q_norm = qn, lw_k_norm = kn', lw_ffn_norm = fn, lw_gate = gate, lw_up = up, lw_down = down\<rparr>, g))))))
       (\<lambda>ws. reaches \<Gamma> k (\<lambda>\<Gamma>'. weights_known cfg ws \<Gamma>' \<and> norms_known ws use \<Gamma>'))"
      apply (rule step_fresh [OF weight_fresh [OF kn6 refl wf(1)]])
      apply (rule step_fresh [OF weight_fresh [OF _ refl wf(5)]], assumption)+
      apply (rule step_fresh [OF weight_fresh [OF _ refl wf(6)]], assumption)
      apply (rule succeeds_return, rule reachesI, assumption, rule refl, rule map_le_trans [OF le map_le_trans [OF le6 le']])
      apply (rule conjI [OF ws norms'])
      done
  qed
  show ?thesis
    unfolding declare_layer_def widths
    apply (rule step_fresh [OF weight_fresh [OF kn refl wf(1)]])
    apply (rule step_fresh [OF weight_fresh [OF _ refl wf(2)]], assumption)
    apply (rule step_fresh [OF weight_fresh [OF _ refl wf(3)]], assumption)+
    apply (rule step_fresh [OF weight_fresh [OF _ refl wf(4)]], assumption)
    apply (rule rest, assumption)
    done
qed

definition layer_nodes :: "'d transformer_config \<Rightarrow> nat" where
  "layer_nodes cfg = (if tc_use_qk_norm cfg then 17 else 15)"

lemma layer_succeeds:
  fixes cfg :: "'d transformer_config"
  assumes cfg: "config_ok cfg" and kn: "known g \<Gamma> n k" and h: "\<Gamma> hidden = Some (rows cfg (tc_hidden_size cfg))"
  shows "succeeds (transformer_layer cfg l hidden g)
     (\<lambda>v. reaches \<Gamma> (k + layer_nodes cfg) (\<lambda>\<Gamma>'. \<Gamma>' v = Some (rows cfg (tc_hidden_size cfg))))"
  unfolding transformer_layer_def Let_def
proof (rule succeeds_bind [OF declare_succeeds [OF cfg kn]], unfold reaches_def, elim exE conjE)
  fix ws and g1 :: "'d graph" and \<Gamma>1 n1
  let ?prefix = "''layer_'' @ int_to_string l @ ''.''"
  assume kn1: "known g1 \<Gamma>1 n1 k" and le1: "\<Gamma> \<subseteq>\<^sub>m \<Gamma>1" and ws: "weights_known cfg ws \<Gamma>1" "norms_known ws (tc_use_qk_norm cfg) \<Gamma>1"
  show "succeeds (sbind (attention_block cfg ?prefix l ws hidden g1) (ffn_block cfg ?prefix ws))
     (\<lambda>v g'. \<exists>\<Gamma>' n. known g' \<Gamma>' n (k + layer_nodes cfg) \<and> \<Gamma> \<subseteq>\<^sub>m \<Gamma>' \<and> \<Gamma>' v = Some (rows cfg (tc_hidden_size cfg)))"
  proof (rule succeeds_bind [OF attention_succeeds [OF cfg kn1 ws map_leD [OF le1 h]]], unfold reaches_def, elim exE conjE)
    fix v and g2 :: "'d graph" and \<Gamma>2 n2
    assume kn2: "known g2 \<Gamma>2 n2 (k + (if tc_use_qk_norm cfg then 11 else 9))" and le2: "\<Gamma>1 \<subseteq>\<^sub>m \<Gamma>2"
      and v: "\<Gamma>2 v = Some (rows cfg (tc_hidden_size cfg))"
    have ws2: "weights_known cfg ws \<Gamma>2" using ws(1) unfolding weights_known_def by (auto intro: map_leD [OF le2])
    show "succeeds (ffn_block cfg ?prefix ws v g2)
       (\<lambda>v g'. \<exists>\<Gamma>' n. known g' \<Gamma>' n (k + layer_nodes cfg) \<and> \<Gamma> \<subseteq>\<^sub>m \<Gamma>' \<and> \<Gamma>' v = Some (rows cfg (tc_hidden_size cfg)))"
      by (rule succeeds_mono [OF ffn_succeeds [OF cfg kn2 ws2 v]])
        (auto simp: reaches_def layer_nodes_def add.commute [of _ k] split: if_splits intro: map_le_trans [OF le1 map_le_trans [OF le2]])
  qed
qed

lemma layers_succeed:
  fixes cfg :: "'d transformer_config"
  assumes cfg: "config_ok cfg" and "known g \<Gamma> n k" and "\<Gamma> hidden = Some (rows cfg (tc_hidden_size cfg))"
  shows "succeeds (transformer_layers cfg m l hidden g)
     (\<lambda>v. reaches \<Gamma> (k + m * layer_nodes cfg) (\<lambda>\<Gamma>'. \<Gamma>' v = Some (rows cfg (tc_hidden_size cfg))))"
  using assms(2,3)
proof (induction m arbitrary: l hidden g \<Gamma> n k)
  case 0
  then show ?case by (auto intro!: succeeds_return simp: reaches_def)
next
  case (Suc m)
  show ?case unfolding transformer_layers.simps
  proof (rule succeeds_bind [OF layer_succeeds [OF cfg Suc.prems]], unfold reaches_def, elim exE conjE)
    fix v and g1 :: "'d graph" and \<Gamma>1 n1
    assume kn1: "known g1 \<Gamma>1 n1 (k + layer_nodes cfg)" and le1: "\<Gamma> \<subseteq>\<^sub>m \<Gamma>1" and v: "\<Gamma>1 v = Some (rows cfg (tc_hidden_size cfg))"
    show "succeeds (transformer_layers cfg m (l + 1) v g1)
       (\<lambda>v g'. \<exists>\<Gamma>' n. known g' \<Gamma>' n (k + Suc m * layer_nodes cfg) \<and> \<Gamma> \<subseteq>\<^sub>m \<Gamma>' \<and> \<Gamma>' v = Some (rows cfg (tc_hidden_size cfg)))"
      by (rule succeeds_mono [OF Suc.IH [OF kn1 v]]) (auto simp: reaches_def add.assoc intro: map_le_trans [OF le1])
  qed
qed

lemma output_succeeds:
  assumes "known g \<Gamma> n k" and "\<Gamma> v = Some ds"
  shows "succeeds (b_output v nm g) (\<lambda>w g'. w = v \<and> length (g_nodes g') = k \<and> v < length (g_values g')
     \<and> v_shape (g_values g' ! v) = Shape ds \<and> v_kind (g_values g' ! v) = KOutput)"
proof -
  have v: "v < length (g_values g)" "v_shape (g_values g ! v) = Shape ds" "length (g_nodes g) = k"
    using assms by (auto simp: known_def)
  then have "g_value v g = Inr (g_values g ! v)" by (simp add: g_value_def)
  then show ?thesis using v by (simp add: b_output_def mutable_value_def succeeds_def del: g_value_Inr)
qed

lemma transformer_succeeds:
  fixes cfg :: "'d transformer_config"
  assumes cfg: "config_ok cfg" and kn: "known g \<Gamma> n k"
  shows "succeeds (build_transformer cfg g) (\<lambda>v g'. length (g_nodes g') = k + 3 + nat (tc_num_layers cfg) * layer_nodes cfg
     \<and> v < length (g_values g') \<and> v_shape (g_values g' ! v) = Shape (rows cfg (tc_vocab_size cfg)) \<and> v_kind (g_values g' ! v) = KOutput)"
proof -
  note D = config_okD [OF cfg]
  have wf: "wf_dims [tc_vocab_size cfg, tc_hidden_size cfg]" "wf_dims [tc_hidden_size cfg]" using D by simp_all
  let ?\<Gamma> = "\<Gamma>(n \<mapsto> [tc_batch_size cfg, tc_seq_len cfg], Suc n \<mapsto> [tc_vocab_size cfg, tc_hidden_size cfg],
    Suc (Suc n) \<mapsto> [tc_vocab_size cfg, tc_hidden_size cfg], Suc (Suc (Suc n)) \<mapsto> rows cfg (tc_hidden_size cfg))"
  have rest: "succeeds (sbind (transformer_layers cfg (nat (tc_num_layers cfg)) 0 (Suc (Suc (Suc n))) g4) (\<lambda>hidden g.
     sbind (weight cfg ''output_norm.weight'' (Inr [tc_hidden_size cfg]) g) (\<lambda>final_norm_w g.
     sbind (b_rms_norm hidden final_norm_w (tc_rms_norm_eps cfg) ''output_norm'' g) (\<lambda>final_normed g.
     sbind (b_linear final_normed (Suc (Suc n)) None ''lm_head'' g) (\<lambda>logits g. b_output logits ''output'' g)))))
     (\<lambda>v g'. length (g_nodes g') = k + 3 + nat (tc_num_layers cfg) * layer_nodes cfg
       \<and> v < length (g_values g') \<and> v_shape (g_values g' ! v) = Shape (rows cfg (tc_vocab_size cfg)) \<and> v_kind (g_values g' ! v) = KOutput)"
    if kn4: "known g4 ?\<Gamma> (Suc (Suc (Suc (Suc n)))) (Suc k)" for g4 :: "'d graph"
  proof (rule succeeds_bind [OF layers_succeed [OF cfg kn4]], simp, unfold reaches_def, elim exE conjE)
    fix v and g5 :: "'d graph" and \<Gamma>' m
    assume kn5: "known g5 \<Gamma>' m (Suc k + nat (tc_num_layers cfg) * layer_nodes cfg)" and le: "?\<Gamma> \<subseteq>\<^sub>m \<Gamma>'"
      and v: "\<Gamma>' v = Some (rows cfg (tc_hidden_size cfg))"
    have head: "\<Gamma>' (Suc (Suc n)) = Some [tc_vocab_size cfg, tc_hidden_size cfg]" by (rule map_leD [OF le]) simp
    have ids: "v < m" "Suc (Suc n) < m" using known_dom [OF kn5] v head by blast+
    show "succeeds (sbind (weight cfg ''output_norm.weight'' (Inr [tc_hidden_size cfg]) g5) (\<lambda>final_norm_w g.
       sbind (b_rms_norm v final_norm_w (tc_rms_norm_eps cfg) ''output_norm'' g) (\<lambda>final_normed g.
       sbind (b_linear final_normed (Suc (Suc n)) None ''lm_head'' g) (\<lambda>logits g. b_output logits ''output'' g))))
       (\<lambda>v g'. length (g_nodes g') = k + 3 + nat (tc_num_layers cfg) * layer_nodes cfg
         \<and> v < length (g_values g') \<and> v_shape (g_values g' ! v) = Shape (rows cfg (tc_vocab_size cfg)) \<and> v_kind (g_values g' ! v) = KOutput)"
      apply (rule step_fresh [OF weight_fresh [OF kn5 refl wf(2)]])
      apply (rule step_fresh [OF unary_fresh(1)], assumption)
      using v ids apply simp
      apply (rule linear_step, assumption, simp)
      using head ids apply simp
      apply (rule D(5) [OF D(8)])
      apply (rule succeeds_mono [OF output_succeeds], assumption, simp, simp)
      done
  qed
  show ?thesis
    unfolding build_transformer_def
    apply (rule step_fresh [OF input_fresh [OF kn D(10)]])
    apply (rule step_fresh [OF weight_fresh [OF _ refl wf(1)]], assumption)+
    apply (rule step_fresh [OF embedding_fresh], assumption, simp, rule refl, simp, rule refl, rule D(5) [OF D(6)])
    apply (rule rest, simp)
    done
qed

lemma known_empty: "known empty_graph Map.empty 0 0"
  by (simp add: known_def empty_graph_def)

text \<open>C15. For a configuration with positive sizes and widths that fit in 64 bits, also with unknown batch or sequence length,
  \<open>build_transformer\<close> succeeds on an empty graph: all shapes agree, the graph has three nodes and 15 per
  layer (17 with QK norm), and it returns an output value of shape batch by sequence by vocabulary.\<close>

theorem transformer_builds_logits:
  assumes "config_ok cfg"
  shows "case build_transformer cfg empty_graph of
      (Inl e, g) \<Rightarrow> False
    | (Inr v, g) \<Rightarrow> length (g_nodes g) = 3 + nat (tc_num_layers cfg) * (if tc_use_qk_norm cfg then 17 else 15)
        \<and> v < length (g_values g) \<and> v_kind (g_values g ! v) = KOutput
        \<and> v_shape (g_values g ! v) = Shape [tc_batch_size cfg, tc_seq_len cfg, tc_vocab_size cfg]"
  using transformer_succeeds [OF assms known_empty] by (auto simp: succeeds_def layer_nodes_def)

definition small_config :: "nat transformer_config" where
  "small_config = \<lparr>tc_batch_size = 1, tc_seq_len = -1, tc_vocab_size = 100, tc_hidden_size = 8, tc_intermediate_size = 16,
     tc_num_layers = 2, tc_num_heads = 2, tc_num_kv_heads = 1, tc_head_dim = 4, tc_rms_norm_eps = 0, tc_rope_base = 1,
     tc_use_qk_norm = True, tc_dtype = Float32, tc_device = device_cpu\<rparr>"

theorem transformer_builds_logits_witness:
  "\<exists>v g. build_transformer small_config empty_graph = (Inr v, g) \<and> length (g_nodes g) = 37
     \<and> v_shape (g_values g ! v) = Shape [1, -1, 100]"
proof -
  have "config_ok small_config" by (simp add: config_ok_def small_config_def int64_ok_def)
  from transformer_builds_logits [OF this] show ?thesis
    by (auto simp: small_config_def split: prod.splits sum.splits)
qed

end
