(* ===== verification/Gguf_Format.thy ===== *)
theory Gguf_Format
  imports Core_Types
begin

text \<open>
  The GGUF container (include/minillm/io/gguf_format.h, gguf_parser.h; src/io/gguf_format.cpp,
  gguf_parser.cpp): wire types, the readers of the parser, the header of a file and the location of
  tensor data. A stream is the list of the bytes still to be read. What the file system gives for a
  name, by reading and by mapping, is a parameter; floats are kept as their bits.
\<close>

unbundle bit_operations_syntax

type_synonym octet = "8 word"

section \<open>Wire types\<close>

text \<open>An enumeration with a fixed underlying type holds every value of that type.\<close>

datatype gguf_value_type =
    VT_UINT8 | VT_INT8 | VT_UINT16 | VT_INT16 | VT_UINT32 | VT_INT32 | VT_FLOAT32 | VT_BOOL | VT_STRING | VT_ARRAY
  | VT_UINT64 | VT_INT64 | VT_FLOAT64 | VT_Other "32 word"

definition value_type_of :: "32 word \<Rightarrow> gguf_value_type" where
  "value_type_of w =
     (if w = 0 then VT_UINT8 else if w = 1 then VT_INT8 else if w = 2 then VT_UINT16 else if w = 3 then VT_INT16
      else if w = 4 then VT_UINT32 else if w = 5 then VT_INT32 else if w = 6 then VT_FLOAT32 else if w = 7 then VT_BOOL
      else if w = 8 then VT_STRING else if w = 9 then VT_ARRAY else if w = 10 then VT_UINT64
      else if w = 11 then VT_INT64 else if w = 12 then VT_FLOAT64 else VT_Other w)"

fun value_type_tag :: "gguf_value_type \<Rightarrow> 32 word" where
  "value_type_tag VT_UINT8 = 0"
| "value_type_tag VT_INT8 = 1"
| "value_type_tag VT_UINT16 = 2"
| "value_type_tag VT_INT16 = 3"
| "value_type_tag VT_UINT32 = 4"
| "value_type_tag VT_INT32 = 5"
| "value_type_tag VT_FLOAT32 = 6"
| "value_type_tag VT_BOOL = 7"
| "value_type_tag VT_STRING = 8"
| "value_type_tag VT_ARRAY = 9"
| "value_type_tag VT_UINT64 = 10"
| "value_type_tag VT_INT64 = 11"
| "value_type_tag VT_FLOAT64 = 12"
| "value_type_tag (VT_Other w) = w"

lemma value_type_tag_of [simp]: "value_type_tag (value_type_of w) = w"
  by (simp add: value_type_of_def)

lemma value_type_of_tag: "(\<And>w. t \<noteq> VT_Other w) \<Longrightarrow> value_type_of (value_type_tag t) = t"
  by (cases t) (simp_all add: value_type_of_def)

datatype ggml_type = GT_F32 | GT_F16 | GT_Q4_0 | GT_Q4_1 | GT_Q8_0 | GT_BF16 | GT_Other "32 word"

definition ggml_type_of :: "32 word \<Rightarrow> ggml_type" where
  "ggml_type_of w =
     (if w = 0 then GT_F32 else if w = 1 then GT_F16 else if w = 2 then GT_Q4_0 else if w = 3 then GT_Q4_1
      else if w = 8 then GT_Q8_0 else if w = 30 then GT_BF16 else GT_Other w)"

fun ggml_type_tag :: "ggml_type \<Rightarrow> 32 word" where
  "ggml_type_tag GT_F32 = 0"
| "ggml_type_tag GT_F16 = 1"
| "ggml_type_tag GT_Q4_0 = 2"
| "ggml_type_tag GT_Q4_1 = 3"
| "ggml_type_tag GT_Q8_0 = 8"
| "ggml_type_tag GT_BF16 = 30"
| "ggml_type_tag (GT_Other w) = w"

lemma ggml_type_tag_of [simp]: "ggml_type_tag (ggml_type_of w) = w"
  by (simp add: ggml_type_of_def)

definition gguf_version :: nat where "gguf_version = 3"
definition gguf_default_alignment :: nat where "gguf_default_alignment = 32"

fun ggml_dtype_size :: "ggml_type \<Rightarrow> nat" where
  "ggml_dtype_size GT_F32 = 4"
| "ggml_dtype_size GT_F16 = 2"
| "ggml_dtype_size GT_BF16 = 2"
| "ggml_dtype_size GT_Q8_0 = 34"
| "ggml_dtype_size _ = 0"

fun ggml_blck_size :: "ggml_type \<Rightarrow> nat" where
  "ggml_blck_size GT_F32 = 1"
| "ggml_blck_size GT_F16 = 1"
| "ggml_blck_size GT_BF16 = 1"
| "ggml_blck_size GT_Q8_0 = 32"
| "ggml_blck_size _ = 0"

fun ggml_dtype_name :: "ggml_type \<Rightarrow> string" where
  "ggml_dtype_name GT_F32 = ''F32''"
| "ggml_dtype_name GT_F16 = ''F16''"
| "ggml_dtype_name GT_BF16 = ''BF16''"
| "ggml_dtype_name GT_Q8_0 = ''Q8_0''"
| "ggml_dtype_name _ = ''UNKNOWN''"

definition map_ggml_dtype :: "ggml_type \<Rightarrow> dtype result" where
  "map_ggml_dtype t = (case t of
     GT_F32 \<Rightarrow> Inr Float32
   | GT_F16 \<Rightarrow> Inr Float16
   | GT_BF16 \<Rightarrow> Inr BFloat16
   | GT_Q8_0 \<Rightarrow> Inr Q8_0
   | _ \<Rightarrow> Inl (unsupported (''unsupported GGML dtype '' @ ggml_dtype_name t @
       '' (only F32/F16/BF16/Q8_0 are supported)'')))"

section \<open>Binary readers\<close>

type_synonym 'a reader = "octet list \<Rightarrow> ('a \<times> octet list) result"

text \<open>Reading \<open>n\<close> bytes, and reading one thing after the other.\<close>

definition read_exact :: "nat \<Rightarrow> failure \<Rightarrow> octet list reader" where
  "read_exact n e s = (if length s < n then Inl e else Inr (take n s, drop n s))"

definition and_then :: "'a reader \<Rightarrow> ('a \<Rightarrow> 'b reader) \<Rightarrow> 'b reader" where
  "and_then r f s = rbind (r s) (\<lambda>(x, s'). f x s')"

definition give :: "'a \<Rightarrow> 'a reader" where
  "give x s = Inr (x, s)"

definition fail_with :: "failure \<Rightarrow> 'a reader" where
  "fail_with e s = Inl e"

definition read_u8 :: "octet reader" where
  "read_u8 s = (case s of [] \<Rightarrow> Inl (io_error ''unexpected EOF reading uint8'') | b # s' \<Rightarrow> Inr (b, s'))"

definition read_u16_le :: "16 word reader" where
  "read_u16_le = and_then (read_exact 2 (io_error ''failed to read uint16'')) (\<lambda>b.
     give (ucast (b ! 0) OR push_bit 8 (ucast (b ! 1))))"

definition read_u32_le :: "32 word reader" where
  "read_u32_le = and_then (read_exact 4 (io_error ''failed to read uint32'')) (\<lambda>b.
     give (ucast (b ! 0) OR push_bit 8 (ucast (b ! 1)) OR push_bit 16 (ucast (b ! 2)) OR push_bit 24 (ucast (b ! 3))))"

definition read_u64_le :: "64 word reader" where
  "read_u64_le = and_then (read_exact 8 (io_error ''failed to read uint64'')) (\<lambda>b.
     give (foldl (\<lambda>v i. v OR push_bit (i * 8) (ucast (b ! i))) 0 [0..<8]))"

text \<open>\<open>memcpy\<close> of the bits of a float.\<close>

definition read_f32_le :: "32 word reader" where
  "read_f32_le = read_u32_le"

definition read_f64_le :: "64 word reader" where
  "read_f64_le = read_u64_le"

definition text_of :: "octet list \<Rightarrow> string" where
  "text_of bs = map (\<lambda>b. char_of (unat b)) bs"

definition max_string_len :: nat where "max_string_len = 64 * 1024 * 1024"

definition read_string :: "string reader" where
  "read_string = and_then read_u64_le (\<lambda>w.
     let len = unat w in
     if max_string_len < len then
       fail_with (invalid_argument (''GGUF string too long: '' @ nat_to_string len @ '' bytes''))
     else if 2 ^ 63 - 1 < len then
       fail_with (invalid_argument (''GGUF string length overflows streamsize: '' @ nat_to_string len))
     else and_then (read_exact len (io_error ''failed to read string'')) (\<lambda>b. give (text_of b)))"

section \<open>Metadata\<close>

datatype metadata_value =
    MUInt8 octet
  | MInt8 octet
  | MUInt16 "16 word"
  | MInt16 "16 word"
  | MUInt32 "32 word"
  | MInt32 "32 word"
  | MUInt64 "64 word"
  | MInt64 "64 word"
  | MFloat32 "32 word"
  | MFloat64 "64 word"
  | MBool bool
  | MString string
  | MArray "metadata_value list"

definition max_array_len :: nat where "max_array_len = 16 * 1024 * 1024"

fun read_many :: "'a reader \<Rightarrow> nat \<Rightarrow> 'a list reader" where
  "read_many r 0 s = Inr ([], s)"
| "read_many r (Suc n) s = rbind (r s) (\<lambda>(x, s'). rbind (read_many r n s') (\<lambda>(xs, s''). Inr (x # xs, s'')))"

text \<open>\<open>read_metadata_value\<close> to a depth of \<open>fuel\<close> arrays. The code has no such limit: every level of nesting is a
  call, so a file of deeply nested arrays can exhaust the call stack, and \<open>arr.reserve\<close> can fail to get
  its memory (up to 16M elements per level). Neither is modelled: stack and memory are taken to suffice.\<close>

fun read_value :: "nat \<Rightarrow> gguf_value_type \<Rightarrow> metadata_value reader" where
  "read_value fuel VT_UINT8 s = and_then read_u8 (\<lambda>v. give (MUInt8 v)) s"
| "read_value fuel VT_INT8 s = and_then read_u8 (\<lambda>v. give (MInt8 v)) s"
| "read_value fuel VT_UINT16 s = and_then read_u16_le (\<lambda>v. give (MUInt16 v)) s"
| "read_value fuel VT_INT16 s = and_then read_u16_le (\<lambda>v. give (MInt16 v)) s"
| "read_value fuel VT_UINT32 s = and_then read_u32_le (\<lambda>v. give (MUInt32 v)) s"
| "read_value fuel VT_INT32 s = and_then read_u32_le (\<lambda>v. give (MInt32 v)) s"
| "read_value fuel VT_UINT64 s = and_then read_u64_le (\<lambda>v. give (MUInt64 v)) s"
| "read_value fuel VT_INT64 s = and_then read_u64_le (\<lambda>v. give (MInt64 v)) s"
| "read_value fuel VT_FLOAT32 s = and_then read_f32_le (\<lambda>v. give (MFloat32 v)) s"
| "read_value fuel VT_FLOAT64 s = and_then read_f64_le (\<lambda>v. give (MFloat64 v)) s"
| "read_value fuel VT_BOOL s = and_then read_u8 (\<lambda>v. give (MBool (v \<noteq> 0))) s"
| "read_value fuel VT_STRING s = and_then read_string (\<lambda>v. give (MString v)) s"
| "read_value 0 VT_ARRAY s = Inl (UB ''out of fuel'')"
| "read_value (Suc fuel) VT_ARRAY s = and_then read_u32_le (\<lambda>et. and_then read_u64_le (\<lambda>w.
     if max_array_len < unat w then
       fail_with (invalid_argument (''GGUF metadata array too long: '' @ nat_to_string (unat w)))
     else and_then (read_many (read_value fuel (value_type_of et)) (unat w)) (\<lambda>vs. give (MArray vs)))) s"
| "read_value fuel (VT_Other w) s = Inl (unsupported (''unsupported GGUF metadata type: '' @ nat_to_string (unat w)))"

text \<open>Every array takes bytes of the stream, so its length bounds the depth.\<close>

definition read_metadata_value :: "gguf_value_type \<Rightarrow> metadata_value reader" where
  "read_metadata_value t s = read_value (Suc (length s)) t s"

type_synonym metadata = "string \<Rightarrow> metadata_value option"

text \<open>\<open>emplace\<close> keeps the first value of a key.\<close>

definition emplace :: "string \<Rightarrow> metadata_value \<Rightarrow> metadata \<Rightarrow> metadata" where
  "emplace k v m = (if m k = None then m(k \<mapsto> v) else m)"

fun parse_metadata :: "nat \<Rightarrow> metadata \<Rightarrow> metadata reader" where
  "parse_metadata 0 m s = Inr (m, s)"
| "parse_metadata (Suc n) m s = and_then read_string (\<lambda>key. and_then read_u32_le (\<lambda>t.
     and_then (read_metadata_value (value_type_of t)) (\<lambda>v. parse_metadata n (emplace key v m)))) s"

definition get_metadata :: "metadata \<Rightarrow> string \<Rightarrow> metadata_value result" where
  "get_metadata m key = (case m key of
     None \<Rightarrow> Inl (not_found (''metadata key not found: '' @ key))
   | Some v \<Rightarrow> Inr v)"

text \<open>\<open>get_if<T>\<close> is a partial function on values.\<close>

definition get_metadata_or :: "(metadata_value \<Rightarrow> 'a option) \<Rightarrow> metadata \<Rightarrow> string \<Rightarrow> 'a \<Rightarrow> 'a" where
  "get_metadata_or get_if m key default_val = (case m key of
     None \<Rightarrow> default_val
   | Some v \<Rightarrow> (case get_if v of Some x \<Rightarrow> x | None \<Rightarrow> default_val))"

definition get_metadata_array_size :: "metadata \<Rightarrow> string \<Rightarrow> nat result" where
  "get_metadata_array_size m key = (case m key of
     None \<Rightarrow> Inl (not_found (''metadata key not found: '' @ key))
   | Some (MArray vs) \<Rightarrow> Inr (length vs)
   | Some _ \<Rightarrow> Inl (type_error (''metadata key is not an array: '' @ key)))"

section \<open>Tensor infos\<close>

record tensor_info =
  ti_name :: string
  ti_dtype :: ggml_type
  ti_dimensions :: "int list"
  ti_offset :: nat

fun num_elements_loop :: "string \<Rightarrow> nat \<Rightarrow> int list \<Rightarrow> nat result" where
  "num_elements_loop nm n [] = Inr n"
| "num_elements_loop nm n (d # ds) =
     (if d \<le> 0 then Inl (invalid_argument (''invalid non-positive dimension for tensor: '' @ nm))
      else if size_max div size_of_int d < n then Inl (invalid_argument (''numel overflow for tensor: '' @ nm))
      else num_elements_loop nm (wrap64 (n * size_of_int d)) ds)"

definition num_elements :: "tensor_info \<Rightarrow> nat result" where
  "num_elements ti = num_elements_loop (ti_name ti) 1 (ti_dimensions ti)"

definition tensor_bytes :: "tensor_info \<Rightarrow> nat result" where
  "tensor_bytes ti = rbind (num_elements ti) (\<lambda>ne.
     let blck = ggml_blck_size (ti_dtype ti); sz = ggml_dtype_size (ti_dtype ti) in
     if blck = 0 \<or> sz = 0 then Inl (unsupported (''unsupported GGML dtype for tensor byte size: '' @ ti_name ti))
     else
       let num_blocks = wrap64 (ne + blck - 1) div blck in
       if size_max div sz < num_blocks then Inl (invalid_argument (''byte size overflow for tensor: '' @ ti_name ti))
       else Inr (wrap64 (num_blocks * sz)))"

definition max_tensor_count :: nat where "max_tensor_count = 1024 * 1024"
definition max_tensor_dims :: nat where "max_tensor_dims = 8"

text \<open>The dimensions come in column-major order and are stored from the end.\<close>

fun read_dims :: "nat \<Rightarrow> nat \<Rightarrow> nat \<Rightarrow> int list \<Rightarrow> int list reader" where
  "read_dims 0 nd d ds s = Inr (ds, s)"
| "read_dims (Suc n) nd d ds s = and_then read_u64_le (\<lambda>w.
     if w = 0 \<or> 2 ^ 63 - 1 < unat w then
       fail_with (invalid_argument (''GGUF tensor has invalid dimension: '' @ nat_to_string (unat w)))
     else read_dims n nd (Suc d) (ds[nd - d - 1 := int (unat w)])) s"

definition parse_tensor_info :: "tensor_info reader" where
  "parse_tensor_info = and_then read_string (\<lambda>nm. and_then read_u32_le (\<lambda>w.
     let nd = unat w in
     if nd = 0 \<or> max_tensor_dims < nd then
       fail_with (invalid_argument (''GGUF tensor has invalid dimension count: '' @ nat_to_string nd))
     else and_then (read_dims nd nd 0 (replicate nd 0)) (\<lambda>ds. and_then read_u32_le (\<lambda>t. and_then read_u64_le (\<lambda>off.
       give \<lparr>ti_name = nm, ti_dtype = ggml_type_of t, ti_dimensions = ds, ti_offset = unat off\<rparr>)))))"

definition parse_tensor_infos :: "nat \<Rightarrow> tensor_info list reader" where
  "parse_tensor_infos n s =
     (if max_tensor_count < n then Inl (invalid_argument (''GGUF tensor count too large: '' @ nat_to_string n))
      else read_many parse_tensor_info n s)"

section \<open>Files\<close>

record gguf_file =
  gf_version :: nat
  gf_tensor_count :: nat
  gf_metadata_kv_count :: nat
  gf_data_offset :: nat
  gf_source_path :: string
  gf_memory_view :: "octet list option"
  gf_metadata :: metadata
  gf_tensor_infos :: "tensor_info list"

definition gguf_magic :: "octet list" where "gguf_magic = [0x47, 0x47, 0x55, 0x46]"

text \<open>The start of the data region; the remainder by an alignment of zero is undefined.\<close>

definition data_start :: "nat \<Rightarrow> nat \<Rightarrow> nat result" where
  "data_start alignment raw =
     (if alignment = 0 then Inl (UB ''division by zero'')
      else Inr (wrap64 (raw + (alignment - raw mod alignment) mod alignment)))"

definition file_alignment :: "metadata \<Rightarrow> nat" where
  "file_alignment m = (case m ''general.alignment'' of Some (MUInt32 w) \<Rightarrow> unat w | _ \<Rightarrow> gguf_default_alignment)"

definition gguf_parse ::
  "(string \<Rightarrow> octet list option) \<Rightarrow> (string \<Rightarrow> octet list option) \<Rightarrow> string \<Rightarrow> gguf_file result"
where
  "gguf_parse fs mmap filename = (case fs filename of
     None \<Rightarrow> Inl (io_error (''cannot open file: '' @ filename))
   | Some s \<Rightarrow>
       if length s < 4 \<or> take 4 s \<noteq> gguf_magic then Inl (invalid_argument ''invalid GGUF file: magic number mismatch'')
       else rbind (and_then read_u32_le (\<lambda>v.
           if unat v \<noteq> gguf_version then
             fail_with (unsupported (''unsupported GGUF version '' @ nat_to_string (unat v) @ '' (only v3 is supported)''))
           else and_then read_u64_le (\<lambda>tc. and_then read_u64_le (\<lambda>mc.
             and_then (parse_metadata (unat mc) Map.empty) (\<lambda>m. and_then (parse_tensor_infos (unat tc)) (\<lambda>infos.
               give (v, tc, mc, m, infos)))))) (drop 4 s)) (\<lambda>((v, tc, mc, m, infos), rest).
         rbind (data_start (file_alignment m) (length s - length rest)) (\<lambda>off.
           Inr \<lparr>gf_version = unat v, gf_tensor_count = unat tc, gf_metadata_kv_count = unat mc, gf_data_offset = off,
                gf_source_path = filename, gf_memory_view = mmap filename, gf_metadata = m, gf_tensor_infos = infos\<rparr>)))"

definition tensor_view :: "gguf_file \<Rightarrow> tensor_info \<Rightarrow> octet list result" where
  "tensor_view f ti = (case gf_memory_view f of
     None \<Rightarrow> Inl (unsupported (''GGUF memory view unavailable for file: '' @
       (if gf_source_path f = [] then ''<unknown>'' else gf_source_path f)))
   | Some raw \<Rightarrow> rbind (tensor_bytes ti) (\<lambda>n.
       if size_max - ti_offset ti < gf_data_offset f then Inl (out_of_range (''tensor offset overflow for: '' @ ti_name ti))
       else
         let off = wrap64 (gf_data_offset f + ti_offset ti) in
         if length raw < off \<or> length raw - off < n then
           Inl (out_of_range (''tensor byte range exceeds mapped GGUF file bounds for: '' @ ti_name ti))
         else Inr (take n (drop off raw))))"

section \<open>Tensor data\<close>

text \<open>The caller's buffer, with some bytes written to its start.\<close>

definition fill_front :: "octet list \<Rightarrow> octet list \<Rightarrow> octet list" where
  "fill_front xs dst = xs @ drop (length xs) dst"

definition copy_from_view ::
  "octet list \<Rightarrow> nat \<Rightarrow> nat \<Rightarrow> nat \<Rightarrow> octet list \<Rightarrow> unit result \<times> octet list"
where
  "copy_from_view raw data_off tensor_off n dst =
     (if size_max - tensor_off < data_off then (Inl (out_of_range ''tensor byte offset overflow''), dst)
      else
        let off = wrap64 (data_off + tensor_off) in
        if length raw < off \<or> length raw - off < n then
          (Inl (out_of_range ''tensor byte range exceeds mapped GGUF file bounds''), dst)
        else (make_ok, fill_front (take n (drop off raw)) dst))"

text \<open>A stream may seek beyond the end; a read that ends early has copied what there was.\<close>

definition copy_from_stream ::
  "octet list \<Rightarrow> string \<Rightarrow> nat \<Rightarrow> nat \<Rightarrow> nat \<Rightarrow> octet list \<Rightarrow> unit result \<times> octet list"
where
  "copy_from_stream s filename data_off tensor_off n dst =
     (if size_max - tensor_off < data_off then
        (Inl (out_of_range (''tensor offset overflow for: '' @ filename)), dst)
      else
        let off = wrap64 (data_off + tensor_off) in
        if 2 ^ 63 - 1 < off then (Inl (out_of_range (''tensor offset exceeds stream seek range for: '' @ filename)), dst)
        else if 2 ^ 63 \<le> n then (Inl (UB ''negative streamsize''), dst)
        else
          let got = take n (drop off s) in
          if length got < n then
            (Inl (io_error (''read of '' @ nat_to_string n @ '' bytes at offset '' @ nat_to_string off @ '' failed'')),
             fill_front got dst)
          else (make_ok, fill_front got dst))"

definition read_tensor_data ::
  "(string \<Rightarrow> octet list option) \<Rightarrow> (string \<Rightarrow> octet list option) \<Rightarrow> string \<Rightarrow> nat \<Rightarrow> nat \<Rightarrow> nat \<Rightarrow> octet list
   \<Rightarrow> unit result \<times> octet list"
where
  "read_tensor_data fs mmap filename data_off tensor_off n dst = (case mmap filename of
     Some raw \<Rightarrow> copy_from_view raw data_off tensor_off n dst
   | None \<Rightarrow> (case fs filename of
       None \<Rightarrow> (Inl (io_error (''cannot open file: '' @ filename)), dst)
     | Some s \<Rightarrow> copy_from_stream s filename data_off tensor_off n dst))"

end
