(* ===== verification/Byte_Unicode.thy ===== *)
theory Byte_Unicode
  imports Gguf_Format
begin

text \<open>
  The byte alphabet of the tokenizer (src/io/bpe_tokenizer.cpp): the two tables of
  \<open>init_byte_unicode_table\<close>, the UTF-8 helpers, and the conversions between raw bytes and the
  characters that stand for them. A string is a list of chars, each a byte; \<open>data()\<close> of a string has the
  terminating null byte after it, and reading beyond that is undefined.
\<close>

unbundle bit_operations_syntax

section \<open>The tables\<close>

record byte_tables =
  bt_unicode :: "nat list"
  bt_byte :: "nat \<Rightarrow> nat"

definition direct_bytes :: "nat list" where
  "direct_bytes = [33..<127] @ [161..<173] @ [174..<256]"

definition put_direct :: "nat \<Rightarrow> byte_tables \<Rightarrow> byte_tables" where
  "put_direct b t = t\<lparr>bt_unicode := (bt_unicode t)[b := b], bt_byte := (bt_byte t)(b := b)\<rparr>"

fun put_shifted :: "nat list \<Rightarrow> nat \<Rightarrow> byte_tables \<Rightarrow> byte_tables" where
  "put_shifted [] n t = t"
| "put_shifted (b # bs) n t =
     (if b \<in> set direct_bytes then put_shifted bs n t
      else put_shifted bs (Suc n) (t\<lparr>bt_unicode := (bt_unicode t)[b := 256 + n], bt_byte := (bt_byte t)(256 + n := b)\<rparr>))"

definition byte_table :: byte_tables where
  "byte_table = put_shifted [0..<256] 0 (fold put_direct direct_bytes
     \<lparr>bt_unicode = replicate 256 0, bt_byte = (\<lambda>_. 0xFF)\<rparr>)"

section \<open>UTF-8\<close>

definition c_str :: "string \<Rightarrow> string" where
  "c_str s = s @ [CHR 0x00]"

definition byte_at :: "string \<Rightarrow> nat \<Rightarrow> nat result" where
  "byte_at cs i = (if i < length cs then Inr (of_char (cs ! i)) else Inl (UB ''read beyond the end of a string''))"

definition utf8_char_len :: "nat \<Rightarrow> nat" where
  "utf8_char_len c =
     (if c < 0x80 then 1 else if c AND 0xE0 = 0xC0 then 2 else if c AND 0xF0 = 0xE0 then 3
      else if c AND 0xF8 = 0xF0 then 4 else 1)"

text \<open>The code point at a position and the number of bytes it takes; every other lead byte counts as four bytes.\<close>

definition utf8_decode :: "string \<Rightarrow> nat \<Rightarrow> (nat \<times> nat) result" where
  "utf8_decode cs p = rbind (byte_at cs p) (\<lambda>c.
     if c < 0x80 then Inr (c, 1)
     else if c AND 0xE0 = 0xC0 then
       rbind (byte_at cs (p + 1)) (\<lambda>c1. Inr (push_bit 6 (c AND 0x1F) OR (c1 AND 0x3F), 2))
     else if c AND 0xF0 = 0xE0 then
       rbind (byte_at cs (p + 1)) (\<lambda>c1. rbind (byte_at cs (p + 2)) (\<lambda>c2.
         Inr (push_bit 12 (c AND 0x0F) OR push_bit 6 (c1 AND 0x3F) OR (c2 AND 0x3F), 3)))
     else
       rbind (byte_at cs (p + 1)) (\<lambda>c1. rbind (byte_at cs (p + 2)) (\<lambda>c2. rbind (byte_at cs (p + 3)) (\<lambda>c3.
         Inr (push_bit 18 (c AND 0x07) OR push_bit 12 (c1 AND 0x3F) OR push_bit 6 (c2 AND 0x3F) OR (c3 AND 0x3F), 4)))))"

definition utf8_encode :: "nat \<Rightarrow> string" where
  "utf8_encode cp =
     (if cp < 0x80 then [char_of cp]
      else if cp < 0x800 then [char_of (0xC0 OR drop_bit 6 cp), char_of (0x80 OR (cp AND 0x3F))]
      else if cp < 0x10000 then
        [char_of (0xE0 OR drop_bit 12 cp), char_of (0x80 OR (drop_bit 6 cp AND 0x3F)), char_of (0x80 OR (cp AND 0x3F))]
      else
        [char_of (0xF0 OR drop_bit 18 cp), char_of (0x80 OR (drop_bit 12 cp AND 0x3F)),
         char_of (0x80 OR (drop_bit 6 cp AND 0x3F)), char_of (0x80 OR (cp AND 0x3F))])"

lemma utf8_decode_progress: "utf8_decode cs p = Inr (cp, len) \<Longrightarrow> 0 < len \<and> len \<le> 4 \<and> p + len \<le> length cs"
  by (auto simp: utf8_decode_def byte_at_def rbind_Inr_iff split: if_splits)

section \<open>Raw bytes and their characters\<close>

definition bytes_to_unicode :: "string \<Rightarrow> string" where
  "bytes_to_unicode raw = concat (map (\<lambda>b. utf8_encode (bt_unicode byte_table ! of_char b)) raw)"

function unicode_bytes_from :: "string \<Rightarrow> nat \<Rightarrow> nat \<Rightarrow> string result" where
  "unicode_bytes_from cs n p =
     (if p < n then
        (case utf8_decode cs p of
           Inl e \<Rightarrow> Inl e
         | Inr (cp, len) \<Rightarrow> rbind (unicode_bytes_from cs n (p + len)) (\<lambda>out.
             Inr (if cp < 65536 \<and> bt_byte byte_table cp \<noteq> 0xFF then char_of (bt_byte byte_table cp) # out else out)))
      else Inr [])"
  by pat_completeness auto
termination
  by (relation "measure (\<lambda>(cs, n, p). n - p)") (auto dest!: utf8_decode_progress)

declare unicode_bytes_from.simps [simp del]

definition unicode_to_bytes :: "string \<Rightarrow> string result" where
  "unicode_to_bytes mapped = unicode_bytes_from (c_str mapped) (length mapped) 0"

section \<open>What the tables hold\<close>

lemma direct_bytes_bound: "b \<in> set direct_bytes \<Longrightarrow> b < 256"
  by (auto simp: direct_bytes_def)

lemma distinct_direct: "distinct direct_bytes"
  by (auto simp: direct_bytes_def)

lemma put_direct_fold:
  "length (bt_unicode t) = 256 \<Longrightarrow> \<forall>b \<in> set bs. b < 256 \<Longrightarrow>
   length (bt_unicode (fold put_direct bs t)) = 256
   \<and> (\<forall>b. bt_unicode (fold put_direct bs t) ! b = (if b \<in> set bs then b else bt_unicode t ! b))
   \<and> (\<forall>b. bt_byte (fold put_direct bs t) b = (if b \<in> set bs then b else bt_byte t b))"
  by (induction bs arbitrary: t) (auto simp: put_direct_def nth_list_update)

lemma put_shifted_facts:
  "length (bt_unicode t) = 256 \<Longrightarrow> \<forall>b \<in> set bs. b < 256 \<Longrightarrow> distinct bs \<Longrightarrow>
   (\<forall>b. b \<notin> set bs \<or> b \<in> set direct_bytes \<longrightarrow> bt_unicode (put_shifted bs n t) ! b = bt_unicode t ! b)
   \<and> (\<forall>c < 256 + n. bt_byte (put_shifted bs n t) c = bt_byte t c)
   \<and> (\<forall>b \<in> set bs. b \<notin> set direct_bytes \<longrightarrow> (\<exists>i < n + length bs. bt_unicode (put_shifted bs n t) ! b = 256 + i
        \<and> bt_byte (put_shifted bs n t) (256 + i) = b))"
proof (induction bs arbitrary: n t)
  case (Cons b bs)
  show ?case
  proof (cases "b \<in> set direct_bytes")
    case True
    with Cons.prems Cons.IH [of t n] show ?thesis by (auto 0 3 simp: less_SucI)
  next
    case False
    let ?t = "t\<lparr>bt_unicode := (bt_unicode t)[b := 256 + n], bt_byte := (bt_byte t)(256 + n := b)\<rparr>"
    have IH: "\<forall>b'. b' \<notin> set bs \<or> b' \<in> set direct_bytes \<longrightarrow> bt_unicode (put_shifted bs (Suc n) ?t) ! b' = bt_unicode ?t ! b'"
      "\<forall>c < 256 + Suc n. bt_byte (put_shifted bs (Suc n) ?t) c = bt_byte ?t c"
      "\<forall>b' \<in> set bs. b' \<notin> set direct_bytes \<longrightarrow> (\<exists>i < Suc n + length bs. bt_unicode (put_shifted bs (Suc n) ?t) ! b' = 256 + i
        \<and> bt_byte (put_shifted bs (Suc n) ?t) (256 + i) = b')"
      using Cons.IH [of ?t "Suc n"] Cons.prems by auto
    have new: "bt_unicode (put_shifted bs (Suc n) ?t) ! b = 256 + n" "bt_byte (put_shifted bs (Suc n) ?t) (256 + n) = b"
      using IH(1,2) Cons.prems by simp_all
    show ?thesis
      using False IH new Cons.prems by (auto simp: nth_list_update)
  qed
qed simp

lemma byte_table_code:
  assumes "b < 256"
  shows "bt_unicode byte_table ! b < 512" and "bt_byte byte_table (bt_unicode byte_table ! b) = b"
proof -
  let ?t = "fold put_direct direct_bytes \<lparr>bt_unicode = replicate 256 0, bt_byte = (\<lambda>_. 0xFF)\<rparr>"
  note F = put_direct_fold [of "\<lparr>bt_unicode = replicate 256 0, bt_byte = (\<lambda>_. 0xFF)\<rparr>" direct_bytes]
  have t: "length (bt_unicode ?t) = 256" "\<And>b. b \<in> set direct_bytes \<Longrightarrow> bt_unicode ?t ! b = b \<and> bt_byte ?t b = b"
    using F direct_bytes_bound by auto
  note G = put_shifted_facts [OF t(1), of "[0..<256]" 0, folded byte_table_def]
  show "bt_unicode byte_table ! b < 512" "bt_byte byte_table (bt_unicode byte_table ! b) = b"
    using G t(2) [of b] assms by (cases "b \<in> set direct_bytes"; fastforce)+
qed

section \<open>Decoding what was encoded\<close>

lemma two_byte_lead: "x < 32 \<Longrightarrow> (0xC0 OR x) < (256 :: nat) \<and> \<not> (0xC0 OR x) < (0x80 :: nat)
    \<and> (0xC0 OR x) AND 0xE0 = (0xC0 :: nat) \<and> (0xC0 OR x) AND 0x1F = x"
proof -
  have "\<forall>x \<in> set [0..<32]. (0xC0 OR x) < (256 :: nat) \<and> \<not> (0xC0 OR x) < (0x80 :: nat)
      \<and> (0xC0 OR x) AND 0xE0 = (0xC0 :: nat) \<and> (0xC0 OR x) AND 0x1F = x"
    by (simp add: upt_numeral_eval One_nat_def [symmetric] del: One_nat_def)
  then show "x < 32 \<Longrightarrow> ?thesis" by simp
qed

lemma continuation_byte: "y < 64 \<Longrightarrow> (0x80 OR y) < (256 :: nat) \<and> (0x80 OR y) AND 0x3F = y"
proof -
  have "\<forall>y \<in> set [0..<64]. (0x80 OR y) < (256 :: nat) \<and> (0x80 OR y) AND 0x3F = y"
    by (simp add: upt_numeral_eval One_nat_def [symmetric] del: One_nat_def)
  then show "y < 64 \<Longrightarrow> ?thesis" by simp
qed

lemma join_six: "push_bit 6 (cp div 64) OR (cp mod 64) = (cp :: nat)"
proof -
  have "push_bit 6 (drop_bit 6 cp) OR take_bit 6 cp = cp"
    by (rule bit_eqI) (auto simp: bit_simps)
  then show ?thesis by (simp add: drop_bit_eq_div take_bit_eq_mod)
qed

lemma byte_at_append [simp]:
  "byte_at (xs @ c # ys) (length xs) = Inr (of_char c)"
  "byte_at (xs @ c # d # ys) (Suc (length xs)) = Inr (of_char d)"
  by (simp_all add: byte_at_def nth_append)

lemma utf8_decode_encode:
  assumes "cp < 0x800"
  shows "utf8_decode (xs @ utf8_encode cp @ ys) (length xs) = Inr (cp, length (utf8_encode cp))"
proof (cases "cp < 0x80")
  case True
  then show ?thesis by (simp add: utf8_decode_def utf8_encode_def)
next
  case False
  have x: "cp div 64 < 32" using assms by simp
  have y: "cp mod 64 < 64" by simp
  have split: "drop_bit 6 cp = cp div 64" "cp AND 0x3F = cp mod 64"
    using take_bit_eq_mask [of 6 cp] by (simp_all add: drop_bit_eq_div take_bit_eq_mod mask_eq_exp_minus_1)
  show ?thesis
    using False assms two_byte_lead [OF x] continuation_byte [OF y] join_six [of cp]
    by (simp add: utf8_decode_def utf8_encode_def split)
qed

text \<open>The marker of an empty table entry is the code of byte 255, which the way back therefore drops.\<close>

lemma unicode_bytes_from_encoded:
  "unicode_bytes_from (xs @ bytes_to_unicode raw @ ys) (length xs + length (bytes_to_unicode raw)) (length xs)
     = Inr (filter (\<lambda>b. of_char b \<noteq> (255 :: nat)) raw)"
proof (induction raw arbitrary: xs)
  case Nil
  then show ?case by (simp add: bytes_to_unicode_def unicode_bytes_from.simps)
next
  case (Cons b raw)
  let ?cp = "bt_unicode byte_table ! of_char b"
  have b: "of_char b < (256 :: nat)" by simp
  note code = byte_table_code [OF b]
  have split: "bytes_to_unicode (b # raw) = utf8_encode ?cp @ bytes_to_unicode raw"
    by (simp add: bytes_to_unicode_def)
  have pos: "0 < length (utf8_encode ?cp)" by (simp add: utf8_encode_def)
  have dec: "utf8_decode (xs @ utf8_encode ?cp @ bytes_to_unicode raw @ ys) (length xs) = Inr (?cp, length (utf8_encode ?cp))"
    by (rule utf8_decode_encode) (use code in simp)
  have "unicode_bytes_from (xs @ utf8_encode ?cp @ bytes_to_unicode raw @ ys)
      (length xs + length (utf8_encode ?cp) + length (bytes_to_unicode raw)) (length xs + length (utf8_encode ?cp))
    = Inr (filter (\<lambda>b. of_char b \<noteq> (255 :: nat)) raw)"
    using Cons.IH [of "xs @ utf8_encode ?cp"] by simp
  then show ?case
    unfolding split using dec pos code
    by (subst unicode_bytes_from.simps) (simp add: add.assoc)
qed

lemma unicode_to_bytes_to_unicode:
  "unicode_to_bytes (bytes_to_unicode raw) = Inr (filter (\<lambda>b. of_char b \<noteq> (255 :: nat)) raw)"
  using unicode_bytes_from_encoded [of "[]" raw "[CHR 0x00]"] by (simp add: unicode_to_bytes_def c_str_def)

end
