(* ===== verification/Pre_Tokenize.thy ===== *)
theory Pre_Tokenize
  imports Byte_Unicode
begin

text \<open>
  \<open>BPETokenizer::pre_tokenize\<close> (src/io/bpe_tokenizer.cpp): the state machine that cuts a text into the pieces
  on which the merges work. Pointers are positions in the null-terminated text.

  \<open>std::isalpha\<close> and \<open>std::isdigit\<close> are those of the C locale; the standard does not define them for
  arguments above 255, which the code does pass. What they do there is a parameter, \<open>ctype\<close>.
\<close>

section \<open>Character classes\<close>

record ctype =
  ct_alpha :: "nat \<Rightarrow> bool result"
  ct_digit :: "nat \<Rightarrow> bool result"

definition strict_ctype :: ctype where
  "strict_ctype = \<lparr>ct_alpha = (\<lambda>_. Inl (UB ''isalpha of a large value'')), ct_digit = (\<lambda>_. Inl (UB ''isdigit of a large value''))\<rparr>"

definition unicode_is_letter :: "ctype \<Rightarrow> nat \<Rightarrow> bool result" where
  "unicode_is_letter ct cp = (if cp < 256 then Inr (65 \<le> cp \<and> cp \<le> 90 \<or> 97 \<le> cp \<and> cp \<le> 122) else ct_alpha ct cp)"

definition unicode_is_digit :: "ctype \<Rightarrow> nat \<Rightarrow> bool result" where
  "unicode_is_digit ct cp = (if cp < 256 then Inr (48 \<le> cp \<and> cp \<le> 57) else ct_digit ct cp)"

definition unicode_is_space :: "nat \<Rightarrow> bool" where
  "unicode_is_space cp \<longleftrightarrow> cp = 32 \<or> cp = 9 \<or> cp = 10 \<or> cp = 13 \<or> cp = 12 \<or> cp = 11"

definition unicode_is_newline :: "nat \<Rightarrow> bool" where
  "unicode_is_newline cp \<longleftrightarrow> cp = 10 \<or> cp = 13"

text \<open>\<open>!unicode_is_space(c) && !unicode_is_letter(c) && !unicode_is_digit(c)\<close>, from left to right.\<close>

definition is_symbol :: "ctype \<Rightarrow> nat \<Rightarrow> bool result" where
  "is_symbol ct cp =
     (if unicode_is_space cp then Inr False
      else rbind (unicode_is_letter ct cp) (\<lambda>l. if l then Inr False else rbind (unicode_is_digit ct cp) (\<lambda>d. Inr (\<not> d))))"

definition match_contraction :: "string \<Rightarrow> nat \<Rightarrow> nat \<Rightarrow> nat" where
  "match_contraction cs n p =
     (if n \<le> p + 1 then 0
      else let c = cs ! (p + 1) in
        if c \<in> set ''stdmSTDM'' then 2
        else if c \<in> set ''lL'' then (if p + 2 < n \<and> cs ! (p + 2) \<in> set ''lL'' then 3 else 0)
        else if c \<in> set ''vV'' then (if p + 2 < n \<and> cs ! (p + 2) \<in> set ''eE'' then 3 else 0)
        else if c \<in> set ''rR'' then (if p + 2 < n \<and> cs ! (p + 2) \<in> set ''eE'' then 3 else 0)
        else 0)"

section \<open>Runs of characters\<close>

text \<open>\<open>while (p < end)\<close>: step over a character as long as it has a property.\<close>

function skip_while :: "(nat \<Rightarrow> bool result) \<Rightarrow> string \<Rightarrow> nat \<Rightarrow> nat \<Rightarrow> nat result" where
  "skip_while pr cs n p =
     (if p < n then
        (case utf8_decode cs p of
           Inl e \<Rightarrow> Inl e
         | Inr (cp, len) \<Rightarrow> (case pr cp of
             Inl e \<Rightarrow> Inl e
           | Inr b \<Rightarrow> if b then skip_while pr cs n (p + len) else Inr p))
      else Inr p)"
  by pat_completeness auto
termination
  by (relation "measure (\<lambda>(pr, cs, n, p). n - p)") (auto dest!: utf8_decode_progress)

declare skip_while.simps [simp del]

text \<open>At most three digits.\<close>

fun skip_digits :: "ctype \<Rightarrow> nat \<Rightarrow> string \<Rightarrow> nat \<Rightarrow> nat \<Rightarrow> nat result" where
  "skip_digits ct 0 cs n p = Inr p"
| "skip_digits ct (Suc k) cs n p =
     (if p < n then
        rbind (utf8_decode cs p) (\<lambda>(cp, len).
        rbind (unicode_is_digit ct cp) (\<lambda>d. if d then skip_digits ct k cs n (p + len) else Inr p))
      else Inr p)"

definition skip_letters :: "ctype \<Rightarrow> string \<Rightarrow> nat \<Rightarrow> nat \<Rightarrow> nat result" where
  "skip_letters ct = skip_while (unicode_is_letter ct)"

definition skip_newlines :: "string \<Rightarrow> nat \<Rightarrow> nat \<Rightarrow> nat result" where
  "skip_newlines = skip_while (\<lambda>cp. Inr (unicode_is_newline cp))"

definition skip_spaces :: "string \<Rightarrow> nat \<Rightarrow> nat \<Rightarrow> nat result" where
  "skip_spaces = skip_while (\<lambda>cp. Inr (unicode_is_space cp \<and> \<not> unicode_is_newline cp))"

text \<open>Symbols and the newlines after them.\<close>

definition skip_symbols :: "ctype \<Rightarrow> string \<Rightarrow> nat \<Rightarrow> nat \<Rightarrow> nat result" where
  "skip_symbols ct cs n p = rbind (skip_while (is_symbol ct) cs n p) (skip_newlines cs n)"

section \<open>One round of the machine\<close>

text \<open>Is the character at \<open>p\<close>, if there is one, of the given kind?\<close>

definition at_end_or :: "bool \<Rightarrow> (nat \<Rightarrow> bool result) \<Rightarrow> string \<Rightarrow> nat \<Rightarrow> nat \<Rightarrow> bool result" where
  "at_end_or dflt pr cs n p = (if p < n then rbind (utf8_decode cs p) (\<lambda>(cp, len). pr cp) else Inr dflt)"

text \<open>White space up to a line break takes the line breaks; otherwise the piece runs to the end of the text.\<close>

definition whitespace_end :: "string \<Rightarrow> nat \<Rightarrow> nat \<Rightarrow> nat result" where
  "whitespace_end cs n p =
     rbind (skip_spaces cs n p) (\<lambda>q.
     rbind (at_end_or False (\<lambda>cp. Inr (unicode_is_newline cp)) cs n q) (\<lambda>nl.
       if nl then skip_newlines cs n q
       else rbind (at_end_or True (\<lambda>cp. Inr (unicode_is_space cp)) cs n q) (\<lambda>trailing. Inr n)))"

text \<open>The branches after letters and prefixed letters.\<close>

definition other_end :: "ctype \<Rightarrow> string \<Rightarrow> nat \<Rightarrow> nat \<Rightarrow> nat \<Rightarrow> nat \<Rightarrow> bool \<Rightarrow> nat result" where
  "other_end ct cs n p cp clen is_digit =
     (if is_digit then skip_digits ct 3 cs n p
      else if \<not> unicode_is_space cp \<and> \<not> unicode_is_newline cp then skip_symbols ct cs n p
      else rbind (if cp = 32 then
                    at_end_or False (\<lambda>c. if unicode_is_space c \<or> unicode_is_newline c then Inr False else is_symbol ct c) cs n (p + 1)
                  else Inr False) (\<lambda>symbol_next.
        if symbol_next then skip_symbols ct cs n (p + 1)
        else if unicode_is_space cp \<or> unicode_is_newline cp then whitespace_end cs n p
        else Inr (p + clen)))"

text \<open>The end of the piece that starts at \<open>p\<close>.\<close>

definition piece_end :: "ctype \<Rightarrow> string \<Rightarrow> nat \<Rightarrow> nat \<Rightarrow> nat result" where
  "piece_end ct cs n p =
     rbind (utf8_decode cs p) (\<lambda>(cp, clen).
     if cp = 39 \<and> 0 < match_contraction cs n p then Inr (p + match_contraction cs n p)
     else
       rbind (unicode_is_letter ct cp) (\<lambda>is_letter.
       rbind (unicode_is_digit ct cp) (\<lambda>is_digit.
         if is_letter then skip_letters ct cs n (p + clen)
         else
           rbind (if \<not> unicode_is_space cp \<and> \<not> unicode_is_newline cp \<and> \<not> is_digit
                  then at_end_or False (unicode_is_letter ct) cs n (p + clen) else Inr False) (\<lambda>letter_next.
             if letter_next then skip_letters ct cs n (p + clen)
             else other_end ct cs n p cp clen is_digit))))"

lemma skip_while_ge: "skip_while pr cs n p = Inr q \<Longrightarrow> p \<le> q"
proof (induction pr cs n p rule: skip_while.induct)
  case (1 pr cs n p)
  from "1.prems" show ?case
    by (subst (asm) skip_while.simps)
      (auto split: if_splits sum.splits dest!: "1.IH" dest: utf8_decode_progress)
qed

lemma skip_while_first:
  assumes "skip_while pr cs n p = Inr q" and "p < n" and "utf8_decode cs p = Inr (cp, len)" and "pr cp = Inr True"
  shows "p + len \<le> q"
  using assms by (subst (asm) skip_while.simps) (auto dest: skip_while_ge)

lemma skip_digits_ge: "skip_digits ct k cs n p = Inr q \<Longrightarrow> p \<le> q"
  by (induction k arbitrary: p) (fastforce simp: rbind_Inr_iff split: if_splits dest: utf8_decode_progress)+

lemma skip_digits_first:
  assumes "skip_digits ct (Suc k) cs n p = Inr q" and "p < n" and "utf8_decode cs p = Inr (cp, len)"
    and "unicode_is_digit ct cp = Inr True"
  shows "p + len \<le> q"
  using assms by (auto dest: skip_digits_ge)

lemma skip_symbols_first:
  assumes "skip_symbols ct cs n p = Inr q" and "p < n" and "utf8_decode cs p = Inr (cp, len)" and "is_symbol ct cp = Inr True"
  shows "p + len \<le> q"
proof -
  obtain r where r: "skip_while (is_symbol ct) cs n p = Inr r" "skip_newlines cs n r = Inr q"
    using assms(1) by (auto simp: skip_symbols_def)
  show ?thesis
    using skip_while_first [OF r(1) assms(2-4)] skip_while_ge [OF r(2) [unfolded skip_newlines_def]] by simp
qed

lemma whitespace_end_progress:
  assumes "whitespace_end cs n p = Inr q" and "p < n"
  shows "p < q"
proof -
  obtain r nl where r: "skip_spaces cs n p = Inr r" and nl: "at_end_or False (\<lambda>cp. Inr (unicode_is_newline cp)) cs n r = Inr nl"
    and q: "nl \<Longrightarrow> skip_newlines cs n r = Inr q" "\<not> nl \<Longrightarrow> q = n"
    using assms(1) by (auto simp: whitespace_end_def rbind_Inr_iff split: if_splits)
  show ?thesis
  proof (cases nl)
    case True
    then obtain cp len where "r < n" "utf8_decode cs r = Inr (cp, len)" "unicode_is_newline cp"
      using nl by (auto simp: at_end_or_def rbind_Inr_iff split: if_splits)
    from skip_while_first [OF q(1) [OF True, unfolded skip_newlines_def] this(1,2)] this(3)
      utf8_decode_progress [OF this(2)] skip_while_ge [OF r [unfolded skip_spaces_def]]
    show ?thesis by simp
  qed (use q assms in simp)
qed

lemma other_end_progress:
  assumes "other_end ct cs n p cp clen d = Inr q" and "p < n" and "utf8_decode cs p = Inr (cp, clen)"
    and "unicode_is_letter ct cp = Inr False" and "unicode_is_digit ct cp = Inr d"
  shows "p < q"
proof -
  have len: "0 < clen" using utf8_decode_progress [OF assms(3)] by simp
  have digits: "p < q" if "skip_digits ct 3 cs n p = Inr q" and d
    using skip_digits_first [of ct 2 cs n p q cp clen] that assms len by simp
  have sym: "p < q" if "skip_symbols ct cs n p = Inr q" "\<not> d" "\<not> unicode_is_space cp"
    using skip_symbols_first [OF that(1) assms(2,3)] that assms(4,5) len by (auto simp: is_symbol_def)
  have "p < q" if "skip_symbols ct cs n (p + 1) = Inr q"
    using that by (auto simp: skip_symbols_def skip_newlines_def rbind_Inr_iff dest!: skip_while_ge)
  with digits sym len show ?thesis
    using assms(1) whitespace_end_progress [OF _ assms(2)]
    by (auto simp: other_end_def rbind_Inr_iff split: if_splits)
qed

lemma piece_end_progress:
  assumes "piece_end ct cs n p = Inr q" and "p < n"
  shows "p < q"
  using assms
  by (auto simp: piece_end_def rbind_Inr_iff skip_letters_def split: if_splits
      dest!: skip_while_ge dest: utf8_decode_progress other_end_progress)

function pieces_from :: "ctype \<Rightarrow> string \<Rightarrow> nat \<Rightarrow> nat \<Rightarrow> string list result" where
  "pieces_from ct cs n p =
     (if p < n then
        (case piece_end ct cs n p of
           Inl e \<Rightarrow> Inl e
         | Inr q \<Rightarrow> rbind (pieces_from ct cs n q) (\<lambda>ps. Inr (take (q - p) (drop p cs) # ps)))
      else Inr [])"
  by pat_completeness auto
termination
  by (relation "measure (\<lambda>(ct, cs, n, p). n - p)") (auto dest: piece_end_progress)

declare pieces_from.simps [simp del]

definition pre_tokenize :: "ctype \<Rightarrow> string \<Rightarrow> string list result" where
  "pre_tokenize ct text = pieces_from ct (c_str text) (length text) 0"

section \<open>Texts whose characters have a class\<close>

text \<open>The text is cut into whole characters, ASCII characters in one byte, on which \<open>isalpha\<close> and
  \<open>isdigit\<close> are defined.\<close>

function classified_from :: "ctype \<Rightarrow> string \<Rightarrow> nat \<Rightarrow> nat \<Rightarrow> bool" where
  "classified_from ct cs n p =
     (if p < n then
        (case utf8_decode cs p of
           Inl e \<Rightarrow> False
         | Inr (cp, len) \<Rightarrow> isOK (unicode_is_letter ct cp) \<and> isOK (unicode_is_digit ct cp)
             \<and> (cp < 128 \<longrightarrow> len = 1) \<and> classified_from ct cs n (p + len))
      else p = n)"
  by pat_completeness auto
termination
  by (relation "measure (\<lambda>(ct, cs, n, p). n - p)") (auto dest!: utf8_decode_progress)

declare classified_from.simps [simp del]

definition classified :: "ctype \<Rightarrow> string \<Rightarrow> bool" where
  "classified ct text = classified_from ct (c_str text) (length text) 0"

lemma classified_end: "classified_from ct cs n p \<Longrightarrow> p \<le> n"
  by (subst (asm) classified_from.simps) (auto split: if_splits)

lemma classified_step:
  assumes "classified_from ct cs n p" and "p < n"
  obtains cp len l d where "utf8_decode cs p = Inr (cp, len)" "unicode_is_letter ct cp = Inr l" "unicode_is_digit ct cp = Inr d"
    "classified_from ct cs n (p + len)" "p + len \<le> n" "cp < 128 \<longrightarrow> len = 1"
proof (cases "utf8_decode cs p")
  case (Inr v)
  obtain cp len where v: "v = (cp, len)" by (cases v)
  have c: "isOK (unicode_is_letter ct cp)" "isOK (unicode_is_digit ct cp)" "classified_from ct cs n (p + len)"
    "cp < 128 \<longrightarrow> len = 1"
    using assms Inr v by (auto simp: classified_from.simps [of ct cs n p])
  then show ?thesis using that Inr v classified_end [OF c(3)] by (auto simp: isOK_iff)
qed (use assms in \<open>simp add: classified_from.simps [of ct cs n p]\<close>)

text \<open>An operation that, from a boundary, stops at a boundary.\<close>

definition stays :: "ctype \<Rightarrow> string \<Rightarrow> nat \<Rightarrow> nat result \<Rightarrow> bool" where
  "stays ct cs n r \<longleftrightarrow> (\<exists>q. r = Inr q \<and> classified_from ct cs n q)"

lemma stays_skip_while:
  assumes "classified_from ct cs n p"
    and pr: "\<And>cp l d. unicode_is_letter ct cp = Inr l \<Longrightarrow> unicode_is_digit ct cp = Inr d \<Longrightarrow> isOK (pr cp)"
  shows "stays ct cs n (skip_while pr cs n p)"
  using assms
proof (induction pr cs n p rule: skip_while.induct)
  case (1 pr cs n p)
  show ?case
  proof (cases "p < n")
    case True
    from classified_step [OF "1.prems"(1) True] obtain cp len l d where step: "utf8_decode cs p = Inr (cp, len)"
      "unicode_is_letter ct cp = Inr l" "unicode_is_digit ct cp = Inr d" "classified_from ct cs n (p + len)" by metis
    from "1.prems"(2) [OF step(2,3)] obtain b where "pr cp = Inr b" unfolding isOK_iff by blast
    then show ?thesis using "1.IH" [OF True step(1) refl] "1.prems" step True
      by (subst skip_while.simps) (auto simp: stays_def)
  qed (use "1.prems" in \<open>simp add: skip_while.simps stays_def\<close>)
qed

lemma staysI: "classified_from ct cs n q \<Longrightarrow> stays ct cs n (Inr q)"
  by (simp add: stays_def)

lemma stays_bind:
  assumes "stays ct cs n r" and "\<And>q. classified_from ct cs n q \<Longrightarrow> stays ct cs n (f q)"
  shows "stays ct cs n (rbind r f)"
  using assms by (auto simp: stays_def)

lemma is_symbol_defined: "unicode_is_letter ct cp = Inr l \<Longrightarrow> unicode_is_digit ct cp = Inr d \<Longrightarrow> isOK (is_symbol ct cp)"
  by (simp add: is_symbol_def)

lemma stays_skips:
  assumes "classified_from ct cs n p"
  shows "stays ct cs n (skip_letters ct cs n p)" "stays ct cs n (skip_newlines cs n p)" "stays ct cs n (skip_spaces cs n p)"
    "stays ct cs n (skip_symbols ct cs n p)"
proof -
  have nl: "stays ct cs n (skip_newlines cs n p)" if "classified_from ct cs n p" for p
    unfolding skip_newlines_def by (rule stays_skip_while [OF that]) simp
  show "stays ct cs n (skip_letters ct cs n p)" "stays ct cs n (skip_spaces cs n p)"
    unfolding skip_letters_def skip_spaces_def by (rule stays_skip_while [OF assms], simp)+
  show "stays ct cs n (skip_newlines cs n p)" by (rule nl [OF assms])
  show "stays ct cs n (skip_symbols ct cs n p)"
    unfolding skip_symbols_def by (rule stays_bind [OF stays_skip_while [OF assms is_symbol_defined] nl])
qed

lemma stays_skip_digits: "classified_from ct cs n p \<Longrightarrow> stays ct cs n (skip_digits ct k cs n p)"
proof (induction k arbitrary: p)
  case (Suc k)
  show ?case
  proof (cases "p < n")
    case True
    from classified_step [OF Suc.prems True] obtain cp len d where "utf8_decode cs p = Inr (cp, len)"
      "unicode_is_digit ct cp = Inr d" "classified_from ct cs n (p + len)" by metis
    with Suc True show ?thesis by (auto intro: staysI)
  qed (use Suc in \<open>auto intro: staysI\<close>)
qed (simp add: staysI)

lemma at_end_or_defined:
  assumes "classified_from ct cs n p"
    and pr: "\<And>cp l d. unicode_is_letter ct cp = Inr l \<Longrightarrow> unicode_is_digit ct cp = Inr d \<Longrightarrow> isOK (pr cp)"
  shows "isOK (at_end_or dflt pr cs n p)"
proof (cases "p < n")
  case True
  from classified_step [OF assms(1) True] obtain cp len l d where "utf8_decode cs p = Inr (cp, len)"
    "unicode_is_letter ct cp = Inr l" "unicode_is_digit ct cp = Inr d" by metis
  with pr True show ?thesis by (simp add: at_end_or_def)
qed (simp add: at_end_or_def)

lemma stays_bind_defined:
  assumes "isOK r" and "\<And>x. r = Inr x \<Longrightarrow> stays ct cs n (f x)"
  shows "stays ct cs n (rbind r f)"
  using assms by (auto simp: isOK_iff)

lemma classified_at_end: "classified_from ct cs n n"
  by (simp add: classified_from.simps)

lemma stays_whitespace:
  assumes "classified_from ct cs n p"
  shows "stays ct cs n (whitespace_end cs n p)"
  unfolding whitespace_end_def
proof (rule stays_bind [OF stays_skips(3) [OF assms]], rule stays_bind_defined)
  fix q nl
  assume q: "classified_from ct cs n q"
  show "isOK (at_end_or False (\<lambda>cp. Inr (unicode_is_newline cp)) cs n q)" by (rule at_end_or_defined [OF q]) simp
  have "stays ct cs n (rbind (at_end_or True (\<lambda>cp. Inr (unicode_is_space cp)) cs n q) (\<lambda>trailing. Inr n))"
    by (rule stays_bind_defined [OF at_end_or_defined [OF q]]) (auto intro: staysI classified_at_end)
  then show "stays ct cs n (if nl then skip_newlines cs n q
      else rbind (at_end_or True (\<lambda>cp. Inr (unicode_is_space cp)) cs n q) (\<lambda>trailing. Inr n))"
    using stays_skips(2) [OF q] by simp
qed

text \<open>One ASCII character is one step.\<close>

lemma classified_ascii_step:
  assumes "classified_from ct cs n p" and "p < n" and "byte_at cs p = Inr c" and "c < 128"
  shows "classified_from ct cs n (p + 1)"
  using assms by (subst (asm) classified_from.simps) (simp add: utf8_decode_def)

lemma stays_other_end:
  assumes "classified_from ct cs n p" and next_ok: "classified_from ct cs n (p + clen)" and "cp = 32 \<Longrightarrow> clen = 1"
  shows "stays ct cs n (other_end ct cs n p cp clen d)"
proof -
  let ?sym = "\<lambda>c. if unicode_is_space c \<or> unicode_is_newline c then Inr False else is_symbol ct c"
  let ?look = "if cp = 32 then at_end_or False ?sym cs n (p + 1) else Inr False"
  have sym_ok: "isOK (?sym c)" if "unicode_is_letter ct c = Inr l" "unicode_is_digit ct c = Inr e" for c l e
    using is_symbol_defined [OF that] by simp
  have look: "isOK ?look"
    using at_end_or_defined [OF next_ok sym_ok] assms(3) by auto
  have after: "stays ct cs n (if b then skip_symbols ct cs n (p + 1)
      else if unicode_is_space cp \<or> unicode_is_newline cp then whitespace_end cs n p else Inr (p + clen))" if "?look = Inr b" for b
    using that stays_whitespace [OF assms(1)] stays_skips(4) [OF next_ok] staysI [OF next_ok] assms(3)
    by (auto split: if_splits)
  show ?thesis
    unfolding other_end_def
    using stays_skip_digits [OF assms(1), of 3] stays_skips(4) [OF assms(1)] stays_bind_defined [OF look after] by simp
qed

lemma match_contraction_cases:
  assumes "0 < match_contraction cs n p"
  shows "match_contraction cs n p = 2 \<and> p + 1 < n \<and> of_char (cs ! (p + 1)) < (128 :: nat)
    \<or> match_contraction cs n p = 3 \<and> p + 2 < n \<and> of_char (cs ! (p + 1)) < (128 :: nat) \<and> of_char (cs ! (p + 2)) < (128 :: nat)"
  using assms by (auto simp: match_contraction_def Let_def split: if_splits)

lemma stays_piece_end:
  assumes p: "classified_from ct cs n p" "p < n" and len: "n \<le> length cs"
  shows "stays ct cs n (piece_end ct cs n p)"
proof -
  obtain cp clen l d where step: "utf8_decode cs p = Inr (cp, clen)" "unicode_is_letter ct cp = Inr l" "unicode_is_digit ct cp = Inr d"
    and next_ok: "classified_from ct cs n (p + clen)" and "p + clen \<le> n" and one: "cp < 128 \<longrightarrow> clen = 1"
    by (rule classified_step [OF p])
  have contraction: "classified_from ct cs n (p + match_contraction cs n p)" if "cp = 39" "0 < match_contraction cs n p"
  proof -
    have "classified_from ct cs n (p + 1)" using next_ok one that by simp
    then show ?thesis
      using match_contraction_cases [OF that(2)] classified_ascii_step [of ct cs n "p + 1"]
        classified_ascii_step [of ct cs n "p + 2"] len
      by (auto simp: byte_at_def eval_nat_numeral)
  qed
  have letter_next: "isOK (at_end_or False (unicode_is_letter ct) cs n (p + clen))"
    by (rule at_end_or_defined [OF next_ok]) simp
  show ?thesis
    unfolding piece_end_def
    using step contraction stays_skips(1) [OF next_ok] stays_other_end [OF p(1) next_ok] one letter_next
    by (auto intro!: staysI stays_bind_defined)
qed

text \<open>The pieces are the text, cut.\<close>

lemma take_drop_join:
  assumes "p \<le> q" and "q \<le> n"
  shows "take (q - p) (drop p xs) @ take (n - q) (drop q xs) = take (n - p) (drop p xs)"
proof -
  have "n - p = (q - p) + (n - q)" and "q - p + p = q" using assms by auto
  then show ?thesis using take_add [of "q - p" "n - q" "drop p xs"] by simp
qed

lemma pieces_from_partition:
  assumes "classified_from ct cs n p" and "n \<le> length cs"
  shows "\<exists>ps. pieces_from ct cs n p = Inr ps \<and> concat ps = take (n - p) (drop p cs) \<and> [] \<notin> set ps"
  using assms
proof (induction ct cs n p rule: pieces_from.induct)
  case (1 ct cs n p)
  show ?case
  proof (cases "p < n")
    case True
    obtain q where q: "piece_end ct cs n p = Inr q" "classified_from ct cs n q"
      using stays_piece_end [OF "1.prems"(1) True "1.prems"(2)] by (auto simp: stays_def)
    have le: "p < q" "q \<le> n" using piece_end_progress [OF q(1) True] classified_end [OF q(2)] by auto
    obtain ps where ps: "pieces_from ct cs n q = Inr ps" "concat ps = take (n - q) (drop q cs)" "[] \<notin> set ps"
      using "1.IH" [OF True q(1) q(2) "1.prems"(2)] by auto
    have "take (q - p) (drop p cs) @ take (n - q) (drop q cs) = take (n - p) (drop p cs)"
      using le by (intro take_drop_join) auto
    moreover have "take (q - p) (drop p cs) \<noteq> []" using le "1.prems"(2) by simp
    ultimately show ?thesis using True q(1) ps by (simp add: pieces_from.simps [of ct cs n p])
  qed (use "1.prems" classified_end in \<open>auto simp: pieces_from.simps [of ct cs n p]\<close>)
qed

lemma pre_tokenize_partition:
  assumes "classified ct text"
  shows "\<exists>ps. pre_tokenize ct text = Inr ps \<and> concat ps = text \<and> [] \<notin> set ps"
  using pieces_from_partition [OF assms [unfolded classified_def]] by (simp add: pre_tokenize_def c_str_def)

text \<open>ASCII text is classified, whatever the classes of other characters are.\<close>

lemma classified_ascii_from:
  assumes "\<And>c. c \<in> set text \<Longrightarrow> of_char c < (128 :: nat)" and "p \<le> length text"
  shows "classified_from ct (c_str text) (length text) p"
  using assms(2)
proof (induction "length text - p" arbitrary: p)
  case (Suc k)
  then have p: "p < length text" by simp
  have c: "of_char (text ! p) < (128 :: nat)" using assms(1) p by simp
  have "classified_from ct (c_str text) (length text) (p + 1)" using Suc p by simp
  then show ?case using p c
    by (subst classified_from.simps)
      (simp add: utf8_decode_def byte_at_def c_str_def nth_append unicode_is_letter_def unicode_is_digit_def)
qed (simp add: classified_from.simps)

lemma classified_ascii: "(\<And>c. c \<in> set text \<Longrightarrow> of_char c < (128 :: nat)) \<Longrightarrow> classified ct text"
  unfolding classified_def by (rule classified_ascii_from) auto

text \<open>A space before a letter takes the rest of the text into one piece.\<close>

lemma pre_tokenize_space_letter:
  assumes "classified ct (CHR '' '' # c # text)" and "unicode_is_letter ct (of_char c) = Inr True" and "of_char c < (128 :: nat)"
  shows "pre_tokenize ct (CHR '' '' # c # text) = Inr [CHR '' '' # c # text]"
proof -
  let ?s = "CHR '' '' # c # text"
  have first: "utf8_decode (c_str ?s) 0 = Inr (32, 1)" "utf8_decode (c_str ?s) 1 = Inr (of_char c, 1)"
    using assms(3) by (simp_all add: utf8_decode_def byte_at_def c_str_def)
  have c: "65 \<le> (of_char c :: nat) \<and> of_char c \<le> (90 :: nat) \<or> 97 \<le> (of_char c :: nat) \<and> of_char c \<le> (122 :: nat)"
    using assms(2,3) by (simp add: unicode_is_letter_def)
  have nonspace: "\<not> unicode_is_space (of_char c)" "\<not> unicode_is_newline (of_char c)"
    using c by (auto simp: unicode_is_space_def unicode_is_newline_def)
  have spaces: "skip_spaces (c_str ?s) (length ?s) 0 = Inr 1"
    unfolding skip_spaces_def using first nonspace
    by (simp add: skip_while.simps [of _ "c_str ?s" _ 0] skip_while.simps [of _ "c_str ?s" _ 1]
        skip_while.simps [of _ "c_str ?s" _ "Suc 0"] unicode_is_space_def [of 32] unicode_is_newline_def [of 32])
  have "whitespace_end (c_str ?s) (length ?s) 0 = Inr (length ?s)"
    using spaces first nonspace by (simp add: whitespace_end_def at_end_or_def)
  then have "piece_end ct (c_str ?s) (length ?s) 0 = Inr (length ?s)"
    using first nonspace assms(2)
    by (simp add: piece_end_def other_end_def at_end_or_def is_symbol_def unicode_is_letter_def [of _ 32]
        unicode_is_digit_def [of _ 32] unicode_is_space_def [of 32] unicode_is_newline_def [of 32])
  then have "pieces_from ct (c_str ?s) (length ?s) 0 = Inr [take (length ?s) (c_str ?s)]"
    by (subst pieces_from.simps) (simp add: pieces_from.simps [of ct _ n n for n])
  then show ?thesis by (simp add: pre_tokenize_def c_str_def)
qed

end
