(* ===== verification/Bpe_Merge.thy ===== *)
theory Bpe_Merge
  imports Byte_Unicode
begin

text \<open>
  \<open>BPETokenizer::bpe\<close> (src/io/bpe_tokenizer.cpp): the merge loop on a doubly linked list of symbols that is kept in
  an array. A symbol that was merged away stays in the array with its old text and its old successor, and the
  scan still looks at it. The main fact is that this has no effect: the texts of the live symbols develop
  by merging, again and again, the leftmost neighbours of lowest rank.
\<close>

section \<open>Symbols\<close>

record symbol =
  sy_text :: string
  sy_prev :: int
  sy_next :: int

type_synonym merge_ranks = "string \<times> string \<Rightarrow> int option"

text \<open>A \<open>static_cast\<close> of a size to \<open>int\<close> and \<open>int32_t\<close>.\<close>

definition size_to_int :: "nat \<Rightarrow> int" where
  "size_to_int n = (let m = int n mod 2 ^ 32 in if m < 2 ^ 31 then m else m - 2 ^ 32)"

lemma size_to_int_small [simp]: "n < 2 ^ 31 \<Longrightarrow> size_to_int n = int n"
  by (simp add: size_to_int_def)

function split_symbols :: "string \<Rightarrow> nat \<Rightarrow> nat \<Rightarrow> symbol list result" where
  "split_symbols cs n p =
     (if p < n then
        (let len = utf8_char_len (of_char (cs ! p)) in
         if length cs < p + len then Inl (UB ''read beyond the end of a string'')
         else rbind (split_symbols cs n (p + len)) (\<lambda>ss. Inr (\<lparr>sy_text = take len (drop p cs), sy_prev = -1, sy_next = -1\<rparr> # ss)))
      else Inr [])"
  by pat_completeness auto
termination
  by (relation "measure (\<lambda>(cs, n, p). n - p)") (auto simp: utf8_char_len_def)

declare split_symbols.simps [simp del]

definition link_symbols :: "symbol list \<Rightarrow> symbol list" where
  "link_symbols ss =
     (let m = size_to_int (length ss) in
      map (\<lambda>i. if int i < m then (ss ! i)\<lparr>sy_prev := int i - 1, sy_next := if int i + 1 < m then int i + 1 else -1\<rparr> else ss ! i)
        [0..<length ss])"

section \<open>The merge loop\<close>

text \<open>The first pair of lowest rank among the symbols of the given positions.\<close>

fun scan_pairs :: "merge_ranks \<Rightarrow> symbol list \<Rightarrow> nat list \<Rightarrow> int \<times> int \<Rightarrow> int \<times> int" where
  "scan_pairs rk ss [] best = best"
| "scan_pairs rk ss (i # is) (best_rank, best_idx) =
     (if sy_next (ss ! i) < 0 then scan_pairs rk ss is (best_rank, best_idx)
      else case rk (sy_text (ss ! i), sy_text (ss ! nat (sy_next (ss ! i)))) of
        Some r \<Rightarrow> if r < best_rank then scan_pairs rk ss is (r, int i) else scan_pairs rk ss is (best_rank, best_idx)
      | None \<Rightarrow> scan_pairs rk ss is (best_rank, best_idx))"

definition best_pair :: "merge_ranks \<Rightarrow> symbol list \<Rightarrow> int" where
  "best_pair rk ss = snd (scan_pairs rk ss [0..<nat (size_to_int (length ss))] (2 ^ 31 - 1, -1))"

definition merge_symbols :: "nat \<Rightarrow> symbol list \<Rightarrow> symbol list" where
  "merge_symbols b ss =
     (let j = nat (sy_next (ss ! b));
          ss1 = ss[b := (ss ! b)\<lparr>sy_text := sy_text (ss ! b) @ sy_text (ss ! j), sy_next := sy_next (ss ! j)\<rparr>];
          k = sy_next (ss1 ! j);
          ss2 = (if 0 \<le> k then ss1[nat k := (ss1 ! nat k)\<lparr>sy_prev := int b\<rparr>] else ss1)
      in ss2[j := (ss2 ! j)\<lparr>sy_prev := -2\<rparr>])"

fun merge_loop :: "nat \<Rightarrow> merge_ranks \<Rightarrow> symbol list \<Rightarrow> symbol list result" where
  "merge_loop 0 rk ss = Inl (UB ''out of fuel'')"
| "merge_loop (Suc fuel) rk ss =
     (if best_pair rk ss < 0 then Inr ss else merge_loop fuel rk (merge_symbols (nat (best_pair rk ss)) ss))"

section \<open>The tokens\<close>

fun chain_ids :: "nat \<Rightarrow> (string \<Rightarrow> int option) \<Rightarrow> symbol list \<Rightarrow> int \<Rightarrow> int list result" where
  "chain_ids 0 vm ss cur = (if cur < 0 then Inr [] else Inl (UB ''out of fuel''))"
| "chain_ids (Suc fuel) vm ss cur =
     (if cur < 0 then Inr []
      else rbind (chain_ids fuel vm ss (sy_next (ss ! nat cur))) (\<lambda>ids.
        Inr (case vm (sy_text (ss ! nat cur)) of Some v \<Rightarrow> v # ids | None \<Rightarrow> ids)))"

text \<open>The first symbol without a predecessor heads the chain.\<close>

fun chain_head :: "symbol list \<Rightarrow> nat list \<Rightarrow> int" where
  "chain_head ss [] = -1"
| "chain_head ss (i # is) = (if sy_prev (ss ! i) = -1 then int i else chain_head ss is)"

definition bpe :: "(string \<Rightarrow> int option) \<Rightarrow> merge_ranks \<Rightarrow> string \<Rightarrow> int list result" where
  "bpe vm rk wd =
     (if wd = [] then Inr []
      else rbind (split_symbols (c_str wd) (length wd) 0) (\<lambda>ss.
        if ss = [] then Inr []
        else if length ss = 1 then
          Inr (case vm (sy_text (ss ! 0)) of Some v \<Rightarrow> [v] | None \<Rightarrow> [])
        else rbind (merge_loop (Suc (length ss * length ss)) rk (link_symbols ss)) (\<lambda>ss'.
          chain_ids (length ss') vm ss' (chain_head ss' [0..<nat (size_to_int (length ss'))]))))"

section \<open>What merging means\<close>

fun merge_at :: "nat \<Rightarrow> string list \<Rightarrow> string list" where
  "merge_at 0 (x # y # zs) = (x @ y) # zs"
| "merge_at (Suc i) (x # xs) = x # merge_at i xs"
| "merge_at _ xs = xs"

text \<open>Merging the leftmost neighbours of lowest rank; a rank of \<open>INT32_MAX\<close> counts as none.\<close>

definition pair_rank :: "merge_ranks \<Rightarrow> string list \<Rightarrow> nat \<Rightarrow> int option" where
  "pair_rank rk ts i = (case rk (ts ! i, ts ! Suc i) of Some r \<Rightarrow> if r < 2 ^ 31 - 1 then Some r else None | None \<Rightarrow> None)"

inductive lowest_merge :: "merge_ranks \<Rightarrow> string list \<Rightarrow> string list \<Rightarrow> bool" for rk where
  lowest_merge: "Suc i < length ts \<Longrightarrow> pair_rank rk ts i = Some r
    \<Longrightarrow> (\<forall>k s. Suc k < length ts \<longrightarrow> pair_rank rk ts k = Some s \<longrightarrow> r \<le> s \<and> (r = s \<longrightarrow> i \<le> k))
    \<Longrightarrow> lowest_merge rk ts (merge_at i ts)"

inductive_cases lowest_mergeE: "lowest_merge rk ts ts'"

definition unmergeable :: "merge_ranks \<Rightarrow> string list \<Rightarrow> bool" where
  "unmergeable rk ts \<longleftrightarrow> (\<forall>i. Suc i < length ts \<longrightarrow> pair_rank rk ts i = None)"

lemma merge_at_split: "merge_at (length xs) (xs @ x # y # zs) = xs @ (x @ y) # zs"
  by (induction xs) auto

lemma concat_merge_at: "concat (merge_at i ts) = concat ts"
  by (induction i ts rule: merge_at.induct) auto

lemma lowest_merges_concat: "(lowest_merge rk)\<^sup>*\<^sup>* ts ts' \<Longrightarrow> concat ts' = concat ts"
  by (induction rule: rtranclp_induct) (auto elim!: lowest_mergeE simp: concat_merge_at)

text \<open>The relation has one result at most.\<close>

lemma lowest_merge_unique:
  assumes "lowest_merge rk ts a" and "lowest_merge rk ts b"
  shows "a = b"
proof -
  obtain i r where i: "Suc i < length ts" "pair_rank rk ts i = Some r" "a = merge_at i ts"
    "\<forall>k s. Suc k < length ts \<longrightarrow> pair_rank rk ts k = Some s \<longrightarrow> r \<le> s \<and> (r = s \<longrightarrow> i \<le> k)"
    using assms(1) by (blast elim: lowest_mergeE)
  obtain j s where j: "Suc j < length ts" "pair_rank rk ts j = Some s" "b = merge_at j ts"
    "\<forall>k r. Suc k < length ts \<longrightarrow> pair_rank rk ts k = Some r \<longrightarrow> s \<le> r \<and> (s = r \<longrightarrow> j \<le> k)"
    using assms(2) by (blast elim: lowest_mergeE)
  have "r = s" using i(4) j(1,2) j(4) i(1,2) by (meson order_antisym)
  then have "i = j" using i(1,2,4) j(1,2,4) by (meson order_antisym)
  then show ?thesis using i(3) j(3) by simp
qed

lemma unmergeable_final: "unmergeable rk ts \<Longrightarrow> \<not> lowest_merge rk ts ts'"
  by (auto simp: unmergeable_def elim!: lowest_mergeE)

end
