(* ===== verification/Bpe_Merge_Correct.thy ===== *)
theory Bpe_Merge_Correct
  imports Bpe_Merge
begin

text \<open>
  The merge loop of \<open>BPETokenizer::bpe\<close> computes what \<open>lowest_merge\<close> describes: the live symbols are
  a chain of successors from the first one, a step of the loop merges in this chain or changes only symbols
  outside of it, and every step shortens some link, so that the fuel is enough.
\<close>

section \<open>Chains of live symbols\<close>

definition wf_symbols :: "symbol list \<Rightarrow> bool" where
  "wf_symbols ss \<longleftrightarrow> (\<forall>i < length ss. sy_next (ss ! i) = -1 \<or> int i < sy_next (ss ! i) \<and> sy_next (ss ! i) < int (length ss))"

fun linked :: "symbol list \<Rightarrow> int \<Rightarrow> nat list \<Rightarrow> bool" where
  "linked ss x [] \<longleftrightarrow> x = -1"
| "linked ss x (i # is) \<longleftrightarrow> x = int i \<and> i < length ss \<and> linked ss (sy_next (ss ! i)) is"

definition chain_texts :: "symbol list \<Rightarrow> nat list \<Rightarrow> string list" where
  "chain_texts ss is = map (\<lambda>i. sy_text (ss ! i)) is"

lemma wf_symbolsD:
  "wf_symbols ss \<Longrightarrow> i < length ss \<Longrightarrow> sy_next (ss ! i) = -1 \<or> int i < sy_next (ss ! i) \<and> sy_next (ss ! i) < int (length ss)"
  by (simp add: wf_symbols_def)

lemma linked_bounds: "linked ss x is \<Longrightarrow> i \<in> set is \<Longrightarrow> i < length ss"
  by (induction "is" arbitrary: x) auto

lemma linked_ge: "wf_symbols ss \<Longrightarrow> linked ss x is \<Longrightarrow> i \<in> set is \<Longrightarrow> x \<le> int i"
proof (induction "is" arbitrary: x)
  case (Cons a "is")
  show ?case
  proof (cases "i = a")
    case False
    then have "sy_next (ss ! a) \<le> int i" using Cons by auto
    moreover have "sy_next (ss ! a) \<noteq> -1" using Cons.prems False by (cases "is") auto
    ultimately show ?thesis using Cons.prems wf_symbolsD [of ss a] by auto
  qed (use Cons.prems in auto)
qed simp

lemma linked_sorted: "wf_symbols ss \<Longrightarrow> linked ss x is \<Longrightarrow> sorted_wrt (<) is"
proof (induction "is" arbitrary: x)
  case (Cons a "is")
  have "a < i" if i: "i \<in> set is" for i
  proof -
    have "sy_next (ss ! a) \<le> int i" using Cons.prems i linked_ge [of ss "sy_next (ss ! a)" "is" i] by auto
    moreover have "sy_next (ss ! a) \<noteq> -1" using Cons.prems i by (cases "is") auto
    ultimately show ?thesis using Cons.prems wf_symbolsD [of ss a] by auto
  qed
  with Cons show ?case by auto
qed simp

lemma linked_next: "linked ss x is \<Longrightarrow> Suc p < length is \<Longrightarrow> sy_next (ss ! (is ! p)) = int (is ! Suc p)"
proof (induction "is" arbitrary: x p)
  case (Cons a "is")
  show ?case
  proof (cases p)
    case 0
    then show ?thesis using Cons.prems by (cases "is") auto
  next
    case (Suc q)
    then show ?thesis using Cons.IH [of "sy_next (ss ! a)" q] Cons.prems by simp
  qed
qed simp

lemma linked_last: "linked ss x is \<Longrightarrow> p < length is \<Longrightarrow> \<not> Suc p < length is \<Longrightarrow> sy_next (ss ! (is ! p)) = -1"
proof (induction "is" arbitrary: x p)
  case (Cons a "is")
  show ?case
  proof (cases p)
    case 0
    then show ?thesis using Cons.prems by (cases "is") auto
  next
    case (Suc q)
    then show ?thesis using Cons.IH [of "sy_next (ss ! a)" q] Cons.prems by simp
  qed
qed simp

lemma linked_cong:
  "length ss' = length ss \<Longrightarrow> (\<And>i. i \<in> set is \<Longrightarrow> sy_next (ss' ! i) = sy_next (ss ! i)) \<Longrightarrow> linked ss' x is = linked ss x is"
  by (induction "is" arbitrary: x) auto

text \<open>Taking the symbol after \<open>b\<close> out of the chain.\<close>

lemma linked_skip:
  assumes "linked ss x (xs @ b # j # ys)" and "length ss' = length ss" and "sy_next (ss' ! b) = sy_next (ss ! j)"
    and "\<And>i. i \<noteq> b \<Longrightarrow> sy_next (ss' ! i) = sy_next (ss ! i)" and "b \<notin> set xs" and "b \<notin> set ys"
  shows "linked ss' x (xs @ b # ys)"
  using assms(1,5)
proof (induction xs arbitrary: x)
  case Nil
  moreover have "linked ss' y ys = linked ss y ys" for y
    by (rule linked_cong [OF assms(2) assms(4)]) (use assms(6) in auto)
  ultimately show ?case using assms(2,3) by simp
next
  case (Cons a xs)
  then show ?case using assms(2,4) by auto
qed

section \<open>One merge\<close>

lemma merge_symbols_facts:
  assumes "wf_symbols ss" and "b < length ss" and "sy_next (ss ! b) = int j"
  shows "length (merge_symbols b ss) = length ss"
    and "sy_next (merge_symbols b ss ! i) = (if i = b then sy_next (ss ! j) else sy_next (ss ! i))"
    and "sy_text (merge_symbols b ss ! i) = (if i = b then sy_text (ss ! b) @ sy_text (ss ! j) else sy_text (ss ! i))"
    and "sy_prev (merge_symbols b ss ! 0) = sy_prev (ss ! 0)"
proof -
  have j: "b < j" "j < length ss" using wf_symbolsD [OF assms(1,2)] assms(3) by auto
  let ?ss1 = "ss[b := (ss ! b)\<lparr>sy_text := sy_text (ss ! b) @ sy_text (ss ! j), sy_next := sy_next (ss ! j)\<rparr>]"
  have ss1: "?ss1 ! j = ss ! j" using j by simp
  consider (last) "sy_next (ss ! j) = -1" | (more) k where "sy_next (ss ! j) = int k" "j < k" "k < length ss"
    using wf_symbolsD [OF assms(1) j(2)] by (metis less_trans of_nat_less_iff of_nat_less_0_iff linorder_not_le zero_le_imp_eq_int)
  then have "merge_symbols b ss = ?ss1[j := (ss ! j)\<lparr>sy_prev := -2\<rparr>]
      \<or> (\<exists>k. j < k \<and> k < length ss \<and> merge_symbols b ss = ?ss1[k := (ss ! k)\<lparr>sy_prev := int b\<rparr>, j := (ss ! j)\<lparr>sy_prev := -2\<rparr>])"
  proof cases
    case last
    then show ?thesis using assms(3) ss1 by (simp add: merge_symbols_def Let_def)
  next
    case more
    then show ?thesis using assms(3) ss1 j
      by (intro disjI2 exI [of _ k]) (simp add: merge_symbols_def Let_def)
  qed
  then show "length (merge_symbols b ss) = length ss"
    and "sy_next (merge_symbols b ss ! i) = (if i = b then sy_next (ss ! j) else sy_next (ss ! i))"
    and "sy_text (merge_symbols b ss ! i) = (if i = b then sy_text (ss ! b) @ sy_text (ss ! j) else sy_text (ss ! i))"
    and "sy_prev (merge_symbols b ss ! 0) = sy_prev (ss ! 0)"
    using j assms(2) by (elim disjE exE conjE; force simp: nth_list_update)+
qed

lemma wf_merge_symbols:
  assumes "wf_symbols ss" and "b < length ss" and "sy_next (ss ! b) = int j"
  shows "wf_symbols (merge_symbols b ss)"
proof -
  have j: "b < j" "j < length ss" using wf_symbolsD [OF assms(1,2)] assms(3) by auto
  show ?thesis
    unfolding wf_symbols_def merge_symbols_facts [OF assms]
  proof (intro allI impI)
    fix i
    assume "i < length ss"
    from wf_symbolsD [OF assms(1) this] wf_symbolsD [OF assms(1) j(2)] j
    show "(if i = b then sy_next (ss ! j) else sy_next (ss ! i)) = -1
      \<or> int i < (if i = b then sy_next (ss ! j) else sy_next (ss ! i))
        \<and> (if i = b then sy_next (ss ! j) else sy_next (ss ! i)) < int (length ss)"
      by (cases "i = b") (auto dest: less_trans [of "int b" "int j"])
  qed
qed

text \<open>Every merge shortens a link.\<close>

definition link_length :: "nat \<Rightarrow> int \<Rightarrow> nat" where
  "link_length n x = (if x < 0 then 0 else nat (int n - x))"

definition link_total :: "symbol list \<Rightarrow> nat" where
  "link_total ss = (\<Sum>i < length ss. link_length (length ss) (sy_next (ss ! i)))"

lemma link_total_merge:
  assumes "wf_symbols ss" and "b < length ss" and "sy_next (ss ! b) = int j"
  shows "link_total (merge_symbols b ss) < link_total ss"
proof -
  have j: "b < j" "j < length ss" using wf_symbolsD [OF assms(1,2)] assms(3) by auto
  note F = merge_symbols_facts [OF assms]
  have "link_length (length ss) (sy_next (ss ! j)) < link_length (length ss) (int j)"
    using wf_symbolsD [OF assms(1) j(2)] j by (auto simp: link_length_def)
  then show ?thesis unfolding link_total_def F(1,2)
    by (intro sum_strict_mono_ex1) (use assms in auto)
qed

lemma link_total_bound: "link_total ss \<le> length ss * length ss"
proof -
  have "link_total ss \<le> (\<Sum>i < length ss. length ss)"
    unfolding link_total_def by (rule sum_mono) (auto simp: link_length_def)
  then show ?thesis by simp
qed

section \<open>The scan\<close>

definition candidate :: "merge_ranks \<Rightarrow> symbol list \<Rightarrow> nat \<Rightarrow> int option" where
  "candidate rk ss i = (if sy_next (ss ! i) < 0 then None else rk (sy_text (ss ! i), sy_text (ss ! nat (sy_next (ss ! i)))))"

lemma scan_pairs_spec:
  "sorted_wrt (<) is \<Longrightarrow> scan_pairs rk ss is (r0, b0) = (r, b) \<Longrightarrow>
     (b = b0 \<and> r = r0 \<and> (\<forall>i \<in> set is. \<forall>s. candidate rk ss i = Some s \<longrightarrow> r0 \<le> s))
   \<or> (\<exists>i \<in> set is. b = int i \<and> candidate rk ss i = Some r \<and> r < r0
        \<and> (\<forall>k \<in> set is. \<forall>s. candidate rk ss k = Some s \<longrightarrow> r \<le> s \<and> (r = s \<longrightarrow> i \<le> k)))"
proof (induction "is" arbitrary: r0 b0)
  case (Cons a "is")
  have rest: "sorted_wrt (<) is" "\<forall>k \<in> set is. a < k" using Cons.prems by auto
  consider (skip) "scan_pairs rk ss is (r0, b0) = (r, b)" "\<forall>s. candidate rk ss a = Some s \<longrightarrow> r0 \<le> s"
    | (take) s where "scan_pairs rk ss is (s, int a) = (r, b)" "candidate rk ss a = Some s" "s < r0"
    using Cons.prems(2) by (fastforce simp: candidate_def split: if_splits option.splits)
  then show ?case
  proof cases
    case skip
    from Cons.IH [OF rest(1) skip(1)] skip(2) show ?thesis
    proof (elim disjE bexE conjE, goal_cases)
      case (2 i)
      have "r \<le> s \<and> (r = s \<longrightarrow> i \<le> k)" if "k \<in> set (a # is)" "candidate rk ss k = Some s" for k s
        using that 2 skip(2) by (cases "k = a") force+
      then show ?case using 2 by (intro disjI2 bexI [of _ i]) auto
    qed auto
  next
    case take
    from Cons.IH [OF rest(1) take(1)] show ?thesis
    proof (elim disjE bexE conjE, goal_cases)
      case 1
      then show ?case using take rest(2) by (intro disjI2 bexI [of _ a]) auto
    next
      case (2 i)
      have "r \<le> s' \<and> (r = s' \<longrightarrow> i \<le> k)" if "k \<in> set (a # is)" "candidate rk ss k = Some s'" for k s'
        using that 2 take by (cases "k = a") force+
      then show ?case using 2 take by (intro disjI2 bexI [of _ i]) auto
    qed
  qed
qed simp

lemma best_pair_none:
  assumes "best_pair rk ss < 0" and "length ss < 2 ^ 31"
  shows "\<forall>i < length ss. \<forall>s. candidate rk ss i = Some s \<longrightarrow> 2 ^ 31 - 1 \<le> s"
  using assms scan_pairs_spec [of "[0..<length ss]" rk ss "2 ^ 31 - 1" "-1"]
  by (cases "scan_pairs rk ss [0..<length ss] (2 ^ 31 - 1, -1)") (auto simp: best_pair_def)

lemma best_pair_some:
  assumes "\<not> best_pair rk ss < 0" and "length ss < 2 ^ 31"
  obtains b r where "best_pair rk ss = int b" "b < length ss" "candidate rk ss b = Some r" "r < 2 ^ 31 - 1"
    "\<forall>k < length ss. \<forall>s. candidate rk ss k = Some s \<longrightarrow> r \<le> s \<and> (r = s \<longrightarrow> b \<le> k)"
  using assms scan_pairs_spec [of "[0..<length ss]" rk ss "2 ^ 31 - 1" "-1"]
  by (cases "scan_pairs rk ss [0..<length ss] (2 ^ 31 - 1, -1)") (auto simp: best_pair_def)

section \<open>The loop\<close>

text \<open>The neighbours in the chain are candidates of the scan.\<close>

lemma pair_rank_candidate:
  assumes "linked ss x is" and "Suc p < length is"
  shows "pair_rank rk (chain_texts ss is) p =
    (case candidate rk ss (is ! p) of Some r \<Rightarrow> if r < 2 ^ 31 - 1 then Some r else None | None \<Rightarrow> None)"
  using linked_next [OF assms] assms(2) by (simp add: pair_rank_def candidate_def chain_texts_def)

lemma candidate_linked:
  assumes "linked ss x is" and "i \<in> set is" and "candidate rk ss i = Some r"
  obtains xs j ys where "is = xs @ i # j # ys"
proof -
  obtain p where p: "p < length is" "is ! p = i" using assms(2) by (auto simp: in_set_conv_nth)
  have "Suc p < length is"
    using linked_last [OF assms(1) p(1)] assms(3) p(2) by (auto simp: candidate_def split: if_splits)
  then have "is = take p is @ i # is ! Suc p # drop (Suc (Suc p)) is"
    using p by (metis Cons_nth_drop_Suc Suc_lessD append_take_drop_id)
  then show ?thesis by (rule that)
qed

text \<open>One round: the live texts make the merge, or nothing happens to them.\<close>

lemma merge_round:
  assumes wf: "wf_symbols ss" and chain: "linked ss 0 is" and len: "length ss < 2 ^ 31" and best: "\<not> best_pair rk ss < 0"
  defines "ss' \<equiv> merge_symbols (nat (best_pair rk ss)) ss"
  obtains is' where "wf_symbols ss'" "length ss' = length ss" "link_total ss' < link_total ss" "linked ss' 0 is'"
    "sy_prev (ss' ! 0) = sy_prev (ss ! 0)"
    "lowest_merge rk (chain_texts ss is) (chain_texts ss' is') \<or> chain_texts ss' is' = chain_texts ss is"
proof -
  obtain b r where b: "best_pair rk ss = int b" "b < length ss" "candidate rk ss b = Some r" "r < 2 ^ 31 - 1"
    and low: "\<forall>k < length ss. \<forall>s. candidate rk ss k = Some s \<longrightarrow> r \<le> s \<and> (r = s \<longrightarrow> b \<le> k)"
    using best_pair_some [OF best len] by metis
  have ss': "ss' = merge_symbols b ss" by (simp add: ss'_def b)
  have nonneg: "\<not> sy_next (ss ! b) < 0" using b(3) by (auto simp: candidate_def split: if_splits)
  then obtain j where j: "sy_next (ss ! b) = int j" by (metis linorder_not_le zero_le_imp_eq_int)
  note F = merge_symbols_facts [OF wf b(2) j, folded ss']
  note W = wf_merge_symbols [OF wf b(2) j, folded ss'] F(1) link_total_merge [OF wf b(2) j, folded ss']
  show ?thesis
  proof (cases "b \<in> set is")
    case False
    have "linked ss' 0 is = linked ss 0 is" by (rule linked_cong [OF F(1)]) (use False F(2) in auto)
    moreover have "chain_texts ss' is = chain_texts ss is" using False F(3) by (auto simp: chain_texts_def)
    ultimately show ?thesis using that [OF W] chain F(4) by auto
  next
    case True
    obtain xs i ys where is_split: "is = xs @ b # i # ys" by (rule candidate_linked [OF chain True b(3)])
    have "distinct is" using linked_sorted [OF wf chain] strict_sorted_iff by blast
    then have dist: "b \<notin> set xs" "b \<notin> set ys" "b \<noteq> i" using is_split by auto
    have i: "i = j" using linked_next [OF chain, of "length xs"] is_split j by (simp add: nth_append)
    have chain': "linked ss' 0 (xs @ b # ys)"
      by (rule linked_skip [OF chain [unfolded is_split] F(1)]) (use F(2) i dist in auto)
    have texts: "chain_texts ss' (xs @ b # ys) = merge_at (length xs) (chain_texts ss is)"
      using merge_at_split [of "chain_texts ss xs"] dist i F(3)
      by (simp add: is_split chain_texts_def)
    have sorted: "sorted_wrt (<) is" by (rule linked_sorted [OF wf chain])
    have at: "is ! length xs = b" "Suc (length xs) < length is" by (simp_all add: is_split)
    have min: "r \<le> s \<and> (r = s \<longrightarrow> length xs \<le> p)"
      if p: "Suc p < length (chain_texts ss is)" "pair_rank rk (chain_texts ss is) p = Some s" for p s
    proof -
      have p': "Suc p < length is" using p by (simp add: chain_texts_def)
      have c: "candidate rk ss (is ! p) = Some s"
        using p(2) by (simp add: pair_rank_candidate [OF chain p'] split: option.splits if_splits)
      have "is ! p < length ss" using linked_bounds [OF chain] p' by simp
      with low c have "r \<le> s \<and> (r = s \<longrightarrow> b \<le> is ! p)" by blast
      moreover have "is ! p < b" if "p < length xs"
        using sorted that at by (metis sorted_wrt_nth_less Suc_lessD)
      ultimately show ?thesis by (auto simp: not_le [symmetric])
    qed
    have "pair_rank rk (chain_texts ss is) (length xs) = Some r"
      using pair_rank_candidate [OF chain at(2)] at b by simp
    then have "lowest_merge rk (chain_texts ss is) (chain_texts ss' (xs @ b # ys))"
      unfolding texts using min at by (intro lowest_merge.intros) (auto simp: chain_texts_def)
    then show ?thesis using that [OF W chain' F(4)] by blast
  qed
qed

lemma no_pair_unmergeable:
  assumes "linked ss 0 is" and "best_pair rk ss < 0" and "length ss < 2 ^ 31"
  shows "unmergeable rk (chain_texts ss is)"
proof -
  have "pair_rank rk (chain_texts ss is) p = None" if "Suc p < length is" for p
  proof -
    have "is ! p < length ss" using linked_bounds [OF assms(1)] that by simp
    then show ?thesis
      using best_pair_none [OF assms(2,3)] pair_rank_candidate [OF assms(1) that] by (force split: option.split)
  qed
  then show ?thesis by (simp add: unmergeable_def chain_texts_def)
qed

theorem merge_loop_merges:
  assumes "wf_symbols ss" and "linked ss 0 is" and "length ss < 2 ^ 31" and "link_total ss < fuel"
  shows "\<exists>ss' is'. merge_loop fuel rk ss = Inr ss' \<and> wf_symbols ss' \<and> length ss' = length ss \<and> linked ss' 0 is'
    \<and> sy_prev (ss' ! 0) = sy_prev (ss ! 0)
    \<and> (lowest_merge rk)\<^sup>*\<^sup>* (chain_texts ss is) (chain_texts ss' is') \<and> unmergeable rk (chain_texts ss' is')"
  using assms
proof (induction fuel arbitrary: ss "is")
  case (Suc fuel)
  show ?case
  proof (cases "best_pair rk ss < 0")
    case True
    then show ?thesis using no_pair_unmergeable [OF Suc.prems(2) True Suc.prems(3)] Suc.prems by auto
  next
    case False
    let ?ss = "merge_symbols (nat (best_pair rk ss)) ss"
    obtain is' where R: "wf_symbols ?ss" "length ?ss = length ss" "link_total ?ss < link_total ss" "linked ?ss 0 is'"
      "sy_prev (?ss ! 0) = sy_prev (ss ! 0)"
      "lowest_merge rk (chain_texts ss is) (chain_texts ?ss is') \<or> chain_texts ?ss is' = chain_texts ss is"
      by (rule merge_round [OF Suc.prems(1-3) False])
    obtain ss'' is'' where T: "merge_loop fuel rk ?ss = Inr ss''" "wf_symbols ss''" "length ss'' = length ss" "linked ss'' 0 is''"
      "sy_prev (ss'' ! 0) = sy_prev (ss ! 0)" "(lowest_merge rk)\<^sup>*\<^sup>* (chain_texts ?ss is') (chain_texts ss'' is'')"
      "unmergeable rk (chain_texts ss'' is'')"
      using Suc.IH [OF R(1,4)] R Suc.prems(3,4) by auto
    have "(lowest_merge rk)\<^sup>*\<^sup>* (chain_texts ss is) (chain_texts ss'' is'')"
      using R(6) T(6) by (metis converse_rtranclp_into_rtranclp)
    then show ?thesis using T False by auto
  qed
qed simp

section \<open>The result\<close>

lemma chain_ids_linked:
  "linked ss x is \<Longrightarrow> length is \<le> fuel \<Longrightarrow> chain_ids fuel vm ss x = Inr (List.map_filter vm (chain_texts ss is))"
proof (induction "is" arbitrary: x fuel)
  case Nil
  then show ?case by (cases fuel) (simp_all add: chain_texts_def List.map_filter_simps)
next
  case (Cons a "is")
  then obtain k where "fuel = Suc k" by (cases fuel) auto
  then show ?case using Cons
    by (auto simp: chain_texts_def List.map_filter_simps split: option.split)
qed

lemma linked_length: "wf_symbols ss \<Longrightarrow> linked ss x is \<Longrightarrow> length is \<le> length ss"
proof -
  assume a: "wf_symbols ss" "linked ss x is"
  then have "distinct is" using linked_sorted strict_sorted_iff by blast
  then have "length is = card (set is)" by (simp add: distinct_card)
  also have "\<dots> \<le> card {..<length ss}" by (rule card_mono) (use linked_bounds [OF a(2)] in auto)
  finally show ?thesis by simp
qed

lemma linked_upt:
  assumes "\<And>i. i < length ss \<Longrightarrow> sy_next (ss ! i) = (if Suc i < length ss then int i + 1 else -1)" and "k < length ss"
  shows "linked ss (int k) [k..<length ss]"
  using assms(2)
proof (induction "length ss - Suc k" arbitrary: k)
  case 0
  then have "[k..<length ss] = [k]" by (metis Suc_leI diff_is_0_eq le_antisym upt_rec upt_conv_Nil order_refl)
  then show ?case using 0 assms(1) [of k] by simp
next
  case (Suc m)
  then have "Suc k < length ss" by simp
  moreover have "linked ss (int (Suc k)) [Suc k..<length ss]" by (rule Suc.hyps(1)) (use Suc.hyps(2) in auto)
  ultimately show ?case using assms(1) [of k] by (simp add: upt_conv_Cons add.commute)
qed

lemma link_symbols_facts:
  assumes "length ss < 2 ^ 31" and "ss \<noteq> []"
  shows "wf_symbols (link_symbols ss)" "linked (link_symbols ss) 0 [0..<length ss]" "length (link_symbols ss) = length ss"
    "sy_prev (link_symbols ss ! 0) = -1" "chain_texts (link_symbols ss) [0..<length ss] = map sy_text ss"
proof -
  show len: "length (link_symbols ss) = length ss" by (simp add: link_symbols_def Let_def)
  have nth: "sy_next (link_symbols ss ! i) = (if Suc i < length ss then int i + 1 else -1)" "sy_prev (link_symbols ss ! i) = int i - 1"
    "sy_text (link_symbols ss ! i) = sy_text (ss ! i)" if "i < length ss" for i
    using that assms(1) by (simp_all add: link_symbols_def Let_def)
  show "wf_symbols (link_symbols ss)" using nth by (simp add: wf_symbols_def len)
  have "0 < length ss" using assms(2) by simp
  then show "linked (link_symbols ss) 0 [0..<length ss]" "sy_prev (link_symbols ss ! 0) = -1"
    using linked_upt [of "link_symbols ss" 0] nth by (simp_all add: len)
  show "chain_texts (link_symbols ss) [0..<length ss] = map sy_text ss"
    unfolding chain_texts_def using nth(3) by (intro nth_equalityI) auto
qed

text \<open>For the symbols of a word that decodes.\<close>

lemma bpe_merges:
  assumes ss: "split_symbols (c_str wd) (length wd) 0 = Inr ss" and len: "length ss < 2 ^ 31"
  shows "\<exists>ts. (lowest_merge rk)\<^sup>*\<^sup>* (map sy_text ss) ts \<and> unmergeable rk ts \<and> bpe vm rk wd = Inr (List.map_filter vm ts)"
proof -
  consider (empty) "ss = []" | (one) s where "ss = [s]" | (many) "1 < length ss"
    by (cases ss rule: list.exhaust; cases "tl ss") auto
  then show ?thesis
  proof cases
    case empty
    then have "wd = []" using ss by (subst (asm) split_symbols.simps) (auto simp: Let_def rbind_Inr_iff split: if_splits)
    then show ?thesis using empty by (intro exI [of _ "[]"]) (simp add: bpe_def unmergeable_def List.map_filter_simps)
  next
    case one
    then show ?thesis using ss
      by (intro exI [of _ "[sy_text s]"])
        (auto simp: bpe_def unmergeable_def List.map_filter_simps split_symbols.simps split: option.split)
  next
    case many
    then have "ss \<noteq> []" by auto
    note L = link_symbols_facts [OF len this]
    have fuel: "link_total (link_symbols ss) < Suc (length ss * length ss)"
      using link_total_bound [of "link_symbols ss"] L(3) by simp
    obtain ss' is' where M: "merge_loop (Suc (length ss * length ss)) rk (link_symbols ss) = Inr ss'" "wf_symbols ss'"
      "length ss' = length ss" "linked ss' 0 is'" "sy_prev (ss' ! 0) = -1"
      "(lowest_merge rk)\<^sup>*\<^sup>* (map sy_text ss) (chain_texts ss' is')" "unmergeable rk (chain_texts ss' is')"
      using merge_loop_merges [OF L(1,2) _ fuel, of rk] len L(3,4,5) by auto
    have "0 < length ss'" using many M(3) by linarith
    from upt_conv_Cons [OF this] have "[0..<length ss'] = 0 # [1..<length ss']" by simp
    then have "chain_head ss' [0..<length ss'] = 0" using M(5) by simp
    moreover have "chain_ids (length ss') vm ss' 0 = Inr (List.map_filter vm (chain_texts ss' is'))"
      by (rule chain_ids_linked [OF M(4) linked_length [OF M(2,4)]])
    moreover have "wd \<noteq> []" using ss many by (auto simp: split_symbols.simps)
    ultimately show ?thesis
      using M ss many len by (intro exI [of _ "chain_texts ss' is'"]) (auto simp: bpe_def)
  qed
qed

text \<open>The symbols of raw bytes are their characters.\<close>

definition byte_char :: "char \<Rightarrow> string" where
  "byte_char b = utf8_encode (bt_unicode byte_table ! of_char b)"

lemma bytes_to_unicode_Cons: "bytes_to_unicode (b # raw) = byte_char b @ bytes_to_unicode raw"
  by (simp add: bytes_to_unicode_def byte_char_def)

lemma byte_char_lead:
  "\<exists>c cs. byte_char b = c # cs \<and> utf8_char_len (of_char c) = Suc (length cs)"
proof -
  have code: "bt_unicode byte_table ! of_char b < 512" by (rule byte_table_code) simp
  show ?thesis
  proof (cases "bt_unicode byte_table ! of_char b < 0x80")
    case True
    then show ?thesis by (simp add: byte_char_def utf8_encode_def utf8_char_len_def)
  next
    case False
    have "drop_bit 6 (bt_unicode byte_table ! of_char b) < 32" using code by (simp add: drop_bit_eq_div)
    from two_byte_lead [OF this] False code show ?thesis
      by (simp add: byte_char_def utf8_encode_def utf8_char_len_def)
  qed
qed

lemma split_symbols_encoded:
  "split_symbols (xs @ bytes_to_unicode raw @ ys) (length xs + length (bytes_to_unicode raw)) (length xs)
     = Inr (map (\<lambda>b. \<lparr>sy_text = byte_char b, sy_prev = -1, sy_next = -1\<rparr>) raw)"
proof (induction raw arbitrary: xs)
  case Nil
  then show ?case by (simp add: bytes_to_unicode_def split_symbols.simps)
next
  case (Cons b raw)
  obtain c cs where c: "byte_char b = c # cs" "utf8_char_len (of_char c) = Suc (length cs)" using byte_char_lead by blast
  have "split_symbols (xs @ byte_char b @ bytes_to_unicode raw @ ys)
      (length xs + length (byte_char b) + length (bytes_to_unicode raw)) (length xs + length (byte_char b))
    = Inr (map (\<lambda>b. \<lparr>sy_text = byte_char b, sy_prev = -1, sy_next = -1\<rparr>) raw)"
    using Cons.IH [of "xs @ byte_char b"] by simp
  then show ?case
    unfolding bytes_to_unicode_Cons using c
    by (subst split_symbols.simps) (simp add: nth_append Let_def add.assoc)
qed

lemma bpe_of_bytes:
  assumes "length raw < 2 ^ 31"
  shows "\<exists>ts. (lowest_merge rk)\<^sup>*\<^sup>* (map byte_char raw) ts \<and> unmergeable rk ts
    \<and> bpe vm rk (bytes_to_unicode raw) = Inr (List.map_filter vm ts)"
  using bpe_merges [of "bytes_to_unicode raw" "map (\<lambda>b. \<lparr>sy_text = byte_char b, sy_prev = -1, sy_next = -1\<rparr>) raw" rk vm]
    split_symbols_encoded [of "[]" raw "[CHR 0x00]"] assms
  by (simp add: c_str_def comp_def)

end
