(* ===== verification/Bpe_Tokenizer.thy ===== *)
theory Bpe_Tokenizer
  imports Pre_Tokenize Bpe_Merge_Correct
begin

text \<open>
  \<open>BPETokenizer\<close> (include/minillm/io/bpe_tokenizer.h, src/io/bpe_tokenizer.cpp): \<open>init\<close> from the metadata of
  a GGUF file, \<open>encode\<close> and \<open>decode\<close>. The order in which an \<open>unordered_map\<close> is iterated and the
  order \<open>std::sort\<close> leaves equivalent elements in are parameters. The byte tables are those
  \<open>init\<close> makes: before it the vocabulary is empty, and no result depends on them.
\<close>

record bpe_tokenizer =
  tk_vocab :: "string list"
  tk_vocab_map :: "string \<Rightarrow> int option"
  tk_ranks :: merge_ranks
  tk_eos_id :: int
  tk_bos_id :: int
  tk_pad_id :: int
  tk_added_map :: "string \<Rightarrow> int option"
  tk_added :: "(string \<times> int) list"

definition new_tokenizer :: bpe_tokenizer where
  "new_tokenizer = \<lparr>tk_vocab = [], tk_vocab_map = Map.empty, tk_ranks = Map.empty, tk_eos_id = -1, tk_bos_id = -1,
     tk_pad_id = -1, tk_added_map = Map.empty, tk_added = []\<rparr>"

definition vocab_size :: "bpe_tokenizer \<Rightarrow> int" where
  "vocab_size tk = size_to_int (length (tk_vocab tk))"

section \<open>Initialisation\<close>

definition get_i64 :: "metadata \<Rightarrow> string \<Rightarrow> int" where
  "get_i64 meta key = (case meta key of
     Some (MInt32 w) \<Rightarrow> sint w
   | Some (MUInt32 w) \<Rightarrow> sint w
   | Some (MInt64 w) \<Rightarrow> sint (ucast w :: 32 word)
   | Some (MUInt64 w) \<Rightarrow> sint (ucast w :: 32 word)
   | Some (MBool b) \<Rightarrow> if b then 1 else 0
   | _ \<Rightarrow> -1)"

definition read_special_ids :: "metadata \<Rightarrow> bpe_tokenizer \<Rightarrow> bpe_tokenizer" where
  "read_special_ids meta tk = tk\<lparr>
     tk_bos_id := get_i64 meta ''tokenizer.ggml.bos_token_id'',
     tk_eos_id := get_i64 meta ''tokenizer.ggml.eos_token_id'',
     tk_pad_id := get_i64 meta ''tokenizer.ggml.padding_token_id''\<rparr>"

fun load_vocab :: "nat \<Rightarrow> metadata_value list \<Rightarrow> bpe_tokenizer \<Rightarrow> unit result \<times> bpe_tokenizer" where
  "load_vocab i [] tk = (make_ok, tk)"
| "load_vocab i (e # es) tk = (case e of
     MString s \<Rightarrow> load_vocab (Suc i) es (tk\<lparr>tk_vocab := (tk_vocab tk)[i := s], tk_vocab_map := (tk_vocab_map tk)(s \<mapsto> size_to_int i)\<rparr>)
   | _ \<Rightarrow> (Inl (type_error ''tokenizer.ggml.tokens element is not a string''), tk))"

text \<open>A merge is two texts with a space between them; entries of another form are skipped.\<close>

definition add_merge :: "nat \<Rightarrow> metadata_value \<Rightarrow> merge_ranks \<Rightarrow> merge_ranks" where
  "add_merge i e rk = (case e of
     MString merge \<Rightarrow>
       if CHR '' '' \<in> set merge then
         (let sp = length (takeWhile (\<lambda>c. c \<noteq> CHR '' '') merge) in rk((take sp merge, drop (Suc sp) merge) \<mapsto> size_to_int i))
       else rk
   | _ \<Rightarrow> rk)"

fun load_merges :: "nat \<Rightarrow> metadata_value list \<Rightarrow> merge_ranks \<Rightarrow> merge_ranks" where
  "load_merges i [] rk = rk"
| "load_merges i (e # es) rk = load_merges (Suc i) es (add_merge i e rk)"

text \<open>Every vocabulary entry that the pre-tokenizer would cut is an added token.\<close>

fun find_added :: "ctype \<Rightarrow> nat \<Rightarrow> string list \<Rightarrow> (string \<Rightarrow> int option) \<Rightarrow> unit result \<times> (string \<Rightarrow> int option)" where
  "find_added ct i [] added = (make_ok, added)"
| "find_added ct i (v # vs) added =
     (if v = [] then find_added ct (Suc i) vs added
      else case pre_tokenize ct v of
        Inl e \<Rightarrow> (Inl e, added)
      | Inr pieces \<Rightarrow> find_added ct (Suc i) vs (if 1 < length pieces then added(v \<mapsto> size_to_int i) else added))"

type_synonym entry = "string \<times> int"

definition longer_first :: "entry \<Rightarrow> entry \<Rightarrow> bool" where
  "longer_first a b \<longleftrightarrow> length (fst b) < length (fst a)"

text \<open>The tables, and then the list of the added tokens.\<close>

definition init_tables :: "ctype \<Rightarrow> metadata \<Rightarrow> bpe_tokenizer \<Rightarrow> unit result \<times> bpe_tokenizer" where
  "init_tables ct meta tk0 =
     (let tk = read_special_ids meta tk0 in
      case meta ''tokenizer.ggml.tokens'' of
        None \<Rightarrow> (Inl (not_found ''tokenizer.ggml.tokens not found in GGUF metadata''), tk)
      | Some (MArray es) \<Rightarrow>
          sbind (load_vocab 0 es (tk\<lparr>tk_vocab := vec_resize [] (length es) (tk_vocab tk)\<rparr>)) (\<lambda>_ tk.
            let tk = (case meta ''tokenizer.ggml.merges'' of
                  Some (MArray ms) \<Rightarrow> tk\<lparr>tk_ranks := load_merges 0 ms (tk_ranks tk)\<rparr> | _ \<Rightarrow> tk);
                (r, added) = find_added ct 0 (tk_vocab tk) (tk_added_map tk)
            in (r, tk\<lparr>tk_added_map := added\<rparr>))
      | Some _ \<Rightarrow> (Inl (type_error ''tokenizer.ggml.tokens is not an array''), tk))"

definition init_tokenizer ::
  "ctype \<Rightarrow> ((string \<Rightarrow> int option) \<Rightarrow> entry list) \<Rightarrow> ((entry \<Rightarrow> entry \<Rightarrow> bool) \<Rightarrow> entry list \<Rightarrow> entry list)
   \<Rightarrow> metadata \<Rightarrow> bpe_tokenizer \<Rightarrow> unit result \<times> bpe_tokenizer"
where
  "init_tokenizer ct iter srt meta tk0 =
     sbind (init_tables ct meta tk0) (\<lambda>_ tk. (make_ok, tk\<lparr>tk_added := srt longer_first (iter (tk_added_map tk))\<rparr>))"

section \<open>Encoding\<close>

definition npos :: nat where
  "npos = 2 ^ 64 - 1"

definition occurs_at :: "string \<Rightarrow> string \<Rightarrow> nat \<Rightarrow> bool" where
  "occurs_at text tok i \<longleftrightarrow> i + length tok \<le> length text \<and> take (length tok) (drop i text) = tok"

text \<open>\<open>text.find(tok, pos)\<close>.\<close>

definition find_from :: "string \<Rightarrow> string \<Rightarrow> nat \<Rightarrow> nat" where
  "find_from text tok pos = (case find (occurs_at text tok) [pos..<Suc (length text)] of Some i \<Rightarrow> i | None \<Rightarrow> npos)"

fun scan_added :: "string \<Rightarrow> nat \<Rightarrow> entry list \<Rightarrow> nat \<times> int \<times> nat \<Rightarrow> nat \<times> int \<times> nat" where
  "scan_added text pos [] best = best"
| "scan_added text pos ((tok, v) # added) (earliest, matched, len) =
     (if find_from text tok pos < earliest then scan_added text pos added (find_from text tok pos, v, length tok)
      else scan_added text pos added (earliest, matched, len))"

fun encode_pieces :: "bpe_tokenizer \<Rightarrow> string list \<Rightarrow> int list result" where
  "encode_pieces tk [] = Inr []"
| "encode_pieces tk (piece # pieces) =
     rbind (bpe (tk_vocab_map tk) (tk_ranks tk) (bytes_to_unicode piece)) (\<lambda>ids.
     rbind (encode_pieces tk pieces) (\<lambda>more. Inr (ids @ more)))"

definition encode_plain :: "ctype \<Rightarrow> bpe_tokenizer \<Rightarrow> string \<Rightarrow> int list result" where
  "encode_plain ct tk text = rbind (pre_tokenize ct text) (encode_pieces tk)"

fun encode_loop :: "nat \<Rightarrow> ctype \<Rightarrow> bpe_tokenizer \<Rightarrow> string \<Rightarrow> nat \<Rightarrow> int list result" where
  "encode_loop 0 ct tk text pos = (if pos < length text then Inl (UB ''out of fuel'') else Inr [])"
| "encode_loop (Suc fuel) ct tk text pos =
     (if pos < length text then
        (case scan_added text pos (tk_added tk) (npos, -1, 0) of (earliest, matched, len) \<Rightarrow>
           if earliest = npos then encode_plain ct tk (drop pos text)
           else
             rbind (if pos < earliest then encode_plain ct tk (take (earliest - pos) (drop pos text)) else Inr []) (\<lambda>before.
             rbind (encode_loop fuel ct tk text (earliest + len)) (\<lambda>rest. Inr (before @ matched # rest))))
      else Inr [])"

definition encode :: "ctype \<Rightarrow> bpe_tokenizer \<Rightarrow> string \<Rightarrow> bool \<Rightarrow> bool \<Rightarrow> int list result" where
  "encode ct tk text add_bos add_eos =
     rbind (encode_loop (length text) ct tk text 0) (\<lambda>ids.
       Inr ((if add_bos \<and> 0 \<le> tk_bos_id tk then [tk_bos_id tk] else []) @ ids
            @ (if add_eos \<and> 0 \<le> tk_eos_id tk then [tk_eos_id tk] else [])))"

section \<open>Decoding\<close>

definition hex_digit :: "char \<Rightarrow> nat" where
  "hex_digit c = (let n = of_char c in
     if 48 \<le> n \<and> n \<le> 57 then n - 48 else if 97 \<le> n \<and> n \<le> 102 then n - 87 else if 65 \<le> n \<and> n \<le> 70 then n - 55 else 0)"

definition is_byte_token :: "string \<Rightarrow> bool" where
  "is_byte_token tok \<longleftrightarrow> length tok = 6 \<and> tok ! 0 = CHR ''<'' \<and> tok ! 1 = CHR ''0'' \<and> tok ! 2 = CHR ''x'' \<and> tok ! 5 = CHR ''>''"

definition byte_token_value :: "string \<Rightarrow> nat" where
  "byte_token_value tok = foldl (\<lambda>b i. push_bit 4 b mod 256 OR hex_digit (tok ! i)) 0 [3, 4]"

definition token_to_text :: "bpe_tokenizer \<Rightarrow> int \<Rightarrow> string result" where
  "token_to_text tk v =
     (if v < 0 \<or> vocab_size tk \<le> v then Inr []
      else let tok = tk_vocab tk ! nat v in
        if is_byte_token tok then Inr [char_of (byte_token_value tok)] else unicode_to_bytes tok)"

fun decode_ids :: "bpe_tokenizer \<Rightarrow> int list \<Rightarrow> string result" where
  "decode_ids tk [] = Inr []"
| "decode_ids tk (v # ids) =
     (if v < 0 \<or> vocab_size tk \<le> v then Inl (not_found ''token id out of range'')
      else if v = tk_eos_id tk then Inr []
      else rbind (token_to_text tk v) (\<lambda>s. rbind (decode_ids tk ids) (\<lambda>rest. Inr (s @ rest))))"

definition decode :: "bpe_tokenizer \<Rightarrow> int list \<Rightarrow> string result" where
  "decode tk ids =
     (if tk_vocab tk = [] \<and> ids \<noteq> [] then Inl (not_found ''tokenizer not initialized: vocab is empty'')
      else decode_ids tk ids)"

end
