(* ===== verification/Bpe_Properties.thy ===== *)
theory Bpe_Properties
  imports Bpe_Tokenizer "HOL-Library.List_Lexorder" "HOL-Library.Char_ord"
begin

text \<open>
  What the tokenizer promises: initialisation makes the tables agree, the pieces of a text and the tokens of a
  piece are exactly its bytes, an encoded text decodes to itself, and the iteration order of the hash map of
  added tokens does not show.
\<close>

section \<open>Initialisation\<close>

definition iteration_law :: "((string \<Rightarrow> int option) \<Rightarrow> entry list) \<Rightarrow> bool" where
  "iteration_law iter \<longleftrightarrow> (\<forall>m. finite (dom m) \<longrightarrow> distinct (map fst (iter m)) \<and> set (iter m) = {(k, v). m k = Some v})"

text \<open>The entries of a table point back to the vocabulary.\<close>

definition points_back :: "bpe_tokenizer \<Rightarrow> nat \<Rightarrow> (string \<Rightarrow> int option) \<Rightarrow> bool" where
  "points_back tk n m \<longleftrightarrow> (\<forall>t v. m t = Some v \<longrightarrow> (\<exists>i < n. v = int i \<and> tk_vocab tk ! i = t))"

definition consistent :: "bpe_tokenizer \<Rightarrow> bool" where
  "consistent tk \<longleftrightarrow> length (tk_vocab tk) < 2 ^ 31
     \<and> points_back tk (length (tk_vocab tk)) (tk_vocab_map tk) \<and> set (tk_vocab tk) \<subseteq> dom (tk_vocab_map tk)
     \<and> points_back tk (length (tk_vocab tk)) (tk_added_map tk) \<and> [] \<notin> dom (tk_added_map tk)
     \<and> set (tk_added tk) = {(t, v). tk_added_map tk t = Some v} \<and> distinct (map fst (tk_added tk))
     \<and> sorted_wrt (\<lambda>a b. length (fst b) \<le> length (fst a)) (tk_added tk)"

lemma load_vocab_points_back:
  assumes "load_vocab i es tk = (make_ok, tk')" and "i + length es = length (tk_vocab tk)" and "length (tk_vocab tk) < 2 ^ 31"
    and "points_back tk i (tk_vocab_map tk)" and "\<forall>k < i. tk_vocab tk ! k \<in> dom (tk_vocab_map tk)"
  shows "length (tk_vocab tk') = length (tk_vocab tk) \<and> points_back tk' (length (tk_vocab tk)) (tk_vocab_map tk')
    \<and> (\<forall>k < length (tk_vocab tk). tk_vocab tk' ! k \<in> dom (tk_vocab_map tk')) \<and> tk_added_map tk' = tk_added_map tk"
  using assms
proof (induction i es tk rule: load_vocab.induct)
  case (2 i e es tk)
  from "2.prems"(1) obtain s where e: "e = MString s" by (cases e) auto
  let ?tk = "tk\<lparr>tk_vocab := (tk_vocab tk)[i := s], tk_vocab_map := (tk_vocab_map tk)(s \<mapsto> size_to_int i)\<rparr>"
  have i: "i < length (tk_vocab tk)" "size_to_int i = int i" using "2.prems"(2,3) by auto
  have pts: "points_back ?tk (Suc i) (tk_vocab_map ?tk)"
    using "2.prems"(4) i by (fastforce simp: points_back_def nth_list_update less_Suc_eq)
  have doms: "\<forall>k < Suc i. tk_vocab ?tk ! k \<in> dom (tk_vocab_map ?tk)"
    using "2.prems"(5) i by (auto simp: nth_list_update less_Suc_eq)
  show ?case using "2.IH" [OF e _ _ _ pts doms] "2.prems"(1-3) by (simp add: e)
qed auto

lemma find_added_points_back:
  assumes "find_added ct i vs added = (make_ok, added')" and "vs = drop i (tk_vocab tk)" and "i + length vs = length (tk_vocab tk)"
    and "length (tk_vocab tk) < 2 ^ 31" and "points_back tk (length (tk_vocab tk)) added" and "[] \<notin> dom added" and "finite (dom added)"
  shows "points_back tk (length (tk_vocab tk)) added' \<and> [] \<notin> dom added' \<and> finite (dom added')"
  using assms
proof (induction ct i vs added rule: find_added.induct)
  case (2 ct i v vs added)
  have "i < length (tk_vocab tk)" using "2.prems"(3) by simp
  moreover from Cons_nth_drop_Suc [OF this] "2.prems"(2)
  have "v # vs = tk_vocab tk ! i # drop (Suc i) (tk_vocab tk)" by (rule trans [OF _ sym, rotated])
  ultimately have i: "i < length (tk_vocab tk)" "v = tk_vocab tk ! i" "vs = drop (Suc i) (tk_vocab tk)" by blast+
  have n: "Suc i + length vs = length (tk_vocab tk)" using "2.prems"(3) by simp
  show ?case
  proof (cases "v = []")
    case True
    then show ?thesis using "2.IH"(1) [OF True _ i(3) n "2.prems"(4-7)] "2.prems"(1) by simp
  next
    case False
    then obtain ps where ps: "pre_tokenize ct v = Inr ps" using "2.prems"(1) by (auto split: sum.splits)
    have "points_back tk (length (tk_vocab tk)) (added(v \<mapsto> size_to_int i))"
      using "2.prems"(4,5) i by (auto simp: points_back_def)
    then show ?thesis using "2.IH"(2) [OF False ps _ i(3) n "2.prems"(4)] "2.prems"(1,5-7) False ps
      by (auto split: if_splits)
  qed
qed auto

lemma longer_first_weak: "strict_weak longer_first"
  by (auto simp: strict_weak_def longer_first_def transp_def)

text \<open>A state before the list of added tokens is made.\<close>

definition tables_ok :: "bpe_tokenizer \<Rightarrow> bool" where
  "tables_ok tk \<longleftrightarrow> length (tk_vocab tk) < 2 ^ 31
     \<and> points_back tk (length (tk_vocab tk)) (tk_vocab_map tk) \<and> set (tk_vocab tk) \<subseteq> dom (tk_vocab_map tk)
     \<and> points_back tk (length (tk_vocab tk)) (tk_added_map tk) \<and> [] \<notin> dom (tk_added_map tk) \<and> finite (dom (tk_added_map tk))"

lemma init_tablesE:
  assumes "init_tables ct meta new_tokenizer = (make_ok, tk)"
    and "\<forall>es. meta ''tokenizer.ggml.tokens'' = Some (MArray es) \<longrightarrow> length es < 2 ^ 31"
  obtains n where "n < 2 ^ 31" "length (tk_vocab tk) = n" "points_back tk n (tk_vocab_map tk)"
    "\<forall>k < n. tk_vocab tk ! k \<in> dom (tk_vocab_map tk)" "find_added ct 0 (tk_vocab tk) Map.empty = (make_ok, tk_added_map tk)"
proof -
  let ?tk0 = "read_special_ids meta new_tokenizer"
  obtain es where es: "meta ''tokenizer.ggml.tokens'' = Some (MArray es)"
    using assms(1) by (auto simp: init_tables_def Let_def split: option.splits metadata_value.splits)
  have len: "length es < 2 ^ 31" using assms(2) es by blast
  let ?tk1 = "?tk0\<lparr>tk_vocab := vec_resize [] (length es) (tk_vocab ?tk0)\<rparr>"
  let ?merge = "\<lambda>tk. case meta ''tokenizer.ggml.merges'' of
    Some (MArray ms) \<Rightarrow> tk\<lparr>tk_ranks := load_merges 0 ms (tk_ranks tk)\<rparr> | _ \<Rightarrow> tk"
  obtain tk2 where tk2: "load_vocab 0 es ?tk1 = (make_ok, tk2)"
    using assms(1) es by (cases "load_vocab 0 es ?tk1"; cases "fst (load_vocab 0 es ?tk1)") (auto simp: init_tables_def Let_def)
  have V: "length (tk_vocab tk2) = length es" "points_back tk2 (length es) (tk_vocab_map tk2)"
    "\<forall>k < length es. tk_vocab tk2 ! k \<in> dom (tk_vocab_map tk2)" "tk_added_map tk2 = Map.empty"
    using load_vocab_points_back [OF tk2] len
    by (simp_all add: points_back_def read_special_ids_def new_tokenizer_def)
  have m: "tk_vocab (?merge tk2) = tk_vocab tk2" "tk_vocab_map (?merge tk2) = tk_vocab_map tk2"
    "tk_added_map (?merge tk2) = tk_added_map tk2"
    by (simp_all split: option.split metadata_value.split)
  obtain added where added: "find_added ct 0 (tk_vocab tk2) Map.empty = (make_ok, added)" "tk = ?merge tk2\<lparr>tk_added_map := added\<rparr>"
    using assms(1) es tk2 V(4) m by (auto simp: init_tables_def Let_def split_beta) (metis prod.collapse)
  show ?thesis by (rule that [OF len]) (use V m added in \<open>simp_all add: points_back_def\<close>)
qed

lemma init_tables_ok:
  assumes "init_tables ct meta new_tokenizer = (make_ok, tk)"
    and "\<forall>es. meta ''tokenizer.ggml.tokens'' = Some (MArray es) \<longrightarrow> length es < 2 ^ 31"
  shows "tables_ok tk"
proof -
  obtain n where n: "n < 2 ^ 31" "length (tk_vocab tk) = n" "points_back tk n (tk_vocab_map tk)"
    "\<forall>k < n. tk_vocab tk ! k \<in> dom (tk_vocab_map tk)" "find_added ct 0 (tk_vocab tk) Map.empty = (make_ok, tk_added_map tk)"
    by (rule init_tablesE [OF assms])
  have "points_back tk n (tk_added_map tk)" "[] \<notin> dom (tk_added_map tk)" "finite (dom (tk_added_map tk))"
    using find_added_points_back [OF n(5), of tk] n(1,2) by (simp_all add: points_back_def)
  then show ?thesis using n by (auto simp: tables_ok_def in_set_conv_nth)
qed

lemma init_consistent:
  assumes "init_tables ct meta new_tokenizer = (make_ok, tk)" and "iteration_law iter" and "std_sort_law srt"
    and "\<forall>es. meta ''tokenizer.ggml.tokens'' = Some (MArray es) \<longrightarrow> length es < 2 ^ 31"
  shows "consistent (tk\<lparr>tk_added := srt longer_first (iter (tk_added_map tk))\<rparr>)"
proof -
  have ok: "tables_ok tk" by (rule init_tables_ok [OF assms(1,4)])
  let ?l = "iter (tk_added_map tk)"
  have it: "distinct (map fst ?l)" "set ?l = {(k, v). tk_added_map tk k = Some v}"
    using assms(2) ok by (auto simp: iteration_law_def tables_ok_def)
  note S = std_sort_lawD [OF assms(3) longer_first_weak, of ?l]
  have "mset (map fst (srt longer_first ?l)) = mset (map fst ?l)" using S(1) by (metis mset_map)
  then have "distinct (map fst (srt longer_first ?l))" using it(1) by (metis mset_eq_imp_distinct_iff)
  moreover have "sorted_wrt (\<lambda>a b. length (fst b) \<le> length (fst a)) (srt longer_first ?l)"
    using S(4) by (simp add: longer_first_def not_less)
  ultimately show ?thesis using ok it S(2) by (auto simp: consistent_def tables_ok_def points_back_def)
qed

section \<open>Added tokens\<close>

text \<open>What the scan for added tokens returns: the earliest occurrence, and the longest token there.\<close>

definition first_added :: "string \<Rightarrow> nat \<Rightarrow> entry set \<Rightarrow> entry \<Rightarrow> bool" where
  "first_added text pos S e \<longleftrightarrow> e \<in> S \<and> find_from text (fst e) pos < npos
     \<and> (\<forall>e' \<in> S. find_from text (fst e) pos \<le> find_from text (fst e') pos
          \<and> (find_from text (fst e') pos = find_from text (fst e) pos \<longrightarrow> length (fst e') \<le> length (fst e)))"

lemma find_Some: "find P xs = Some x \<Longrightarrow> P x \<and> x \<in> set xs"
  by (induction xs) (auto split: if_splits)

lemma find_from_occurs:
  assumes "find_from text tok pos < npos"
  shows "pos \<le> find_from text tok pos" "occurs_at text tok (find_from text tok pos)"
  using assms by (auto simp: find_from_def simp del: upt_Suc split: option.splits dest!: find_Some)

lemma first_added_unique:
  assumes "first_added text pos S e" and "first_added text pos S e'"
  shows "fst e = fst e'"
proof -
  have same: "find_from text (fst e) pos = find_from text (fst e') pos"
    using assms unfolding first_added_def by (meson order_antisym)
  then have "length (fst e) = length (fst e')" using assms unfolding first_added_def by (meson order_antisym)
  moreover have "occurs_at text (fst e) (find_from text (fst e) pos)" "occurs_at text (fst e') (find_from text (fst e) pos)"
    using assms find_from_occurs(2) same unfolding first_added_def by metis+
  ultimately show ?thesis by (metis occurs_at_def)
qed

lemma scan_added_spec:
  assumes "sorted_wrt (\<lambda>a b. length (fst b) \<le> length (fst a)) added"
    and "scan_added text pos added (e0, v0, l0) = (e, v, l)"
    and "e0 = npos \<or> (\<exists>t. e0 = find_from text t pos \<and> l0 = length t \<and> (\<forall>a \<in> set added. length (fst a) \<le> length t))"
  shows "(e, v, l) = (e0, v0, l0) \<and> (\<forall>a \<in> set added. e0 \<le> find_from text (fst a) pos)
    \<or> (\<exists>a \<in> set added. e = find_from text (fst a) pos \<and> v = snd a \<and> l = length (fst a) \<and> e < e0
         \<and> (\<forall>b \<in> set added. e \<le> find_from text (fst b) pos \<and> (find_from text (fst b) pos = e \<longrightarrow> length (fst b) \<le> l)))"
  using assms
proof (induction added arbitrary: e0 v0 l0)
  case (Cons a added)
  obtain t w where a: "a = (t, w)" by (cases a)
  let ?f = "find_from text t pos"
  have sorted: "sorted_wrt (\<lambda>a b. length (fst b) \<le> length (fst a)) added" "\<forall>b \<in> set added. length (fst b) \<le> length t"
    using Cons.prems(1) by (auto simp: a)
  show ?case
  proof (cases "?f < e0")
    case False
    have pre: "e0 = npos \<or> (\<exists>t. e0 = find_from text t pos \<and> l0 = length t \<and> (\<forall>a \<in> set added. length (fst a) \<le> length t))"
      using Cons.prems(3) by auto
    have scan: "scan_added text pos added (e0, v0, l0) = (e, v, l)" using Cons.prems(2) False by (simp add: a)
    from Cons.IH [OF sorted(1) scan pre] show ?thesis
    proof (elim disjE bexE conjE, goal_cases)
      case 1
      then show ?case using False by (intro disjI1) (simp add: a)
    next
      case (2 b)
      then show ?case using False by (intro disjI2 bexI [of _ b]) (auto simp: a)
    qed
  next
    case True
    then have scan: "scan_added text pos added (?f, w, length t) = (e, v, l)" using Cons.prems(2) by (simp add: a)
    have pre: "?f = npos \<or> (\<exists>t'. ?f = find_from text t' pos \<and> length t = length t' \<and> (\<forall>a \<in> set added. length (fst a) \<le> length t'))"
      using sorted(2) by blast
    from Cons.IH [OF sorted(1) scan pre] show ?thesis
    proof (elim disjE bexE conjE, goal_cases)
      case 1
      then show ?case using True sorted(2) by (intro disjI2 bexI [of _ a]) (auto simp: a)
    next
      case (2 b)
      then show ?case using True by (intro disjI2 bexI [of _ b]) (auto simp: a)
    qed
  qed
qed simp

lemma scan_added_result:
  assumes "sorted_wrt (\<lambda>a b. length (fst b) \<le> length (fst a)) added"
  shows "(scan_added text pos added (npos, -1, 0) = (npos, -1, 0) \<and> (\<forall>a \<in> set added. npos \<le> find_from text (fst a) pos))
    \<or> (\<exists>t v. first_added text pos (set added) (t, v)
          \<and> scan_added text pos added (npos, -1, 0) = (find_from text t pos, v, length t))"
proof -
  obtain e v l where r: "scan_added text pos added (npos, -1, 0) = (e, v, l)" by (cases "scan_added text pos added (npos, -1, 0)")
  from scan_added_spec [OF assms r disjI1 [OF refl]] show ?thesis
  proof (elim disjE bexE conjE, goal_cases)
    case 1
    then show ?case by (intro disjI1) (simp add: r)
  next
    case (2 a)
    then show ?case by (intro disjI2 exI [of _ "fst a"] exI [of _ "snd a"]) (simp add: r first_added_def)
  qed
qed

lemma scan_added_cong:
  assumes "sorted_wrt (\<lambda>a b. length (fst b) \<le> length (fst a)) xs" and "sorted_wrt (\<lambda>a b. length (fst b) \<le> length (fst a)) ys"
    and "set xs = {(t, v). m t = Some v}" and "set ys = {(t, v). m t = Some v}"
  shows "scan_added text pos xs (npos, -1, 0) = scan_added text pos ys (npos, -1, 0)"
proof -
  have uniq: "t = t' \<and> v = v'" if "first_added text pos (set xs) (t, v)" "first_added text pos (set xs) (t', v')" for t v t' v'
    using first_added_unique [OF that] that assms(3) by (auto simp: first_added_def)
  have none: "\<not> first_added text pos (set xs) (t, v)" if "\<forall>a \<in> set xs. npos \<le> find_from text (fst a) pos" for t v
    using that by (force simp: first_added_def)
  show ?thesis
    using scan_added_result [OF assms(1), of "text" pos] scan_added_result [OF assms(2), of "text" pos] uniq none assms(3,4)
    by (elim disjE exE conjE) (simp_all, metis)
qed

lemma encode_loop_cong:
  assumes "tk_vocab_map tk = tk_vocab_map tk'" and "tk_ranks tk = tk_ranks tk'"
    and "\<And>pos. scan_added text pos (tk_added tk) (npos, -1, 0) = scan_added text pos (tk_added tk') (npos, -1, 0)"
  shows "encode_loop fuel ct tk text pos = encode_loop fuel ct tk' text pos"
proof -
  have "encode_pieces tk ps = encode_pieces tk' ps" for ps
    using assms(1,2) by (induction ps) auto
  then have pieces: "encode_pieces tk = encode_pieces tk'" by (rule ext)
  have plain: "encode_plain ct tk t = encode_plain ct tk' t" for t
    by (simp add: encode_plain_def pieces)
  show ?thesis by (induction fuel arbitrary: pos) (simp_all add: assms(3) plain split: prod.split)
qed

text \<open>C36. The order in which the hash map of added tokens is iterated, and the order \<open>std::sort\<close> leaves tokens of
  equal length in, do not show: initialisation gives the same outcome and every text the same encoding.\<close>

theorem encoding_independent_of_hash_order:
  assumes "iteration_law iter" and "iteration_law iter'" and "std_sort_law srt" and "std_sort_law srt'"
    and "\<forall>es. meta ''tokenizer.ggml.tokens'' = Some (MArray es) \<longrightarrow> length es < 2 ^ 31"
    and "init_tokenizer ct iter srt meta new_tokenizer = (r, tk)"
    and "init_tokenizer ct iter' srt' meta new_tokenizer = (r', tk')"
  shows "r = r' \<and> encode ct tk input bos eos = encode ct tk' input bos eos"
proof (cases "init_tables ct meta new_tokenizer")
  case (Pair q tk0)
  show ?thesis
  proof (cases q)
    case (Inl e)
    then have "init_tables ct meta new_tokenizer = (Inl e, tk0)" using Pair by simp
    then show ?thesis using assms(6,7) by (auto simp: init_tokenizer_def)
  next
    case (Inr u)
    then have q: "init_tables ct meta new_tokenizer = (make_ok, tk0)" using Pair by simp
    have tk: "r = make_ok" "tk = tk0\<lparr>tk_added := srt longer_first (iter (tk_added_map tk0))\<rparr>"
      "r' = make_ok" "tk' = tk0\<lparr>tk_added := srt' longer_first (iter' (tk_added_map tk0))\<rparr>"
      using assms(6,7) q by (auto simp: init_tokenizer_def)
    have ok: "consistent tk" "consistent tk'"
      unfolding tk by (rule init_consistent [OF q assms(1,3,5)] init_consistent [OF q assms(2,4,5)])+
    have "scan_added input pos (tk_added tk) (npos, -1, 0) = scan_added input pos (tk_added tk') (npos, -1, 0)" for pos
      by (rule scan_added_cong [of _ _ "tk_added_map tk0"]) (use ok tk in \<open>auto simp: consistent_def\<close>)
    from encode_loop_cong [OF _ _ this] show ?thesis by (simp add: encode_def tk)
  qed
qed

text \<open>Two orders of iteration: by key, and backwards.\<close>

definition by_key :: "(string \<Rightarrow> int option) \<Rightarrow> entry list" where
  "by_key m = map (\<lambda>k. (k, the (m k))) (sorted_list_of_set (dom m))"

lemma iteration_law_by_key: "iteration_law by_key" "iteration_law (\<lambda>m. rev (by_key m))"
  by (auto simp: iteration_law_def by_key_def comp_def rev_map [symmetric])

definition tiny_metadata :: metadata where
  "tiny_metadata = [''tokenizer.ggml.tokens'' \<mapsto> MArray (map MString [''a'', ''b'', ''ab'', ''a b'', ''b a'']),
     ''tokenizer.ggml.merges'' \<mapsto> MArray [MString ''a b'']]"

theorem encoding_independent_of_hash_order_witness:
  "encode strict_ctype (snd (init_tokenizer strict_ctype by_key sort_by tiny_metadata new_tokenizer)) ''ab a b'' False False
   = encode strict_ctype (snd (init_tokenizer strict_ctype (\<lambda>m. rev (by_key m)) sort_by tiny_metadata new_tokenizer)) ''ab a b'' False False"
proof -
  have "\<forall>es. tiny_metadata ''tokenizer.ggml.tokens'' = Some (MArray es) \<longrightarrow> length es < 2 ^ 31"
    by (simp add: tiny_metadata_def)
  from encoding_independent_of_hash_order [where meta = tiny_metadata and ct = strict_ctype and iter = by_key and srt = sort_by
        and iter' = "\<lambda>m. rev (by_key m)" and srt' = sort_by and input = "''ab a b''" and bos = False and eos = False
        and r = "fst (init_tokenizer strict_ctype by_key sort_by tiny_metadata new_tokenizer)"
        and tk = "snd (init_tokenizer strict_ctype by_key sort_by tiny_metadata new_tokenizer)"
        and r' = "fst (init_tokenizer strict_ctype (\<lambda>m. rev (by_key m)) sort_by tiny_metadata new_tokenizer)"
        and tk' = "snd (init_tokenizer strict_ctype (\<lambda>m. rev (by_key m)) sort_by tiny_metadata new_tokenizer)",
        OF iteration_law_by_key std_sort_law_sort_by std_sort_law_sort_by this]
  show ?thesis by simp
qed

lemma find_added_dom:
  "find_added ct i vs added = (make_ok, added') \<Longrightarrow>
   dom added' = dom added \<union> {v \<in> set vs. v \<noteq> [] \<and> (\<exists>ps. pre_tokenize ct v = Inr ps \<and> 1 < length ps)}"
proof (induction ct i vs added rule: find_added.induct)
  case (2 ct i v vs added)
  show ?case
  proof (cases "v = []")
    case True
    then show ?thesis using "2.IH"(1) [OF True] "2.prems" by auto
  next
    case False
    then obtain ps where ps: "pre_tokenize ct v = Inr ps" using "2.prems" by (auto split: sum.splits)
    then show ?thesis using "2.IH"(2) [OF False ps] "2.prems" False by (cases "1 < length ps") (auto simp del: fun_upd_apply)
  qed
qed simp

text \<open>C37. Initialisation of a new tokenizer leaves tables that agree: the vocabulary map sends every entry to a position
  where it stands and misses none, the added tokens are exactly the non-empty entries that the pre-tokenizer
  cuts, and their list has each once, longer ones first.\<close>

theorem init_makes_consistent_tables:
  assumes "init_tokenizer ct iter srt meta new_tokenizer = (make_ok, tk)" and "iteration_law iter" and "std_sort_law srt"
    and "\<forall>es. meta ''tokenizer.ggml.tokens'' = Some (MArray es) \<longrightarrow> length es < 2 ^ 31"
  shows "consistent tk \<and> (\<forall>t. t \<in> fst ` set (tk_added tk) \<longleftrightarrow>
    t \<in> set (tk_vocab tk) \<and> t \<noteq> [] \<and> (\<exists>ps. pre_tokenize ct t = Inr ps \<and> 1 < length ps))"
proof -
  obtain tk0 where tk0: "init_tables ct meta new_tokenizer = (make_ok, tk0)"
    and tk: "tk = tk0\<lparr>tk_added := srt longer_first (iter (tk_added_map tk0))\<rparr>"
    using assms(1) by (cases "init_tables ct meta new_tokenizer"; cases "fst (init_tables ct meta new_tokenizer)")
      (auto simp: init_tokenizer_def)
  have ok: "consistent tk" unfolding tk by (rule init_consistent [OF tk0 assms(2-4)])
  obtain n where "find_added ct 0 (tk_vocab tk0) Map.empty = (make_ok, tk_added_map tk0)"
    by (rule init_tablesE [OF tk0 assms(4)])
  from find_added_dom [OF this] have "t \<in> dom (tk_added_map tk) \<longleftrightarrow>
      t \<in> set (tk_vocab tk) \<and> t \<noteq> [] \<and> (\<exists>ps. pre_tokenize ct t = Inr ps \<and> 1 < length ps)" for t
    by (simp add: tk)
  moreover have "fst ` set (tk_added tk) = dom (tk_added_map tk)" using ok by (force simp: consistent_def)
  ultimately show ?thesis using ok by simp
qed

text \<open>Initialisation succeeds on string tokens that the pre-tokenizer can read.\<close>

lemma load_vocab_succeeds:
  "\<exists>tk'. load_vocab i (map MString vs) tk = (make_ok, tk') \<and> tk_vocab tk' = take i (tk_vocab tk) @ vs"
  if "i + length vs = length (tk_vocab tk)"
  using that
proof (induction vs arbitrary: i tk)
  case (Cons v vs)
  from Cons.IH [of "Suc i" "tk\<lparr>tk_vocab := (tk_vocab tk)[i := v], tk_vocab_map := (tk_vocab_map tk)(v \<mapsto> size_to_int i)\<rparr>"] Cons.prems
  show ?case by (auto simp: take_Suc_conv_app_nth)
qed simp

lemma find_added_succeeds: "\<forall>v \<in> set vs. classified ct v \<Longrightarrow> fst (find_added ct i vs added) = make_ok"
proof (induction vs arbitrary: i added)
  case (Cons v vs)
  then show ?case using pre_tokenize_partition [of ct v] by auto
qed simp

lemma init_succeeds:
  assumes "meta ''tokenizer.ggml.tokens'' = Some (MArray (map MString vs))" and "\<forall>v \<in> set vs. classified ct v"
  shows "\<exists>tk. init_tokenizer ct iter srt meta new_tokenizer = (make_ok, tk) \<and> tk_vocab tk = vs"
proof -
  let ?tk1 = "(read_special_ids meta new_tokenizer)\<lparr>tk_vocab := vec_resize [] (length vs) (tk_vocab (read_special_ids meta new_tokenizer))\<rparr>"
  obtain tk2 where tk2: "load_vocab 0 (map MString vs) ?tk1 = (make_ok, tk2)" "tk_vocab tk2 = vs"
    using load_vocab_succeeds [of 0 vs ?tk1] by auto
  have "fst (find_added ct 0 vs m) = make_ok" for m by (rule find_added_succeeds [OF assms(2)])
  then show ?thesis
    using assms(1) tk2
    by (simp add: init_tokenizer_def init_tables_def Let_def split_beta sbind_def split: option.split metadata_value.split sum.split)
qed

lemma tiny_metadata_tokens:
  "tiny_metadata ''tokenizer.ggml.tokens'' = Some (MArray (map MString [''a'', ''b'', ''ab'', ''a b'', ''b a'']))"
  "\<forall>v \<in> set [''a'', ''b'', ''ab'', ''a b'', ''b a'']. classified ct v"
  by (simp add: tiny_metadata_def) (auto intro!: classified_ascii)

theorem init_makes_consistent_tables_witness:
  "\<exists>tk. init_tokenizer strict_ctype by_key sort_by tiny_metadata new_tokenizer = (make_ok, tk) \<and> consistent tk"
proof -
  obtain tk where tk: "init_tokenizer strict_ctype by_key sort_by tiny_metadata new_tokenizer = (make_ok, tk)"
    using init_succeeds [where meta = tiny_metadata and ct = strict_ctype and iter = by_key and srt = sort_by
        and vs = "[''a'', ''b'', ''ab'', ''a b'', ''b a'']"] tiny_metadata_tokens by blast
  have "\<forall>es. tiny_metadata ''tokenizer.ggml.tokens'' = Some (MArray es) \<longrightarrow> length es < 2 ^ 31"
    by (simp add: tiny_metadata_def)
  with init_makes_consistent_tables [OF tk iteration_law_by_key(1) std_sort_law_sort_by] tk show ?thesis by blast
qed

end
