(* ===== verification/Bpe_Roundtrip.thy ===== *)
theory Bpe_Roundtrip
  imports Bpe_Properties
begin

text \<open>
  Encoding and decoding: the tokens of a piece are the bytes of the piece grouped, and the text of a token is the
  bytes it groups, so that a text comes back, whatever the merges and the added tokens are, as long as the
  vocabulary covers the bytes and the merges.
\<close>

section \<open>A vocabulary that covers everything\<close>

definition covering :: "bpe_tokenizer \<Rightarrow> bool" where
  "covering tk \<longleftrightarrow> consistent tk \<and> (\<forall>b. byte_char b \<in> dom (tk_vocab_map tk))
     \<and> (\<forall>x y. (x, y) \<in> dom (tk_ranks tk) \<longrightarrow> x @ y \<in> dom (tk_vocab_map tk))
     \<and> (\<forall>t \<in> fst ` set (tk_added tk). unicode_to_bytes t = Inr t)"

text \<open>Ids that \<open>decode\<close> neither stops at nor reads as a byte written in hexadecimal.\<close>

definition plain_id :: "bpe_tokenizer \<Rightarrow> int \<Rightarrow> bool" where
  "plain_id tk v \<longleftrightarrow> v \<noteq> tk_eos_id tk \<and> \<not> is_byte_token (tk_vocab tk ! nat v)"

definition ascii :: "string \<Rightarrow> bool" where
  "ascii s \<longleftrightarrow> (\<forall>c \<in> set s. of_char c < (128 :: nat))"

text \<open>The ids are tokens, and if they are plain they stand for the text.\<close>

definition stand_for :: "bpe_tokenizer \<Rightarrow> int list \<Rightarrow> string \<Rightarrow> bool" where
  "stand_for tk ids s \<longleftrightarrow> (\<forall>v \<in> set ids. 0 \<le> v \<and> v < vocab_size tk) \<and> ((\<forall>v \<in> set ids. plain_id tk v) \<longrightarrow>
     (\<forall>rest. decode_ids tk (ids @ rest) = rbind (decode_ids tk rest) (\<lambda>r. Inr (s @ r))))"

lemma stand_for_Nil: "stand_for tk [] []"
  by (auto simp: stand_for_def rbind_def split: sum.split)

lemma rbind_append: "rbind (rbind r (\<lambda>x. Inr (b @ x))) (\<lambda>x. Inr (a @ x)) = rbind r (\<lambda>x. Inr ((a @ b) @ x))"
  by (cases r) auto

lemma stand_for_append: "stand_for tk xs s \<Longrightarrow> stand_for tk ys t \<Longrightarrow> stand_for tk (xs @ ys) (s @ t)"
  by (auto simp: stand_for_def rbind_append)

lemma consistentD:
  assumes "consistent tk"
  shows "length (tk_vocab tk) < 2 ^ 31" "points_back tk (length (tk_vocab tk)) (tk_vocab_map tk)"
    "points_back tk (length (tk_vocab tk)) (tk_added_map tk)" "set (tk_added tk) = {(t, v). tk_added_map tk t = Some v}"
    "sorted_wrt (\<lambda>a b. length (fst b) \<le> length (fst a)) (tk_added tk)" "(t, v) \<in> set (tk_added tk) \<Longrightarrow> t \<noteq> []"
  using assms by (auto simp: consistent_def)

lemma stand_for_one:
  assumes "points_back tk (length (tk_vocab tk)) m" and "length (tk_vocab tk) < 2 ^ 31" and "m t = Some v"
    and "unicode_to_bytes t = Inr s"
  shows "stand_for tk [v] s"
proof -
  obtain i where "i < length (tk_vocab tk)" "v = int i" "tk_vocab tk ! i = t"
    using assms(1,3) by (auto simp: points_back_def)
  then show ?thesis using assms(2,4)
    by (auto simp: stand_for_def plain_id_def vocab_size_def token_to_text_def)
qed

section \<open>The tokens of a piece\<close>

lemma bytes_to_unicode_append: "bytes_to_unicode (x @ y) = bytes_to_unicode x @ bytes_to_unicode y"
  by (simp add: bytes_to_unicode_def)

lemma map_merge_at: "map bytes_to_unicode (merge_at i rs) = merge_at i (map bytes_to_unicode rs)"
  by (induction i rs rule: merge_at.induct) (auto simp: bytes_to_unicode_append)

lemma set_merge_at: "Suc i < length ts \<Longrightarrow> set (merge_at i ts) \<subseteq> insert (ts ! i @ ts ! Suc i) (set ts)"
  by (induction i ts rule: merge_at.induct) auto

text \<open>Merging groups the bytes, and every group is in the vocabulary.\<close>

lemma merges_group:
  assumes "covering tk" and "(lowest_merge (tk_ranks tk))\<^sup>*\<^sup>* (map byte_char raw) ts"
  shows "\<exists>rs. ts = map bytes_to_unicode rs \<and> concat rs = raw \<and> set ts \<subseteq> dom (tk_vocab_map tk)"
  using assms(2)
proof (induction rule: rtranclp_induct)
  case base
  have "map byte_char raw = map bytes_to_unicode (map (\<lambda>b. [b]) raw)" by (simp add: bytes_to_unicode_def byte_char_def)
  moreover have "concat (map (\<lambda>b. [b]) raw) = raw" by (induction raw) auto
  moreover have "set (map byte_char raw) \<subseteq> dom (tk_vocab_map tk)" using assms(1) by (auto simp: covering_def)
  ultimately show ?case by blast
next
  case (step ts ts')
  then obtain rs where rs: "ts = map bytes_to_unicode rs" "concat rs = raw" "set ts \<subseteq> dom (tk_vocab_map tk)" by blast
  from step.hyps(2) obtain i r where i: "Suc i < length ts" "pair_rank (tk_ranks tk) ts i = Some r" "ts' = merge_at i ts"
    by (auto elim: lowest_mergeE)
  have "ts ! i @ ts ! Suc i \<in> dom (tk_vocab_map tk)"
    using assms(1) i(2) domI [of "tk_ranks tk"] by (auto simp: covering_def pair_rank_def simp del: domIff split: option.splits)
  then have "set ts' \<subseteq> dom (tk_vocab_map tk)" using set_merge_at [OF i(1)] rs(3) i(3) by blast
  then show ?case using rs i(3) by (intro exI [of _ "merge_at i rs"]) (simp add: map_merge_at concat_merge_at)
qed

lemma map_filter_stand_for:
  assumes "consistent tk" and "set ts \<subseteq> dom (tk_vocab_map tk)" and "ts = map bytes_to_unicode rs" and "\<forall>r \<in> set rs. ascii r"
  shows "stand_for tk (List.map_filter (tk_vocab_map tk) ts) (concat rs)"
  using assms(2-4)
proof (induction rs arbitrary: ts)
  case Nil
  then show ?case by (simp add: stand_for_Nil List.map_filter_simps)
next
  case (Cons r rs)
  then obtain v where v: "tk_vocab_map tk (bytes_to_unicode r) = Some v" by auto
  have "filter (\<lambda>b. of_char b \<noteq> (255 :: nat)) r = r" using Cons.prems(3) by (fastforce simp: ascii_def filter_id_conv)
  then have "stand_for tk [v] r"
    using stand_for_one [OF consistentD(2,1) [OF assms(1)] v] unicode_to_bytes_to_unicode [of r] by simp
  then show ?case using stand_for_append [OF _ Cons.IH] Cons.prems v
    by (fastforce simp: List.map_filter_simps)
qed

lemma encode_pieces_stand_for:
  assumes "covering tk" and "\<forall>p \<in> set ps. ascii p \<and> length p < 2 ^ 31"
  shows "\<exists>ids. encode_pieces tk ps = Inr ids \<and> stand_for tk ids (concat ps)"
  using assms(2)
proof (induction ps)
  case Nil
  then show ?case by (simp add: stand_for_Nil)
next
  case (Cons p ps)
  obtain ts where ts: "(lowest_merge (tk_ranks tk))\<^sup>*\<^sup>* (map byte_char p) ts"
    "bpe (tk_vocab_map tk) (tk_ranks tk) (bytes_to_unicode p) = Inr (List.map_filter (tk_vocab_map tk) ts)"
    using bpe_of_bytes [of p "tk_ranks tk" "tk_vocab_map tk"] Cons.prems by auto
  obtain rs where rs: "ts = map bytes_to_unicode rs" "concat rs = p" "set ts \<subseteq> dom (tk_vocab_map tk)"
    using merges_group [OF assms(1) ts(1)] by blast
  have "\<forall>r \<in> set rs. ascii r" using Cons.prems rs(2) by (auto simp: ascii_def)
  then have "stand_for tk (List.map_filter (tk_vocab_map tk) ts) p"
    using map_filter_stand_for [OF _ rs(3,1)] assms(1) rs(2) by (simp add: covering_def)
  moreover obtain ids where "encode_pieces tk ps = Inr ids" "stand_for tk ids (concat ps)" using Cons by auto
  ultimately show ?case using ts(2) stand_for_append by auto
qed

lemma encode_plain_stand_for:
  assumes "covering tk" and "ascii s" and "length s < 2 ^ 31"
  shows "\<exists>ids. encode_plain ct tk s = Inr ids \<and> stand_for tk ids s"
proof -
  have "classified ct s" by (rule classified_ascii) (use assms(2) in \<open>simp add: ascii_def\<close>)
  then obtain ps where ps: "pre_tokenize ct s = Inr ps" "concat ps = s" using pre_tokenize_partition by blast
  have "length p \<le> length (concat ps)" if "p \<in> set ps" for p using that by (induction ps) auto
  then have "\<forall>p \<in> set ps. ascii p \<and> length p < 2 ^ 31" using assms(2,3) ps(2) by (fastforce simp: ascii_def)
  from encode_pieces_stand_for [OF assms(1) this] show ?thesis by (simp add: encode_plain_def ps)
qed

section \<open>The text comes back\<close>

lemma text_around:
  assumes "pos \<le> e" and "occurs_at s t e"
  shows "drop pos s = take (e - pos) (drop pos s) @ t @ drop (e + length t) s"
proof -
  have "drop e s = t @ drop (e + length t) s"
    using assms(2) append_take_drop_id [of "length t" "drop e s"] by (simp add: occurs_at_def add.commute)
  then show ?thesis using append_take_drop_id [of "e - pos" "drop pos s"] assms(1) by simp
qed

lemma encode_loop_stand_for:
  assumes tk: "covering tk" and s: "ascii s" "length s < 2 ^ 31"
  shows "length s - pos \<le> fuel \<Longrightarrow> \<exists>ids. encode_loop fuel ct tk s pos = Inr ids \<and> stand_for tk ids (drop pos s)"
proof (induction fuel arbitrary: pos)
  case 0
  then show ?case by (simp add: stand_for_Nil)
next
  case (Suc fuel)
  have ok: "consistent tk" using tk by (simp add: covering_def)
  have plain: "\<exists>ids. encode_plain ct tk x = Inr ids \<and> stand_for tk ids x" if "set x \<subseteq> set s" "length x \<le> length s" for x
    by (rule encode_plain_stand_for [OF tk]) (use s that in \<open>auto simp: ascii_def\<close>)
  show ?case
  proof (cases "pos < length s")
    case True
    from scan_added_result [OF consistentD(5) [OF ok], of s pos] show ?thesis
    proof (elim disjE exE conjE, goal_cases)
      case 1
      then show ?case using True plain [of "drop pos s"] set_drop_subset [of pos s] by simp
    next
      case (2 t v)
      let ?e = "find_from s t pos"
      have e: "?e < npos" "(t, v) \<in> set (tk_added tk)" using 2 by (auto simp: first_added_def)
      note at = find_from_occurs [OF e(1)]
      have t: "t \<noteq> []" "tk_added_map tk t = Some v" "unicode_to_bytes t = Inr t"
        using consistentD(4,6) [OF ok] e(2) tk by (auto simp: covering_def)
      have "length s - (?e + length t) \<le> fuel" using Suc.prems at True t(1) by (cases t) (auto simp: occurs_at_def)
      then obtain rest where rest: "encode_loop fuel ct tk s (?e + length t) = Inr rest"
        "stand_for tk rest (drop (?e + length t) s)" using Suc.IH by blast
      have "set (take (?e - pos) (drop pos s)) \<subseteq> set s" "length (take (?e - pos) (drop pos s)) \<le> length s"
        by (auto dest!: in_set_takeD in_set_dropD)
      from plain [OF this] obtain part where part: "encode_plain ct tk (take (?e - pos) (drop pos s)) = Inr part"
        "stand_for tk part (take (?e - pos) (drop pos s))" by auto
      obtain before where before: "(if pos < ?e then encode_plain ct tk (take (?e - pos) (drop pos s)) else Inr []) = Inr before"
        "stand_for tk before (take (?e - pos) (drop pos s))"
        using part stand_for_Nil by (cases "pos < ?e") auto
      have "stand_for tk (before @ [v] @ rest) (take (?e - pos) (drop pos s) @ t @ drop (?e + length t) s)"
        by (intro stand_for_append before(2) rest(2) stand_for_one [OF consistentD(3,1) [OF ok] t(2,3)])
      then show ?case using True before(1) rest(1) 2(2) e(1) text_around [OF at] by simp
    qed
  qed (simp add: stand_for_Nil)
qed

text \<open>C12. A text that is encoded decodes to itself: with a vocabulary that has a token for every byte and for every merge, and
  added tokens that stand for their own text, encoding an ASCII text succeeds with ids of the vocabulary, and decoding them gives the text
  back, also with the end token appended, unless the text spells out the end token or a byte token.\<close>

theorem encode_decode_roundtrip:
  assumes "covering tk" and "ascii input" and "length input < 2 ^ 31" and "add_eos \<longrightarrow> tk_eos_id tk < vocab_size tk"
  shows "\<exists>ids. encode ct tk input False add_eos = Inr (ids @ (if add_eos \<and> 0 \<le> tk_eos_id tk then [tk_eos_id tk] else []))
    \<and> (\<forall>v \<in> set ids. 0 \<le> v \<and> v < vocab_size tk)
    \<and> ((\<forall>v \<in> set ids. plain_id tk v) \<longrightarrow>
         decode tk (ids @ (if add_eos \<and> 0 \<le> tk_eos_id tk then [tk_eos_id tk] else [])) = Inr input)"
proof -
  obtain ids where ids: "encode_loop (length input) ct tk input 0 = Inr ids" "stand_for tk ids input"
    using encode_loop_stand_for [OF assms(1-3), of 0 "length input" ct] by auto
  let ?last = "if add_eos \<and> 0 \<le> tk_eos_id tk then [tk_eos_id tk] else []"
  have "tk_vocab tk \<noteq> []"
    using assms(1) by (auto simp: covering_def consistent_def points_back_def)
  moreover have "decode_ids tk ?last = Inr []" using assms(4) by auto
  ultimately show ?thesis using ids by (auto simp: encode_def decode_def stand_for_def)
qed

text \<open>A vocabulary of the characters of all bytes and one merge.\<close>

definition byte_vocab :: "string list" where
  "byte_vocab = map (\<lambda>n. byte_char (char_of n)) [0..<256] @ [''th'']"

definition byte_tokenizer :: bpe_tokenizer where
  "byte_tokenizer = \<lparr>tk_vocab = byte_vocab,
     tk_vocab_map = (\<lambda>t. map_option int (find (\<lambda>i. byte_vocab ! i = t) [0..<length byte_vocab])),
     tk_ranks = [(''t'', ''h'') \<mapsto> 0], tk_eos_id = -1, tk_bos_id = -1, tk_pad_id = -1, tk_added_map = Map.empty, tk_added = []\<rparr>"

lemma byte_vocab_map:
  "tk_vocab_map byte_tokenizer t = Some v \<Longrightarrow> \<exists>i < length byte_vocab. v = int i \<and> byte_vocab ! i = t"
  by (auto simp: byte_tokenizer_def dest!: find_Some)

lemma byte_vocab_dom:
  assumes "t \<in> set byte_vocab"
  shows "t \<in> dom (tk_vocab_map byte_tokenizer)"
proof -
  have "find (\<lambda>i. byte_vocab ! i = t) [0..<length byte_vocab] \<noteq> None"
    using assms by (auto simp: find_None_iff in_set_conv_nth)
  then show ?thesis by (auto simp: byte_tokenizer_def)
qed

lemma byte_vocab_length: "t \<in> set byte_vocab \<Longrightarrow> length t \<le> 2"
proof -
  have "length (byte_char b) \<le> 2" for b
    using byte_table_code(1) [of "of_char b"] by (auto simp: byte_char_def utf8_encode_def)
  then show "t \<in> set byte_vocab \<Longrightarrow> length t \<le> 2" by (auto simp: byte_vocab_def)
qed

lemma covering_byte_tokenizer: "covering byte_tokenizer"
proof -
  have "byte_char b \<in> set byte_vocab" for b
    unfolding byte_vocab_def by (auto simp: image_iff intro!: bexI [of _ "of_char b"])
  moreover have "''t'' @ ''h'' \<in> set byte_vocab" by (simp add: byte_vocab_def)
  moreover have "length byte_vocab = 257" by (simp add: byte_vocab_def)
  moreover have "tk_vocab byte_tokenizer = byte_vocab" "tk_ranks byte_tokenizer = [(''t'', ''h'') \<mapsto> 0]"
    "tk_added byte_tokenizer = []" "tk_added_map byte_tokenizer = Map.empty"
    by (simp_all add: byte_tokenizer_def)
  ultimately show ?thesis
    unfolding covering_def consistent_def points_back_def
    by (auto simp del: domIff simp: byte_vocab_dom dest!: byte_vocab_map intro: domD [OF byte_vocab_dom] split: if_splits)
qed

theorem encode_decode_roundtrip_witness:
  "\<exists>ids. encode strict_ctype byte_tokenizer ''the path'' False False = Inr ids \<and> decode byte_tokenizer ids = Inr ''the path''"
proof -
  obtain ids where ids: "encode strict_ctype byte_tokenizer ''the path'' False False = Inr ids"
    "\<forall>v \<in> set ids. 0 \<le> v \<and> v < vocab_size byte_tokenizer"
    "(\<forall>v \<in> set ids. plain_id byte_tokenizer v) \<Longrightarrow> decode byte_tokenizer ids = Inr ''the path''"
    using encode_decode_roundtrip [OF covering_byte_tokenizer, of "''the path''" False strict_ctype]
    by (auto simp: ascii_def)
  have "plain_id byte_tokenizer v" if v: "v \<in> set ids" for v
  proof -
    have "nat v < length byte_vocab" "v \<noteq> -1"
      using ids(2) v by (auto simp: vocab_size_def byte_tokenizer_def byte_vocab_def)
    with byte_vocab_length [OF nth_mem [OF this(1)]] show ?thesis
      by (simp add: plain_id_def is_byte_token_def byte_tokenizer_def)
  qed
  with ids show ?thesis by blast
qed

section \<open>The parts\<close>

text \<open>The byte alphabet: the characters that stand for raw bytes are read back as these bytes, with one exception, byte
  255, whose table entry looks empty and which is lost.\<close>

theorem byte_alphabet_roundtrip:
  "unicode_to_bytes (bytes_to_unicode raw) = Inr (filter (\<lambda>b. of_char b \<noteq> (255 :: nat)) raw)"
  by (rule unicode_to_bytes_to_unicode)

text \<open>The pre-tokenizer cuts: on a text of whole characters that have a class it ends without reading outside of the
  text, and its pieces are not empty and make up the text.\<close>

theorem pre_tokenize_cuts_text:
  assumes "classified ct input"
  shows "\<exists>ps. pre_tokenize ct input = Inr ps \<and> concat ps = input \<and> [] \<notin> set ps"
  using pre_tokenize_partition [OF assms] .

theorem pre_tokenize_cuts_text_witness:
  "\<exists>ps. pre_tokenize strict_ctype ''It's 2024!'' = Inr ps \<and> concat ps = ''It's 2024!'' \<and> [] \<notin> set ps"
  by (rule pre_tokenize_cuts_text, rule classified_ascii) auto

text \<open>The reference merging has at most one end.\<close>

lemma lowest_merges_unique:
  assumes "(lowest_merge rk)\<^sup>*\<^sup>* ts a" and "unmergeable rk a" and "(lowest_merge rk)\<^sup>*\<^sup>* ts b" and "unmergeable rk b"
  shows "a = b"
  using assms(1,3)
proof (induction arbitrary: rule: converse_rtranclp_induct)
  case base
  then show ?case using unmergeable_final [OF assms(2)] by (metis converse_rtranclpE)
next
  case (step y z)
  from step.prems show ?case
  proof (cases rule: converse_rtranclpE)
    case base
    then show ?thesis using step.hyps(1) unmergeable_final [OF assms(4)] by blast
  next
    case (step z')
    then show ?thesis using lowest_merge_unique [OF step.hyps(1)] step.IH by blast
  qed
qed

text \<open>C13. The merge loop is byte-pair merging: on the characters of up to 2^31 bytes it ends, and its tokens are those of
  the one list of texts that merging the leftmost neighbours of lowest rank, until there are none, leads to; merged
  symbols that stay in the array and are scanned again change nothing.\<close>

theorem bpe_is_lowest_rank_merging:
  assumes "length raw < 2 ^ 31"
  shows "\<exists>ts. (lowest_merge rk)\<^sup>*\<^sup>* (map byte_char raw) ts \<and> unmergeable rk ts
    \<and> (\<forall>us. (lowest_merge rk)\<^sup>*\<^sup>* (map byte_char raw) us \<and> unmergeable rk us \<longrightarrow> us = ts)
    \<and> concat ts = bytes_to_unicode raw \<and> bpe vm rk (bytes_to_unicode raw) = Inr (List.map_filter vm ts)"
proof -
  obtain ts where ts: "(lowest_merge rk)\<^sup>*\<^sup>* (map byte_char raw) ts" "unmergeable rk ts"
    "bpe vm rk (bytes_to_unicode raw) = Inr (List.map_filter vm ts)"
    using bpe_of_bytes [OF assms] by blast
  have "concat (map byte_char raw) = bytes_to_unicode raw" by (simp add: bytes_to_unicode_def byte_char_def [abs_def])
  with lowest_merges_concat [OF ts(1)] have "concat ts = bytes_to_unicode raw" by simp
  moreover have "us = ts" if "(lowest_merge rk)\<^sup>*\<^sup>* (map byte_char raw) us \<and> unmergeable rk us" for us
    by (rule lowest_merges_unique [of rk _ us ts]) (use that ts in simp_all)
  ultimately show ?thesis using ts by blast
qed

theorem bpe_is_lowest_rank_merging_witness:
  "\<exists>ts. unmergeable [(''t'', ''h'') \<mapsto> 0] ts \<and> concat ts = bytes_to_unicode ''the''
     \<and> bpe (tk_vocab_map byte_tokenizer) [(''t'', ''h'') \<mapsto> 0] (bytes_to_unicode ''the'')
         = Inr (List.map_filter (tk_vocab_map byte_tokenizer) ts)"
proof -
  have "length ''the'' < (2 :: nat) ^ 31" by simp
  from bpe_is_lowest_rank_merging [OF this, of "[(''t'', ''h'') \<mapsto> 0]" "tk_vocab_map byte_tokenizer"] show ?thesis by blast
qed

end
