(* ===== verification/Memory_Planner.thy ===== *)
theory Memory_Planner
  imports Graph_IR "HOL-Library.Product_Lexorder"
begin

text \<open>
  \<open>MemoryPlanner::plan\<close> (include/minillm/runtime/memory_planner.h, src/runtime/memory_planner.cpp):
  the live range of every value in the topological order, the assignment of intermediates to buffers
  that are reused once their value is dead, and the layout of the buffers in one arena per dtype and
  device. A \<open>multiset\<close> of pairs is a sorted list; an \<open>unordered_map\<close> of pools is a function
  whose default is the empty pool. The order in which \<open>std::sort\<close> leaves equivalent ranges
  is a parameter.
\<close>

section \<open>Plans\<close>

record plan_options =
  po_alignment :: nat
  po_include_outputs :: bool

text \<open>\<open>kNoBuffer\<close> and an arena that is not assigned are the largest \<open>size_t\<close>.\<close>

abbreviation no_buffer :: nat where "no_buffer \<equiv> size_max"

record live_range =
  lr_value :: value_id
  lr_name :: string
  lr_bytes :: nat
  lr_aligned :: nat
  lr_dtype :: dtype
  lr_device :: device
  lr_kind :: value_kind
  lr_first :: nat
  lr_last :: nat
  lr_eligible :: bool
  lr_skip_reason :: string
  lr_buffer :: nat

record memory_buffer =
  mb_id :: nat
  mb_bytes :: nat
  mb_dtype :: dtype
  mb_device :: device
  mb_last_use :: nat
  mb_arena :: nat
  mb_offset :: nat
  mb_values :: "value_id list"

record memory_plan =
  mp_ranges :: "live_range list"
  mp_buffers :: "memory_buffer list"
  mp_alignment :: nat
  mp_eligible_count :: nat
  mp_skipped_count :: nat
  mp_naive_bytes :: nat
  mp_planned_bytes :: nat
  mp_range_index :: "value_id \<Rightarrow> nat option"

definition empty_plan :: memory_plan where
  "empty_plan = \<lparr>mp_ranges = [], mp_buffers = [], mp_alignment = 64, mp_eligible_count = 0, mp_skipped_count = 0,
     mp_naive_bytes = 0, mp_planned_bytes = 0, mp_range_index = Map.empty\<rparr>"

definition range_for :: "value_id \<Rightarrow> memory_plan \<Rightarrow> live_range option" where
  "range_for v p = map_option (\<lambda>i. mp_ranges p ! i) (mp_range_index p v)"

definition align_up :: "nat \<Rightarrow> nat \<Rightarrow> nat" where
  "align_up v a = (if a = 0 then v
     else if v mod a = 0 then v else wrap64 (v + (a - v mod a)))"

section \<open>Lifetimes\<close>

record lifetimes =
  lt_first :: "nat list"
  lt_last :: "nat list"
  lt_has :: "bool list"

text \<open>The two loops over the inputs and outputs of the node at position \<open>k\<close> of the order.\<close>

fun use_inputs :: "nat \<Rightarrow> value_id list \<Rightarrow> lifetimes \<Rightarrow> lifetimes" where
  "use_inputs k [] l = l"
| "use_inputs k (v # vs) l = use_inputs k vs (if v < length (lt_last l)
     then l\<lparr>lt_last := (lt_last l)[v := max (lt_last l ! v) k]\<rparr> else l)"

fun set_outputs :: "nat \<Rightarrow> value_id list \<Rightarrow> lifetimes \<Rightarrow> lifetimes" where
  "set_outputs k [] l = l"
| "set_outputs k (v # vs) l = set_outputs k vs (if v < length (lt_last l)
     then l\<lparr>lt_first := (lt_first l)[v := k], lt_last := (lt_last l)[v := max (lt_last l ! v) k],
            lt_has := (lt_has l)[v := True]\<rparr> else l)"

fun scan_order :: "'d graph \<Rightarrow> nat \<Rightarrow> node_id list \<Rightarrow> lifetimes \<Rightarrow> lifetimes result" where
  "scan_order g k [] l = Inr l"
| "scan_order g k (n # ns) l = rbind (g_node n g) (\<lambda>nd.
     scan_order g (Suc k) ns (set_outputs k (n_outputs nd) (use_inputs k (n_inputs nd) l)))"

definition no_lifetimes :: "nat \<Rightarrow> lifetimes" where
  "no_lifetimes n = \<lparr>lt_first = replicate n 0, lt_last = replicate n 0, lt_has = replicate n False\<rparr>"

section \<open>Live ranges\<close>

text \<open>The range of a value before its size is known.\<close>

definition bare_range :: "lifetimes \<Rightarrow> nat \<Rightarrow> graph_value \<Rightarrow> live_range" where
  "bare_range l graph_end v =
     (let known = v_id v < length (lt_first l);
          first = (if known \<and> lt_has l ! v_id v then lt_first l ! v_id v else 0);
          last1 = (if known then lt_last l ! v_id v else 0);
          last2 = (if v_kind v = KOutput then graph_end else last1)
      in \<lparr>lr_value = v_id v, lr_name = v_name v, lr_bytes = 0, lr_aligned = 0, lr_dtype = v_dtype v,
          lr_device = v_device v, lr_kind = v_kind v, lr_first = first, lr_last = max first last2,
          lr_eligible = False, lr_skip_reason = '''', lr_buffer = no_buffer\<rparr>)"

definition skipped :: "string \<Rightarrow> live_range \<Rightarrow> live_range" where
  "skipped why r = r\<lparr>lr_skip_reason := why\<rparr>"

definition measure_range :: "plan_options \<Rightarrow> lifetimes \<Rightarrow> nat \<Rightarrow> graph_value \<Rightarrow> live_range result" where
  "measure_range opt l graph_end v =
     (let r = bare_range l graph_end v in
      if \<not> (v_kind v = KIntermediate \<or> po_include_outputs opt \<and> v_kind v = KOutput) then
        Inr (skipped (''kind='' @ kind_name (v_kind v)) r)
      else if dev_type (v_device v) \<noteq> CPU \<and> dev_type (v_device v) \<noteq> CUDA then
        Inr (skipped ''unsupported device'' r)
      else if has_dynamic_dim (v_shape v) then Inr (skipped ''dynamic shape'' r)
      else case numel (v_shape v) of
        Inl e \<Rightarrow> if is_status e then Inr (skipped (status_to_string e) r) else Inl e
      | Inr n \<Rightarrow> (case dtype_size (v_dtype v) of
          Inl e \<Rightarrow> if is_status e then Inr (skipped (status_to_string e) r) else Inl e
        | Inr s \<Rightarrow>
            if size_max div s < n then
              Inl (out_of_range (''memory planner tensor byte size overflow for '' @ v_name v))
            else Inr (r\<lparr>lr_bytes := wrap64 (n * s), lr_aligned := align_up (wrap64 (n * s)) (po_alignment opt),
                        lr_eligible := True\<rparr>)))"

definition add_range :: "live_range \<Rightarrow> memory_plan \<Rightarrow> memory_plan" where
  "add_range r p =
     (if lr_eligible r
      then p\<lparr>mp_eligible_count := Suc (mp_eligible_count p),
             mp_naive_bytes := wrap64 (mp_naive_bytes p + lr_aligned r), mp_ranges := mp_ranges p @ [r]\<rparr>
      else p\<lparr>mp_skipped_count := Suc (mp_skipped_count p), mp_ranges := mp_ranges p @ [r]\<rparr>)"

fun build_ranges ::
  "plan_options \<Rightarrow> lifetimes \<Rightarrow> nat \<Rightarrow> graph_value list \<Rightarrow> memory_plan \<Rightarrow> memory_plan result"
where
  "build_ranges opt l graph_end [] p = Inr p"
| "build_ranges opt l graph_end (v # vs) p =
     rbind (measure_range opt l graph_end v) (\<lambda>r. build_ranges opt l graph_end vs (add_range r p))"

text \<open>The comparator of the sort, on indices.\<close>

definition range_before :: "live_range list \<Rightarrow> nat \<Rightarrow> nat \<Rightarrow> bool" where
  "range_before rs lhs rhs =
     (let a = rs ! lhs; b = rs ! rhs in
      if lr_first a \<noteq> lr_first b then lr_first a < lr_first b
      else if lr_last a \<noteq> lr_last b then lr_last a < lr_last b
      else lr_aligned b < lr_aligned a)"

section \<open>Buffers\<close>

type_synonym pool_key = "dtype \<times> device_type \<times> int"

definition buffer_key :: "memory_buffer \<Rightarrow> pool_key" where
  "buffer_key b = (mb_dtype b, dev_type (mb_device b), dev_index (mb_device b))"

definition range_key :: "live_range \<Rightarrow> pool_key" where
  "range_key r = (lr_dtype r, dev_type (lr_device r), dev_index (lr_device r))"

type_synonym free_pools = "pool_key \<Rightarrow> (nat \<times> nat) list"

record alloc_state =
  al_ranges :: "live_range list"
  al_buffers :: "memory_buffer list"
  al_pools :: free_pools
  al_live :: "(nat \<times> nat) list"

text \<open>The buffers whose last use is over go to their pools.\<close>

fun retire :: "nat \<Rightarrow> memory_buffer list \<Rightarrow> (nat \<times> nat) list \<Rightarrow> free_pools \<Rightarrow> (nat \<times> nat) list \<times> free_pools" where
  "retire now bufs [] pools = ([], pools)"
| "retire now bufs ((last_use, bi) # live) pools =
     (if last_use < now then
        let k = buffer_key (bufs ! bi)
        in retire now bufs live (pools(k := insort (mb_bytes (bufs ! bi), bi) (pools k)))
      else ((last_use, bi) # live, pools))"

text \<open>\<open>lower_bound\<close>: the first entry that is not below \<open>(need, 0)\<close>, and the rest of the set.\<close>

fun lower_bound :: "nat \<Rightarrow> (nat \<times> nat) list \<Rightarrow> (nat \<times> (nat \<times> nat) list) option" where
  "lower_bound need [] = None"
| "lower_bound need (e # es) = (if (need, 0) \<le> e then Some (snd e, es)
     else map_option (\<lambda>(bi, rest). (bi, e # rest)) (lower_bound need es))"

definition place_range :: "nat \<Rightarrow> alloc_state \<Rightarrow> alloc_state" where
  "place_range idx al =
     (let r = al_ranges al ! idx;
          (live, pools) = retire (lr_first r) (al_buffers al) (al_live al) (al_pools al)
      in case lower_bound (lr_aligned r) (pools (range_key r)) of
        Some (bi, rest) \<Rightarrow>
          let b = al_buffers al ! bi in
          al\<lparr>al_pools := pools(range_key r := rest),
             al_buffers := (al_buffers al)[bi := b\<lparr>mb_last_use := lr_last r, mb_values := mb_values b @ [lr_value r]\<rparr>],
             al_ranges := (al_ranges al)[idx := r\<lparr>lr_buffer := mb_id b\<rparr>],
             al_live := insort (lr_last r, bi) live\<rparr>
      | None \<Rightarrow>
          let bi = length (al_buffers al) in
          al\<lparr>al_pools := pools,
             al_buffers := al_buffers al @ [\<lparr>mb_id = bi, mb_bytes = lr_aligned r, mb_dtype = lr_dtype r,
               mb_device = lr_device r, mb_last_use = lr_last r, mb_arena = size_max, mb_offset = 0,
               mb_values = [lr_value r]\<rparr>],
             al_ranges := (al_ranges al)[idx := r\<lparr>lr_buffer := bi\<rparr>],
             al_live := insort (lr_last r, bi) live\<rparr>)"

definition start_alloc :: "live_range list \<Rightarrow> alloc_state" where
  "start_alloc rs = \<lparr>al_ranges = rs, al_buffers = [], al_pools = (\<lambda>_. []), al_live = []\<rparr>"

section \<open>Arenas\<close>

fun assign_arenas ::
  "nat \<Rightarrow> (pool_key \<times> nat \<times> nat) list \<Rightarrow> memory_buffer list \<Rightarrow> memory_buffer list"
where
  "assign_arenas a info [] = []"
| "assign_arenas a info (b # bs) = (case map_of info (buffer_key b) of
     None \<Rightarrow> b\<lparr>mb_arena := length info, mb_offset := 0\<rparr> #
       assign_arenas a (AList.update (buffer_key b) (length info, mb_bytes b) info) bs
   | Some (arena, offset) \<Rightarrow>
       let off = align_up offset a in
       b\<lparr>mb_arena := arena, mb_offset := off\<rparr> #
       assign_arenas a (AList.update (buffer_key b) (arena, wrap64 (off + mb_bytes b)) info) bs)"

fun index_ranges :: "nat \<Rightarrow> live_range list \<Rightarrow> (value_id \<Rightarrow> nat option) \<Rightarrow> value_id \<Rightarrow> nat option" where
  "index_ranges i [] m = m"
| "index_ranges i (r # rs) m = index_ranges (Suc i) rs (m(lr_value r \<mapsto> i))"

section \<open>The plan\<close>

definition sum_bytes :: "memory_buffer list \<Rightarrow> nat" where
  "sum_bytes bs = foldl (\<lambda>n b. wrap64 (n + mb_bytes b)) 0 bs"

definition plan_buffers ::
  "((nat \<Rightarrow> nat \<Rightarrow> bool) \<Rightarrow> nat list \<Rightarrow> nat list) \<Rightarrow> live_range list \<Rightarrow> alloc_state"
where
  "plan_buffers std_sort rs =
     foldl (\<lambda>al i. place_range i al) (start_alloc rs)
       (std_sort (range_before rs) (filter (\<lambda>i. lr_eligible (rs ! i)) [0..<length rs]))"

definition make_plan ::
  "((nat \<Rightarrow> nat \<Rightarrow> bool) \<Rightarrow> nat list \<Rightarrow> nat list) \<Rightarrow> plan_options \<Rightarrow> 'd graph \<Rightarrow> memory_plan result"
where
  "make_plan std_sort opt g =
     (if po_alignment opt = 0 then
        Inl (invalid_argument ''memory planner alignment must be greater than zero'')
      else rbind (validate g) (\<lambda>_. rbind (topological_sort g) (\<lambda>order.
        rbind (scan_order g 0 order (no_lifetimes (length (g_values g)))) (\<lambda>l.
        rbind (build_ranges opt l (if order = [] then 0 else length order - 1) (g_values g)
                 (empty_plan\<lparr>mp_alignment := po_alignment opt\<rparr>)) (\<lambda>p.
          let al = plan_buffers std_sort (mp_ranges p)
          in Inr (p\<lparr>mp_ranges := al_ranges al,
               mp_buffers := assign_arenas (po_alignment opt) [] (al_buffers al),
               mp_planned_bytes := sum_bytes (al_buffers al),
               mp_range_index := index_ranges 0 (al_ranges al) Map.empty\<rparr>))))))"

end
