(* ===== verification/Runtime_Context.thy ===== *)
theory Runtime_Context
  imports Memory_Planner Tensor KV_Cache
begin

text \<open>
  \<open>RuntimeContext\<close> (include/minillm/runtime/runtime_context.h, src/runtime/runtime_context.cpp), in the
  build without CUDA: the tensors bound to the values of a graph, the memory behind them and the KV cache
  of the run. A tensor object is its position in the list of all tensors; a byte pointer is an address.
  Where the heap places a block, and in which order the map of arenas is met, are parameters.
\<close>

section \<open>State\<close>

type_synonym tensor_ref = nat

record cpu_arena =
  ca_storage :: "nat \<times> nat"
  ca_data :: nat
  ca_bytes :: nat

record 'f runtime_context =
  rc_tensors :: "tensor list"
  rc_bindings :: "value_id \<Rightarrow> tensor_ref option"
  rc_owned :: "tensor_ref list"
  rc_arenas :: "cpu_arena list"
  rc_kv_cache :: "'f kv_cache option"
  rc_advance_tokens :: int
  rc_paged :: "nat option"
  rc_paged_sequence_id :: int
  rc_paged_write_pos :: int

definition new_context :: "tensor list \<Rightarrow> 'f runtime_context" where
  "new_context ts = \<lparr>rc_tensors = ts, rc_bindings = Map.empty, rc_owned = [], rc_arenas = [], rc_kv_cache = None,
     rc_advance_tokens = 0, rc_paged = None, rc_paged_sequence_id = 0, rc_paged_write_pos = -1\<rparr>"

section \<open>Bindings\<close>

definition rc_bind :: "value_id \<Rightarrow> tensor_ref option \<Rightarrow> 'f runtime_context \<Rightarrow> unit result \<times> 'f runtime_context" where
  "rc_bind i t rc = (case t of
     None \<Rightarrow> (Inl (invalid_argument (''cannot bind null Tensor to ValueId %'' @ nat_to_string i)), rc)
   | Some r \<Rightarrow> (make_ok, rc\<lparr>rc_bindings := (rc_bindings rc)(i \<mapsto> r)\<rparr>))"

text \<open>The new tensor of \<open>make_unique\<close> is owned by the context and bound.\<close>

definition own_tensor :: "value_id \<Rightarrow> tensor \<Rightarrow> 'f runtime_context \<Rightarrow> 'f runtime_context" where
  "own_tensor i t rc = rc\<lparr>rc_tensors := rc_tensors rc @ [t],
     rc_bindings := (rc_bindings rc)(i \<mapsto> length (rc_tensors rc)), rc_owned := rc_owned rc @ [length (rc_tensors rc)]\<rparr>"

definition rc_emplace :: "value_id \<Rightarrow> tensor option \<Rightarrow> 'f runtime_context \<Rightarrow> unit result \<times> 'f runtime_context" where
  "rc_emplace i t rc = (case t of
     None \<Rightarrow> (Inl (invalid_argument (''cannot emplace null Tensor for ValueId %'' @ nat_to_string i)), rc)
   | Some x \<Rightarrow> (make_ok, own_tensor i x rc))"

definition rc_get :: "value_id \<Rightarrow> 'f runtime_context \<Rightarrow> tensor_ref option" where
  "rc_get i rc = rc_bindings rc i"

section \<open>One tensor per value\<close>

definition allocate_owned_tensor :: "graph_value \<Rightarrow> tensor result" where
  "allocate_owned_tensor v =
     (if has_dynamic_dim (v_shape v) then
        Inl (invalid_argument (''cannot allocate intermediate with dynamic shape: '' @ v_name v @ '' '' @
          shape_to_string (v_shape v)))
      else
        let t = new_tensor (v_name v) (v_shape v) (v_dtype v) (v_device v);
            (st, t') = (if dev_type (v_device v) = CUDA then allocate_cuda t else allocate_cpu t)
        in rbind st (\<lambda>_. Inr t'))"

fun allocate_values :: "graph_value list \<Rightarrow> 'f runtime_context \<Rightarrow> unit result \<times> 'f runtime_context" where
  "allocate_values [] rc = (make_ok, rc)"
| "allocate_values (v # vs) rc =
     (if v_kind v = KInput \<or> v_kind v = KConstant then allocate_values vs rc
      else if rc_bindings rc (v_id v) \<noteq> None then allocate_values vs rc
      else case allocate_owned_tensor v of
        Inl e \<Rightarrow> (Inl e, rc)
      | Inr t \<Rightarrow> allocate_values vs (own_tensor (v_id v) t rc))"

definition allocate_intermediates :: "'d graph \<Rightarrow> 'f runtime_context \<Rightarrow> unit result \<times> 'f runtime_context" where
  "allocate_intermediates g rc = allocate_values (g_values g) rc"

section \<open>Arenas\<close>

definition align_pointer :: "nat \<Rightarrow> nat \<Rightarrow> nat" where
  "align_pointer p a = (if a = 0 then p
     else if p mod a = 0 then p else wrap64 (p + (a - p mod a)))"

text \<open>The buffers of every arena, by index, and the largest arena index.\<close>

fun group_buffers ::
  "nat \<Rightarrow> memory_buffer list \<Rightarrow> (nat \<times> nat list) list \<times> nat \<Rightarrow> ((nat \<times> nat list) list \<times> nat) result"
where
  "group_buffers bi [] s = Inr s"
| "group_buffers bi (b # bs) (m, mx) =
     (if mb_arena b = no_buffer then
        Inl (runtime_error (''buffer has no arena assignment: #'' @ nat_to_string (mb_id b)))
      else group_buffers (Suc bi) bs
        (AList.map_default (mb_arena b) [bi] (\<lambda>is. is @ [bi]) m, max mx (mb_arena b)))"

record arena_table =
  at_bases :: "nat option list"
  at_totals :: "nat list"
  at_devices :: "device_type list"

definition arena_total :: "memory_buffer list \<Rightarrow> nat list \<Rightarrow> nat" where
  "arena_total bufs is = foldl (\<lambda>n i. max n (wrap64 (mb_offset (bufs ! i) + mb_bytes (bufs ! i)))) 0 is"

text \<open>\<open>heap blocks n\<close> is where \<open>new\<close> places \<open>n\<close> bytes beside the given blocks, \<open>None\<close> if it throws.\<close>

fun allocate_arenas ::
  "((nat \<times> nat) list \<Rightarrow> nat \<Rightarrow> nat option) \<Rightarrow> nat \<Rightarrow> memory_buffer list \<Rightarrow> (nat \<times> nat list) list \<Rightarrow> arena_table
   \<Rightarrow> 'f runtime_context \<Rightarrow> arena_table result \<times> 'f runtime_context"
where
  "allocate_arenas heap a bufs [] tab rc = (Inr tab, rc)"
| "allocate_arenas heap a bufs ((idx, is) # rest) tab rc =
     (let dt = dev_type (mb_device (bufs ! hd is)); total = arena_total bufs is in
      if size_max - a < total then (Inl (out_of_range ''arena allocation size overflow''), rc)
      else if dt = CUDA then (Inl (unsupported ''CUDA arena allocation requires CUDA support''), rc)
      else case heap (map ca_storage (rc_arenas rc)) (total + a) of
        None \<Rightarrow> (Inl (Thrown ''std::bad_alloc''), rc)
      | Some p \<Rightarrow>
          let base = align_pointer p a in
          allocate_arenas heap a bufs rest
            (tab\<lparr>at_bases := (at_bases tab)[idx := Some base], at_totals := (at_totals tab)[idx := total],
                 at_devices := (at_devices tab)[idx := dt]\<rparr>)
            (rc\<lparr>rc_arenas := rc_arenas rc @ [\<lparr>ca_storage = (p, total + a), ca_data = base, ca_bytes = total\<rparr>]\<rparr>))"

definition buffer_data :: "arena_table \<Rightarrow> memory_buffer \<Rightarrow> nat option" where
  "buffer_data tab b = map_option (\<lambda>p. p + mb_offset b) (at_bases tab ! mb_arena b)"

definition buffer_avail :: "arena_table \<Rightarrow> memory_buffer \<Rightarrow> nat" where
  "buffer_avail tab b = wrap64 (at_totals tab ! mb_arena b + (2 ^ 64 - mb_offset b))"

section \<open>Binding a plan\<close>

fun bind_ranges ::
  "'d graph \<Rightarrow> memory_buffer list \<Rightarrow> arena_table \<Rightarrow> live_range list \<Rightarrow> 'f runtime_context
   \<Rightarrow> unit result \<times> 'f runtime_context"
where
  "bind_ranges g bufs tab [] rc = (make_ok, rc)"
| "bind_ranges g bufs tab (r # rs) rc =
     (if \<not> lr_eligible r \<or> lr_buffer r = no_buffer then bind_ranges g bufs tab rs rc
      else if length bufs \<le> lr_buffer r \<or> buffer_data tab (bufs ! lr_buffer r) = None then
        (Inl (out_of_range (''memory plan range references missing buffer for '' @ lr_name r)), rc)
      else if rc_bindings rc (lr_value r) \<noteq> None then bind_ranges g bufs tab rs rc
      else case g_value (lr_value r) g of
        Inl e \<Rightarrow> (Inl e, rc)
      | Inr v \<Rightarrow>
          let b = bufs ! lr_buffer r;
              t = new_tensor (v_name v) (v_shape v) (v_dtype v) (v_device v);
              (st, t') = (if at_devices tab ! mb_arena b = CUDA
                 then bind_cuda_data (buffer_data tab b) (buffer_avail tab b) t
                 else bind_cpu_data (buffer_data tab b) (buffer_avail tab b) t)
          in case st of Inl e \<Rightarrow> (Inl e, rc)
             | Inr _ \<Rightarrow> bind_ranges g bufs tab rs (own_tensor (lr_value r) t' rc))"

definition plan_alignment :: "memory_plan \<Rightarrow> nat" where
  "plan_alignment p = (if mp_alignment p = 0 then 64 else mp_alignment p)"

definition allocate_intermediates_with_plan ::
  "((nat \<times> nat) list \<Rightarrow> nat \<Rightarrow> nat option) \<Rightarrow> ((nat \<times> nat list) list \<Rightarrow> (nat \<times> nat list) list)
   \<Rightarrow> 'd graph \<Rightarrow> memory_plan \<Rightarrow> 'f runtime_context \<Rightarrow> unit result \<times> 'f runtime_context"
where
  "allocate_intermediates_with_plan heap map_order g p rc =
     (case group_buffers 0 (mp_buffers p) ([], 0) of
        Inl e \<Rightarrow> (Inl e, rc)
      | Inr (groups, mx) \<Rightarrow>
          sbind (allocate_arenas heap (plan_alignment p) (mp_buffers p) (map_order groups)
              \<lparr>at_bases = replicate (mx + 1) None, at_totals = replicate (mx + 1) 0,
               at_devices = replicate (mx + 1) CPU\<rparr> rc) (\<lambda>tab rc1.
            sbind (bind_ranges g (mp_buffers p) tab (mp_ranges p) rc1) (\<lambda>_ rc2. allocate_values (g_values g) rc2)))"

definition allocate_intermediates_planned ::
  "((nat \<Rightarrow> nat \<Rightarrow> bool) \<Rightarrow> nat list \<Rightarrow> nat list) \<Rightarrow> ((nat \<times> nat) list \<Rightarrow> nat \<Rightarrow> nat option)
   \<Rightarrow> ((nat \<times> nat list) list \<Rightarrow> (nat \<times> nat list) list) \<Rightarrow> 'd graph \<Rightarrow> plan_options \<Rightarrow> 'f runtime_context
   \<Rightarrow> memory_plan result \<times> 'f runtime_context"
where
  "allocate_intermediates_planned std_sort heap map_order g opt rc =
     (case make_plan std_sort opt g of
        Inl e \<Rightarrow> (Inl e, rc)
      | Inr p \<Rightarrow> sbind (allocate_intermediates_with_plan heap map_order g p rc) (\<lambda>_ rc'. (Inr p, rc')))"

section \<open>The KV cache of a run\<close>

definition advance_kv_cache_step :: "'f runtime_context \<Rightarrow> unit result \<times> 'f runtime_context" where
  "advance_kv_cache_step rc =
     (let reset = (\<lambda>rc. rc\<lparr>rc_paged_write_pos := -1\<rparr>) in
      if rc_advance_tokens rc \<le> 0 then (make_ok, reset rc)
      else case rc_kv_cache rc of
        None \<Rightarrow> (Inl (runtime_error ''cannot advance an uninitialized KV cache''), reset rc)
      | Some c \<Rightarrow>
          if \<not> kv_initialized c then (Inl (runtime_error ''cannot advance an uninitialized KV cache''), reset rc)
          else if \<not> can_append (rc_advance_tokens rc) c then
            (Inl (out_of_range ''KV cache does not have enough space to advance''), reset rc)
          else case kv_advance (rc_advance_tokens rc) c of
            (Inl e, c') \<Rightarrow> (Inl e, rc\<lparr>rc_kv_cache := Some c'\<rparr>)
          | (Inr _, c') \<Rightarrow> (make_ok, reset (rc\<lparr>rc_kv_cache := Some c'\<rparr>)))"

end
