(* ===== verification/Executor.thy ===== *)
theory Executor
  imports Runtime_Context Graph_Order
begin

text \<open>
  \<open>KernelRegistry\<close>, \<open>Backend\<close> and \<open>CpuExecutor\<close> (include/minillm/runtime and src/runtime: kernel_registry,
  backend, executor). A kernel is a function on a node and the state it runs in, the runtime context and the
  memory \<open>'m\<close> behind its tensors. The executor holds its graph by reference, so \<open>run\<close> takes the graph that
  \<open>compile\<close> was given.
\<close>

type_synonym ('d, 'f, 'm) kernel = "'d graph_node \<Rightarrow> 'f runtime_context \<times> 'm \<Rightarrow> unit result \<times> 'f runtime_context \<times> 'm"

section \<open>Registry and backend\<close>

type_synonym ('d, 'f, 'm) kernel_registry = "device_type \<times> op_type \<Rightarrow> ('d, 'f, 'm) kernel option"

definition register_kernel ::
  "device_type \<Rightarrow> op_type \<Rightarrow> ('d, 'f, 'm) kernel \<Rightarrow> ('d, 'f, 'm) kernel_registry \<Rightarrow> ('d, 'f, 'm) kernel_registry"
where
  "register_kernel d op fn reg = reg((d, op) \<mapsto> fn)"

definition find_kernel :: "device_type \<Rightarrow> op_type \<Rightarrow> ('d, 'f, 'm) kernel_registry \<Rightarrow> ('d, 'f, 'm) kernel result" where
  "find_kernel d op reg = (case reg (d, op) of
     Some fn \<Rightarrow> Inr fn
   | None \<Rightarrow> Inl (not_implemented (''no kernel registered for op '' @ op_type_name op)))"

definition has_kernel :: "device_type \<Rightarrow> op_type \<Rightarrow> ('d, 'f, 'm) kernel_registry \<Rightarrow> bool" where
  "has_kernel d op reg \<longleftrightarrow> reg (d, op) \<noteq> None"

record backend =
  be_device_type :: device_type
  be_name :: string

fun backend_supports :: "backend \<Rightarrow> op_type \<Rightarrow> bool" where
  "backend_supports be OpEmbedding = True"
| "backend_supports be OpMatMul = True"
| "backend_supports be OpLinear = True"
| "backend_supports be OpAdd = True"
| "backend_supports be OpMul = True"
| "backend_supports be OpRMSNorm = True"
| "backend_supports be OpSiLU = True"
| "backend_supports be OpSwiGLU = True"
| "backend_supports be OpRoPE = True"
| "backend_supports be OpAttention = True"
| "backend_supports be OpQKNorm = True"
| "backend_supports be OpSoftmax = True"
| "backend_supports be OpReshape = True"
| "backend_supports be OpTranspose = True"
| "backend_supports be OpOutput = True"
| "backend_supports be _ = False"

section \<open>The executor\<close>

record executor =
  ex_compiled :: bool
  ex_order :: "node_id list"

definition new_executor :: executor where
  "new_executor = \<lparr>ex_compiled = False, ex_order = []\<rparr>"

fun check_order ::
  "backend \<Rightarrow> ('d, 'f, 'm) kernel_registry \<Rightarrow> 'd graph \<Rightarrow> node_id list \<Rightarrow> unit result"
where
  "check_order be reg g [] = make_ok"
| "check_order be reg g (i # is) = rbind (g_node i g) (\<lambda>nd.
     let op = n_op_type nd in
     if op = OpInput \<or> op = OpConstant \<or> op = OpOutput then check_order be reg g is
     else if \<not> backend_supports be op then
       Inl (unsupported (''backend '' @ be_name be @ '' does not support op '' @ op_type_name op))
     else if \<not> has_kernel CPU op reg then
       Inl (not_implemented (''no kernel registered for op '' @ op_type_name op))
     else check_order be reg g is)"

definition compile_graph ::
  "backend \<Rightarrow> ('d, 'f, 'm) kernel_registry \<Rightarrow> 'd graph \<Rightarrow> executor \<Rightarrow> unit result \<times> executor"
where
  "compile_graph be reg g ex =
     (case rbind (validate g) (\<lambda>_. rbind (topological_sort g) (\<lambda>order.
         rbind (check_order be reg g order) (\<lambda>_. Inr order))) of
        Inl e \<Rightarrow> (Inl e, ex)
      | Inr order \<Rightarrow> (make_ok, ex\<lparr>ex_compiled := True, ex_order := order\<rparr>))"

text \<open>A failing status is wrapped; an exception passes through.\<close>

definition wrap_status :: "string \<Rightarrow> failure \<Rightarrow> failure" where
  "wrap_status msg e = (if is_status e then runtime_error (msg @ status_to_string e) else e)"

definition kernel_failure :: "op_type \<Rightarrow> node_id \<Rightarrow> string \<Rightarrow> string" where
  "kernel_failure op i nm = ''kernel '' @ op_type_name op @ '' failed for node #'' @ nat_to_string i @ '' ('' @ nm @ ''): ''"

fun run_nodes ::
  "('d, 'f, 'm) kernel_registry \<Rightarrow> 'd graph \<Rightarrow> node_id list \<Rightarrow> 'f runtime_context \<times> 'm
   \<Rightarrow> unit result \<times> 'f runtime_context \<times> 'm"
where
  "run_nodes reg g [] st = (make_ok, st)"
| "run_nodes reg g (i # is) st = (case g_node i g of
     Inl e \<Rightarrow> (Inl e, st)
   | Inr nd \<Rightarrow>
       let op = n_op_type nd in
       if op = OpInput \<or> op = OpConstant \<or> op = OpOutput then run_nodes reg g is st
       else case find_kernel CPU op reg of
         Inl e \<Rightarrow> (Inl e, st)
       | Inr fn \<Rightarrow> (case fn nd st of
           (Inl e, st') \<Rightarrow> (Inl (wrap_status (kernel_failure op i (n_name nd)) e), st')
         | (Inr _, st') \<Rightarrow> run_nodes reg g is st'))"

definition run_graph ::
  "('d, 'f, 'm) kernel_registry \<Rightarrow> 'd graph \<Rightarrow> executor \<Rightarrow> 'f runtime_context \<times> 'm
   \<Rightarrow> unit result \<times> 'f runtime_context \<times> 'm"
where
  "run_graph reg g ex st =
     (if \<not> ex_compiled ex then (Inl (runtime_error ''executor not compiled''), st)
      else sbind (run_nodes reg g (ex_order ex) st) (\<lambda>_ (rc, m).
        case advance_kv_cache_step rc of
          (Inl e, rc') \<Rightarrow> (Inl (wrap_status ''KV cache advance failed: '' e), rc', m)
        | (Inr _, rc') \<Rightarrow> (make_ok, rc', m)))"

section \<open>What a run does\<close>

text \<open>The nodes that compute, and their kernels one after the other.\<close>

definition computes :: "'d graph \<Rightarrow> node_id \<Rightarrow> bool" where
  "computes g i \<longleftrightarrow> n_op_type (g_nodes g ! i) \<notin> {OpInput, OpConstant, OpOutput}"

fun run_kernels ::
  "(node_id \<Rightarrow> 's \<Rightarrow> unit result \<times> 's) \<Rightarrow> node_id list \<Rightarrow> 's \<Rightarrow> (node_id \<times> failure) option \<times> 's"
where
  "run_kernels k [] s = (None, s)"
| "run_kernels k (i # is) s = (case k i s of (Inl e, s') \<Rightarrow> (Some (i, e), s') | (Inr _, s') \<Rightarrow> run_kernels k is s')"

definition kernel_of :: "('d, 'f, 'm) kernel_registry \<Rightarrow> 'd graph \<Rightarrow> node_id \<Rightarrow> ('d, 'f, 'm) kernel" where
  "kernel_of reg g i = the (reg (CPU, n_op_type (g_nodes g ! i)))"

lemma check_order_ok:
  "check_order be reg g is = make_ok \<Longrightarrow> i \<in> set is \<Longrightarrow> i < length (g_nodes g) \<and> (computes g i \<longrightarrow>
     backend_supports be (n_op_type (g_nodes g ! i)) \<and> reg (CPU, n_op_type (g_nodes g ! i)) \<noteq> None)"
proof (induction "is")
  case (Cons j "is")
  then show ?case
    by (auto simp: rbind_Inr_iff g_node_def computes_def has_kernel_def Let_def split: if_splits)
qed simp

lemma run_nodes_kernels:
  assumes "\<forall>i \<in> set is. i < length (g_nodes g) \<and> (computes g i \<longrightarrow> reg (CPU, n_op_type (g_nodes g ! i)) \<noteq> None)"
  shows "run_nodes reg g is st = (case run_kernels (\<lambda>i. kernel_of reg g i (g_nodes g ! i)) (filter (computes g) is) st of
      (None, st') \<Rightarrow> (make_ok, st')
    | (Some (i, e), st') \<Rightarrow>
        (Inl (wrap_status (kernel_failure (n_op_type (g_nodes g ! i)) i (n_name (g_nodes g ! i))) e), st'))"
  using assms
proof (induction "is" arbitrary: st)
  case (Cons i "is")
  then have i: "i < length (g_nodes g)" by simp
  show ?case
  proof (cases "computes g i")
    case True
    then obtain fn where "reg (CPU, n_op_type (g_nodes g ! i)) = Some fn" using Cons.prems by auto
    with True i Cons show ?thesis
      by (auto simp: g_node_def computes_def find_kernel_def kernel_of_def Let_def split: prod.splits sum.splits)
  next
    case False
    with i Cons show ?thesis by (auto simp: g_node_def computes_def Let_def)
  qed
qed simp

section \<open>The properties\<close>

definition ready_nodes :: "backend \<Rightarrow> ('d, 'f, 'm) kernel_registry \<Rightarrow> 'd graph \<Rightarrow> node_id list \<Rightarrow> bool" where
  "ready_nodes be reg g is \<longleftrightarrow> list_all (\<lambda>i. backend_supports be (n_op_type (g_nodes g ! i))
     \<and> has_kernel CPU (n_op_type (g_nodes g ! i)) reg) (filter (computes g) is)"

lemma check_order_iff:
  assumes "\<forall>i \<in> set is. i < length (g_nodes g)"
  shows "isOK (check_order be reg g is) \<longleftrightarrow> ready_nodes be reg g is"
  using assms
  by (induction "is") (auto simp: g_node_def computes_def has_kernel_def ready_nodes_def Let_def)

lemma ready_nodes_set: "set is = set js \<Longrightarrow> ready_nodes be reg g is = ready_nodes be reg g js"
  by (simp add: ready_nodes_def list_all_iff)

lemma compile_graph_cases:
  "(case compile_graph be reg g ex of
      (Inl e, ex') \<Rightarrow> ex' = ex \<and> (isOK (validate g) \<and> acyclic (depends_on g) \<longrightarrow> \<not> ready_nodes be reg g [0..<length (g_nodes g)])
    | (Inr _, ex') \<Rightarrow> ex_compiled ex' \<and> topological_sort g = Inr (ex_order ex') \<and> ready_nodes be reg g (ex_order ex')
        \<and> isOK (validate g) \<and> acyclic (depends_on g))"
proof (cases "topological_sort g")
  case (Inl e)
  then have no: "\<not> (isOK (validate g) \<and> acyclic (depends_on g))" using topological_sort_acyclic [of g] by auto
  with Inl show ?thesis by (auto simp: compile_graph_def split: sum.splits)
next
  case (Inr order)
  have valid: "isOK (validate g)" using Inr topological_sort_invalid [of g] by (cases "validate g") auto
  have acyc: "acyclic (depends_on g)" using Inr topological_sort_cyclic [OF valid] by auto
  note order = topological_sort_InrD [OF Inr]
  have iff: "isOK (check_order be reg g order) \<longleftrightarrow> ready_nodes be reg g order"
    using check_order_iff [of order g be reg] order(2) by simp
  have "ready_nodes be reg g order = ready_nodes be reg g [0..<length (g_nodes g)]"
    by (rule ready_nodes_set) (simp add: order(2) atLeast0LessThan)
  with iff Inr valid acyc show ?thesis
    by (cases "check_order be reg g order") (auto simp: compile_graph_def isOK_iff)
qed

lemma compile_graph_ok:
  assumes "compile_graph be reg g ex = (make_ok, ex')"
  shows "ex_compiled ex'" "topological_sort g = Inr (ex_order ex')" "ready_nodes be reg g (ex_order ex')"
    "isOK (validate g)" "acyclic (depends_on g)"
  using compile_graph_cases [where be = be and reg = reg and g = g and ex = ex] assms by auto

lemma compiled_run:
  assumes "compile_graph be reg g ex = (make_ok, ex')"
  shows "run_graph reg g ex' st = (case run_kernels (\<lambda>i. kernel_of reg g i (g_nodes g ! i)) (filter (computes g) (ex_order ex')) st of
      (Some (i, e), st') \<Rightarrow>
        (Inl (wrap_status (kernel_failure (n_op_type (g_nodes g ! i)) i (n_name (g_nodes g ! i))) e), st')
    | (None, rc, m) \<Rightarrow> (case advance_kv_cache_step rc of
        (Inl e, rc') \<Rightarrow> (Inl (wrap_status ''KV cache advance failed: '' e), rc', m)
      | (Inr _, rc') \<Rightarrow> (make_ok, rc', m)))"
proof -
  note ok = compile_graph_ok [OF assms]
  have "\<forall>i \<in> set (ex_order ex'). i < length (g_nodes g) \<and> (computes g i \<longrightarrow> reg (CPU, n_op_type (g_nodes g ! i)) \<noteq> None)"
    using ok(3) topological_sort_InrD(2) [OF ok(2)] by (auto simp: ready_nodes_def list_all_iff has_kernel_def)
  from run_nodes_kernels [OF this, of st] ok(1) show ?thesis
    by (simp add: run_graph_def sbind_def split: prod.splits option.splits)
qed

text \<open>C17. \<open>compile\<close> succeeds exactly on the valid acyclic graphs all of whose computing nodes (those that are not
  inputs, constants or outputs) have an operation the backend supports and a registered kernel. Then the
  executor is compiled for the topological order of the graph; otherwise it stays as it was.\<close>

theorem compile_accepts_exactly_runnable_graphs:
  "(let (st, ex') = compile_graph be reg g ex in
     isOK st = (isOK (validate g) \<and> acyclic (depends_on g) \<and> ready_nodes be reg g [0..<length (g_nodes g)])
   \<and> (if isOK st then ex_compiled ex' \<and> topological_sort g = Inr (ex_order ex') else ex' = ex))"
proof -
  obtain st ex' where c: "compile_graph be reg g ex = (st, ex')" by fastforce
  have "ready_nodes be reg g [0..<length (g_nodes g)]" if "topological_sort g = Inr order" "ready_nodes be reg g order" for order
    using ready_nodes_set [of order "[0..<length (g_nodes g)]" be reg g] topological_sort_InrD(2) [OF that(1)] that(2)
    by (simp add: atLeast0LessThan)
  then show ?thesis using compile_graph_cases [where be = be and reg = reg and g = g and ex = ex] c by (auto split: sum.splits)
qed

text \<open>C18. A compiled executor runs, in topological order, exactly the kernels of the computing nodes, each on the state
  the one before left. The first failure stops the run and is reported with the operation, number and name
  of its node; after the last kernel the KV cache advances once, and only then.\<close>

theorem compiled_run_executes_kernels_in_order:
  assumes "compile_graph be reg g ex = (make_ok, ex')"
  shows "topological_sort g = Inr (ex_order ex')
    \<and> run_graph reg g ex' st = (case run_kernels (\<lambda>i. kernel_of reg g i (g_nodes g ! i)) (filter (computes g) (ex_order ex')) st of
      (Some (i, e), st') \<Rightarrow>
        (Inl (wrap_status (kernel_failure (n_op_type (g_nodes g ! i)) i (n_name (g_nodes g ! i))) e), st')
    | (None, rc, m) \<Rightarrow> (case advance_kv_cache_step rc of
        (Inl e, rc') \<Rightarrow> (Inl (wrap_status ''KV cache advance failed: '' e), rc', m)
      | (Inr _, rc') \<Rightarrow> (make_ok, rc', m)))"
  using compile_graph_ok(2) [OF assms] compiled_run [OF assms, of st] by simp

definition cpu_backend :: backend where
  "cpu_backend = \<lparr>be_device_type = CPU, be_name = ''CPU''\<rparr>"

definition count_registry :: "(nat, nat, nat) kernel_registry" where
  "count_registry = register_kernel CPU OpSiLU (\<lambda>nd (rc, m). if m < 2 then (make_ok, rc, Suc m)
     else (Inl (runtime_error ''full''), rc, m)) Map.empty"

definition silu_chain :: "nat graph" where
  "silu_chain = \<lparr>g_values = map (\<lambda>i. \<lparr>v_id = i, v_name = ''v'', v_shape = Shape [4], v_dtype = Float32, v_device = device_cpu,
       v_kind = (if i = 0 then KInput else KIntermediate)\<rparr>) [0, 1, 2, 3],
     g_nodes = [make_node 0 OpSiLU ''a'' [0] [1], make_node 1 OpSiLU ''b'' [1] [2], make_node 2 OpSiLU ''c'' [2] [3]]\<rparr>"

lemma silu_chain_compiles:
  "compile_graph cpu_backend count_registry silu_chain new_executor = (make_ok, \<lparr>ex_compiled = True, ex_order = [0, 1, 2]\<rparr>)"
  by (simp add: compile_graph_def silu_chain_def topological_sort_def validate_def make_node_def value_producer_def Let_def
      eval_nat_numeral g_node_def count_registry_def register_kernel_def has_kernel_def new_executor_def)

lemma two_as_string: "nat_to_string (Suc (Suc 0)) = ''2''"
  by code_simp

theorem compiled_run_executes_kernels_in_order_witness:
  "run_graph count_registry silu_chain \<lparr>ex_compiled = True, ex_order = [0, 1, 2]\<rparr> (new_context [], 0)
     = (Inl (runtime_error ''kernel SiLU failed for node #2 (c): RuntimeError: full''), new_context [], 2)"
  unfolding conjunct2 [OF compiled_run_executes_kernels_in_order [OF silu_chain_compiles, of "(new_context [], 0)"]]
  by (simp add: silu_chain_def computes_def make_node_def kernel_of_def count_registry_def register_kernel_def eval_nat_numeral
      wrap_status_def kernel_failure_def runtime_error_def two_as_string)

end
