(* ===== verification/Memory_Reuse.thy ===== *)
theory Memory_Reuse
  imports Memory_Planner
begin

text \<open>
  The loop that assigns buffers: what the pools and the set of live buffers hold, and that two ranges
  share a buffer only when one is over before the other starts. Nothing here depends on how
  \<open>std::sort\<close> orders equivalent ranges.
\<close>

section \<open>The pools\<close>

text \<open>Between two ranges, at time \<open>now\<close>: every buffer is live or in the pool of its key, once.\<close>

definition pools_ok :: "memory_buffer list \<Rightarrow> nat \<Rightarrow> free_pools \<Rightarrow> (nat \<times> nat) list \<Rightarrow> bool" where
  "pools_ok bufs now pools live \<longleftrightarrow>
     (\<forall>k. sorted (pools k) \<and> distinct (map snd (pools k))
        \<and> (\<forall>n b. (n, b) \<in> set (pools k) \<longrightarrow> b < length bufs \<and> n = mb_bytes (bufs ! b) \<and> k = buffer_key (bufs ! b)
             \<and> mb_last_use (bufs ! b) < now))
     \<and> sorted live \<and> distinct (map snd live)
     \<and> (\<forall>u b. (u, b) \<in> set live \<longrightarrow> b < length bufs \<and> u = mb_last_use (bufs ! b)
          \<and> b \<notin> snd ` set (pools (buffer_key (bufs ! b))))
     \<and> (\<forall>b < length bufs. b \<in> snd ` set live \<or> b \<in> snd ` set (pools (buffer_key (bufs ! b))))"

lemma pools_okD:
  assumes "pools_ok bufs now pools live"
  shows "(n, b) \<in> set (pools k) \<Longrightarrow> b < length bufs \<and> n = mb_bytes (bufs ! b) \<and> k = buffer_key (bufs ! b)
      \<and> mb_last_use (bufs ! b) < now"
    "(u, b) \<in> set live \<Longrightarrow> b < length bufs \<and> u = mb_last_use (bufs ! b)
      \<and> b \<notin> snd ` set (pools (buffer_key (bufs ! b)))"
    "distinct (map snd (pools k))" "sorted (pools k)" "sorted live" "distinct (map snd live)"
    "b < length bufs \<Longrightarrow> b \<in> snd ` set live \<or> b \<in> snd ` set (pools (buffer_key (bufs ! b)))"
  using assms unfolding pools_ok_def by blast+

lemma pools_okI:
  assumes "\<And>k. sorted (pools k)" "\<And>k. distinct (map snd (pools k))"
    and "\<And>k n b. (n, b) \<in> set (pools k) \<Longrightarrow> b < length bufs \<and> n = mb_bytes (bufs ! b) \<and> k = buffer_key (bufs ! b)
      \<and> mb_last_use (bufs ! b) < now"
    and "sorted live" "distinct (map snd live)"
    and "\<And>u b. (u, b) \<in> set live \<Longrightarrow> b < length bufs \<and> u = mb_last_use (bufs ! b)
      \<and> b \<notin> snd ` set (pools (buffer_key (bufs ! b)))"
    and "\<And>b. b < length bufs \<Longrightarrow> b \<in> snd ` set live \<or> b \<in> snd ` set (pools (buffer_key (bufs ! b)))"
  shows "pools_ok bufs now pools live"
  using assms unfolding pools_ok_def by blast

lemma pools_ok_later:
  assumes "pools_ok bufs t pools live" and "t \<le> now"
  shows "pools_ok bufs now pools live"
proof (rule pools_okI)
  show "b < length bufs \<and> n = mb_bytes (bufs ! b) \<and> k = buffer_key (bufs ! b) \<and> mb_last_use (bufs ! b) < now"
    if "(n, b) \<in> set (pools k)" for k n b
    using pools_okD(1) [OF assms(1) that] assms(2) by simp
qed (use pools_okD [OF assms(1)] in blast)+

lemma distinct_insort_snd: "distinct (map snd (insort e es)) \<longleftrightarrow> snd e \<notin> snd ` set es \<and> distinct (map snd es)"
  by (induction es) (auto simp: set_insort_key)

lemma retire_one:
  assumes "pools_ok bufs now pools ((u, b) # live)" and "u < now"
  shows "pools_ok bufs now (pools(buffer_key (bufs ! b) := insort (mb_bytes (bufs ! b), b) (pools (buffer_key (bufs ! b))))) live"
proof -
  note ok = pools_okD [OF assms(1)]
  have b: "b < length bufs" "u = mb_last_use (bufs ! b)" "b \<notin> snd ` set (pools (buffer_key (bufs ! b)))"
    using ok(2) [of u b] by auto
  have new: "b \<notin> snd ` set live" using ok(6) by simp
  show ?thesis
  proof (rule pools_okI)
    fix k n b'
    assume "(n, b') \<in> set ((pools(buffer_key (bufs ! b) := insort (mb_bytes (bufs ! b), b)
      (pools (buffer_key (bufs ! b))))) k)"
    then show "b' < length bufs \<and> n = mb_bytes (bufs ! b') \<and> k = buffer_key (bufs ! b') \<and> mb_last_use (bufs ! b') < now"
      using ok(1) [of n b' k] b assms(2) by (auto simp: set_insort_key split: if_splits)
  next
    fix u' b' assume "(u', b') \<in> set live"
    then show "b' < length bufs \<and> u' = mb_last_use (bufs ! b') \<and> b' \<notin> snd ` set ((pools(buffer_key (bufs ! b) :=
      insort (mb_bytes (bufs ! b), b) (pools (buffer_key (bufs ! b))))) (buffer_key (bufs ! b')))"
      using ok(2) [of u' b'] new by (force simp: set_insort_key split: if_splits)
  next
    fix b' assume "b' < length bufs"
    from ok(7) [OF this] show "b' \<in> snd ` set live \<or> b' \<in> snd ` set ((pools(buffer_key (bufs ! b) :=
      insort (mb_bytes (bufs ! b), b) (pools (buffer_key (bufs ! b))))) (buffer_key (bufs ! b')))"
      by (auto simp: set_insort_key)
  qed (use ok(3-6) b(3) in \<open>auto simp: sorted_insort distinct_insort_snd\<close>)
qed

lemma retire_ok:
  assumes "pools_ok bufs now pools live" and "retire now bufs live pools = (live', pools')"
  shows "pools_ok bufs now pools' live' \<and> (\<forall>(u, b) \<in> set live'. now \<le> u)"
  using assms
proof (induction now bufs live pools rule: retire.induct)
  case (2 now bufs u b live pools)
  show ?case
  proof (cases "u < now")
    case True
    from 2(3) True have "retire now bufs live (pools(buffer_key (bufs ! b) := insort (mb_bytes (bufs ! b), b)
        (pools (buffer_key (bufs ! b))))) = (live', pools')" by (simp add: Let_def)
    from 2(1) [OF True refl retire_one [OF 2(2) True] this] show ?thesis .
  next
    case False
    moreover have "u \<le> fst e" if "e \<in> set live" for e
      using pools_okD(5) [OF 2(2)] that by (auto simp: less_eq_prod_def)
    ultimately show ?thesis using 2 by fastforce
  qed
qed simp

lemma lower_bound_Some:
  "lower_bound need es = Some (bi, rest) \<Longrightarrow>
   \<exists>pre n post. es = pre @ (n, bi) # post \<and> rest = pre @ post \<and> need \<le> n \<and> (\<forall>e \<in> set pre. fst e < need)"
proof (induction es arbitrary: rest)
  case (Cons e es)
  show ?case
  proof (cases "(need, 0) \<le> e")
    case True
    with Cons.prems show ?thesis by (intro exI [of _ "[]"]) (cases e, auto simp: less_eq_prod_def)
  next
    case False
    with Cons.prems obtain rest' where r: "lower_bound need es = Some (bi, rest')" "rest = e # rest'" by auto
    from Cons.IH [OF r(1)] obtain pre n post where
      "es = pre @ (n, bi) # post" "rest' = pre @ post" "need \<le> n" "\<forall>e \<in> set pre. fst e < need" by blast
    moreover have "fst e < need" using False by (cases e) (auto simp: less_eq_prod_def not_le)
    ultimately show ?thesis using r(2) by (intro exI [of _ "e # pre"] exI [of _ n] exI [of _ post]) auto
  qed
qed simp

lemma lower_bound_None: "lower_bound need es = None \<Longrightarrow> \<forall>e \<in> set es. fst e < need"
  by (induction es) (auto simp: less_eq_prod_def split: if_splits)

lemma pools_reuse:
  assumes "pools_ok bufs now pools live" and "pools k = pre @ (n, bi) # post"
    and "buffer_key b = buffer_key (bufs ! bi)" and "mb_bytes b = mb_bytes (bufs ! bi)"
  shows "pools_ok (bufs[bi := b]) now (pools(k := pre @ post)) (insort (mb_last_use b, bi) live)"
proof -
  note ok = pools_okD [OF assms(1)]
  have bi: "bi < length bufs" "k = buffer_key (bufs ! bi)" using ok(1) [of n bi k] assms(2) by auto
  have only: "bi \<notin> snd ` set (pre @ post)" using ok(3) [of k] assms(2) by auto
  have free: "b' \<noteq> bi" if "(n', b') \<in> set ((pools(k := pre @ post)) k')" for n' b' k'
    using that only ok(1) [of n' b' k'] bi(2) by (force split: if_splits)
  have notlive: "bi \<notin> snd ` set live"
  proof
    assume "bi \<in> snd ` set live"
    then obtain u where "(u, bi) \<in> set live" by auto
    from ok(2) [OF this] show False using assms(2) bi(2) by force
  qed
  show ?thesis
  proof (rule pools_okI)
    fix k' n' b'
    assume mem: "(n', b') \<in> set ((pools(k := pre @ post)) k')"
    then have "(n', b') \<in> set (pools k')" using assms(2) by (auto split: if_splits)
    from ok(1) [OF this] show "b' < length (bufs[bi := b]) \<and> n' = mb_bytes (bufs[bi := b] ! b')
      \<and> k' = buffer_key (bufs[bi := b] ! b') \<and> mb_last_use (bufs[bi := b] ! b') < now"
      using free [OF mem] by simp
  next
    fix u b' assume "(u, b') \<in> set (insort (mb_last_use b, bi) live)"
    then consider "u = mb_last_use b" "b' = bi" | "(u, b') \<in> set live" "b' \<noteq> bi"
      using notlive by (force simp: set_insort_key)
    then show "b' < length (bufs[bi := b]) \<and> u = mb_last_use (bufs[bi := b] ! b')
      \<and> b' \<notin> snd ` set ((pools(k := pre @ post)) (buffer_key (bufs[bi := b] ! b')))"
    proof cases
      case 1
      with bi only assms(3) show ?thesis by simp
    next
      case 2
      with ok(2) [OF 2(1)] assms(2) show ?thesis by auto
    qed
  next
    fix b' assume "b' < length (bufs[bi := b])"
    then have "b' < length bufs" by simp
    from ok(7) [OF this] show "b' \<in> snd ` set (insort (mb_last_use b, bi) live)
      \<or> b' \<in> snd ` set ((pools(k := pre @ post)) (buffer_key (bufs[bi := b] ! b')))"
      using assms(2) bi(2) by (cases "b' = bi") (auto simp: set_insort_key)
  next
    show "sorted ((pools(k := pre @ post)) k')" for k'
      using ok(4) [of k'] ok(4) [of k] assms(2) by (simp add: sorted_append)
    show "distinct (map snd ((pools(k := pre @ post)) k'))" for k'
      using ok(3) [of k'] ok(3) [of k] assms(2) by auto
  qed (use ok(5,6) notlive in \<open>simp_all add: sorted_insort distinct_insort_snd\<close>)
qed

lemma pools_new:
  assumes "pools_ok bufs now pools live"
  shows "pools_ok (bufs @ [b]) now pools (insort (mb_last_use b, length bufs) live)"
proof -
  note ok = pools_okD [OF assms]
  have free: "length bufs \<notin> snd ` set (pools k)" for k using ok(1) by fastforce
  have notlive: "length bufs \<notin> snd ` set live" using ok(2) by fastforce
  show ?thesis
  proof (rule pools_okI)
    fix k n b' assume "(n, b') \<in> set (pools k)"
    from ok(1) [OF this] show "b' < length (bufs @ [b]) \<and> n = mb_bytes ((bufs @ [b]) ! b')
      \<and> k = buffer_key ((bufs @ [b]) ! b') \<and> mb_last_use ((bufs @ [b]) ! b') < now" by simp
  next
    fix u b' assume "(u, b') \<in> set (insort (mb_last_use b, length bufs) live)"
    then consider "u = mb_last_use b" "b' = length bufs" | "(u, b') \<in> set live" by (auto simp: set_insort_key)
    then show "b' < length (bufs @ [b]) \<and> u = mb_last_use ((bufs @ [b]) ! b')
      \<and> b' \<notin> snd ` set (pools (buffer_key ((bufs @ [b]) ! b')))"
    proof cases
      case 2
      from ok(2) [OF this] show ?thesis by simp
    qed (use free in simp)
  next
    fix b' assume "b' < length (bufs @ [b])"
    then show "b' \<in> snd ` set (insort (mb_last_use b, length bufs) live)
      \<or> b' \<in> snd ` set (pools (buffer_key ((bufs @ [b]) ! b')))"
      using ok(7) [of b'] by (cases "b' < length bufs") (auto simp: set_insort_key less_Suc_eq)
  qed (use ok(3-6) notlive in \<open>simp_all add: sorted_insort distinct_insort_snd\<close>)
qed

section \<open>Ranges that share a buffer\<close>

definition apart :: "live_range \<Rightarrow> live_range \<Rightarrow> bool" where
  "apart r s \<longleftrightarrow> lr_last r < lr_first s \<or> lr_last s < lr_first r"

definition housed :: "memory_buffer list \<Rightarrow> live_range \<Rightarrow> nat \<Rightarrow> bool" where
  "housed bufs r b \<longleftrightarrow> b < length bufs \<and> lr_aligned r \<le> mb_bytes (bufs ! b) \<and> buffer_key (bufs ! b) = range_key r
     \<and> lr_last r \<le> mb_last_use (bufs ! b)"

text \<open>After the ranges \<open>placed\<close> of the list \<open>rs\<close>, the last of them starting at \<open>now\<close>.\<close>

definition reuse_inv :: "live_range list \<Rightarrow> nat list \<Rightarrow> nat \<Rightarrow> alloc_state \<Rightarrow> bool" where
  "reuse_inv rs placed now al \<longleftrightarrow>
     pools_ok (al_buffers al) now (al_pools al) (al_live al)
   \<and> length (al_ranges al) = length rs
   \<and> (\<forall>i < length rs. al_ranges al ! i =
        (if i \<in> set placed then (rs ! i)\<lparr>lr_buffer := lr_buffer (al_ranges al ! i)\<rparr> else rs ! i))
   \<and> (\<forall>b < length (al_buffers al). mb_id (al_buffers al ! b) = b)
   \<and> (\<forall>i \<in> set placed. housed (al_buffers al) (rs ! i) (lr_buffer (al_ranges al ! i)))
   \<and> (\<forall>i \<in> set placed. \<forall>j \<in> set placed. i \<noteq> j \<longrightarrow> lr_buffer (al_ranges al ! i) = lr_buffer (al_ranges al ! j)
        \<longrightarrow> apart (rs ! i) (rs ! j))
   \<and> sum_list (map mb_bytes (al_buffers al)) \<le> sum_list (map (\<lambda>i. lr_aligned (rs ! i)) placed)
   \<and> mb_bytes ` set (al_buffers al) \<subseteq> (\<lambda>i. lr_aligned (rs ! i)) ` set placed"

lemma reuse_invD:
  assumes "reuse_inv rs placed now al"
  shows "pools_ok (al_buffers al) now (al_pools al) (al_live al)" "length (al_ranges al) = length rs"
    "i < length rs \<Longrightarrow> i \<notin> set placed \<Longrightarrow> al_ranges al ! i = rs ! i"
    "i < length rs \<Longrightarrow> al_ranges al ! i = (rs ! i)\<lparr>lr_buffer := lr_buffer (al_ranges al ! i)\<rparr>"
    "b < length (al_buffers al) \<Longrightarrow> mb_id (al_buffers al ! b) = b"
    "i \<in> set placed \<Longrightarrow> housed (al_buffers al) (rs ! i) (lr_buffer (al_ranges al ! i))"
    "i \<in> set placed \<Longrightarrow> j \<in> set placed \<Longrightarrow> i \<noteq> j \<Longrightarrow> lr_buffer (al_ranges al ! i) = lr_buffer (al_ranges al ! j)
       \<Longrightarrow> apart (rs ! i) (rs ! j)"
    "sum_list (map mb_bytes (al_buffers al)) \<le> sum_list (map (\<lambda>i. lr_aligned (rs ! i)) placed)"
    "mb_bytes ` set (al_buffers al) \<subseteq> (\<lambda>i. lr_aligned (rs ! i)) ` set placed"
proof -
  show "al_ranges al ! i = (rs ! i)\<lparr>lr_buffer := lr_buffer (al_ranges al ! i)\<rparr>" if "i < length rs"
    using assms that unfolding reuse_inv_def by (cases "i \<in> set placed") auto
qed (use assms in \<open>unfold reuse_inv_def, auto\<close>)

text \<open>One range goes to buffer \<open>b\<close>, of whose earlier ranges all are over.\<close>

lemma reuse_add:
  assumes inv: "reuse_inv rs placed now al" and i: "i < length rs" "i \<notin> set placed"
    and pools: "pools_ok bufs (lr_first (rs ! i)) pools live"
    and ids: "\<And>b. b < length bufs \<Longrightarrow> mb_id (bufs ! b) = b"
    and new: "housed bufs (rs ! i) b"
    and old: "\<And>j. j \<in> set placed \<Longrightarrow> housed bufs (rs ! j) (lr_buffer (al_ranges al ! j))"
    and over: "\<And>j. j \<in> set placed \<Longrightarrow> lr_buffer (al_ranges al ! j) = b \<Longrightarrow> lr_last (rs ! j) < lr_first (rs ! i)"
    and bytes: "sum_list (map mb_bytes bufs) \<le> sum_list (map mb_bytes (al_buffers al)) + lr_aligned (rs ! i)"
    and sizes: "mb_bytes ` set bufs \<subseteq> insert (lr_aligned (rs ! i)) (mb_bytes ` set (al_buffers al))"
  shows "reuse_inv rs (placed @ [i]) (lr_first (rs ! i))
    \<lparr>al_ranges = (al_ranges al)[i := (rs ! i)\<lparr>lr_buffer := b\<rparr>], al_buffers = bufs, al_pools = pools, al_live = live\<rparr>"
proof -
  note ok = reuse_invD [OF inv]
  let ?rs = "(al_ranges al)[i := (rs ! i)\<lparr>lr_buffer := b\<rparr>]"
  have ri: "?rs ! i = (rs ! i)\<lparr>lr_buffer := b\<rparr>" using i(1) ok(2) by simp
  have rj: "?rs ! j = al_ranges al ! j" if "j \<noteq> i" for j using that by simp
  have inp: "j \<noteq> i" if "j \<in> set placed" for j using that i(2) by blast
  show ?thesis
    unfolding reuse_inv_def alloc_state.simps
  proof (intro conjI ballI allI impI)
    fix j assume "j < length rs"
    then show "?rs ! j = (if j \<in> set (placed @ [i]) then (rs ! j)\<lparr>lr_buffer := lr_buffer (?rs ! j)\<rparr> else rs ! j)"
      using ok(3,4) ri rj by (cases "j = i") auto
  next
    fix j assume "j \<in> set (placed @ [i])"
    then consider "j = i" | "j \<in> set placed" "j \<noteq> i" using inp by auto
    then show "housed bufs (rs ! j) (lr_buffer (?rs ! j))" using new old ri rj by cases simp_all
  next
    fix j k assume jk: "j \<in> set (placed @ [i])" "k \<in> set (placed @ [i])" "j \<noteq> k" "lr_buffer (?rs ! j) = lr_buffer (?rs ! k)"
    then consider "j = i" "k \<in> set placed" | "k = i" "j \<in> set placed" | "j \<in> set placed" "k \<in> set placed" by auto
    then show "apart (rs ! j) (rs ! k)"
      using jk(3,4) ok(7) [of j k] over ri rj inp by cases (auto simp: apart_def)
  next
    show "mb_bytes ` set bufs \<subseteq> (\<lambda>i. lr_aligned (rs ! i)) ` set (placed @ [i])" using sizes ok(9) by auto
  qed (use pools ok(2,8) ids bytes in auto)
qed

lemma place_range_eq:
  assumes "retire (lr_first r) (al_buffers al) (al_live al) (al_pools al) = (live, pools)" and "al_ranges al ! i = r"
  shows "lower_bound (lr_aligned r) (pools (range_key r)) = Some (bi, rest) \<Longrightarrow> place_range i al =
      \<lparr>al_ranges = (al_ranges al)[i := r\<lparr>lr_buffer := mb_id (al_buffers al ! bi)\<rparr>],
       al_buffers = (al_buffers al)[bi := (al_buffers al ! bi)\<lparr>mb_last_use := lr_last r,
         mb_values := mb_values (al_buffers al ! bi) @ [lr_value r]\<rparr>],
       al_pools = pools(range_key r := rest), al_live = insort (lr_last r, bi) live\<rparr>"
    "lower_bound (lr_aligned r) (pools (range_key r)) = None \<Longrightarrow> place_range i al =
      \<lparr>al_ranges = (al_ranges al)[i := r\<lparr>lr_buffer := length (al_buffers al)\<rparr>],
       al_buffers = al_buffers al @ [\<lparr>mb_id = length (al_buffers al), mb_bytes = lr_aligned r, mb_dtype = lr_dtype r,
         mb_device = lr_device r, mb_last_use = lr_last r, mb_arena = size_max, mb_offset = 0, mb_values = [lr_value r]\<rparr>],
       al_pools = pools, al_live = insort (lr_last r, length (al_buffers al)) live\<rparr>"
  using assms by (simp_all add: place_range_def Let_def)

lemma place_range_inv:
  assumes inv: "reuse_inv rs placed now al" and i: "i < length rs" "i \<notin> set placed"
    and later: "now \<le> lr_first (rs ! i)" and span: "lr_first (rs ! i) \<le> lr_last (rs ! i)"
  shows "reuse_inv rs (placed @ [i]) (lr_first (rs ! i)) (place_range i al)"
proof -
  let ?r = "rs ! i" and ?bufs = "al_buffers al"
  note ok = reuse_invD [OF inv]
  obtain live pools where ret: "retire (lr_first ?r) ?bufs (al_live al) (al_pools al) = (live, pools)"
    by (cases "retire (lr_first ?r) ?bufs (al_live al) (al_pools al)")
  have pok: "pools_ok ?bufs (lr_first ?r) pools live"
    using retire_ok [OF pools_ok_later [OF ok(1) later] ret] by blast
  note place = place_range_eq [OF ret ok(3) [OF i]]
  show ?thesis
  proof (cases "lower_bound (lr_aligned ?r) (pools (range_key ?r))")
    case None
    let ?b = "\<lparr>mb_id = length ?bufs, mb_bytes = lr_aligned ?r, mb_dtype = lr_dtype ?r, mb_device = lr_device ?r,
      mb_last_use = lr_last ?r, mb_arena = size_max, mb_offset = 0, mb_values = [lr_value ?r]\<rparr>"
    show ?thesis
      unfolding place(2) [OF None]
    proof (rule reuse_add [OF inv i])
      show "pools_ok (?bufs @ [?b]) (lr_first ?r) pools (insort (lr_last ?r, length ?bufs) live)"
        using pools_new [OF pok, of ?b] by simp
      show "mb_id ((?bufs @ [?b]) ! b) = b" if "b < length (?bufs @ [?b])" for b
        using that ok(5) [of b] by (cases "b = length ?bufs") simp_all
      show "housed (?bufs @ [?b]) ?r (length ?bufs)" by (simp add: housed_def buffer_key_def range_key_def)
      show "housed (?bufs @ [?b]) (rs ! j) (lr_buffer (al_ranges al ! j))" if "j \<in> set placed" for j
        using ok(6) [OF that] by (simp add: housed_def)
      show "lr_last (rs ! j) < lr_first ?r" if "j \<in> set placed" "lr_buffer (al_ranges al ! j) = length ?bufs" for j
        using ok(6) [OF that(1)] that(2) by (simp add: housed_def)
    qed auto
  next
    case (Some found)
    obtain bi rest where found: "found = (bi, rest)" by (cases found)
    obtain pre n post where split: "pools (range_key ?r) = pre @ (n, bi) # post" "rest = pre @ post"
      "lr_aligned ?r \<le> n" using lower_bound_Some [OF Some [unfolded found]] by blast
    have bi: "bi < length ?bufs" "n = mb_bytes (?bufs ! bi)" "range_key ?r = buffer_key (?bufs ! bi)"
      "mb_last_use (?bufs ! bi) < lr_first ?r"
      using pools_okD(1) [OF pok, of n bi "range_key ?r"] split(1) by auto
    let ?b = "(?bufs ! bi)\<lparr>mb_last_use := lr_last ?r, mb_values := mb_values (?bufs ! bi) @ [lr_value ?r]\<rparr>"
    have key: "buffer_key ?b = buffer_key (?bufs ! bi)" by (simp add: buffer_key_def)
    show ?thesis
      unfolding place(1) [OF Some [unfolded found]] ok(5) [OF bi(1)]
    proof (rule reuse_add [OF inv i])
      show "pools_ok (?bufs[bi := ?b]) (lr_first ?r) (pools(range_key ?r := rest)) (insort (lr_last ?r, bi) live)"
        using pools_reuse [OF pok split(1) key] split(2) by simp
      show "mb_id (?bufs[bi := ?b] ! b) = b" if "b < length (?bufs[bi := ?b])" for b
        using that ok(5) [of b] by (cases "b = bi") simp_all
      show "housed (?bufs[bi := ?b]) ?r bi" using bi split(3) key by (simp add: housed_def)
      show "housed (?bufs[bi := ?b]) (rs ! j) (lr_buffer (al_ranges al ! j))" if "j \<in> set placed" for j
        using ok(6) [OF that] bi(4) span key
        by (cases "lr_buffer (al_ranges al ! j) = bi") (simp_all add: housed_def)
      show "lr_last (rs ! j) < lr_first ?r" if "j \<in> set placed" "lr_buffer (al_ranges al ! j) = bi" for j
        using ok(6) [OF that(1)] that(2) bi(4) by (simp add: housed_def)
      have bytes: "map mb_bytes (?bufs[bi := ?b]) = map mb_bytes ?bufs"
        by (rule nth_equalityI) (simp_all add: nth_list_update bi(1))
      then show "sum_list (map mb_bytes (?bufs[bi := ?b])) \<le> sum_list (map mb_bytes ?bufs) + lr_aligned ?r" by simp
      show "mb_bytes ` set (?bufs[bi := ?b]) \<subseteq> insert (lr_aligned ?r) (mb_bytes ` set ?bufs)"
        using arg_cong [OF bytes, of set] by auto
    qed
  qed
qed

lemma start_alloc_inv: "reuse_inv rs [] 0 (start_alloc rs)"
  by (simp add: reuse_inv_def start_alloc_def pools_ok_def)

lemma place_all_inv:
  assumes "reuse_inv rs placed now al" and "distinct (placed @ is)" and "set is \<subseteq> {..<length rs}"
    and "\<forall>i \<in> set is. now \<le> lr_first (rs ! i) \<and> lr_first (rs ! i) \<le> lr_last (rs ! i)"
    and "sorted (map (\<lambda>i. lr_first (rs ! i)) is)"
  shows "\<exists>now'. reuse_inv rs (placed @ is) now' (foldl (\<lambda>al i. place_range i al) al is)"
  using assms
proof (induction "is" arbitrary: placed now al)
  case (Cons i "is")
  have "reuse_inv rs (placed @ [i]) (lr_first (rs ! i)) (place_range i al)"
    using Cons.prems by (intro place_range_inv) auto
  from Cons.IH [OF this] Cons.prems show ?case by simp
qed auto

end
