(* ===== verification/Memory_Lifetimes.thy ===== *)
theory Memory_Lifetimes
  imports Memory_Planner Graph_Order
begin

text \<open>
  What the scan of the order computes: every access of a value lies in its live range, where the
  graph produces a value at most once.
\<close>

section \<open>The scan\<close>

definition lifetimes_sized :: "nat \<Rightarrow> lifetimes \<Rightarrow> bool" where
  "lifetimes_sized n l \<longleftrightarrow> length (lt_first l) = n \<and> length (lt_last l) = n \<and> length (lt_has l) = n"

lemma use_inputs_spec:
  assumes "lifetimes_sized n l"
  shows "lifetimes_sized n (use_inputs k vs l) \<and> lt_first (use_inputs k vs l) = lt_first l
    \<and> lt_has (use_inputs k vs l) = lt_has l
    \<and> (\<forall>v < n. lt_last (use_inputs k vs l) ! v = (if v \<in> set vs then max (lt_last l ! v) k else lt_last l ! v))"
  using assms
proof (induction k vs l rule: use_inputs.induct)
  case (2 k v vs l)
  let ?l = "if v < length (lt_last l) then l\<lparr>lt_last := (lt_last l)[v := max (lt_last l ! v) k]\<rparr> else l"
  have sz: "lifetimes_sized n ?l" using 2(2) by (simp add: lifetimes_sized_def)
  from 2(1) [OF sz] 2(2) show ?case by (auto simp: lifetimes_sized_def nth_list_update)
qed simp

lemma set_outputs_spec:
  assumes "lifetimes_sized n l"
  shows "lifetimes_sized n (set_outputs k vs l)
    \<and> (\<forall>v < n. lt_first (set_outputs k vs l) ! v = (if v \<in> set vs then k else lt_first l ! v)
      \<and> lt_has (set_outputs k vs l) ! v = (v \<in> set vs \<or> lt_has l ! v)
      \<and> lt_last (set_outputs k vs l) ! v = (if v \<in> set vs then max (lt_last l ! v) k else lt_last l ! v))"
  using assms
proof (induction k vs l rule: set_outputs.induct)
  case (2 k v vs l)
  let ?l = "if v < length (lt_last l)
     then l\<lparr>lt_first := (lt_first l)[v := k], lt_last := (lt_last l)[v := max (lt_last l ! v) k],
            lt_has := (lt_has l)[v := True]\<rparr> else l"
  have sz: "lifetimes_sized n ?l" using 2(2) by (simp add: lifetimes_sized_def)
  from 2(1) [OF sz] 2(2) show ?case by (auto simp: lifetimes_sized_def nth_list_update)
qed simp

definition accesses :: "'d graph \<Rightarrow> node_id \<Rightarrow> value_id set" where
  "accesses g n = set (n_inputs (g_nodes g ! n)) \<union> set (n_outputs (g_nodes g ! n))"

definition writes :: "'d graph \<Rightarrow> node_id \<Rightarrow> value_id set" where
  "writes g n = set (n_outputs (g_nodes g ! n))"

lemma scan_order_spec:
  assumes "scan_order g k ns l = Inr l'" and "lifetimes_sized n l"
  shows "lifetimes_sized n l'
    \<and> (\<forall>v < n. lt_last l ! v \<le> lt_last l' ! v
        \<and> (\<forall>j < length ns. v \<in> accesses g (ns ! j) \<longrightarrow> k + j \<le> lt_last l' ! v)
        \<and> ((\<forall>j < length ns. v \<notin> writes g (ns ! j)) \<longrightarrow> lt_first l' ! v = lt_first l ! v \<and> lt_has l' ! v = lt_has l ! v)
        \<and> (\<forall>j < length ns. v \<in> writes g (ns ! j) \<longrightarrow> (\<forall>i < length ns. i \<noteq> j \<longrightarrow> v \<notin> writes g (ns ! i))
             \<longrightarrow> lt_first l' ! v = k + j \<and> lt_has l' ! v))"
  using assms
proof (induction g k ns l rule: scan_order.induct)
  case (2 g k m ns l)
  then obtain nd where nd: "nd = g_nodes g ! m"
    and rec: "scan_order g (Suc k) ns (set_outputs k (n_outputs nd) (use_inputs k (n_inputs nd) l)) = Inr l'"
    by (auto simp: rbind_Inr_iff g_node_def split: if_splits)
  let ?l = "set_outputs k (n_outputs nd) (use_inputs k (n_inputs nd) l)"
  have u: "lifetimes_sized n (use_inputs k (n_inputs nd) l)" using use_inputs_spec [OF 2(3)] by blast
  have sz: "lifetimes_sized n ?l" using set_outputs_spec [OF u] by blast
  have mid: "lt_first ?l ! v = (if v \<in> writes g m then k else lt_first l ! v)"
    "lt_has ?l ! v = (v \<in> writes g m \<or> lt_has l ! v)"
    "lt_last ?l ! v = (if v \<in> accesses g m then max (lt_last l ! v) k else lt_last l ! v)" if "v < n" for v
    using use_inputs_spec [OF 2(3), of k "n_inputs nd"] set_outputs_spec [OF u, of k "n_outputs nd"] that
    by (auto simp: nd writes_def accesses_def)
  note IH = 2(1) [OF rec sz]
  show ?case
  proof (intro conjI allI impI)
    show "lifetimes_sized n l'" using IH by blast
  next
    fix v assume v: "v < n"
    show "lt_last l ! v \<le> lt_last l' ! v" using IH mid(3) [OF v] v by (metis le_trans max.cobounded1)
  next
    fix v j assume v: "v < n" and j: "j < length (m # ns)" "v \<in> accesses g ((m # ns) ! j)"
    show "k + j \<le> lt_last l' ! v"
    proof (cases j)
      case 0
      then have "k \<le> lt_last ?l ! v" using mid(3) [OF v] j(2) by simp
      then show ?thesis using IH v 0 by fastforce
    next
      case (Suc i)
      then have "Suc k + i \<le> lt_last l' ! v" using IH v j by (metis Suc_less_eq length_Cons nth_Cons_Suc)
      then show ?thesis using Suc by simp
    qed
  next
    fix v assume v: "v < n" and none: "\<forall>j < length (m # ns). v \<notin> writes g ((m # ns) ! j)"
    then have "\<forall>j < length ns. v \<notin> writes g (ns ! j)" "v \<notin> writes g m" by (force, force)
    then show "lt_first l' ! v = lt_first l ! v" "lt_has l' ! v = lt_has l ! v" using IH mid(1,2) [OF v] v by auto
  next
    fix v j assume v: "v < n" and j: "j < length (m # ns)" "v \<in> writes g ((m # ns) ! j)"
      and other: "\<forall>i < length (m # ns). i \<noteq> j \<longrightarrow> v \<notin> writes g ((m # ns) ! i)"
    have "lt_first l' ! v = k + j \<and> lt_has l' ! v"
    proof (cases j)
      case 0
      then have "\<forall>j < length ns. v \<notin> writes g (ns ! j)" using other by force
      then show ?thesis using IH mid(1,2) [OF v] v 0 j by auto
    next
      case (Suc i)
      have "\<forall>i' < length ns. i' \<noteq> i \<longrightarrow> v \<notin> writes g (ns ! i')" using other Suc by force
      then show ?thesis using IH v j Suc by auto
    qed
    then show "lt_first l' ! v = k + j" "lt_has l' ! v" by auto
  qed
qed simp

section \<open>Accesses lie in the live range\<close>

text \<open>\<open>GraphBuilder\<close> makes such graphs: ids are positions and every node writes a value of its own.\<close>

definition well_numbered :: "'d graph \<Rightarrow> bool" where
  "well_numbered g \<longleftrightarrow> (\<forall>i < length (g_values g). v_id (g_values g ! i) = i)"

definition single_producer :: "'d graph \<Rightarrow> bool" where
  "single_producer g \<longleftrightarrow> (\<forall>p < length (g_nodes g). \<forall>q < length (g_nodes g). p \<noteq> q \<longrightarrow> writes g p \<inter> writes g q = {})"

lemma producer_of_write:
  assumes "single_producer g" and "p < length (g_nodes g)" and "v \<in> writes g p"
  shows "value_producer (g_nodes g) v = Some p"
  unfolding value_producer_iff
proof (intro conjI allI impI)
  fix j assume "p < j" "j < length (g_nodes g)"
  with assms have "writes g p \<inter> writes g j = {}" by (simp add: single_producer_def)
  with assms(3) show "v \<notin> set (n_outputs (g_nodes g ! j))" by (auto simp: writes_def)
qed (use assms in \<open>auto simp: writes_def\<close>)

lemma produced_before_access:
  assumes sorted: "topological_sort g = Inr order" and single: "single_producer g"
    and j: "j < length order" "v \<in> writes g (order ! j)" and a: "a < length order" "v \<in> accesses g (order ! a)"
  shows "j \<le> a"
proof (cases "v \<in> writes g (order ! a)")
  case True
  have "order ! j < length (g_nodes g)" "order ! a < length (g_nodes g)"
    using topological_sort_InrD(2) [OF sorted] j(1) a(1) nth_mem by blast+
  with single j(2) True have "order ! j = order ! a" by (auto simp: single_producer_def)
  then show ?thesis using topological_sort_InrD(1) [OF sorted] j(1) a(1) by (simp add: nth_eq_iff_index_eq)
next
  case False
  have nodes: "order ! j < length (g_nodes g)" "order ! a < length (g_nodes g)"
    using topological_sort_InrD(2) [OF sorted] j(1) a(1) nth_mem by blast+
  have "(order ! j, order ! a) \<in> depends_on g"
    using False a(2) producer_of_write [OF single nodes(1) j(2)] nodes by (auto simp: depends_on_def accesses_def writes_def)
  from topological_sort_InrD(3) [OF sorted this a(1) refl] obtain i where "i < a" "order ! i = order ! j"
    using a(1) by (auto simp: in_set_conv_nth)
  then have "i = j" using topological_sort_InrD(1) [OF sorted] j(1) a(1) by (simp add: nth_eq_iff_index_eq)
  then show ?thesis using \<open>i < a\<close> by simp
qed

lemma access_in_range:
  assumes sorted: "topological_sort g = Inr order" and single: "single_producer g" and ids: "well_numbered g"
    and scan: "scan_order g 0 order (no_lifetimes (length (g_values g))) = Inr l"
    and v: "v < length (g_values g)" and a: "a < length order" "v \<in> accesses g (order ! a)"
    and ge: "ge = (if order = [] then 0 else length order - 1)"
  shows "lr_first (bare_range l ge (g_values g ! v)) \<le> a \<and> a \<le> lr_last (bare_range l ge (g_values g ! v))"
proof -
  have sz: "lifetimes_sized (length (g_values g)) (no_lifetimes (length (g_values g)))"
    by (simp add: lifetimes_sized_def no_lifetimes_def)
  note spec = scan_order_spec [OF scan sz]
  have len: "v < length (lt_first l)" using spec v by (simp add: lifetimes_sized_def)
  have id: "v_id (g_values g ! v) = v" using ids v by (simp add: well_numbered_def)
  have last: "a \<le> lt_last l ! v" using spec v a by fastforce
  have first: "lt_first l ! v \<le> a" if has: "lt_has l ! v"
  proof -
    have "\<not> (\<forall>j < length order. v \<notin> writes g (order ! j))"
      using spec v has by (auto simp: no_lifetimes_def)
    then obtain j where j: "j < length order" "v \<in> writes g (order ! j)" by blast
    have "v \<notin> writes g (order ! i)" if "i < length order" "i \<noteq> j" for i
    proof
      assume i: "v \<in> writes g (order ! i)"
      then have "v \<in> accesses g (order ! i)" "v \<in> accesses g (order ! j)" using j(2) by (auto simp: accesses_def writes_def)
      then have "i = j"
        using produced_before_access [OF sorted single j that(1)] produced_before_access [OF sorted single that(1) i j(1)]
        by simp
      with that(2) show False by simp
    qed
    then have "lt_first l ! v = j" using spec v j by auto
    then show ?thesis using produced_before_access [OF sorted single j a] by simp
  qed
  have "a \<le> ge" using a(1) ge by (cases order) auto
  then show ?thesis using last first len id by (auto simp: bare_range_def Let_def)
qed

end
