(* ===== verification/Memory_Arenas.thy ===== *)
theory Memory_Arenas
  imports Memory_Planner
begin

text \<open>
  The arena layout: buffers of one dtype and device lie in one arena, one after the other, at
  aligned offsets, as long as the bytes of all buffers together fit in \<open>size_t\<close>.
\<close>

definition info_ok :: "nat \<Rightarrow> nat \<Rightarrow> (pool_key \<times> nat \<times> nat) list \<Rightarrow> bool" where
  "info_ok a used info \<longleftrightarrow> distinct (map fst info)
     \<and> (\<forall>k ar off. map_of info k = Some (ar, off) \<longrightarrow> ar < length info \<and> a dvd off \<and> off \<le> used)
     \<and> (\<forall>k k' ar off off'. map_of info k = Some (ar, off) \<longrightarrow> map_of info k' = Some (ar, off') \<longrightarrow> k = k')"

lemma info_okD:
  assumes "info_ok a used info" and "map_of info k = Some (ar, off)"
  shows "ar < length info" "a dvd off" "off \<le> used" "map_of info k' = Some (ar, off') \<Longrightarrow> k' = k"
  using assms unfolding info_ok_def by blast+

lemma length_update: "length (AList.update k v al) = (if k \<in> fst ` set al then length al else Suc (length al))"
proof -
  have "length (AList.update k v al) = length (map fst (AList.update k v al))" by simp
  then show ?thesis by (simp add: update_keys)
qed

text \<open>An entry for the key \<open>k\<close>, whose arena no other key has.\<close>

lemma info_ok_update:
  assumes info: "info_ok a used info" and ar: "ar < length (AList.update k (ar, off) info)" and "a dvd off" and "off \<le> used + n"
    and own: "\<And>k' off'. map_of info k' = Some (ar, off') \<Longrightarrow> k' = k"
  shows "info_ok a (used + n) (AList.update k (ar, off) info)"
proof -
  let ?info = "AList.update k (ar, off) info"
  have get: "map_of ?info k' = (if k' = k then Some (ar, off) else map_of info k')" for k'
    by (simp add: update_conv')
  have len: "length info \<le> length ?info" by (simp add: length_update)
  have entry: "ar' < length ?info \<and> a dvd off' \<and> off' \<le> used + n" if "map_of ?info k' = Some (ar', off')" for k' ar' off'
  proof (cases "k' = k")
    case True
    with that get assms(2-4) show ?thesis by simp
  next
    case False
    with that get have "map_of info k' = Some (ar', off')" by simp
    from info_okD(1-3) [OF info this] len show ?thesis by simp
  qed
  have inj: "k' = k''" if "map_of ?info k' = Some (x, o1)" "map_of ?info k'' = Some (x, o2)" for k' k'' x o1 o2
    using that own info_okD(4) [OF info] by (simp add: get split: if_splits)
  have "distinct (map fst ?info)" using info by (simp add: info_ok_def distinct_update)
  with entry inj show ?thesis unfolding info_ok_def by blast
qed

lemma info_ok_new:
  assumes "info_ok a used info" and "map_of info k = None" and "a dvd n"
  shows "info_ok a (used + n) (AList.update k (length info, n) info)"
proof (rule info_ok_update [OF assms(1)])
  show "length info < length (AList.update k (length info, n) info)"
    using assms(2) by (auto simp: length_update map_of_eq_None_iff)
  show "k' = k" if "map_of info k' = Some (length info, off')" for k' off'
    using info_okD(1) [OF assms(1) that] by simp
qed (use assms(3) in simp_all)

lemma info_ok_next:
  assumes "info_ok a used info" and "map_of info k = Some (ar, off)" and "a dvd n"
  shows "info_ok a (used + n) (AList.update k (ar, off + n) info)"
proof (rule info_ok_update [OF assms(1)])
  note at = info_okD [OF assms(1,2)]
  show "ar < length (AList.update k (ar, off + n) info)" using at(1) by (simp add: length_update)
  show "a dvd off + n" "off + n \<le> used + n" using at(2,3) assms(3) by simp_all
  show "k' = k" if "map_of info k' = Some (ar, off')" for k' off' using at(4) [OF that] .
qed

definition laid_out :: "nat \<Rightarrow> (pool_key \<times> nat \<times> nat) list \<Rightarrow> memory_buffer list \<Rightarrow> memory_buffer list \<Rightarrow> bool" where
  "laid_out a info bs cs \<longleftrightarrow> length cs = length bs
     \<and> (\<forall>i < length bs. a dvd mb_offset (cs ! i) \<and> (case map_of info (buffer_key (bs ! i)) of
          Some (ar, off) \<Rightarrow> mb_arena (cs ! i) = ar \<and> off \<le> mb_offset (cs ! i)
        | None \<Rightarrow> length info \<le> mb_arena (cs ! i)))
     \<and> (\<forall>i j. i < j \<longrightarrow> j < length bs \<longrightarrow>
          (mb_arena (cs ! i) = mb_arena (cs ! j) \<longleftrightarrow> buffer_key (bs ! i) = buffer_key (bs ! j))
        \<and> (buffer_key (bs ! i) = buffer_key (bs ! j) \<longrightarrow> mb_offset (cs ! i) + mb_bytes (bs ! i) \<le> mb_offset (cs ! j)))"

text \<open>One more buffer in front, given the arena and offset it gets.\<close>

lemma laid_out_Cons:
  assumes "laid_out a (AList.update (buffer_key b) (ar, off + mb_bytes b) info) bs cs"
    and "info_ok a used info" and "mb_arena c = ar" "mb_offset c = off" "a dvd off"
    and new: "map_of info (buffer_key b) = Some (ar, off) \<or> map_of info (buffer_key b) = None \<and> ar = length info \<and> off = 0"
  shows "laid_out a info (b # bs) (c # cs)"
proof -
  let ?info = "AList.update (buffer_key b) (ar, off + mb_bytes b) info"
  have len: "length info \<le> length ?info" "map_of info (buffer_key b) = None \<Longrightarrow> length ?info = Suc (length info)"
    by (auto simp: length_update map_of_eq_None_iff)
  have tail: "a dvd mb_offset (cs ! i)" "map_of ?info (buffer_key (bs ! i)) = Some (x, y) \<Longrightarrow> mb_arena (cs ! i) = x \<and> y \<le> mb_offset (cs ! i)"
    "map_of ?info (buffer_key (bs ! i)) = None \<Longrightarrow> length ?info \<le> mb_arena (cs ! i)" if "i < length bs" for i x y
    using assms(1) that by (auto simp: laid_out_def)
  have same: "mb_arena (cs ! i) = ar \<and> off + mb_bytes b \<le> mb_offset (cs ! i)"
    if "i < length bs" "buffer_key (bs ! i) = buffer_key b" for i
    using tail(2) [OF that(1), of ar "off + mb_bytes b"] that(2) by (simp add: update_conv')
  have other: "mb_arena (cs ! i) \<noteq> ar" if "i < length bs" "buffer_key (bs ! i) \<noteq> buffer_key b" for i
  proof (cases "map_of info (buffer_key (bs ! i))")
    case None
    then have "length ?info \<le> mb_arena (cs ! i)" using tail(3) [OF that(1)] that(2) by (simp add: update_conv')
    moreover have "ar < length ?info"
    proof (cases "map_of info (buffer_key b)")
      case None
      then show ?thesis using new len(2) by simp
    next
      case (Some e)
      then have "ar < length info" using new info_okD(1) [OF assms(2)] by auto
      then show ?thesis using len(1) by simp
    qed
    ultimately show ?thesis by simp
  next
    case (Some e)
    obtain x y where e: "e = (x, y)" by (cases e)
    have "mb_arena (cs ! i) = x" using tail(2) [OF that(1), of x y] Some e that(2) by (simp add: update_conv')
    then show ?thesis
      using new info_okD(1) [OF assms(2) Some [unfolded e]] info_okD(4) [OF assms(2) Some [unfolded e], of "buffer_key b"] that(2)
      by auto
  qed
  have old: "case map_of info (buffer_key (bs ! i)) of Some (ar, off) \<Rightarrow> mb_arena (cs ! i) = ar \<and> off \<le> mb_offset (cs ! i)
      | None \<Rightarrow> length info \<le> mb_arena (cs ! i)" if i: "i < length bs" for i
  proof (cases "buffer_key (bs ! i) = buffer_key b")
    case True
    then show ?thesis using same [OF i True] new by auto
  next
    case False
    then have "map_of ?info (buffer_key (bs ! i)) = map_of info (buffer_key (bs ! i))" by (simp add: update_conv')
    then show ?thesis using tail(2,3) [OF i] len(1) by (auto split: option.splits)
  qed
  have front: "case map_of info (buffer_key b) of Some (ar, off) \<Rightarrow> mb_arena c = ar \<and> off \<le> mb_offset c
      | None \<Rightarrow> length info \<le> mb_arena c" using new assms(3,4) by auto
  have entry: "a dvd mb_offset ((c # cs) ! i) \<and> (case map_of info (buffer_key ((b # bs) ! i)) of
      Some (ar, off) \<Rightarrow> mb_arena ((c # cs) ! i) = ar \<and> off \<le> mb_offset ((c # cs) ! i)
    | None \<Rightarrow> length info \<le> mb_arena ((c # cs) ! i))" if i: "i < length (b # bs)" for i
  proof (cases i)
    case 0
    show ?thesis unfolding 0 nth_Cons_0 using front assms(4,5) by blast
  next
    case (Suc k)
    show ?thesis unfolding Suc nth_Cons_Suc using tail(1) [of k] old [of k] i Suc by simp
  qed
  have tails: "(mb_arena (cs ! i) = mb_arena (cs ! j)) = (buffer_key (bs ! i) = buffer_key (bs ! j))
      \<and> (buffer_key (bs ! i) = buffer_key (bs ! j) \<longrightarrow> mb_offset (cs ! i) + mb_bytes (bs ! i) \<le> mb_offset (cs ! j))"
    if "i < j" "j < length bs" for i j
    using assms(1) that unfolding laid_out_def by blast
  have pair: "(mb_arena ((c # cs) ! i) = mb_arena ((c # cs) ! j)) = (buffer_key ((b # bs) ! i) = buffer_key ((b # bs) ! j))
      \<and> (buffer_key ((b # bs) ! i) = buffer_key ((b # bs) ! j) \<longrightarrow>
           mb_offset ((c # cs) ! i) + mb_bytes ((b # bs) ! i) \<le> mb_offset ((c # cs) ! j))"
    if ij: "i < j" "j < length (b # bs)" for i j
  proof -
    obtain m where m: "j = Suc m" "m < length bs" using ij by (cases j) auto
    show ?thesis
    proof (cases i)
      case 0
      show ?thesis unfolding 0 m(1) nth_Cons_0 nth_Cons_Suc assms(3,4)
        using same [OF m(2)] other [OF m(2)] by metis
    next
      case (Suc k)
      show ?thesis unfolding Suc m(1) nth_Cons_Suc using tails [of k m] ij(1) m Suc by simp
    qed
  qed
  show ?thesis
    unfolding laid_out_def
  proof (intro conjI allI impI)
    fix i assume "i < length (b # bs)"
    from entry [OF this] show "a dvd mb_offset ((c # cs) ! i)"
      "case map_of info (buffer_key ((b # bs) ! i)) of Some (ar, off) \<Rightarrow> mb_arena ((c # cs) ! i) = ar \<and> off \<le> mb_offset ((c # cs) ! i)
      | None \<Rightarrow> length info \<le> mb_arena ((c # cs) ! i)" by blast+
  next
    fix i j assume ij: "i < j" "j < length (b # bs)"
    from pair [OF this] show "(mb_arena ((c # cs) ! i) = mb_arena ((c # cs) ! j)) = (buffer_key ((b # bs) ! i) = buffer_key ((b # bs) ! j))"
      "buffer_key ((b # bs) ! i) = buffer_key ((b # bs) ! j) \<Longrightarrow>
        mb_offset ((c # cs) ! i) + mb_bytes ((b # bs) ! i) \<le> mb_offset ((c # cs) ! j)" by blast+
  qed (use assms(1) in \<open>simp add: laid_out_def\<close>)
qed

lemma align_up_dvd: "a dvd v \<Longrightarrow> align_up v a = v"
  by (simp add: align_up_def)

lemma assign_arenas_laid_out:
  assumes "info_ok a used info" and "\<forall>b \<in> set bs. a dvd mb_bytes b" and "used + sum_list (map mb_bytes bs) < 2 ^ 64"
  shows "laid_out a info bs (assign_arenas a info bs)"
  using assms
proof (induction bs arbitrary: used info)
  case (Cons b bs)
  show ?case
  proof (cases "map_of info (buffer_key b)")
    case None
    have "info_ok a (used + mb_bytes b) (AList.update (buffer_key b) (length info, 0 + mb_bytes b) info)"
      using info_ok_new [OF Cons.prems(1) None] Cons.prems(2) by simp
    from Cons.IH [OF this] Cons.prems have "laid_out a (AList.update (buffer_key b) (length info, 0 + mb_bytes b) info) bs
      (assign_arenas a (AList.update (buffer_key b) (length info, 0 + mb_bytes b) info) bs)" by (simp add: add.assoc)
    from laid_out_Cons [OF this Cons.prems(1)] None show ?thesis by simp
  next
    case (Some e)
    obtain ar off where e: "e = (ar, off)" by (cases e)
    note at = info_okD [OF Cons.prems(1) Some [unfolded e]]
    have "info_ok a (used + mb_bytes b) (AList.update (buffer_key b) (ar, off + mb_bytes b) info)"
      using info_ok_next [OF Cons.prems(1) Some [unfolded e]] Cons.prems(2) by simp
    from Cons.IH [OF this] Cons.prems have "laid_out a (AList.update (buffer_key b) (ar, off + mb_bytes b) info) bs
      (assign_arenas a (AList.update (buffer_key b) (ar, off + mb_bytes b) info) bs)" by (simp add: add.assoc)
    moreover have "off + mb_bytes b < 2 ^ 64" using at(3) Cons.prems(3) by simp
    ultimately show ?thesis
      using laid_out_Cons [of a b ar off info bs, OF _ Cons.prems(1)] Some e at(2) by (simp add: align_up_dvd Let_def)
  qed
qed (simp add: laid_out_def)

text \<open>No buffer reaches beyond the bytes of all buffers.\<close>

lemma assign_arenas_bounded:
  assumes "info_ok a used info" and "\<forall>b \<in> set bs. a dvd mb_bytes b" and "used + sum_list (map mb_bytes bs) < 2 ^ 64"
    and "i < length bs"
  shows "mb_offset (assign_arenas a info bs ! i) + mb_bytes (bs ! i) \<le> used + sum_list (map mb_bytes bs)"
  using assms
proof (induction bs arbitrary: used info i)
  case (Cons b bs)
  show ?case
  proof (cases "map_of info (buffer_key b)")
    case None
    have "info_ok a (used + mb_bytes b) (AList.update (buffer_key b) (length info, mb_bytes b) info)"
      using info_ok_new [OF Cons.prems(1) None] Cons.prems(2) by simp
    from Cons.IH [OF this, of "i - 1"] Cons.prems None show ?thesis by (cases i) (auto simp: add.assoc)
  next
    case (Some e)
    obtain ar off where e: "e = (ar, off)" by (cases e)
    note at = info_okD [OF Cons.prems(1) Some [unfolded e]]
    have small: "off + mb_bytes b < 2 ^ 64" using at(3) Cons.prems(3) by simp
    have "info_ok a (used + mb_bytes b) (AList.update (buffer_key b) (ar, off + mb_bytes b) info)"
      using info_ok_next [OF Cons.prems(1) Some [unfolded e]] Cons.prems(2) by simp
    from Cons.IH [OF this, of "i - 1"] Cons.prems Some e at(2,3) small show ?thesis
      by (cases i) (auto simp: align_up_dvd Let_def add.assoc)
  qed
qed simp

end
