(* ===== verification/Memory_Plan_Properties.thy ===== *)
theory Memory_Plan_Properties
  imports Memory_Reuse Memory_Lifetimes Memory_Arenas
begin

text \<open>
  The properties of a memory plan: values that share a buffer are never live together, every buffer holds
  its values, the buffers of an arena do not overlap, and the plan needs no more memory than
  one buffer per value.
\<close>

section \<open>The parts of a plan\<close>

lemma live_range_fields:
  assumes "measure_range opt l ge v = Inr r"
  shows "lr_value r = v_id v" "lr_first r = lr_first (bare_range l ge v)" "lr_last r = lr_last (bare_range l ge v)"
    "lr_dtype r = v_dtype v" "lr_device r = v_device v" "lr_first r \<le> lr_last r" "lr_name r = v_name v"
  using assms
  by (auto simp: measure_range_def skipped_def bare_range_def Let_def split: if_splits sum.splits)

lemma live_range_eligible:
  assumes "measure_range opt l ge v = Inr r" and "lr_eligible r"
  shows "\<exists>n s. numel (v_shape v) = Inr n \<and> dtype_size (v_dtype v) = Inr s \<and> lr_bytes r = n * s \<and> n * s < 2 ^ 64
    \<and> lr_aligned r = align_up (n * s) (po_alignment opt)"
proof -
  obtain n s where ns: "numel (v_shape v) = Inr n" "dtype_size (v_dtype v) = Inr s" "n \<le> size_max div s"
    "lr_bytes r = wrap64 (n * s)" "lr_aligned r = align_up (wrap64 (n * s)) (po_alignment opt)"
    using assms by (auto simp: measure_range_def skipped_def bare_range_def Let_def not_less split: if_splits sum.splits)
  have "n * s \<le> size_max div s * s" using ns(3) by simp
  also have "\<dots> \<le> size_max" by (rule div_times_less_eq_dividend)
  finally have "n * s < 2 ^ 64" by simp
  with ns show ?thesis by simp
qed

lemma build_ranges_spec:
  assumes "build_ranges opt l ge vs p = Inr p'" and "mp_naive_bytes p < 2 ^ 64"
  shows "\<exists>rs. mp_ranges p' = mp_ranges p @ rs \<and> length rs = length vs
    \<and> (\<forall>i < length vs. measure_range opt l ge (vs ! i) = Inr (rs ! i))
    \<and> mp_naive_bytes p' = wrap64 (mp_naive_bytes p + sum_list (map lr_aligned (filter lr_eligible rs)))"
  using assms
proof (induction opt l ge vs p rule: build_ranges.induct)
  case (2 opt l ge v vs p)
  then obtain r where r: "measure_range opt l ge v = Inr r" and rec: "build_ranges opt l ge vs (add_range r p) = Inr p'"
    by (auto simp: rbind_Inr_iff)
  have small: "mp_naive_bytes (add_range r p) < 2 ^ 64" using 2(3) wrap64_less [of "mp_naive_bytes p + lr_aligned r"]
    by (simp add: add_range_def)
  from 2(1) [OF rec small] obtain rs where rs: "mp_ranges p' = mp_ranges (add_range r p) @ rs"
    "length rs = length vs" "\<forall>i < length vs. measure_range opt l ge (vs ! i) = Inr (rs ! i)"
    "mp_naive_bytes p' = wrap64 (mp_naive_bytes (add_range r p) + sum_list (map lr_aligned (filter lr_eligible rs)))"
    by blast
  show ?case
  proof (intro exI [of _ "r # rs"] conjI allI impI)
    fix i assume "i < length (v # vs)"
    then show "measure_range opt l ge ((v # vs) ! i) = Inr ((r # rs) ! i)" using r rs(3) by (cases i) auto
  next
    show "mp_naive_bytes p' = wrap64 (mp_naive_bytes p + sum_list (map lr_aligned (filter lr_eligible (r # rs))))"
      using rs(4) by (simp add: add_range_def wrap64_add_left add.assoc)
  qed (use rs(1,2) in \<open>simp_all add: add_range_def\<close>)
qed simp

lemma range_before_strict: "strict_weak (range_before rs)"
  by (auto simp: strict_weak_def range_before_def Let_def transp_def split: if_splits)

lemma assign_arenas_frame:
  "length (assign_arenas a info bs) = length bs \<and> (\<forall>b < length bs.
     assign_arenas a info bs ! b = (bs ! b)\<lparr>mb_arena := mb_arena (assign_arenas a info bs ! b),
       mb_offset := mb_offset (assign_arenas a info bs ! b)\<rparr>)"
proof (induction a info bs rule: assign_arenas.induct)
  case (2 a info b bs)
  show ?case
  proof (cases "map_of info (buffer_key b)")
    case None
    from 2(1) [OF None] show ?thesis using None by (auto simp: less_Suc_eq_0_disj)
  next
    case (Some e)
    obtain arena off where e: "e = (arena, off)" by (cases e)
    from 2(2) [OF Some e [symmetric] refl] show ?thesis using Some e by (auto simp: Let_def less_Suc_eq_0_disj)
  qed
qed simp

lemma make_plan_parts:
  assumes "make_plan std_sort opt g = Inr p" and "std_sort_law std_sort"
  obtains order l rs "is" now al where
    "topological_sort g = Inr order" "validate g = make_ok" "0 < po_alignment opt"
    "scan_order g 0 order (no_lifetimes (length (g_values g))) = Inr l"
    "length rs = length (g_values g)"
    "\<forall>i < length rs. measure_range opt l (if order = [] then 0 else length order - 1) (g_values g ! i) = Inr (rs ! i)"
    "distinct is" "set is = {i. i < length rs \<and> lr_eligible (rs ! i)}"
    "reuse_inv rs is now al" "mp_ranges p = al_ranges al"
    "mp_buffers p = assign_arenas (po_alignment opt) [] (al_buffers al)"
    "mp_planned_bytes p = sum_bytes (al_buffers al)"
    "mp_naive_bytes p = wrap64 (sum_list (map lr_aligned (filter lr_eligible rs)))"
    "mset is = mset (filter (\<lambda>i. lr_eligible (rs ! i)) [0..<length rs])"
proof -
  let ?p0 = "empty_plan\<lparr>mp_alignment := po_alignment opt\<rparr>"
  from assms(1) obtain order l p1 where parts: "po_alignment opt \<noteq> 0" "validate g = make_ok" "topological_sort g = Inr order"
    "scan_order g 0 order (no_lifetimes (length (g_values g))) = Inr l"
    "build_ranges opt l (if order = [] then 0 else length order - 1) (g_values g) ?p0 = Inr p1"
    and p: "p = p1\<lparr>mp_ranges := al_ranges (plan_buffers std_sort (mp_ranges p1)),
       mp_buffers := assign_arenas (po_alignment opt) [] (al_buffers (plan_buffers std_sort (mp_ranges p1))),
       mp_planned_bytes := sum_bytes (al_buffers (plan_buffers std_sort (mp_ranges p1))),
       mp_range_index := index_ranges 0 (al_ranges (plan_buffers std_sort (mp_ranges p1))) Map.empty\<rparr>"
    by (auto simp: make_plan_def rbind_Inr_iff Let_def split: if_splits)
  let ?rs = "mp_ranges p1" and ?is = "std_sort (range_before (mp_ranges p1)) (filter (\<lambda>i. lr_eligible (mp_ranges p1 ! i)) [0..<length (mp_ranges p1)])"
  have rs: "length ?rs = length (g_values g)"
    "\<forall>i < length ?rs. measure_range opt l (if order = [] then 0 else length order - 1) (g_values g ! i) = Inr (?rs ! i)"
    "mp_naive_bytes p1 = wrap64 (sum_list (map lr_aligned (filter lr_eligible ?rs)))"
    using build_ranges_spec [OF parts(5)] by (auto simp: empty_plan_def)
  note srt = std_sort_lawD [OF assms(2) range_before_strict, of ?rs "filter (\<lambda>i. lr_eligible (?rs ! i)) [0..<length ?rs]"]
  have "\<exists>now. reuse_inv ?rs ([] @ ?is) now (foldl (\<lambda>al i. place_range i al) (start_alloc ?rs) ?is)"
  proof (rule place_all_inv [OF start_alloc_inv])
    show "distinct ([] @ ?is)" "set ?is \<subseteq> {..<length ?rs}" using srt(2,3) by auto
    show "\<forall>i \<in> set ?is. 0 \<le> lr_first (?rs ! i) \<and> lr_first (?rs ! i) \<le> lr_last (?rs ! i)"
      using srt(2) rs(1,2) live_range_fields(6) by fastforce
    show "sorted (map (\<lambda>i. lr_first (?rs ! i)) ?is)"
      using srt(4) unfolding sorted_map
      by (rule sorted_wrt_mono_rel [rotated]) (auto simp: range_before_def Let_def split: if_splits)
  qed
  then obtain now where "reuse_inv ?rs ?is now (plan_buffers std_sort ?rs)"
    by (auto simp: plan_buffers_def)
  then show ?thesis
    using that [of order l ?rs ?is now "plan_buffers std_sort ?rs"] parts rs srt(1-3) p by auto
qed

lemma build_ranges_alignment: "build_ranges opt l ge vs p = Inr p' \<Longrightarrow> mp_alignment p' = mp_alignment p"
proof (induction opt l ge vs p rule: build_ranges.induct)
  case (2 opt l ge v vs p)
  then obtain r where "build_ranges opt l ge vs (add_range r p) = Inr p'" by (auto simp: rbind_Inr_iff)
  from 2(1) [OF this] show ?case by (simp add: add_range_def split: if_splits)
qed simp

lemma make_plan_alignment:
  assumes "make_plan std_sort opt g = Inr p"
  shows "mp_alignment p = po_alignment opt" "0 < po_alignment opt"
  using assms by (auto simp: make_plan_def rbind_Inr_iff Let_def dest: build_ranges_alignment split: if_splits)

lemma make_plan_values:
  assumes "make_plan std_sort opt g = Inr p" and "std_sort_law std_sort"
  shows "length (mp_ranges p) = length (g_values g)"
    "v < length (g_values g) \<Longrightarrow> lr_value (mp_ranges p ! v) = v_id (g_values g ! v)"
proof -
  have "length (mp_ranges p) = length (g_values g) \<and> (\<forall>v < length (g_values g). lr_value (mp_ranges p ! v) = v_id (g_values g ! v))"
  proof (rule make_plan_parts [OF assms], goal_cases)
    case (1 order l rs "is" now al)
    note inv = reuse_invD [OF 1(9)]
    have "lr_value (mp_ranges p ! v) = v_id (g_values g ! v)" if "v < length (g_values g)" for v
    proof -
      have v: "v < length rs" using that 1(5) by simp
      obtain b where "mp_ranges p ! v = (rs ! v)\<lparr>lr_buffer := b\<rparr>" using inv(4) [OF v, folded 1(10)] by blast
      moreover have "measure_range opt l (if order = [] then 0 else length order - 1) (g_values g ! v) = Inr (rs ! v)"
        using 1(6) v by blast
      ultimately show ?thesis using live_range_fields(1) by fastforce
    qed
    then show ?case using inv(2) 1(5,10) by simp
  qed
  then show "length (mp_ranges p) = length (g_values g)"
    "v < length (g_values g) \<Longrightarrow> lr_value (mp_ranges p ! v) = v_id (g_values g ! v)" by blast+
qed

section \<open>The properties\<close>

definition uses_before :: "'d graph \<Rightarrow> node_id list \<Rightarrow> value_id \<Rightarrow> value_id \<Rightarrow> bool" where
  "uses_before g order v w \<longleftrightarrow> (\<forall>a < length order. \<forall>b < length order.
     v \<in> accesses g (order ! a) \<longrightarrow> w \<in> accesses g (order ! b) \<longrightarrow> a < b)"

text \<open>\<open>v\<close> is over before \<open>w\<close> begins; an output of the graph is only over after the last node.\<close>

definition over_before :: "'d graph \<Rightarrow> node_id list \<Rightarrow> value_id \<Rightarrow> value_id \<Rightarrow> bool" where
  "over_before g order v w \<longleftrightarrow> uses_before g order v w
     \<and> (v_kind (g_values g ! v) = KOutput \<longrightarrow> (\<forall>b < length order. w \<notin> accesses g (order ! b)))"

lemma plan_over:
  assumes "make_plan std_sort opt g = Inr p" and "std_sort_law std_sort" and "well_numbered g" and "single_producer g"
    and "topological_sort g = Inr order"
    and "v < length (g_values g)" and "w < length (g_values g)" and "v \<noteq> w"
    and "lr_eligible (mp_ranges p ! v)" and "lr_eligible (mp_ranges p ! w)"
    and "lr_buffer (mp_ranges p ! v) = lr_buffer (mp_ranges p ! w)"
  shows "over_before g order v w \<or> over_before g order w v"
proof -
  obtain l rs "is" now al where scan: "scan_order g 0 order (no_lifetimes (length (g_values g))) = Inr l"
    and rs: "length rs = length (g_values g)"
      "\<forall>i < length rs. measure_range opt l (if order = [] then 0 else length order - 1) (g_values g ! i) = Inr (rs ! i)"
    and "is": "set is = {i. i < length rs \<and> lr_eligible (rs ! i)}" and inv: "reuse_inv rs is now al"
    and ranges: "mp_ranges p = al_ranges al"
  proof (rule make_plan_parts [OF assms(1,2)], goal_cases)
    case (1 order' l rs "is" now al)
    have "order' = order" using 1(2) assms(5) by simp
    with 1(1) [of l rs "is" now al] 1 show ?case by blast
  qed
  note inv = reuse_invD [OF inv]
  have elig: "lr_eligible (rs ! i)" if "i < length rs" "lr_eligible (mp_ranges p ! i)" for i
    using inv(4) [OF that(1)] that(2) ranges by (metis live_range.select_convs(10) live_range.surjective live_range.update_convs(12))
  have apart: "apart (rs ! v) (rs ! w)"
    using inv(7) [of v w] elig [of v] elig [of w] assms(6-11) unfolding "is" rs(1) ranges by blast
  have lr: "measure_range opt l (if order = [] then 0 else length order - 1) (g_values g ! u) = Inr (rs ! u)"
    if "u < length (g_values g)" for u
    using rs that by simp
  have range: "lr_first (rs ! u) \<le> a \<and> a \<le> lr_last (rs ! u)"
    if u: "u < length (g_values g)" "a < length order" "u \<in> accesses g (order ! a)" for u a
    using live_range_fields(2,3) [OF lr [OF u(1)]] access_in_range [OF assms(5,4,3) scan u refl] by simp
  have final: "length order - 1 \<le> lr_last (rs ! u)" if "u < length (g_values g)" "v_kind (g_values g ! u) = KOutput" for u
    using live_range_fields(3) [OF lr [OF that(1)]] that(2) by (auto simp: bare_range_def Let_def)
  have "over_before g order u x" if "lr_last (rs ! u) < lr_first (rs ! x)" "u < length (g_values g)" "x < length (g_values g)" for u x
    unfolding over_before_def uses_before_def
  proof (intro conjI allI impI)
    show "a < b" if "a < length order" "b < length order" "u \<in> accesses g (order ! a)" "x \<in> accesses g (order ! b)" for a b
      using range [of u a] range [of x b] that \<open>lr_last (rs ! u) < lr_first (rs ! x)\<close> \<open>u < _\<close> \<open>x < _\<close> by simp
    show "x \<notin> accesses g (order ! b)" if "v_kind (g_values g ! u) = KOutput" "b < length order" for b
      using range [of x b] final [of u] that \<open>lr_last (rs ! u) < lr_first (rs ! x)\<close> \<open>u < _\<close> \<open>x < _\<close> by force
  qed
  with apart assms(6,7) show ?thesis unfolding apart_def by blast
qed

lemma plan_apart:
  assumes "make_plan std_sort opt g = Inr p" and "std_sort_law std_sort" and "well_numbered g" and "single_producer g"
    and "topological_sort g = Inr order"
    and "v < length (g_values g)" and "w < length (g_values g)" and "v \<noteq> w"
    and "lr_eligible (mp_ranges p ! v)" and "lr_eligible (mp_ranges p ! w)"
    and "lr_buffer (mp_ranges p ! v) = lr_buffer (mp_ranges p ! w)"
  shows "uses_before g order v w \<or> uses_before g order w v"
  using plan_over [OF assms] by (auto simp: over_before_def)

text \<open>C14. Two values that the plan puts into the same buffer are never in use at the same time: in the order of execution,
  all nodes that read or write the one come before all nodes that read or write the other. So a node never overwrites
  a value that is still needed, nor its own input. (In a graph whose values have at most one producer, as
  the builder makes them; whatever order \<open>std::sort\<close> gives equivalent ranges.)\<close>

theorem planned_values_never_interfere:
  assumes "make_plan std_sort opt g = Inr p" and "std_sort_law std_sort" and "well_numbered g" and "single_producer g"
    and "topological_sort g = Inr order"
    and "v < length (g_values g)" and "w < length (g_values g)" and "v \<noteq> w"
    and "lr_eligible (mp_ranges p ! v)" and "lr_eligible (mp_ranges p ! w)"
    and "lr_buffer (mp_ranges p ! v) = lr_buffer (mp_ranges p ! w)"
  shows "uses_before g order v w \<or> uses_before g order w v"
  using assms by (rule plan_apart)

lemma align_up_no_wrap:
  assumes "0 < a" and "n + a \<le> 2 ^ 64"
  shows "a dvd align_up n a" "n \<le> align_up n a" "align_up n a < n + a"
proof -
  have r: "n mod a < a" using assms(1) by simp
  have "n + (a - n mod a) = (n div a + 1) * a" using r div_mult_mod_eq [of n a] by (simp only: add_mult_distrib)
  moreover have "n mod a = 0 \<or> n + (a - n mod a) < 2 ^ 64" using assms(2) r by linarith
  ultimately show "a dvd align_up n a" "n \<le> align_up n a" "align_up n a < n + a"
    using assms(1) r by (auto simp: align_up_def)
qed

lemma sum_bytes_exact:
  "sum_list (map mb_bytes bs) + n < 2 ^ 64 \<Longrightarrow> foldl (\<lambda>n b. wrap64 (n + mb_bytes b)) n bs = n + sum_list (map mb_bytes bs)"
  by (induction bs arbitrary: n) (simp_all add: add.assoc)

lemma plan_fit:
  assumes "make_plan std_sort opt g = Inr p" and "std_sort_law std_sort"
    and "v < length (g_values g)" and "lr_eligible (mp_ranges p ! v)"
  shows "lr_buffer (mp_ranges p ! v) < length (mp_buffers p)
    \<and> buffer_key (mp_buffers p ! lr_buffer (mp_ranges p ! v)) =
        (v_dtype (g_values g ! v), dev_type (v_device (g_values g ! v)), dev_index (v_device (g_values g ! v)))
    \<and> (\<exists>n s. numel (v_shape (g_values g ! v)) = Inr n \<and> dtype_size (v_dtype (g_values g ! v)) = Inr s
         \<and> lr_bytes (mp_ranges p ! v) = n * s
         \<and> (n * s + po_alignment opt \<le> 2 ^ 64 \<longrightarrow> n * s \<le> mb_bytes (mp_buffers p ! lr_buffer (mp_ranges p ! v))))"
proof (rule make_plan_parts [OF assms(1,2)], goal_cases)
  case (1 order l rs "is" now al)
  note inv = reuse_invD [OF 1(9)]
  have v: "v < length rs" using 1(5) assms(3) by simp
  have same: "mp_ranges p ! v = (rs ! v)\<lparr>lr_buffer := lr_buffer (mp_ranges p ! v)\<rparr>" using inv(4) [OF v] 1(10) by simp
  have elig: "lr_eligible (rs ! v)" "lr_bytes (mp_ranges p ! v) = lr_bytes (rs ! v)"
    using assms(4) by (subst (asm) same, simp) (subst same, simp)
  have range: "measure_range opt l (if order = [] then 0 else length order - 1) (g_values g ! v) = Inr (rs ! v)"
    using 1(6) v by blast
  have house: "housed (al_buffers al) (rs ! v) (lr_buffer (mp_ranges p ! v))"
    using inv(6) [of v] 1(8,10) v elig by auto
  note frame = assign_arenas_frame [of "po_alignment opt" "[]" "al_buffers al", folded 1(11)]
  obtain ar off where buf: "mp_buffers p ! lr_buffer (mp_ranges p ! v) =
      (al_buffers al ! lr_buffer (mp_ranges p ! v))\<lparr>mb_arena := ar, mb_offset := off\<rparr>"
    using frame house by (auto simp: housed_def)
  obtain n s where ns: "numel (v_shape (g_values g ! v)) = Inr n" "dtype_size (v_dtype (g_values g ! v)) = Inr s"
    "lr_bytes (rs ! v) = n * s" "lr_aligned (rs ! v) = align_up (n * s) (po_alignment opt)"
    using live_range_eligible [OF range elig(1)] by blast
  have "n * s \<le> mb_bytes (mp_buffers p ! lr_buffer (mp_ranges p ! v))" if "n * s + po_alignment opt \<le> 2 ^ 64"
    using align_up_no_wrap(2) [OF 1(3) that] ns(4) house buf by (simp add: housed_def)
  moreover have "buffer_key (mp_buffers p ! lr_buffer (mp_ranges p ! v)) =
      (v_dtype (g_values g ! v), dev_type (v_device (g_values g ! v)), dev_index (v_device (g_values g ! v)))"
    using house buf live_range_fields(4,5) [OF range] by (simp add: housed_def buffer_key_def range_key_def)
  ultimately show ?case using house frame ns elig(2) by (auto simp: housed_def)
qed

text \<open>Every planned value has a buffer of the plan, of its own dtype and device, and the buffer is large enough
  for its elements, unless rounding its size up to the alignment leaves \<open>size_t\<close>.\<close>

theorem planned_buffers_fit:
  assumes "make_plan std_sort opt g = Inr p" and "std_sort_law std_sort"
    and "v < length (g_values g)" and "lr_eligible (mp_ranges p ! v)"
  shows "lr_buffer (mp_ranges p ! v) < length (mp_buffers p)
    \<and> buffer_key (mp_buffers p ! lr_buffer (mp_ranges p ! v)) =
        (v_dtype (g_values g ! v), dev_type (v_device (g_values g ! v)), dev_index (v_device (g_values g ! v)))
    \<and> (\<exists>n s. numel (v_shape (g_values g ! v)) = Inr n \<and> dtype_size (v_dtype (g_values g ! v)) = Inr s
         \<and> lr_bytes (mp_ranges p ! v) = n * s
         \<and> (n * s + po_alignment opt \<le> 2 ^ 64 \<longrightarrow> n * s \<le> mb_bytes (mp_buffers p ! lr_buffer (mp_ranges p ! v))))"
  using assms by (rule plan_fit)

lemma plan_layout:
  assumes "make_plan std_sort opt g = Inr p" and "std_sort_law std_sort"
    and "\<forall>r \<in> set (mp_ranges p). lr_eligible r \<longrightarrow> lr_bytes r + po_alignment opt \<le> 2 ^ 64"
    and "sum_list (map mb_bytes (mp_buffers p)) < 2 ^ 64"
  shows "(\<forall>i < length (mp_buffers p). po_alignment opt dvd mb_offset (mp_buffers p ! i)
      \<and> mb_offset (mp_buffers p ! i) + mb_bytes (mp_buffers p ! i) \<le> sum_list (map mb_bytes (mp_buffers p)))
    \<and> (\<forall>i j. i < j \<longrightarrow> j < length (mp_buffers p) \<longrightarrow>
        (mb_arena (mp_buffers p ! i) = mb_arena (mp_buffers p ! j)
          \<longleftrightarrow> buffer_key (mp_buffers p ! i) = buffer_key (mp_buffers p ! j))
      \<and> (mb_arena (mp_buffers p ! i) = mb_arena (mp_buffers p ! j) \<longrightarrow>
        mb_offset (mp_buffers p ! i) + mb_bytes (mp_buffers p ! i) \<le> mb_offset (mp_buffers p ! j)))"
proof (rule make_plan_parts [OF assms(1,2)], goal_cases)
  case (1 order l rs "is" now al)
  note inv = reuse_invD [OF 1(9)]
  note frame = assign_arenas_frame [of "po_alignment opt" "[]" "al_buffers al", folded 1(11)]
  have keep: "buffer_key (mp_buffers p ! b) = buffer_key (al_buffers al ! b) \<and> mb_bytes (mp_buffers p ! b) = mb_bytes (al_buffers al ! b)"
    if b: "b < length (al_buffers al)" for b
  proof -
    obtain ar off where "mp_buffers p ! b = (al_buffers al ! b)\<lparr>mb_arena := ar, mb_offset := off\<rparr>"
      using frame b by blast
    then show ?thesis by (simp add: buffer_key_def)
  qed
  have bytes: "map mb_bytes (mp_buffers p) = map mb_bytes (al_buffers al)"
    using frame keep by (intro nth_equalityI) auto
  have aligned: "po_alignment opt dvd lr_aligned (rs ! i)" if "i \<in> set is" for i
  proof -
    have i: "i < length rs" "lr_eligible (rs ! i)" using that 1(8) by auto
    have same: "mp_ranges p ! i = (rs ! i)\<lparr>lr_buffer := lr_buffer (mp_ranges p ! i)\<rparr>" using inv(4) [OF i(1)] 1(10) by simp
    have "mp_ranges p ! i \<in> set (mp_ranges p)" using i(1) inv(2) 1(10) by simp
    moreover have "lr_eligible (mp_ranges p ! i)" "lr_bytes (mp_ranges p ! i) = lr_bytes (rs ! i)"
      using i(2) by (subst same, simp)+
    ultimately have "lr_bytes (rs ! i) + po_alignment opt \<le> 2 ^ 64" using assms(3) by auto
    with live_range_eligible [OF _ i(2)] 1(6) i(1) align_up_no_wrap(1) [OF 1(3)] show ?thesis by metis
  qed
  have dvd: "\<forall>b \<in> set (al_buffers al). po_alignment opt dvd mb_bytes b" using inv(9) aligned by auto
  have total: "0 + sum_list (map mb_bytes (al_buffers al)) < 2 ^ 64" using assms(4) bytes by simp
  have start: "info_ok (po_alignment opt) 0 []" by (simp add: info_ok_def)
  have out: "laid_out (po_alignment opt) [] (al_buffers al) (mp_buffers p)"
    unfolding 1(11) by (rule assign_arenas_laid_out [OF start dvd total])
  have len: "length (mp_buffers p) = length (al_buffers al)" using frame by blast
  have fin: "mb_offset (mp_buffers p ! i) + mb_bytes (mp_buffers p ! i) \<le> sum_list (map mb_bytes (mp_buffers p))"
    if "i < length (mp_buffers p)" for i
    using assign_arenas_bounded [OF start dvd total, of i, folded 1(11)] that len keep bytes by simp
  have each: "po_alignment opt dvd mb_offset (mp_buffers p ! i)" if "i < length (mp_buffers p)" for i
    using out that len by (simp add: laid_out_def)
  have pair: "(mb_arena (mp_buffers p ! i) = mb_arena (mp_buffers p ! j) \<longleftrightarrow>
        buffer_key (mp_buffers p ! i) = buffer_key (mp_buffers p ! j))
      \<and> (buffer_key (mp_buffers p ! i) = buffer_key (mp_buffers p ! j) \<longrightarrow>
        mb_offset (mp_buffers p ! i) + mb_bytes (mp_buffers p ! i) \<le> mb_offset (mp_buffers p ! j))"
    if "i < j" "j < length (mp_buffers p)" for i j
    using out that len keep [of i] keep [of j] by (auto simp: laid_out_def)
  show ?case using each fin pair by blast
qed

lemma plan_arenas:
  assumes "make_plan std_sort opt g = Inr p" and "std_sort_law std_sort"
    and "\<forall>r \<in> set (mp_ranges p). lr_eligible r \<longrightarrow> lr_bytes r + po_alignment opt \<le> 2 ^ 64"
    and "sum_list (map mb_bytes (mp_buffers p)) < 2 ^ 64"
    and "i < j" and "j < length (mp_buffers p)"
  shows "(mb_arena (mp_buffers p ! i) = mb_arena (mp_buffers p ! j)
        \<longleftrightarrow> buffer_key (mp_buffers p ! i) = buffer_key (mp_buffers p ! j))
    \<and> (mb_arena (mp_buffers p ! i) = mb_arena (mp_buffers p ! j) \<longrightarrow>
        mb_offset (mp_buffers p ! i) + mb_bytes (mp_buffers p ! i) \<le> mb_offset (mp_buffers p ! j))
    \<and> po_alignment opt dvd mb_offset (mp_buffers p ! j)"
  using plan_layout [OF assms(1-4)] assms(5,6) by blast

lemma plan_buffer_end:
  assumes "make_plan std_sort opt g = Inr p" and "std_sort_law std_sort"
    and "\<forall>r \<in> set (mp_ranges p). lr_eligible r \<longrightarrow> lr_bytes r + po_alignment opt \<le> 2 ^ 64"
    and "sum_list (map mb_bytes (mp_buffers p)) < 2 ^ 64" and "i < length (mp_buffers p)"
  shows "mb_offset (mp_buffers p ! i) + mb_bytes (mp_buffers p ! i) < 2 ^ 64" "po_alignment opt dvd mb_offset (mp_buffers p ! i)"
  using plan_layout [OF assms(1-4)] assms(4,5) by (blast intro: le_less_trans)+

text \<open>C19. Two buffers of a plan lie in the same arena exactly when they have the same dtype and device; there the
  later one starts where the earlier one has ended or behind it, and every offset is aligned. (As long as no size
  rounds up out of \<open>size_t\<close> and the buffers together fit in it.)\<close>

theorem planned_arenas_disjoint:
  assumes "make_plan std_sort opt g = Inr p" and "std_sort_law std_sort"
    and "\<forall>r \<in> set (mp_ranges p). lr_eligible r \<longrightarrow> lr_bytes r + po_alignment opt \<le> 2 ^ 64"
    and "sum_list (map mb_bytes (mp_buffers p)) < 2 ^ 64"
    and "i < j" and "j < length (mp_buffers p)"
  shows "(mb_arena (mp_buffers p ! i) = mb_arena (mp_buffers p ! j)
        \<longleftrightarrow> buffer_key (mp_buffers p ! i) = buffer_key (mp_buffers p ! j))
    \<and> (mb_arena (mp_buffers p ! i) = mb_arena (mp_buffers p ! j) \<longrightarrow>
        mb_offset (mp_buffers p ! i) + mb_bytes (mp_buffers p ! i) \<le> mb_offset (mp_buffers p ! j))
    \<and> po_alignment opt dvd mb_offset (mp_buffers p ! j)"
  using assms by (rule plan_arenas)

text \<open>The plan never needs more memory than a buffer of its own for every planned value, and both totals are exact
  while the latter fits in \<open>size_t\<close>.\<close>

theorem plan_saves_memory:
  assumes "make_plan std_sort opt g = Inr p" and "std_sort_law std_sort"
    and "sum_list (map lr_aligned (filter lr_eligible (mp_ranges p))) < 2 ^ 64"
  shows "mp_planned_bytes p = sum_list (map mb_bytes (mp_buffers p))
    \<and> mp_naive_bytes p = sum_list (map lr_aligned (filter lr_eligible (mp_ranges p)))
    \<and> mp_planned_bytes p \<le> mp_naive_bytes p"
proof (rule make_plan_parts [OF assms(1,2)], goal_cases)
  case (1 order l rs "is" now al)
  note inv = reuse_invD [OF 1(9)]
  note frame = assign_arenas_frame [of "po_alignment opt" "[]" "al_buffers al", folded 1(11)]
  have bytes: "map mb_bytes (mp_buffers p) = map mb_bytes (al_buffers al)"
  proof (rule nth_equalityI)
    fix b assume "b < length (map mb_bytes (mp_buffers p))"
    then obtain ar off where "mp_buffers p ! b = (al_buffers al ! b)\<lparr>mb_arena := ar, mb_offset := off\<rparr>"
      using frame by fastforce
    then show "map mb_bytes (mp_buffers p) ! b = map mb_bytes (al_buffers al) ! b"
      using frame \<open>b < length (map mb_bytes (mp_buffers p))\<close> by simp
  qed (simp add: frame)
  have ranges: "map (\<lambda>r. (lr_eligible r, lr_aligned r)) (mp_ranges p) = map (\<lambda>r. (lr_eligible r, lr_aligned r)) rs"
  proof (rule nth_equalityI)
    fix i assume "i < length (map (\<lambda>r. (lr_eligible r, lr_aligned r)) (mp_ranges p))"
    then have i: "i < length rs" using inv(2) 1(10) by simp
    obtain b where "mp_ranges p ! i = (rs ! i)\<lparr>lr_buffer := b\<rparr>" using inv(4) [OF i, folded 1(10)] by blast
    then show "map (\<lambda>r. (lr_eligible r, lr_aligned r)) (mp_ranges p) ! i = map (\<lambda>r. (lr_eligible r, lr_aligned r)) rs ! i"
      using i inv(2) 1(10) by simp
  qed (simp add: inv(2) 1(10))
  have filt: "map lr_aligned (filter lr_eligible xs) = map snd (filter fst (map (\<lambda>r. (lr_eligible r, lr_aligned r)) xs))" for xs
    by (induction xs) auto
  have naive: "map lr_aligned (filter lr_eligible (mp_ranges p)) = map lr_aligned (filter lr_eligible rs)"
    unfolding filt ranges ..
  have "sum_mset (image_mset (\<lambda>i. lr_aligned (rs ! i)) (mset is)) =
      sum_mset (image_mset (\<lambda>i. lr_aligned (rs ! i)) (mset (filter (\<lambda>i. lr_eligible (rs ! i)) [0..<length rs])))"
    by (simp only: 1(14))
  then have "sum_list (map (\<lambda>i. lr_aligned (rs ! i)) is) = sum_list (map (\<lambda>i. lr_aligned (rs ! i)) (filter (\<lambda>i. lr_eligible (rs ! i)) [0..<length rs]))"
    by (simp only: mset_map [symmetric] sum_mset_sum_list)
  also have "\<dots> = sum_list (map lr_aligned (filter lr_eligible rs))" by (simp add: filter_as_indices [of lr_eligible rs] comp_def)
  finally have "sum_list (map mb_bytes (al_buffers al)) \<le> sum_list (map lr_aligned (filter lr_eligible rs))"
    using inv(8) by simp
  then show ?case
    using 1(12,13) assms(3) naive bytes sum_bytes_exact [of "al_buffers al" 0] by (simp add: sum_bytes_def)
qed

section \<open>A chain of three nodes\<close>

definition chain_value :: "nat \<Rightarrow> value_kind \<Rightarrow> graph_value" where
  "chain_value i k = \<lparr>v_id = i, v_name = ''v'', v_shape = Shape [4], v_dtype = Float32, v_device = device_cpu, v_kind = k\<rparr>"

definition chain :: "nat graph" where
  "chain = \<lparr>g_values = [chain_value 0 KInput, chain_value 1 KIntermediate, chain_value 2 KIntermediate,
       chain_value 3 KIntermediate],
     g_nodes = [make_node 0 OpSiLU ''a'' [0] [1], make_node 1 OpSiLU ''b'' [1] [2], make_node 2 OpSiLU ''c'' [2] [3]]\<rparr>"

lemma chain_sorts: "topological_sort chain = Inr [0, 1, 2]"
  by (simp add: chain_def topological_sort_def validate_def make_node_def chain_value_def value_producer_def Let_def
      eval_nat_numeral)

lemma chain_lifetimes:
  "scan_order chain 0 [0, 1, 2] (no_lifetimes 4) =
     Inr \<lparr>lt_first = [0, 0, 1, 2], lt_last = [0, 1, 2, 2], lt_has = [False, True, True, True]\<rparr>"
  by (simp add: chain_def no_lifetimes_def g_node_def make_node_def eval_nat_numeral)

definition chain_range :: "nat \<Rightarrow> nat \<Rightarrow> nat \<Rightarrow> live_range" where
  "chain_range i fs ls = \<lparr>lr_value = i, lr_name = ''v'', lr_bytes = 16, lr_aligned = 64, lr_dtype = Float32,
     lr_device = device_cpu, lr_kind = KIntermediate, lr_first = fs, lr_last = ls, lr_eligible = True,
     lr_skip_reason = '''', lr_buffer = no_buffer\<rparr>"

definition chain_input :: live_range where
  "chain_input = \<lparr>lr_value = 0, lr_name = ''v'', lr_bytes = 0, lr_aligned = 0, lr_dtype = Float32,
     lr_device = device_cpu, lr_kind = KInput, lr_first = 0, lr_last = 0, lr_eligible = False,
     lr_skip_reason = ''kind=Input'', lr_buffer = no_buffer\<rparr>"

definition chain_options :: plan_options where
  "chain_options = \<lparr>po_alignment = 64, po_include_outputs = False\<rparr>"

lemma chain_range_eval:
  fixes l defines "l \<equiv> \<lparr>lt_first = [0, 0, 1, 2], lt_last = [0, 1, 2, 2], lt_has = [False, True, True, True]\<rparr>"
  shows "measure_range chain_options l 2 (chain_value 1 KIntermediate) = Inr (chain_range 1 0 1)"
    "measure_range chain_options l 2 (chain_value 2 KIntermediate) = Inr (chain_range 2 1 2)"
    "measure_range chain_options l 2 (chain_value 3 KIntermediate) = Inr (chain_range 3 2 2)"
    "measure_range chain_options l 2 (chain_value 0 KInput) = Inr chain_input"
  by (simp_all add: l_def measure_range_def bare_range_def chain_value_def chain_range_def chain_input_def chain_options_def
      device_cpu_def skipped_def has_dynamic_dim_def numel_def align_up_def Let_def)

definition chain_ranges :: "live_range list" where
  "chain_ranges = [chain_input, chain_range 1 0 1, chain_range 2 1 2, chain_range 3 2 2]"

definition chain_buffer :: "nat \<Rightarrow> nat \<Rightarrow> value_id list \<Rightarrow> memory_buffer" where
  "chain_buffer i use vs = \<lparr>mb_id = i, mb_bytes = 64, mb_dtype = Float32, mb_device = device_cpu, mb_last_use = use,
     mb_arena = size_max, mb_offset = 0, mb_values = vs\<rparr>"

definition chain_key :: pool_key where
  "chain_key = (Float32, CPU, 0)"

lemma chain_simps:
  "lr_first (chain_range i a b) = a" "lr_last (chain_range i a b) = b" "lr_aligned (chain_range i a b) = 64"
  "lr_eligible (chain_range i a b)" "\<not> lr_eligible chain_input" "range_key (chain_range i a b) = chain_key"
  "lr_dtype (chain_range i a b) = Float32" "lr_device (chain_range i a b) = device_cpu" "lr_value (chain_range i a b) = i"
  "buffer_key (chain_buffer i u vs) = chain_key" "mb_bytes (chain_buffer i u vs) = 64" "mb_id (chain_buffer i u vs) = i"
  "\<lparr>mb_id = i, mb_bytes = 64, mb_dtype = Float32, mb_device = device_cpu, mb_last_use = u,
     mb_arena = 18446744073709551615, mb_offset = 0, mb_values = vs\<rparr> = chain_buffer i u vs"
  "(chain_buffer i u vs)\<lparr>mb_last_use := u', mb_values := ws\<rparr> = chain_buffer i u' ws"
  "mb_values (chain_buffer i u vs) = vs"
  by (simp_all add: chain_range_def chain_input_def chain_buffer_def range_key_def buffer_key_def chain_key_def device_cpu_def)

lemma chain_sorted:
  "sort_by (range_before chain_ranges) (filter (\<lambda>i. lr_eligible (chain_ranges ! i)) [0..<length chain_ranges]) = [1, 2, 3]"
  by (simp add: chain_ranges_def chain_simps sort_by_def range_before_def)

lemma chain_place1:
  "place_range 1 (start_alloc chain_ranges) = \<lparr>al_ranges = chain_ranges[1 := (chain_range 1 0 1)\<lparr>lr_buffer := 0\<rparr>],
     al_buffers = [chain_buffer 0 1 [1]], al_pools = (\<lambda>_. []), al_live = [(1, 0)]\<rparr>"
  by (simp add: place_range_def start_alloc_def chain_ranges_def chain_simps)

lemma chain_place2:
  "place_range 2 (place_range 1 (start_alloc chain_ranges)) =
     \<lparr>al_ranges = chain_ranges[1 := (chain_range 1 0 1)\<lparr>lr_buffer := 0\<rparr>, 2 := (chain_range 2 1 2)\<lparr>lr_buffer := 1\<rparr>],
      al_buffers = [chain_buffer 0 1 [1], chain_buffer 1 2 [2]], al_pools = (\<lambda>_. []), al_live = [(1, 0), (2, 1)]\<rparr>"
  unfolding chain_place1
  by (simp add: place_range_def chain_ranges_def chain_simps less_eq_prod_def)

lemma chain_place3:
  "place_range 3 (place_range 2 (place_range 1 (start_alloc chain_ranges))) =
     \<lparr>al_ranges = chain_ranges[1 := (chain_range 1 0 1)\<lparr>lr_buffer := 0\<rparr>, 2 := (chain_range 2 1 2)\<lparr>lr_buffer := 1\<rparr>,
        3 := (chain_range 3 2 2)\<lparr>lr_buffer := 0\<rparr>],
      al_buffers = [chain_buffer 0 2 [1, 3], chain_buffer 1 2 [2]], al_pools = (\<lambda>_. []), al_live = [(2, 0), (2, 1)]\<rparr>"
  unfolding chain_place2
  by (simp add: place_range_def chain_ranges_def chain_simps less_eq_prod_def fun_eq_iff)

lemma chain_placed:
  "plan_buffers sort_by chain_ranges =
     \<lparr>al_ranges = chain_ranges[1 := (chain_range 1 0 1)\<lparr>lr_buffer := 0\<rparr>, 2 := (chain_range 2 1 2)\<lparr>lr_buffer := 1\<rparr>,
        3 := (chain_range 3 2 2)\<lparr>lr_buffer := 0\<rparr>],
      al_buffers = [chain_buffer 0 2 [1, 3], chain_buffer 1 2 [2]], al_pools = (\<lambda>_. []), al_live = [(2, 0), (2, 1)]\<rparr>"
  unfolding plan_buffers_def chain_sorted foldl_Cons foldl_Nil by (rule chain_place3)

lemma chain_plan:
  "\<exists>p. make_plan sort_by chain_options chain = Inr p
     \<and> mp_ranges p = chain_ranges[1 := (chain_range 1 0 1)\<lparr>lr_buffer := 0\<rparr>, 2 := (chain_range 2 1 2)\<lparr>lr_buffer := 1\<rparr>,
        3 := (chain_range 3 2 2)\<lparr>lr_buffer := 0\<rparr>]
     \<and> mp_buffers p = [(chain_buffer 0 2 [1, 3])\<lparr>mb_arena := 0, mb_offset := 0\<rparr>, (chain_buffer 1 2 [2])\<lparr>mb_arena := 0, mb_offset := 64\<rparr>]"
proof -
  let ?l = "\<lparr>lt_first = [0, 0, 1, 2], lt_last = [0, 1, 2, 2], lt_has = [False, True, True, True]\<rparr>"
  let ?p0 = "empty_plan\<lparr>mp_alignment := po_alignment chain_options\<rparr>"
  have valid: "validate chain = make_ok" and align: "po_alignment chain_options = 64"
    by (simp_all add: chain_def validate_def make_node_def chain_options_def)
  have vals: "g_values chain = [chain_value 0 KInput, chain_value 1 KIntermediate, chain_value 2 KIntermediate,
       chain_value 3 KIntermediate]" by (simp add: chain_def)
  have "\<exists>p1. build_ranges chain_options ?l 2 (g_values chain) ?p0 = Inr p1 \<and> mp_ranges p1 = chain_ranges"
    unfolding vals build_ranges.simps chain_range_eval rbind_simps
    by (simp add: add_range_def chain_simps empty_plan_def chain_ranges_def)
  then obtain p1 where p1: "build_ranges chain_options ?l 2 (g_values chain) ?p0 = Inr p1" "mp_ranges p1 = chain_ranges"
    by blast
  have len: "length (g_values chain) = 4" by (simp add: vals)
  show ?thesis
    unfolding make_plan_def valid chain_sorts len align rbind_simps chain_lifetimes
    using p1 by (simp add: chain_placed align chain_simps align_up_def Let_def numeral_2_eq_2 [symmetric])
qed

lemma chain_graph: "well_numbered chain" "single_producer chain" "length (g_values chain) = 4"
  by (auto simp: well_numbered_def single_producer_def writes_def chain_def chain_value_def make_node_def less_Suc_eq
      nth_Cons' numeral_eq_Suc split: if_splits)

theorem planned_values_never_interfere_witness:
  "uses_before chain [0, 1, 2] 1 3 \<or> uses_before chain [0, 1, 2] 3 1"
proof -
  obtain p where p: "make_plan sort_by chain_options chain = Inr p"
    "mp_ranges p = chain_ranges[1 := (chain_range 1 0 1)\<lparr>lr_buffer := 0\<rparr>, 2 := (chain_range 2 1 2)\<lparr>lr_buffer := 1\<rparr>,
        3 := (chain_range 3 2 2)\<lparr>lr_buffer := 0\<rparr>]" using chain_plan by blast
  show ?thesis
    by (rule planned_values_never_interfere [OF p(1) std_sort_law_sort_by chain_graph(1,2) chain_sorts])
      (simp_all add: p(2) chain_ranges_def chain_range_def chain_graph(3))
qed

theorem planned_buffers_fit_witness:
  "\<exists>p. make_plan sort_by chain_options chain = Inr p \<and> 16 \<le> mb_bytes (mp_buffers p ! lr_buffer (mp_ranges p ! 3))"
proof -
  obtain p where p: "make_plan sort_by chain_options chain = Inr p"
    "mp_ranges p = chain_ranges[1 := (chain_range 1 0 1)\<lparr>lr_buffer := 0\<rparr>, 2 := (chain_range 2 1 2)\<lparr>lr_buffer := 1\<rparr>,
        3 := (chain_range 3 2 2)\<lparr>lr_buffer := 0\<rparr>]" using chain_plan by blast
  have "lr_eligible (mp_ranges p ! 3)" "lr_bytes (mp_ranges p ! 3) = 16"
    by (simp_all add: p(2) chain_ranges_def chain_range_def)
  with planned_buffers_fit [OF p(1) std_sort_law_sort_by, of 3] p(1) show ?thesis
    by (auto simp: chain_graph(3) chain_options_def)
qed

theorem planned_arenas_disjoint_witness:
  "\<exists>p. make_plan sort_by chain_options chain = Inr p
     \<and> mb_offset (mp_buffers p ! 0) + mb_bytes (mp_buffers p ! 0) \<le> mb_offset (mp_buffers p ! 1)"
proof -
  obtain p where p: "make_plan sort_by chain_options chain = Inr p"
    "mp_ranges p = chain_ranges[1 := (chain_range 1 0 1)\<lparr>lr_buffer := 0\<rparr>, 2 := (chain_range 2 1 2)\<lparr>lr_buffer := 1\<rparr>,
        3 := (chain_range 3 2 2)\<lparr>lr_buffer := 0\<rparr>]"
    "mp_buffers p = [(chain_buffer 0 2 [1, 3])\<lparr>mb_arena := 0, mb_offset := 0\<rparr>, (chain_buffer 1 2 [2])\<lparr>mb_arena := 0, mb_offset := 64\<rparr>]"
    using chain_plan by blast
  have small: "\<forall>r \<in> set (mp_ranges p). lr_eligible r \<longrightarrow> lr_bytes r + po_alignment chain_options \<le> 2 ^ 64"
    by (simp add: p(2) chain_ranges_def chain_range_def chain_input_def chain_options_def)
  have len: "1 < length (mp_buffers p)" and arena: "mb_arena (mp_buffers p ! 0) = mb_arena (mp_buffers p ! 1)"
    and total: "sum_list (map mb_bytes (mp_buffers p)) < 2 ^ 64" by (simp_all add: p(3) chain_buffer_def)
  from planned_arenas_disjoint [OF p(1) std_sort_law_sort_by small total zero_less_one len] arena p(1) show ?thesis by blast
qed

theorem plan_saves_memory_witness:
  "\<exists>p. make_plan sort_by chain_options chain = Inr p \<and> mp_planned_bytes p = 128 \<and> mp_naive_bytes p = 192"
proof -
  obtain p where p: "make_plan sort_by chain_options chain = Inr p"
    "mp_ranges p = chain_ranges[1 := (chain_range 1 0 1)\<lparr>lr_buffer := 0\<rparr>, 2 := (chain_range 2 1 2)\<lparr>lr_buffer := 1\<rparr>,
        3 := (chain_range 3 2 2)\<lparr>lr_buffer := 0\<rparr>]"
    "mp_buffers p = [(chain_buffer 0 2 [1, 3])\<lparr>mb_arena := 0, mb_offset := 0\<rparr>, (chain_buffer 1 2 [2])\<lparr>mb_arena := 0, mb_offset := 64\<rparr>]"
    using chain_plan by blast
  have naive: "sum_list (map lr_aligned (filter lr_eligible (mp_ranges p))) = 192"
    by (simp add: p(2) chain_ranges_def chain_range_def chain_input_def)
  then have "sum_list (map lr_aligned (filter lr_eligible (mp_ranges p))) < 2 ^ 64" by simp
  from plan_saves_memory [OF p(1) std_sort_law_sort_by this] naive p(1) show ?thesis
    by (simp add: p(3) chain_buffer_def)
qed

text \<open>Rounding up wraps: an \<open>Int8\<close> tensor of \<open>2^64 - 1\<close> elements passes the overflow test, and its aligned size
  is zero, so the plan gives it an empty buffer.\<close>

theorem aligned_size_wraps_to_zero:
  "measure_range chain_options (no_lifetimes 1) 0
     \<lparr>v_id = 0, v_name = ''t'', v_shape = Shape [4294967295, 4294967297], v_dtype = Int8, v_device = device_cpu,
      v_kind = KIntermediate\<rparr>
   = Inr \<lparr>lr_value = 0, lr_name = ''t'', lr_bytes = 2 ^ 64 - 1, lr_aligned = 0, lr_dtype = Int8, lr_device = device_cpu,
      lr_kind = KIntermediate, lr_first = 0, lr_last = 0, lr_eligible = True, lr_skip_reason = [], lr_buffer = no_buffer\<rparr>"
  by (simp add: measure_range_def bare_range_def no_lifetimes_def chain_options_def device_cpu_def has_dynamic_dim_def
      numel_def align_up_def wrap64_def Let_def)

end
