(* ===== verification/Planned_Memory.thy ===== *)
theory Planned_Memory
  imports Runtime_Context Memory_Plan_Properties
begin

text \<open>
  What \<open>allocate_intermediates_planned\<close> makes of a plan: the tensors of the planned values point into the arenas,
  and two of them overlap only if the plan keeps their uses apart.
\<close>

section \<open>The heap and the map of arenas\<close>

text \<open>\<open>new\<close> returns memory that overlaps no block in use and ends within the address space; an
  \<open>unordered_map\<close> is met in some order, each entry once.\<close>

definition apart_blocks :: "nat \<Rightarrow> nat \<Rightarrow> nat \<Rightarrow> nat \<Rightarrow> bool" where
  "apart_blocks p n q m \<longleftrightarrow> p + n \<le> q \<or> q + m \<le> p"

definition heap_law :: "((nat \<times> nat) list \<Rightarrow> nat \<Rightarrow> nat option) \<Rightarrow> bool" where
  "heap_law heap \<longleftrightarrow> (\<forall>blocks n p. heap blocks n = Some p \<longrightarrow>
     0 < p \<and> p + n \<le> 2 ^ 64 \<and> (\<forall>q m. (q, m) \<in> set blocks \<longrightarrow> apart_blocks p n q m))"

definition map_order_law :: "('a list \<Rightarrow> 'a list) \<Rightarrow> bool" where
  "map_order_law ord \<longleftrightarrow> (\<forall>xs. mset (ord xs) = mset xs)"

lemma heap_lawD:
  assumes "heap_law heap" and "heap blocks n = Some p"
  shows "0 < p" "p + n \<le> 2 ^ 64" "(q, m) \<in> set blocks \<Longrightarrow> apart_blocks p n q m"
  using assms unfolding heap_law_def by blast+

lemma align_pointer_ok:
  assumes "0 < a" and "p + a \<le> 2 ^ 64"
  shows "a dvd align_pointer p a" "p \<le> align_pointer p a" "align_pointer p a \<le> p + a"
proof -
  have "align_pointer p a = align_up p a" by (simp add: align_pointer_def align_up_def)
  with align_up_no_wrap [OF assms] show "a dvd align_pointer p a" "p \<le> align_pointer p a" "align_pointer p a \<le> p + a"
    by simp_all
qed

section \<open>Arenas\<close>

lemma map_default_lookup:
  "map_of (AList.map_default k v f al) = (map_of al)(k \<mapsto> (case map_of al k of None \<Rightarrow> v | Some x \<Rightarrow> f x))"
  by (induction al) (auto simp: fun_eq_iff)

lemma map_default_keys:
  "map fst (AList.map_default k v f al) = (if k \<in> fst ` set al then map fst al else map fst al @ [k])"
  by (induction al) auto

lemma group_buffers_spec:
  assumes "group_buffers bi bs (m, mx) = Inr (m', mx')" and "distinct (map fst m)"
    and "\<forall>k is. map_of m k = Some is \<longrightarrow> is \<noteq> [] \<and> k \<le> mx"
  shows "distinct (map fst m') \<and> (\<forall>k is. map_of m' k = Some is \<longrightarrow> is \<noteq> [] \<and> k \<le> mx')
    \<and> (\<forall>k is. map_of m k = Some is \<longrightarrow> (\<exists>is'. map_of m' k = Some is' \<and> set is \<subseteq> set is'))
    \<and> (\<forall>i < length bs. \<exists>is. map_of m' (mb_arena (bs ! i)) = Some is \<and> bi + i \<in> set is)"
  using assms
proof (induction bs arbitrary: bi m mx)
  case Nil
  then show ?case by auto
next
  case (Cons b bs)
  let ?m = "AList.map_default (mb_arena b) [bi] (\<lambda>is. is @ [bi]) m"
  have rec: "group_buffers (Suc bi) bs (?m, max mx (mb_arena b)) = Inr (m', mx')"
    using Cons.prems(1) by (auto split: if_splits)
  have at: "map_of ?m k = (if k = mb_arena b then Some ((case map_of m k of None \<Rightarrow> [] | Some x \<Rightarrow> x) @ [bi]) else map_of m k)" for k
    by (auto simp: map_default_lookup split: option.splits)
  have d: "distinct (map fst ?m)" using Cons.prems(2) by (auto simp: map_default_keys)
  have ne: "\<forall>k is. map_of ?m k = Some is \<longrightarrow> is \<noteq> [] \<and> k \<le> max mx (mb_arena b)"
    using Cons.prems(3) by (auto simp: at le_max_iff_disj)
  note IH = Cons.IH [OF rec d ne]
  show ?case
  proof (intro conjI)
    show "distinct (map fst m')" "\<forall>k is. map_of m' k = Some is \<longrightarrow> is \<noteq> [] \<and> k \<le> mx'" using IH by blast+
    show "\<forall>k is. map_of m k = Some is \<longrightarrow> (\<exists>is'. map_of m' k = Some is' \<and> set is \<subseteq> set is')"
    proof (intro allI impI)
      fix k "is" assume k: "map_of m k = Some is"
      have "\<exists>js. map_of ?m k = Some js \<and> set is \<subseteq> set js"
        using k by (cases "k = mb_arena b") (auto simp: at)
      with IH show "\<exists>is'. map_of m' k = Some is' \<and> set is \<subseteq> set is'" by (meson subset_trans)
    qed
    show "\<forall>i < length (b # bs). \<exists>is. map_of m' (mb_arena ((b # bs) ! i)) = Some is \<and> bi + i \<in> set is"
    proof (intro allI impI)
      fix i assume i: "i < length (b # bs)"
      show "\<exists>is. map_of m' (mb_arena ((b # bs) ! i)) = Some is \<and> bi + i \<in> set is"
      proof (cases i)
        case 0
        obtain js where "map_of ?m (mb_arena b) = Some js" "bi \<in> set js" by (simp add: at)
        then show ?thesis using IH 0 by (metis add.right_neutral nth_Cons_0 subsetD)
      next
        case (Suc k)
        then have "k < length bs" using i by simp
        with IH show ?thesis unfolding Suc nth_Cons_Suc add_Suc_shift [symmetric] by blast
      qed
    qed
  qed
qed

lemma foldl_max_start: "n \<le> foldl (\<lambda>n i. max n (h i)) n is" for n :: nat
proof (induction "is" arbitrary: n)
  case (Cons i "is")
  from Cons [of "max n (h i)"] show ?case by simp
qed simp

lemma foldl_max_upper: "i \<in> set is \<Longrightarrow> h i \<le> foldl (\<lambda>n i. max n (h i)) n is" for n :: nat
proof (induction "is" arbitrary: n)
  case (Cons j "is")
  with foldl_max_start [of "max n (h j)" h "is"] show ?case by auto
qed simp

lemma arena_total_upper: "i \<in> set is \<Longrightarrow> wrap64 (mb_offset (bufs ! i) + mb_bytes (bufs ! i)) \<le> arena_total bufs is"
  unfolding arena_total_def by (rule foldl_max_upper)

definition arena_ready :: "nat \<Rightarrow> memory_buffer list \<Rightarrow> arena_table \<Rightarrow> nat \<Rightarrow> nat list \<Rightarrow> nat \<Rightarrow> bool" where
  "arena_ready a bufs tab idx is base \<longleftrightarrow> at_bases tab ! idx = Some base \<and> at_totals tab ! idx = arena_total bufs is
     \<and> at_devices tab ! idx \<noteq> CUDA \<and> 0 < base \<and> a dvd base \<and> base + arena_total bufs is \<le> 2 ^ 64"

lemma arena_ready_cong:
  assumes "arena_ready a bufs tab idx is base" and "at_bases tab' ! idx = at_bases tab ! idx"
    and "at_totals tab' ! idx = at_totals tab ! idx" and "at_devices tab' ! idx = at_devices tab ! idx"
  shows "arena_ready a bufs tab' idx is base"
  using assms by (simp add: arena_ready_def)

lemma allocate_arenas_spec:
  assumes "allocate_arenas heap a bufs groups tab rc = (Inr tab', rc')" and "heap_law heap" and "0 < a"
    and "distinct (map fst groups)" and "\<forall>(idx, is) \<in> set groups. idx < n"
    and "length (at_bases tab) = n" "length (at_totals tab) = n" "length (at_devices tab) = n"
  shows "(\<exists>new. rc' = rc\<lparr>rc_arenas := rc_arenas rc @ new\<rparr>)
    \<and> (\<forall>idx. idx \<notin> fst ` set groups \<longrightarrow> at_bases tab' ! idx = at_bases tab ! idx \<and> at_totals tab' ! idx = at_totals tab ! idx
         \<and> at_devices tab' ! idx = at_devices tab ! idx)
    \<and> (\<forall>idx is. (idx, is) \<in> set groups \<longrightarrow> (\<exists>base. arena_ready a bufs tab' idx is base
         \<and> (\<forall>q m. (q, m) \<in> set (map ca_storage (rc_arenas rc)) \<longrightarrow> apart_blocks base (arena_total bufs is) q m)))
    \<and> (\<forall>i is j js b c. (i, is) \<in> set groups \<longrightarrow> (j, js) \<in> set groups \<longrightarrow> i \<noteq> j
         \<longrightarrow> at_bases tab' ! i = Some b \<longrightarrow> at_bases tab' ! j = Some c \<longrightarrow> apart_blocks b (arena_total bufs is) c (arena_total bufs js))"
  using assms
proof (induction heap a bufs groups tab rc rule: allocate_arenas.induct)
  case (1 heap a bufs tab rc)
  then show ?case by (auto intro!: exI [of _ "[]"])
next
  case (2 heap a bufs idx "is" rest tab rc)
  let ?total = "arena_total bufs is"
  obtain p where fits: "\<not> size_max - a < ?total" "dev_type (mb_device (bufs ! hd is)) \<noteq> CUDA"
    and p: "heap (map ca_storage (rc_arenas rc)) (?total + a) = Some p"
    using 2(2) by (auto simp: Let_def split: if_splits option.splits)
  let ?base = "align_pointer p a"
  let ?tab = "tab\<lparr>at_bases := (at_bases tab)[idx := Some ?base], at_totals := (at_totals tab)[idx := ?total],
     at_devices := (at_devices tab)[idx := dev_type (mb_device (bufs ! hd is))]\<rparr>"
  let ?rc = "rc\<lparr>rc_arenas := rc_arenas rc @ [\<lparr>ca_storage = (p, ?total + a), ca_data = ?base, ca_bytes = ?total\<rparr>]\<rparr>"
  have rec: "allocate_arenas heap a bufs rest ?tab ?rc = (Inr tab', rc')"
    using 2(2) fits p by (simp add: Let_def)
  note law = heap_lawD [OF 2(3) p]
  have base: "p \<le> ?base" "a dvd ?base" "?base \<le> p + a"
    using align_pointer_ok [OF 2(4), of p] law(2) by simp_all
  have idx: "idx < n" "idx \<notin> fst ` set rest" using 2(5,6) by auto
  note IH = 2(1) [OF refl refl fits p refl rec 2(3,4)]
  have ih: "(\<exists>new. rc' = ?rc\<lparr>rc_arenas := rc_arenas ?rc @ new\<rparr>)"
    "\<And>i. i \<notin> fst ` set rest \<Longrightarrow> at_bases tab' ! i = at_bases ?tab ! i \<and> at_totals tab' ! i = at_totals ?tab ! i
         \<and> at_devices tab' ! i = at_devices ?tab ! i"
    "\<And>i js. (i, js) \<in> set rest \<Longrightarrow> (\<exists>base. arena_ready a bufs tab' i js base
         \<and> (\<forall>q m. (q, m) \<in> set (map ca_storage (rc_arenas ?rc)) \<longrightarrow> apart_blocks base (arena_total bufs js) q m))"
    "\<And>i js j ks b c. (i, js) \<in> set rest \<Longrightarrow> (j, ks) \<in> set rest \<Longrightarrow> i \<noteq> j
         \<Longrightarrow> at_bases tab' ! i = Some b \<Longrightarrow> at_bases tab' ! j = Some c \<Longrightarrow> apart_blocks b (arena_total bufs js) c (arena_total bufs ks)"
    using IH 2(5-9) by (simp_all del: map_append)
  have mine: "arena_ready a bufs tab' idx is ?base"
    unfolding arena_ready_def using ih(2) [OF idx(2)] idx(1) 2(7-9) fits(2) base law(1,2) by simp
  have near: "apart_blocks ?base ?total q m" if "(q, m) \<in> set (map ca_storage (rc_arenas rc))" for q m
    using law(3) [OF that] base by (auto simp: apart_blocks_def)
  have cross: "apart_blocks ?base ?total c (arena_total bufs js)" if "(j, js) \<in> set rest" "at_bases tab' ! j = Some c" for j js c
  proof -
    have "apart_blocks c (arena_total bufs js) p (?total + a)"
      using ih(3) [OF that(1)] that(2) by (auto simp: arena_ready_def)
    then show ?thesis using base by (auto simp: apart_blocks_def)
  qed
  show ?case
  proof (intro conjI allI impI)
    show "\<exists>new. rc' = rc\<lparr>rc_arenas := rc_arenas rc @ new\<rparr>" using ih(1) by auto
  next
    fix i assume "i \<notin> fst ` set ((idx, is) # rest)"
    then show "at_bases tab' ! i = at_bases tab ! i" "at_totals tab' ! i = at_totals tab ! i" "at_devices tab' ! i = at_devices tab ! i"
      using ih(2) [of i] by auto
  next
    fix i js assume "(i, js) \<in> set ((idx, is) # rest)"
    then consider "i = idx" "js = is" | "(i, js) \<in> set rest" by auto
    then show "\<exists>base. arena_ready a bufs tab' i js base
         \<and> (\<forall>q m. (q, m) \<in> set (map ca_storage (rc_arenas rc)) \<longrightarrow> apart_blocks base (arena_total bufs js) q m)"
      using mine near ih(3) by cases (blast, fastforce)
  next
    fix i js j ks b c
    assume ij: "(i, js) \<in> set ((idx, is) # rest)" "(j, ks) \<in> set ((idx, is) # rest)" "i \<noteq> j"
      "at_bases tab' ! i = Some b" "at_bases tab' ! j = Some c"
    then consider "i = idx" "js = is" "(j, ks) \<in> set rest" | "j = idx" "ks = is" "(i, js) \<in> set rest"
      | "(i, js) \<in> set rest" "(j, ks) \<in> set rest" by auto
    then show "apart_blocks b (arena_total bufs js) c (arena_total bufs ks)"
      using ij(3-5) mine cross ih(4) by cases (auto simp: arena_ready_def apart_blocks_def)
  qed
qed

section \<open>Bindings\<close>

definition keeps_bindings :: "'f runtime_context \<Rightarrow> 'f runtime_context \<Rightarrow> bool" where
  "keeps_bindings rc rc' \<longleftrightarrow> (\<exists>ts. rc_tensors rc' = rc_tensors rc @ ts)
     \<and> (\<forall>i r. rc_bindings rc i = Some r \<longrightarrow> rc_bindings rc' i = Some r)"

lemma keeps_bindings_refl [simp]: "keeps_bindings rc rc"
  by (simp add: keeps_bindings_def)

lemma keeps_bindings_trans: "keeps_bindings a b \<Longrightarrow> keeps_bindings b c \<Longrightarrow> keeps_bindings a c"
  by (auto simp: keeps_bindings_def)

lemma own_tensor_keeps: "rc_bindings rc i = None \<Longrightarrow> keeps_bindings rc (own_tensor i t rc)"
  by (auto simp: keeps_bindings_def own_tensor_def)

lemma allocate_values_keeps: "keeps_bindings rc (snd (allocate_values vs rc))"
proof (induction vs rc rule: allocate_values.induct)
  case (2 v vs rc)
  then show ?case
    by (auto split: sum.split intro: keeps_bindings_trans [OF own_tensor_keeps])
qed simp

text \<open>The tensor of a planned value: it points to its buffer, which has room for it.\<close>

definition bound_to :: "'f runtime_context \<Rightarrow> value_id \<Rightarrow> graph_value \<Rightarrow> nat \<Rightarrow> bool" where
  "bound_to rc i v addr \<longleftrightarrow> (\<exists>t. rc_bindings rc i = Some t \<and> t < length (rc_tensors rc)
     \<and> external_data (rc_tensors rc ! t) = Some addr \<and> t_shape (rc_tensors rc ! t) = v_shape v
     \<and> t_dtype (rc_tensors rc ! t) = v_dtype v)"

lemma bound_to_kept: "bound_to rc i v addr \<Longrightarrow> keeps_bindings rc rc' \<Longrightarrow> bound_to rc' i v addr"
  by (fastforce simp: bound_to_def keeps_bindings_def nth_append)

lemma bind_ranges_spec:
  assumes "bind_ranges g bufs tab rs rc = (Inr u, rc')" and "distinct (map lr_value rs)"
    and "\<forall>b < length bufs. at_devices tab ! mb_arena (bufs ! b) \<noteq> CUDA"
  shows "keeps_bindings rc rc' \<and> (\<forall>r \<in> set rs. lr_eligible r \<longrightarrow> lr_buffer r \<noteq> no_buffer \<longrightarrow> rc_bindings rc (lr_value r) = None
    \<longrightarrow> lr_value r < length (g_values g) \<and> (\<exists>addr. buffer_data tab (bufs ! lr_buffer r) = Some addr
          \<and> bound_to rc' (lr_value r) (g_values g ! lr_value r) addr))"
  using assms
proof (induction g bufs tab rs rc rule: bind_ranges.induct)
  case (2 g bufs tab r rs rc)
  show ?case
  proof (cases "\<not> lr_eligible r \<or> lr_buffer r = no_buffer")
    case True
    with 2(1) [OF True] 2(4-6) show ?thesis by auto
  next
    case planned: False
    have room: "\<not> (length bufs \<le> lr_buffer r \<or> buffer_data tab (bufs ! lr_buffer r) = None)"
      using 2(4) planned by (auto split: if_splits)
    show ?thesis
    proof (cases "rc_bindings rc (lr_value r) \<noteq> None")
      case True
      with 2(2) [OF planned room True] 2(4-6) planned room show ?thesis by auto
    next
      case unbound: False
      let ?b = "bufs ! lr_buffer r" and ?v = "g_values g ! lr_value r"
      let ?t = "new_tensor (v_name ?v) (v_shape ?v) (v_dtype ?v) (v_device ?v)"
      have cpu: "at_devices tab ! mb_arena ?b \<noteq> CUDA" using 2(6) room by simp
      obtain t' where v: "lr_value r < length (g_values g)"
        and t': "bind_cpu_data (buffer_data tab ?b) (buffer_avail tab ?b) ?t = (make_ok, t')"
        and rec: "bind_ranges g bufs tab rs (own_tensor (lr_value r) t' rc) = (Inr u, rc')"
        using 2(4) planned room unbound cpu by (auto simp: Let_def split: if_splits sum.splits prod.splits)
      have get: "g_value (lr_value r) g = Inr ?v" using v by simp
      note IH = 2(3) [OF planned room unbound get refl refl _ _ _ rec]
      obtain addr where addr: "buffer_data tab ?b = Some addr" "external_data t' = Some addr"
        "t_shape t' = v_shape ?v" "t_dtype t' = v_dtype ?v"
        using bind_cpu_data_ok [OF t'] by (auto simp: new_tensor_def)
      have ih: "keeps_bindings (own_tensor (lr_value r) t' rc) rc'"
        "\<And>q. q \<in> set rs \<Longrightarrow> lr_eligible q \<Longrightarrow> lr_buffer q \<noteq> no_buffer \<Longrightarrow> rc_bindings (own_tensor (lr_value r) t' rc) (lr_value q) = None
          \<Longrightarrow> lr_value q < length (g_values g) \<and> (\<exists>addr. buffer_data tab (bufs ! lr_buffer q) = Some addr
          \<and> bound_to rc' (lr_value q) (g_values g ! lr_value q) addr)"
        using IH 2(5,6) t' cpu by simp_all
      have "bound_to (own_tensor (lr_value r) t' rc) (lr_value r) ?v addr"
        using addr by (simp add: bound_to_def own_tensor_def)
      then have mine: "bound_to rc' (lr_value r) ?v addr" using ih(1) by (rule bound_to_kept)
      have keep: "keeps_bindings rc rc'"
        using own_tensor_keeps [of rc "lr_value r" t'] ih(1) unbound by (auto intro: keeps_bindings_trans)
      have other: "rc_bindings (own_tensor (lr_value r) t' rc) (lr_value q) = rc_bindings rc (lr_value q)" if "q \<in> set rs" for q
        using 2(5) imageI [OF that, of lr_value] by (auto simp: own_tensor_def)
      show ?thesis using keep mine addr(1) v ih(2) other by auto
    qed
  qed
qed simp

section \<open>Planned values in memory\<close>

lemma planned_run:
  assumes "allocate_intermediates_planned std_sort heap map_order g opt rc = (Inr p, rc')"
  obtains groups mx tab rc1 rc2 where "make_plan std_sort opt g = Inr p"
    "group_buffers 0 (mp_buffers p) ([], 0) = Inr (groups, mx)"
    "allocate_arenas heap (plan_alignment p) (mp_buffers p) (map_order groups)
       \<lparr>at_bases = replicate (mx + 1) None, at_totals = replicate (mx + 1) 0,
        at_devices = replicate (mx + 1) CPU\<rparr> rc = (Inr tab, rc1)"
    "bind_ranges g (mp_buffers p) tab (mp_ranges p) rc1 = (make_ok, rc2)" "keeps_bindings rc2 rc'"
proof -
  have plan: "make_plan std_sort opt g = Inr p"
    and alloc: "allocate_intermediates_with_plan heap map_order g p rc = (make_ok, rc')"
    using assms by (auto simp: allocate_intermediates_planned_def sbind_Inr_iff split: sum.splits)
  then obtain groups mx tab rc1 rc2 where parts: "group_buffers 0 (mp_buffers p) ([], 0) = Inr (groups, mx)"
    "allocate_arenas heap (plan_alignment p) (mp_buffers p) (map_order groups)
       \<lparr>at_bases = replicate (mx + 1) None, at_totals = replicate (mx + 1) 0,
        at_devices = replicate (mx + 1) CPU\<rparr> rc = (Inr tab, rc1)"
    "bind_ranges g (mp_buffers p) tab (mp_ranges p) rc1 = (make_ok, rc2)"
    "allocate_values (g_values g) rc2 = (make_ok, rc')"
    by (auto simp: allocate_intermediates_with_plan_def sbind_Inr_iff split: sum.splits prod.splits)
  from allocate_values_keeps [of rc2 "g_values g"] parts(4) have "keeps_bindings rc2 rc'" by simp
  then show ?thesis using that plan parts(1-3) by blast
qed

text \<open>Every buffer of a plan lies in its arena, above the arena's aligned base.\<close>

lemma planned_arenas:
  assumes plan: "make_plan std_sort opt g = Inr p" and laws: "std_sort_law std_sort" "heap_law heap" "map_order_law map_order"
    and sizes: "\<forall>r \<in> set (mp_ranges p). lr_eligible r \<longrightarrow> lr_bytes r + po_alignment opt \<le> 2 ^ 64"
      "sum_list (map mb_bytes (mp_buffers p)) < 2 ^ 64"
    and groups: "group_buffers 0 (mp_buffers p) ([], 0) = Inr (groups, mx)"
    and run: "allocate_arenas heap (plan_alignment p) (mp_buffers p) (map_order groups)
       \<lparr>at_bases = replicate (mx + 1) None, at_totals = replicate (mx + 1) 0,
        at_devices = replicate (mx + 1) CPU\<rparr> rc = (Inr tab, rc1)"
  shows "\<exists>new. rc1 = rc\<lparr>rc_arenas := rc_arenas rc @ new\<rparr>"
    "i < length (mp_buffers p) \<Longrightarrow> at_devices tab ! mb_arena (mp_buffers p ! i) \<noteq> CUDA"
    "i < length (mp_buffers p) \<Longrightarrow> \<exists>base. at_bases tab ! mb_arena (mp_buffers p ! i) = Some base \<and> po_alignment opt dvd base"
    "i < length (mp_buffers p) \<Longrightarrow> j < length (mp_buffers p) \<Longrightarrow> i \<noteq> j \<Longrightarrow>
      at_bases tab ! mb_arena (mp_buffers p ! i) = Some b \<Longrightarrow> at_bases tab ! mb_arena (mp_buffers p ! j) = Some c \<Longrightarrow>
      apart_blocks (b + mb_offset (mp_buffers p ! i)) (mb_bytes (mp_buffers p ! i))
        (c + mb_offset (mp_buffers p ! j)) (mb_bytes (mp_buffers p ! j))"
proof -
  let ?bufs = "mp_buffers p" and ?n = "mx + 1"
  let ?tab = "\<lparr>at_bases = replicate ?n None, at_totals = replicate ?n 0, at_devices = replicate ?n CPU\<rparr>"
  have align: "plan_alignment p = po_alignment opt" "0 < po_alignment opt"
    using make_plan_alignment [OF plan] by (simp_all add: plan_alignment_def)
  have none: "distinct (map fst ([] :: (nat \<times> nat list) list))"
    "\<forall>k is. map_of ([] :: (nat \<times> nat list) list) k = Some is \<longrightarrow> is \<noteq> [] \<and> k \<le> 0" by simp_all
  note grp = group_buffers_spec [OF groups none, unfolded add_0]
  have grp: "distinct (map fst groups)" "\<And>k is. map_of groups k = Some is \<Longrightarrow> k \<le> mx"
    "\<And>i. i < length ?bufs \<Longrightarrow> \<exists>is. map_of groups (mb_arena (?bufs ! i)) = Some is \<and> i \<in> set is"
    using grp by blast+
  have ord: "set (map_order groups) = set groups" "distinct (map fst (map_order groups))"
  proof -
    have m: "mset (map_order groups) = mset groups" using laws(3) by (simp add: map_order_law_def)
    then show "set (map_order groups) = set groups" by (rule mset_eq_setD)
    have "mset (map fst (map_order groups)) = mset (map fst groups)" using m by simp
    then show "distinct (map fst (map_order groups))" using grp(1) mset_eq_imp_distinct_iff by blast
  qed
  have idx: "\<forall>(idx, is) \<in> set (map_order groups). idx < ?n"
  proof clarify
    fix k "is" assume "(k, is) \<in> set (map_order groups)"
    then have "map_of groups k = Some is" using ord(1) grp(1) by simp
    from grp(2) [OF this] show "k < mx + 1" by simp
  qed
  note spec = allocate_arenas_spec [OF run [unfolded align] laws(2) align(2) ord(2) idx, simplified]
  show "\<exists>new. rc1 = rc\<lparr>rc_arenas := rc_arenas rc @ new\<rparr>" using spec by blast
  have ready: "\<exists>is base. (mb_arena (?bufs ! i), is) \<in> set (map_order groups) \<and> i \<in> set is
      \<and> arena_ready (po_alignment opt) ?bufs tab (mb_arena (?bufs ! i)) is base" if "i < length ?bufs" for i
  proof -
    obtain "is" where "map_of groups (mb_arena (?bufs ! i)) = Some is" "i \<in> set is" using grp(3) [OF \<open>i < length ?bufs\<close>] by blast
    moreover from this have "(mb_arena (?bufs ! i), is) \<in> set (map_order groups)" using ord(1) by (simp add: map_of_SomeD)
    moreover have "\<exists>base. arena_ready (po_alignment opt) ?bufs tab (mb_arena (?bufs ! i)) is base"
      if "(mb_arena (?bufs ! i), is) \<in> set (map_order groups)" for "is"
      using conjunct1 [OF conjunct2 [OF conjunct2 [OF spec]]] that by blast
    ultimately show ?thesis by blast
  qed
  show "i < length ?bufs \<Longrightarrow> at_devices tab ! mb_arena (?bufs ! i) \<noteq> CUDA"
    using ready by (auto simp: arena_ready_def)
  show "i < length ?bufs \<Longrightarrow> \<exists>base. at_bases tab ! mb_arena (?bufs ! i) = Some base \<and> po_alignment opt dvd base"
    using ready by (fastforce simp: arena_ready_def)
  note fin = plan_buffer_end [OF plan laws(1) sizes]
  have inside: "mb_offset (?bufs ! i) + mb_bytes (?bufs ! i) \<le> arena_total ?bufs is" if "i < length ?bufs" "i \<in> set is" for i "is"
    using arena_total_upper [OF that(2), of ?bufs] fin(1) [OF that(1)] by simp
  show "apart_blocks (b + mb_offset (?bufs ! i)) (mb_bytes (?bufs ! i)) (c + mb_offset (?bufs ! j)) (mb_bytes (?bufs ! j))"
    if ij: "i < length ?bufs" "j < length ?bufs" "i \<noteq> j" "at_bases tab ! mb_arena (?bufs ! i) = Some b"
      "at_bases tab ! mb_arena (?bufs ! j) = Some c"
  proof (cases "mb_arena (?bufs ! i) = mb_arena (?bufs ! j)")
    case True
    then have "b = c" using ij(4,5) by simp
    then show ?thesis
      using plan_arenas [OF plan laws(1) sizes, of i j] plan_arenas [OF plan laws(1) sizes, of j i] True ij(1-3)
      by (cases "i < j") (auto simp: apart_blocks_def)
  next
    case False
    obtain "is" js where g: "(mb_arena (?bufs ! i), is) \<in> set (map_order groups)" "i \<in> set is"
      "(mb_arena (?bufs ! j), js) \<in> set (map_order groups)" "j \<in> set js" using ready [OF ij(1)] ready [OF ij(2)] by blast
    then have "apart_blocks b (arena_total ?bufs is) c (arena_total ?bufs js)"
      using conjunct2 [OF conjunct2 [OF conjunct2 [OF spec]]] False ij(4,5) by blast
    then show ?thesis using inside [OF ij(1) g(2)] inside [OF ij(2) g(4)] by (auto simp: apart_blocks_def)
  qed
qed

lemma planned_tensor:
  assumes plan: "make_plan std_sort opt g = Inr p" and laws: "std_sort_law std_sort" "heap_law heap" "map_order_law map_order"
    and graph: "well_numbered g"
    and sizes: "\<forall>r \<in> set (mp_ranges p). lr_eligible r \<longrightarrow> lr_bytes r + po_alignment opt \<le> 2 ^ 64"
      "sum_list (map mb_bytes (mp_buffers p)) < 2 ^ 64" "length (mp_buffers p) \<le> no_buffer"
    and grp: "group_buffers 0 (mp_buffers p) ([], 0) = Inr (groups, mx)"
    and arenas: "allocate_arenas heap (plan_alignment p) (mp_buffers p) (map_order groups)
       \<lparr>at_bases = replicate (mx + 1) None, at_totals = replicate (mx + 1) 0,
        at_devices = replicate (mx + 1) CPU\<rparr> rc = (Inr tab, rc1)"
    and binds: "bind_ranges g (mp_buffers p) tab (mp_ranges p) rc1 = (make_ok, rc2)" and keep: "keeps_bindings rc2 rc'"
    and u: "u < length (g_values g)" "lr_eligible (mp_ranges p ! u)" "rc_bindings rc u = None"
  shows "\<exists>base. lr_buffer (mp_ranges p ! u) < length (mp_buffers p)
      \<and> at_bases tab ! mb_arena (mp_buffers p ! lr_buffer (mp_ranges p ! u)) = Some base
      \<and> bound_to rc' u (g_values g ! u) (base + mb_offset (mp_buffers p ! lr_buffer (mp_ranges p ! u)))
      \<and> lr_bytes (mp_ranges p ! u) \<le> mb_bytes (mp_buffers p ! lr_buffer (mp_ranges p ! u))
      \<and> po_alignment opt dvd base + mb_offset (mp_buffers p ! lr_buffer (mp_ranges p ! u))"
proof -
  note arena = planned_arenas [OF plan laws sizes(1,2) grp arenas]
  note vals = make_plan_values [OF plan laws(1)]
  have id: "lr_value (mp_ranges p ! u) = u" if "u < length (g_values g)" for u
    using vals(2) [OF that] graph that by (simp add: well_numbered_def)
  have dist: "distinct (map lr_value (mp_ranges p))"
    using id vals(1) by (simp add: distinct_conv_nth)
  have cpu: "\<forall>b < length (mp_buffers p). at_devices tab ! mb_arena (mp_buffers p ! b) \<noteq> CUDA" using arena(2) by blast
  note bound = bind_ranges_spec [OF binds dist cpu]
  have mem: "mp_ranges p ! u \<in> set (mp_ranges p)" using u(1) vals(1) by simp
  note fit = plan_fit [OF plan laws(1) u(1,2)]
  have b: "lr_buffer (mp_ranges p ! u) < length (mp_buffers p)" "lr_buffer (mp_ranges p ! u) \<noteq> no_buffer"
    using fit sizes(3) by auto
  have bytes: "lr_bytes (mp_ranges p ! u) \<le> mb_bytes (mp_buffers p ! lr_buffer (mp_ranges p ! u))"
    using fit sizes(1) mem u(2) by auto
  have free: "rc_bindings rc1 (lr_value (mp_ranges p ! u)) = None" using arena(1) id [OF u(1)] u(3) by auto
  obtain addr where addr: "buffer_data tab (mp_buffers p ! lr_buffer (mp_ranges p ! u)) = Some addr"
    "bound_to rc2 u (g_values g ! u) addr"
    using conjunct2 [OF bound] mem u(2) b(2) free id [OF u(1)] by fastforce
  obtain base where base: "at_bases tab ! mb_arena (mp_buffers p ! lr_buffer (mp_ranges p ! u)) = Some base"
    "po_alignment opt dvd base" using arena(3) [OF b(1)] by blast
  have "addr = base + mb_offset (mp_buffers p ! lr_buffer (mp_ranges p ! u))"
    using addr(1) base(1) by (simp add: buffer_data_def)
  with base b bytes bound_to_kept [OF addr(2) keep] plan_buffer_end(2) [OF plan laws(1) sizes(1,2) b(1)] show ?thesis
    by (blast intro: dvd_add)
qed

lemma planned_memory_apart:
  assumes "allocate_intermediates_planned std_sort heap map_order g opt rc = (Inr p, rc')"
    and "std_sort_law std_sort" and "heap_law heap" and "map_order_law map_order"
    and "well_numbered g" and "single_producer g" and "topological_sort g = Inr order"
    and "\<forall>r \<in> set (mp_ranges p). lr_eligible r \<longrightarrow> lr_bytes r + po_alignment opt \<le> 2 ^ 64"
    and "sum_list (map mb_bytes (mp_buffers p)) < 2 ^ 64" and "length (mp_buffers p) \<le> no_buffer"
    and "v < length (g_values g)" and "w < length (g_values g)" and "v \<noteq> w"
    and "lr_eligible (mp_ranges p ! v)" and "lr_eligible (mp_ranges p ! w)"
    and "rc_bindings rc v = None" and "rc_bindings rc w = None"
  shows "\<exists>a b. bound_to rc' v (g_values g ! v) a \<and> bound_to rc' w (g_values g ! w) b
    \<and> po_alignment opt dvd a \<and> po_alignment opt dvd b
    \<and> (apart_blocks a (lr_bytes (mp_ranges p ! v)) b (lr_bytes (mp_ranges p ! w))
       \<or> over_before g order v w \<or> over_before g order w v)"
proof -
  obtain groups mx tab rc1 rc2 where plan: "make_plan std_sort opt g = Inr p"
    and grp: "group_buffers 0 (mp_buffers p) ([], 0) = Inr (groups, mx)"
    and arenas: "allocate_arenas heap (plan_alignment p) (mp_buffers p) (map_order groups)
       \<lparr>at_bases = replicate (mx + 1) None, at_totals = replicate (mx + 1) 0,
        at_devices = replicate (mx + 1) CPU\<rparr> rc = (Inr tab, rc1)"
    and binds: "bind_ranges g (mp_buffers p) tab (mp_ranges p) rc1 = (make_ok, rc2)" and keep: "keeps_bindings rc2 rc'"
    using planned_run [OF assms(1)] by blast
  note arena = planned_arenas [OF plan assms(2-4,8,9) grp arenas]
  note tensor = planned_tensor [OF plan assms(2-5,8-10) grp arenas binds keep]
  let ?bv = "mp_buffers p ! lr_buffer (mp_ranges p ! v)" and ?bw = "mp_buffers p ! lr_buffer (mp_ranges p ! w)"
  obtain b where b: "lr_buffer (mp_ranges p ! v) < length (mp_buffers p)" "at_bases tab ! mb_arena ?bv = Some b"
    "bound_to rc' v (g_values g ! v) (b + mb_offset ?bv)" "lr_bytes (mp_ranges p ! v) \<le> mb_bytes ?bv"
    "po_alignment opt dvd b + mb_offset ?bv"
    using tensor [OF assms(11,14,16)] by blast
  obtain c where c: "lr_buffer (mp_ranges p ! w) < length (mp_buffers p)" "at_bases tab ! mb_arena ?bw = Some c"
    "bound_to rc' w (g_values g ! w) (c + mb_offset ?bw)" "lr_bytes (mp_ranges p ! w) \<le> mb_bytes ?bw"
    "po_alignment opt dvd c + mb_offset ?bw"
    using tensor [OF assms(12,15,17)] by blast
  have "apart_blocks (b + mb_offset ?bv) (lr_bytes (mp_ranges p ! v)) (c + mb_offset ?bw) (lr_bytes (mp_ranges p ! w))"
    if "lr_buffer (mp_ranges p ! v) \<noteq> lr_buffer (mp_ranges p ! w)"
    using arena(4) [OF b(1) c(1) that b(2) c(2)] b(4) c(4) by (auto simp: apart_blocks_def)
  moreover have "over_before g order v w \<or> over_before g order w v"
    if "lr_buffer (mp_ranges p ! v) = lr_buffer (mp_ranges p ! w)"
    using plan_over [OF plan assms(2,5,6,7,11-15) that] .
  ultimately show ?thesis using b(3,5) c(3,5) by blast
qed

text \<open>C16. After a successful \<open>allocate_intermediates_planned\<close>, every planned value that had no tensor yet has one of its
  own shape and dtype at an aligned address, and the bytes of two such tensors overlap only when the plan let
  them share a buffer, in which case all uses of one value come before all uses of the other.\<close>

theorem planned_memory_never_overlaps:
  assumes "allocate_intermediates_planned std_sort heap map_order g opt rc = (Inr p, rc')"
    and "std_sort_law std_sort" and "heap_law heap" and "map_order_law map_order"
    and "well_numbered g" and "single_producer g" and "topological_sort g = Inr order"
    and "\<forall>r \<in> set (mp_ranges p). lr_eligible r \<longrightarrow> lr_bytes r + po_alignment opt \<le> 2 ^ 64"
    and "sum_list (map mb_bytes (mp_buffers p)) < 2 ^ 64" and "length (mp_buffers p) \<le> no_buffer"
    and "v < length (g_values g)" and "w < length (g_values g)" and "v \<noteq> w"
    and "lr_eligible (mp_ranges p ! v)" and "lr_eligible (mp_ranges p ! w)"
    and "rc_bindings rc v = None" and "rc_bindings rc w = None"
  shows "\<exists>a b. bound_to rc' v (g_values g ! v) a \<and> bound_to rc' w (g_values g ! w) b
    \<and> po_alignment opt dvd a \<and> po_alignment opt dvd b
    \<and> (apart_blocks a (lr_bytes (mp_ranges p ! v)) b (lr_bytes (mp_ranges p ! w))
       \<or> uses_before g order v w \<or> uses_before g order w v)"
  using planned_memory_apart [OF assms] unfolding over_before_def by blast

section \<open>The chain in memory\<close>

text \<open>A heap that places every block behind the last one.\<close>

definition heap_end :: "(nat \<times> nat) list \<Rightarrow> nat" where
  "heap_end blocks = foldr (\<lambda>(q, m) e. max (q + m) e) blocks 1000"

definition bump_heap :: "(nat \<times> nat) list \<Rightarrow> nat \<Rightarrow> nat option" where
  "bump_heap blocks n = (if heap_end blocks + n \<le> 2 ^ 64 then Some (heap_end blocks) else None)"

lemma heap_end_bounds: "0 < heap_end blocks" "(q, m) \<in> set blocks \<Longrightarrow> q + m \<le> heap_end blocks"
  by (induction blocks) (auto simp: heap_end_def le_max_iff_disj)

lemma bump_heap_law: "heap_law bump_heap"
  unfolding heap_law_def bump_heap_def apart_blocks_def using heap_end_bounds by (auto split: if_splits)

definition chain_context :: "nat runtime_context" where
  "chain_context = new_context []"

lemma chain_run:
  "\<exists>p rc'. allocate_intermediates_planned sort_by bump_heap (\<lambda>xs. xs) chain chain_options chain_context = (Inr p, rc')
     \<and> mp_ranges p = chain_ranges[1 := (chain_range 1 0 1)\<lparr>lr_buffer := 0\<rparr>, 2 := (chain_range 2 1 2)\<lparr>lr_buffer := 1\<rparr>,
        3 := (chain_range 3 2 2)\<lparr>lr_buffer := 0\<rparr>]
     \<and> mp_buffers p = [(chain_buffer 0 2 [1, 3])\<lparr>mb_arena := 0, mb_offset := 0\<rparr>, (chain_buffer 1 2 [2])\<lparr>mb_arena := 0, mb_offset := 64\<rparr>]"
proof -
  obtain p where p: "make_plan sort_by chain_options chain = Inr p"
    "mp_ranges p = chain_ranges[1 := (chain_range 1 0 1)\<lparr>lr_buffer := 0\<rparr>, 2 := (chain_range 2 1 2)\<lparr>lr_buffer := 1\<rparr>,
        3 := (chain_range 3 2 2)\<lparr>lr_buffer := 0\<rparr>]"
    "mp_buffers p = [(chain_buffer 0 2 [1, 3])\<lparr>mb_arena := 0, mb_offset := 0\<rparr>, (chain_buffer 1 2 [2])\<lparr>mb_arena := 0, mb_offset := 64\<rparr>]"
    using chain_plan by blast
  let ?tab = "\<lparr>at_bases = [Some 1024], at_totals = [128], at_devices = [CPU]\<rparr>"
  let ?rc = "chain_context\<lparr>rc_arenas := [\<lparr>ca_storage = (1000, 192), ca_data = 1024, ca_bytes = 128\<rparr>]\<rparr>"
  have align: "plan_alignment p = 64"
    using make_plan_alignment [OF p(1)] by (simp add: plan_alignment_def chain_options_def)
  have groups: "group_buffers 0 (mp_buffers p) ([], 0) = Inr ([(0, [0, 1])], 0)" by (simp add: p(3))
  have dev: "dev_type (mb_device (mp_buffers p ! 0)) = CPU" by (simp add: p(3) chain_buffer_def device_cpu_def)
  have total: "arena_total (mp_buffers p) [0, 1] = 128" by (simp add: p(3) arena_total_def chain_buffer_def)
  have arenas: "allocate_arenas bump_heap 64 (mp_buffers p) [(0, [0, 1])]
      \<lparr>at_bases = replicate (0 + 1) None, at_totals = replicate (0 + 1) 0, at_devices = replicate (0 + 1) CPU\<rparr> chain_context
      = (Inr ?tab, ?rc)"
    using dev by (simp add: total [unfolded One_nat_def] Let_def bump_heap_def heap_end_def chain_context_def new_context_def align_pointer_def)
  have bind: "\<exists>rc2. bind_ranges chain (mp_buffers p) ?tab (mp_ranges p) ?rc = (make_ok, rc2)
      \<and> rc_bindings rc2 1 \<noteq> None \<and> rc_bindings rc2 2 \<noteq> None \<and> rc_bindings rc2 3 \<noteq> None"
    by (simp add: p(2,3) chain_ranges_def chain_input_def chain_range_def buffer_data_def buffer_avail_def chain_buffer_def
        chain_context_def new_context_def Let_def chain_def chain_value_def g_value_def bind_cpu_data_def release_def new_tensor_def
        has_dynamic_dim_def nbytes_def numel_def own_tensor_def wrap64_def)
  then obtain rc2 where rc2: "bind_ranges chain (mp_buffers p) ?tab (mp_ranges p) ?rc = (make_ok, rc2)"
    "rc_bindings rc2 1 \<noteq> None" "rc_bindings rc2 2 \<noteq> None" "rc_bindings rc2 3 \<noteq> None" by blast
  have "allocate_values (g_values chain) rc2 = (make_ok, rc2)"
    using rc2(2-4) by (simp add: chain_def chain_value_def)
  then have "allocate_intermediates_with_plan bump_heap (\<lambda>xs. xs) chain p chain_context = (make_ok, rc2)"
    by (simp only: allocate_intermediates_with_plan_def groups align arenas rc2(1) sum.case prod.case sbind_simps)
  with p show ?thesis by (auto simp: allocate_intermediates_planned_def)
qed

theorem planned_memory_never_overlaps_witness:
  "\<exists>p rc' a b. allocate_intermediates_planned sort_by bump_heap (\<lambda>xs. xs) chain chain_options chain_context = (Inr p, rc')
     \<and> bound_to rc' 1 (chain_value 1 KIntermediate) a \<and> bound_to rc' 2 (chain_value 2 KIntermediate) b \<and> 64 dvd a"
proof -
  obtain p rc' where run: "allocate_intermediates_planned sort_by bump_heap (\<lambda>xs. xs) chain chain_options chain_context = (Inr p, rc')"
    and p: "mp_ranges p = chain_ranges[1 := (chain_range 1 0 1)\<lparr>lr_buffer := 0\<rparr>, 2 := (chain_range 2 1 2)\<lparr>lr_buffer := 1\<rparr>,
        3 := (chain_range 3 2 2)\<lparr>lr_buffer := 0\<rparr>]"
      "mp_buffers p = [(chain_buffer 0 2 [1, 3])\<lparr>mb_arena := 0, mb_offset := 0\<rparr>, (chain_buffer 1 2 [2])\<lparr>mb_arena := 0, mb_offset := 64\<rparr>]"
    using chain_run by blast
  have small: "\<forall>r \<in> set (mp_ranges p). lr_eligible r \<longrightarrow> lr_bytes r + po_alignment chain_options \<le> 2 ^ 64"
    by (simp add: p(1) chain_ranges_def chain_range_def chain_input_def chain_options_def)
  have ord: "map_order_law (\<lambda>xs. xs)" by (simp add: map_order_law_def)
  have sums: "sum_list (map mb_bytes (mp_buffers p)) < 2 ^ 64" "length (mp_buffers p) \<le> no_buffer"
    by (simp_all add: p(2) chain_buffer_def)
  have vals: "g_values chain ! 1 = chain_value 1 KIntermediate" "g_values chain ! 2 = chain_value 2 KIntermediate"
    "1 < length (g_values chain)" "2 < length (g_values chain)" "(1 :: nat) \<noteq> 2"
    by (simp_all add: chain_def)
  have elig: "lr_eligible (mp_ranges p ! 1)" "lr_eligible (mp_ranges p ! 2)"
    by (simp_all add: p(1) chain_ranges_def chain_range_def)
  have free: "rc_bindings chain_context 1 = None" "rc_bindings chain_context 2 = None"
    by (simp_all add: chain_context_def new_context_def)
  have align: "po_alignment chain_options = 64" by (simp add: chain_options_def)
  from planned_memory_never_overlaps [OF run std_sort_law_sort_by bump_heap_law ord chain_graph(1,2) chain_sorts small sums
      vals(3-5) elig free, unfolded vals(1,2) align]
  show ?thesis using run by blast
qed

end
