(* ===== verification/Memory_Reuse_Execution.thy ===== *)
theory Memory_Reuse_Execution
  imports Executor Planned_Memory
begin

text \<open>
  Executing a graph in reused memory. Under the laws of an interface, memory cells that steps read and write, a
  run in shared cells gives every node the same inputs as a run in which every value has a cell of its own,
  as long as cells overlap only when their uses are apart. The byte memory of the runtime satisfies the laws.
\<close>

section \<open>Steps on overlapping cells\<close>

locale cell_machine =
  fixes ins outs :: "'n \<Rightarrow> value_id list"
    and compute :: "'n \<Rightarrow> 'x list \<Rightarrow> 'x list"
    and read :: "'m \<Rightarrow> value_id \<Rightarrow> 'x"
    and step :: "'n \<Rightarrow> 'm \<Rightarrow> 'm"
    and overlap :: "value_id \<Rightarrow> value_id \<Rightarrow> bool"
  assumes overlap_sym: "overlap v w \<Longrightarrow> overlap w v"
    and step_writes: "distinct (outs i) \<Longrightarrow> (\<And>v w. v \<in> set (outs i) \<Longrightarrow> w \<in> set (outs i) \<Longrightarrow> v \<noteq> w \<Longrightarrow> \<not> overlap v w)
      \<Longrightarrow> map (read (step i m)) (outs i) = compute i (map (read m) (ins i))"
    and step_keeps: "(\<And>w. w \<in> set (outs i) \<Longrightarrow> \<not> overlap v w) \<Longrightarrow> read (step i m) v = read m v"
begin

text \<open>The reference run: a store with one cell per value.\<close>

definition store_step :: "'n \<Rightarrow> (value_id \<Rightarrow> 'x) \<Rightarrow> value_id \<Rightarrow> 'x" where
  "store_step i env v = (case map_of (zip (outs i) (compute i (map env (ins i)))) v of None \<Rightarrow> env v | Some x \<Rightarrow> x)"

definition store_after :: "'n list \<Rightarrow> nat \<Rightarrow> (value_id \<Rightarrow> 'x) \<Rightarrow> value_id \<Rightarrow> 'x" where
  "store_after order k env = foldl (\<lambda>e i. store_step i e) env (take k order)"

definition mem_after :: "'n list \<Rightarrow> nat \<Rightarrow> 'm \<Rightarrow> 'm" where
  "mem_after order k m = foldl (\<lambda>m i. step i m) m (take k order)"

definition touched :: "'n list \<Rightarrow> nat \<Rightarrow> value_id \<Rightarrow> bool" where
  "touched order a v \<longleftrightarrow> v \<in> set (ins (order ! a)) \<union> set (outs (order ! a))"

definition written :: "'n list \<Rightarrow> nat \<Rightarrow> value_id \<Rightarrow> bool" where
  "written order a v \<longleftrightarrow> v \<in> set (outs (order ! a))"

definition all_before :: "'n list \<Rightarrow> value_id \<Rightarrow> value_id \<Rightarrow> bool" where
  "all_before order v w \<longleftrightarrow> (\<forall>a < length order. \<forall>b < length order. touched order a v \<longrightarrow> touched order b w \<longrightarrow> a < b)"

text \<open>An order that reads nothing before it is written, writes nothing twice, and keeps overlapping values apart;
  a value that is never written has a cell of its own.\<close>

definition safe_order :: "'n list \<Rightarrow> bool" where
  "safe_order order \<longleftrightarrow>
     (\<forall>a b v. a < length order \<longrightarrow> b < length order \<longrightarrow> written order a v \<longrightarrow> written order b v \<longrightarrow> a = b)
   \<and> (\<forall>a b v. a < length order \<longrightarrow> b < length order \<longrightarrow> written order a v \<longrightarrow> v \<in> set (ins (order ! b)) \<longrightarrow> a < b)
   \<and> (\<forall>a < length order. distinct (outs (order ! a)))
   \<and> (\<forall>a b v w. a < length order \<longrightarrow> b < length order \<longrightarrow> touched order a v \<longrightarrow> written order b w \<longrightarrow> v \<noteq> w \<longrightarrow> overlap v w
        \<longrightarrow> (\<exists>c < length order. written order c v) \<and> (all_before order v w \<or> all_before order w v))"

lemma safe_orderD:
  assumes "safe_order order"
  shows "a < length order \<Longrightarrow> b < length order \<Longrightarrow> written order a v \<Longrightarrow> written order b v \<Longrightarrow> a = b"
    "a < length order \<Longrightarrow> b < length order \<Longrightarrow> written order a v \<Longrightarrow> v \<in> set (ins (order ! b)) \<Longrightarrow> a < b"
    "a < length order \<Longrightarrow> distinct (outs (order ! a))"
    "a < length order \<Longrightarrow> b < length order \<Longrightarrow> touched order a v \<Longrightarrow> written order b w \<Longrightarrow> v \<noteq> w \<Longrightarrow> overlap v w
        \<Longrightarrow> (\<exists>c < length order. written order c v) \<and> (all_before order v w \<or> all_before order w v)"
  using assms unfolding safe_order_def by blast+

text \<open>The value is written after all others in its place, or shares it with none.\<close>

definition settled :: "'n list \<Rightarrow> value_id \<Rightarrow> bool" where
  "settled order v \<longleftrightarrow> (\<forall>b w. b < length order \<longrightarrow> written order b w \<longrightarrow> w \<noteq> v \<longrightarrow> overlap v w
     \<longrightarrow> (\<exists>c < length order. b < c \<and> written order c v))"

text \<open>At step \<open>k\<close> these cells hold what the reference store holds.\<close>

definition in_step :: "'n list \<Rightarrow> nat \<Rightarrow> 'm \<Rightarrow> (value_id \<Rightarrow> 'x) \<Rightarrow> bool" where
  "in_step order k m env \<longleftrightarrow> (\<forall>v. (\<forall>b < length order. k \<le> b \<longrightarrow> \<not> written order b v) \<longrightarrow>
     (\<exists>a < length order. k \<le> a \<and> v \<in> set (ins (order ! a))) \<or> settled order v \<longrightarrow> read m v = env v)"

lemma no_overlap_in_node:
  assumes "safe_order order" and "k < length order" and "touched order k v" and "written order k w" and "v \<noteq> w"
  shows "\<not> overlap v w"
  using safe_orderD(4) [OF assms(1,2,2,3-5)] assms(2-4) unfolding all_before_def touched_def written_def by blast

lemma node_inputs:
  assumes "safe_order order" and "k < length order" and "in_step order k m env"
  shows "map (read m) (ins (order ! k)) = map env (ins (order ! k))"
proof (rule map_cong [OF refl])
  fix v assume v: "v \<in> set (ins (order ! k))"
  have "\<not> written order b v" if "b < length order" "k \<le> b" for b
    using safe_orderD(2) [OF assms(1) that(1) assms(2) _ v] that(2) by auto
  then show "read m v = env v" using assms(2,3) v unfolding in_step_def by blast
qed

lemma later_use_not_overlapped:
  assumes "safe_order order" and "k < length order" and "written order k w" and "v \<noteq> w"
    and "\<forall>b < length order. k \<le> b \<longrightarrow> \<not> written order b v"
    and "(\<exists>a < length order. Suc k \<le> a \<and> v \<in> set (ins (order ! a))) \<or> settled order v"
  shows "\<not> overlap v w"
proof
  assume over: "overlap v w"
  have "\<not> settled order v"
  proof
    assume "settled order v"
    then obtain c where "c < length order" "k < c" "written order c v"
      using over assms(2-4) unfolding settled_def by blast
    then show False using assms(5) by simp
  qed
  then obtain a where a: "a < length order" "Suc k \<le> a" "v \<in> set (ins (order ! a))" using assms(6) by blast
  then have t: "touched order a v" by (simp add: touched_def)
  obtain c where c: "c < length order" "written order c v" and apart: "all_before order v w \<or> all_before order w v"
    using safe_orderD(4) [OF assms(1) a(1) assms(2) t assms(3,4) over] by blast
  have "c < k" using assms(5) c by (meson not_le)
  moreover have "touched order k w" "touched order c v" using assms(3) c(2) by (simp_all add: touched_def written_def)
  ultimately show False using apart t a(1,2) assms(2) c(1) unfolding all_before_def by fastforce
qed

lemma step_in_step:
  assumes safe: "safe_order order" and k: "k < length order" and inv: "in_step order k m env"
  shows "in_step order (Suc k) (step (order ! k) m) (store_step (order ! k) env)"
  unfolding in_step_def
proof (intro allI impI)
  fix v
  assume unwritten: "\<forall>b < length order. Suc k \<le> b \<longrightarrow> \<not> written order b v"
    and use: "(\<exists>a < length order. Suc k \<le> a \<and> v \<in> set (ins (order ! a))) \<or> settled order v"
  let ?i = "order ! k"
  have own: "\<not> overlap v w" if "v \<in> set (outs ?i)" "w \<in> set (outs ?i)" "v \<noteq> w" for v w
    using no_overlap_in_node [OF safe k] that by (simp add: touched_def written_def)
  have "map (read (step ?i m)) (outs ?i) = compute ?i (map (read m) (ins ?i))"
    by (rule step_writes [OF safe_orderD(3) [OF safe k]]) (rule own)
  then have new: "map (read (step ?i m)) (outs ?i) = compute ?i (map env (ins ?i))"
    unfolding node_inputs [OF safe k inv] .
  show "read (step ?i m) v = store_step ?i env v"
  proof (cases "v \<in> set (outs ?i)")
    case True
    then have "map_of (zip (outs ?i) (compute ?i (map env (ins ?i)))) v = Some (read (step ?i m) v)"
      unfolding new [symmetric] by (simp add: map_of_zip_map)
    then show ?thesis by (simp add: store_step_def)
  next
    case False
    then have unwritten': "\<forall>b < length order. k \<le> b \<longrightarrow> \<not> written order b v"
      using unwritten by (auto simp: written_def le_Suc_eq not_less_eq_eq dest: le_antisym)
    have "\<not> overlap v w" if "w \<in> set (outs ?i)" for w
      using later_use_not_overlapped [OF safe k _ _ unwritten' use, of w] that False by (auto simp: written_def)
    then have "read (step ?i m) v = read m v" by (rule step_keeps)
    moreover have "read m v = env v" using inv unwritten' use unfolding in_step_def by (meson Suc_leD)
    moreover have "map_of (zip (outs ?i) (compute ?i (map env (ins ?i)))) v = None"
      using False by (auto simp: map_of_eq_None_iff dest: set_zip_leftD)
    ultimately show ?thesis by (simp add: store_step_def)
  qed
qed

lemma reuse_invisible:
  assumes "safe_order order" and "k \<le> length order"
    and "\<And>v. (\<forall>b < length order. \<not> written order b v) \<Longrightarrow> read m v = env v"
  shows "in_step order k (mem_after order k m) (store_after order k env)"
  using assms(2)
proof (induction k)
  case 0
  show ?case using assms(3) by (simp add: in_step_def mem_after_def store_after_def)
next
  case (Suc k)
  then have "in_step order k (mem_after order k m) (store_after order k env)" by simp
  from step_in_step [OF assms(1) _ this] Suc.prems show ?case
    by (simp add: mem_after_def store_after_def take_Suc_conv_app_nth)
qed

lemma final_settled:
  assumes "safe_order order" and "settled order v"
    and "\<And>v. (\<forall>b < length order. \<not> written order b v) \<Longrightarrow> read m v = env v"
  shows "read (mem_after order (length order) m) v = store_after order (length order) env v"
  using reuse_invisible [OF assms(1) order_refl assms(3)] assms(2) by (simp add: in_step_def)

end

section \<open>Bytes\<close>

type_synonym byte_memory = "nat \<Rightarrow> byte"

definition read_bytes :: "nat \<Rightarrow> nat \<Rightarrow> byte_memory \<Rightarrow> byte list" where
  "read_bytes a n m = map m [a..<a + n]"

definition write_bytes :: "nat \<Rightarrow> byte list \<Rightarrow> byte_memory \<Rightarrow> byte_memory" where
  "write_bytes a xs m = (\<lambda>x. if a \<le> x \<and> x < a + length xs then xs ! (x - a) else m x)"

definition fit :: "nat \<Rightarrow> byte list \<Rightarrow> byte list" where
  "fit n xs = take n xs @ replicate (n - length xs) 0"

lemma length_fit [simp]: "length (fit n xs) = n"
  by (simp add: fit_def)

lemma read_write_same [simp]: "length xs = n \<Longrightarrow> read_bytes a n (write_bytes a xs m) = xs"
  by (auto simp: read_bytes_def write_bytes_def intro!: nth_equalityI)

lemma read_write_apart: "apart_blocks a n b (length xs) \<Longrightarrow> read_bytes a n (write_bytes b xs m) = read_bytes a n m"
  by (auto simp: read_bytes_def write_bytes_def apart_blocks_def)

text \<open>A node that reads the bytes of its inputs and then writes \<open>F\<close> of them to its outputs.\<close>

definition node_inputs_bytes ::
  "'d graph \<Rightarrow> (value_id \<Rightarrow> nat) \<Rightarrow> (value_id \<Rightarrow> nat) \<Rightarrow> node_id \<Rightarrow> byte_memory \<Rightarrow> byte list list"
where
  "node_inputs_bytes g addr sz i m = map (\<lambda>v. read_bytes (addr v) (sz v) m) (n_inputs (g_nodes g ! i))"

definition node_step ::
  "'d graph \<Rightarrow> (value_id \<Rightarrow> nat) \<Rightarrow> (value_id \<Rightarrow> nat) \<Rightarrow> (node_id \<Rightarrow> byte list list \<Rightarrow> value_id \<Rightarrow> byte list) \<Rightarrow> node_id
   \<Rightarrow> byte_memory \<Rightarrow> byte_memory"
where
  "node_step g addr sz F i m =
     foldl (\<lambda>m' v. write_bytes (addr v) (fit (sz v) (F i (node_inputs_bytes g addr sz i m) v)) m') m (n_outputs (g_nodes g ! i))"

lemma write_all_keeps:
  assumes "\<And>w. w \<in> set vs \<Longrightarrow> apart_blocks a n (addr w) (sz w)" and "\<And>w. length (x w) = sz w"
  shows "read_bytes a n (foldl (\<lambda>m v. write_bytes (addr v) (x v) m) m vs) = read_bytes a n m"
  using assms by (induction vs arbitrary: m) (auto simp: read_write_apart)

lemma write_all_writes:
  assumes "distinct vs" and "\<And>v w. v \<in> set vs \<Longrightarrow> w \<in> set vs \<Longrightarrow> v \<noteq> w \<Longrightarrow> apart_blocks (addr v) (sz v) (addr w) (sz w)"
    and "\<And>w. length (x w) = sz w"
  shows "map (\<lambda>v. read_bytes (addr v) (sz v) (foldl (\<lambda>m v. write_bytes (addr v) (x v) m) m vs)) vs = map x vs"
  using assms(1,2)
proof (induction vs arbitrary: m)
  case (Cons v vs)
  have "read_bytes (addr v) (sz v) (foldl (\<lambda>m v. write_bytes (addr v) (x v) m) (write_bytes (addr v) (x v) m) vs)
      = read_bytes (addr v) (sz v) (write_bytes (addr v) (x v) m)"
  proof (rule write_all_keeps [where sz = sz])
    show "apart_blocks (addr v) (sz v) (addr w) (sz w)" if "w \<in> set vs" for w
      by (rule Cons.prems(2)) (use that Cons.prems(1) in auto)
  qed (rule assms(3))
  with Cons assms(3) show ?case by simp
qed simp

interpretation bytes: cell_machine "\<lambda>i. n_inputs (g_nodes g ! i)" "\<lambda>i. n_outputs (g_nodes g ! i)"
  "\<lambda>i xs. map (\<lambda>v. fit (sz v) (F i xs v)) (n_outputs (g_nodes g ! i))" "\<lambda>m v. read_bytes (addr v) (sz v) m"
  "node_step g addr sz F" "\<lambda>v w. \<not> apart_blocks (addr v) (sz v) (addr w) (sz w)"
  for g :: "'d graph" and addr sz :: "value_id \<Rightarrow> nat" and F :: "node_id \<Rightarrow> byte list list \<Rightarrow> value_id \<Rightarrow> byte list"
proof unfold_locales
  show "\<not> apart_blocks (addr w) (sz w) (addr v) (sz v)" if "\<not> apart_blocks (addr v) (sz v) (addr w) (sz w)" for v w
    using that by (auto simp: apart_blocks_def)
next
  fix i m
  assume "distinct (n_outputs (g_nodes g ! i))" and "\<And>v w. v \<in> set (n_outputs (g_nodes g ! i)) \<Longrightarrow>
    w \<in> set (n_outputs (g_nodes g ! i)) \<Longrightarrow> v \<noteq> w \<Longrightarrow> \<not> \<not> apart_blocks (addr v) (sz v) (addr w) (sz w)"
  then show "map (\<lambda>v. read_bytes (addr v) (sz v) (node_step g addr sz F i m)) (n_outputs (g_nodes g ! i)) =
      map (\<lambda>v. fit (sz v) (F i (map (\<lambda>v. read_bytes (addr v) (sz v) m) (n_inputs (g_nodes g ! i))) v)) (n_outputs (g_nodes g ! i))"
    unfolding node_step_def node_inputs_bytes_def by (intro write_all_writes) auto
next
  fix i v m
  assume "\<And>w. w \<in> set (n_outputs (g_nodes g ! i)) \<Longrightarrow> \<not> \<not> apart_blocks (addr v) (sz v) (addr w) (sz w)"
  then show "read_bytes (addr v) (sz v) (node_step g addr sz F i m) = read_bytes (addr v) (sz v) m"
    unfolding node_step_def by (intro write_all_keeps) auto
qed

end
