(* ===== verification/Planned_Execution.thy ===== *)
theory Planned_Execution
  imports Memory_Reuse_Execution
begin

text \<open>
  A compiled graph that runs in planned memory computes what it computes with memory of its own for every value:
  the planner, the arenas, the bindings of the context and the executor together.
\<close>

section \<open>The reference run\<close>

definition ref_step ::
  "'d graph \<Rightarrow> (value_id \<Rightarrow> nat) \<Rightarrow> (node_id \<Rightarrow> byte list list \<Rightarrow> value_id \<Rightarrow> byte list) \<Rightarrow> node_id
   \<Rightarrow> (value_id \<Rightarrow> byte list) \<Rightarrow> value_id \<Rightarrow> byte list"
where
  "ref_step g sz F i env v =
     (if v \<in> writes g i then fit (sz v) (F i (map env (n_inputs (g_nodes g ! i))) v) else env v)"

definition ref_run ::
  "'d graph \<Rightarrow> (value_id \<Rightarrow> nat) \<Rightarrow> (node_id \<Rightarrow> byte list list \<Rightarrow> value_id \<Rightarrow> byte list) \<Rightarrow> node_id list
   \<Rightarrow> (value_id \<Rightarrow> byte list) \<Rightarrow> value_id \<Rightarrow> byte list"
where
  "ref_run g sz F is env = foldl (\<lambda>e i. ref_step g sz F i e) env is"

definition run_bytes ::
  "'d graph \<Rightarrow> (value_id \<Rightarrow> nat) \<Rightarrow> (value_id \<Rightarrow> nat) \<Rightarrow> (node_id \<Rightarrow> byte list list \<Rightarrow> value_id \<Rightarrow> byte list) \<Rightarrow> node_id list
   \<Rightarrow> byte_memory \<Rightarrow> byte_memory"
where
  "run_bytes g addr sz F is m = foldl (\<lambda>m i. node_step g addr sz F i m) m is"

lemma store_step_ref: "bytes.store_step TYPE('d) g sz F i env = ref_step g sz F i env" for g :: "'d graph"
proof
  fix v
  show "bytes.store_step TYPE('d) g sz F i env v = ref_step g sz F i env v"
    unfolding bytes.store_step_def ref_step_def writes_def by (simp add: map_of_zip_map)
qed

lemma store_after_ref: "bytes.store_after TYPE('d) g sz F is k env = ref_run g sz F (take k is) env" for g :: "'d graph"
  by (simp add: bytes.store_after_def ref_run_def store_step_ref)

lemma mem_after_bytes: "bytes.mem_after TYPE('d) g addr sz F is k m = run_bytes g addr sz F (take k is) m" for g :: "'d graph"
  by (simp add: bytes.mem_after_def run_bytes_def)

section \<open>Positions of the computing nodes\<close>

lemma filter_positions:
  "\<exists>f. (\<forall>i < length (filter P xs). f i < length xs \<and> filter P xs ! i = xs ! f i)
     \<and> (\<forall>i j. j < length (filter P xs) \<longrightarrow> i < j \<longrightarrow> f i < f j)"
proof (induction xs)
  case (Cons x xs)
  then obtain f where f: "\<forall>i < length (filter P xs). f i < length xs \<and> filter P xs ! i = xs ! f i"
    "\<forall>i j. j < length (filter P xs) \<longrightarrow> i < j \<longrightarrow> f i < f j" by blast
  show ?case
  proof (cases "P x")
    case True
    let ?f = "\<lambda>i. case i of 0 \<Rightarrow> 0 | Suc k \<Rightarrow> Suc (f k)"
    have "\<forall>i < length (filter P (x # xs)). ?f i < length (x # xs) \<and> filter P (x # xs) ! i = (x # xs) ! ?f i"
      using f(1) True by (auto split: nat.split)
    moreover have "?f i < ?f j" if "j < length (filter P (x # xs))" "i < j" for i j
      using f(2) True that by (cases i; cases j) auto
    ultimately show ?thesis by blast
  next
    case False
    with f show ?thesis by (intro exI [of _ "\<lambda>i. Suc (f i)"]) simp
  qed
qed simp

lemma reads_after_write:
  assumes sorted: "topological_sort g = Inr order" and single: "single_producer g"
    and j: "j < length order" "v \<in> writes g (order ! j)"
    and a: "a < length order" "v \<in> set (n_inputs (g_nodes g ! (order ! a)))"
  shows "j < a"
proof -
  have nodes: "order ! j < length (g_nodes g)" "order ! a < length (g_nodes g)"
    using topological_sort_InrD(2) [OF sorted] j(1) a(1) nth_mem by blast+
  have "(order ! j, order ! a) \<in> depends_on g"
    using a(2) producer_of_write [OF single nodes(1) j(2)] nodes by (auto simp: depends_on_def)
  from topological_sort_InrD(3) [OF sorted this a(1) refl] obtain i where "i < a" "order ! i = order ! j"
    using a(1) by (auto simp: in_set_conv_nth)
  then show ?thesis using topological_sort_InrD(1) [OF sorted] j(1) a(1) by (simp add: nth_eq_iff_index_eq)
qed

text \<open>What is over before something in the whole order is so among the computing nodes.\<close>

lemma over_before_filter:
  assumes "over_before g order v w"
  shows "over_before g (filter P order) v w"
proof -
  obtain f where f: "\<forall>i < length (filter P order). f i < length order \<and> filter P order ! i = order ! f i"
    "\<forall>i j. j < length (filter P order) \<longrightarrow> i < j \<longrightarrow> f i < f j" using filter_positions by blast
  have "a < b" if "a < length (filter P order)" "b < length (filter P order)" "f a < f b" for a b
    using f(2) that by (cases a b rule: linorder_cases) (auto dest: less_asym)
  then show ?thesis using assms f(1) unfolding over_before_def uses_before_def by metis
qed

section \<open>Planned memory\<close>

definition planned :: "'d graph \<Rightarrow> memory_plan \<Rightarrow> value_id \<Rightarrow> bool" where
  "planned g p v \<longleftrightarrow> v < length (g_values g) \<and> lr_eligible (mp_ranges p ! v)"

text \<open>Where the values of a run lie: planned values are written by some node and lie where their tensor points, and
  values outside the plan (inputs, weights) have memory that nothing written overlaps.\<close>

definition in_memory ::
  "'d graph \<Rightarrow> memory_plan \<Rightarrow> 'f runtime_context \<Rightarrow> node_id list \<Rightarrow> (value_id \<Rightarrow> nat) \<Rightarrow> (value_id \<Rightarrow> nat) \<Rightarrow> bool"
where
  "in_memory g p rc is addr sz \<longleftrightarrow>
     (\<forall>v. planned g p v \<longrightarrow> bound_to rc v (g_values g ! v) (addr v) \<and> sz v = lr_bytes (mp_ranges p ! v)
        \<and> (\<exists>i \<in> set is. v \<in> writes g i))
   \<and> (\<forall>i \<in> set is. distinct (n_outputs (g_nodes g ! i)))
   \<and> (\<forall>i \<in> set is. \<forall>j \<in> set is. \<forall>v \<in> accesses g i. \<forall>w \<in> writes g j. v \<noteq> w \<longrightarrow> \<not> (planned g p v \<and> planned g p w)
        \<longrightarrow> apart_blocks (addr v) (sz v) (addr w) (sz w))"

lemma in_memoryD:
  assumes "in_memory g p rc is addr sz"
  shows "planned g p v \<Longrightarrow> bound_to rc v (g_values g ! v) (addr v)"
    "planned g p v \<Longrightarrow> sz v = lr_bytes (mp_ranges p ! v)"
    "planned g p v \<Longrightarrow> \<exists>i \<in> set is. v \<in> writes g i"
    "i \<in> set is \<Longrightarrow> distinct (n_outputs (g_nodes g ! i))"
    "i \<in> set is \<Longrightarrow> j \<in> set is \<Longrightarrow> v \<in> accesses g i \<Longrightarrow> w \<in> writes g j \<Longrightarrow> v \<noteq> w \<Longrightarrow> \<not> (planned g p v \<and> planned g p w)
       \<Longrightarrow> apart_blocks (addr v) (sz v) (addr w) (sz w)"
  using assms unfolding in_memory_def by blast+

lemma bound_to_unique: "bound_to rc v x a \<Longrightarrow> bound_to rc v x b \<Longrightarrow> a = b"
  by (auto simp: bound_to_def)

text \<open>What the plan promises of overlapping values, which the two lemmas below rest on.\<close>

definition overlaps_over :: "'d graph \<Rightarrow> memory_plan \<Rightarrow> node_id list \<Rightarrow> (value_id \<Rightarrow> nat) \<Rightarrow> (value_id \<Rightarrow> nat) \<Rightarrow> bool" where
  "overlaps_over g p is addr sz \<longleftrightarrow> (\<forall>v w. planned g p v \<longrightarrow> planned g p w \<longrightarrow> v \<noteq> w
     \<longrightarrow> \<not> apart_blocks (addr v) (sz v) (addr w) (sz w) \<longrightarrow> over_before g is v w \<or> over_before g is w v)"

lemma planned_safe:
  fixes g :: "'d graph"
  assumes sorted: "topological_sort g = Inr order" and single: "single_producer g"
    and mem: "in_memory g p rc (filter P order) addr sz" and over: "overlaps_over g p (filter P order) addr sz"
  shows "bytes.safe_order TYPE('d) g addr sz (filter P order)"
proof -
  let ?is = "filter P order"
  obtain f where f: "\<forall>i < length ?is. f i < length order \<and> ?is ! i = order ! f i"
    "\<forall>i j. j < length ?is \<longrightarrow> i < j \<longrightarrow> f i < f j" using filter_positions by blast
  have nodes: "?is ! a < length (g_nodes g)" if "a < length ?is" for a
    using f(1) that topological_sort_InrD(2) [OF sorted] nth_mem by fastforce
  have dist: "distinct ?is" using topological_sort_InrD(1) [OF sorted] by simp
  have once: "a = b" if "a < length ?is" "b < length ?is" "v \<in> writes g (?is ! a)" "v \<in> writes g (?is ! b)" for a b v
  proof -
    have "?is ! a = ?is ! b" using single nodes [OF that(1)] nodes [OF that(2)] that(3,4) by (auto simp: single_producer_def)
    then show ?thesis using dist that(1,2) by (simp add: nth_eq_iff_index_eq)
  qed
  have early: "a < b" if "a < length ?is" "b < length ?is" "v \<in> writes g (?is ! a)" "v \<in> set (n_inputs (g_nodes g ! (?is ! b)))" for a b v
  proof -
    have "f a < f b" using reads_after_write [OF sorted single, of "f a" v "f b"] f(1) that by simp
    then show ?thesis using f(2) that by (cases a b rule: linorder_cases) (auto dest: less_asym)
  qed
  have order: "(\<exists>c < length ?is. v \<in> writes g (?is ! c)) \<and> (uses_before g ?is v w \<or> uses_before g ?is w v)"
    if "a < length ?is" "b < length ?is" "v \<in> accesses g (?is ! a)" "w \<in> writes g (?is ! b)" "v \<noteq> w"
      "\<not> apart_blocks (addr v) (sz v) (addr w) (sz w)" for a b v w
  proof -
    have p: "planned g p v" "planned g p w" using in_memoryD(5) [OF mem _ _ that(3-5)] that(1,2,6) nth_mem by blast+
    have "\<exists>c < length ?is. v \<in> writes g (?is ! c)" using in_memoryD(3) [OF mem p(1)] by (metis in_set_conv_nth)
    moreover have "uses_before g ?is v w \<or> uses_before g ?is w v"
      using over p that(5,6) unfolding overlaps_over_def over_before_def by blast
    ultimately show ?thesis ..
  qed
  show ?thesis
    unfolding bytes.safe_order_def bytes.written_def bytes.touched_def bytes.all_before_def
    using once early order in_memoryD(4) [OF mem] nth_mem
    unfolding writes_def accesses_def uses_before_def by meson
qed

lemma planned_settled:
  fixes g :: "'d graph"
  assumes mem: "in_memory g p rc is addr sz" and over: "overlaps_over g p is addr sz"
    and i: "i \<in> set is" "v \<in> writes g i" and v: "planned g p v \<longrightarrow> v_kind (g_values g ! v) = KOutput"
  shows "bytes.settled TYPE('d) g addr sz is v"
  unfolding bytes.settled_def bytes.written_def
proof (intro allI impI)
  fix b w
  assume b: "b < length is" "w \<in> set (n_outputs (g_nodes g ! (is ! b)))" and vw: "w \<noteq> v"
    and ov: "\<not> apart_blocks (addr v) (sz v) (addr w) (sz w)"
  obtain c where c: "c < length is" "is ! c = i" using i(1) by (auto simp: in_set_conv_nth)
  have w: "w \<in> writes g (is ! b)" "w \<in> accesses g (is ! b)" using b(2) by (simp_all add: writes_def accesses_def)
  have va: "v \<in> accesses g (is ! c)" using i(2) c(2) by (simp add: writes_def accesses_def)
  have p: "planned g p v" "planned g p w"
    using in_memoryD(5) [OF mem _ _ va w(1)] c(1) b(1) vw ov nth_mem by blast+
  have "over_before g is v w \<or> over_before g is w v" using over p vw ov unfolding overlaps_over_def by blast
  moreover have "\<not> over_before g is v w" using v p(1) b(1) w(2) unfolding over_before_def by blast
  ultimately have "b < c" using b(1) c(1) w(2) va unfolding over_before_def uses_before_def by blast
  then show "\<exists>c < length is. b < c \<and> v \<in> set (n_outputs (g_nodes g ! (is ! c)))"
    using c i(2) by (auto simp: writes_def)
qed

lemma run_kernels_bytes:
  assumes "\<And>i m. i \<in> set is \<Longrightarrow> K i (rc, m) = (make_ok, rc, node_step g addr sz F i m)"
  shows "run_kernels K is (rc, m) = (None, rc, run_bytes g addr sz F is m)"
  using assms by (induction "is" arbitrary: m) (auto simp: run_bytes_def)

text \<open>C3. Reuse of memory is invisible. A graph is planned, its context gets the planned memory, it is compiled
  and run with kernels that read the bytes of their inputs and write the bytes of their outputs. Then every
  kernel finds in its inputs the bytes it would find if each value had memory of its own, and at the end
  every output of the graph, and every unplanned value that a node writes, holds the bytes of that reference run.\<close>

theorem memory_reuse_is_invisible:
  fixes g :: "'d graph" and reg :: "('d, 'f, byte_memory) kernel_registry"
  assumes run: "allocate_intermediates_planned std_sort heap map_order g opt rc = (Inr p, rc')"
    and laws: "std_sort_law std_sort" "heap_law heap" "map_order_law map_order"
    and graph: "well_numbered g" "single_producer g"
    and small: "\<forall>r \<in> set (mp_ranges p). lr_eligible r \<longrightarrow> lr_bytes r + po_alignment opt \<le> 2 ^ 64"
      "sum_list (map mb_bytes (mp_buffers p)) < 2 ^ 64" "length (mp_buffers p) \<le> no_buffer"
    and free: "\<forall>v. planned g p v \<longrightarrow> rc_bindings rc v = None"
    and compiled: "compile_graph be reg g ex0 = (make_ok, ex)"
    and steps: "is = filter (computes g) (ex_order ex)"
    and mem: "in_memory g p rc' is addr sz"
    and kernels: "\<forall>i \<in> set is. \<forall>m. kernel_of reg g i (g_nodes g ! i) (rc', m) = (make_ok, rc', node_step g addr sz F i m)"
    and start: "\<forall>v. env v = read_bytes (addr v) (sz v) m"
  shows "snd (snd (run_graph reg g ex (rc', m))) = run_bytes g addr sz F is m
    \<and> (\<forall>k < length is. node_inputs_bytes g addr sz (is ! k) (run_bytes g addr sz F (take k is) m)
          = map (ref_run g sz F (take k is) env) (n_inputs (g_nodes g ! (is ! k))))
    \<and> (\<forall>i \<in> set is. \<forall>v \<in> writes g i. (planned g p v \<longrightarrow> v_kind (g_values g ! v) = KOutput)
          \<longrightarrow> read_bytes (addr v) (sz v) (run_bytes g addr sz F is m) = ref_run g sz F is env v)"
proof -
  note sorted = compile_graph_ok(2) [OF compiled]
  have over: "overlaps_over g p is addr sz"
    unfolding overlaps_over_def
  proof (intro allI impI)
    fix v w
    assume v: "planned g p v" and w: "planned g p w" and vw: "v \<noteq> w"
      and ov: "\<not> apart_blocks (addr v) (sz v) (addr w) (sz w)"
    have v': "v < length (g_values g)" "lr_eligible (mp_ranges p ! v)" and w': "w < length (g_values g)" "lr_eligible (mp_ranges p ! w)"
      using v w by (simp_all add: planned_def)
    obtain a b where ab: "bound_to rc' v (g_values g ! v) a" "bound_to rc' w (g_values g ! w) b"
      "apart_blocks a (lr_bytes (mp_ranges p ! v)) b (lr_bytes (mp_ranges p ! w))
        \<or> over_before g (ex_order ex) v w \<or> over_before g (ex_order ex) w v"
      using planned_memory_apart [OF run laws graph sorted small v'(1) w'(1) vw v'(2) w'(2)
          mp [OF spec [OF free] v] mp [OF spec [OF free] w]] by blast
    have "a = addr v" "b = addr w"
      using bound_to_unique [OF ab(1) in_memoryD(1) [OF mem v]] bound_to_unique [OF ab(2) in_memoryD(1) [OF mem w]] by simp_all
    then have "over_before g (ex_order ex) v w \<or> over_before g (ex_order ex) w v"
      using ab(3) ov in_memoryD(2) [OF mem v] in_memoryD(2) [OF mem w] by simp
    then show "over_before g is v w \<or> over_before g is w v" unfolding steps using over_before_filter by blast
  qed
  have safe: "bytes.safe_order TYPE('d) g addr sz is"
    using planned_safe [OF sorted graph(2)] mem over unfolding steps by blast
  have init: "read_bytes (addr v) (sz v) m = env v" for v using start by simp
  have "run_kernels (\<lambda>i. kernel_of reg g i (g_nodes g ! i)) is (rc', m) = (None, rc', run_bytes g addr sz F is m)"
    using kernels by (intro run_kernels_bytes) blast
  then have final: "snd (snd (run_graph reg g ex (rc', m))) = run_bytes g addr sz F is m"
    unfolding compiled_run [OF compiled] steps by (auto split: prod.splits sum.splits)
  have inputs: "node_inputs_bytes g addr sz (is ! k) (run_bytes g addr sz F (take k is) m)
          = map (ref_run g sz F (take k is) env) (n_inputs (g_nodes g ! (is ! k)))" if k: "k < length is" for k
    using bytes.node_inputs [OF safe k bytes.reuse_invisible [OF safe less_imp_le [OF k] init]]
    by (simp only: store_after_ref mem_after_bytes node_inputs_bytes_def)
  have outputs: "read_bytes (addr v) (sz v) (run_bytes g addr sz F is m) = ref_run g sz F is env v"
    if v: "i \<in> set is" "v \<in> writes g i" "planned g p v \<longrightarrow> v_kind (g_values g ! v) = KOutput" for i v
    using bytes.final_settled [OF safe planned_settled [OF mem over v] init, of F]
    by (simp only: store_after_ref mem_after_bytes take_all order_refl)
  show ?thesis using final inputs outputs by blast
qed

section \<open>The chain runs\<close>

text \<open>Every node of the chain adds one to each byte.\<close>

definition add_one :: "node_id \<Rightarrow> byte list list \<Rightarrow> value_id \<Rightarrow> byte list" where
  "add_one i xs v = map (\<lambda>b. b + 1) (hd xs)"

definition chain_registry :: "(value_id \<Rightarrow> nat) \<Rightarrow> (nat, nat, byte_memory) kernel_registry" where
  "chain_registry addr = register_kernel CPU OpSiLU
     (\<lambda>nd (rc, m). (make_ok, rc, node_step chain addr (\<lambda>_. 16) add_one (n_id nd) m)) Map.empty"

lemma chain_compiles:
  "compile_graph cpu_backend (chain_registry addr) chain new_executor = (make_ok, \<lparr>ex_compiled = True, ex_order = [0, 1, 2]\<rparr>)"
proof -
  have "validate chain = make_ok" using chain_sorts topological_sort_invalid [of chain] by (cases "validate chain") auto
  moreover have "check_order cpu_backend (chain_registry addr) chain [0, 1, 2] = make_ok"
    by (simp add: chain_def g_node_def make_node_def Let_def has_kernel_def chain_registry_def register_kernel_def eval_nat_numeral)
  ultimately show ?thesis by (simp only: compile_graph_def chain_sorts rbind_simps sum.case) (simp add: new_executor_def)
qed

lemma chain_nodes: "filter (computes chain) [0, 1, 2] = [0, 1, 2]" "writes chain 0 = {1}" "writes chain 1 = {2}" "writes chain 2 = {3}"
  "accesses chain 0 = {0, 1}" "accesses chain 1 = {1, 2}" "accesses chain 2 = {2, 3}"
  "n_inputs (g_nodes chain ! 0) = [0]" "n_inputs (g_nodes chain ! 1) = [1]" "n_inputs (g_nodes chain ! 2) = [2]"
  by (auto simp: computes_def chain_def make_node_def writes_def accesses_def eval_nat_numeral)

lemma chain_in_memory:
  assumes plan: "mp_ranges p = chain_ranges[1 := (chain_range 1 0 1)\<lparr>lr_buffer := 0\<rparr>, 2 := (chain_range 2 1 2)\<lparr>lr_buffer := 1\<rparr>,
        3 := (chain_range 3 2 2)\<lparr>lr_buffer := 0\<rparr>]"
    and bound: "bound_to rc 1 (chain_value 1 KIntermediate) a" "bound_to rc 2 (chain_value 2 KIntermediate) b"
      "bound_to rc 3 (chain_value 3 KIntermediate) c"
  shows "in_memory chain p rc [0, 1, 2] (\<lambda>v. if v = 1 then a else if v = 2 then b else if v = 3 then c else a + b + c + 16) (\<lambda>_. 16)"
proof -
  have pl: "planned chain p v \<longleftrightarrow> v = 1 \<or> v = 2 \<or> v = 3" for v
  proof (cases "v < 4")
    case True
    then have "v = 0 \<or> v = 1 \<or> v = 2 \<or> v = 3" by arith
    then show ?thesis
      by (elim disjE) (simp_all add: planned_def plan chain_graph(3) chain_ranges_def chain_range_def chain_input_def)
  qed (auto simp: planned_def chain_graph(3))
  have bytes: "lr_bytes (mp_ranges p ! v) = 16" if "v = 1 \<or> v = 2 \<or> v = 3" for v
    using that by (auto simp: plan chain_ranges_def chain_range_def)
  have vals: "g_values chain ! 1 = chain_value 1 KIntermediate" "g_values chain ! 2 = chain_value 2 KIntermediate"
    "g_values chain ! 3 = chain_value 3 KIntermediate" by (simp_all add: chain_def)
  have dist: "\<forall>i \<in> set [0, 1, 2]. distinct (n_outputs (g_nodes chain ! i))" by (simp add: chain_def make_node_def eval_nat_numeral)
  show ?thesis
    unfolding in_memory_def pl
  proof (intro conjI)
    show "\<forall>v. v = 1 \<or> v = 2 \<or> v = 3 \<longrightarrow> bound_to rc v (g_values chain ! v) (if v = 1 then a else if v = 2 then b else if v = 3 then c else a + b + c + 16)
        \<and> 16 = lr_bytes (mp_ranges p ! v) \<and> (\<exists>i \<in> set [0, 1, 2]. v \<in> writes chain i)"
    proof (intro allI impI)
      fix v :: nat assume v: "v = 1 \<or> v = 2 \<or> v = 3"
      have "bound_to rc v (g_values chain ! v) (if v = 1 then a else if v = 2 then b else if v = 3 then c else a + b + c + 16)"
        using v bound unfolding vals [symmetric] by (elim disjE) (simp_all only: if_True if_False numeral_eq_iff num.distinct refl one_eq_numeral_iff numeral_eq_one_iff simp_thms)
      moreover have "\<exists>i \<in> set [0, 1, 2]. v \<in> writes chain i"
        using v chain_nodes(2-4) by (simp only: list.set) blast
      ultimately show "bound_to rc v (g_values chain ! v) (if v = 1 then a else if v = 2 then b else if v = 3 then c else a + b + c + 16)
        \<and> 16 = lr_bytes (mp_ranges p ! v) \<and> (\<exists>i \<in> set [0, 1, 2]. v \<in> writes chain i)"
        using bytes [OF v] by simp
    qed
    show "\<forall>i \<in> set [0, 1, 2]. \<forall>j \<in> set [0, 1, 2]. \<forall>v \<in> accesses chain i. \<forall>w \<in> writes chain j. v \<noteq> w
        \<longrightarrow> \<not> ((v = 1 \<or> v = 2 \<or> v = 3) \<and> (w = 1 \<or> w = 2 \<or> w = 3))
        \<longrightarrow> apart_blocks (if v = 1 then a else if v = 2 then b else if v = 3 then c else a + b + c + 16) 16
            (if w = 1 then a else if w = 2 then b else if w = 3 then c else a + b + c + 16) 16"
      by (simp add: chain_nodes [unfolded One_nat_def] apart_blocks_def)
  qed (rule dist)
qed

theorem memory_reuse_is_invisible_witness:
  "\<exists>p rc addr. allocate_intermediates_planned sort_by bump_heap (\<lambda>xs. xs) chain chain_options chain_context = (Inr p, rc)
     \<and> node_inputs_bytes chain addr (\<lambda>_. 16) 2 (run_bytes chain addr (\<lambda>_. 16) add_one [0, 1] (\<lambda>_. 5)) = [replicate 16 7]"
proof -
  obtain p rc' where run: "allocate_intermediates_planned sort_by bump_heap (\<lambda>xs. xs) chain chain_options chain_context = (Inr p, rc')"
    and p: "mp_ranges p = chain_ranges[1 := (chain_range 1 0 1)\<lparr>lr_buffer := 0\<rparr>, 2 := (chain_range 2 1 2)\<lparr>lr_buffer := 1\<rparr>,
        3 := (chain_range 3 2 2)\<lparr>lr_buffer := 0\<rparr>]"
      "mp_buffers p = [(chain_buffer 0 2 [1, 3])\<lparr>mb_arena := 0, mb_offset := 0\<rparr>, (chain_buffer 1 2 [2])\<lparr>mb_arena := 0, mb_offset := 64\<rparr>]"
    using chain_run by blast
  have small: "\<forall>r \<in> set (mp_ranges p). lr_eligible r \<longrightarrow> lr_bytes r + po_alignment chain_options \<le> 2 ^ 64"
    by (simp add: p(1) chain_ranges_def chain_range_def chain_input_def chain_options_def)
  have ord: "map_order_law (\<lambda>xs. xs)" by (simp add: map_order_law_def)
  have sums: "sum_list (map mb_bytes (mp_buffers p)) < 2 ^ 64" "length (mp_buffers p) \<le> no_buffer"
    by (simp_all add: p(2) chain_buffer_def)
  have vals: "g_values chain ! 1 = chain_value 1 KIntermediate" "g_values chain ! 2 = chain_value 2 KIntermediate"
    "g_values chain ! 3 = chain_value 3 KIntermediate" "1 < length (g_values chain)" "2 < length (g_values chain)"
    "3 < length (g_values chain)" "(1 :: nat) \<noteq> 2" "(2 :: nat) \<noteq> 3"
    by (simp_all add: chain_def)
  have elig: "lr_eligible (mp_ranges p ! 1)" "lr_eligible (mp_ranges p ! 2)" "lr_eligible (mp_ranges p ! 3)"
    by (simp_all add: p(1) chain_ranges_def chain_range_def)
  have free: "rc_bindings chain_context v = None" for v by (simp add: chain_context_def new_context_def)
  note apart = planned_memory_apart [OF run std_sort_law_sort_by bump_heap_law ord chain_graph(1,2) chain_sorts small sums _ _ _ _ _ free free]
  obtain a b where ab: "bound_to rc' 1 (chain_value 1 KIntermediate) a" "bound_to rc' 2 (chain_value 2 KIntermediate) b"
    using apart [OF vals(4,5,7) elig(1,2)] unfolding vals(1,2) by blast
  obtain c where c: "bound_to rc' 3 (chain_value 3 KIntermediate) c"
    using apart [OF vals(5,6,8) elig(2,3)] unfolding vals(2,3) by blast
  define addr where "addr = (\<lambda>v :: value_id. if v = 1 then a else if v = 2 then b else if v = 3 then c else a + b + c + 16)"
  define env where "env = (\<lambda>v. read_bytes (addr v) 16 (\<lambda>_. 5))"
  have mem: "in_memory chain p rc' [0, 1, 2] addr (\<lambda>_. 16)" unfolding addr_def by (rule chain_in_memory [OF p(1) ab c])
  have steps: "[0, 1, 2] = filter (computes chain) (ex_order \<lparr>ex_compiled = True, ex_order = [0, 1, 2]\<rparr>)"
    by (simp only: executor.select_convs chain_nodes(1))
  have kernels: "\<forall>i \<in> set [0, 1, 2]. \<forall>m. kernel_of (chain_registry addr) chain i (g_nodes chain ! i) (rc', m)
      = (make_ok, rc', node_step chain addr (\<lambda>_. 16) add_one i m)"
    by (simp add: kernel_of_def chain_registry_def register_kernel_def chain_def make_node_def eval_nat_numeral)
  have start: "\<forall>v. env v = read_bytes (addr v) ((\<lambda>_. 16) v) (\<lambda>_. 5)" by (simp add: env_def)
  have unbound: "\<forall>v. planned chain p v \<longrightarrow> rc_bindings chain_context v = None" using free by simp
  have "env 0 = replicate 16 5" by (simp add: env_def read_bytes_def map_replicate_const)
  then have "ref_run chain (\<lambda>_. 16) add_one [0, 1] env 2 = replicate 16 7"
    by (simp add: ref_run_def ref_step_def chain_nodes [unfolded One_nat_def] add_one_def fit_def)
  moreover have "node_inputs_bytes chain addr (\<lambda>_. 16) ([0, 1, 2] ! 2) (run_bytes chain addr (\<lambda>_. 16) add_one (take 2 [0, 1, 2]) (\<lambda>_. 5))
      = map (ref_run chain (\<lambda>_. 16) add_one (take 2 [0, 1, 2]) env) (n_inputs (g_nodes chain ! ([0, 1, 2] ! 2)))"
    by (rule mp [OF spec [OF conjunct1 [OF conjunct2 [OF memory_reuse_is_invisible [OF run std_sort_law_sort_by bump_heap_law ord
        chain_graph(1,2) small sums unbound chain_compiles steps mem kernels start]]], of 2]]) simp
  ultimately have "node_inputs_bytes chain addr (\<lambda>_. 16) 2 (run_bytes chain addr (\<lambda>_. 16) add_one [0, 1] (\<lambda>_. 5)) = [replicate 16 7]"
    by (simp add: chain_nodes)
  with run show ?thesis by blast
qed

end
