(* ===== verification/Gguf_Termination.thy ===== *)
theory Gguf_Termination
  imports Gguf_Format
begin

text \<open>
  The readers only move forward in the stream, by at least one byte for every metadata value. So the
  recursion of \<open>read_metadata_value\<close> ends on every input, however the file nests its arrays.
\<close>

section \<open>Forward readers\<close>

definition takes :: "nat \<Rightarrow> 'a reader \<Rightarrow> bool" where
  "takes k r \<longleftrightarrow> (\<forall>s x s'. r s = Inr (x, s') \<longrightarrow> (\<exists>u. s = u @ s' \<and> k \<le> length u))"

lemma takesD:
  assumes "takes k r" and "r s = Inr (x, s')"
  obtains u where "s = u @ s'" and "k \<le> length u"
  using assms unfolding takes_def by blast

lemma takes_shorter: "takes k r \<Longrightarrow> r s = Inr (x, s') \<Longrightarrow> length s' + k \<le> length s"
  by (auto elim!: takesD)

lemma takes_give [invariant_intros]: "takes 0 (give x)"
  by (simp add: takes_def give_def)

lemma takes_fail [invariant_intros]: "takes k (fail_with e)"
  by (simp add: takes_def fail_with_def)

lemma takes_exact [invariant_intros]: "takes n (read_exact n e)"
proof -
  have "\<exists>u. s = u @ drop n s \<and> n \<le> length u" if "\<not> length s < n" for s :: "octet list"
    using that by (intro exI [of _ "take n s"]) simp
  then show ?thesis unfolding takes_def read_exact_def by auto
qed

lemma takes_less: "takes k r \<Longrightarrow> j \<le> k \<Longrightarrow> takes j r"
  unfolding takes_def by (meson le_trans)

lemma takes_and_then:
  assumes "takes k r" and "\<And>x. takes j (f x)"
  shows "takes (k + j) (and_then r f)"
  unfolding takes_def
proof (intro allI impI)
  fix s y s'' assume "and_then r f s = Inr (y, s'')"
  then obtain x s' where r: "r s = Inr (x, s')" and f: "f x s' = Inr (y, s'')"
    by (auto simp: and_then_def rbind_Inr_iff)
  from takesD [OF assms(1) r] obtain u where u: "s = u @ s'" "k \<le> length u" .
  from takesD [OF assms(2) f] obtain w where w: "s' = w @ s''" "j \<le> length w" .
  show "\<exists>u. s = u @ s'' \<and> k + j \<le> length u" using u w by (intro exI [of _ "u @ w"]) simp
qed

lemma takes_first: "takes k r \<Longrightarrow> (\<And>x. takes 0 (f x)) \<Longrightarrow> takes k (and_then r f)"
  using takes_and_then [of k r 0 f] by simp

lemma takes_u8 [invariant_intros]: "takes 1 read_u8"
  unfolding takes_def read_u8_def by (auto split: list.splits)

lemma takes_words [invariant_intros]:
  "takes 2 read_u16_le" "takes 4 read_u32_le" "takes 8 read_u64_le" "takes 4 read_f32_le" "takes 8 read_f64_le"
  unfolding read_u16_le_def read_u32_le_def read_u64_le_def read_f32_le_def read_f64_le_def
  by (intro takes_first invariant_intros)+

lemma takes_string [invariant_intros]: "takes 8 read_string"
  unfolding read_string_def Let_def
  by (intro takes_first takes_words) (auto intro: takes_fail takes_less [OF takes_first [OF takes_exact takes_give]])

lemma takes_many:
  assumes "takes 0 r"
  shows "takes 0 (read_many r n)"
proof -
  have "\<exists>u. s = u @ s'" if "read_many r n s = Inr (xs, s')" for s xs s'
    using that
  proof (induction n arbitrary: s xs)
    case (Suc n)
    then obtain x s1 ys where r: "r s = Inr (x, s1)" and rec: "read_many r n s1 = Inr (ys, s')"
      by (auto simp: rbind_Inr_iff)
    from takesD [OF assms r] obtain u where "s = u @ s1" by blast
    with Suc.IH [OF rec] show ?case by auto
  qed simp
  then show ?thesis by (auto simp: takes_def)
qed

lemma takes_scalar: "takes k r \<Longrightarrow> 1 \<le> k \<Longrightarrow> takes 1 (and_then r (\<lambda>v. give (g v)))"
  by (rule takes_less [OF takes_first [OF _ takes_give]])

lemmas takes_scalars = takes_scalar [OF takes_u8 order_refl, unfolded One_nat_def]
  takes_words [THEN takes_scalar, simplified] takes_scalar [OF takes_string, simplified]

lemma takes_value [invariant_intros]: "takes 1 (read_value fuel t)"
proof (induction fuel arbitrary: t)
  case 0
  show ?case by (cases t) (simp_all add: takes_scalars, simp_all add: takes_def)
next
  case (Suc fuel)
  have elems: "takes 0 (read_value fuel t')" for t' using takes_less [OF Suc] by simp
  have body: "takes 0 (and_then read_u64_le (\<lambda>w.
     if max_array_len < unat w then
       fail_with (invalid_argument (''GGUF metadata array too long: '' @ nat_to_string (unat w)))
     else and_then (read_many (read_value fuel (value_type_of et)) (unat w)) (\<lambda>vs. give (MArray vs))))" for et
    by (rule takes_first [OF takes_less [OF takes_words(3)]]) (simp_all add: takes_fail takes_first [OF takes_many [OF elems] takes_give])
  have "read_value (Suc fuel) VT_ARRAY = and_then read_u32_le (\<lambda>et. and_then read_u64_le (\<lambda>w.
     if max_array_len < unat w then
       fail_with (invalid_argument (''GGUF metadata array too long: '' @ nat_to_string (unat w)))
     else and_then (read_many (read_value fuel (value_type_of et)) (unat w)) (\<lambda>vs. give (MArray vs))))"
    by (rule ext) simp
  then have "takes (Suc 0) (read_value (Suc fuel) VT_ARRAY)"
    using takes_less [OF takes_first [OF takes_words(2) body], of "Suc 0"] by simp
  then show ?case by (cases t) (simp_all add: takes_scalars, simp_all add: takes_def)
qed

section \<open>The fuel\<close>

lemma read_many_cong:
  assumes "\<And>s'. length s' \<le> length s \<Longrightarrow> r1 s' = r2 s'" and "takes 0 r1"
  shows "read_many r1 n s = read_many r2 n s"
  using assms(1)
proof (induction n arbitrary: s)
  case (Suc n)
  have eq: "r2 s = r1 s" using Suc.prems [of s] by simp
  have "read_many r1 n s' = read_many r2 n s'" if "r1 s = Inr (x, s')" for x s'
    using takes_shorter [OF assms(2) that] by (intro Suc.IH Suc.prems) simp
  then show ?case by (cases "r1 s") (auto simp: eq)
qed simp

lemma and_then_cong:
  assumes "\<And>x s'. r s = Inr (x, s') \<Longrightarrow> f x s' = g x s'"
  shows "and_then r f s = and_then r g s"
  using assms by (cases "r s") (auto simp: and_then_def)

lemma fuel_irrelevant: "length s < f1 \<Longrightarrow> length s < f2 \<Longrightarrow> read_value f1 t s = read_value f2 t s"
proof (induction f1 arbitrary: f2 t s)
  case (Suc f1)
  then obtain f where f2: "f2 = Suc f" by (cases f2) auto
  have "read_value (Suc f1) VT_ARRAY s = read_value (Suc f) VT_ARRAY s"
    unfolding read_value.simps
  proof (rule and_then_cong, rule and_then_cong)
    fix et s1 w s2 assume r: "read_u32_le s = Inr (et, s1)" "read_u64_le s1 = Inr (w, s2)"
    have short: "length s2 < length s"
      using takes_shorter [OF takes_words(2) r(1)] takes_shorter [OF takes_words(3) r(2)] by simp
    have "read_many (read_value f1 (value_type_of et)) (unat w) s2 = read_many (read_value f (value_type_of et)) (unat w) s2"
      using short Suc.prems f2 by (intro read_many_cong Suc.IH takes_less [OF takes_value]) auto
    then have "and_then (read_many (read_value f1 (value_type_of et)) (unat w)) (\<lambda>vs. give (MArray vs)) s2
        = and_then (read_many (read_value f (value_type_of et)) (unat w)) (\<lambda>vs. give (MArray vs)) s2"
      by (simp add: and_then_def)
    then show "(if max_array_len < unat w then
          fail_with (invalid_argument (''GGUF metadata array too long: '' @ nat_to_string (unat w)))
        else and_then (read_many (read_value f1 (value_type_of et)) (unat w)) (\<lambda>vs. give (MArray vs))) s2
      = (if max_array_len < unat w then
          fail_with (invalid_argument (''GGUF metadata array too long: '' @ nat_to_string (unat w)))
        else and_then (read_many (read_value f (value_type_of et)) (unat w)) (\<lambda>vs. give (MArray vs))) s2"
      by simp
  qed
  then show ?case by (cases t) (simp_all add: f2)
qed simp

text \<open>The recursion of the code, without fuel.\<close>

lemma read_metadata_array:
  "read_metadata_value VT_ARRAY s = and_then read_u32_le (\<lambda>et. and_then read_u64_le (\<lambda>w.
     if max_array_len < unat w then
       fail_with (invalid_argument (''GGUF metadata array too long: '' @ nat_to_string (unat w)))
     else and_then (read_many (read_metadata_value (value_type_of et)) (unat w)) (\<lambda>vs. give (MArray vs)))) s"
  unfolding read_metadata_value_def read_value.simps
proof (rule and_then_cong, rule and_then_cong)
  fix et s1 w s2 assume r: "read_u32_le s = Inr (et, s1)" "read_u64_le s1 = Inr (w, s2)"
  have short: "length s2 < length s"
    using takes_shorter [OF takes_words(2) r(1)] takes_shorter [OF takes_words(3) r(2)] by simp
  have "read_many (read_value (length s) (value_type_of et)) (unat w) s2
      = read_many (\<lambda>s. read_value (Suc (length s)) (value_type_of et) s) (unat w) s2"
    using short by (intro read_many_cong fuel_irrelevant takes_less [OF takes_value]) auto
  then show "(if max_array_len < unat w then
        fail_with (invalid_argument (''GGUF metadata array too long: '' @ nat_to_string (unat w)))
      else and_then (read_many (read_value (length s) (value_type_of et)) (unat w)) (\<lambda>vs. give (MArray vs))) s2
    = (if max_array_len < unat w then
        fail_with (invalid_argument (''GGUF metadata array too long: '' @ nat_to_string (unat w)))
      else and_then (read_many (\<lambda>s. read_value (Suc (length s)) (value_type_of et) s) (unat w)) (\<lambda>vs. give (MArray vs))) s2"
    by (simp add: and_then_def)
qed

lemma takes_metadata_value [invariant_intros]: "takes 1 (read_metadata_value t)"
  using takes_value unfolding takes_def read_metadata_value_def by blast

section \<open>Failures\<close>

text \<open>A reader that fails reports a \<open>Status\<close>.\<close>

definition reports :: "'a reader \<Rightarrow> octet list \<Rightarrow> bool" where
  "reports r s \<longleftrightarrow> (\<forall>e. r s = Inl e \<longrightarrow> is_status e)"

lemma reports_and_then:
  "reports r s \<Longrightarrow> (\<And>x s'. r s = Inr (x, s') \<Longrightarrow> reports (f x) s') \<Longrightarrow> reports (and_then r f) s"
  by (cases "r s") (auto simp: reports_def and_then_def)

lemma reports_simps [simp]: "reports (give x) s" "is_status e \<Longrightarrow> reports (fail_with e) s" "is_status e \<Longrightarrow> reports (read_exact n e) s"
  by (simp_all add: reports_def give_def fail_with_def read_exact_def)

lemma reports_words [simp]: "reports read_u8 s" "reports read_u16_le s" "reports read_u32_le s" "reports read_u64_le s"
  "reports read_f32_le s" "reports read_f64_le s" "reports read_string s"
  unfolding read_u16_le_def read_u32_le_def read_u64_le_def read_f32_le_def read_f64_le_def read_string_def
  by (auto intro!: reports_and_then simp: Let_def) (simp add: reports_def read_u8_def split: list.splits)

lemma reports_scalar: "reports r s \<Longrightarrow> reports (and_then r (\<lambda>v. give (g v))) s"
  by (auto intro: reports_and_then)

lemma reports_many:
  assumes "\<And>s'. length s' \<le> length s \<Longrightarrow> reports r s'" and "takes 0 r"
  shows "reports (read_many r n) s"
  using assms(1)
proof (induction n arbitrary: s)
  case (Suc n)
  have "reports (read_many r n) s'" if "r s = Inr (x, s')" for x s'
    using takes_shorter [OF assms(2) that] by (intro Suc.IH Suc.prems) simp
  then show ?case using Suc.prems [of s] by (auto simp: reports_def rbind_Inl_iff)
qed (simp add: reports_def)

lemma read_value_scalar:
  "read_value fuel VT_UINT8 = and_then read_u8 (\<lambda>v. give (MUInt8 v))"
  "read_value fuel VT_INT8 = and_then read_u8 (\<lambda>v. give (MInt8 v))"
  "read_value fuel VT_UINT16 = and_then read_u16_le (\<lambda>v. give (MUInt16 v))"
  "read_value fuel VT_INT16 = and_then read_u16_le (\<lambda>v. give (MInt16 v))"
  "read_value fuel VT_UINT32 = and_then read_u32_le (\<lambda>v. give (MUInt32 v))"
  "read_value fuel VT_INT32 = and_then read_u32_le (\<lambda>v. give (MInt32 v))"
  "read_value fuel VT_UINT64 = and_then read_u64_le (\<lambda>v. give (MUInt64 v))"
  "read_value fuel VT_INT64 = and_then read_u64_le (\<lambda>v. give (MInt64 v))"
  "read_value fuel VT_FLOAT32 = and_then read_f32_le (\<lambda>v. give (MFloat32 v))"
  "read_value fuel VT_FLOAT64 = and_then read_f64_le (\<lambda>v. give (MFloat64 v))"
  "read_value fuel VT_STRING = and_then read_string (\<lambda>v. give (MString v))"
  "read_value fuel VT_BOOL = and_then read_u8 (\<lambda>v. give (MBool (v \<noteq> 0)))"
  "read_value fuel (VT_Other w) = fail_with (unsupported (''unsupported GGUF metadata type: '' @ nat_to_string (unat w)))"
  by (simp_all add: fun_eq_iff fail_with_def)

lemma read_value_reports: "length s < fuel \<Longrightarrow> reports (read_value fuel t) s"
proof (induction fuel arbitrary: t s)
  case (Suc fuel)
  have "reports (read_value (Suc fuel) VT_ARRAY) s"
    unfolding reports_def read_value.simps
    unfolding reports_def [symmetric, of "and_then _ _" s]
  proof (intro reports_and_then reports_words)
    fix et s1 w s2 assume r: "read_u32_le s = Inr (et, s1)" "read_u64_le s1 = Inr (w, s2)"
    have "length s2 < length s"
      using takes_shorter [OF takes_words(2) r(1)] takes_shorter [OF takes_words(3) r(2)] by simp
    then have "reports (read_many (read_value fuel (value_type_of et)) (unat w)) s2"
      using Suc.prems by (intro reports_many Suc.IH takes_less [OF takes_value]) auto
    then show "reports (if max_array_len < unat w then
          fail_with (invalid_argument (''GGUF metadata array too long: '' @ nat_to_string (unat w)))
        else and_then (read_many (read_value fuel (value_type_of et)) (unat w)) (\<lambda>vs. give (MArray vs))) s2"
      by (auto intro!: reports_and_then)
  qed
  moreover have "reports (read_value (Suc fuel) t) s" if "t \<noteq> VT_ARRAY"
    using that by (cases t) (simp_all add: read_value_scalar reports_scalar)
  ultimately show ?case by blast
qed simp

text \<open>C34. Reading a metadata value ends on every stream, whatever types and nested arrays the bytes announce: the depth that
  the model allows is never used up, so the reader satisfies the recursion of the code. A failure is a
  \<open>Status\<close>, and a value takes at least one byte. Stack and memory are taken to suffice for the depth of the arrays.\<close>

theorem metadata_reader_terminates:
  "(case read_metadata_value t s of Inl e \<Rightarrow> is_status e | Inr (v, s') \<Rightarrow> \<exists>u. s = u @ s' \<and> u \<noteq> [])
   \<and> read_metadata_value VT_ARRAY s = and_then read_u32_le (\<lambda>et. and_then read_u64_le (\<lambda>w.
       if max_array_len < unat w then
         fail_with (invalid_argument (''GGUF metadata array too long: '' @ nat_to_string (unat w)))
       else and_then (read_many (read_metadata_value (value_type_of et)) (unat w)) (\<lambda>vs. give (MArray vs)))) s"
proof (rule conjI [OF _ read_metadata_array])
  show "case read_metadata_value t s of Inl e \<Rightarrow> is_status e | Inr (v, s') \<Rightarrow> \<exists>u. s = u @ s' \<and> u \<noteq> []"
  proof (cases "read_metadata_value t s")
    case (Inl e)
    then show ?thesis using read_value_reports [of s "Suc (length s)" t] by (simp add: reports_def read_metadata_value_def)
  next
    case (Inr r)
    then obtain v s' where r: "r = (v, s')" "read_metadata_value t s = Inr (v, s')" by (cases r) auto
    from takesD [OF takes_metadata_value r(2)] obtain u where "s = u @ s'" "1 \<le> length u" .
    then show ?thesis using r by auto
  qed
qed

end
