(* ===== verification/Gguf_Roundtrip.thy ===== *)
theory Gguf_Roundtrip
  imports Gguf_Termination
begin

text \<open>
  The parser against the format: an encoder of GGUF files, written from the layout the readers expect, and the
  proof that parsing what it writes gives back what was written. Encodings that a reader inverts form
  an interface; sequences of them and their unique readability come from it.
\<close>

section \<open>Encodings and their readers\<close>

locale codec =
  fixes ok :: "'a \<Rightarrow> bool" and enc :: "'a \<Rightarrow> octet list" and dec :: "'a reader"
  assumes dec_enc: "ok x \<Longrightarrow> dec (enc x @ s) = Inr (x, s)"
begin

lemma dec_many: "\<forall>x \<in> set xs. ok x \<Longrightarrow> read_many dec (length xs) (concat (map enc xs) @ s) = Inr (xs, s)"
  by (induction xs) (simp_all add: dec_enc)

lemma unique_reading:
  assumes "ok x" and "ok y" and "enc x @ s = enc y @ t"
  shows "x = y \<and> s = t"
proof -
  have "Inr (x, s) = dec (enc y @ t)" unfolding assms(3) [symmetric] dec_enc [OF assms(1)] ..
  then show ?thesis unfolding dec_enc [OF assms(2)] by simp
qed

lemma then_dec: "ok x \<Longrightarrow> and_then dec f (enc x @ s) = f x s"
  by (simp add: and_then_def dec_enc)

end

section \<open>Words\<close>

definition put_u16 :: "16 word \<Rightarrow> octet list" where
  "put_u16 w = map (\<lambda>i. ucast (drop_bit (8 * i) w)) [0..<2]"

definition put_u32 :: "32 word \<Rightarrow> octet list" where
  "put_u32 w = map (\<lambda>i. ucast (drop_bit (8 * i) w)) [0..<4]"

definition put_u64 :: "64 word \<Rightarrow> octet list" where
  "put_u64 w = map (\<lambda>i. ucast (drop_bit (8 * i) w)) [0..<8]"

lemma upt_bytes: "[0..<2] = [0, 1 :: nat]" "[0..<4] = [0, 1, 2, 3 :: nat]" "[0..<8] = [0, 1, 2, 3, 4, 5, 6, 7 :: nat]"
  by (simp_all add: upt_rec)

text \<open>One more byte of a word.\<close>

lemma next_byte: "take_bit n w OR push_bit n (take_bit 8 (drop_bit n w)) = take_bit (n + 8) (w :: 'a::len word)"
proof (rule bit_word_eqI)
  fix i assume i: "i < LENGTH('a)"
  show "bit (take_bit n w OR push_bit n (take_bit 8 (drop_bit n w))) i = bit (take_bit (n + 8) w) i"
  proof (cases "i < n")
    case False
    then have "n + (i - n) = i" "i - n < 8 \<longleftrightarrow> i < n + 8" by linarith+
    with False i show ?thesis by (auto simp: bit_simps)
  qed (auto simp: bit_simps i)
qed

lemma first_byte: "ucast (ucast w :: octet) = take_bit 8 (w :: 'a::len word)"
  by (rule bit_word_eqI) (auto simp: bit_simps)

lemma take_all_bits: "LENGTH('a) \<le> n \<Longrightarrow> take_bit n w = (w :: 'a::len word)"
  by (rule bit_word_eqI) (simp add: bit_simps)

interpretation u16: codec "\<lambda>_. True" put_u16 read_u16_le
  by unfold_locales (simp add: read_u16_le_def and_then_def read_exact_def give_def put_u16_def upt_bytes first_byte
      next_byte [of 8, simplified] take_all_bits)

interpretation u32: codec "\<lambda>_. True" put_u32 read_u32_le
  by unfold_locales (simp add: read_u32_le_def and_then_def read_exact_def give_def put_u32_def upt_bytes first_byte
      or.assoc [symmetric] next_byte [of 8, simplified] next_byte [of 16, simplified] next_byte [of 24, simplified] take_all_bits)

interpretation u64: codec "\<lambda>_. True" put_u64 read_u64_le
  by unfold_locales (simp add: read_u64_le_def and_then_def read_exact_def give_def put_u64_def upt_bytes first_byte
      next_byte [of 8, simplified] next_byte [of 16, simplified] next_byte [of 24, simplified] next_byte [of 32, simplified]
      next_byte [of 40, simplified] next_byte [of 48, simplified] next_byte [of 56, simplified] take_all_bits)

section \<open>Strings and values\<close>

definition put_text :: "string \<Rightarrow> octet list" where
  "put_text t = map (\<lambda>c. of_nat (of_char c)) t"

lemma text_of_put [simp]: "text_of (put_text t) = t"
  by (auto simp: text_of_def put_text_def unat_of_nat intro!: map_idI)

definition put_string :: "string \<Rightarrow> octet list" where
  "put_string t = put_u64 (of_nat (length t)) @ put_text t"

definition string_ok :: "string \<Rightarrow> bool" where
  "string_ok t \<longleftrightarrow> length t \<le> max_string_len"

interpretation str: codec string_ok put_string read_string
proof unfold_locales
  fix t s assume "string_ok t"
  then have len: "unat (of_nat (length t) :: 64 word) = length t" "length t \<le> max_string_len"
    by (simp_all add: string_ok_def max_string_len_def unat_of_nat)
  have "read_exact (length t) e (put_text t @ s) = Inr (put_text t, s)" for e
    by (simp add: read_exact_def put_text_def)
  then have "and_then (read_exact (length t) e) (\<lambda>b. give (text_of b)) (put_text t @ s) = Inr (t, s)" for e
    by (simp add: and_then_def give_def)
  moreover have "read_string (put_string t @ s)
      = and_then (read_exact (length t) (io_error ''failed to read string'')) (\<lambda>b. give (text_of b)) (put_text t @ s)"
    unfolding read_string_def put_string_def append_assoc u64.then_dec [OF TrueI] Let_def len(1)
    using len(2) by (simp add: max_string_len_def)
  ultimately show "read_string (put_string t @ s) = Inr (t, s)" by simp
qed

fun value_type :: "metadata_value \<Rightarrow> gguf_value_type" where
  "value_type (MUInt8 _) = VT_UINT8"
| "value_type (MInt8 _) = VT_INT8"
| "value_type (MUInt16 _) = VT_UINT16"
| "value_type (MInt16 _) = VT_INT16"
| "value_type (MUInt32 _) = VT_UINT32"
| "value_type (MInt32 _) = VT_INT32"
| "value_type (MUInt64 _) = VT_UINT64"
| "value_type (MInt64 _) = VT_INT64"
| "value_type (MFloat32 _) = VT_FLOAT32"
| "value_type (MFloat64 _) = VT_FLOAT64"
| "value_type (MBool _) = VT_BOOL"
| "value_type (MString _) = VT_STRING"
| "value_type (MArray _) = VT_ARRAY"

text \<open>The element type of an array, the first one's; an empty array has any.\<close>

definition elem_type :: "metadata_value list \<Rightarrow> gguf_value_type" where
  "elem_type vs = (case vs of [] \<Rightarrow> VT_UINT8 | v # _ \<Rightarrow> value_type v)"

fun put_value :: "metadata_value \<Rightarrow> octet list" where
  "put_value (MUInt8 b) = [b]"
| "put_value (MInt8 b) = [b]"
| "put_value (MUInt16 w) = put_u16 w"
| "put_value (MInt16 w) = put_u16 w"
| "put_value (MUInt32 w) = put_u32 w"
| "put_value (MInt32 w) = put_u32 w"
| "put_value (MUInt64 w) = put_u64 w"
| "put_value (MInt64 w) = put_u64 w"
| "put_value (MFloat32 w) = put_u32 w"
| "put_value (MFloat64 w) = put_u64 w"
| "put_value (MBool b) = [if b then 1 else 0]"
| "put_value (MString t) = put_string t"
| "put_value (MArray vs) = put_u32 (value_type_tag (elem_type vs)) @ put_u64 (of_nat (length vs)) @ concat (map put_value vs)"

text \<open>What a file can hold: short strings, short arrays of one type.\<close>

fun value_ok :: "metadata_value \<Rightarrow> bool" where
  "value_ok (MString t) = string_ok t"
| "value_ok (MArray vs) = (length vs \<le> max_array_len \<and> list_all (\<lambda>v. value_ok v \<and> value_type v = elem_type vs) vs)"
| "value_ok _ = True"

lemma value_type_known [simp]: "value_type_of (value_type_tag (value_type v)) = value_type v"
  by (cases v) (simp_all add: value_type_of_def)

lemma elem_type_known [simp]: "value_type_of (value_type_tag (elem_type vs)) = elem_type vs"
proof (cases vs)
  case Nil
  then show ?thesis by (simp add: elem_type_def value_type_of_def)
qed (simp add: elem_type_def)

lemma read_metadata_scalar:
  "t \<noteq> VT_ARRAY \<Longrightarrow> read_metadata_value t s = read_value 0 t s"
  by (cases t) (simp_all add: read_metadata_value_def)

lemma read_put_value: "value_ok v \<Longrightarrow> read_metadata_value (value_type v) (put_value v @ s) = Inr (v, s)"
proof (induction v arbitrary: s)
  case (MArray vs)
  have len: "unat (of_nat (length vs) :: 64 word) = length vs" "length vs \<le> max_array_len"
    using MArray.prems by (simp_all add: max_array_len_def unat_of_nat)
  have "codec (\<lambda>v. v \<in> set vs) put_value (read_metadata_value (elem_type vs))"
    using MArray by unfold_locales (auto simp: list_all_iff)
  from codec.dec_many [OF this, of vs s] show ?case
    using len(2) by (simp add: read_metadata_array u32.then_dec u64.then_dec len(1) and_then_def [of "read_many _ _"] give_def)
qed (simp_all add: read_metadata_scalar u16.then_dec u32.then_dec u64.then_dec str.then_dec give_def
    read_f32_le_def read_f64_le_def, simp_all add: and_then_def read_u8_def give_def)

section \<open>Files\<close>

definition put_kv :: "string \<times> metadata_value \<Rightarrow> octet list" where
  "put_kv kv = put_string (fst kv) @ put_u32 (value_type_tag (value_type (snd kv))) @ put_value (snd kv)"

definition kv_ok :: "string \<times> metadata_value \<Rightarrow> bool" where
  "kv_ok kv \<longleftrightarrow> string_ok (fst kv) \<and> value_ok (snd kv)"

lemma emplace_map_of: "map_of kvs ++ emplace k v m = map_of ((k, v) # kvs) ++ m"
  by (auto simp: emplace_def map_add_def fun_eq_iff split: option.splits)

lemma parse_put_metadata:
  "\<forall>kv \<in> set kvs. kv_ok kv \<Longrightarrow> parse_metadata (length kvs) m (concat (map put_kv kvs) @ s) = Inr (map_of kvs ++ m, s)"
proof (induction kvs arbitrary: m)
  case (Cons kv kvs)
  obtain k v where kv: "kv = (k, v)" by fastforce
  with Cons.prems have ok: "string_ok k" "value_ok v" by (simp_all add: kv_ok_def)
  have "parse_metadata (length (kv # kvs)) m (concat (map put_kv (kv # kvs)) @ s)
      = parse_metadata (length kvs) (emplace k v m) (concat (map put_kv kvs) @ s)"
    by (simp add: kv put_kv_def str.then_dec [OF ok(1)] u32.then_dec)
      (simp add: and_then_def read_put_value [OF ok(2)])
  also have "\<dots> = Inr (map_of (kv # kvs) ++ m, s)" using Cons by (simp add: kv emplace_map_of)
  finally show ?case .
qed simp

definition put_dim :: "int \<Rightarrow> octet list" where
  "put_dim d = put_u64 (of_int d)"

definition dim_ok :: "int \<Rightarrow> bool" where
  "dim_ok d \<longleftrightarrow> 0 < d \<and> d < 2 ^ 63"

definition put_info :: "tensor_info \<Rightarrow> octet list" where
  "put_info ti = put_string (ti_name ti) @ put_u32 (of_nat (length (ti_dimensions ti)))
     @ concat (map put_dim (rev (ti_dimensions ti))) @ put_u32 (ggml_type_tag (ti_dtype ti)) @ put_u64 (of_nat (ti_offset ti))"

definition info_ok :: "tensor_info \<Rightarrow> bool" where
  "info_ok ti \<longleftrightarrow> string_ok (ti_name ti) \<and> 0 < length (ti_dimensions ti) \<and> length (ti_dimensions ti) \<le> max_tensor_dims
     \<and> list_all dim_ok (ti_dimensions ti) \<and> ggml_type_of (ggml_type_tag (ti_dtype ti)) = ti_dtype ti \<and> ti_offset ti < 2 ^ 64"

lemma dim_word: "dim_ok d \<Longrightarrow> unat (of_int d :: 64 word) = nat d" "dim_ok d \<Longrightarrow> (of_int d :: 64 word) \<noteq> 0"
proof -
  assume d: "dim_ok d"
  then have "uint (of_int d :: 64 word) = d" by (simp add: uint_word_of_int dim_ok_def)
  then show "unat (of_int d :: 64 word) = nat d" "(of_int d :: 64 word) \<noteq> 0"
    using d by (auto simp: unat_eq_nat_uint dim_ok_def)
qed

lemma read_put_dims:
  assumes "list_all dim_ok xs" and "d + length xs = nd" and "length ds = nd"
  shows "read_dims (length xs) nd d ds (concat (map put_dim xs) @ s) = Inr (rev xs @ drop (length xs) ds, s)"
  using assms
proof (induction xs arbitrary: d ds)
  case (Cons x xs)
  then have x: "dim_ok x" and idx: "nd - d - 1 = length xs" by auto
  have small: "\<not> 2 ^ 63 - 1 < nat x" "0 < x" using x by (auto simp: dim_ok_def)
  have "read_dims (length (x # xs)) nd d ds (concat (map put_dim (x # xs)) @ s)
      = read_dims (length xs) nd (Suc d) (ds[length xs := x]) (concat (map put_dim xs) @ s)"
    using small idx by (simp add: put_dim_def u64.then_dec dim_word [OF x])
  also have "\<dots> = Inr (rev xs @ drop (length xs) (ds[length xs := x]), s)" using Cons by simp
  also have "drop (length xs) (ds[length xs := x]) = x # drop (Suc (length xs)) ds"
    using Cons.prems by (simp add: drop_update_swap Cons_nth_drop_Suc [symmetric])
  finally show ?case by simp
qed simp

interpretation info: codec info_ok put_info parse_tensor_info
proof unfold_locales
  fix ti s assume ok: "info_ok ti"
  let ?n = "length (ti_dimensions ti)"
  have n: "unat (of_nat ?n :: 32 word) = ?n" "?n \<noteq> 0" "?n \<le> max_tensor_dims"
    using ok by (auto simp: info_ok_def unat_of_nat max_tensor_dims_def)
  have off: "unat (of_nat (ti_offset ti) :: 64 word) = ti_offset ti" using ok by (simp add: info_ok_def unat_of_nat)
  have dims: "read_dims ?n ?n 0 (replicate ?n 0) (concat (map put_dim (rev (ti_dimensions ti))) @ t) = Inr (ti_dimensions ti, t)" for t
    using read_put_dims [of "rev (ti_dimensions ti)" 0 ?n "replicate ?n 0" t] ok by (simp add: info_ok_def)
  have dims': "and_then (read_dims ?n ?n 0 (replicate ?n 0)) f (concat (map put_dim (rev (ti_dimensions ti))) @ t)
      = f (ti_dimensions ti) t" for f :: "int list \<Rightarrow> tensor_info reader" and t
    unfolding and_then_def dims by simp
  have "string_ok (ti_name ti)" "ggml_type_of (ggml_type_tag (ti_dtype ti)) = ti_dtype ti" using ok by (simp_all add: info_ok_def)
  note ok' = this
  have type_last: "and_then read_u32_le (\<lambda>t. and_then read_u64_le (\<lambda>off. give \<lparr>ti_name = ti_name ti, ti_dtype = ggml_type_of t,
        ti_dimensions = ti_dimensions ti, ti_offset = unat off\<rparr>)) (put_u32 (ggml_type_tag (ti_dtype ti)) @ put_u64 (of_nat (ti_offset ti)) @ s)
      = Inr (ti, s)"
    unfolding u32.then_dec [OF TrueI] u64.then_dec [OF TrueI] off ok'(2) by (simp add: give_def)
  show "parse_tensor_info (put_info ti @ s) = Inr (ti, s)"
    unfolding parse_tensor_info_def put_info_def append_assoc str.then_dec [OF ok'(1)] u32.then_dec [OF TrueI] Let_def n(1)
    using n(2,3) dims' type_last by simp
qed

definition put_gguf :: "(string \<times> metadata_value) list \<Rightarrow> tensor_info list \<Rightarrow> octet list" where
  "put_gguf kvs infos = gguf_magic @ put_u32 3 @ put_u64 (of_nat (length infos)) @ put_u64 (of_nat (length kvs))
     @ concat (map put_kv kvs) @ concat (map put_info infos)"

end
