(* ===== verification/Gguf_Properties.thy ===== *)
theory Gguf_Properties
  imports Gguf_Roundtrip
begin

text \<open>
  The properties of the GGUF reader: parsing a file gives back what was written, tensor data is found exactly
  when it lies in the file, mapping and streaming agree, and the sizes are exact up to the wrap-around of
  the block count.
\<close>

section \<open>Parsing an encoded file\<close>

lemma put_u32_3: "unat (3 :: 32 word) = gguf_version"
  by (simp add: gguf_version_def)

lemma gguf_parse_put:
  assumes kvs: "\<forall>kv \<in> set kvs. kv_ok kv" and infos: "\<forall>ti \<in> set infos. info_ok ti"
    and small: "length infos \<le> max_tensor_count" "length kvs < 2 ^ 64"
    and content: "fs fn = Some (put_gguf kvs infos @ data)"
  shows "gguf_parse fs mmap fn = rbind (data_start (file_alignment (map_of kvs)) (length (put_gguf kvs infos))) (\<lambda>off.
     Inr \<lparr>gf_version = 3, gf_tensor_count = length infos, gf_metadata_kv_count = length kvs, gf_data_offset = off,
          gf_source_path = fn, gf_memory_view = mmap fn, gf_metadata = map_of kvs, gf_tensor_infos = infos\<rparr>)"
proof -
  have counts: "unat (of_nat (length infos) :: 64 word) = length infos" "unat (of_nat (length kvs) :: 64 word) = length kvs"
    using small by (simp_all add: unat_of_nat max_tensor_count_def)
  have magic: "take 4 (gguf_magic @ t) = gguf_magic" "drop 4 (gguf_magic @ t) = t" "\<not> length (gguf_magic @ t) < 4" for t
    by (simp_all add: gguf_magic_def)
  have infos': "parse_tensor_infos (length infos) (concat (map put_info infos) @ data) = Inr (infos, data)"
    using info.dec_many [OF infos] small(1) by (simp add: parse_tensor_infos_def)
  have meta: "parse_metadata (length kvs) Map.empty (concat (map put_kv kvs) @ concat (map put_info infos) @ data)
      = Inr (map_of kvs, concat (map put_info infos) @ data)"
    using parse_put_metadata [OF kvs, of Map.empty] by simp
  let ?tail = "and_then (parse_metadata (length kvs) Map.empty) (\<lambda>m. and_then (parse_tensor_infos (length infos)) (\<lambda>i.
      give (3 :: 32 word, of_nat (length infos) :: 64 word, of_nat (length kvs) :: 64 word, m, i)))"
  have tail: "?tail (concat (map put_kv kvs) @ concat (map put_info infos) @ data)
      = Inr ((3, of_nat (length infos), of_nat (length kvs), map_of kvs, infos), data)"
    unfolding and_then_def meta rbind_simps prod.case infos' by (simp add: give_def)
  have body: "and_then read_u32_le (\<lambda>v.
      if unat v \<noteq> gguf_version then
        fail_with (unsupported (''unsupported GGUF version '' @ nat_to_string (unat v) @ '' (only v3 is supported)''))
      else and_then read_u64_le (\<lambda>tc. and_then read_u64_le (\<lambda>mc.
        and_then (parse_metadata (unat mc) Map.empty) (\<lambda>m. and_then (parse_tensor_infos (unat tc)) (\<lambda>infos.
          give (v, tc, mc, m, infos))))))
      (put_u32 3 @ put_u64 (of_nat (length infos)) @ put_u64 (of_nat (length kvs)) @ concat (map put_kv kvs)
         @ concat (map put_info infos) @ data)
      = Inr ((3, of_nat (length infos), of_nat (length kvs), map_of kvs, infos), data)"
    unfolding u32.then_dec [OF TrueI] put_u32_3 by (simp only: u64.then_dec counts tail simp_thms if_False)
  have len: "length (put_gguf kvs infos @ data) - length data = length (put_gguf kvs infos)" by simp
  show ?thesis
    unfolding gguf_parse_def content option.case len [symmetric]
    unfolding put_gguf_def append_assoc
    by (simp only: magic simp_thms if_False body rbind_simps prod.case put_u32_3 counts) (simp add: gguf_version_def)
qed

lemma data_start_spec:
  assumes "0 < a" and "raw + a \<le> 2 ^ 64"
  shows "\<exists>off. data_start a raw = Inr off \<and> a dvd off \<and> raw \<le> off \<and> off < raw + a"
proof -
  let ?off = "raw + (a - raw mod a) mod a"
  have lt: "(a - raw mod a) mod a < a" using assms(1) by simp
  have "a dvd ?off"
  proof (cases "raw mod a = 0")
    case False
    have r: "raw mod a < a" using assms(1) by simp
    with False have "(a - raw mod a) mod a = a - raw mod a" by simp
    moreover have "raw = a * (raw div a) + raw mod a" by simp
    ultimately have "?off = a * (raw div a) + a" using r by linarith
    then show ?thesis by simp
  qed auto
  moreover have "data_start a raw = Inr ?off" using assms lt by (simp add: data_start_def)
  ultimately show ?thesis using lt by (intro exI [of _ ?off]) auto
qed

lemma file_alignment_bound: "file_alignment m < 2 ^ 32"
proof -
  have "unat w < 2 ^ 32" for w :: "32 word" using unsigned_less [of w, where 'a = nat] by simp
  then show ?thesis by (auto simp: file_alignment_def gguf_default_alignment_def split: option.splits metadata_value.splits)
qed

text \<open>C4. Parsing inverts writing: for every list of metadata and tensors that the format can hold, the parser finds in the
  encoded file exactly these, whatever data follows; of a repeated key the first value counts. The data region
  starts at the first multiple of the file's alignment behind the header.\<close>

theorem gguf_roundtrip:
  assumes "\<forall>kv \<in> set kvs. kv_ok kv" and "\<forall>ti \<in> set infos. info_ok ti"
    and "length infos \<le> max_tensor_count" and "length kvs < 2 ^ 64"
    and "fs fn = Some (put_gguf kvs infos @ data)" and "length (put_gguf kvs infos) < 2 ^ 63"
    and "0 < file_alignment (map_of kvs)"
  shows "\<exists>f. gguf_parse fs mmap fn = Inr f \<and> gf_metadata f = map_of kvs \<and> gf_tensor_infos f = infos
    \<and> gf_version f = 3 \<and> gf_tensor_count f = length infos \<and> gf_metadata_kv_count f = length kvs
    \<and> gf_memory_view f = mmap fn \<and> file_alignment (map_of kvs) dvd gf_data_offset f
    \<and> length (put_gguf kvs infos) \<le> gf_data_offset f
    \<and> gf_data_offset f < length (put_gguf kvs infos) + file_alignment (map_of kvs)"
proof -
  have "length (put_gguf kvs infos) + file_alignment (map_of kvs) \<le> 2 ^ 64"
    using assms(6) file_alignment_bound [of "map_of kvs"] by simp
  from data_start_spec [OF assms(7) this] show ?thesis
    unfolding gguf_parse_put [where fs = fs, OF assms(1-5)] by auto
qed

definition demo_meta :: "(string \<times> metadata_value) list" where
  "demo_meta = [(''a'', MArray [MUInt8 1, MUInt8 2]), (''a'', MBool True)]"

definition demo_info :: tensor_info where
  "demo_info = \<lparr>ti_name = ''w'', ti_dtype = GT_Q8_0, ti_dimensions = [2, 32], ti_offset = 0\<rparr>"

lemma demo_file_ok: "\<forall>kv \<in> set demo_meta. kv_ok kv" "\<forall>ti \<in> set [demo_info]. info_ok ti"
  by (simp_all add: demo_meta_def demo_info_def kv_ok_def info_ok_def string_ok_def max_string_len_def max_array_len_def elem_type_def
      max_tensor_dims_def dim_ok_def ggml_type_of_def)

lemma demo_lengths: "length (put_gguf demo_meta [demo_info]) = 106" "file_alignment (map_of demo_meta) = 32"
  by (simp_all add: put_gguf_def demo_meta_def demo_info_def gguf_magic_def put_u32_def put_u64_def put_kv_def put_string_def
      put_text_def put_info_def put_dim_def elem_type_def file_alignment_def gguf_default_alignment_def)

theorem gguf_roundtrip_witness:
  "\<exists>f. gguf_parse (\<lambda>_. Some (put_gguf demo_meta [demo_info] @ replicate 77 0)) (\<lambda>_. None) ''m.gguf'' = Inr f
     \<and> gf_metadata f ''a'' = Some (MArray [MUInt8 1, MUInt8 2]) \<and> gf_tensor_infos f = [demo_info] \<and> gf_data_offset f = 128"
proof -
  have small: "length [demo_info] \<le> max_tensor_count" "length demo_meta < 2 ^ 64"
    "length (put_gguf demo_meta [demo_info]) < 2 ^ 63" "0 < file_alignment (map_of demo_meta)"
    unfolding demo_lengths by (simp_all add: max_tensor_count_def demo_meta_def)
  obtain f where f: "gguf_parse (\<lambda>_. Some (put_gguf demo_meta [demo_info] @ replicate 77 0)) (\<lambda>_. None) ''m.gguf'' = Inr f"
    "gf_metadata f = map_of demo_meta" "gf_tensor_infos f = [demo_info]" "32 dvd gf_data_offset f" "106 \<le> gf_data_offset f"
    "gf_data_offset f < 106 + 32"
    using gguf_roundtrip [OF demo_file_ok small(1,2), of "\<lambda>_. Some (put_gguf demo_meta [demo_info] @ replicate 77 0)" "''m.gguf''"
        "replicate 77 0" "\<lambda>_. None", OF refl small(3,4)] unfolding demo_lengths by blast
  obtain k where "gf_data_offset f = 32 * k" using f(4) by (auto simp: dvd_def)
  then have "gf_data_offset f = 128" using f(5,6) by presburger
  with f(1-3) show ?thesis by (simp add: demo_meta_def)
qed

text \<open>A file that sets \<open>general.alignment\<close> to zero, which the format lets it do, makes the parser compute a remainder
  by zero.\<close>

theorem zero_alignment_undefined:
  "gguf_parse (\<lambda>_. Some (put_gguf [(''general.alignment'', MUInt32 0)] [])) mmap fn = Inl (UB ''division by zero'')"
proof -
  have "\<forall>kv \<in> set [(''general.alignment'', MUInt32 0)]. kv_ok kv"
    by (simp add: kv_ok_def string_ok_def max_string_len_def)
  from gguf_parse_put [OF this, of "[]" "\<lambda>_. Some (put_gguf [(''general.alignment'', MUInt32 0)] [])" fn "[]" mmap]
  show ?thesis by (simp add: data_start_def file_alignment_def)
qed

section \<open>Sizes\<close>

text \<open>The number of elements, and the blocks they need.\<close>

definition elements :: "tensor_info \<Rightarrow> nat" where
  "elements ti = prod_list (map nat (ti_dimensions ti))"

definition blocks_bytes :: "tensor_info \<Rightarrow> nat" where
  "blocks_bytes ti = (elements ti + ggml_blck_size (ti_dtype ti) - 1) div ggml_blck_size (ti_dtype ti) * ggml_dtype_size (ti_dtype ti)"

lemma num_elements_loop_exact:
  assumes "\<forall>d \<in> set ds. 0 < d \<and> d < 2 ^ 63" and "n < 2 ^ 64" and "0 < n"
  shows "(n * prod_list (map nat ds) < 2 ^ 64 \<longrightarrow> num_elements_loop nm n ds = Inr (n * prod_list (map nat ds)))
    \<and> (2 ^ 64 \<le> n * prod_list (map nat ds) \<longrightarrow> (\<exists>e. num_elements_loop nm n ds = Inl (invalid_argument e)))"
  using assms
proof (induction ds arbitrary: n)
  case (Cons d ds)
  have d: "0 < nat d" "size_of_int d = nat d" "\<not> d \<le> 0" using Cons.prems(1) by (auto simp: size_of_int_nonneg)
  have pos: "0 < prod_list (map nat ds)" using Cons.prems(1) by (induction ds) auto
  show ?case
  proof (cases "n * nat d < 2 ^ 64")
    case True
    then have "\<not> size_max div nat d < n" using mul_overflow_test [OF d(1), of n] by simp
    with Cons.IH [of "n * nat d"] Cons.prems True d show ?thesis by (simp add: mult.assoc)
  next
    case False
    then have "size_max div nat d < n" using mul_overflow_test [OF d(1), of n] by simp
    moreover have "2 ^ 64 \<le> n * (nat d * prod_list (map nat ds))"
    proof -
      have "n * nat d \<le> n * nat d * prod_list (map nat ds)" using pos by simp
      with False show ?thesis unfolding not_less mult.assoc [symmetric] by (rule order_trans)
    qed
    ultimately show ?thesis using d by auto
  qed
qed auto

lemma num_elements_exact:
  assumes "list_all dim_ok (ti_dimensions ti)"
  shows "elements ti < 2 ^ 64 \<Longrightarrow> num_elements ti = Inr (elements ti)"
    "2 ^ 64 \<le> elements ti \<Longrightarrow> \<exists>e. num_elements ti = Inl (invalid_argument e)"
  using num_elements_loop_exact [of "ti_dimensions ti" 1 "ti_name ti"] assms
  by (auto simp: num_elements_def elements_def list_all_iff dim_ok_def)

lemma tensor_bytes_exact:
  assumes "list_all dim_ok (ti_dimensions ti)" and "ggml_blck_size (ti_dtype ti) \<noteq> 0"
    and "elements ti + ggml_blck_size (ti_dtype ti) \<le> 2 ^ 64"
  shows "if blocks_bytes ti < 2 ^ 64 then tensor_bytes ti = Inr (blocks_bytes ti)
    else \<exists>e. tensor_bytes ti = Inl (invalid_argument e)"
proof -
  have size: "0 < ggml_dtype_size (ti_dtype ti)" using assms(2) by (cases "ti_dtype ti") auto
  have small: "elements ti < 2 ^ 64" "elements ti + ggml_blck_size (ti_dtype ti) - 1 < 2 ^ 64" using assms(2,3) by linarith+
  have ne: "num_elements ti = Inr (elements ti)" by (rule num_elements_exact(1) [OF assms(1) small(1)])
  have eq: "tensor_bytes ti = (if 2 ^ 64 \<le> blocks_bytes ti then Inl (invalid_argument (''byte size overflow for tensor: '' @ ti_name ti))
      else Inr (wrap64 (blocks_bytes ti)))"
    unfolding tensor_bytes_def ne rbind_simps Let_def wrap64_small [OF small(2)] mul_overflow_test [OF size] blocks_bytes_def
    using size assms(2) by simp
  show ?thesis unfolding eq using wrap64_small by (auto simp: not_le)
qed

text \<open>The byte size of a tensor is the number of its blocks times their size, exactly, or an error when that does not
  fit; only when the element count is within a block of \<open>2^64\<close> does the rounding up wrap, and then a tensor of
  almost \<open>2^64\<close> elements has size zero.\<close>

theorem tensor_bytes_exact_until_it_wraps:
  assumes "list_all dim_ok (ti_dimensions ti)" and "ggml_blck_size (ti_dtype ti) \<noteq> 0"
    and "elements ti + ggml_blck_size (ti_dtype ti) \<le> 2 ^ 64"
  shows "(if blocks_bytes ti < 2 ^ 64 then tensor_bytes ti = Inr (blocks_bytes ti)
      else \<exists>e. tensor_bytes ti = Inl (invalid_argument e))
    \<and> tensor_bytes \<lparr>ti_name = nm, ti_dtype = GT_Q8_0, ti_dimensions = [2 ^ 63 - 1, 2], ti_offset = off\<rparr> = Inr 0"
proof (rule conjI [OF tensor_bytes_exact [OF assms]])
  show "tensor_bytes \<lparr>ti_name = nm, ti_dtype = GT_Q8_0, ti_dimensions = [2 ^ 63 - 1, 2], ti_offset = off\<rparr> = Inr 0"
    by (simp add: tensor_bytes_def num_elements_def size_of_int_def wrap64_def)
qed

theorem tensor_bytes_exact_until_it_wraps_witness: "tensor_bytes demo_info = Inr 68"
proof -
  have "list_all dim_ok (ti_dimensions demo_info)" "ggml_blck_size (ti_dtype demo_info) \<noteq> 0"
    "elements demo_info + ggml_blck_size (ti_dtype demo_info) \<le> 2 ^ 64" "blocks_bytes demo_info = 68"
    by (simp_all add: demo_info_def dim_ok_def elements_def blocks_bytes_def)
  with tensor_bytes_exact_until_it_wraps [OF this(1-3)] show ?thesis by simp
qed

section \<open>Data\<close>

text \<open>The guard of the three readers: it refuses exactly the sums that would wrap.\<close>

lemma offset_guard: "t < 2 ^ 64 \<Longrightarrow> size_max - t < d \<longleftrightarrow> 2 ^ 64 \<le> d + t"
  by auto

lemma guarded_sum: "t < 2 ^ 64 \<Longrightarrow> \<not> size_max - t < d \<Longrightarrow> wrap64 (d + t) = d + t"
  by simp

lemma view_paths_exact:
  assumes "length s < 2 ^ 64" and "tensor_off < 2 ^ 64"
  shows "isOK (fst (copy_from_view s data_off tensor_off n dst)) = (data_off + tensor_off + n \<le> length s)"
    "snd (copy_from_view s data_off tensor_off n dst)
      = (if data_off + tensor_off + n \<le> length s then take n (drop (data_off + tensor_off) s) @ drop n dst else dst)"
proof -
  have "isOK (fst (copy_from_view s data_off tensor_off n dst)) = (data_off + tensor_off + n \<le> length s)
    \<and> snd (copy_from_view s data_off tensor_off n dst)
      = (if data_off + tensor_off + n \<le> length s then take n (drop (data_off + tensor_off) s) @ drop n dst else dst)"
  proof (cases "size_max - tensor_off < data_off")
    case True
    with assms show ?thesis by (auto simp: copy_from_view_def)
  next
    case False
    from guarded_sum [OF assms(2) this] False show ?thesis
      by (auto simp: copy_from_view_def Let_def fill_front_def simp del: wrap64_small)
  qed
  then show "isOK (fst (copy_from_view s data_off tensor_off n dst)) = (data_off + tensor_off + n \<le> length s)"
    "snd (copy_from_view s data_off tensor_off n dst)
      = (if data_off + tensor_off + n \<le> length s then take n (drop (data_off + tensor_off) s) @ drop n dst else dst)" by simp_all
qed

lemma stream_path_exact:
  assumes "length s < 2 ^ 63" and "tensor_off < 2 ^ 64" and "0 < n" and "n < 2 ^ 63"
  shows "isOK (fst (copy_from_stream s fn data_off tensor_off n dst)) = (data_off + tensor_off + n \<le> length s)"
    "data_off + tensor_off + n \<le> length s \<Longrightarrow>
      copy_from_stream s fn data_off tensor_off n dst = (make_ok, take n (drop (data_off + tensor_off) s) @ drop n dst)"
proof -
  have "isOK (fst (copy_from_stream s fn data_off tensor_off n dst)) = (data_off + tensor_off + n \<le> length s)
    \<and> (data_off + tensor_off + n \<le> length s \<longrightarrow>
      copy_from_stream s fn data_off tensor_off n dst = (make_ok, take n (drop (data_off + tensor_off) s) @ drop n dst))"
  proof (cases "size_max - tensor_off < data_off")
    case True
    with assms show ?thesis by (auto simp: copy_from_stream_def)
  next
    case False
    from guarded_sum [OF assms(2) this] False assms show ?thesis
      by (auto simp: copy_from_stream_def Let_def fill_front_def simp del: wrap64_small)
  qed
  then show "isOK (fst (copy_from_stream s fn data_off tensor_off n dst)) = (data_off + tensor_off + n \<le> length s)"
    "data_off + tensor_off + n \<le> length s \<Longrightarrow>
      copy_from_stream s fn data_off tensor_off n dst = (make_ok, take n (drop (data_off + tensor_off) s) @ drop n dst)" by simp_all
qed

text \<open>C35. The three ways to a tensor's bytes, the view of the mapped file, the copy out of the mapping and the
  read through a stream, find the same: for offsets as the file gives them, 64-bit and unchecked, each succeeds
  exactly when the true sum of the offsets and the size lies in the file, however close to \<open>2 ^ 64\<close> they are, and
  then gives the bytes at that place; a copy leaves the rest of the buffer as it was, and without the bytes the view is an
  \<open>OutOfRange\<close> error and the copy from the mapping writes nothing. For the stream, file and size are below \<open>2 ^ 63\<close>
  and the tensor is not empty.\<close>

theorem tensor_view_exact:
  assumes "gf_memory_view f = Some raw" and "length raw < 2 ^ 64" and "ti_offset ti < 2 ^ 64"
    and "tensor_bytes ti = Inr n"
  shows "isOK (tensor_view f ti) = (gf_data_offset f + ti_offset ti + n \<le> length raw)
    \<and> (if isOK (tensor_view f ti) then tensor_view f ti = Inr (take n (drop (gf_data_offset f + ti_offset ti) raw))
       else \<exists>e. tensor_view f ti = Inl (out_of_range e))
    \<and> (\<forall>fs fn dst.
         (let r = read_tensor_data fs (\<lambda>_. Some raw) fn (gf_data_offset f) (ti_offset ti) n dst
          in isOK (fst r) = isOK (tensor_view f ti)
           \<and> snd r = (if isOK (fst r) then take n (drop (gf_data_offset f + ti_offset ti) raw) @ drop n dst else dst)))
    \<and> (\<forall>fn dst. length raw < 2 ^ 63 \<and> 0 < n \<and> n < 2 ^ 63 \<longrightarrow>
         (let r = read_tensor_data (\<lambda>_. Some raw) (\<lambda>_. None) fn (gf_data_offset f) (ti_offset ti) n dst
          in isOK (fst r) = isOK (tensor_view f ti)
           \<and> (isOK (fst r) \<longrightarrow> snd r = take n (drop (gf_data_offset f + ti_offset ti) raw) @ drop n dst)))"
proof -
  let ?fits = "gf_data_offset f + ti_offset ti + n \<le> length raw"
  have view: "isOK (tensor_view f ti) = ?fits"
    "if ?fits then tensor_view f ti = Inr (take n (drop (gf_data_offset f + ti_offset ti) raw))
       else \<exists>e. tensor_view f ti = Inl (out_of_range e)"
  proof -
    have "if ?fits then tensor_view f ti = Inr (take n (drop (gf_data_offset f + ti_offset ti) raw))
       else \<exists>e. tensor_view f ti = Inl (out_of_range e)"
    proof (cases "size_max - ti_offset ti < gf_data_offset f")
      case True
      with assms show ?thesis by (auto simp: tensor_view_def)
    next
      case False
      from guarded_sum [OF assms(3) this] False assms(1,4) show ?thesis
        by (auto simp: tensor_view_def Let_def simp del: wrap64_small)
    qed
    then show "isOK (tensor_view f ti) = ?fits"
      "if ?fits then tensor_view f ti = Inr (take n (drop (gf_data_offset f + ti_offset ti) raw))
       else \<exists>e. tensor_view f ti = Inl (out_of_range e)" by (auto split: if_splits)
  qed
  show ?thesis
  proof (intro conjI allI impI)
    show "isOK (tensor_view f ti) = ?fits" by (rule view(1))
    show "if isOK (tensor_view f ti) then tensor_view f ti = Inr (take n (drop (gf_data_offset f + ti_offset ti) raw))
       else \<exists>e. tensor_view f ti = Inl (out_of_range e)"
      using view by presburger
  qed (simp_all only: Let_def view(1),
      simp_all add: read_tensor_data_def view_paths_exact [OF assms(2,3)] stream_path_exact [where s = raw, OF _ assms(3)])
qed

theorem tensor_view_exact_witness:
  "\<not> isOK (tensor_view \<lparr>gf_version = 3, gf_tensor_count = 1, gf_metadata_kv_count = 0, gf_data_offset = 128, gf_source_path = [],
     gf_memory_view = Some (replicate 196 1), gf_metadata = Map.empty, gf_tensor_infos = []\<rparr>
     (demo_info\<lparr>ti_offset := 2 ^ 64 - 128\<rparr>))"
proof -
  have "ti_offset (demo_info\<lparr>ti_offset := 2 ^ 64 - 128\<rparr>) < 2 ^ 64"
    "tensor_bytes (demo_info\<lparr>ti_offset := 2 ^ 64 - 128\<rparr>) = Inr 68"
    by (simp_all add: demo_info_def tensor_bytes_def num_elements_def size_of_int_def)
  with tensor_view_exact [of "\<lparr>gf_version = 3, gf_tensor_count = 1, gf_metadata_kv_count = 0, gf_data_offset = 128,
     gf_source_path = [], gf_memory_view = Some (replicate 196 1), gf_metadata = Map.empty, gf_tensor_infos = []\<rparr>"
     "replicate 196 1" "demo_info\<lparr>ti_offset := 2 ^ 64 - 128\<rparr>" 68]
  show ?thesis by simp
qed

end
