(* ===== verification/Cpu_Simd.thy ===== *)
theory Cpu_Simd
  imports Softmax_Attention
begin

text \<open>
  The vector layer of the CPU kernels (include/minillm/runtime/kernels/cpu_simd.h) and the loops
  that every kernel of src/runtime/kernels/cpu_kernels.cpp makes over it: whole vectors first, the
  rest of the row one element at a time. The instruction set is a parameter, as it is a
  choice of the build; a vector is a list of its lanes. The arithmetic is a record of operations,
  so that what is shown without looking into it holds for the rounding of any machine.
\<close>

section \<open>Arithmetic\<close>

text \<open>
  The operations on \<open>float\<close> that the kernels use beyond those of \<open>float_ops\<close>: the infinities, NaN and
  the tests for them, the fused multiply-add of the vector units, the functions of \<open><cmath>\<close> and
  \<open>std::bit_cast<float>\<close>.
\<close>

record 'f cpu_ops = "'f float_ops" +
  f_neg_inf :: 'f
  f_isfinite :: "'f \<Rightarrow> bool"
  f_eq :: "'f \<Rightarrow> 'f \<Rightarrow> bool"
  f_fma :: "'f \<Rightarrow> 'f \<Rightarrow> 'f \<Rightarrow> 'f"
  f_pow :: "'f \<Rightarrow> 'f \<Rightarrow> 'f"
  f_cos :: "'f \<Rightarrow> 'f"
  f_sin :: "'f \<Rightarrow> 'f"
  f_inf :: 'f
  f_nan :: 'f
  f_neg :: "'f \<Rightarrow> 'f"
  f_ldexp :: "'f \<Rightarrow> int \<Rightarrow> 'f"
  f_of_bits :: "32 word \<Rightarrow> 'f"

section \<open>Instruction sets\<close>

text \<open>\<open>AVX2\<close> says whether \<open>__FMA__\<close> is defined too.\<close>

datatype simd_level = Simd_Scalar | SSE2 | AVX2 bool | AVX512

fun simd_width :: "simd_level \<Rightarrow> nat" where
  "simd_width Simd_Scalar = 1"
| "simd_width SSE2 = 4"
| "simd_width (AVX2 fma) = 8"
| "simd_width AVX512 = 16"

lemma simd_width_pos [simp]: "0 < simd_width lvl"
  by (cases lvl) auto

lemma simd_width_not_0 [simp]: "simd_width lvl \<noteq> 0"
  by (cases lvl) auto

lemma simd_width_step [simp]: "simd_width lvl \<le> n \<Longrightarrow> n - simd_width lvl < n"
  using simd_width_pos [of lvl] by linarith

definition vf_max :: "('f, 'z) float_ops_scheme \<Rightarrow> 'f \<Rightarrow> 'f \<Rightarrow> 'f" where
  "vf_max F a b = (if f_less F b a then a else b)"

fun vf_fmadd :: "('f, 'z) cpu_ops_scheme \<Rightarrow> simd_level \<Rightarrow> 'f \<Rightarrow> 'f \<Rightarrow> 'f \<Rightarrow> 'f" where
  "vf_fmadd F AVX512 a b c = f_fma F a b c"
| "vf_fmadd F (AVX2 True) a b c = f_fma F a b c"
| "vf_fmadd F (AVX2 False) a b c = f_add F (f_mul F a b) c"
| "vf_fmadd F SSE2 a b c = f_add F (f_mul F a b) c"
| "vf_fmadd F Simd_Scalar a b c = f_add F (f_mul F a b) c"

text \<open>
  The reductions fold the upper half of the lanes onto the lower one until one lane is left; with
  AVX2 the first step has the halves in the other order. \<open>_mm512_reduce_add_ps\<close> and
  \<open>_mm512_reduce_max_ps\<close> are documented to do the same.
\<close>

fun reduce_halves :: "('f \<Rightarrow> 'f \<Rightarrow> 'f) \<Rightarrow> nat \<Rightarrow> 'f list \<Rightarrow> 'f" where
  "reduce_halves f 0 v = v ! 0"
| "reduce_halves f (Suc k) v = reduce_halves f k (map2 f (take (2 ^ k) v) (drop (2 ^ k) v))"

fun hreduce :: "('f \<Rightarrow> 'f \<Rightarrow> 'f) \<Rightarrow> simd_level \<Rightarrow> 'f list \<Rightarrow> 'f" where
  "hreduce f Simd_Scalar v = v ! 0"
| "hreduce f SSE2 v = reduce_halves f 2 v"
| "hreduce f (AVX2 fma) v = reduce_halves f 2 (map2 f (drop 4 v) (take 4 v))"
| "hreduce f AVX512 v = reduce_halves f 4 v"

definition hsum :: "('f, 'z) float_ops_scheme \<Rightarrow> simd_level \<Rightarrow> 'f list \<Rightarrow> 'f" where
  "hsum F lvl v = hreduce (f_add F) lvl v"

definition hmax :: "('f, 'z) float_ops_scheme \<Rightarrow> simd_level \<Rightarrow> 'f list \<Rightarrow> 'f" where
  "hmax F lvl v = hreduce (vf_max F) lvl v"

definition v_exp :: "('f, 'z) float_ops_scheme \<Rightarrow> 'f list \<Rightarrow> 'f list" where
  "v_exp F v = map (f_exp F) v"

definition v_sigmoid :: "('f, 'z) float_ops_scheme \<Rightarrow> 'f list \<Rightarrow> 'f list" where
  "v_sigmoid F v = map (\<lambda>e. f_div F (f_one F) (f_add F (f_one F) e))
     (v_exp F (map (f_mul F (f_of_int F (- 1))) v))"

section \<open>Loops over a row\<close>

text \<open>
  \<open>simd_fold\<close> is the vector part of a reduction: the accumulators of the lanes, and the elements that
  are left for the scalar loop. \<open>simd_map\<close> is an elementwise loop, with the formula of its vector
  part (on a chunk of lanes) and of its scalar part.
\<close>

function simd_fold :: "simd_level \<Rightarrow> ('f \<Rightarrow> 'a \<Rightarrow> 'f) \<Rightarrow> 'f list \<Rightarrow> 'a list \<Rightarrow> 'f list \<times> 'a list" where
  "simd_fold lvl step acc xs =
     (if simd_width lvl \<le> length xs
      then simd_fold lvl step (map2 step acc (take (simd_width lvl) xs)) (drop (simd_width lvl) xs)
      else (acc, xs))"
  by pat_completeness auto
termination by (relation "measure (\<lambda>(lvl, _, _, xs). length xs)") auto

function simd_map :: "simd_level \<Rightarrow> ('a list \<Rightarrow> 'f list) \<Rightarrow> ('a \<Rightarrow> 'f) \<Rightarrow> 'a list \<Rightarrow> 'f list" where
  "simd_map lvl fv fs xs =
     (if simd_width lvl \<le> length xs
      then fv (take (simd_width lvl) xs) @ simd_map lvl fv fs (drop (simd_width lvl) xs)
      else map fs xs)"
  by pat_completeness auto
termination by (relation "measure (\<lambda>(lvl, _, _, xs). length xs)") auto

declare simd_fold.simps [simp del] simd_map.simps [simp del]

text \<open>
  The dot product with separate multiplication and addition in the lanes (attention), and the one
  that accumulates by \<open>VF_FMADD\<close> (matrix products).
\<close>

definition simd_reduce ::
  "('f, 'z) float_ops_scheme \<Rightarrow> simd_level \<Rightarrow> ('f \<Rightarrow> 'a \<Rightarrow> 'f) \<Rightarrow> ('f \<Rightarrow> 'a \<Rightarrow> 'f) \<Rightarrow> 'a list \<Rightarrow> 'f"
where
  "simd_reduce F lvl vstep step xs =
     (let (acc, rest) = simd_fold lvl vstep (replicate (simd_width lvl) (f_zero F)) xs
      in foldl step (hsum F lvl acc) rest)"

definition simd_dot :: "('f, 'z) float_ops_scheme \<Rightarrow> simd_level \<Rightarrow> 'f list \<Rightarrow> 'f list \<Rightarrow> 'f" where
  "simd_dot F lvl q k = simd_reduce F lvl (\<lambda>acc (x, y). f_add F acc (f_mul F x y))
     (\<lambda>acc (x, y). f_add F acc (f_mul F x y)) (zip q k)"

definition simd_dot_fma :: "('f, 'z) cpu_ops_scheme \<Rightarrow> simd_level \<Rightarrow> 'f list \<Rightarrow> 'f list \<Rightarrow> 'f" where
  "simd_dot_fma F lvl q k = simd_reduce F lvl (\<lambda>acc (x, y). vf_fmadd F lvl x y acc)
     (\<lambda>acc (x, y). f_add F acc (f_mul F x y)) (zip q k)"

definition simd_max :: "('f, 'z) float_ops_scheme \<Rightarrow> simd_level \<Rightarrow> 'f list \<Rightarrow> 'f" where
  "simd_max F lvl xs =
     (let (acc, rest) = simd_fold lvl (vf_max F) (replicate (simd_width lvl) (f_lowest F)) xs
      in foldl (f_max F) (hmax F lvl acc) rest)"

definition simd_sum :: "('f, 'z) float_ops_scheme \<Rightarrow> simd_level \<Rightarrow> 'f list \<Rightarrow> 'f" where
  "simd_sum F lvl xs = simd_reduce F lvl (f_add F) (f_add F) xs"

section \<open>What the loops do\<close>

lemma length_simd_fold:
  "length acc = simd_width lvl \<Longrightarrow> length (fst (simd_fold lvl step acc xs)) = simd_width lvl"
proof (induction lvl step acc xs rule: simd_fold.induct)
  case (1 lvl step acc xs)
  then show ?case by (subst simd_fold.simps) auto
qed

text \<open>Formulas that work lane by lane: the vector part is a map as well.\<close>

lemma simd_map_lanes:
  "simd_map lvl (map g) fs xs
    = map g (take (length xs div simd_width lvl * simd_width lvl) xs)
      @ map fs (drop (length xs div simd_width lvl * simd_width lvl) xs)"
proof (induction "length xs" arbitrary: xs rule: less_induct)
  case less
  let ?w = "simd_width lvl"
  show ?case
  proof (cases "?w \<le> length xs")
    case True
    have "length xs div ?w = Suc ((length xs - ?w) div ?w)"
      using True by (simp add: le_div_geq)
    then have d: "length xs div ?w * ?w = ?w + length (drop ?w xs) div ?w * ?w" by simp
    have "simd_map lvl (map g) fs xs = map g (take ?w xs) @ simd_map lvl (map g) fs (drop ?w xs)"
      using True by (subst simd_map.simps) simp
    then show ?thesis
      unfolding d take_add map_append using less [of "drop ?w xs"] True
      by (simp add: add.commute)
  next
    case False
    then have "length xs div ?w = 0" by simp
    with False show ?thesis by (subst simd_map.simps) simp
  qed
qed

lemma simd_map_same: "simd_map lvl (map g) g xs = map g xs"
  by (simp add: simd_map_lanes flip: map_append)

lemma length_simd_map:
  "(\<And>ys. length (fv ys) = length ys) \<Longrightarrow> length (simd_map lvl fv fs xs) = length xs"
proof (induction lvl fv fs xs rule: simd_map.induct)
  case (1 lvl fv fs xs)
  then show ?case by (subst simd_map.simps) auto
qed

end
