(* ===== verification/Exact_Floats.thy ===== *)
theory Exact_Floats
  imports Cpu_Simd
begin

text \<open>
  The arithmetic of IEEE 754 without rounding: the real numbers with both infinities and NaN, as the code
  tests for them (masked scores are \<open>-inf\<close>, a softmax sum is checked by \<open>isfinite\<close>). There is
  one zero. On finite numbers the loops of the kernels are shown to be sums and maxima.
\<close>

unbundle bit_operations_syntax

section \<open>Extended reals\<close>

datatype xreal = Fin real | PInf | MInf | NaN

fun x_sgn :: "xreal \<Rightarrow> real" where
  "x_sgn (Fin a) = sgn a"
| "x_sgn PInf = 1"
| "x_sgn MInf = -1"
| "x_sgn NaN = 0"

definition inf_of :: "real \<Rightarrow> xreal" where
  "inf_of s = (if 0 < s then PInf else if s < 0 then MInf else NaN)"

fun x_neg :: "xreal \<Rightarrow> xreal" where
  "x_neg (Fin a) = Fin (- a)"
| "x_neg PInf = MInf"
| "x_neg MInf = PInf"
| "x_neg NaN = NaN"

fun x_add :: "xreal \<Rightarrow> xreal \<Rightarrow> xreal" where
  "x_add (Fin a) (Fin b) = Fin (a + b)"
| "x_add (Fin a) b = b"
| "x_add a (Fin b) = a"
| "x_add a b = (if a = b then a else NaN)"

definition x_sub :: "xreal \<Rightarrow> xreal \<Rightarrow> xreal" where
  "x_sub a b = x_add a (x_neg b)"

fun x_mul :: "xreal \<Rightarrow> xreal \<Rightarrow> xreal" where
  "x_mul (Fin a) (Fin b) = Fin (a * b)"
| "x_mul a b = (if a = NaN \<or> b = NaN then NaN else inf_of (x_sgn a * x_sgn b))"

fun x_div :: "xreal \<Rightarrow> xreal \<Rightarrow> xreal" where
  "x_div (Fin a) (Fin b) = (if b = 0 then inf_of a else Fin (a / b))"
| "x_div (Fin a) b = (if b = NaN then NaN else Fin 0)"
| "x_div a (Fin b) = (if a = NaN then NaN else inf_of (x_sgn a * (if b < 0 then -1 else 1)))"
| "x_div a b = NaN"

fun x_exp :: "xreal \<Rightarrow> xreal" where
  "x_exp (Fin a) = Fin (exp a)"
| "x_exp PInf = PInf"
| "x_exp MInf = Fin 0"
| "x_exp NaN = NaN"

fun x_sqrt :: "xreal \<Rightarrow> xreal" where
  "x_sqrt (Fin a) = (if a < 0 then NaN else Fin (sqrt a))"
| "x_sqrt PInf = PInf"
| "x_sqrt a = NaN"

fun x_less :: "xreal \<Rightarrow> xreal \<Rightarrow> bool" where
  "x_less (Fin a) (Fin b) = (a < b)"
| "x_less MInf b = (b \<noteq> MInf \<and> b \<noteq> NaN)"
| "x_less a PInf = (a \<noteq> PInf \<and> a \<noteq> NaN)"
| "x_less a b = False"

definition x_eq :: "xreal \<Rightarrow> xreal \<Rightarrow> bool" where
  "x_eq a b \<longleftrightarrow> a = b \<and> a \<noteq> NaN"

definition x_le :: "xreal \<Rightarrow> xreal \<Rightarrow> bool" where
  "x_le a b \<longleftrightarrow> x_less a b \<or> x_eq a b"

definition x_finite :: "xreal \<Rightarrow> bool" where
  "x_finite a \<longleftrightarrow> (case a of Fin _ \<Rightarrow> True | _ \<Rightarrow> False)"

text \<open>\<open>pow\<close> is used with a positive base, \<open>cos\<close> and \<open>sin\<close> on finite angles; NaN stands for the rest.\<close>

fun x_pow :: "xreal \<Rightarrow> xreal \<Rightarrow> xreal" where
  "x_pow (Fin a) (Fin b) = (if 0 < a then Fin (a powr b) else NaN)"
| "x_pow a b = NaN"

fun x_fun :: "(real \<Rightarrow> real) \<Rightarrow> xreal \<Rightarrow> xreal" where
  "x_fun f (Fin a) = Fin (f a)"
| "x_fun f a = NaN"

definition x_ldexp :: "xreal \<Rightarrow> int \<Rightarrow> xreal" where
  "x_ldexp a e = (case a of Fin r \<Rightarrow> Fin (r * 2 powi e) | _ \<Rightarrow> a)"

text \<open>The number that the 32 bits of a \<open>float\<close> stand for.\<close>

definition x_of_bits :: "32 word \<Rightarrow> xreal" where
  "x_of_bits b =
     (let e = unat (drop_bit 23 b AND 0xFF); m = unat (b AND 0x7FFFFF);
          v = (if e = 255 then (if m = 0 then PInf else NaN)
               else if e = 0 then Fin (real m * 2 powi - 149)
               else Fin (real (2 ^ 23 + m) * 2 powi (int e - 150)))
      in if bit b 31 then x_neg v else v)"

definition lowest_float :: real where
  "lowest_float = - (2 ^ 128 - 2 ^ 104)"

definition x_ops :: "xreal cpu_ops" where
  "x_ops = \<lparr>f_zero = Fin 0, f_one = Fin 1, f_lowest = Fin lowest_float, f_add = x_add,
     f_sub = x_sub, f_mul = x_mul, f_div = x_div, f_exp = x_exp, f_sqrt = x_sqrt,
     f_of_int = (\<lambda>i. Fin (of_int i)), f_less = x_less, f_le = x_le,
     f_neg_inf = MInf, f_isfinite = x_finite, f_eq = x_eq, f_fma = (\<lambda>a b c. x_add (x_mul a b) c),
     f_pow = x_pow, f_cos = x_fun cos, f_sin = x_fun sin,
     f_inf = PInf, f_nan = NaN, f_neg = x_neg, f_ldexp = x_ldexp, f_of_bits = x_of_bits\<rparr>"

lemma x_ops_simps [simp]:
  "f_zero x_ops = Fin 0" "f_one x_ops = Fin 1" "f_add x_ops = x_add" "f_sub x_ops = x_sub"
  "f_mul x_ops = x_mul" "f_div x_ops = x_div" "f_exp x_ops = x_exp" "f_sqrt x_ops = x_sqrt"
  "f_of_int x_ops i = Fin (of_int i)" "f_less x_ops = x_less" "f_le x_ops = x_le"
  "f_lowest x_ops = Fin lowest_float"
  "f_neg_inf x_ops = MInf" "f_isfinite x_ops = x_finite" "f_eq x_ops = x_eq"
  "f_fma x_ops a b c = x_add (x_mul a b) c" "f_pow x_ops = x_pow"
  "f_cos x_ops = x_fun cos" "f_sin x_ops = x_fun sin"
  "f_inf x_ops = PInf" "f_nan x_ops = NaN" "f_neg x_ops = x_neg" "f_ldexp x_ops = x_ldexp"
  "f_of_bits x_ops = x_of_bits"
  by (simp_all add: x_ops_def)

lemma x_arith_simps [simp]:
  "x_sub (Fin a) (Fin b) = Fin (a - b)" "x_sub MInf (Fin b) = MInf"
  "x_eq (Fin a) (Fin b) \<longleftrightarrow> a = b" "\<not> x_eq MInf (Fin a)" "\<not> x_eq (Fin a) MInf" "x_eq MInf MInf"
  "x_le (Fin a) (Fin b) \<longleftrightarrow> a \<le> b" "x_finite (Fin a)"
  by (auto simp: x_sub_def x_eq_def x_le_def x_finite_def)

lemma x_add_comm: "x_add a b = x_add b a"
  by (cases a; cases b) auto

lemma vf_fmadd_x [simp]: "vf_fmadd x_ops lvl a b c = x_add (x_mul a b) c"
  by (cases "(x_ops, lvl, a, b, c)" rule: vf_fmadd.cases) auto

lemma f_max_x [simp]:
  "f_max x_ops (Fin a) (Fin b) = Fin (max a b)" "f_max x_ops MInf (Fin b) = Fin b"
  "f_max x_ops (Fin a) MInf = Fin a" "f_max x_ops MInf MInf = MInf"
  "vf_max x_ops (Fin a) (Fin b) = Fin (max a b)" "vf_max x_ops (Fin a) MInf = Fin a"
  by (simp_all add: f_max_def vf_max_def max_def)

section \<open>Reductions\<close>

text \<open>What every step keeps holds of the reduced value.\<close>

lemma map2_closed:
  "(\<And>x y. x \<in> set xs \<Longrightarrow> y \<in> set ys \<Longrightarrow> P (f x y)) \<Longrightarrow> \<forall>z \<in> set (map2 f xs ys). P z"
  by (auto dest: set_zip_leftD set_zip_rightD)

lemma reduce_halves_closed:
  assumes "\<And>x y. P x \<Longrightarrow> P y \<Longrightarrow> P (f x y)" and "length v = 2 ^ k" and "\<forall>x \<in> set v. P x"
  shows "P (reduce_halves f k v)"
  using assms(2,3)
proof (induction k arbitrary: v)
  case 0
  then show ?case by (cases v) auto
next
  case (Suc k)
  have "\<forall>z \<in> set (map2 f (take (2 ^ k) v) (drop (2 ^ k) v)). P z"
    using Suc.prems(2) by (intro map2_closed assms(1)) (auto dest: in_set_takeD in_set_dropD)
  with Suc.IH [OF _ this] Suc.prems(1) show ?case by simp
qed

lemma hreduce_closed:
  assumes "\<And>x y. P x \<Longrightarrow> P y \<Longrightarrow> P (f x y)" and "length v = simd_width lvl" and "\<forall>x \<in> set v. P x"
  shows "P (hreduce f lvl v)"
proof (cases lvl)
  case (AVX2 fma)
  have "\<forall>z \<in> set (map2 f (drop 4 v) (take 4 v)). P z"
    using assms(3) by (intro map2_closed assms(1)) (auto dest: in_set_takeD in_set_dropD)
  with assms(1,2) AVX2 reduce_halves_closed [of P f "map2 f (drop 4 v) (take 4 v)" 2] show ?thesis by simp
qed (use assms reduce_halves_closed [of P] in auto)

lemma simd_fold_closed:
  assumes "\<And>a x. P a \<Longrightarrow> x \<in> set xs \<Longrightarrow> P (step a x)" and "\<forall>a \<in> set acc. P a"
  shows "(\<forall>a \<in> set (fst (simd_fold lvl step acc xs)). P a)
    \<and> set (snd (simd_fold lvl step acc xs)) \<subseteq> set xs"
  using assms
proof (induction lvl step acc xs rule: simd_fold.induct)
  case (1 lvl step acc xs)
  let ?w = "simd_width lvl"
  show ?case
  proof (cases "?w \<le> length xs")
    case True
    have "\<forall>a \<in> set (map2 step acc (take ?w xs)). P a"
      using "1.prems"(2) by (intro map2_closed "1.prems"(1)) (auto dest: in_set_takeD)
    with "1.IH" [OF True _ this] "1.prems"(1) True show ?thesis
      by (subst (1 2) simd_fold.simps) (auto dest: in_set_dropD)
  next
    case False
    with "1.prems" show ?thesis by (subst (1 2) simd_fold.simps) simp
  qed
qed

lemma foldl_closed:
  "(\<And>a x. P a \<Longrightarrow> x \<in> set xs \<Longrightarrow> P (f a x)) \<Longrightarrow> P a \<Longrightarrow> P (foldl f a xs)"
  by (induction xs arbitrary: a) auto

text \<open>On finite numbers the reductions of a vector are the sum, in whatever order the lanes are added.\<close>

lemma sum_list_map2_add:
  "length xs = length ys \<Longrightarrow> sum_list (map2 (+) xs ys) = sum_list xs + sum_list ys" for xs :: "real list"
  by (induction xs ys rule: list_induct2) auto

lemma map2_fin: "map2 x_add (map Fin xs) (map Fin ys) = map Fin (map2 (+) xs ys)"
  by (induction xs ys rule: list_induct2') auto

lemma reduce_halves_sum:
  "length v = 2 ^ k \<Longrightarrow> reduce_halves x_add k (map Fin v) = Fin (sum_list v)"
proof (induction k arbitrary: v)
  case 0
  then show ?case by (cases v) auto
next
  case (Suc k)
  let ?a = "take (2 ^ k) v" and ?b = "drop (2 ^ k) v"
  have len: "length ?a = 2 ^ k" "length ?b = 2 ^ k" using Suc.prems by auto
  have "sum_list (map2 (+) ?a ?b) = sum_list v"
    using sum_list_map2_add [of ?a ?b] len by (metis append_take_drop_id sum_list_append)
  with Suc.IH [of "map2 (+) ?a ?b"] len show ?case
    by (simp only: reduce_halves.simps take_map drop_map map2_fin) simp
qed

lemma hsum_fin:
  assumes "length v = simd_width lvl"
  shows "hsum x_ops lvl (map Fin v) = Fin (sum_list v)"
proof (cases lvl)
  case Simd_Scalar
  with assms show ?thesis by (cases v) (auto simp: hsum_def)
next
  case (AVX2 fma)
  have "sum_list (map2 (+) (drop 4 v) (take 4 v)) = sum_list v"
    using sum_list_map2_add [of "drop 4 v" "take 4 v"] assms AVX2
    by (simp, metis add.commute append_take_drop_id sum_list_append)
  with AVX2 assms reduce_halves_sum [of "map2 (+) (drop 4 v) (take 4 v)" 2] show ?thesis
    by (simp only: hsum_def x_ops_simps hreduce.simps take_map drop_map map2_fin) simp
qed (use assms reduce_halves_sum [of v] in \<open>auto simp: hsum_def\<close>)

lemma foldl_fin:
  "(\<And>a x. x \<in> set xs \<Longrightarrow> f (Fin a) x = Fin (a + g x)) \<Longrightarrow> foldl f (Fin a) xs = Fin (a + sum_list (map g xs))"
  by (induction xs arbitrary: a) (auto simp: add.assoc)

lemma simd_fold_fin:
  assumes "\<And>a x. x \<in> set xs \<Longrightarrow> step (Fin a) x = Fin (a + g x)" and "length acc = simd_width lvl"
  shows "\<exists>acc' rest. simd_fold lvl step (map Fin acc) xs = (map Fin acc', rest) \<and> length acc' = simd_width lvl
    \<and> set rest \<subseteq> set xs \<and> sum_list acc' + sum_list (map g rest) = sum_list acc + sum_list (map g xs)"
  using assms
proof (induction "length xs" arbitrary: xs acc rule: less_induct)
  case less
  let ?w = "simd_width lvl"
  show ?case
  proof (cases "?w \<le> length xs")
    case True
    let ?acc = "map2 (+) acc (map g (take ?w xs))"
    have acc: "map2 step (map Fin acc) (take ?w xs) = map Fin ?acc"
      using less.prems(1) by (intro nth_equalityI) (auto dest: in_set_takeD)
    have len: "length ?acc = ?w" using True less.prems(2) by simp
    have "sum_list (map g (take ?w xs)) + sum_list (map g (drop ?w xs)) = sum_list (map g xs)"
      by (simp flip: sum_list_append map_append)
    then have "sum_list ?acc + sum_list (map g (drop ?w xs)) = sum_list acc + sum_list (map g xs)"
      using sum_list_map2_add [of acc "map g (take ?w xs)"] True less.prems(2) by simp
    moreover have "set (drop ?w xs) \<subseteq> set xs" by (rule set_drop_subset)
    moreover have "simd_fold lvl step (map Fin acc) xs = simd_fold lvl step (map Fin ?acc) (drop ?w xs)"
      using True acc by (subst simd_fold.simps) simp
    ultimately show ?thesis
      using less.hyps [of "drop ?w xs" ?acc] less.prems(1) len True by (metis length_drop simd_width_step subsetD subset_trans)
  next
    case False
    with less.prems show ?thesis by (subst simd_fold.simps) auto
  qed
qed

lemma simd_reduce_fin:
  assumes "\<And>a x. x \<in> set xs \<Longrightarrow> vstep (Fin a) x = Fin (a + g x)"
    and "\<And>a x. x \<in> set xs \<Longrightarrow> step (Fin a) x = Fin (a + g x)"
  shows "simd_reduce x_ops lvl vstep step xs = Fin (sum_list (map g xs))"
proof -
  have "\<exists>acc' rest. simd_fold lvl vstep (map Fin (replicate (simd_width lvl) 0)) xs = (map Fin acc', rest)
      \<and> length acc' = simd_width lvl \<and> set rest \<subseteq> set xs
      \<and> sum_list acc' + sum_list (map g rest) = sum_list (replicate (simd_width lvl) (0 :: real)) + sum_list (map g xs)"
    using assms(1) by (intro simd_fold_fin) auto
  then obtain acc' rest where r: "simd_fold lvl vstep (replicate (simd_width lvl) (Fin 0)) xs = (map Fin acc', rest)"
    "length acc' = simd_width lvl" "set rest \<subseteq> set xs" "sum_list acc' + sum_list (map g rest) = sum_list (map g xs)"
    by (auto simp: sum_list_replicate)
  have "foldl step (Fin (sum_list acc')) rest = Fin (sum_list acc' + sum_list (map g rest))"
    using r(3) assms(2) by (intro foldl_fin) auto
  with r show ?thesis by (simp add: simd_reduce_def hsum_fin)
qed

lemma zip_sum_nth:
  "length q = length k \<Longrightarrow> sum_list (map (\<lambda>(x, y). f x y) (zip q k)) = (\<Sum>i < length q. f (q ! i) (k ! i))"
  for f :: "'a \<Rightarrow> 'b \<Rightarrow> real"
  by (simp add: sum_list_sum_nth atLeast0LessThan)

lemma simd_dot_fin:
  assumes "length q = length k"
  shows "simd_dot x_ops lvl (map Fin q) (map Fin k) = Fin (\<Sum>i < length q. q ! i * k ! i)"
    and "simd_dot_fma x_ops lvl (map Fin q) (map Fin k) = Fin (\<Sum>i < length q. q ! i * k ! i)"
proof -
  let ?g = "\<lambda>(x, y). (case x of Fin a \<Rightarrow> a) * (case y of Fin b \<Rightarrow> b)"
  have "sum_list (map ?g (zip (map Fin q) (map Fin k))) = (\<Sum>i < length q. q ! i * k ! i)"
    using zip_sum_nth [of "map Fin q" "map Fin k" "\<lambda>x y. ?g (x, y)"] assms by simp
  moreover have "x_add (Fin a) (x_mul (fst p) (snd p)) = Fin (a + ?g p)"
    if "p \<in> set (zip (map Fin q) (map Fin k))" for a p
  proof -
    obtain x y where "p = (x, y)" by fastforce
    moreover from this that(1) have "x \<in> Fin ` set q" "y \<in> Fin ` set k"
      by (auto dest: set_zip_leftD set_zip_rightD)
    ultimately show ?thesis by auto
  qed
  ultimately have "simd_reduce x_ops lvl vs st (zip (map Fin q) (map Fin k)) = Fin (\<Sum>i < length q. q ! i * k ! i)"
    if "vs = (\<lambda>acc p. x_add acc (x_mul (fst p) (snd p)))" "st = vs" for vs st
    using that simd_reduce_fin [where g = ?g and xs = "zip (map Fin q) (map Fin k)" and lvl = lvl
        and vstep = vs and step = st] by simp
  then show "simd_dot x_ops lvl (map Fin q) (map Fin k) = Fin (\<Sum>i < length q. q ! i * k ! i)"
    "simd_dot_fma x_ops lvl (map Fin q) (map Fin k) = Fin (\<Sum>i < length q. q ! i * k ! i)"
    by (simp_all add: simd_dot_def simd_dot_fma_def case_prod_beta' x_add_comm [of "x_mul _ _"])
qed

lemma simd_sum_fin: "simd_sum x_ops lvl (map Fin xs) = Fin (sum_list xs)"
proof -
  let ?g = "\<lambda>x. case x of Fin a \<Rightarrow> a"
  have "simd_sum x_ops lvl (map Fin xs) = Fin (sum_list (map ?g (map Fin xs)))"
    unfolding simd_sum_def by (intro simd_reduce_fin) auto
  then show ?thesis by (simp add: comp_def)
qed

text \<open>The maximum of a row is finite when the row has finite numbers and masked entries only.\<close>

definition fin_or_masked :: "xreal \<Rightarrow> bool" where
  "fin_or_masked x \<longleftrightarrow> x = MInf \<or> (\<exists>a. x = Fin a)"

lemma simd_max_fin:
  assumes "\<forall>x \<in> set xs. fin_or_masked x"
  shows "\<exists>m. simd_max x_ops lvl xs = Fin m"
proof -
  let ?P = "\<lambda>x. \<exists>a. x = Fin a"
  let ?zs = "replicate (simd_width lvl) (Fin lowest_float)"
  obtain acc rest where r: "simd_fold lvl (vf_max x_ops) ?zs xs = (acc, rest)"
    by (metis surj_pair)
  have "?P (vf_max x_ops a x)" if "?P a" "x \<in> set xs" for a x
    using that assms by (auto simp: fin_or_masked_def)
  then have "(\<forall>a \<in> set acc. ?P a) \<and> set rest \<subseteq> set xs"
    using simd_fold_closed [where P = ?P and xs = xs and step = "vf_max x_ops" and acc = ?zs and lvl = lvl]
    by (simp add: r)
  moreover have "length acc = simd_width lvl"
    using length_simd_fold [of ?zs lvl "vf_max x_ops" xs] by (simp add: r)
  ultimately have acc: "\<forall>a \<in> set acc. ?P a" "length acc = simd_width lvl"
    and rest: "\<forall>x \<in> set rest. fin_or_masked x"
    using assms by auto
  have "?P (hmax x_ops lvl acc)"
    unfolding hmax_def by (rule hreduce_closed [where P = ?P, OF _ acc(2,1)]) auto
  then have "?P (foldl (f_max x_ops) (hmax x_ops lvl acc) rest)"
    by (rule foldl_closed [where P = ?P, rotated]) (use rest in \<open>auto simp: fin_or_masked_def\<close>)
  then show ?thesis by (simp add: simd_max_def r)
qed

end
