(* ===== verification/Kernel_Loops.thy ===== *)
theory Kernel_Loops
  imports Paged_KV_Cache
begin

text \<open>
  The buffers and the loops of the kernels: a pointer into an array of floats is an offset, a read or a write
  outside of the array is undefined, and \<open>for (int i = lo; ...; ++i)\<close> is \<open>for_range\<close>. The lemmas say
  what a loop leaves that fills a buffer row by row.
\<close>

section \<open>Reading and writing\<close>

definition read_at :: "'f list \<Rightarrow> int \<Rightarrow> int \<Rightarrow> 'f list result" where
  "read_at xs off n = (if off < 0 then Inl (UB ''read before the buffer'') else read_floats xs (nat off) (nat n))"

definition write_at :: "'f list \<Rightarrow> int \<Rightarrow> 'f list \<Rightarrow> 'f list result" where
  "write_at xs off row =
     (if off < 0 then Inl (UB ''write before the buffer'') else copy_floats xs (nat off) row 0 (length row))"

text \<open>
  The offset of a row: as a pointer \<open>p + r * w\<close>, and in \<open>p[r * w + d]\<close>, where the sum is an
  \<open>int\<close> too, for the last \<open>d\<close>.
\<close>

definition row_offset :: "int \<Rightarrow> int \<Rightarrow> int result" where
  "row_offset r w = cint32 (r * w)"

definition elem_offset :: "int \<Rightarrow> int \<Rightarrow> int result" where
  "elem_offset r w = rbind (cint32 (r * w)) (\<lambda>i. rbind (cint32 (i + (w - 1))) (\<lambda>_. Inr i))"

section \<open>Loops\<close>

fun for_range :: "(int \<Rightarrow> 's \<Rightarrow> 's result) \<Rightarrow> int \<Rightarrow> nat \<Rightarrow> 's \<Rightarrow> 's result" where
  "for_range body i 0 s = Inr s"
| "for_range body i (Suc n) s = rbind (body i s) (\<lambda>s'. for_range body (i + 1) n s')"

lemma rbind_cong [fundef_cong]:
  "r = r' \<Longrightarrow> (\<And>x. r' = Inr x \<Longrightarrow> f x = g x) \<Longrightarrow> rbind r f = rbind r' g"
  by (cases r') auto

lemma for_range_cong:
  assumes "\<And>k s. i \<le> k \<Longrightarrow> k < i + int n \<Longrightarrow> f k s = g k s"
  shows "for_range f i n s = for_range g i n s"
  using assms by (induction n arbitrary: i s) (auto intro!: rbind_cong)

text \<open>A loop whose \<open>k\<close>-th step takes the state \<open>g k\<close> to \<open>g (k + 1)\<close>.\<close>

lemma for_range_states:
  assumes "\<And>k. k < n \<Longrightarrow> body (i + int k) (g k) = Inr (g (Suc k))"
  shows "for_range body i n (g 0) = Inr (g n)"
  using assms
proof (induction n arbitrary: i g)
  case (Suc n)
  have "for_range body (i + 1) n (g (Suc 0)) = Inr (g (Suc n))"
    using Suc.IH [where i = "i + 1" and g = "\<lambda>k. g (Suc k)"] Suc.prems [of "Suc _"] by (simp add: ac_simps)
  with Suc.prems [of 0] show ?case by simp
qed simp

lemma for_range_invariant:
  assumes "\<And>k s. k < n \<Longrightarrow> P k s \<Longrightarrow> \<exists>s'. body (i + int k) s = Inr s' \<and> P (Suc k) s'" and "P 0 s"
  shows "\<exists>s'. for_range body i n s = Inr s' \<and> P n s'"
  using assms
proof (induction n arbitrary: i s P)
  case (Suc n)
  obtain s1 where "body i s = Inr s1" and "P (Suc 0) s1" using Suc.prems(1) [of 0 s] Suc.prems(2) by auto
  moreover have "\<exists>s'. for_range body (i + 1) n s1 = Inr s' \<and> P (Suc n) s'"
    using Suc.IH [of "\<lambda>k. P (Suc k)" "i + 1" s1] Suc.prems(1) [of "Suc _"] \<open>P (Suc 0) s1\<close>
    by (simp add: add.assoc)
  ultimately show ?case by simp
qed auto

section \<open>Filling a buffer\<close>

text \<open>\<open>filled f k w xs\<close>: the first \<open>k\<close> rows of \<open>w\<close> elements are \<open>f 0, ..., f (k - 1)\<close>.\<close>

definition filled :: "(nat \<Rightarrow> 'a list) \<Rightarrow> nat \<Rightarrow> nat \<Rightarrow> 'a list \<Rightarrow> 'a list" where
  "filled f k w xs = concat (map f [0..<k]) @ drop (k * w) xs"

lemma filled_0 [simp]: "filled f 0 w xs = xs"
  by (simp add: filled_def)

lemma length_concat_rows:
  "(\<And>j. j < k \<Longrightarrow> length (f j) = w) \<Longrightarrow> length (concat (map f [0..<k])) = k * w"
  by (induction k) auto

lemma length_filled [simp]:
  "(\<And>j. j < k \<Longrightarrow> length (f j) = w) \<Longrightarrow> k * w \<le> length xs \<Longrightarrow> length (filled f k w xs) = length xs"
  by (simp add: filled_def length_concat_rows)

lemma write_filled:
  assumes "\<And>j. j \<le> k \<Longrightarrow> length (f j) = w" and "Suc k * w \<le> length xs" and "off = int (k * w)"
  shows "write_at (filled f k w xs) off (f k) = Inr (filled f (Suc k) w xs)"
proof -
  have off: "0 \<le> off" "nat off = k * w" using assms(3) by (simp_all del: of_nat_mult)
  have len: "length (concat (map f [0..<k])) = k * w" using assms(1) by (intro length_concat_rows) simp
  have "k * w + w \<le> length xs" using assms(2) by simp
  then show ?thesis using assms(1) len off
    by (simp add: write_at_def copy_floats_def filled_def add.commute)
qed

lemma filled_nth_row:
  assumes "\<And>j. j < k \<Longrightarrow> length (f j) = w" and "r < k"
  shows "take w (drop (r * w) (filled f k w xs)) = f r"
  using assms
proof (induction k)
  case (Suc k)
  have len: "length (concat (map f [0..<k])) = k * w" using Suc.prems(1) by (intro length_concat_rows) simp
  show ?case
  proof (cases "r < k")
    case True
    have "take w (drop (r * w) (filled f k w xs)) = f r" using Suc True by simp
    moreover have "r * w + w \<le> k * w" using True by (rule row_fits)
    ultimately show ?thesis using len by (simp add: filled_def)
  next
    case False
    with Suc.prems have "r = k" by simp
    with Suc.prems(1) [of k] len show ?thesis by (simp add: filled_def)
  qed
qed simp

lemma filled_nth:
  assumes "\<And>j. j < k \<Longrightarrow> length (f j) = w" and "r < k" and "d < w"
  shows "filled f k w xs ! (r * w + d) = f r ! d"
proof -
  have "f r ! d = take w (drop (r * w) (filled f k w xs)) ! d"
    using filled_nth_row [of k f w r xs] assms by simp
  also have "\<dots> = filled f k w xs ! (r * w + d)"
    using assms row_fits [OF assms(2), of w] length_concat_rows [of k f w] by (simp add: filled_def)
  finally show ?thesis by simp
qed

lemma filled_beyond:
  assumes "\<And>j. j < k \<Longrightarrow> length (f j) = w" and "k * w \<le> i" and "i < length xs"
  shows "filled f k w xs ! i = xs ! i"
  using assms length_concat_rows [of k f w] by (simp add: filled_def nth_append)

lemma filled_eqI:
  assumes "\<And>j. j < k \<Longrightarrow> length (f j) = w" and "k * w \<le> length xs" and "length ys = length xs"
    and "\<And>r d. r < k \<Longrightarrow> d < w \<Longrightarrow> ys ! (r * w + d) = f r ! d"
    and "\<And>i. k * w \<le> i \<Longrightarrow> i < length xs \<Longrightarrow> ys ! i = xs ! i"
  shows "filled f k w xs = ys"
proof (rule nth_equalityI)
  fix i assume i: "i < length (filled f k w xs)"
  show "filled f k w xs ! i = ys ! i"
  proof (cases "i < k * w")
    case True
    then have "0 < w" by (cases w) auto
    with True have "i div w < k" "i mod w < w" by (simp_all add: less_mult_imp_div_less)
    then have "filled f k w xs ! (i div w * w + i mod w) = ys ! (i div w * w + i mod w)"
      using filled_nth [of k f w] assms(1,4) by (simp only:)
    then show ?thesis by simp
  next
    case False
    with i assms show ?thesis by (simp add: filled_beyond)
  qed
qed (use assms in simp)

lemma read_at_ok:
  "0 \<le> off \<Longrightarrow> nat off + nat n \<le> length xs \<Longrightarrow> read_at xs off n = Inr (take (nat n) (drop (nat off) xs))"
  by (simp add: read_at_def read_floats_def)

text \<open>The loop that fills \<open>n\<close> rows, one after the other.\<close>

lemma for_range_fill:
  assumes "\<And>k. k < n \<Longrightarrow> body (int k) (filled f k w xs) = write_at (filled f k w xs) (int (k * w)) (f k)"
    and "\<And>j. j < n \<Longrightarrow> length (f j) = w" and "n * w \<le> length xs"
  shows "for_range body 0 n xs = Inr (filled f n w xs)"
proof -
  have "body (0 + int k) (filled f k w xs) = Inr (filled f (Suc k) w xs)" if "k < n" for k
    using assms(2,3) that row_fits [OF that, of w] by (subst add_0, subst assms(1)) (auto intro: write_filled)
  from for_range_states [where g = "\<lambda>k. filled f k w xs" and i = 0, OF this] show ?thesis by simp
qed

text \<open>Reading rows into a list.\<close>

lemma for_range_collect:
  assumes "\<And>k. k < n \<Longrightarrow> rd (i + int k) = Inr (f k)"
  shows "for_range (\<lambda>k ys. rbind (rd k) (\<lambda>y. Inr (ys @ [y]))) i n ys0 = Inr (ys0 @ map f [0..<n])"
  using for_range_states [where g = "\<lambda>k. ys0 @ map f [0..<k]" and i = i and n = n
      and body = "\<lambda>k ys. rbind (rd k) (\<lambda>y. Inr (ys @ [y]))"] assms by simp

section \<open>Writing element after element\<close>

text \<open>A buffer whose first \<open>i\<close> elements are \<open>f 0, ..., f (i - 1)\<close>.\<close>

definition filled_to :: "(nat \<Rightarrow> 'f) \<Rightarrow> nat \<Rightarrow> 'f list \<Rightarrow> 'f list" where
  "filled_to f i xs = map f [0..<i] @ drop i xs"

lemma filled_to_0 [simp]: "filled_to f 0 xs = xs"
  by (simp add: filled_to_def)

lemma length_filled_to [simp]: "i \<le> length xs \<Longrightarrow> length (filled_to f i xs) = length xs"
  by (simp add: filled_to_def)

lemma filled_to_nth: "j < i \<Longrightarrow> filled_to f i xs ! j = f j"
  by (simp add: filled_to_def nth_append)

lemma filled_to_beyond: "i \<le> j \<Longrightarrow> j < length xs \<Longrightarrow> filled_to f i xs ! j = xs ! j"
  by (simp add: filled_to_def nth_append)

lemma write_filled_to:
  assumes "i + n \<le> length xs" and "off = int i"
  shows "write_at (filled_to f i xs) off (map f [i..<i + n]) = Inr (filled_to f (i + n) xs)"
proof -
  have "[0..<i + n] = [0..<i] @ [i..<i + n]" using upt_add_eq_append [of 0 i n] by simp
  with assms show ?thesis by (simp add: write_at_def copy_floats_def filled_to_def add.commute)
qed

lemma write_filled_to1:
  "i < length xs \<Longrightarrow> off = int i \<Longrightarrow> write_at (filled_to f i xs) off [f i] = Inr (filled_to f (Suc i) xs)"
  using write_filled_to [of i 1 xs off f] by simp

text \<open>A loop that fills the elements from \<open>i\<close> on.\<close>

lemma for_range_fill_to:
  assumes "\<And>j. j < n \<Longrightarrow> body (lo + int j) (filled_to f (i + j) xs) = write_at (filled_to f (i + j) xs) (int (i + j)) [f (i + j)]"
    and "i + n \<le> length xs"
  shows "for_range body lo n (filled_to f i xs) = Inr (filled_to f (i + n) xs)"
  using for_range_states [where g = "\<lambda>j. filled_to f (i + j) xs" and body = body and i = lo and n = n]
    assms write_filled_to1 [where xs = xs and f = f] by (simp del: of_nat_add)

end
