(* ===== verification/Cpu_Attention.thy ===== *)
theory Cpu_Attention
  imports Exact_Floats Kernel_Loops
begin

text \<open>
  The attention kernels of src/runtime/kernels/cpu_kernels.cpp: \<open>sdpa\<close> and \<open>sdpa_decode\<close>, which
  materialise a row of scores, and \<open>flash_sdpa\<close> and \<open>flash_sdpa_decode\<close>, which go over the keys
  in tiles of 32 and correct their running sums when the maximum grows. \<open>Q\<close>, \<open>K\<close>, \<open>V\<close> and
  \<open>output\<close> are separate arrays, as the adapters pass them.
\<close>

section \<open>Softmax of one row\<close>

text \<open>The loop that \<open>sdpa\<close> and \<open>softmax\<close> share; \<open>n\<close> is the length of the row.\<close>

definition softmax_row :: "('f, 'z) cpu_ops_scheme \<Rightarrow> simd_level \<Rightarrow> int \<Rightarrow> 'f list \<Rightarrow> 'f list" where
  "softmax_row F lvl n row =
     (let max_val = simd_max F lvl row;
          es = simd_map lvl (\<lambda>xs. v_exp F (map (\<lambda>x. f_sub F x max_val) xs))
                 (\<lambda>x. f_exp F (f_sub F x max_val)) row;
          sum = simd_sum F lvl es
      in if \<not> f_isfinite F sum \<or> f_le F sum (f_zero F)
         then replicate (length row) (f_div F (f_one F) (f_of_int F n))
         else let inv = f_div F (f_one F) sum
              in simd_map lvl (map (\<lambda>x. f_mul F x inv)) (\<lambda>x. f_div F x sum) es)"

section \<open>Attention with a row of scores\<close>

text \<open>A score row of \<open>sdpa\<close>: keys after the query are masked when \<open>causal\<close>.\<close>

definition tail_offset :: "simd_level \<Rightarrow> int \<Rightarrow> int \<Rightarrow> int result" where
  "tail_offset lvl r w = (if nat w mod simd_width lvl = 0 then row_offset r w else elem_offset r w)"

definition sdpa_scores ::
  "('f, 'z) cpu_ops_scheme \<Rightarrow> simd_level \<Rightarrow> 'f \<Rightarrow> 'f list \<Rightarrow> int \<Rightarrow> 'f list \<Rightarrow> int \<Rightarrow> int \<Rightarrow> int \<Rightarrow> bool \<Rightarrow> int
   \<Rightarrow> 'f list result"
where
  "sdpa_scores F lvl scale Q qo K ko kv_len hdim causal qi =
     for_range (\<lambda>ki row.
       if causal \<and> qi < ki then Inr (row @ [f_neg_inf F])
       else rbind (tail_offset lvl qi hdim) (\<lambda>qr. rbind (read_at Q (qo + qr) hdim) (\<lambda>q.
            rbind (tail_offset lvl ki hdim) (\<lambda>kr. rbind (read_at K (ko + kr) hdim) (\<lambda>k.
              Inr (row @ [f_mul F (simd_dot F lvl q k) scale])))))) 0 (nat kv_len) []"

text \<open>\<open>attn @ V\<close> for one query: for every \<open>d\<close> the sum over the keys, in their order.\<close>

definition weighted_row :: "('f, 'z) float_ops_scheme \<Rightarrow> nat \<Rightarrow> 'f list \<Rightarrow> 'f list list \<Rightarrow> 'f list" where
  "weighted_row F w ps vs =
     map (\<lambda>d. foldl (\<lambda>acc (p, v). f_add F acc (f_mul F p (v ! d))) (f_zero F) (zip ps vs)) [0..<w]"

definition read_rows :: "'f list \<Rightarrow> int \<Rightarrow> int \<Rightarrow> int \<Rightarrow> 'f list list result" where
  "read_rows V vo n hdim =
     for_range (\<lambda>ki vs. rbind (rbind (elem_offset ki hdim) (\<lambda>r. read_at V (vo + r) hdim))
       (\<lambda>v. Inr (vs @ [v]))) 0 (nat n) []"

text \<open>
  The scores are a vector of \<open>q_len * kv_len\<close> floats that all heads use in turn; a length beyond
  \<open>max_size()\<close> throws. For each head: all rows of scores, then the softmax of all rows, then the
  products with the values.
\<close>

definition new_scores :: "('f, 'z) float_ops_scheme \<Rightarrow> nat \<Rightarrow> 'f list result" where
  "new_scores F n = (if 2 ^ 61 \<le> n then Inl (Thrown ''std::length_error'') else Inr (replicate n (f_zero F)))"

definition sdpa_head ::
  "('f, 'z) cpu_ops_scheme \<Rightarrow> simd_level \<Rightarrow> 'f \<Rightarrow> 'f list \<Rightarrow> int \<Rightarrow> 'f list \<Rightarrow> 'f list \<Rightarrow> int \<Rightarrow> int \<Rightarrow> int \<Rightarrow> int \<Rightarrow> bool
   \<Rightarrow> 'f list \<times> 'f list \<Rightarrow> ('f list \<times> 'f list) result"
where
  "sdpa_head F lvl scale Q qo K V ko q_len kv_len hdim causal = (\<lambda>(scores, out).
     rbind (for_range (\<lambda>qi sc. rbind (sdpa_scores F lvl scale Q qo K ko kv_len hdim causal qi) (\<lambda>row.
         rbind (elem_offset qi kv_len) (\<lambda>r. write_at sc r row))) 0 (nat q_len) scores) (\<lambda>scores1.
     rbind (for_range (\<lambda>qi sc. rbind (row_offset qi kv_len) (\<lambda>r. rbind (read_at sc r kv_len) (\<lambda>row.
         write_at sc r (softmax_row F lvl kv_len row)))) 0 (nat q_len) scores1) (\<lambda>scores2.
     rbind (for_range (\<lambda>qi o'. rbind (elem_offset qi kv_len) (\<lambda>r. rbind (read_at scores2 r kv_len) (\<lambda>ps.
         rbind (read_rows V ko kv_len hdim) (\<lambda>vs. rbind (elem_offset qi hdim) (\<lambda>qr.
           write_at o' (qo + qr) (weighted_row F (nat hdim) ps vs)))))) 0 (nat q_len) out) (\<lambda>out1.
     Inr (scores2, out1)))))"

definition sdpa ::
  "('f, 'z) cpu_ops_scheme \<Rightarrow> simd_level \<Rightarrow> 'f list \<Rightarrow> 'f list \<Rightarrow> 'f list \<Rightarrow> 'f list
   \<Rightarrow> int \<Rightarrow> int \<Rightarrow> int \<Rightarrow> int \<Rightarrow> bool \<Rightarrow> 'f list result"
where
  "sdpa F lvl Q K V out heads q_len kv_len hdim causal =
     (let scale = f_div F (f_one F) (f_sqrt F (f_of_int F hdim)) in
      rbind (cint32 (q_len * hdim)) (\<lambda>q_per_head. rbind (cint32 (kv_len * hdim)) (\<lambda>kv_per_head.
      rbind (new_scores F (wrap64 (size_of_int q_len * size_of_int kv_len))) (\<lambda>scores.
      rbind (for_range (\<lambda>h st. rbind (cint32 (h * q_per_head)) (\<lambda>qo. rbind (cint32 (h * kv_per_head)) (\<lambda>ko.
          sdpa_head F lvl scale Q qo K V ko q_len kv_len hdim causal st))) 0 (nat heads) (scores, out)) (\<lambda>(_, out').
      Inr out')))))"

text \<open>
  One query token against a cache of rows of all KV heads. The row of scores is normalised by one
  division, and the row of the output is set to zero and summed up in place.
\<close>

definition cache_row :: "'f list \<Rightarrow> int \<Rightarrow> int \<Rightarrow> int \<Rightarrow> int \<Rightarrow> 'f list result" where
  "cache_row K kv_hidden kv_h hdim ki =
     rbind (cint32 (ki * kv_hidden)) (\<lambda>a. rbind (cint32 (kv_h * hdim)) (\<lambda>b. read_at K (a + b) hdim))"

definition decode_scores ::
  "('f, 'z) cpu_ops_scheme \<Rightarrow> simd_level \<Rightarrow> 'f \<Rightarrow> 'f list result \<Rightarrow> (int \<Rightarrow> 'f list result) \<Rightarrow> int \<Rightarrow> ('f list \<times> 'f) result"
where
  "decode_scores F lvl scale qv kr kv_len =
     for_range (\<lambda>ki (ss, mx). rbind (kr ki) (\<lambda>k. rbind qv (\<lambda>q.
       let s = f_mul F (simd_dot F lvl q k) scale in Inr (ss @ [s], f_max F mx s)))) 0 (nat kv_len) ([], f_lowest F)"

definition normalize_weights :: "('f, 'z) cpu_ops_scheme \<Rightarrow> int \<Rightarrow> 'f list \<Rightarrow> 'f list" where
  "normalize_weights F n es =
     (let sum = sum_floats F es
      in if \<not> f_isfinite F sum \<or> f_le F sum (f_zero F)
         then map (\<lambda>_. f_div F (f_one F) (f_of_int F n)) es
         else let inv_sum = f_div F (f_one F) sum in map (\<lambda>e. f_mul F e inv_sum) es)"

definition sdpa_decode ::
  "('f, 'z) cpu_ops_scheme \<Rightarrow> simd_level \<Rightarrow> 'f list \<Rightarrow> 'f list \<Rightarrow> 'f list \<Rightarrow> 'f list
   \<Rightarrow> int \<Rightarrow> int \<Rightarrow> int \<Rightarrow> int \<Rightarrow> 'f list result"
where
  "sdpa_decode F lvl Q K V out num_heads num_kv_heads hdim kv_len =
     (let scale = f_div F (f_one F) (f_sqrt F (f_of_int F hdim)) in
      rbind (cint32 (num_kv_heads * hdim)) (\<lambda>kv_hidden. rbind (cdiv num_heads num_kv_heads) (\<lambda>group_size.
      for_range (\<lambda>h o'. rbind (cdiv h group_size) (\<lambda>kv_h. rbind (cint32 (h * hdim)) (\<lambda>qo.
        if kv_len < 0 then Inl (Thrown ''std::length_error'')
        else rbind (decode_scores F lvl scale (read_at Q qo hdim) (cache_row K kv_hidden kv_h hdim) kv_len) (\<lambda>(ss, mx).
          let ps = normalize_weights F kv_len (exp_scores F ss mx) in
          if hdim < 0 then Inl (UB ''memset of a negative size'')
          else rbind (for_range (\<lambda>ki row. rbind (cache_row V kv_hidden kv_h hdim ki) (\<lambda>v.
                 let w = ps ! nat ki in
                 Inr (simd_map lvl (map (\<lambda>(o', x). f_add F o' (f_mul F w x))) (\<lambda>(o', x). f_add F o' (f_mul F w x)) (zip row v))))
               0 (nat kv_len) (replicate (nat hdim) (f_zero F))) (\<lambda>row.
             write_at o' qo row))))) 0 (nat num_heads) out)))"

section \<open>Flash attention\<close>

text \<open>
  The running state of one query: the maximum so far, the sum of the exponentials and the weighted sum
  of the values, both relative to that maximum. \<open>flash_tile\<close> is one round of the loop over the tiles
  (the keys from \<open>kt\<close> to below \<open>tile_end\<close>); \<open>masked\<close> is the causal test of a key and \<open>skip\<close> that of a tile.
\<close>

type_synonym 'f flash_state = "'f \<times> 'f \<times> 'f list"

definition tile_scores ::
  "('f, 'z) cpu_ops_scheme \<Rightarrow> simd_level \<Rightarrow> 'f \<Rightarrow> 'f list result \<Rightarrow> (int \<Rightarrow> 'f list result) \<Rightarrow> (int \<Rightarrow> bool)
   \<Rightarrow> int \<Rightarrow> int \<Rightarrow> ('f list \<times> 'f) result"
where
  "tile_scores F lvl scale qv kr masked kt tile_end =
     for_range (\<lambda>ki (ss, mx).
       if masked ki then Inr (ss @ [f_neg_inf F], mx)
       else rbind (kr ki) (\<lambda>k. rbind qv (\<lambda>q.
         let s = f_mul F (simd_dot F lvl q k) scale in Inr (ss @ [s], f_max F mx s))))
       kt (nat (tile_end - kt)) ([], f_neg_inf F)"

definition tile_values ::
  "('f, 'z) cpu_ops_scheme \<Rightarrow> simd_level \<Rightarrow> (int \<Rightarrow> 'f list result) \<Rightarrow> 'f list \<Rightarrow> int \<Rightarrow> int \<Rightarrow> 'f list \<Rightarrow> 'f list result"
where
  "tile_values F lvl vr es kt tile_end row =
     for_range (\<lambda>ki row. let w = es ! nat (ki - kt) in
       if f_eq F w (f_zero F) then Inr row
       else rbind (vr ki) (\<lambda>v. Inr (simd_map lvl (map (\<lambda>(o', x). vf_fmadd F lvl w x o'))
              (\<lambda>(o', x). f_add F o' (f_mul F w x)) (zip row v)))) kt (nat (tile_end - kt)) row"

definition scale_row :: "('f, 'z) float_ops_scheme \<Rightarrow> simd_level \<Rightarrow> 'f \<Rightarrow> 'f list \<Rightarrow> 'f list" where
  "scale_row F lvl a row = simd_map lvl (map (\<lambda>x. f_mul F x a)) (\<lambda>x. f_mul F x a) row"

definition flash_tile ::
  "('f, 'z) cpu_ops_scheme \<Rightarrow> simd_level \<Rightarrow> 'f \<Rightarrow> 'f list result \<Rightarrow> (int \<Rightarrow> 'f list result) \<Rightarrow> (int \<Rightarrow> 'f list result)
   \<Rightarrow> (int \<Rightarrow> bool) \<Rightarrow> int \<Rightarrow> int \<Rightarrow> 'f flash_state \<Rightarrow> 'f flash_state result"
where
  "flash_tile F lvl scale qv kr vr masked kt tile_end = (\<lambda>(m, l, row).
     rbind (tile_scores F lvl scale qv kr masked kt tile_end) (\<lambda>(ss, tile_max).
       let m_new = f_max F m tile_max;
           alpha = (if f_eq F m (f_neg_inf F) then f_one F else f_exp F (f_sub F m m_new));
           es = exp_scores F ss m_new;
           tile_sum = sum_floats F es
       in rbind (tile_values F lvl vr es kt tile_end (scale_row F lvl alpha row)) (\<lambda>row'.
            Inr (m_new, f_add F (f_mul F l alpha) tile_sum, row'))))"

function flash_tiles ::
  "('f, 'z) cpu_ops_scheme \<Rightarrow> simd_level \<Rightarrow> 'f \<Rightarrow> 'f list result \<Rightarrow> (int \<Rightarrow> 'f list result) \<Rightarrow> (int \<Rightarrow> 'f list result)
   \<Rightarrow> (int \<Rightarrow> bool) \<Rightarrow> (int \<Rightarrow> bool) \<Rightarrow> int \<Rightarrow> int \<Rightarrow> 'f flash_state \<Rightarrow> 'f flash_state result"
where
  "flash_tiles F lvl scale qv kr vr masked skip kv_len kt st =
     (if kt < kv_len then
        rbind (cint32 (kt + 32)) (\<lambda>kt'.
          if skip kt then Inr st
          else rbind (flash_tile F lvl scale qv kr vr masked kt (min kt' kv_len) st) (\<lambda>st'.
                 flash_tiles F lvl scale qv kr vr masked skip kv_len kt' st'))
      else Inr st)"
  by pat_completeness auto
termination by (relation "measure (\<lambda>(_, _, _, _, _, _, _, _, kv_len, kt, _). nat (kv_len - kt))") auto

declare flash_tiles.simps [simp del]

definition flash_row ::
  "('f, 'z) cpu_ops_scheme \<Rightarrow> simd_level \<Rightarrow> 'f \<Rightarrow> 'f list result \<Rightarrow> (int \<Rightarrow> 'f list result) \<Rightarrow> (int \<Rightarrow> 'f list result)
   \<Rightarrow> (int \<Rightarrow> bool) \<Rightarrow> (int \<Rightarrow> bool) \<Rightarrow> int \<Rightarrow> int \<Rightarrow> 'f list result"
where
  "flash_row F lvl scale qv kr vr masked skip kv_len hdim =
     rbind (flash_tiles F lvl scale qv kr vr masked skip kv_len 0
              (f_neg_inf F, f_zero F, replicate (nat hdim) (f_zero F))) (\<lambda>(m, l, row).
       Inr (if f_less F (f_zero F) l then scale_row F lvl (f_div F (f_one F) l) row else row))"

text \<open>One query \<open>qi\<close> of a head whose arrays start at \<open>qo\<close> and \<open>ko\<close>, and all of them.\<close>

definition flash_query ::
  "('f, 'z) cpu_ops_scheme \<Rightarrow> simd_level \<Rightarrow> 'f \<Rightarrow> 'f list \<Rightarrow> 'f list \<Rightarrow> 'f list \<Rightarrow> int \<Rightarrow> int \<Rightarrow> int \<Rightarrow> int \<Rightarrow> bool
   \<Rightarrow> int \<Rightarrow> 'f list \<Rightarrow> 'f list result"
where
  "flash_query F lvl scale Q K V qo ko kv_len hdim causal qi out =
     rbind (row_offset qi hdim) (\<lambda>qr.
     rbind (flash_row F lvl scale (read_at Q (qo + qr) hdim)
              (\<lambda>ki. rbind (row_offset ki hdim) (\<lambda>r. read_at K (ko + r) hdim))
              (\<lambda>ki. rbind (row_offset ki hdim) (\<lambda>r. read_at V (ko + r) hdim))
              (\<lambda>ki. causal \<and> qi < ki) (\<lambda>kt. causal \<and> qi < kt) kv_len hdim) (\<lambda>row.
     write_at out (qo + qr) row))"

definition flash_sdpa ::
  "('f, 'z) cpu_ops_scheme \<Rightarrow> simd_level \<Rightarrow> 'f list \<Rightarrow> 'f list \<Rightarrow> 'f list \<Rightarrow> 'f list
   \<Rightarrow> int \<Rightarrow> int \<Rightarrow> int \<Rightarrow> int \<Rightarrow> bool \<Rightarrow> 'f list result"
where
  "flash_sdpa F lvl Q K V out heads q_len kv_len hdim causal =
     (let scale = f_div F (f_one F) (f_sqrt F (f_of_int F hdim)) in
      rbind (cint32 (q_len * hdim)) (\<lambda>q_per_head. rbind (cint32 (kv_len * hdim)) (\<lambda>kv_per_head.
      for_range (\<lambda>h o'. rbind (cint32 (h * q_per_head)) (\<lambda>qo. rbind (cint32 (h * kv_per_head)) (\<lambda>ko.
        for_range (flash_query F lvl scale Q K V qo ko kv_len hdim causal) 0 (nat q_len) o'))) 0 (nat heads) out)))"

definition flash_sdpa_decode ::
  "('f, 'z) cpu_ops_scheme \<Rightarrow> simd_level \<Rightarrow> 'f list \<Rightarrow> 'f list \<Rightarrow> 'f list \<Rightarrow> 'f list
   \<Rightarrow> int \<Rightarrow> int \<Rightarrow> int \<Rightarrow> int \<Rightarrow> 'f list result"
where
  "flash_sdpa_decode F lvl Q K V out num_heads num_kv_heads hdim kv_len =
     (let scale = f_div F (f_one F) (f_sqrt F (f_of_int F hdim)) in
      rbind (cint32 (num_kv_heads * hdim)) (\<lambda>kv_hidden. rbind (cdiv num_heads num_kv_heads) (\<lambda>group_size.
      for_range (\<lambda>h o'. rbind (cdiv h group_size) (\<lambda>kv_h. rbind (cint32 (h * hdim)) (\<lambda>qo.
        rbind (flash_row F lvl scale (read_at Q qo hdim) (cache_row K kv_hidden kv_h hdim)
          (cache_row V kv_hidden kv_h hdim) (\<lambda>_. False) (\<lambda>_. False) kv_len hdim) (\<lambda>row.
        write_at o' qo row)))) 0 (nat num_heads) out)))"

end
