(* ===== verification/Flash_Attention.thy ===== *)
theory Flash_Attention
  imports Cpu_Attention
begin

text \<open>
  In exact arithmetic the four attention kernels compute softmax attention: the online
  correction of flash attention, its tiles and the order in which the vector units add
  do not show. From this follow the equalities of the fast and the plain kernels.
\<close>

section \<open>Reference\<close>

text \<open>
  The score of a key and the attention of a query over the first \<open>m\<close> keys, those it may see.
\<close>

definition key_score :: "real \<Rightarrow> real list \<Rightarrow> real list \<Rightarrow> real" where
  "key_score scale q k = (\<Sum>i < length q. q ! i * k ! i) * scale"

definition weighted_values :: "(nat \<Rightarrow> real) \<Rightarrow> (nat \<Rightarrow> real list) \<Rightarrow> nat \<Rightarrow> nat \<Rightarrow> real list" where
  "weighted_values a V w c = map (\<lambda>d. \<Sum>p < c. a p * V p ! d) [0..<w]"

definition attention_values :: "(nat \<Rightarrow> real) \<Rightarrow> nat \<Rightarrow> (nat \<Rightarrow> real list) \<Rightarrow> nat \<Rightarrow> real list" where
  "attention_values s m V w = weighted_values (softmax s m) V w m"

text \<open>A reader that finds the rows of a matrix: the first \<open>m\<close> of them, of \<open>w\<close> finite numbers.\<close>

definition reads_rows :: "(int \<Rightarrow> xreal list result) \<Rightarrow> (nat \<Rightarrow> real list) \<Rightarrow> nat \<Rightarrow> nat \<Rightarrow> bool" where
  "reads_rows rd K w m \<longleftrightarrow> (\<forall>p < m. rd (int p) = Inr (map Fin (K p)) \<and> length (K p) = w)"

lemma reads_rowsD:
  "reads_rows rd K w m \<Longrightarrow> p < m \<Longrightarrow> rd (int p) = Inr (map Fin (K p))"
  "reads_rows rd K w m \<Longrightarrow> p < m \<Longrightarrow> length (K p) = w"
  by (simp_all add: reads_rows_def)

text \<open>The exponentials relative to a maximum; keys beyond the first \<open>m\<close> are masked.\<close>

definition shifted_exp :: "(nat \<Rightarrow> real) \<Rightarrow> nat \<Rightarrow> real \<Rightarrow> nat \<Rightarrow> real" where
  "shifted_exp s m M p = (if p < m then exp (s p - M) else 0)"

definition shifted_sum :: "(nat \<Rightarrow> real) \<Rightarrow> nat \<Rightarrow> real \<Rightarrow> nat \<Rightarrow> real" where
  "shifted_sum s m M c = (\<Sum>p < c. shifted_exp s m M p)"

abbreviation shifted_values :: "(nat \<Rightarrow> real) \<Rightarrow> nat \<Rightarrow> (nat \<Rightarrow> real list) \<Rightarrow> nat \<Rightarrow> real \<Rightarrow> nat \<Rightarrow> real list" where
  "shifted_values s m V w M c \<equiv> weighted_values (shifted_exp s m M) V w c"

lemma shifted_exp_rebase: "shifted_exp s m M p * exp (M - M') = shifted_exp s m M' p"
  by (simp add: shifted_exp_def flip: exp_add)

lemma shifted_sum_rebase: "shifted_sum s m M c * exp (M - M') = shifted_sum s m M' c"
  by (simp add: shifted_sum_def sum_distrib_right shifted_exp_rebase)

lemma shifted_values_rebase:
  "map (\<lambda>x. x * exp (M - M')) (shifted_values s m V w M c) = shifted_values s m V w M' c"
proof -
  have "(\<Sum>p < c. shifted_exp s m M p * V p ! d) * exp (M - M') = (\<Sum>p < c. shifted_exp s m M' p * V p ! d)" for d
    unfolding sum_distrib_right
    by (intro sum.cong refl) (metis mult.assoc mult.commute shifted_exp_rebase)
  then show ?thesis by (simp add: weighted_values_def)
qed

lemma shifted_sum_masked: "m \<le> c \<Longrightarrow> shifted_sum s m M c = (\<Sum>p < m. exp (s p - M))"
  unfolding shifted_sum_def shifted_exp_def by (rule sum.mono_neutral_cong_right) auto

lemma shifted_values_masked:
  "m \<le> c \<Longrightarrow> shifted_values s m V w M c = map (\<lambda>d. \<Sum>p < m. exp (s p - M) * V p ! d) [0..<w]"
  unfolding weighted_values_def shifted_exp_def
  by (intro map_cong refl sum.mono_neutral_cong_right) auto

lemma shifted_sum_pos: "0 < m \<Longrightarrow> m \<le> c \<Longrightarrow> 0 < shifted_sum s m M c"
  by (subst shifted_sum_masked) (auto intro!: sum_pos)

text \<open>Dividing by the sum gives softmax attention, whatever the maximum was.\<close>

lemma shifted_values_normalized:
  assumes "m \<le> c"
  shows "map (\<lambda>x. x / shifted_sum s m M c) (shifted_values s m V w M c) = attention_values s m V w"
proof -
  have "exp (s p - M) / shifted_sum s m M c = softmax s m p" if "p < m" for p
    using softmax_shift [of s M m p] assms that by (simp add: softmax_def shifted_sum_masked)
  then have "(\<Sum>p < m. exp (s p - M) * V p ! d) / shifted_sum s m M c = (\<Sum>p < m. softmax s m p * V p ! d)" for d
    unfolding sum_divide_distrib by (intro sum.cong refl) (simp flip: times_divide_eq_left)
  then show ?thesis
    unfolding shifted_values_masked [OF assms] unfolding attention_values_def weighted_values_def by simp
qed

lemma length_attention_values [simp]: "length (attention_values s m V w) = w"
  by (simp add: attention_values_def weighted_values_def)

section \<open>One tile\<close>

definition masked_scores :: "(nat \<Rightarrow> real) \<Rightarrow> nat \<Rightarrow> nat \<Rightarrow> nat \<Rightarrow> xreal list" where
  "masked_scores s m kt c = map (\<lambda>p. if p < m then Fin (s p) else MInf) [kt..<kt + c]"

lemma score_step:
  assumes "qv = Inr (map Fin q)" and "reads_rows kr K (length q) m" and "p < m"
  shows "rbind (kr (int p)) (\<lambda>k. rbind qv (\<lambda>q.
      let s = f_mul x_ops (simd_dot x_ops lvl q k) (Fin scale) in Inr (ss @ [s], f_max x_ops mx s)))
    = Inr (ss @ [Fin (key_score scale q (K p))], f_max x_ops mx (Fin (key_score scale q (K p))))"
  using assms reads_rowsD [OF assms(2,3)] by (simp add: simd_dot_fin key_score_def Let_def)

lemma tile_scores_fin:
  assumes q: "qv = Inr (map Fin q)" and k: "reads_rows kr K (length q) m"
    and masked: "\<And>p. p < kt + c \<Longrightarrow> masked (int p) \<longleftrightarrow> m \<le> p" and "kt < m" and "0 < c"
  shows "\<exists>a. tile_scores x_ops lvl (Fin scale) qv kr masked (int kt) (int (kt + c))
    = Inr (masked_scores (\<lambda>p. key_score scale q (K p)) m kt c, Fin a)"
proof -
  let ?s = "\<lambda>p. key_score scale q (K p)"
  let ?P = "\<lambda>k (ss, mx). ss = masked_scores ?s m kt k \<and> (if k = 0 then mx = MInf else \<exists>a. mx = Fin a)"
  let ?body = "\<lambda>ki (ss, mx). if masked ki then Inr (ss @ [f_neg_inf x_ops], mx)
     else rbind (kr ki) (\<lambda>k. rbind qv (\<lambda>q.
       let s = f_mul x_ops (simd_dot x_ops lvl q k) (Fin scale) in Inr (ss @ [s], f_max x_ops mx s)))"
  have step: "\<exists>st'. ?body (int kt + int k) st = Inr st' \<and> ?P (Suc k) st'" if "k < c" "?P k st" for k st
  proof -
    obtain ss mx where st: "st = (ss, mx)" by fastforce
    have mk: "masked (int kt + int k) \<longleftrightarrow> m \<le> kt + k" using masked [of "kt + k"] that(1) by simp
    show ?thesis
    proof (cases "m \<le> kt + k")
      case True
      with \<open>kt < m\<close> have "k \<noteq> 0" by auto
      with True mk that(2) show ?thesis by (simp add: st masked_scores_def)
    next
      case False
      then have "kt + k < m" by simp
      with mk that(2) score_step [OF q k this, of lvl scale ss mx] show ?thesis
        by (auto simp: st masked_scores_def split: if_splits)
    qed
  qed
  have "\<exists>st'. for_range ?body (int kt) c ([], MInf) = Inr st' \<and> ?P c st'"
    using step by (intro for_range_invariant) (auto simp: masked_scores_def)
  with \<open>0 < c\<close> show ?thesis by (auto simp: tile_scores_def)
qed

text \<open>The exponentials of a tile, and what the loop over its values adds to the row.\<close>

lemma exp_masked_scores:
  "exp_scores x_ops (masked_scores s m kt c) (Fin M) = map (\<lambda>p. Fin (shifted_exp s m M p)) [kt..<kt + c]"
  by (simp add: exp_scores_def masked_scores_def shifted_exp_def)

lemma sum_floats_fin: "sum_floats x_ops (map Fin xs) = Fin (sum_list xs)"
  using foldl_fin [where xs = "map Fin xs" and f = x_add and g = "\<lambda>x. case x of Fin a \<Rightarrow> a" and a = 0]
  by (force simp: sum_floats_def comp_def)

lemma scale_row_fin: "scale_row x_ops lvl (Fin a) (map Fin row) = map Fin (map (\<lambda>x. x * a) row)"
  by (simp add: scale_row_def simd_map_same)

lemma axpy_fin:
  assumes "\<And>o' x. fv (o', x) = x_add o' (x_mul (Fin a) x)" and "\<And>o' x. fs (o', x) = x_add o' (x_mul (Fin a) x)"
    and "length row = length v"
  shows "simd_map lvl (map fv) fs (zip (map Fin row) (map Fin v)) = map Fin (map2 (\<lambda>r x. r + a * x) row v)"
proof -
  have "fv = fs" using assms(1,2) by (intro ext) (metis surj_pair)
  then have "simd_map lvl (map fv) fs (zip (map Fin row) (map Fin v)) = map fs (zip (map Fin row) (map Fin v))"
    by (simp add: simd_map_same)
  with assms(2,3) show ?thesis by (intro nth_equalityI) auto
qed

lemma weighted_values_Suc:
  assumes "length (V c) = w"
  shows "map2 (\<lambda>r x. r + a c * x) (weighted_values a V w c) (V c) = weighted_values a V w (Suc c)"
  using assms by (intro nth_equalityI) (auto simp: weighted_values_def)

lemma length_weighted_values [simp]: "length (weighted_values a V w c) = w"
  by (simp add: weighted_values_def)

lemma tile_values_fin:
  assumes v: "reads_rows vr V w m"
  shows "tile_values x_ops lvl vr (map (\<lambda>p. Fin (shifted_exp s m M p)) [kt..<kt + c]) (int kt) (int (kt + c))
      (map Fin (shifted_values s m V w M kt))
    = Inr (map Fin (shifted_values s m V w M (kt + c)))"
proof -
  let ?es = "map (\<lambda>p. Fin (shifted_exp s m M p)) [kt..<kt + c]"
  let ?row = "\<lambda>k. map Fin (shifted_values s m V w M (kt + k))"
  let ?body = "\<lambda>ki row. let w = ?es ! nat (ki - int kt) in if f_eq x_ops w (f_zero x_ops) then Inr row
     else rbind (vr ki) (\<lambda>v. Inr (simd_map lvl (map (\<lambda>(o', x). vf_fmadd x_ops lvl w x o'))
            (\<lambda>(o', x). f_add x_ops o' (f_mul x_ops w x)) (zip row v)))"
  have "?body (int kt + int k) (?row k) = Inr (?row (Suc k))" if "k < c" for k
  proof (cases "kt + k < m")
    case True
    let ?e = "shifted_exp s m M (kt + k)"
    have "?e \<noteq> 0" using True by (simp add: shifted_exp_def)
    moreover have "vr (int kt + int k) = Inr (map Fin (V (kt + k)))" "length (V (kt + k)) = w"
      using reads_rowsD [OF v True] by simp_all
    moreover have "simd_map lvl (map (\<lambda>(o', x). vf_fmadd x_ops lvl (Fin ?e) x o'))
          (\<lambda>(o', x). f_add x_ops o' (f_mul x_ops (Fin ?e) x)) (zip (?row k) (map Fin (V (kt + k))))
        = map Fin (shifted_values s m V w M (Suc (kt + k)))"
      using calculation(3) arg_cong [OF weighted_values_Suc [of V "kt + k" w "shifted_exp s m M"], of "map Fin"]
      by (subst axpy_fin) (simp_all add: x_add_comm)
    ultimately show ?thesis using that by (simp add: Let_def del: x_ops_simps(4) vf_fmadd_x)
  next
    case False
    then have "?row (Suc k) = ?row k" by (simp add: weighted_values_def shifted_exp_def)
    with False that show ?thesis by (simp add: Let_def shifted_exp_def)
  qed
  from for_range_states [where g = ?row and i = "int kt" and body = ?body and n = c, OF this]
  show ?thesis by (simp add: tile_values_def)
qed

text \<open>
  What the running state denotes after the keys below \<open>c\<close>: sums relative to the maximum, which is still
  \<open>-inf\<close> only before the first tile.
\<close>

definition flash_at ::
  "(nat \<Rightarrow> real) \<Rightarrow> nat \<Rightarrow> (nat \<Rightarrow> real list) \<Rightarrow> nat \<Rightarrow> nat \<Rightarrow> xreal flash_state \<Rightarrow> bool"
where
  "flash_at s m V w c = (\<lambda>(mx, l, row). \<exists>M. l = Fin (shifted_sum s m M c) \<and> row = map Fin (shifted_values s m V w M c)
     \<and> (mx = Fin M \<or> mx = MInf \<and> c = 0))"

lemma shifted_sum_add:
  "shifted_sum s m M c + sum_list (map (shifted_exp s m M) [c..<c + k]) = shifted_sum s m M (c + k)"
  by (induction k) (auto simp: shifted_sum_def)

lemma flash_tile_fin:
  assumes q: "qv = Inr (map Fin q)" and k: "reads_rows kr K (length q) m" and v: "reads_rows vr V w m"
    and masked: "\<And>p. p < kt + c \<Longrightarrow> masked (int p) \<longleftrightarrow> m \<le> p" and "kt < m" and "0 < c"
    and st: "flash_at (\<lambda>p. key_score scale q (K p)) m V w kt st"
  shows "\<exists>st'. flash_tile x_ops lvl (Fin scale) qv kr vr masked (int kt) (int (kt + c)) st = Inr st'
    \<and> flash_at (\<lambda>p. key_score scale q (K p)) m V w (kt + c) st'"
proof -
  let ?s = "\<lambda>p. key_score scale q (K p)"
  obtain mx l row where st_eq: "st = (mx, l, row)" by (metis prod_cases3)
  with st obtain M where M: "l = Fin (shifted_sum ?s m M kt)" "row = map Fin (shifted_values ?s m V w M kt)"
    "mx = Fin M \<or> mx = MInf \<and> kt = 0" by (auto simp: flash_at_def)
  obtain a where scores: "tile_scores x_ops lvl (Fin scale) qv kr masked (int kt) (int (kt + c))
      = Inr (masked_scores ?s m kt c, Fin a)"
    using tile_scores_fin [OF q k masked \<open>kt < m\<close> \<open>0 < c\<close>] by blast
  obtain M' alpha where new: "f_max x_ops mx (Fin a) = Fin M'"
      "(if f_eq x_ops mx (f_neg_inf x_ops) then f_one x_ops else f_exp x_ops (f_sub x_ops mx (Fin M'))) = Fin alpha"
    and rebase: "shifted_sum ?s m M kt * alpha = shifted_sum ?s m M' kt"
      "map (\<lambda>x. x * alpha) (shifted_values ?s m V w M kt) = shifted_values ?s m V w M' kt"
  proof (cases "mx = MInf")
    case True
    with M(3) have "shifted_sum ?s m M kt * 1 = shifted_sum ?s m a kt"
      "map (\<lambda>x. x * 1) (shifted_values ?s m V w M kt) = shifted_values ?s m V w a kt"
      by (auto simp: shifted_sum_def weighted_values_def)
    with True that [of a 1] show ?thesis by simp
  next
    case False
    with M(3) have "mx = Fin M" by simp
    with that [of "max M a" "exp (M - max M a)"] shifted_sum_rebase shifted_values_rebase show ?thesis by simp
  qed
  have "sum_floats x_ops (map (\<lambda>p. Fin (shifted_exp ?s m M' p)) [kt..<kt + c])
      = Fin (sum_list (map (shifted_exp ?s m M') [kt..<kt + c]))"
    using sum_floats_fin [of "map (shifted_exp ?s m M') [kt..<kt + c]"] by (simp add: comp_def)
  then have "flash_tile x_ops lvl (Fin scale) qv kr vr masked (int kt) (int (kt + c)) st
      = Inr (Fin M', Fin (shifted_sum ?s m M' (kt + c)), map Fin (shifted_values ?s m V w M' (kt + c)))"
    using shifted_sum_add [of ?s m M' kt c]
    by (simp only: flash_tile_def st_eq prod.case scores rbind_simps Let_def new exp_masked_scores M(1,2)
        scale_row_fin rebase(2) tile_values_fin [OF v]) (simp add: rebase)
  then show ?thesis by (auto simp: flash_at_def simp del: of_nat_add)
qed

section \<open>All tiles\<close>

lemma flash_tiles_fin:
  assumes q: "qv = Inr (map Fin q)" and k: "reads_rows kr K (length q) m" and v: "reads_rows vr V w m"
    and masked: "\<And>p. p < n \<Longrightarrow> masked (int p) \<longleftrightarrow> m \<le> p" and skip: "\<And>p. p < n \<Longrightarrow> skip (int p) \<longleftrightarrow> m \<le> p"
    and "m \<le> n" and fits: "int32_ok (int n + 31)"
    and "flash_at (\<lambda>p. key_score scale q (K p)) m V w c st" and "c \<le> n"
  shows "\<exists>c' st'. flash_tiles x_ops lvl (Fin scale) qv kr vr masked skip (int n) (int c) st = Inr st'
    \<and> flash_at (\<lambda>p. key_score scale q (K p)) m V w c' st' \<and> m \<le> c'"
  using assms(8,9)
proof (induction "n - c" arbitrary: c st rule: less_induct)
  case less
  let ?tiles = "flash_tiles x_ops lvl (Fin scale) qv kr vr masked skip (int n)"
  show ?case
  proof (cases "c < n")
    case False
    with less.prems \<open>m \<le> n\<close> show ?thesis by (subst flash_tiles.simps) auto
  next
    case True
    have next_tile: "cint32 (int c + 32) = Inr (int c + 32)"
      using True fits by (intro cint32_ok) (simp add: int32_ok_def)
    show ?thesis
    proof (cases "c < m")
      case False
      then have "skip (int c)" using skip True by simp
      then have "?tiles (int c) st = Inr st"
        using True by (subst flash_tiles.simps) (simp add: next_tile del: cint32_Inr_iff)
      with False less.prems show ?thesis by (metis not_less)
    next
      case c: True
      let ?k = "min 32 (n - c)"
      have k': "min (int c + 32) (int n) = int (c + ?k)" using True by linarith
      obtain st1 where st1: "flash_tile x_ops lvl (Fin scale) qv kr vr masked (int c) (int (c + ?k)) st = Inr st1"
        "flash_at (\<lambda>p. key_score scale q (K p)) m V w (c + ?k) st1"
        using flash_tile_fin [OF q k v, where kt = c and c = ?k and masked = masked and st = st and lvl = lvl and scale = scale] masked True c less.prems(1) by fastforce
      have step: "?tiles (int c) st = ?tiles (int c + 32) st1"
        using True skip c st1(1) by (subst flash_tiles.simps) (simp add: next_tile k' del: of_nat_add cint32_Inr_iff)
      show ?thesis
      proof (cases "c + 32 \<le> n")
        case True
        then have "?k = 32" by simp
        with st1(2) less.hyps [of "c + 32" st1] True step show ?thesis by (simp add: add.commute)
      next
        case False
        then have "?tiles (int c + 32) st1 = Inr st1" by (subst flash_tiles.simps) simp
        moreover have "c + ?k = n" using False \<open>c < n\<close> by simp
        ultimately show ?thesis using st1(2) step \<open>m \<le> n\<close> by auto
      qed
    qed
  qed
qed

text \<open>One query: the row that flash attention computes is softmax attention over the keys it may see.\<close>

lemma flash_row_fin:
  assumes "qv = Inr (map Fin q)" and "reads_rows kr K (length q) m" and "reads_rows vr V w m"
    and "\<And>p. p < n \<Longrightarrow> masked (int p) \<longleftrightarrow> m \<le> p" and "\<And>p. p < n \<Longrightarrow> skip (int p) \<longleftrightarrow> m \<le> p"
    and "m \<le> n" and "int32_ok (int n + 31)" and "w = nat hdim"
  shows "flash_row x_ops lvl (Fin scale) qv kr vr masked skip (int n) hdim
    = Inr (map Fin (attention_values (\<lambda>p. key_score scale q (K p)) m V w))"
proof -
  let ?s = "\<lambda>p. key_score scale q (K p)"
  have "flash_at ?s m V w 0 (MInf, Fin 0, replicate w (Fin 0))"
    by (simp add: flash_at_def shifted_sum_def weighted_values_def map_replicate_const)
  then have "\<exists>c st. flash_tiles x_ops lvl (Fin scale) qv kr vr masked skip (int n) (int 0)
      (MInf, Fin 0, replicate w (Fin 0)) = Inr st \<and> flash_at ?s m V w c st \<and> m \<le> c"
    using assms by (intro flash_tiles_fin) auto
  then obtain c mx l row where run: "flash_tiles x_ops lvl (Fin scale) qv kr vr masked skip (int n) 0
      (MInf, Fin 0, replicate w (Fin 0)) = Inr (mx, l, row)" "flash_at ?s m V w c (mx, l, row)" "m \<le> c"
    by auto
  then obtain M where M: "l = Fin (shifted_sum ?s m M c)" "row = map Fin (shifted_values ?s m V w M c)"
    by (auto simp: flash_at_def)
  show ?thesis
  proof (cases "m = 0")
    case True
    then have "shifted_sum ?s m M c = 0" "shifted_values ?s m V w M c = attention_values ?s m V w"
      by (simp_all add: shifted_sum_def weighted_values_def shifted_exp_def attention_values_def)
    with run(1) M \<open>w = nat hdim\<close> show ?thesis by (simp add: flash_row_def)
  next
    case False
    then have pos: "0 < shifted_sum ?s m M c" using run(3) by (simp add: shifted_sum_pos)
    have "map (\<lambda>x. x * (1 / shifted_sum ?s m M c)) (shifted_values ?s m V w M c) = attention_values ?s m V w"
      using shifted_values_normalized [OF run(3), of ?s M V w] by simp
    with run(1) M pos \<open>w = nat hdim\<close> show ?thesis
      by (simp add: flash_row_def scale_row_fin del: map_map)
  qed
qed

end
