(* ===== verification/Attention_Equivalence.thy ===== *)
theory Attention_Equivalence
  imports Flash_Attention
begin

text \<open>
  The four attention kernels on whole arrays, in exact arithmetic: each leaves the softmax attention of
  every head and query in the output, so that \<open>flash_sdpa\<close> and \<open>sdpa\<close>, and \<open>flash_sdpa_decode\<close> and
  \<open>sdpa_decode\<close>, can stand for each other.
\<close>

section \<open>Offsets\<close>

lemma cint32_nat: "int32_ok (int N) \<Longrightarrow> a \<le> N \<Longrightarrow> cint32 (int a) = Inr (int a)"
  by (rule cint32_ok) (simp add: int32_ok_def)

lemma int32_nat_less: "int32_ok (int a) \<Longrightarrow> a < 2 ^ 31"
  by (simp add: int32_ok_def)

lemma cint32_prod: "int32_ok (int N) \<Longrightarrow> a * b \<le> N \<Longrightarrow> cint32 (int a * int b) = Inr (int (a * b))"
  using cint32_nat [of N "a * b"] by simp

lemma row_offset_nat: "int32_ok (int N) \<Longrightarrow> r * w \<le> N \<Longrightarrow> row_offset (int r) (int w) = Inr (int (r * w))"
  by (simp add: row_offset_def cint32_prod del: of_nat_mult cint32_Inr_iff)

lemma row_offset_fits: "int32_ok (int N) \<Longrightarrow> r * w + w \<le> N \<Longrightarrow> row_offset (int r) (int w) = Inr (int (r * w))"
  by (rule row_offset_nat, assumption, erule add_leD1)

lemma elem_offset_nat:
  assumes "int32_ok (int N)" and "r * w + w \<le> N"
  shows "elem_offset (int r) (int w) = Inr (int (r * w))"
proof -
  have "cint32 (int (r * w) + (int w - 1)) = Inr (int (r * w) + (int w - 1))"
    using assms by (intro cint32_ok) (simp add: int32_ok_def flip: of_nat_mult of_nat_add)
  moreover have "r * w \<le> N" using assms(2) by simp
  ultimately show ?thesis using assms(1) by (simp add: elem_offset_def cint32_prod del: of_nat_mult cint32_Inr_iff)
qed

lemma tail_offset_nat:
  "int32_ok (int N) \<Longrightarrow> r * w + w \<le> N \<Longrightarrow> tail_offset lvl (int r) (int w) = Inr (int (r * w))"
  by (simp add: tail_offset_def elem_offset_nat row_offset_nat)

lemma row_at_map: "row_at w r (map f xs) = map f (row_at w r xs)"
  by (simp add: row_at_def take_map drop_map)

lemma read_row:
  "r * w + w \<le> length xs \<Longrightarrow> read_at (map Fin xs) (int (r * w)) (int w) = Inr (map Fin (row_at w r xs))"
  by (simp add: read_at_def read_floats_def row_at_map [symmetric] del: of_nat_mult) (simp add: row_at_def)

section \<open>One row of scores\<close>

lemma length_masked_scores [simp]: "length (masked_scores s m kt c) = c"
  by (simp add: masked_scores_def)

text \<open>The weights: dividing by the sum, or multiplying by its inverse.\<close>

lemma softmax_shifted: "m \<le> c \<Longrightarrow> shifted_exp s m M p / shifted_sum s m M c = (if p < m then softmax s m p else 0)"
  using softmax_shift [of s M m p] by (simp add: shifted_exp_def shifted_sum_masked softmax_def)

lemma softmax_row_fin:
  assumes "m \<le> n" and "0 < n \<longrightarrow> 0 < m"
  shows "softmax_row x_ops lvl (int n) (masked_scores s m 0 n)
    = map (\<lambda>p. Fin (if p < m then softmax s m p else 0)) [0..<n]"
proof -
  let ?row = "masked_scores s m 0 n"
  obtain M where M: "simd_max x_ops lvl ?row = Fin M"
    using simd_max_fin [of ?row lvl] by (auto simp: masked_scores_def fin_or_masked_def)
  have "simd_map lvl (\<lambda>xs. v_exp x_ops (map (\<lambda>x. f_sub x_ops x (Fin M)) xs)) (\<lambda>x. f_exp x_ops (f_sub x_ops x (Fin M))) ?row
      = exp_scores x_ops ?row (Fin M)"
    using simd_map_same [of lvl "\<lambda>x. f_exp x_ops (f_sub x_ops x (Fin M))" ?row]
    by (simp add: v_exp_def exp_scores_def comp_def)
  then have es: "simd_map lvl (\<lambda>xs. v_exp x_ops (map (\<lambda>x. f_sub x_ops x (Fin M)) xs)) (\<lambda>x. f_exp x_ops (f_sub x_ops x (Fin M))) ?row
      = map (\<lambda>p. Fin (shifted_exp s m M p)) [0..<n]"
    using exp_masked_scores [of s m 0 n M] by simp
  have sum: "simd_sum x_ops lvl (map (\<lambda>p. Fin (shifted_exp s m M p)) [0..<n]) = Fin (shifted_sum s m M n)"
    using shifted_sum_add [of s m M 0 n] simd_sum_fin [of lvl "map (shifted_exp s m M) [0..<n]"]
    by (simp add: shifted_sum_def comp_def)
  show ?thesis
  proof (cases "n = 0")
    case True
    with M show ?thesis by (simp add: softmax_row_def masked_scores_def Let_def simd_map.simps)
  next
    case False
    then have pos: "0 < shifted_sum s m M n" using assms by (intro shifted_sum_pos) auto
    have "simd_map lvl (map (\<lambda>x. x_mul x (Fin (1 / Z)))) (\<lambda>x. x_div x (Fin Z)) (map Fin xs) = map (\<lambda>x. Fin (x / Z)) xs"
      if "Z \<noteq> 0" for Z xs
      using that by (simp add: simd_map_lanes take_map drop_map comp_def flip: map_append)
    from this [of "shifted_sum s m M n" "map (shifted_exp s m M) [0..<n]"]
    have "simd_map lvl (map (\<lambda>x. x_mul x (Fin (1 / shifted_sum s m M n)))) (\<lambda>x. x_div x (Fin (shifted_sum s m M n)))
        (map (\<lambda>p. Fin (shifted_exp s m M p)) [0..<n]) = map (\<lambda>p. Fin (if p < m then softmax s m p else 0)) [0..<n]"
      using pos softmax_shifted [OF assms(1), of s M] by (simp add: comp_def cong: if_cong)
    with pos show ?thesis
      by (simp only: softmax_row_def M es sum Let_def) simp
  qed
qed

text \<open>The same weights as \<open>sdpa_decode\<close> computes them, where no key is masked.\<close>

lemma decode_scores_fin:
  assumes "qv = Inr (map Fin q)" and "reads_rows kr K (length q) n"
  shows "\<exists>a. decode_scores x_ops lvl (Fin scale) qv kr (int n)
    = Inr (masked_scores (\<lambda>p. key_score scale q (K p)) n 0 n, Fin a)"
proof -
  let ?P = "\<lambda>k (ss, mx). k \<le> n \<longrightarrow> ss = masked_scores (\<lambda>p. key_score scale q (K p)) n 0 k \<and> (\<exists>a. mx = Fin a)"
  let ?body = "\<lambda>ki (ss, mx). rbind (kr ki) (\<lambda>k. rbind qv (\<lambda>q.
       let s = f_mul x_ops (simd_dot x_ops lvl q k) (Fin scale) in Inr (ss @ [s], f_max x_ops mx s)))"
  have step: "\<exists>st'. ?body (0 + int k) st = Inr st' \<and> ?P (Suc k) st'" if "k < n" "?P k st" for k st
  proof -
    obtain ss mx where "st = (ss, mx)" by fastforce
    with that score_step [OF assms that(1), of lvl scale ss mx] show ?thesis
      by (auto simp: masked_scores_def)
  qed
  have "\<exists>st'. for_range ?body 0 n ([], f_lowest x_ops) = Inr st' \<and> ?P n st'"
    using step by (intro for_range_invariant) (auto simp: masked_scores_def)
  then show ?thesis by (auto simp: decode_scores_def)
qed

lemma normalize_weights_fin:
  "normalize_weights x_ops (int n) (exp_scores x_ops (masked_scores s n 0 n) (Fin M))
    = map (\<lambda>p. Fin (softmax s n p)) [0..<n]"
proof (cases "n = 0")
  case True
  then show ?thesis by (simp add: normalize_weights_def exp_scores_def masked_scores_def Let_def)
next
  case False
  have sum: "sum_floats x_ops (map (\<lambda>p. Fin (shifted_exp s n M p)) [0..<n]) = Fin (shifted_sum s n M n)"
    using shifted_sum_add [of s n M 0 n] sum_floats_fin [of "map (shifted_exp s n M) [0..<n]"]
    by (simp add: shifted_sum_def comp_def)
  have pos: "0 < shifted_sum s n M n" using False by (intro shifted_sum_pos) auto
  then have "\<not> x_le (Fin (shifted_sum s n M n)) (Fin 0)" "x_div (Fin 1) (Fin (shifted_sum s n M n)) = Fin (1 / shifted_sum s n M n)"
    by simp_all
  with sum show ?thesis
    unfolding exp_masked_scores add_0 normalize_weights_def Let_def
    using softmax_shifted [of n n s M] by simp
qed

section \<open>Attention of one query in the plain kernels\<close>

lemma weighted_row_fin:
  assumes "\<And>p. p < n \<Longrightarrow> length (V p) = w" and "m \<le> n"
  shows "weighted_row x_ops w (map (\<lambda>p. Fin (if p < m then softmax s m p else 0)) [0..<n]) (map (\<lambda>p. map Fin (V p)) [0..<n])
    = map Fin (attention_values s m V w)"
proof -
  have "foldl (\<lambda>acc (p, v). x_add acc (x_mul p (v ! d))) (Fin 0)
      (zip (map (\<lambda>p. Fin (a p)) [0..<n]) (map (\<lambda>p. map Fin (V p)) [0..<n])) = Fin (\<Sum>p < n. a p * V p ! d)"
    if "d < w" for a d
    using assms(1) that by (induction n) auto
  from this [where a = "\<lambda>p. if p < m then softmax s m p else 0"]
  have "foldl (\<lambda>acc (p, v). x_add acc (x_mul p (v ! d))) (Fin 0)
      (zip (map (\<lambda>p. Fin (if p < m then softmax s m p else 0)) [0..<n]) (map (\<lambda>p. map Fin (V p)) [0..<n]))
      = Fin (\<Sum>p < m. softmax s m p * V p ! d)" if "d < w" for d
    using that assms(2) sum.mono_neutral_cong_right [of "{..<n}" "{..<m}"
        "\<lambda>p. (if p < m then softmax s m p else 0) * V p ! d" "\<lambda>p. softmax s m p * V p ! d"]
    by (auto simp: subset_eq)
  then show ?thesis by (simp add: weighted_row_def attention_values_def weighted_values_def)
qed

lemma decode_values_fin:
  assumes "reads_rows vr V w n"
  shows "for_range (\<lambda>ki row. rbind (vr ki) (\<lambda>v.
       let a = map (\<lambda>p. Fin (softmax s n p)) [0..<n] ! nat ki in
       Inr (simd_map lvl (map (\<lambda>(o', x). f_add x_ops o' (f_mul x_ops a x))) (\<lambda>(o', x). f_add x_ops o' (f_mul x_ops a x))
         (zip row v)))) 0 n (replicate w (Fin 0))
    = Inr (map Fin (attention_values s n V w))"
    (is "for_range ?body _ _ _ = _")
proof -
  let ?row = "\<lambda>k. map Fin (weighted_values (softmax s n) V w k)"
  have "?body (0 + int k) (?row k) = Inr (?row (Suc k))" if "k < n" for k
  proof -
    have "simd_map lvl (map (\<lambda>(o', x). f_add x_ops o' (f_mul x_ops (Fin (softmax s n k)) x)))
        (\<lambda>(o', x). f_add x_ops o' (f_mul x_ops (Fin (softmax s n k)) x)) (zip (?row k) (map Fin (V k)))
        = ?row (Suc k)"
      using reads_rowsD(2) [OF assms that] arg_cong [OF weighted_values_Suc [of V k w "softmax s n"], of "map Fin"]
      by (subst axpy_fin) simp_all
    with that reads_rowsD(1) [OF assms that] show ?thesis by (simp add: Let_def)
  qed
  from for_range_states [where g = ?row and body = ?body and i = 0 and n = n, OF this]
  show ?thesis by (simp add: weighted_values_def attention_values_def map_replicate_const)
qed

section \<open>Prefill\<close>

text \<open>
  Row \<open>r\<close> of the output belongs to query \<open>r mod q_len\<close> of head \<open>r div q_len\<close>; causal queries see the keys up to
  their own position.
\<close>

definition visible :: "bool \<Rightarrow> nat \<Rightarrow> nat \<Rightarrow> nat" where
  "visible causal qi n = (if causal then min (Suc qi) n else n)"

definition prefill_row ::
  "real list \<Rightarrow> real list \<Rightarrow> real list \<Rightarrow> nat \<Rightarrow> nat \<Rightarrow> nat \<Rightarrow> bool \<Rightarrow> nat \<Rightarrow> real list"
where
  "prefill_row Q K V q_len n w causal r =
     attention_values (\<lambda>p. key_score (1 / sqrt (real w)) (row_at w r Q) (row_at w (r div q_len * n + p) K))
       (visible causal (r mod q_len) n) (\<lambda>p. row_at w (r div q_len * n + p) V) w"

text \<open>Sizes for which no index of the kernels leaves \<open>int\<close>, and arrays of these sizes.\<close>

definition prefill_sizes :: "nat \<Rightarrow> nat \<Rightarrow> nat \<Rightarrow> nat \<Rightarrow> bool" where
  "prefill_sizes heads q_len n w \<longleftrightarrow> 0 < heads \<and> 0 < w \<and> int32_ok (int (heads * q_len * w))
     \<and> int32_ok (int (heads * n * w)) \<and> int32_ok (int (q_len * n)) \<and> int32_ok (int n + 31)"

definition prefill_arrays :: "nat \<Rightarrow> nat \<Rightarrow> nat \<Rightarrow> nat \<Rightarrow> 'a list \<Rightarrow> 'a list \<Rightarrow> 'a list \<Rightarrow> 'b list \<Rightarrow> bool" where
  "prefill_arrays heads q_len n w Q K V out \<longleftrightarrow> heads * q_len * w \<le> length Q \<and> heads * n * w \<le> length K
     \<and> heads * n * w \<le> length V \<and> heads * q_len * w \<le> length out"

lemma nested_index: "h < heads \<Longrightarrow> k < n \<Longrightarrow> h * n + k < heads * (n :: nat)"
  using row_fits [of h heads n] by simp

lemma row_start_le: "r < a \<Longrightarrow> r * w \<le> a * (w :: nat)"
  by simp

lemma length_prefill_row [simp]: "length (prefill_row Q K V q_len n w causal r) = w"
  by (simp add: prefill_row_def)

lemma prefill_scale: "0 < w \<Longrightarrow> f_div x_ops (f_one x_ops) (f_sqrt x_ops (f_of_int x_ops (int w))) = Fin (1 / sqrt (real w))"
  by simp

text \<open>What the sizes give: offsets that do not overflow, and rows inside of the arrays.\<close>

lemma prefill_per_head:
  assumes "prefill_sizes heads q_len n w"
  shows "cint32 (int q_len * int w) = Inr (int (q_len * w))" and "cint32 (int n * int w) = Inr (int (n * w))"
    and "h < heads \<Longrightarrow> cint32 (int h * int (q_len * w)) = Inr (int (h * (q_len * w)))"
    and "h < heads \<Longrightarrow> cint32 (int h * int (n * w)) = Inr (int (h * (n * w)))"
proof -
  have ok: "int32_ok (int (heads * q_len * w))" "int32_ok (int (heads * n * w))" and "0 < heads"
    using assms by (simp_all add: prefill_sizes_def)
  then show "cint32 (int q_len * int w) = Inr (int (q_len * w))" "cint32 (int n * int w) = Inr (int (n * w))"
    by (intro cint32_prod [OF ok(1)] cint32_prod [OF ok(2)]; simp)+
  show "h < heads \<Longrightarrow> cint32 (int h * int (q_len * w)) = Inr (int (h * (q_len * w)))"
    "h < heads \<Longrightarrow> cint32 (int h * int (n * w)) = Inr (int (h * (n * w)))"
    by (intro cint32_prod [OF ok(1)] cint32_prod [OF ok(2)]; simp add: mult.assoc)+
qed

lemma prefill_rows:
  assumes "heads * n * w \<le> length M" and h: "h < heads"
    and offset: "\<And>p. p < n \<Longrightarrow> offset (int p) (int w) = Inr (int (p * w))"
  shows "reads_rows (\<lambda>ki. rbind (offset ki (int w)) (\<lambda>r. read_at (map Fin M) (int (h * (n * w)) + r) (int w)))
    (\<lambda>p. row_at w (h * n + p) M) w n"
  unfolding reads_rows_def
proof (intro allI impI)
  fix p assume p: "p < n"
  have fits: "(h * n + p) * w + w \<le> heads * n * w" by (rule row_fits [OF nested_index [OF h p]])
  have "int (h * (n * w)) + int (p * w) = int ((h * n + p) * w)" by (simp add: algebra_simps)
  with fits assms(1) show "rbind (offset (int p) (int w)) (\<lambda>r. read_at (map Fin M) (int (h * (n * w)) + r) (int w))
        = Inr (map Fin (row_at w (h * n + p) M)) \<and> length (row_at w (h * n + p) M) = w"
    using read_row [of "h * n + p" w M] by (simp add: offset [OF p] del: of_nat_mult)
qed

lemma prefill_query:
  assumes "prefill_sizes heads q_len n w" and "prefill_arrays heads q_len n w Q K V out" and "h < heads" and "k < q_len"
  shows "int (h * (q_len * w)) + int (k * w) = int ((h * q_len + k) * w)"
    and "(h * q_len + k) * w + w \<le> heads * q_len * w" and "k * w + w \<le> heads * q_len * w"
    and "read_at (map Fin Q) (int ((h * q_len + k) * w)) (int w) = Inr (map Fin (row_at w (h * q_len + k) Q))"
    and "length (row_at w (h * q_len + k) Q) = w"
    and "(h * q_len + k) div q_len = h" and "(h * q_len + k) mod q_len = k"
proof -
  show fits: "(h * q_len + k) * w + w \<le> heads * q_len * w"
    by (rule row_fits [OF nested_index [OF assms(3,4)]])
  then show "k * w + w \<le> heads * q_len * w" by (simp add: algebra_simps)
  show "read_at (map Fin Q) (int ((h * q_len + k) * w)) (int w) = Inr (map Fin (row_at w (h * q_len + k) Q))"
    "length (row_at w (h * q_len + k) Q) = w"
    using fits assms(2) read_row [of "h * q_len + k" w Q] by (simp_all add: prefill_arrays_def del: of_nat_mult)
qed (use assms in \<open>simp_all add: algebra_simps\<close>)

lemma reads_rows_mono: "reads_rows rd M w n \<Longrightarrow> m \<le> n \<Longrightarrow> reads_rows rd M w m"
  by (simp add: reads_rows_def)

lemma visible_bounds: "visible causal k n \<le> n" "0 < n \<Longrightarrow> 0 < visible causal k n"
  "p < n \<Longrightarrow> (causal \<and> k < p) \<longleftrightarrow> visible causal k n \<le> p"
  by (auto simp: visible_def)

lemma flash_query_run:
  assumes sizes: "prefill_sizes heads q_len n w" and arrays: "prefill_arrays heads q_len n w Q K V out"
    and h: "h < heads" and k: "k < q_len" and R: "R = (\<lambda>r. map Fin (prefill_row Q K V q_len n w causal r))"
  shows "flash_query x_ops lvl (Fin (1 / sqrt (real w))) (map Fin Q) (map Fin K) (map Fin V)
      (int (h * (q_len * w))) (int (h * (n * w))) (int n) (int w) causal (int k) (filled R (h * q_len + k) w out)
    = Inr (filled R (Suc (h * q_len + k)) w out)"
proof -
  let ?r = "h * q_len + k" and ?m = "visible causal k n"
  note query = prefill_query [OF sizes arrays h k]
  have okq: "int32_ok (int (heads * q_len * w))" and okk: "int32_ok (int (heads * n * w))"
    and okn: "int32_ok (int n + 31)" using sizes by (simp_all add: prefill_sizes_def)
  have "p * w \<le> heads * n * w" if "p < n" for p
    using row_fits [OF nested_index [OF h that], of w] mult_le_mono1 [of p "h * n + p" w] by linarith
  then have offset: "p < n \<Longrightarrow> row_offset (int p) (int w) = Inr (int (p * w))" for p
    by (rule row_offset_nat [OF okk])
  have rows: "reads_rows (\<lambda>ki. rbind (row_offset ki (int w)) (\<lambda>r. read_at (map Fin M) (int (h * (n * w)) + r) (int w)))
      (\<lambda>p. row_at w (h * n + p) M) w ?m" if "heads * n * w \<le> length M" for M
    by (rule reads_rows_mono [OF prefill_rows [where offset = row_offset, OF that h] visible_bounds(1)]) (rule offset)
  have Rr: "R ?r = map Fin (attention_values (\<lambda>p. key_score (1 / sqrt (real w)) (row_at w ?r Q) (row_at w (h * n + p) K)) ?m
      (\<lambda>p. row_at w (h * n + p) V) w)"
    unfolding R prefill_row_def query(6,7) by (rule refl)
  have "flash_row x_ops lvl (Fin (1 / sqrt (real w))) (Inr (map Fin (row_at w ?r Q)))
      (\<lambda>ki. rbind (row_offset ki (int w)) (\<lambda>r. read_at (map Fin K) (int (h * (n * w)) + r) (int w)))
      (\<lambda>ki. rbind (row_offset ki (int w)) (\<lambda>r. read_at (map Fin V) (int (h * (n * w)) + r) (int w)))
      (\<lambda>ki. causal \<and> int k < ki) (\<lambda>kt. causal \<and> int k < kt) (int n) (int w)
    = Inr (R ?r)"
    unfolding Rr using rows [of K] rows [of V] arrays okn query(5)
    by (intro flash_row_fin) (simp_all add: prefill_arrays_def visible_bounds)
  moreover have "row_offset (int k) (int w) = Inr (int (k * w))"
    by (rule row_offset_fits [OF okq query(3)])
  moreover have "write_at (filled R ?r w out) (int (?r * w)) (R ?r) = Inr (filled R (Suc ?r) w out)"
    using query(2) arrays by (intro write_filled) (simp_all add: prefill_arrays_def R)
  ultimately show ?thesis
    by (simp add: flash_query_def query(1,4) del: of_nat_mult)
qed

lemma flash_sdpa_run:
  assumes sizes: "prefill_sizes heads q_len n w" and arrays: "prefill_arrays heads q_len n w Q K V out"
  shows "flash_sdpa x_ops lvl (map Fin Q) (map Fin K) (map Fin V) out (int heads) (int q_len) (int n) (int w) causal
    = Inr (filled (\<lambda>r. map Fin (prefill_row Q K V q_len n w causal r)) (heads * q_len) w out)"
proof -
  let ?R = "\<lambda>r. map Fin (prefill_row Q K V q_len n w causal r)"
  let ?query = "\<lambda>qo ko. flash_query x_ops lvl (Fin (1 / sqrt (real w))) (map Fin Q) (map Fin K) (map Fin V) qo ko (int n) (int w) causal"
  have head: "for_range (?query (int (h * (q_len * w))) (int (h * (n * w)))) 0 q_len (filled ?R (h * q_len) w out)
      = Inr (filled ?R (Suc h * q_len) w out)" if "h < heads" for h
    using for_range_states [where g = "\<lambda>k. filled ?R (h * q_len + k) w out" and i = 0
        and body = "?query (int (h * (q_len * w))) (int (h * (n * w)))" and n = q_len]
      flash_query_run [OF sizes arrays that _ refl]
    by (simp add: add.commute)
  have "for_range (\<lambda>h o'. rbind (cint32 (h * int (q_len * w))) (\<lambda>qo. rbind (cint32 (h * int (n * w))) (\<lambda>ko.
      for_range (?query qo ko) 0 q_len o'))) 0 heads (filled ?R (0 * q_len) w out) = Inr (filled ?R (heads * q_len) w out)"
    using head prefill_per_head(3,4) [OF sizes]
    by (intro for_range_states [where g = "\<lambda>h. filled ?R (h * q_len) w out"]) (simp del: of_nat_mult cint32_Inr_iff)
  moreover have "0 < w" using sizes by (simp add: prefill_sizes_def)
  ultimately show ?thesis
    unfolding flash_sdpa_def Let_def prefill_scale [OF \<open>0 < w\<close>] prefill_per_head(1,2) [OF sizes] by simp
qed

text \<open>The plain kernel: its three loops leave the scores, their softmax, and the same rows.\<close>

lemma sdpa_scores_run:
  assumes q: "tail_offset lvl (int k) (int w) = Inr qr" "read_at Q (qo + qr) (int w) = Inr (map Fin q)" "length q = w"
    and K: "reads_rows (\<lambda>ki. rbind (tail_offset lvl ki (int w)) (\<lambda>r. read_at M (ko + r) (int w))) K w n"
  shows "sdpa_scores x_ops lvl (Fin scale) Q qo M ko (int n) (int w) causal (int k)
    = Inr (masked_scores (\<lambda>p. key_score scale q (K p)) (visible causal k n) 0 n)"
proof -
  let ?m = "visible causal k n"
  let ?g = "\<lambda>j. masked_scores (\<lambda>p. key_score scale q (K p)) ?m 0 j"
  let ?body = "\<lambda>ki row. if causal \<and> int k < ki then Inr (row @ [f_neg_inf x_ops])
       else rbind (tail_offset lvl (int k) (int w)) (\<lambda>qr. rbind (read_at Q (qo + qr) (int w)) (\<lambda>q.
            rbind (tail_offset lvl ki (int w)) (\<lambda>kr. rbind (read_at M (ko + kr) (int w)) (\<lambda>k.
              Inr (row @ [f_mul x_ops (simd_dot x_ops lvl q k) (Fin scale)])))))"
  have "?body (0 + int j) (?g j) = Inr (?g (Suc j))" if "j < n" for j
  proof -
    note j = that
    obtain r where r: "tail_offset lvl (int j) (int w) = Inr r" "read_at M (ko + r) (int w) = Inr (map Fin (K j))"
      "length (K j) = w"
      using reads_rowsD [OF K j] by (auto simp: rbind_Inr_iff)
    have "simd_dot x_ops lvl (map Fin q) (map Fin (K j)) = Fin (\<Sum>i < length q. q ! i * K j ! i)"
      using r(3) q(3) by (simp add: simd_dot_fin)
    with j r q(1,2) show ?thesis
      by (auto simp: masked_scores_def key_score_def visible_def)
  qed
  from for_range_states [where g = ?g and body = ?body and i = 0 and n = n, OF this]
  show ?thesis by (simp add: sdpa_scores_def masked_scores_def)
qed

lemma row_at_filled:
  assumes "\<And>j. j < k \<Longrightarrow> length (f j) = w"
  shows "r < k \<Longrightarrow> row_at w r (filled f k w xs) = f r" and "k \<le> r \<Longrightarrow> row_at w r (filled f k w xs) = row_at w r xs"
proof -
  show "r < k \<Longrightarrow> row_at w r (filled f k w xs) = f r"
    using filled_nth_row [OF assms] by (simp add: row_at_def)
  show "k \<le> r \<Longrightarrow> row_at w r (filled f k w xs) = row_at w r xs"
  proof -
    assume "k \<le> r"
    then have "k * w \<le> r * w" by simp
    then show ?thesis by (simp add: row_at_def filled_def length_concat_rows [of k f w, OF assms])
  qed
qed

lemma softmax_rows_run:
  assumes "\<And>k. k < q_len \<Longrightarrow> row_at n k sc = f k" and "int32_ok (int (q_len * n))" and "q_len * n \<le> length sc"
    and that: "\<And>k. k < q_len \<Longrightarrow> length (g (f k)) = n"
  shows "for_range (\<lambda>qi sc. rbind (row_offset qi (int n)) (\<lambda>r. rbind (read_at sc r (int n)) (\<lambda>row.
      write_at sc r (g row)))) 0 q_len sc = Inr (filled (\<lambda>k. g (f k)) q_len n sc)"
proof (rule for_range_fill [OF _ that assms(3)])
  fix k assume k: "k < q_len"
  have fits: "k * n + n \<le> q_len * n" using k by (rule row_fits)
  have "length (filled (\<lambda>k. g (f k)) k n sc) = length sc" using k that fits assms(3) by simp
  then have "read_at (filled (\<lambda>k. g (f k)) k n sc) (int (k * n)) (int n) = Inr (f k)"
    using fits assms(3) row_at_filled(2) [of k "\<lambda>k. g (f k)" n k sc] k that assms(1) [OF k]
    by (simp add: read_at_def read_floats_def row_at_def del: of_nat_mult)
  moreover have "row_offset (int k) (int n) = Inr (int (k * n))"
    by (rule row_offset_fits [OF assms(2) fits])
  ultimately show "rbind (row_offset (int k) (int n)) (\<lambda>r. rbind (read_at (filled (\<lambda>k. g (f k)) k n sc) r (int n)) (\<lambda>row.
      write_at (filled (\<lambda>k. g (f k)) k n sc) r (g row))) = write_at (filled (\<lambda>k. g (f k)) k n sc) (int (k * n)) (g (f k))"
    by (simp del: of_nat_mult)
qed assumption

lemma read_rows_run:
  assumes "reads_rows (\<lambda>ki. rbind (elem_offset ki (int w)) (\<lambda>r. read_at M (vo + r) (int w))) V w n"
  shows "read_rows M vo (int n) (int w) = Inr (map (\<lambda>p. map Fin (V p)) [0..<n])"
  using for_range_collect [where f = "\<lambda>p. map Fin (V p)" and i = 0 and n = n and ?ys0.0 = "[]"
      and rd = "\<lambda>ki. rbind (elem_offset ki (int w)) (\<lambda>r. read_at M (vo + r) (int w))"] reads_rowsD(1) [OF assms]
  by (simp add: read_rows_def)

text \<open>The scores and the weights of the queries of head \<open>h\<close>.\<close>

definition head_scores :: "real list \<Rightarrow> real list \<Rightarrow> nat \<Rightarrow> nat \<Rightarrow> nat \<Rightarrow> nat \<Rightarrow> nat \<Rightarrow> nat \<Rightarrow> real" where
  "head_scores Q K q_len n w h k p = key_score (1 / sqrt (real w)) (row_at w (h * q_len + k) Q) (row_at w (h * n + p) K)"

lemma prefill_row_head:
  assumes "k < q_len"
  shows "prefill_row Q K V q_len n w causal (h * q_len + k)
    = attention_values (head_scores Q K q_len n w h k) (visible causal k n) (\<lambda>p. row_at w (h * n + p) V) w"
  using assms by (simp add: prefill_row_def head_scores_def [abs_def])

lemma head_rows_below:
  assumes "prefill_sizes heads q_len n w" and "h < heads" and "p < n"
  shows "p * w + w \<le> heads * n * w"
  using row_fits [OF nested_index [OF assms(2,3)], of w] mult_le_mono1 [of p "h * n + p" w] by linarith

lemma head_rows:
  assumes "prefill_sizes heads q_len n w" and "h < heads" and "heads * n * w \<le> length M"
    and "offset = tail_offset lvl \<or> offset = elem_offset"
  shows "reads_rows (\<lambda>ki. rbind (offset ki (int w)) (\<lambda>r. read_at (map Fin M) (int (h * (n * w)) + r) (int w)))
    (\<lambda>p. row_at w (h * n + p) M) w n"
proof -
  have ok: "int32_ok (int (heads * n * w))" using assms(1) by (simp add: prefill_sizes_def)
  have "offset (int p) (int w) = Inr (int (p * w))" if "p < n" for p
    using assms(4) elem_offset_nat [OF ok head_rows_below [OF assms(1,2) that]]
      tail_offset_nat [OF ok head_rows_below [OF assms(1,2) that]] by metis
  then show ?thesis by (rule prefill_rows [where offset = offset, OF assms(3,2)])
qed

lemma head_scores_run:
  assumes sizes: "prefill_sizes heads q_len n w" and arrays: "prefill_arrays heads q_len n w Q K V out"
    and h: "h < heads" and k: "k < q_len"
  shows "sdpa_scores x_ops lvl (Fin (1 / sqrt (real w))) (map Fin Q) (int (h * (q_len * w))) (map Fin K)
      (int (h * (n * w))) (int n) (int w) causal (int k)
    = Inr (masked_scores (head_scores Q K q_len n w h k) (visible causal k n) 0 n)"
  unfolding head_scores_def [abs_def]
proof (rule sdpa_scores_run)
  note query = prefill_query [OF sizes arrays h k]
  have "int32_ok (int (heads * q_len * w))" using sizes by (simp add: prefill_sizes_def)
  then show "tail_offset lvl (int k) (int w) = Inr (int (k * w))" using query(3) by (rule tail_offset_nat)
  show "read_at (map Fin Q) (int (h * (q_len * w)) + int (k * w)) (int w) = Inr (map Fin (row_at w (h * q_len + k) Q))"
    unfolding query(1) by (rule query(4))
  show "length (row_at w (h * q_len + k) Q) = w" by (rule query(5))
  show "reads_rows (\<lambda>ki. rbind (tail_offset lvl ki (int w)) (\<lambda>r. read_at (map Fin K) (int (h * (n * w)) + r) (int w)))
      (\<lambda>p. row_at w (h * n + p) K) w n"
    using arrays by (intro head_rows [OF sizes h]) (auto simp: prefill_arrays_def)
qed

lemma head_values_run:
  assumes sizes: "prefill_sizes heads q_len n w" and arrays: "prefill_arrays heads q_len n w Q K V out"
    and h: "h < heads" and k: "k < q_len" and R: "R = (\<lambda>r. map Fin (prefill_row Q K V q_len n w causal r))"
    and ps: "row_at n k sc = map (\<lambda>p. Fin (if p < visible causal k n
      then softmax (head_scores Q K q_len n w h k) (visible causal k n) p else 0)) [0..<n]" "length sc = q_len * n"
  shows "rbind (elem_offset (int k) (int n)) (\<lambda>r. rbind (read_at sc r (int n)) (\<lambda>ps.
      rbind (read_rows (map Fin V) (int (h * (n * w))) (int n) (int w)) (\<lambda>vs. rbind (elem_offset (int k) (int w)) (\<lambda>qr.
        write_at (filled R (h * q_len + k) w out) (int (h * (q_len * w)) + qr) (weighted_row x_ops w ps vs)))))
    = Inr (filled R (Suc (h * q_len + k)) w out)"
proof -
  note query = prefill_query [OF sizes arrays h k]
  have ok: "int32_ok (int (heads * q_len * w))" "int32_ok (int (q_len * n))" using sizes by (simp_all add: prefill_sizes_def)
  have fits: "k * n + n \<le> q_len * n" using k by (rule row_fits)
  have "read_at sc (int (k * n)) (int n) = Inr (row_at n k sc)"
    using fits ps(2) by (simp add: read_at_def read_floats_def row_at_def del: of_nat_mult)
  moreover have "read_rows (map Fin V) (int (h * (n * w))) (int n) (int w) = Inr (map (\<lambda>p. map Fin (row_at w (h * n + p) V)) [0..<n])"
    using head_rows [OF sizes h, of V elem_offset] arrays by (intro read_rows_run) (simp_all add: prefill_arrays_def)
  moreover have "weighted_row x_ops w (row_at n k sc) (map (\<lambda>p. map Fin (row_at w (h * n + p) V)) [0..<n]) = R (h * q_len + k)"
    unfolding R prefill_row_head [OF k] ps(1) using head_rows [OF sizes h, of V elem_offset] arrays
    by (intro weighted_row_fin visible_bounds(1)) (simp add: prefill_arrays_def reads_rows_def)
  moreover have "write_at (filled R (h * q_len + k) w out) (int ((h * q_len + k) * w)) (R (h * q_len + k))
      = Inr (filled R (Suc (h * q_len + k)) w out)"
    using query(2) arrays by (intro write_filled) (simp_all add: prefill_arrays_def R)
  ultimately show ?thesis
    by (simp add: elem_offset_nat [OF ok(2) fits] elem_offset_nat [OF ok(1) query(3)] query(1) del: of_nat_mult)
qed

lemma sdpa_head_run:
  assumes sizes: "prefill_sizes heads q_len n w" and arrays: "prefill_arrays heads q_len n w Q K V out"
    and h: "h < heads" and R: "R = (\<lambda>r. map Fin (prefill_row Q K V q_len n w causal r))"
    and sc: "length sc = q_len * n"
  shows "\<exists>sc'. sdpa_head x_ops lvl (Fin (1 / sqrt (real w))) (map Fin Q) (int (h * (q_len * w))) (map Fin K) (map Fin V)
      (int (h * (n * w))) (int q_len) (int n) (int w) causal (sc, filled R (h * q_len) w out)
    = Inr (sc', filled R (Suc h * q_len) w out) \<and> length sc' = q_len * n"
proof -
  let ?f = "\<lambda>k. masked_scores (head_scores Q K q_len n w h k) (visible causal k n) 0 n"
  let ?g = "\<lambda>k. softmax_row x_ops lvl (int n) (?f k)"
  let ?sc1 = "filled ?f q_len n sc" and ?sc2 = "filled ?g q_len n (filled ?f q_len n sc)"
  have oks: "int32_ok (int (q_len * n))" using sizes by (simp add: prefill_sizes_def)
  have weights: "?g k = map (\<lambda>p. Fin (if p < visible causal k n
      then softmax (head_scores Q K q_len n w h k) (visible causal k n) p else 0)) [0..<n]" for k
    by (rule softmax_row_fin) (auto simp: visible_bounds)
  have 1: "for_range (\<lambda>qi sc. rbind (sdpa_scores x_ops lvl (Fin (1 / sqrt (real w))) (map Fin Q) (int (h * (q_len * w))) (map Fin K)
        (int (h * (n * w))) (int n) (int w) causal qi) (\<lambda>row. rbind (elem_offset qi (int n)) (\<lambda>r. write_at sc r row))) 0 q_len sc
      = Inr ?sc1"
    using head_scores_run [OF sizes arrays h] elem_offset_nat [OF oks row_fits] sc
    by (intro for_range_fill) (simp_all del: of_nat_mult)
  have 2: "for_range (\<lambda>qi sc. rbind (row_offset qi (int n)) (\<lambda>r. rbind (read_at sc r (int n)) (\<lambda>row.
        write_at sc r (softmax_row x_ops lvl (int n) row)))) 0 q_len ?sc1 = Inr ?sc2"
    using sc oks weights by (intro softmax_rows_run) (simp_all add: row_at_filled(1))
  let ?body = "\<lambda>qi o'. rbind (elem_offset qi (int n)) (\<lambda>r. rbind (read_at ?sc2 r (int n)) (\<lambda>ps.
      rbind (read_rows (map Fin V) (int (h * (n * w))) (int n) (int w)) (\<lambda>vs. rbind (elem_offset qi (int w)) (\<lambda>qr.
        write_at o' (int (h * (q_len * w)) + qr) (weighted_row x_ops w ps vs)))))"
  have len2: "length ?sc2 = q_len * n" using sc weights by simp
  have "?body (0 + int k) (filled R (h * q_len + k) w out) = Inr (filled R (h * q_len + Suc k) w out)" if k: "k < q_len" for k
    using head_values_run [OF sizes arrays h k R _ len2] row_at_filled(1) [of q_len ?g n k ?sc1] k weights by simp
  from for_range_states [where g = "\<lambda>k. filled R (h * q_len + k) w out" and body = ?body and i = 0 and n = q_len, OF this]
  have 3: "for_range ?body 0 q_len (filled R (h * q_len) w out) = Inr (filled R (Suc h * q_len) w out)"
    by (simp add: add.commute)
  show ?thesis using len2 by (simp add: sdpa_head_def 1 2 3 del: of_nat_mult)
qed

lemma sdpa_run:
  assumes sizes: "prefill_sizes heads q_len n w" and arrays: "prefill_arrays heads q_len n w Q K V out"
  shows "sdpa x_ops lvl (map Fin Q) (map Fin K) (map Fin V) out (int heads) (int q_len) (int n) (int w) causal
    = Inr (filled (\<lambda>r. map Fin (prefill_row Q K V q_len n w causal r)) (heads * q_len) w out)"
proof -
  define R where "R = (\<lambda>r. map Fin (prefill_row Q K V q_len n w causal r))"
  let ?head = "\<lambda>qo ko. sdpa_head x_ops lvl (Fin (1 / sqrt (real w))) (map Fin Q) qo (map Fin K) (map Fin V) ko
      (int q_len) (int n) (int w) causal"
  let ?P = "\<lambda>h (sc, out'). length sc = q_len * n \<and> out' = filled R (h * q_len) w out"
  have q: "q_len \<le> heads * q_len * w" and ok: "int32_ok (int (heads * q_len * w))" "int32_ok (int (q_len * n))"
    "int32_ok (int n + 31)" and w: "0 < w"
    using sizes by (simp_all add: prefill_sizes_def)
  have "int32_ok (int n)" using ok(3) by (simp add: int32_ok_def)
  then have small: "q_len < 2 ^ 31" "n < 2 ^ 31" "q_len * n < 2 ^ 31"
    using le_less_trans [OF q] int32_nat_less [OF ok(1)] int32_nat_less [OF ok(2)] int32_nat_less by blast+
  then have new: "new_scores x_ops (wrap64 (size_of_int (int q_len) * size_of_int (int n))) = Inr (replicate (q_len * n) (Fin 0))"
    by (simp add: size_of_int_nonneg new_scores_def)
  have step: "\<exists>st'. rbind (cint32 (int h * int (q_len * w))) (\<lambda>qo. rbind (cint32 (int h * int (n * w))) (\<lambda>ko. ?head qo ko st)) = Inr st'
      \<and> ?P (Suc h) st'" if h: "h < heads" and st: "?P h st" for h st
  proof -
    obtain sc where "st = (sc, filled R (h * q_len) w out)" "length sc = q_len * n" using st by auto
    with sdpa_head_run [OF sizes arrays h R_def, of sc lvl] prefill_per_head(3,4) [OF sizes] h
    show ?thesis by (auto simp del: of_nat_mult cint32_Inr_iff)
  qed
  have "\<exists>st'. for_range (\<lambda>h st. rbind (cint32 (h * int (q_len * w))) (\<lambda>qo. rbind (cint32 (h * int (n * w))) (\<lambda>ko. ?head qo ko st)))
      0 heads (replicate (q_len * n) (Fin 0), out) = Inr st' \<and> ?P heads st'"
    using step by (intro for_range_invariant) auto
  then show ?thesis
    unfolding sdpa_def Let_def prefill_scale [OF w] prefill_per_head(1,2) [OF sizes] new
    by (auto simp: new R_def simp del: of_nat_mult)
qed

section \<open>Decode\<close>

text \<open>
  One query per head against \<open>n\<close> cached positions of \<open>nkv\<close> KV heads; \<open>g\<close> query heads share a KV head.
\<close>

definition decode_head_scores :: "real list \<Rightarrow> real list \<Rightarrow> nat \<Rightarrow> nat \<Rightarrow> nat \<Rightarrow> nat \<Rightarrow> nat \<Rightarrow> real" where
  "decode_head_scores Q K nkv g w h p = key_score (1 / sqrt (real w)) (row_at w h Q) (row_at w (p * nkv + h div g) K)"

definition decode_row :: "real list \<Rightarrow> real list \<Rightarrow> real list \<Rightarrow> nat \<Rightarrow> nat \<Rightarrow> nat \<Rightarrow> nat \<Rightarrow> nat \<Rightarrow> real list" where
  "decode_row Q K V nkv g n w h =
     attention_values (decode_head_scores Q K nkv g w h) n (\<lambda>p. row_at w (p * nkv + h div g) V) w"

definition decode_sizes :: "nat \<Rightarrow> nat \<Rightarrow> nat \<Rightarrow> nat \<Rightarrow> bool" where
  "decode_sizes nkv g n w \<longleftrightarrow> 0 < nkv \<and> 0 < g \<and> 0 < w \<and> int32_ok (int (nkv * g * w))
     \<and> int32_ok (int (n * nkv * w)) \<and> int32_ok (int n + 31)"

definition decode_arrays :: "nat \<Rightarrow> nat \<Rightarrow> nat \<Rightarrow> nat \<Rightarrow> 'a list \<Rightarrow> 'a list \<Rightarrow> 'a list \<Rightarrow> 'b list \<Rightarrow> bool" where
  "decode_arrays nkv g n w Q K V out \<longleftrightarrow> nkv * g * w \<le> length Q \<and> n * nkv * w \<le> length K
     \<and> n * nkv * w \<le> length V \<and> nkv * g * w \<le> length out"

lemma length_decode_row [simp]: "length (decode_row Q K V nkv g n w h) = w"
  by (simp add: decode_row_def)

lemma cache_rows:
  assumes sizes: "decode_sizes nkv g n w" and kv: "kv < nkv" and M: "n * nkv * w \<le> length M"
  shows "reads_rows (cache_row (map Fin M) (int (nkv * w)) (int kv) (int w)) (\<lambda>p. row_at w (p * nkv + kv) M) w n"
  unfolding reads_rows_def
proof (intro allI impI)
  fix p assume p: "p < n"
  have ok: "int32_ok (int (n * nkv * w))" using sizes by (simp add: decode_sizes_def)
  have fits: "(p * nkv + kv) * w + w \<le> n * nkv * w" by (rule row_fits [OF nested_index [OF p kv]])
  have split: "(p * nkv + kv) * w = p * (nkv * w) + kv * w" by (simp add: algebra_simps)
  have "cint32 (int p * int (nkv * w)) = Inr (int (p * (nkv * w)))" "cint32 (int kv * int w) = Inr (int (kv * w))"
    using fits unfolding split by (intro cint32_prod [OF ok]; linarith)+
  moreover have "int (p * (nkv * w)) + int (kv * w) = int ((p * nkv + kv) * w)" by (simp add: algebra_simps)
  ultimately show "cache_row (map Fin M) (int (nkv * w)) (int kv) (int w) (int p) = Inr (map Fin (row_at w (p * nkv + kv) M))
      \<and> length (row_at w (p * nkv + kv) M) = w"
    using read_row [of "p * nkv + kv" w M] fits M
    by (simp add: cache_row_def del: of_nat_mult cint32_Inr_iff)
qed

lemma decode_head:
  assumes sizes: "decode_sizes nkv g n w" and arrays: "decode_arrays nkv g n w Q K V out" and h: "h < nkv * g"
  shows "cdiv (int h) (int g) = Inr (int (h div g))" and "h div g < nkv"
    and "cint32 (int h * int w) = Inr (int (h * w))" and "h * w + w \<le> nkv * g * w"
    and "read_at (map Fin Q) (int (h * w)) (int w) = Inr (map Fin (row_at w h Q))" and "length (row_at w h Q) = w"
proof -
  have g: "0 < g" and ok: "int32_ok (int (nkv * g * w))" using sizes by (simp_all add: decode_sizes_def)
  show "cdiv (int h) (int g) = Inr (int (h div g))" using g by (simp add: zdiv_int)
  show "h div g < nkv" using h by (simp add: less_mult_imp_div_less)
  show fits: "h * w + w \<le> nkv * g * w" using h by (rule row_fits)
  then show "cint32 (int h * int w) = Inr (int (h * w))" by (intro cint32_prod [OF ok]) (erule add_leD1)
  show "read_at (map Fin Q) (int (h * w)) (int w) = Inr (map Fin (row_at w h Q))" "length (row_at w h Q) = w"
    using read_row [of h w Q] fits arrays by (simp_all add: decode_arrays_def del: of_nat_mult)
qed

lemma decode_common:
  assumes "decode_sizes nkv g n w"
  shows "cint32 (int nkv * int w) = Inr (int (nkv * w))" and "cdiv (int (nkv * g)) (int nkv) = Inr (int g)"
    and "nat (int (nkv * g)) = nkv * g"
proof -
  have ok: "int32_ok (int (nkv * g * w))" and pos: "0 < nkv" "0 < g" using assms by (simp_all add: decode_sizes_def)
  then have "nkv * w \<le> nkv * g * w" by simp
  then show "cint32 (int nkv * int w) = Inr (int (nkv * w))" by (rule cint32_prod [OF ok])
  show "cdiv (int (nkv * g)) (int nkv) = Inr (int g)" using pos by simp
qed (simp only: nat_int)

lemma write_decode_row:
  assumes "decode_arrays nkv g n w Q K V out" and "h < nkv * g" and "R = (\<lambda>h. map Fin (decode_row Q K V nkv g n w h))"
  shows "write_at (filled R h w out) (int (h * w)) (R h) = Inr (filled R (Suc h) w out)"
  using assms row_fits [OF assms(2), of w] by (intro write_filled) (simp_all add: decode_arrays_def)

lemma flash_sdpa_decode_run:
  assumes sizes: "decode_sizes nkv g n w" and arrays: "decode_arrays nkv g n w Q K V out"
  shows "flash_sdpa_decode x_ops lvl (map Fin Q) (map Fin K) (map Fin V) out (int (nkv * g)) (int nkv) (int w) (int n)
    = Inr (filled (\<lambda>h. map Fin (decode_row Q K V nkv g n w h)) (nkv * g) w out)"
proof -
  define R where "R = (\<lambda>h. map Fin (decode_row Q K V nkv g n w h))"
  have w: "0 < w" and okn: "int32_ok (int n + 31)" using sizes by (simp_all add: decode_sizes_def)
  let ?body = "\<lambda>h o'. rbind (cdiv h (int g)) (\<lambda>kv_h. rbind (cint32 (h * int w)) (\<lambda>qo.
      rbind (flash_row x_ops lvl (Fin (1 / sqrt (real w))) (read_at (map Fin Q) qo (int w)) (cache_row (map Fin K) (int (nkv * w)) kv_h (int w))
        (cache_row (map Fin V) (int (nkv * w)) kv_h (int w)) (\<lambda>_. False) (\<lambda>_. False) (int n) (int w)) (\<lambda>row.
      write_at o' qo row)))"
  have "?body (0 + int h) (filled R h w out) = Inr (filled R (Suc h) w out)" if h: "h < nkv * g" for h
  proof -
    note head = decode_head [OF sizes arrays h]
    have "flash_row x_ops lvl (Fin (1 / sqrt (real w))) (read_at (map Fin Q) (int (h * w)) (int w))
        (cache_row (map Fin K) (int (nkv * w)) (int (h div g)) (int w)) (cache_row (map Fin V) (int (nkv * w)) (int (h div g)) (int w))
        (\<lambda>_. False) (\<lambda>_. False) (int n) (int w) = Inr (R h)"
      unfolding R_def decode_row_def decode_head_scores_def [abs_def]
      using cache_rows [OF sizes head(2)] arrays head(5,6) okn
      by (intro flash_row_fin) (simp_all add: decode_arrays_def del: of_nat_mult)
    then show ?thesis using head(1,3) write_decode_row [OF arrays h R_def] by (simp del: of_nat_mult cint32_Inr_iff)
  qed
  from for_range_states [where g = "\<lambda>h. filled R h w out" and body = ?body and i = 0 and n = "nkv * g", OF this]
  show ?thesis unfolding flash_sdpa_decode_def Let_def prefill_scale [OF w] decode_common [OF sizes]
    by (simp add: R_def decode_common [OF sizes] del: of_nat_mult)
qed

lemma sdpa_decode_run:
  assumes sizes: "decode_sizes nkv g n w" and arrays: "decode_arrays nkv g n w Q K V out"
  shows "sdpa_decode x_ops lvl (map Fin Q) (map Fin K) (map Fin V) out (int (nkv * g)) (int nkv) (int w) (int n)
    = Inr (filled (\<lambda>h. map Fin (decode_row Q K V nkv g n w h)) (nkv * g) w out)"
proof -
  define R where "R = (\<lambda>h. map Fin (decode_row Q K V nkv g n w h))"
  have w: "0 < w" using sizes by (simp add: decode_sizes_def)
  let ?body = "\<lambda>h o'. rbind (cdiv h (int g)) (\<lambda>kv_h. rbind (cint32 (h * int w)) (\<lambda>qo.
      if int n < 0 then Inl (Thrown ''std::length_error'')
      else rbind (decode_scores x_ops lvl (Fin (1 / sqrt (real w))) (read_at (map Fin Q) qo (int w))
            (cache_row (map Fin K) (int (nkv * w)) kv_h (int w)) (int n)) (\<lambda>(ss, mx).
        let ps = normalize_weights x_ops (int n) (exp_scores x_ops ss mx) in
        if int w < 0 then Inl (UB ''memset of a negative size'')
        else rbind (for_range (\<lambda>ki row. rbind (cache_row (map Fin V) (int (nkv * w)) kv_h (int w) ki) (\<lambda>v.
               let a = ps ! nat ki in
               Inr (simd_map lvl (map (\<lambda>(o', x). f_add x_ops o' (f_mul x_ops a x))) (\<lambda>(o', x). f_add x_ops o' (f_mul x_ops a x)) (zip row v))))
             0 (nat (int n)) (replicate (nat (int w)) (f_zero x_ops))) (\<lambda>row.
           write_at o' qo row))))"
  have "?body (0 + int h) (filled R h w out) = Inr (filled R (Suc h) w out)" if h: "h < nkv * g" for h
  proof -
    note head = decode_head [OF sizes arrays h]
    have rows: "reads_rows (cache_row (map Fin M) (int (nkv * w)) (int (h div g)) (int w)) (\<lambda>p. row_at w (p * nkv + h div g) M) w n"
      if "M = K \<or> M = V" for M using that arrays by (intro cache_rows [OF sizes head(2)]) (auto simp: decode_arrays_def)
    obtain a where "decode_scores x_ops lvl (Fin (1 / sqrt (real w))) (read_at (map Fin Q) (int (h * w)) (int w))
        (cache_row (map Fin K) (int (nkv * w)) (int (h div g)) (int w)) (int n)
        = Inr (masked_scores (decode_head_scores Q K nkv g w h) n 0 n, Fin a)"
      using decode_scores_fin [OF head(5), of "cache_row (map Fin K) (int (nkv * w)) (int (h div g)) (int w)"
          "\<lambda>p. row_at w (p * nkv + h div g) K" n lvl "1 / sqrt (real w)"] rows [of K] head(6)
      unfolding decode_head_scores_def [abs_def] by auto
    then show ?thesis
      using head(1,3) write_decode_row [OF arrays h R_def] decode_values_fin [where lvl = lvl and s = "decode_head_scores Q K nkv g w h", OF rows [of V]]
      by (simp add: normalize_weights_fin R_def decode_row_def Let_def del: of_nat_mult cint32_Inr_iff)
  qed
  from for_range_states [where g = "\<lambda>h. filled R h w out" and body = ?body and i = 0 and n = "nkv * g", OF this]
  show ?thesis unfolding sdpa_decode_def Let_def prefill_scale [OF w] decode_common [OF sizes]
    by (simp add: R_def decode_common [OF sizes] del: of_nat_mult)
qed

end
