(* ===== verification/Attention_Kernels.thy ===== *)
theory Attention_Kernels
  imports Attention_Equivalence
begin

text \<open>
  The properties of the attention kernels: the flash kernels and the plain ones leave the same output,
  softmax attention, and the paged cache gives the same attention as a contiguous one.
\<close>

section \<open>Elements of the output\<close>

lemma filled_rows:
  assumes "\<And>r. r < k \<Longrightarrow> length (f r) = w" and "k * w \<le> length out"
  shows "length (filled (\<lambda>r. map Fin (f r)) k w out) = length out"
    and "r < k \<Longrightarrow> d < w \<Longrightarrow> filled (\<lambda>r. map Fin (f r)) k w out ! (r * w + d) = Fin (f r ! d)"
    and "k * w \<le> i \<Longrightarrow> i < length out \<Longrightarrow> filled (\<lambda>r. map Fin (f r)) k w out ! i = out ! i"
  using assms by (simp_all add: filled_nth filled_beyond)

lemma attention_values_nth:
  "d < w \<Longrightarrow> attention_values s m V w ! d = (\<Sum>p < m. softmax s m p * V p ! d)"
  by (simp add: attention_values_def weighted_values_def)

text \<open>C5. Flash attention is attention, in prefill: for sizes whose indices fit in \<open>int\<close> and arrays of these
  sizes, \<open>flash_sdpa\<close> and \<open>sdpa\<close>, on whatever instruction sets, leave the same output in exact arithmetic.
  Every query of every head gets the softmax-weighted sum of the values it may see (with \<open>causal\<close>
  those up to its own position), with scores scaled by \<open>1 / sqrt head_dim\<close>; nothing else is written.\<close>

theorem flash_prefill_is_attention:
  assumes "prefill_sizes heads q_len n w" and "prefill_arrays heads q_len n w Q K V out"
  shows "\<exists>out'. flash_sdpa x_ops lvl (map Fin Q) (map Fin K) (map Fin V) out (int heads) (int q_len) (int n) (int w) causal
        = Inr out'
    \<and> sdpa x_ops lvl' (map Fin Q) (map Fin K) (map Fin V) out (int heads) (int q_len) (int n) (int w) causal = Inr out'
    \<and> length out' = length out
    \<and> (\<forall>h < heads. \<forall>qi < q_len. \<forall>d < w. out' ! ((h * q_len + qi) * w + d)
        = Fin (\<Sum>p < visible causal qi n. softmax (head_scores Q K q_len n w h qi) (visible causal qi n) p
                 * row_at w (h * n + p) V ! d))
    \<and> (\<forall>i < length out. heads * q_len * w \<le> i \<longrightarrow> out' ! i = out ! i)"
proof -
  let ?f = "prefill_row Q K V q_len n w causal"
  have "heads * q_len * w \<le> length out" using assms(2) by (simp add: prefill_arrays_def)
  note rows = filled_rows [where f = ?f and k = "heads * q_len" and w = w and out = out, OF length_prefill_row this]
  have "?f (h * q_len + qi) ! d = (\<Sum>p < visible causal qi n. softmax (head_scores Q K q_len n w h qi) (visible causal qi n) p
      * row_at w (h * n + p) V ! d)" if "qi < q_len" "d < w" for h qi d
    using that by (simp add: prefill_row_head attention_values_nth)
  then show ?thesis
    unfolding flash_sdpa_run [OF assms] sdpa_run [OF assms] using rows nested_index by simp
qed

lemma demo_prefill: "prefill_sizes 1 2 2 1" "prefill_arrays 1 2 2 1 [1 :: real, 2] [3, 4] [5, 6] [PInf, PInf, PInf]"
  by (simp_all add: prefill_sizes_def prefill_arrays_def int32_ok_def)

theorem flash_prefill_is_attention_witness:
  "\<exists>out. flash_sdpa x_ops AVX512 (map Fin [1, 2]) (map Fin [3, 4]) (map Fin [5, 6]) [PInf, PInf, PInf] 1 2 2 1 True = Inr out
     \<and> out ! 0 = Fin 5 \<and> out ! 2 = PInf"
proof -
  have 0: "visible True 0 2 = 1" "row_at 1 0 [5 :: real, 6] = [5]" by (simp_all add: visible_def row_at_def)
  have "softmax s 1 0 = 1" for s by (simp add: softmax_def)
  with 0 flash_prefill_is_attention [OF demo_prefill, of AVX512 True SSE2] show ?thesis by force
qed

text \<open>C6. Flash attention is attention, in decoding: with \<open>nkv\<close> KV heads that \<open>g\<close> query heads share,
  \<open>flash_sdpa_decode\<close> and \<open>sdpa_decode\<close> leave the same output in exact arithmetic: every head gets the
  softmax-weighted sum of the values of its KV head over all cached positions, and nothing else is written.\<close>

theorem flash_decode_is_attention:
  assumes "decode_sizes nkv g n w" and "decode_arrays nkv g n w Q K V out"
  shows "\<exists>out'. flash_sdpa_decode x_ops lvl (map Fin Q) (map Fin K) (map Fin V) out (int (nkv * g)) (int nkv) (int w) (int n)
        = Inr out'
    \<and> sdpa_decode x_ops lvl' (map Fin Q) (map Fin K) (map Fin V) out (int (nkv * g)) (int nkv) (int w) (int n) = Inr out'
    \<and> length out' = length out
    \<and> (\<forall>h < nkv * g. \<forall>d < w. out' ! (h * w + d)
        = Fin (\<Sum>p < n. softmax (decode_head_scores Q K nkv g w h) n p * row_at w (p * nkv + h div g) V ! d))
    \<and> (\<forall>i < length out. nkv * g * w \<le> i \<longrightarrow> out' ! i = out ! i)"
proof -
  let ?f = "decode_row Q K V nkv g n w"
  have "nkv * g * w \<le> length out" using assms(2) by (simp add: decode_arrays_def)
  note rows = filled_rows [where f = ?f and k = "nkv * g" and w = w and out = out, OF length_decode_row this]
  have "?f h ! d = (\<Sum>p < n. softmax (decode_head_scores Q K nkv g w h) n p * row_at w (p * nkv + h div g) V ! d)"
    if "d < w" for h d using that by (simp add: decode_row_def attention_values_nth)
  then show ?thesis
    unfolding flash_sdpa_decode_run [OF assms] sdpa_decode_run [OF assms] using rows by simp
qed

lemma demo_decode: "decode_sizes 1 2 1 2"
  "decode_arrays 1 2 1 2 [1 :: real, 2, 3, 4] [3, 4] [5, 6] [PInf, PInf, PInf, PInf]"
  by (simp_all add: decode_sizes_def decode_arrays_def int32_ok_def)

theorem flash_decode_is_attention_witness:
  "\<exists>out. flash_sdpa_decode x_ops (AVX2 True) (map Fin [1, 2, 3, 4]) (map Fin [3, 4]) (map Fin [5, 6])
       [PInf, PInf, PInf, PInf] 2 1 2 1 = Inr out
     \<and> out ! 2 = Fin 5 \<and> out ! 3 = Fin 6"
proof -
  have 0: "row_at 2 0 [5 :: real, 6] = [5, 6]" by (simp add: row_at_def)
  have s: "softmax s (Suc 0) 0 = 1" for s by (simp add: softmax_def)
  obtain out where out: "flash_sdpa_decode x_ops (AVX2 True) (map Fin [1, 2, 3, 4]) (map Fin [3, 4]) (map Fin [5, 6])
       [PInf, PInf, PInf, PInf] (int (1 * 2)) (int 1) (int 2) (int 1) = Inr out"
    "\<forall>h < 1 * 2. \<forall>d < 2. out ! (h * 2 + d) = Fin (\<Sum>p < 1. softmax (decode_head_scores [1, 2, 3, 4] [3, 4] 1 2 2 h) 1 p
       * row_at 2 (p * 1 + h div 2) [5, 6] ! d)"
    using flash_decode_is_attention [OF demo_decode, of "AVX2 True" SSE2] by blast
  have "\<forall>h < 2. \<forall>d < 2. out ! (h * 2 + d) = Fin ([5, 6] ! d)" using out(2) by (simp add: 0 s)
  from this [rule_format, of 1 0] this [rule_format, of 1 1] have "out ! 2 = Fin 5" "out ! 3 = Fin 6"
    by (simp_all add: numeral_3_eq_3)
  with out(1) show ?thesis by auto
qed

section \<open>Paged and contiguous caches\<close>

lemma query_score_contiguous:
  assumes "w = nat (pc_head_dim c)" and "0 < pc_head_dim c" and "h * w + w \<le> length q"
    and "row_at w (p * nkv + h div g) K = cached_row True c sid layer (int p) (int h div int g)"
  shows "decode_head_scores q K nkv g w h p = query_score c sid layer q (h * w) (int h div int g) p"
proof -
  have "real w = of_int (pc_head_dim c)" using assms(1,2) by simp
  moreover have "length (row_at w h q) = w" "\<And>i. i < w \<Longrightarrow> row_at w h q ! i = q ! (h * w + i)"
    using assms(3) by (simp_all add: row_at_def)
  ultimately show ?thesis unfolding decode_head_scores_def key_score_def query_score_def assms(1) [symmetric] assms(4)
    by simp
qed

text \<open>C7. Paging is invisible: when a contiguous cache holds the rows that the paged cache has for a sequence,
  \<open>flash_sdpa_decode\<close> on the contiguous arrays leaves exactly the output of \<open>paged_attention_decode\<close> on
  the block tables, for every reachable paged cache, layer, non-empty sequence and number of query heads.\<close>

theorem paged_equals_contiguous:
  fixes c :: "real paged_cache"
  assumes reach: "paged.reachable c" and layer: "valid_layer c layer" and n: "int n = sequence_length c sid" "0 < n"
    and nkv: "int nkv = pc_num_kv_heads c" and w: "int w = pc_head_dim c"
    and sizes: "decode_sizes nkv g n w" and arrays: "decode_arrays nkv g n w q K V out"
    and K: "\<forall>p < n. \<forall>kv < nkv. row_at w (p * nkv + kv) K = cached_row True c sid layer (int p) (int kv)"
    and V: "\<forall>p < n. \<forall>kv < nkv. row_at w (p * nkv + kv) V = cached_row False c sid layer (int p) (int kv)"
  shows "\<exists>out'. paged_attention_decode real_ops c sid layer (Some q) 0 (Some out) 0 (int (nkv * g)) (pc_head_dim c)
        = (make_ok, Some out')
    \<and> flash_sdpa_decode x_ops lvl (map Fin q) (map Fin K) (map Fin V) (map Fin out)
        (int (nkv * g)) (int nkv) (int w) (int n) = Inr (map Fin out')"
proof -
  have hd: "nat (pc_head_dim c) = w" "0 < pc_head_dim c" and g: "0 < g" and sn: "nat (sequence_length c sid) = n"
    using w sizes n by (auto simp: decode_sizes_def)
  have heads: "int (nkv * g) = pc_num_kv_heads c * int g" "nat (int (nkv * g)) = nkv * g"
    using nkv by (simp_all only: nat_int) simp
  obtain out' where paged: "paged_attention_decode real_ops c sid layer (Some q) 0 (Some out) 0 (int (nkv * g)) (pc_head_dim c)
        = (make_ok, Some out')" "length out' = length out"
    and inside: "\<And>h d. h < nkv * g \<Longrightarrow> d < w \<Longrightarrow> out' ! (h * w + d) = softmax_attention c sid layer q (h * w) (int h div int g) d"
    and outside: "\<And>i. i < length out \<Longrightarrow> nkv * g * w \<le> i \<Longrightarrow> out' ! i = out ! i"
    using decode_softmax [OF paged.reachable_inv [OF reach] layer _ _ heads(1), where qoff = 0 and ooff = 0
        and q = q and out = out and sid = sid] n g arrays
    unfolding heads(2) hd(1) decode_arrays_def by auto
  let ?f = "decode_row q K V nkv g n w"
  have fits: "nkv * g * w \<le> length (map Fin out)" using arrays by (simp add: decode_arrays_def)
  have "?f h ! d = out' ! (h * w + d)" if h: "h < nkv * g" and d: "d < w" for h d
  proof -
    have kv: "h div g < nkv" using h by (simp add: less_mult_imp_div_less)
    then have cached: "row_at w (p * nkv + h div g) K = cached_row True c sid layer (int p) (int h div int g)"
      "row_at w (p * nkv + h div g) V = cached_row False c sid layer (int p) (int h div int g)" if "p < n" for p
      using K V that by (simp_all add: zdiv_int)
    have "h * w + w \<le> length q" using row_fits [OF h, of w] arrays by (simp add: decode_arrays_def)
    then have "softmax (decode_head_scores q K nkv g w h) n p = softmax (query_score c sid layer q (h * w) (int h div int g)) n p"
      if "p < n" for p using that query_score_contiguous [OF hd(1) [symmetric] hd(2)] cached by (intro softmax_cong) auto
    with h d cached show ?thesis
      by (simp add: inside decode_row_def attention_values_nth softmax_attention_def sn)
  qed
  moreover have "h * w + d < length out" if "h < nkv * g" "d < w" for h d
    using that row_fits [OF that(1), of w] fits by simp
  ultimately have "filled (\<lambda>h. map Fin (?f h)) (nkv * g) w (map Fin out) = map Fin out'"
    using fits paged(2) outside by (intro filled_eqI) auto
  moreover have "decode_arrays nkv g n w q K V (map Fin out)" using arrays by (simp add: decode_arrays_def)
  ultimately show ?thesis using paged(1) flash_sdpa_decode_run [OF sizes] by auto
qed

theorem paged_equals_contiguous_witness:
  "\<exists>out. paged_attention_decode real_ops demo_real 0 0 (Some [1, 2]) 0 (Some [0, 0]) 0 1 2 = (make_ok, Some out)
     \<and> flash_sdpa_decode x_ops SSE2 (map Fin [1, 2]) (map Fin [3, 4]) (map Fin [5, 6]) (map Fin [0, 0]) 1 1 2 1
       = Inr (map Fin out)"
proof -
  have d: "valid_layer demo_real 0" "sequence_length demo_real 0 = 1" "pc_num_kv_heads demo_real = 1"
    "pc_head_dim demo_real = 2"
    by (simp_all add: demo_real_eval valid_layer_def pc_num_layers_def sequence_length_def known_sequence_def)
  have rows: "cached_row key demo_real 0 0 0 0 = (if key then [3, 4] else [5, 6])" for key
    by (simp add: demo_real_eval cached_row_def token_row_def row_at_def row_index_def slot_block_def
        seq_of_def known_sequence_def layer_storage_def kv_width_def numeral_2_eq_2)
  have sizes: "decode_sizes 1 1 1 2" "decode_arrays 1 1 1 2 [1 :: real, 2] [3, 4] [5, 6] [0, 0 :: real]"
    by (simp_all add: decode_sizes_def decode_arrays_def int32_ok_def)
  show ?thesis
    using paged_equals_contiguous [OF demo_real_reachable d(1) _ _ _ _ sizes, of 0 SSE2] d rows
    by (simp add: row_at_def)
qed

end
