(* ===== verification/Cpu_Kernels.thy ===== *)
theory Cpu_Kernels
  imports Cpu_Attention
begin

text \<open>
  The other kernels of src/runtime/kernels/cpu_kernels.cpp: matrix products for float, bfloat16 and Q8_0
  weights, RMSNorm, embedding, rotary positions, softmax, transposition and the elementwise
  operations. The \<open>omp parallel\<close> loops write disjoint parts of the output and are sequential here.
\<close>

unbundle bit_operations_syntax

section \<open>Q8_0 weights\<close>

definition f16_to_f32 :: "('f, 'z) cpu_ops_scheme \<Rightarrow> 16 word \<Rightarrow> 'f" where
  "f16_to_f32 F bits =
     (let neg = (bits AND 0x8000 \<noteq> 0); e = uint (drop_bit 10 bits AND 0x1F); mant = bits AND 0x03FF;
          value = (if e = 0 then (if mant = 0 then f_zero F else f_ldexp F (f_of_int F (uint mant)) (- 24))
                   else if e = 31 then (if mant = 0 then f_inf F else f_nan F)
                   else f_ldexp F (f_of_int F (uint (0x400 OR mant))) (e - 25))
      in if neg then f_neg F value else value)"

text \<open>A block has 34 bytes: the scale in two, low byte first, and 32 signed values.\<close>

definition q8_0_scale :: "('f, 'z) cpu_ops_scheme \<Rightarrow> 8 word list \<Rightarrow> 'f" where
  "q8_0_scale F block = f16_to_f32 F (ucast (block ! 0) OR push_bit 8 (ucast (block ! 1)))"

definition q8_0_value :: "('f, 'z) cpu_ops_scheme \<Rightarrow> 8 word list \<Rightarrow> nat \<Rightarrow> 'f result" where
  "q8_0_value F blocks i =
     (let block = wrap64 (i div 32 * 34) in
      rbind (read_floats blocks block 2) (\<lambda>sc. rbind (read_floats blocks (block + 2 + i mod 32) 1) (\<lambda>qs.
        Inr (f_mul F (q8_0_scale F sc) (f_of_int F (sint (qs ! 0)))))))"

definition q8_0_dot_contiguous ::
  "('f, 'z) cpu_ops_scheme \<Rightarrow> 'f list \<Rightarrow> int \<Rightarrow> 8 word list \<Rightarrow> nat \<Rightarrow> int \<Rightarrow> 'f result"
where
  "q8_0_dot_contiguous F A ao q8 offset len =
     for_range (\<lambda>i acc. rbind (read_at A (ao + i) 1) (\<lambda>a. rbind (q8_0_value F q8 (wrap64 (offset + nat i))) (\<lambda>b.
       Inr (f_add F acc (f_mul F (a ! 0) b))))) 0 (nat len) (f_zero F)"

section \<open>Matrix products\<close>

text \<open>
  A loop with a step, whose counter is an \<open>int\<close>. \<open>ld\<close> converts a weight to \<open>float\<close>: nothing for
  \<open>float\<close>, the upper half of a \<open>float\<close> for bfloat16.
\<close>

function for_step :: "(int \<Rightarrow> 's \<Rightarrow> 's result) \<Rightarrow> nat \<Rightarrow> int \<Rightarrow> int \<Rightarrow> 's \<Rightarrow> 's result" where
  "for_step body t i hi s =
     (if i < hi \<and> 0 < t
      then rbind (body i s) (\<lambda>s'. rbind (cint32 (i + int t)) (\<lambda>i'. for_step body t i' hi s'))
      else Inr s)"
  by pat_completeness auto
termination by (relation "measure (\<lambda>(_, _, i, hi, _). nat (hi - i))") auto

declare for_step.simps [simp del]

definition bf16_to_float :: "('f, 'z) cpu_ops_scheme \<Rightarrow> 16 word \<Rightarrow> 'f" where
  "bf16_to_float F b = f_of_bits F (push_bit 16 (ucast b))"

text \<open>\<open>std::memset(C, 0, size_t(M) * N * sizeof(float))\<close>.\<close>

definition memset_zero :: "('f, 'z) float_ops_scheme \<Rightarrow> 'f list \<Rightarrow> nat \<Rightarrow> 'f list result" where
  "memset_zero F C bytes = write_at C 0 (replicate (bytes div 4) (f_zero F))"

text \<open>One step of the inner loops: a row of the tile gets one more product.\<close>

definition sgemm_update ::
  "('f, 'z) cpu_ops_scheme \<Rightarrow> simd_level \<Rightarrow> ('w \<Rightarrow> 'f) \<Rightarrow> 'f list \<Rightarrow> 'w list \<Rightarrow> int \<Rightarrow> int
   \<Rightarrow> int \<Rightarrow> int \<Rightarrow> int \<Rightarrow> int \<Rightarrow> 'f list \<Rightarrow> 'f list result"
where
  "sgemm_update F lvl ld A B N K r k n tn C =
     rbind (row_offset r K) (\<lambda>ao. rbind (row_offset r N) (\<lambda>co.
     rbind (read_at A (ao + k) 1) (\<lambda>a. rbind (row_offset k N) (\<lambda>bo.
     rbind (read_at C (co + n) tn) (\<lambda>c. rbind (read_at B (bo + n) tn) (\<lambda>b.
       write_at C (co + n)
         (simd_map lvl (map (\<lambda>(c, b). vf_fmadd F lvl (a ! 0) (ld b) c))
            (\<lambda>(c, b). f_add F c (f_mul F (a ! 0) (ld b))) (zip c b))))))))"

definition sgemm_impl ::
  "('f, 'z) cpu_ops_scheme \<Rightarrow> simd_level \<Rightarrow> ('w \<Rightarrow> 'f) \<Rightarrow> 'f list \<Rightarrow> 'w list \<Rightarrow> 'f list \<Rightarrow> int \<Rightarrow> int \<Rightarrow> int \<Rightarrow> 'f list result"
where
  "sgemm_impl F lvl ld A B C M N K =
     rbind (memset_zero F C (wrap64 (wrap64 (size_of_int M * size_of_int N) * 4))) (\<lambda>C.
     for_step (\<lambda>m C. for_step (\<lambda>n C. for_step (\<lambda>k C.
       let tm = min 64 (M - m); tn = min 64 (N - n); tk = min 64 (K - k) in
       for_range (\<lambda>ii C. for_range (\<lambda>kk C. sgemm_update F lvl ld A B N K (m + ii) (k + kk) n tn C) 0 (nat tk) C)
         0 (nat tm) C) 64 0 K C) 64 0 N C) 64 0 M C)"

definition sgemm :: "('f, 'z) cpu_ops_scheme \<Rightarrow> simd_level \<Rightarrow> 'f list \<Rightarrow> 'f list \<Rightarrow> 'f list \<Rightarrow> int \<Rightarrow> int \<Rightarrow> int \<Rightarrow> 'f list result" where
  "sgemm F lvl A B C M N K = sgemm_impl F lvl (\<lambda>x. x) A B C M N K"

definition sgemm_bf16 :: "('f, 'z) cpu_ops_scheme \<Rightarrow> simd_level \<Rightarrow> 'f list \<Rightarrow> 16 word list \<Rightarrow> 'f list \<Rightarrow> int \<Rightarrow> int \<Rightarrow> int \<Rightarrow> 'f list result" where
  "sgemm_bf16 F lvl A B C M N K = sgemm_impl F lvl (bf16_to_float F) A B C M N K"

definition sgemm_q8 :: "('f, 'z) cpu_ops_scheme \<Rightarrow> 'f list \<Rightarrow> 8 word list \<Rightarrow> 'f list \<Rightarrow> int \<Rightarrow> int \<Rightarrow> int \<Rightarrow> 'f list result" where
  "sgemm_q8 F A B C M N K =
     for_range (\<lambda>m C. for_range (\<lambda>n C.
       rbind (for_range (\<lambda>k acc.
           rbind (read_at A (int (wrap64 (size_of_int m * size_of_int K)) + k) 1) (\<lambda>a.
           rbind (q8_0_value F B (wrap64 (wrap64 (size_of_int k * size_of_int N) + size_of_int n))) (\<lambda>b.
             Inr (f_add F acc (f_mul F (a ! 0) b))))) 0 (nat K) (f_zero F)) (\<lambda>acc.
       write_at C (int (wrap64 (size_of_int m * size_of_int N)) + n) [acc])) 0 (nat N) C) 0 (nat M) C"

text \<open>
  With a transposed matrix: the columns of a row are done four at a time with four accumulators, the
  rest one by one.
\<close>

definition nt_dot ::
  "('f, 'z) cpu_ops_scheme \<Rightarrow> simd_level \<Rightarrow> ('w \<Rightarrow> 'f) \<Rightarrow> 'f list \<Rightarrow> 'w list \<Rightarrow> int \<Rightarrow> int \<Rightarrow> int \<Rightarrow> 'f result"
where
  "nt_dot F lvl ld A B K ao n =
     rbind (row_offset n K) (\<lambda>bo. rbind (read_at A ao K) (\<lambda>a. rbind (read_at B bo K) (\<lambda>b.
       Inr (simd_dot_fma F lvl a (map ld b)))))"

function nt_columns ::
  "('f, 'z) cpu_ops_scheme \<Rightarrow> simd_level \<Rightarrow> ('w \<Rightarrow> 'f) \<Rightarrow> 'f list \<Rightarrow> 'w list \<Rightarrow> int \<Rightarrow> int \<Rightarrow> int \<Rightarrow> int \<Rightarrow> int \<Rightarrow> 'f list \<Rightarrow> 'f list result"
where
  "nt_columns F lvl ld A B N K ao co n C = rbind (cint32 (n + 3)) (\<lambda>n3.
     if n3 < N
     then rbind (nt_dot F lvl ld A B K ao n) (\<lambda>d0. rbind (nt_dot F lvl ld A B K ao (n + 1)) (\<lambda>d1.
          rbind (nt_dot F lvl ld A B K ao (n + 2)) (\<lambda>d2. rbind (nt_dot F lvl ld A B K ao n3) (\<lambda>d3.
          rbind (write_at C (co + n) [d0, d1, d2, d3]) (\<lambda>C.
            nt_columns F lvl ld A B N K ao co (n + 4) C)))))
     else for_range (\<lambda>n C. rbind (nt_dot F lvl ld A B K ao n) (\<lambda>d. write_at C (co + n) [d])) n (nat (N - n)) C)"
  by pat_completeness auto
termination by (relation "measure (\<lambda>(_, _, _, _, _, N, _, _, _, n, _). nat (N - n))") auto

declare nt_columns.simps [simp del]

definition sgemm_nt_impl ::
  "('f, 'z) cpu_ops_scheme \<Rightarrow> simd_level \<Rightarrow> ('w \<Rightarrow> 'f) \<Rightarrow> 'f list \<Rightarrow> 'w list \<Rightarrow> 'f list \<Rightarrow> int \<Rightarrow> int \<Rightarrow> int \<Rightarrow> 'f list result"
where
  "sgemm_nt_impl F lvl ld A B C M N K =
     for_range (\<lambda>m C. rbind (row_offset m K) (\<lambda>ao. rbind (row_offset m N) (\<lambda>co.
       nt_columns F lvl ld A B N K ao co 0 C))) 0 (nat M) C"

definition sgemm_nt :: "('f, 'z) cpu_ops_scheme \<Rightarrow> simd_level \<Rightarrow> 'f list \<Rightarrow> 'f list \<Rightarrow> 'f list \<Rightarrow> int \<Rightarrow> int \<Rightarrow> int \<Rightarrow> 'f list result" where
  "sgemm_nt F lvl A B C M N K = sgemm_nt_impl F lvl (\<lambda>x. x) A B C M N K"

definition sgemm_nt_bf16 :: "('f, 'z) cpu_ops_scheme \<Rightarrow> simd_level \<Rightarrow> 'f list \<Rightarrow> 16 word list \<Rightarrow> 'f list \<Rightarrow> int \<Rightarrow> int \<Rightarrow> int \<Rightarrow> 'f list result" where
  "sgemm_nt_bf16 F lvl A B C M N K = sgemm_nt_impl F lvl (bf16_to_float F) A B C M N K"

definition sgemm_nt_q8 :: "('f, 'z) cpu_ops_scheme \<Rightarrow> 'f list \<Rightarrow> 8 word list \<Rightarrow> 'f list \<Rightarrow> int \<Rightarrow> int \<Rightarrow> int \<Rightarrow> 'f list result" where
  "sgemm_nt_q8 F A B C M N K =
     for_range (\<lambda>m C. for_range (\<lambda>n C.
       rbind (q8_0_dot_contiguous F A (int (wrap64 (size_of_int m * size_of_int K))) B
                (wrap64 (size_of_int n * size_of_int K)) K) (\<lambda>d.
       write_at C (int (wrap64 (size_of_int m * size_of_int N)) + n) [d])) 0 (nat N) C) 0 (nat M) C"

section \<open>Rows\<close>

text \<open>
  The counter of a vector loop over \<open>n\<close> elements is an \<open>int\<close>: its last test computes \<open>i + width\<close>.
\<close>

definition simd_bound :: "simd_level \<Rightarrow> int \<Rightarrow> int result" where
  "simd_bound lvl n = cint32 (int (nat n div simd_width lvl * simd_width lvl + simd_width lvl))"

definition rms_row :: "('f, 'z) cpu_ops_scheme \<Rightarrow> simd_level \<Rightarrow> int \<Rightarrow> 'f \<Rightarrow> 'f list \<Rightarrow> 'f list \<Rightarrow> 'f list" where
  "rms_row F lvl hidden eps x gamma =
     (let sum_sq = simd_reduce F lvl (\<lambda>acc v. f_add F acc (f_mul F v v)) (\<lambda>acc v. f_add F acc (f_mul F v v)) x;
          inv_rms = f_div F (f_one F) (f_sqrt F (f_add F (f_div F sum_sq (f_of_int F hidden)) eps))
      in simd_map lvl (map (\<lambda>(v, g). f_mul F (f_mul F v inv_rms) g)) (\<lambda>(v, g). f_mul F (f_mul F v inv_rms) g) (zip x gamma))"

definition rmsnorm ::
  "('f, 'z) cpu_ops_scheme \<Rightarrow> simd_level \<Rightarrow> 'f list \<Rightarrow> 'f list \<Rightarrow> 'f list \<Rightarrow> int \<Rightarrow> int \<Rightarrow> 'f \<Rightarrow> 'f list result"
where
  "rmsnorm F lvl x gamma y rows hidden eps =
     for_range (\<lambda>r y. rbind (row_offset r hidden) (\<lambda>off. rbind (simd_bound lvl hidden) (\<lambda>_.
       rbind (read_at x off hidden) (\<lambda>xs. rbind (read_at gamma 0 hidden) (\<lambda>gs.
       write_at y off (rms_row F lvl hidden eps xs gs)))))) 0 (nat rows) y"

text \<open>\<open>ids\<close> are the \<open>int\<close>s of the token ids.\<close>

definition embedding_impl ::
  "('f, 'z) cpu_ops_scheme \<Rightarrow> simd_level \<Rightarrow> ('w \<Rightarrow> 'f) \<Rightarrow> 'w list \<Rightarrow> int list \<Rightarrow> 'f list \<Rightarrow> int \<Rightarrow> int \<Rightarrow> 'f list result"
where
  "embedding_impl F lvl ld weight ids out seq_len hidden =
     for_range (\<lambda>s out. rbind (read_at ids s 1) (\<lambda>i. rbind (row_offset (i ! 0) hidden) (\<lambda>wo.
       rbind (row_offset s hidden) (\<lambda>oo. rbind (simd_bound lvl hidden) (\<lambda>_. rbind (read_at weight wo hidden) (\<lambda>row.
       write_at out oo (simd_map lvl (map ld) ld row))))))) 0 (nat seq_len) out"

definition embedding :: "('f, 'z) cpu_ops_scheme \<Rightarrow> simd_level \<Rightarrow> 'f list \<Rightarrow> int list \<Rightarrow> 'f list \<Rightarrow> int \<Rightarrow> int \<Rightarrow> 'f list result" where
  "embedding F lvl weight ids out seq_len hidden = embedding_impl F lvl (\<lambda>x. x) weight ids out seq_len hidden"

definition embedding_bf16 :: "('f, 'z) cpu_ops_scheme \<Rightarrow> simd_level \<Rightarrow> 16 word list \<Rightarrow> int list \<Rightarrow> 'f list \<Rightarrow> int \<Rightarrow> int \<Rightarrow> 'f list result" where
  "embedding_bf16 F lvl weight ids out seq_len hidden = embedding_impl F lvl (bf16_to_float F) weight ids out seq_len hidden"

definition embedding_q8 :: "('f, 'z) cpu_ops_scheme \<Rightarrow> 8 word list \<Rightarrow> int list \<Rightarrow> 'f list \<Rightarrow> int \<Rightarrow> int \<Rightarrow> 'f list result" where
  "embedding_q8 F weight ids out seq_len hidden =
     for_range (\<lambda>s out. rbind (read_at ids s 1) (\<lambda>i.
       let row_offset = wrap64 (size_of_int (i ! 0) * size_of_int hidden) in
       for_range (\<lambda>h out. rbind (q8_0_value F weight (wrap64 (row_offset + nat h))) (\<lambda>v.
         write_at out (int (wrap64 (size_of_int s * size_of_int hidden)) + h) [v])) 0 (nat hidden) out)) 0 (nat seq_len) out"

definition softmax_rows ::
  "('f, 'z) cpu_ops_scheme \<Rightarrow> simd_level \<Rightarrow> 'f list \<Rightarrow> 'f list \<Rightarrow> int \<Rightarrow> int \<Rightarrow> 'f list result"
where
  "softmax_rows F lvl x y rows cols =
     for_range (\<lambda>r y. rbind (row_offset r cols) (\<lambda>off. rbind (simd_bound lvl cols) (\<lambda>_. rbind (read_at x off cols) (\<lambda>row.
       write_at y off (softmax_row F lvl cols row))))) 0 (nat rows) y"

section \<open>Rotary positions\<close>

text \<open>Element \<open>d\<close> of the first half of a row is rotated with element \<open>d\<close> of the second half.\<close>

definition rope_angle :: "('f, 'z) cpu_ops_scheme \<Rightarrow> 'f \<Rightarrow> int \<Rightarrow> int \<Rightarrow> int \<Rightarrow> 'f" where
  "rope_angle F base head_dim pos d =
     f_mul F (f_pow F base (f_div F (f_mul F (f_of_int F (- 2)) (f_of_int F d)) (f_of_int F head_dim))) (f_of_int F pos)"

definition rope_even :: "('f, 'z) cpu_ops_scheme \<Rightarrow> 'f \<Rightarrow> 'f \<Rightarrow> 'f \<Rightarrow> 'f" where
  "rope_even F theta e od = f_sub F (f_mul F e (f_cos F theta)) (f_mul F od (f_sin F theta))"

definition rope_odd :: "('f, 'z) cpu_ops_scheme \<Rightarrow> 'f \<Rightarrow> 'f \<Rightarrow> 'f \<Rightarrow> 'f" where
  "rope_odd F theta e od = f_add F (f_mul F e (f_sin F theta)) (f_mul F od (f_cos F theta))"

definition rope_half ::
  "('f, 'z) cpu_ops_scheme \<Rightarrow> simd_level \<Rightarrow> ('f \<Rightarrow> 'f \<Rightarrow> 'f \<Rightarrow> 'f) \<Rightarrow> (int \<Rightarrow> 'f) \<Rightarrow> 'f list \<Rightarrow> 'f list \<Rightarrow> 'f list"
where
  "rope_half F lvl rot angle es os =
     (let f = (\<lambda>(d, e, od). rot (angle (int d)) e od)
      in simd_map lvl (map f) f (zip [0..<length es] (zip es os)))"

definition apply_rope ::
  "('f, 'z) cpu_ops_scheme \<Rightarrow> simd_level \<Rightarrow> 'f list \<Rightarrow> 'f list \<Rightarrow> int \<Rightarrow> int \<Rightarrow> 'f \<Rightarrow> int \<Rightarrow> 'f list result"
where
  "apply_rope F lvl x y seq_len head_dim base pos_offset =
     rbind (cdiv head_dim 2) (\<lambda>half.
     for_range (\<lambda>s y. rbind (row_offset s head_dim) (\<lambda>off. rbind (cint32 (pos_offset + s)) (\<lambda>pos.
       rbind (read_at x off half) (\<lambda>es. rbind (read_at x (off + half) half) (\<lambda>os.
       rbind (write_at y off (rope_half F lvl (rope_even F) (rope_angle F base head_dim pos) es os)) (\<lambda>y.
       write_at y (off + half) (rope_half F lvl (rope_odd F) (rope_angle F base head_dim pos) es os))))))) 0 (nat seq_len) y)"

section \<open>Transposition\<close>

definition swap_at :: "nat \<Rightarrow> nat \<Rightarrow> 'a list \<Rightarrow> 'a list" where
  "swap_at i j xs = xs[i := xs ! j, j := xs ! i]"

text \<open>Row-major strides, from the last dimension to the first.\<close>

fun row_strides :: "nat list \<Rightarrow> nat list" where
  "row_strides [] = []"
| "row_strides [d] = [1]"
| "row_strides (d # e # ds) = (let ss = row_strides (e # ds) in wrap64 (hd ss * e) # ss)"

fun unrank :: "nat list \<Rightarrow> nat \<Rightarrow> nat list result" where
  "unrank [] r = Inr []"
| "unrank (stride # ss) r =
     (if stride = 0 then Inl (UB ''division by zero'')
      else rbind (unrank ss (r mod stride)) (\<lambda>is. Inr (r div stride # is)))"

definition rank_index :: "nat list \<Rightarrow> nat list \<Rightarrow> nat" where
  "rank_index is strides = foldl (\<lambda>src (i, stride). wrap64 (src + i * stride)) 0 (zip is strides)"

definition transpose_kernel :: "'f list \<Rightarrow> 'f list \<Rightarrow> int list \<Rightarrow> nat \<Rightarrow> nat \<Rightarrow> 'f list result" where
  "transpose_kernel x y dims axis0 axis1 =
     (if axis0 = axis1 then
        let total = foldl (\<lambda>t d. wrap64 (t * size_of_int d)) 1 dims
        in copy_floats y 0 x 0 (wrap64 (total * 4) div 4)
      else if length dims \<le> axis0 \<or> length dims \<le> axis1 then Inl (UB ''axis outside the shape'')
      else
        let in_dims = map size_of_int dims; in_strides = row_strides in_dims;
            out_dims = swap_at axis0 axis1 in_dims; out_strides = row_strides out_dims;
            total = wrap64 (out_dims ! 0 * out_strides ! 0)
        in for_range (\<lambda>linear y. rbind (unrank out_strides (nat linear)) (\<lambda>out_index.
             rbind (read_floats x (rank_index (swap_at axis0 axis1 out_index) in_strides) 1) (\<lambda>v.
               write_at y linear v))) 0 total y)"

section \<open>Elementwise operations\<close>

definition add_kernel :: "('f, 'z) cpu_ops_scheme \<Rightarrow> simd_level \<Rightarrow> 'f list \<Rightarrow> 'f list \<Rightarrow> 'f list \<Rightarrow> int \<Rightarrow> 'f list result" where
  "add_kernel F lvl a b y n =
     rbind (simd_bound lvl n) (\<lambda>_. rbind (read_at a 0 n) (\<lambda>xs. rbind (read_at b 0 n) (\<lambda>ys.
       write_at y 0 (simd_map lvl (map (\<lambda>(u, v). f_add F u v)) (\<lambda>(u, v). f_add F u v) (zip xs ys)))))"

definition mul_kernel :: "('f, 'z) cpu_ops_scheme \<Rightarrow> simd_level \<Rightarrow> 'f list \<Rightarrow> 'f list \<Rightarrow> 'f list \<Rightarrow> int \<Rightarrow> 'f list result" where
  "mul_kernel F lvl a b y n =
     rbind (simd_bound lvl n) (\<lambda>_. rbind (read_at a 0 n) (\<lambda>xs. rbind (read_at b 0 n) (\<lambda>ys.
       write_at y 0 (simd_map lvl (map (\<lambda>(u, v). f_mul F u v)) (\<lambda>(u, v). f_mul F u v) (zip xs ys)))))"

definition silu_scalar :: "('f, 'z) cpu_ops_scheme \<Rightarrow> 'f \<Rightarrow> 'f" where
  "silu_scalar F v = f_div F v (f_add F (f_one F) (f_exp F (f_neg F v)))"

definition silu_kernel :: "('f, 'z) cpu_ops_scheme \<Rightarrow> simd_level \<Rightarrow> 'f list \<Rightarrow> 'f list \<Rightarrow> int \<Rightarrow> 'f list result" where
  "silu_kernel F lvl x y n =
     rbind (simd_bound lvl n) (\<lambda>_. rbind (read_at x 0 n) (\<lambda>xs.
       write_at y 0 (simd_map lvl (\<lambda>vs. map2 (f_mul F) vs (v_sigmoid F vs)) (silu_scalar F) xs)))"

definition fused_silu_mul ::
  "('f, 'z) cpu_ops_scheme \<Rightarrow> simd_level \<Rightarrow> 'f list \<Rightarrow> 'f list \<Rightarrow> 'f list \<Rightarrow> int \<Rightarrow> 'f list result"
where
  "fused_silu_mul F lvl gate up y n =
     rbind (simd_bound lvl n) (\<lambda>_. rbind (read_at gate 0 n) (\<lambda>gs. rbind (read_at up 0 n) (\<lambda>us.
       write_at y 0 (simd_map lvl
         (\<lambda>ps. map2 (f_mul F) (map2 (f_mul F) (map fst ps) (v_sigmoid F (map fst ps))) (map snd ps))
         (\<lambda>(g, u). f_mul F (silu_scalar F g) u) (zip gs us)))))"

end
