(* ===== verification/Gemm_Tiling.thy ===== *)
theory Gemm_Tiling
  imports Cpu_Kernels Attention_Equivalence
begin

text \<open>
  The tiled matrix product: whatever the arithmetic, an element of the result is the fold of its
  products in the order of the plain triple loop. The state of the loops is described by
  how many products each element has received.
\<close>

section \<open>Elements of a vector loop and of a written buffer\<close>

definition vector_part :: "simd_level \<Rightarrow> nat \<Rightarrow> nat" where
  "vector_part lvl n = n div simd_width lvl * simd_width lvl"

lemma vector_part_le: "vector_part lvl n \<le> n"
  by (simp add: vector_part_def)

lemma simd_map_nth:
  assumes "j < length xs"
  shows "simd_map lvl (map g) fs xs ! j = (if j < vector_part lvl (length xs) then g (xs ! j) else fs (xs ! j))"
  using assms vector_part_le [of lvl "length xs"]
  by (simp add: simd_map_lanes nth_append flip: vector_part_def)

text \<open>The width of the vectors divides the tile size, so the tiles of a row have the vector part of the row.\<close>

lemma width_dvd_64: "simd_width lvl dvd 64"
  by (cases lvl) simp_all

lemma vector_part_tile:
  assumes "j < min 64 (N - 64 * l)"
  shows "j < vector_part lvl (min 64 (N - 64 * l)) \<longleftrightarrow> 64 * l + j < vector_part lvl N"
proof -
  let ?W = "simd_width lvl"
  have dvd: "?W dvd 64 * l" using width_dvd_64 by (rule dvd_mult2)
  then have q: "64 * l div ?W * ?W = 64 * l" by simp
  have "64 * l \<le> N" using assms by linarith
  then have "N div ?W = 64 * l div ?W + (N - 64 * l) div ?W"
    using dvd by (metis div_plus_div_distrib_dvd_left le_add_diff_inverse)
  then have row: "vector_part lvl N = 64 * l + vector_part lvl (N - 64 * l)"
    using q by (simp add: vector_part_def distrib_right)
  show ?thesis
  proof (cases "N - 64 * l \<le> 64")
    case True
    then show ?thesis by (simp add: row min_absorb2)
  next
    case False
    have whole: "vector_part lvl 64 = 64" using width_dvd_64 [of lvl] by (simp add: vector_part_def)
    have "vector_part lvl 64 \<le> vector_part lvl (N - 64 * l)"
      unfolding vector_part_def using False by (intro mult_le_mono1 div_le_mono) simp
    with whole have "64 * l + j < vector_part lvl N" using assms by (simp add: row)
    with whole False assms show ?thesis by (simp add: min_absorb1)
  qed
qed

lemma write_at_nth:
  assumes "nat off + length row \<le> length xs" and "0 \<le> off"
  shows "\<exists>ys. write_at xs off row = Inr ys \<and> length ys = length xs
    \<and> (\<forall>i < length xs. ys ! i = (if nat off \<le> i \<and> i < nat off + length row then row ! (i - nat off) else xs ! i))"
  using assms by (auto simp: write_at_def copy_floats_def nth_append)

lemma read_at_nth:
  assumes "nat off + n \<le> length xs" and "0 \<le> off"
  shows "read_at xs off (int n) = Inr (map (\<lambda>j. xs ! (nat off + j)) [0..<n])"
  using assms by (auto simp: read_at_def read_floats_def intro!: nth_equalityI)

section \<open>The reference and the state of the loops\<close>

text \<open>Columns of the vector part accumulate by \<open>VF_FMADD\<close>, the others by a product and a sum.\<close>

definition gemm_step :: "('f, 'z) cpu_ops_scheme \<Rightarrow> simd_level \<Rightarrow> nat \<Rightarrow> nat \<Rightarrow> 'f \<Rightarrow> 'f \<Rightarrow> 'f \<Rightarrow> 'f" where
  "gemm_step F lvl N c acc a b =
     (if c < vector_part lvl N then vf_fmadd F lvl a b acc else f_add F acc (f_mul F a b))"

definition gemm_element ::
  "('f, 'z) cpu_ops_scheme \<Rightarrow> simd_level \<Rightarrow> ('w \<Rightarrow> 'f) \<Rightarrow> 'f list \<Rightarrow> 'w list \<Rightarrow> nat \<Rightarrow> nat \<Rightarrow> nat \<Rightarrow> nat \<Rightarrow> nat \<Rightarrow> 'f"
where
  "gemm_element F lvl ld A B N K r c k =
     foldl (\<lambda>acc k. gemm_step F lvl N c acc (A ! (r * K + k)) (ld (B ! (k * N + c)))) (f_zero F) [0..<k]"

definition gemm_grid ::
  "('f, 'z) cpu_ops_scheme \<Rightarrow> simd_level \<Rightarrow> ('w \<Rightarrow> 'f) \<Rightarrow> 'f list \<Rightarrow> 'w list \<Rightarrow> 'f list \<Rightarrow> nat \<Rightarrow> nat \<Rightarrow> nat
   \<Rightarrow> (nat \<Rightarrow> nat \<Rightarrow> nat) \<Rightarrow> 'f list"
where
  "gemm_grid F lvl ld A B C M N K cnt =
     map (\<lambda>i. if i < M * N then gemm_element F lvl ld A B N K (i div N) (i mod N) (cnt (i div N) (i mod N)) else C ! i)
       [0..<length C]"

lemma length_gemm_grid [simp]: "length (gemm_grid F lvl ld A B C M N K cnt) = length C"
  by (simp add: gemm_grid_def)

lemma gemm_grid_cong:
  assumes "\<And>r c. r < M \<Longrightarrow> c < N \<Longrightarrow> cnt r c = cnt' r c"
  shows "gemm_grid F lvl ld A B C M N K cnt = gemm_grid F lvl ld A B C M N K cnt'"
proof -
  have "cnt (i div N) (i mod N) = cnt' (i div N) (i mod N)" if "i < M * N" for i
  proof -
    have "0 < N" using that by (cases N) auto
    then show ?thesis using that assms by (simp add: less_mult_imp_div_less)
  qed
  then show ?thesis by (simp add: gemm_grid_def)
qed

definition gemm_sizes :: "nat \<Rightarrow> nat \<Rightarrow> nat \<Rightarrow> bool" where
  "gemm_sizes M N K \<longleftrightarrow> int32_ok (int (M * K)) \<and> int32_ok (int (K * N)) \<and> int32_ok (int (M * N))
     \<and> int32_ok (int M + 63) \<and> int32_ok (int N + 63) \<and> int32_ok (int K + 63)"

definition gemm_arrays :: "nat \<Rightarrow> nat \<Rightarrow> nat \<Rightarrow> 'f list \<Rightarrow> 'w list \<Rightarrow> 'g list \<Rightarrow> bool" where
  "gemm_arrays M N K A B C \<longleftrightarrow> M * K \<le> length A \<and> K * N \<le> length B \<and> M * N \<le> length C"

section \<open>One update\<close>

lemma gemm_tile_row:
  assumes "tn = min 64 (N - 64 * l)"
  shows "simd_map lvl (map (\<lambda>(c, b). vf_fmadd F lvl (A ! (r * K + k)) (ld b) c))
      (\<lambda>(c, b). f_add F c (f_mul F (A ! (r * K + k)) (ld b)))
      (zip (map (\<lambda>j. gemm_element F lvl ld A B N K r (64 * l + j) k) [0..<tn])
        (map (\<lambda>j. B ! (k * N + (64 * l + j))) [0..<tn]))
    = map (\<lambda>j. gemm_element F lvl ld A B N K r (64 * l + j) (Suc k)) [0..<tn]" (is "?row = ?row'")
proof (rule nth_equalityI)
  show len: "length ?row = length ?row'" by (simp add: length_simd_map)
  fix j assume "j < length ?row"
  then have j: "j < tn" using len by simp
  with vector_part_tile [of j N l lvl] assms show "?row ! j = ?row' ! j"
    by (simp add: simd_map_nth gemm_element_def gemm_step_def)
qed

lemma write_tile_row:
  assumes "n + tn \<le> N" and r: "r < M" and "M * N \<le> length C"
  shows "write_at (gemm_grid F lvl ld A B C M N K cnt) (int (r * N + n))
      (map (\<lambda>j. gemm_element F lvl ld A B N K r (n + j) k) [0..<tn])
    = Inr (gemm_grid F lvl ld A B C M N K (\<lambda>r' c. if r' = r \<and> n \<le> c \<and> c < n + tn then k else cnt r' c))"
    (is "write_at ?xs _ ?row = Inr ?zs")
proof -
  have rN: "r * N + N \<le> M * N" using r by (rule row_fits)
  then obtain ys where ys: "write_at ?xs (int (r * N + n)) ?row = Inr ys" "length ys = length C"
    "\<And>i. i < length C \<Longrightarrow> ys ! i = (if r * N + n \<le> i \<and> i < r * N + n + tn then ?row ! (i - (r * N + n)) else ?xs ! i)"
    using write_at_nth [of "int (r * N + n)" ?row ?xs] assms by (auto simp del: of_nat_add of_nat_mult)
  have "ys = ?zs"
  proof (rule nth_equalityI)
    fix i assume "i < length ys"
    then have i: "i < length C" using ys(2) by simp
    show "ys ! i = ?zs ! i"
    proof (cases "r * N + n \<le> i \<and> i < r * N + n + tn")
      case True
      then obtain j where j: "i = r * N + (n + j)" "j < tn" by (metis add.assoc le_Suc_ex nat_add_left_cancel_less)
      with assms rN have "i < M * N" "i div N = r" "i mod N = n + j" by (simp_all add: div_mult_self3)
      with True j i show ?thesis by (simp add: ys(3) gemm_grid_def)
    next
      case False
      then have "\<not> (i div N = r \<and> n \<le> i mod N \<and> i mod N < n + tn)"
        using div_mult_mod_eq [of i N] by (metis add.assoc nat_add_left_cancel_le nat_add_left_cancel_less)
      then have "?zs ! i = ?xs ! i" using i by (auto simp: gemm_grid_def)
      moreover have "ys ! i = ?xs ! i" unfolding ys(3) [OF i] using False by (rule if_not_P)
      ultimately show ?thesis by simp
    qed
  qed (use ys(2) in simp)
  with ys(1) show ?thesis by simp
qed

lemma sgemm_update_grid:
  assumes sizes: "gemm_sizes M N K" and arrays: "gemm_arrays M N K A B C"
    and r: "r < M" and k: "k < K" and l: "64 * l < N" and tn: "tn = min 64 (N - 64 * l)"
    and cnt: "\<And>c. 64 * l \<le> c \<Longrightarrow> c < 64 * l + tn \<Longrightarrow> cnt r c = k"
  shows "sgemm_update F lvl ld A B (int N) (int K) (int r) (int k) (int (64 * l)) (int tn) (gemm_grid F lvl ld A B C M N K cnt)
    = Inr (gemm_grid F lvl ld A B C M N K
        (\<lambda>r' c. if r' = r \<and> 64 * l \<le> c \<and> c < 64 * l + tn then Suc k else cnt r' c))"
proof -
  let ?G = "gemm_grid F lvl ld A B C M N K" and ?n = "64 * l"
  have tn': "?n + tn \<le> N" "tn \<le> N" using tn l by auto
  have rN: "r * N + N \<le> M * N" and kN: "k * N + N \<le> K * N" and rK: "r * K + K \<le> M * K"
    using r k by (intro row_fits; simp)+
  have offs: "row_offset (int r) (int K) = Inr (int (r * K))" "row_offset (int r) (int N) = Inr (int (r * N))"
    "row_offset (int k) (int N) = Inr (int (k * N))"
    using sizes rN kN rK by (auto simp: gemm_sizes_def intro: row_offset_fits simp del: of_nat_mult)
  have a: "read_at A (int (r * K) + int k) 1 = Inr [A ! (r * K + k)]"
    using read_at_nth [of "int (r * K + k)" 1 A] rK k arrays by (simp add: gemm_arrays_def nat_add_distrib del: of_nat_mult)
  have b: "read_at B (int (k * N) + int ?n) (int tn) = Inr (map (\<lambda>j. B ! (k * N + (?n + j))) [0..<tn])"
    using read_at_nth [of "int (k * N + ?n)" tn B] kN tn' arrays
    by (simp add: gemm_arrays_def nat_add_distrib add.assoc del: of_nat_mult)
  have idx: "r * N + (?n + j) < M * N" "(r * N + (?n + j)) div N = r" "(r * N + (?n + j)) mod N = ?n + j" if "j < tn" for j
    using that tn' rN by (simp_all add: div_mult_self3)
  have c: "read_at (?G cnt) (int (r * N) + int ?n) (int tn)
      = Inr (map (\<lambda>j. gemm_element F lvl ld A B N K r (?n + j) k) [0..<tn])"
    using read_at_nth [of "int (r * N + ?n)" tn "?G cnt"] rN tn' arrays idx cnt
    by (simp add: gemm_arrays_def nat_add_distrib add.assoc gemm_grid_def del: of_nat_mult)
  have off: "int (r * N) + int ?n = int (r * N + ?n)" by simp
  have "M * N \<le> length C" using arrays by (simp add: gemm_arrays_def)
  then show ?thesis
    unfolding sgemm_update_def offs rbind_simps a b c nth_Cons_0 gemm_tile_row [OF tn] unfolding off
    by (rule write_tile_row [OF tn'(1) r])
qed

section \<open>The loops\<close>

lemma for_step_states:
  assumes "0 < t" and "int32_ok (int hi + (int t - 1))"
    and "\<And>j. j * t < hi \<Longrightarrow> body (int (j * t)) (g j) = Inr (g (Suc j))"
  shows "\<exists>j. for_step body t (int (i * t)) (int hi) (g i) = Inr (g j) \<and> hi \<le> j * t"
  using assms(3)
proof (induction "hi - i * t" arbitrary: i rule: less_induct)
  case less
  show ?case
  proof (cases "i * t < hi")
    case True
    have next_i: "cint32 (int (i * t) + int t) = Inr (int (Suc i * t))"
      using assms(2) True by (subst cint32_ok) (auto simp: int32_ok_def algebra_simps simp flip: of_nat_mult of_nat_add)
    have "hi - Suc i * t < hi - i * t" using True \<open>0 < t\<close> by simp
    then obtain j where "for_step body t (int (Suc i * t)) (int hi) (g (Suc i)) = Inr (g j)" "hi \<le> j * t"
      using less.hyps [of "Suc i"] less.prems by blast
    with less.prems [OF True] True \<open>0 < t\<close> next_i have "for_step body t (int (i * t)) (int hi) (g i) = Inr (g j)"
      by (subst for_step.simps) (simp del: of_nat_mult mult_Suc cint32_Inr_iff)
    with \<open>hi \<le> j * t\<close> show ?thesis by blast
  next
    case False
    then have "for_step body t (int (i * t)) (int hi) (g i) = Inr (g i)"
      by (subst for_step.simps) (simp del: of_nat_mult)
    with False show ?thesis by (meson not_less)
  qed
qed

text \<open>
  The five loops of the product, from the inside. \<open>cnt\<close> is how far each element is; each loop raises
  it on the part of the matrix it goes over.
\<close>

lemma products_loop:
  assumes sizes: "gemm_sizes M N K" and arrays: "gemm_arrays M N K A B C"
    and r: "r < M" and k: "k + tk \<le> K" and l: "64 * l < N" and tn: "tn = min 64 (N - 64 * l)"
    and cnt: "\<And>c. 64 * l \<le> c \<Longrightarrow> c < 64 * l + tn \<Longrightarrow> cnt r c = k"
  shows "for_range (\<lambda>kk C. sgemm_update F lvl ld A B (int N) (int K) (int r) (int k + kk) (int (64 * l)) (int tn) C) 0 tk
      (gemm_grid F lvl ld A B C M N K cnt)
    = Inr (gemm_grid F lvl ld A B C M N K
        (\<lambda>r' c. if r' = r \<and> 64 * l \<le> c \<and> c < 64 * l + tn then k + tk else cnt r' c))"
proof -
  let ?cnt = "\<lambda>kk r' c. if r' = r \<and> 64 * l \<le> c \<and> c < 64 * l + tn then k + kk else cnt r' c"
  let ?g = "\<lambda>kk. gemm_grid F lvl ld A B C M N K (?cnt kk)"
  let ?body = "\<lambda>kk C. sgemm_update F lvl ld A B (int N) (int K) (int r) (int k + kk) (int (64 * l)) (int tn) C"
  have "?body (0 + int kk) (?g kk) = Inr (?g (Suc kk))" if "kk < tk" for kk
  proof -
    have "(\<lambda>r' c. if r' = r \<and> 64 * l \<le> c \<and> c < 64 * l + tn then Suc (k + kk) else ?cnt kk r' c) = ?cnt (Suc kk)"
      by (intro ext) simp
    then show ?thesis
      using sgemm_update_grid [OF sizes arrays r _ l tn, where cnt = "?cnt kk" and k = "k + kk"] that k by simp
  qed
  from for_range_states [where g = ?g and body = ?body and i = 0 and n = tk, OF this]
  have "for_range ?body 0 tk (?g 0) = Inr (?g tk)" .
  moreover have "?g 0 = gemm_grid F lvl ld A B C M N K cnt" by (rule gemm_grid_cong) (auto simp: cnt)
  ultimately show ?thesis by simp
qed

lemma rows_loop:
  assumes sizes: "gemm_sizes M N K" and arrays: "gemm_arrays M N K A B C"
    and m: "m + tm \<le> M" and k: "k + tk \<le> K" and l: "64 * l < N" and tn: "tn = min 64 (N - 64 * l)"
    and cnt: "\<And>r c. m \<le> r \<Longrightarrow> r < m + tm \<Longrightarrow> 64 * l \<le> c \<Longrightarrow> c < 64 * l + tn \<Longrightarrow> cnt r c = k"
  shows "for_range (\<lambda>ii C. for_range (\<lambda>kk C.
        sgemm_update F lvl ld A B (int N) (int K) (int m + ii) (int k + kk) (int (64 * l)) (int tn) C) 0 tk C) 0 tm
      (gemm_grid F lvl ld A B C M N K cnt)
    = Inr (gemm_grid F lvl ld A B C M N K
        (\<lambda>r c. if m \<le> r \<and> r < m + tm \<and> 64 * l \<le> c \<and> c < 64 * l + tn then k + tk else cnt r c))"
proof -
  let ?cnt = "\<lambda>ii r c. if m \<le> r \<and> r < m + ii \<and> 64 * l \<le> c \<and> c < 64 * l + tn then k + tk else cnt r c"
  let ?g = "\<lambda>ii. gemm_grid F lvl ld A B C M N K (?cnt ii)"
  let ?body = "\<lambda>ii C. for_range (\<lambda>kk C.
        sgemm_update F lvl ld A B (int N) (int K) (int m + ii) (int k + kk) (int (64 * l)) (int tn) C) 0 tk C"
  have "?body (0 + int ii) (?g ii) = Inr (?g (Suc ii))" if "ii < tm" for ii
  proof -
    have "?body (int ii) (?g ii) = Inr (gemm_grid F lvl ld A B C M N K
        (\<lambda>r' c. if r' = m + ii \<and> 64 * l \<le> c \<and> c < 64 * l + tn then k + tk else ?cnt ii r' c))"
      using products_loop [OF sizes arrays _ k l tn, where cnt = "?cnt ii" and r = "m + ii"] that m cnt by simp
    also have "gemm_grid F lvl ld A B C M N K
        (\<lambda>r' c. if r' = m + ii \<and> 64 * l \<le> c \<and> c < 64 * l + tn then k + tk else ?cnt ii r' c) = ?g (Suc ii)"
      by (rule gemm_grid_cong) auto
    finally show ?thesis by simp
  qed
  from for_range_states [where g = ?g and body = ?body and i = 0 and n = tm, OF this]
  have "for_range ?body 0 tm (?g 0) = Inr (?g tm)" .
  moreover have "?g 0 = gemm_grid F lvl ld A B C M N K cnt" by (rule gemm_grid_cong) auto
  ultimately show ?thesis by simp
qed

lemma products_tiles:
  assumes sizes: "gemm_sizes M N K" and arrays: "gemm_arrays M N K A B C"
    and m: "m < M" "tm = min 64 (M - m)" and l: "64 * l < N" "tn = min 64 (N - 64 * l)"
    and cnt: "\<And>r c. m \<le> r \<Longrightarrow> r < m + tm \<Longrightarrow> 64 * l \<le> c \<Longrightarrow> c < 64 * l + tn \<Longrightarrow> cnt r c = 0"
  shows "for_step (\<lambda>k C.
       let tm = min 64 (int M - int m); tn = min 64 (int N - int (64 * l)); tk = min 64 (int K - k) in
       for_range (\<lambda>ii C. for_range (\<lambda>kk C. sgemm_update F lvl ld A B (int N) (int K) (int m + ii) (k + kk) (int (64 * l)) tn C)
         0 (nat tk) C) 0 (nat tm) C) 64 0 (int K) (gemm_grid F lvl ld A B C M N K cnt)
    = Inr (gemm_grid F lvl ld A B C M N K
        (\<lambda>r c. if m \<le> r \<and> r < m + tm \<and> 64 * l \<le> c \<and> c < 64 * l + tn then K else cnt r c))"
proof -
  let ?cnt = "\<lambda>p r c. if m \<le> r \<and> r < m + tm \<and> 64 * l \<le> c \<and> c < 64 * l + tn then min K (p * 64) else cnt r c"
  let ?g = "\<lambda>p. gemm_grid F lvl ld A B C M N K (?cnt p)"
  let ?body = "\<lambda>k C. let tm = min 64 (int M - int m); tn = min 64 (int N - int (64 * l)); tk = min 64 (int K - k) in
       for_range (\<lambda>ii C. for_range (\<lambda>kk C. sgemm_update F lvl ld A B (int N) (int K) (int m + ii) (k + kk) (int (64 * l)) tn C)
         0 (nat tk) C) 0 (nat tm) C"
  have tile: "min 64 (int M - int m) = int tm" "min 64 (int N - int (64 * l)) = int tn" "m + tm \<le> M"
    using m l by linarith+
  have "?body (int (p * 64)) (?g p) = Inr (?g (Suc p))" if p: "p * 64 < K" for p
  proof -
    let ?tk = "min 64 (K - p * 64)"
    have tk: "min 64 (int K - int (p * 64)) = int ?tk" "p * 64 + ?tk = min K (Suc p * 64)" using p by (auto simp: min_def)
    have "?body (int (p * 64)) (?g p) = Inr (gemm_grid F lvl ld A B C M N K
        (\<lambda>r c. if m \<le> r \<and> r < m + tm \<and> 64 * l \<le> c \<and> c < 64 * l + tn then p * 64 + ?tk else ?cnt p r c))"
      unfolding Let_def tile(1,2) tk(1) nat_int
      by (rule rows_loop [OF sizes arrays tile(3) _ l]) (use p in auto)
    also have "gemm_grid F lvl ld A B C M N K
        (\<lambda>r c. if m \<le> r \<and> r < m + tm \<and> 64 * l \<le> c \<and> c < 64 * l + tn then p * 64 + ?tk else ?cnt p r c) = ?g (Suc p)"
      unfolding tk(2) by (rule gemm_grid_cong) auto
    finally show ?thesis .
  qed
  then obtain p where "for_step ?body 64 (int (0 * 64)) (int K) (?g 0) = Inr (?g p)" "K \<le> p * 64"
    using for_step_states [of 64 K ?body ?g 0] sizes by (auto simp: gemm_sizes_def)
  moreover have "?g 0 = gemm_grid F lvl ld A B C M N K cnt" by (rule gemm_grid_cong) (auto simp: cnt)
  ultimately show ?thesis by (simp add: min_absorb1 cong: if_cong)
qed

lemma columns_tiles:
  assumes sizes: "gemm_sizes M N K" and arrays: "gemm_arrays M N K A B C"
    and m: "m < M" "tm = min 64 (M - m)" and cnt: "\<And>r c. m \<le> r \<Longrightarrow> r < m + tm \<Longrightarrow> cnt r c = 0"
  shows "for_step (\<lambda>n C. for_step (\<lambda>k C.
       let tm = min 64 (int M - int m); tn = min 64 (int N - n); tk = min 64 (int K - k) in
       for_range (\<lambda>ii C. for_range (\<lambda>kk C. sgemm_update F lvl ld A B (int N) (int K) (int m + ii) (k + kk) n tn C)
         0 (nat tk) C) 0 (nat tm) C) 64 0 (int K) C) 64 0 (int N) (gemm_grid F lvl ld A B C M N K cnt)
    = Inr (gemm_grid F lvl ld A B C M N K (\<lambda>r c. if m \<le> r \<and> r < m + tm then K else cnt r c))"
proof -
  let ?cnt = "\<lambda>l r c. if m \<le> r \<and> r < m + tm \<and> c < l * 64 then K else cnt r c"
  let ?g = "\<lambda>l. gemm_grid F lvl ld A B C M N K (?cnt l)"
  let ?body = "\<lambda>n C. for_step (\<lambda>k C.
       let tm = min 64 (int M - int m); tn = min 64 (int N - n); tk = min 64 (int K - k) in
       for_range (\<lambda>ii C. for_range (\<lambda>kk C. sgemm_update F lvl ld A B (int N) (int K) (int m + ii) (k + kk) n tn C)
         0 (nat tk) C) 0 (nat tm) C) 64 0 (int K) C"
  have "?body (int (l * 64)) (?g l) = Inr (?g (Suc l))" if l: "l * 64 < N" for l
  proof -
    let ?tn = "min 64 (N - 64 * l)"
    have "?body (int (64 * l)) (?g l) = Inr (gemm_grid F lvl ld A B C M N K
        (\<lambda>r c. if m \<le> r \<and> r < m + tm \<and> 64 * l \<le> c \<and> c < 64 * l + ?tn then K else ?cnt l r c))"
      by (rule products_tiles [OF sizes arrays m]) (use l cnt in \<open>auto simp: mult.commute\<close>)
    also have "gemm_grid F lvl ld A B C M N K
        (\<lambda>r c. if m \<le> r \<and> r < m + tm \<and> 64 * l \<le> c \<and> c < 64 * l + ?tn then K else ?cnt l r c) = ?g (Suc l)"
      by (rule gemm_grid_cong) auto
    finally show ?thesis by (simp add: mult.commute)
  qed
  then obtain l where l: "for_step ?body 64 (int (0 * 64)) (int N) (?g 0) = Inr (?g l)" "N \<le> l * 64"
    using for_step_states [of 64 N ?body ?g 0] sizes by (auto simp: gemm_sizes_def)
  have "?g l = gemm_grid F lvl ld A B C M N K (\<lambda>r c. if m \<le> r \<and> r < m + tm then K else cnt r c)"
    "?g 0 = gemm_grid F lvl ld A B C M N K cnt"
    using l(2) by (auto intro!: gemm_grid_cong)
  with l(1) show ?thesis by simp
qed

lemma sgemm_impl_run:
  assumes sizes: "gemm_sizes M N K" and arrays: "gemm_arrays M N K A B C"
  shows "sgemm_impl F lvl ld A B C (int M) (int N) (int K) = Inr (gemm_grid F lvl ld A B C M N K (\<lambda>_ _. K))"
proof -
  let ?cnt = "\<lambda>j r c. if r < j * 64 then K else 0"
  let ?g = "\<lambda>j. gemm_grid F lvl ld A B C M N K (?cnt j)"
  let ?body = "\<lambda>m C. for_step (\<lambda>n C. for_step (\<lambda>k C.
       let tm = min 64 (int M - m); tn = min 64 (int N - n); tk = min 64 (int K - k) in
       for_range (\<lambda>ii C. for_range (\<lambda>kk C. sgemm_update F lvl ld A B (int N) (int K) (m + ii) (k + kk) n tn C)
         0 (nat tk) C) 0 (nat tm) C) 64 0 (int K) C) 64 0 (int N) C"
  have "?body (int (j * 64)) (?g j) = Inr (?g (Suc j))" if j: "j * 64 < M" for j
  proof -
    let ?tm = "min 64 (M - j * 64)"
    have "?body (int (j * 64)) (?g j) = Inr (gemm_grid F lvl ld A B C M N K
        (\<lambda>r c. if j * 64 \<le> r \<and> r < j * 64 + ?tm then K else ?cnt j r c))"
      by (rule columns_tiles [OF sizes arrays j]) auto
    also have "gemm_grid F lvl ld A B C M N K (\<lambda>r c. if j * 64 \<le> r \<and> r < j * 64 + ?tm then K else ?cnt j r c) = ?g (Suc j)"
      by (rule gemm_grid_cong) auto
    finally show ?thesis .
  qed
  then obtain j where j: "for_step ?body 64 (int (0 * 64)) (int M) (?g 0) = Inr (?g j)" "M \<le> j * 64"
    using for_step_states [of 64 M ?body ?g 0] sizes by (auto simp: gemm_sizes_def)
  have "?g j = gemm_grid F lvl ld A B C M N K (\<lambda>_ _. K)" using j(2) by (auto intro!: gemm_grid_cong)
  moreover have "memset_zero F C (wrap64 (wrap64 (size_of_int (int M) * size_of_int (int N)) * 4)) = Inr (?g 0)"
  proof -
    have "int32_ok (int M)" "int32_ok (int N)" using sizes by (auto simp: gemm_sizes_def int32_ok_def)
    moreover have small: "M * N < 2 ^ 31" using sizes by (intro int32_nat_less) (simp add: gemm_sizes_def)
    ultimately have bytes: "wrap64 (wrap64 (size_of_int (int M) * size_of_int (int N)) * 4) = M * N * 4" by simp
    have "M * N \<le> length C" using arrays by (simp add: gemm_arrays_def)
    then show ?thesis
      by (simp add: memset_zero_def bytes write_at_def copy_floats_def gemm_grid_def)
        (rule nth_equalityI; simp add: nth_append gemm_element_def)
  qed
  ultimately show ?thesis using j(1) by (simp add: sgemm_impl_def)
qed

end
