(* ===== verification/Linear_Kernels.thy ===== *)
theory Linear_Kernels
  imports Gemm_Tiling
begin

text \<open>
  What the matrix products compute: the tiled product element by element for any arithmetic, and in
  exact arithmetic the matrix product, for every format of the weights.
\<close>

section \<open>Matrices\<close>

text \<open>The matrix whose element in row \<open>r\<close> and column \<open>c\<close> is \<open>e r c\<close>.\<close>

definition of_matrix :: "nat \<Rightarrow> (nat \<Rightarrow> nat \<Rightarrow> 'f) \<Rightarrow> nat \<Rightarrow> 'f" where
  "of_matrix N e i = e (i div N) (i mod N)"

lemma of_matrix_at: "c < N \<Longrightarrow> of_matrix N e (r * N + c) = e r c"
  by (simp add: of_matrix_def)

lemma matrix_elements:
  assumes "M * N \<le> length C"
  shows "length (filled_to (of_matrix N e) (M * N) C) = length C"
    and "r < M \<Longrightarrow> c < N \<Longrightarrow> filled_to (of_matrix N e) (M * N) C ! (r * N + c) = e r c"
    and "M * N \<le> i \<Longrightarrow> i < length C \<Longrightarrow> filled_to (of_matrix N e) (M * N) C ! i = C ! i"
  using assms nested_index [of r M c N] by (simp_all add: filled_to_nth filled_to_beyond of_matrix_at)

section \<open>Products with a transposed matrix\<close>

definition nt_sizes :: "nat \<Rightarrow> nat \<Rightarrow> nat \<Rightarrow> bool" where
  "nt_sizes M N K \<longleftrightarrow> int32_ok (int (M * K)) \<and> int32_ok (int (N * K)) \<and> int32_ok (int (M * N)) \<and> int32_ok (int N + 3)
     \<and> int32_ok (int M) \<and> int32_ok (int K)"

definition nt_arrays :: "nat \<Rightarrow> nat \<Rightarrow> nat \<Rightarrow> 'f list \<Rightarrow> 'w list \<Rightarrow> 'g list \<Rightarrow> bool" where
  "nt_arrays M N K A B C \<longleftrightarrow> M * K \<le> length A \<and> N * K \<le> length B \<and> M * N \<le> length C"

definition nt_element ::
  "('f, 'z) cpu_ops_scheme \<Rightarrow> simd_level \<Rightarrow> ('w \<Rightarrow> 'f) \<Rightarrow> 'f list \<Rightarrow> 'w list \<Rightarrow> nat \<Rightarrow> nat \<Rightarrow> nat \<Rightarrow> 'f"
where
  "nt_element F lvl ld A B K m n = simd_dot_fma F lvl (row_at K m A) (map ld (row_at K n B))"

lemma read_row_at:
  "off = int (r * w) \<Longrightarrow> r * w + w \<le> length xs \<Longrightarrow> read_at xs off (int w) = Inr (row_at w r xs)"
  by (simp add: read_at_def read_floats_def row_at_def del: of_nat_mult)

lemma nt_dot_run:
  assumes "nt_sizes M N K" and "nt_arrays M N K A B C" and "m < M" and "n < N"
  shows "nt_dot F lvl ld A B (int K) (int (m * K)) (int n) = Inr (nt_element F lvl ld A B K m n)"
proof -
  have fits: "m * K + K \<le> M * K" "n * K + K \<le> N * K" using assms(3,4) by (simp_all only: row_fits)
  then have "row_offset (int n) (int K) = Inr (int (n * K))"
    using assms(1) by (intro row_offset_fits [of "N * K"]) (simp_all add: nt_sizes_def)
  moreover have "read_at A (int (m * K)) (int K) = Inr (row_at K m A)" "read_at B (int (n * K)) (int K) = Inr (row_at K n B)"
    using fits assms(2) by (auto simp: nt_arrays_def intro!: read_row_at)
  ultimately show ?thesis by (simp add: nt_dot_def nt_element_def del: of_nat_mult)
qed

lemma nt_columns_run:
  assumes sizes: "nt_sizes M N K" and arrays: "nt_arrays M N K A B C" and m: "m < M" and "n \<le> N"
    and e_def: "e = of_matrix N (nt_element F lvl ld A B K)"
  shows "nt_columns F lvl ld A B (int N) (int K) (int (m * K)) (int (m * N)) (int n) (filled_to e (m * N + n) C)
    = Inr (filled_to e (Suc m * N) C)"
  using \<open>n \<le> N\<close>
proof (induction "N - n" arbitrary: n rule: less_induct)
  case less
  have fits: "m * N + N \<le> length C" using row_fits [OF m, of N] arrays by (simp add: nt_arrays_def)
  have e: "e (m * N + c) = nt_element F lvl ld A B K m c" if "c < N" for c
    using that by (simp add: e_def of_matrix_at)
  have dot: "nt_dot F lvl ld A B (int K) (int (m * K)) (int c) = Inr (e (m * N + c))" if "c < N" for c
    unfolding e [OF that] by (rule nt_dot_run [OF sizes arrays m that])
  have next_n: "cint32 (int n + 3) = Inr (int n + 3)"
    using sizes less.prems by (intro cint32_ok) (simp add: nt_sizes_def int32_ok_def)
  show ?case
  proof (cases "n + 3 < N")
    case True
    have block: "[e (m * N + n), e (m * N + (n + 1)), e (m * N + (n + 2)), e (m * N + (n + 3))] = map e [m * N + n..<m * N + n + 4]"
      by (simp add: upt_rec numeral_eq_Suc)
    have "write_at (filled_to e (m * N + n) C) (int (m * N) + int n)
        [e (m * N + n), e (m * N + (n + 1)), e (m * N + (n + 2)), e (m * N + (n + 3))]
        = Inr (filled_to e (m * N + n + 4) C)"
      unfolding block using True fits by (intro write_filled_to) simp_all
    moreover have "nt_columns F lvl ld A B (int N) (int K) (int (m * K)) (int (m * N)) (int n + 4) (filled_to e (m * N + n + 4) C)
        = Inr (filled_to e (Suc m * N) C)"
      using less.hyps [of "n + 4"] True by (simp add: add.assoc)
    moreover have "nt_dot F lvl ld A B (int K) (int (m * K)) (int n + int j) = Inr (e (m * N + (n + j)))" if "j < 4" for j
      using dot [of "n + j"] that True by simp
    from this [of 0] this [of 1] this [of 2] this [of 3]
    have "nt_dot F lvl ld A B (int K) (int (m * K)) (int n) = Inr (e (m * N + n))"
      "nt_dot F lvl ld A B (int K) (int (m * K)) (int n + 1) = Inr (e (m * N + (n + 1)))"
      "nt_dot F lvl ld A B (int K) (int (m * K)) (int n + 2) = Inr (e (m * N + (n + 2)))"
      "nt_dot F lvl ld A B (int K) (int (m * K)) (int n + 3) = Inr (e (m * N + (n + 3)))" by simp_all
    ultimately show ?thesis
      using True by (subst nt_columns.simps) (simp add: next_n del: of_nat_mult cint32_Inr_iff)
  next
    case False
    let ?body = "\<lambda>n C. rbind (nt_dot F lvl ld A B (int K) (int (m * K)) n) (\<lambda>d. write_at C (int (m * N) + n) [d])"
    have "for_range ?body (int n) (N - n) (filled_to e (m * N + n) C) = Inr (filled_to e (m * N + n + (N - n)) C)"
    proof (rule for_range_fill_to)
      fix j assume "j < N - n"
      then show "?body (int n + int j) (filled_to e (m * N + n + j) C)
          = write_at (filled_to e (m * N + n + j) C) (int (m * N + n + j)) [e (m * N + n + j)]"
        using dot [of "n + j"] by (simp add: add.assoc)
    qed (use fits less.prems in simp)
    moreover have "nat (int N - int n) = N - n" by simp
    ultimately show ?thesis using False less.prems
      by (subst nt_columns.simps) (simp add: next_n add.commute del: of_nat_mult cint32_Inr_iff)
  qed
qed

lemma sgemm_nt_impl_run:
  assumes sizes: "nt_sizes M N K" and arrays: "nt_arrays M N K A B C"
  shows "sgemm_nt_impl F lvl ld A B C (int M) (int N) (int K)
    = Inr (filled_to (of_matrix N (nt_element F lvl ld A B K)) (M * N) C)"
proof -
  let ?e = "of_matrix N (nt_element F lvl ld A B K)"
  let ?body = "\<lambda>m C. rbind (row_offset m (int K)) (\<lambda>ao. rbind (row_offset m (int N)) (\<lambda>co.
       nt_columns F lvl ld A B (int N) (int K) ao co 0 C))"
  have "?body (0 + int m) (filled_to ?e (m * N) C) = Inr (filled_to ?e (Suc m * N) C)" if m: "m < M" for m
  proof -
    have "row_offset (int m) (int K) = Inr (int (m * K))" "row_offset (int m) (int N) = Inr (int (m * N))"
      using sizes row_fits [OF m] by (auto simp: nt_sizes_def intro: row_offset_fits simp del: of_nat_mult)
    then show ?thesis using nt_columns_run [OF sizes arrays m, of 0, OF _ refl] by (simp del: of_nat_mult)
  qed
  from for_range_states [where g = "\<lambda>m. filled_to ?e (m * N) C" and body = ?body and i = 0 and n = M, OF this]
  show ?thesis by (simp add: sgemm_nt_impl_def)
qed

section \<open>Q8_0 weights\<close>

text \<open>The weight at position \<open>i\<close> of packed blocks, and blocks that hold \<open>n\<close> weights.\<close>

definition q8_element :: "('f, 'z) cpu_ops_scheme \<Rightarrow> 8 word list \<Rightarrow> nat \<Rightarrow> 'f" where
  "q8_element F bytes i =
     f_mul F (q8_0_scale F (take 2 (drop (i div 32 * 34) bytes)))
       (f_of_int F (sint (bytes ! (i div 32 * 34 + 2 + i mod 32))))"

definition q8_blocks :: "nat \<Rightarrow> 8 word list \<Rightarrow> bool" where
  "q8_blocks n bytes \<longleftrightarrow> (n + 31) div 32 * 34 \<le> length bytes"

lemma q8_0_value_run:
  assumes "q8_blocks n bytes" and "i < n" and "n < 2 ^ 31"
  shows "q8_0_value F bytes i = Inr (q8_element F bytes i)"
proof -
  have "i div 32 < (n + 31) div 32" using assms(2) by (simp add: div_less_iff_less_mult)
  then have block: "i div 32 * 34 + 34 \<le> length bytes"
    using row_fits [of "i div 32" "(n + 31) div 32" 34] assms(1) by (simp add: q8_blocks_def)
  have "i div 32 * 34 \<le> i * 34" by (intro mult_le_mono1) simp
  then have "i div 32 * 34 < 2 ^ 64" using assms(2,3) by simp
  moreover have "i mod 32 < 32" by simp
  ultimately show ?thesis using block
    by (simp add: q8_0_value_def q8_element_def read_floats_def Let_def)
qed

definition q8_dot :: "('f, 'z) cpu_ops_scheme \<Rightarrow> 'f list \<Rightarrow> 8 word list \<Rightarrow> nat \<Rightarrow> nat \<Rightarrow> nat \<Rightarrow> 'f" where
  "q8_dot F A B K m n =
     foldl (\<lambda>acc k. f_add F acc (f_mul F (A ! (m * K + k)) (q8_element F B (n * K + k)))) (f_zero F) [0..<K]"

lemma q8_0_dot_run:
  assumes sizes: "nt_sizes M N K" and "M * K \<le> length A" and "q8_blocks (N * K) B" and "m < M" and "n < N"
  shows "q8_0_dot_contiguous F A (int (m * K)) B (n * K) (int K) = Inr (q8_dot F A B K m n)"
proof -
  let ?body = "\<lambda>i acc. rbind (read_at A (int (m * K) + i) 1) (\<lambda>a. rbind (q8_0_value F B (wrap64 (n * K + nat i))) (\<lambda>b.
       Inr (f_add F acc (f_mul F (a ! 0) b))))"
  let ?g = "\<lambda>k. foldl (\<lambda>acc k. f_add F acc (f_mul F (A ! (m * K + k)) (q8_element F B (n * K + k)))) (f_zero F) [0..<k]"
  have NK: "N * K < 2 ^ 31" using sizes by (intro int32_nat_less) (simp add: nt_sizes_def)
  have "?body (0 + int k) (?g k) = Inr (?g (Suc k))" if k: "k < K" for k
  proof -
    have i: "m * K + k < length A" "n * K + k < N * K" using nested_index [OF assms(4) k] nested_index [OF assms(5) k] assms(2) by simp_all
    have "read_at A (int (m * K) + int k) 1 = Inr [A ! (m * K + k)]"
      using read_at_nth [of "int (m * K + k)" 1 A] i(1) by (simp add: nat_add_distrib del: of_nat_mult)
    moreover have "q8_0_value F B (wrap64 (n * K + k)) = Inr (q8_element F B (n * K + k))"
      using i(2) NK q8_0_value_run [OF assms(3) i(2) NK, of F] by simp
    ultimately show ?thesis by (simp del: of_nat_mult)
  qed
  from for_range_states [where g = ?g and body = ?body and i = 0 and n = K, OF this]
  show ?thesis by (simp add: q8_0_dot_contiguous_def q8_dot_def)
qed

lemma sgemm_nt_q8_run:
  assumes sizes: "nt_sizes M N K" and arrays: "M * K \<le> length A" "q8_blocks (N * K) B" "M * N \<le> length C"
  shows "sgemm_nt_q8 F A B C (int M) (int N) (int K) = Inr (filled_to (of_matrix N (q8_dot F A B K)) (M * N) C)"
proof -
  let ?e = "of_matrix N (q8_dot F A B K)"
  let ?row = "\<lambda>m n C. rbind (q8_0_dot_contiguous F A (int (wrap64 (size_of_int m * size_of_int (int K)))) B
        (wrap64 (size_of_int n * size_of_int (int K))) (int K)) (\<lambda>d.
      write_at C (int (wrap64 (size_of_int m * size_of_int (int N))) + n) [d])"
  have ok: "int32_ok (int (M * K))" "int32_ok (int (N * K))" "int32_ok (int (M * N))" "int32_ok (int M)" "int32_ok (int K)"
    "int32_ok (int N)"
    using sizes by (auto simp: nt_sizes_def int32_ok_def)
  have wraps: "wrap64 (size_of_int (int i) * size_of_int (int k)) = i * k" if "i * k < 2 ^ 31" "int32_ok (int i)" "int32_ok (int k)" for i k
    using that by simp
  have "for_range (?row (0 + int m)) 0 N (filled_to ?e (m * N) C) = Inr (filled_to ?e (Suc m * N) C)" if m: "m < M" for m
  proof -
    have fits: "m * K + K \<le> M * K" "m * N + N \<le> M * N" using m by (simp_all only: row_fits)
    have okm: "int32_ok (int m)" using ok(4) m by (simp add: int32_ok_def)
    have offs: "wrap64 (size_of_int (int m) * size_of_int (int K)) = m * K" "wrap64 (size_of_int (int m) * size_of_int (int N)) = m * N"
      using fits int32_nat_less [OF ok(1)] int32_nat_less [OF ok(3)] okm ok(5,6) by (intro wraps; linarith)+
    have "for_range (?row (int m)) 0 N (filled_to ?e (m * N) C) = Inr (filled_to ?e (m * N + N) C)"
    proof (rule for_range_fill_to)
      fix n assume n: "n < N"
      have "n * K + K \<le> N * K" using n by (rule row_fits)
      moreover have "int32_ok (int n)" using ok(6) n by (simp add: int32_ok_def)
      ultimately have "wrap64 (size_of_int (int n) * size_of_int (int K)) = n * K"
        using int32_nat_less [OF ok(2)] ok(5) by (intro wraps) linarith+
      moreover have "?e (m * N + n) = q8_dot F A B K m n" using n by (rule of_matrix_at)
      ultimately show "?row (int m) (0 + int n) (filled_to ?e (m * N + n) C)
          = write_at (filled_to ?e (m * N + n) C) (int (m * N + n)) [?e (m * N + n)]"
        using q8_0_dot_run [OF sizes arrays(1,2) m n, of F] by (simp add: offs del: of_nat_mult)
    qed (use fits arrays(3) in simp)
    then show ?thesis by (simp add: add.commute)
  qed
  from for_range_states [where g = "\<lambda>m. filled_to ?e (m * N) C" and body = "\<lambda>m. for_range (?row m) 0 N" and i = 0 and n = M, OF this]
  show ?thesis by (simp add: sgemm_nt_q8_def)
qed

section \<open>Exact arithmetic\<close>

lemma nt_element_exact:
  assumes "\<And>i. i < N * K \<Longrightarrow> ld (B ! i) = Fin (W i)" and "m < M" and "n < N" and "M * K \<le> length a" and "N * K \<le> length B"
  shows "nt_element x_ops lvl ld (map Fin a) B K m n = Fin (\<Sum>k < K. a ! (m * K + k) * W (n * K + k))"
proof -
  have fits: "m * K + K \<le> length a" "n * K + K \<le> length B" "n * K + K \<le> N * K"
    using row_fits [OF assms(2), of K] row_fits [OF assms(3), of K] assms(4,5) by linarith+
  then have "map ld (row_at K n B) = map Fin (map (\<lambda>k. W (n * K + k)) [0..<K])"
    by (intro nth_equalityI) (simp_all add: row_at_def assms(1))
  moreover have "length (row_at K m a) = K" "\<And>k. k < K \<Longrightarrow> row_at K m a ! k = a ! (m * K + k)"
    using fits by (simp_all add: row_at_def)
  ultimately show ?thesis
    using simd_dot_fin(2) [of "row_at K m a" "map (\<lambda>k. W (n * K + k)) [0..<K]" lvl]
    by (simp add: nt_element_def row_at_map del: map_map)
qed

lemma gemm_element_exact:
  assumes "\<And>j. j < k \<Longrightarrow> ld (B ! (j * N + c)) = Fin (W j)" and "r * K + k \<le> length a"
  shows "gemm_element x_ops lvl ld (map Fin a) B N K r c k = Fin (\<Sum>j < k. a ! (r * K + j) * W j)"
  using assms by (induction k) (simp_all add: gemm_element_def gemm_step_def x_add_comm)

lemma q8_dot_exact:
  assumes "\<And>k. k < K \<Longrightarrow> q8_element x_ops B (n * K + k) = Fin (W k)" and "m * K + K \<le> length a"
  shows "q8_dot x_ops (map Fin a) B K m n = Fin (\<Sum>k < K. a ! (m * K + k) * W k)"
proof -
  have "foldl (\<lambda>acc k. x_add acc (x_mul (map Fin a ! (m * K + k)) (q8_element x_ops B (n * K + k)))) (Fin 0) [0..<j]
      = Fin (\<Sum>k < j. a ! (m * K + k) * W k)" if "j \<le> K" for j
    using that assms by (induction j) simp_all
  then show ?thesis by (simp add: q8_dot_def)
qed

section \<open>The properties\<close>

lemma gemm_grid_elements:
  assumes "M * N \<le> length C"
  shows "r < M \<Longrightarrow> c < N \<Longrightarrow> gemm_grid F lvl ld A B C M N K cnt ! (r * N + c) = gemm_element F lvl ld A B N K r c (cnt r c)"
    and "M * N \<le> i \<Longrightarrow> i < length C \<Longrightarrow> gemm_grid F lvl ld A B C M N K cnt ! i = C ! i"
  using assms nested_index [of r M c N] by (simp_all add: gemm_grid_def)

text \<open>C8. Tiling does not show: for any arithmetic, whatever its rounding, and any format of the weights, the
  tiled and vectorised product leaves in row \<open>r\<close> and column \<open>c\<close> the sum of the products \<open>A[r,k] * B[k,c]\<close>
  accumulated in the order \<open>k = 0, 1, ...\<close> of the plain triple loop, with fused multiply-adds exactly in the
  columns of whole vectors, and writes nothing behind the matrix.\<close>

theorem tiled_product_is_plain_product:
  assumes "gemm_sizes M N K" and "gemm_arrays M N K A B C"
  shows "\<exists>C'. sgemm_impl F lvl ld A B C (int M) (int N) (int K) = Inr C' \<and> length C' = length C
    \<and> (\<forall>r < M. \<forall>c < N. C' ! (r * N + c)
        = foldl (\<lambda>acc k. gemm_step F lvl N c acc (A ! (r * K + k)) (ld (B ! (k * N + c)))) (f_zero F) [0..<K])
    \<and> (\<forall>i < length C. M * N \<le> i \<longrightarrow> C' ! i = C ! i)"
proof -
  have len: "M * N \<le> length C" using assms(2) by (simp add: gemm_arrays_def)
  let ?C = "gemm_grid F lvl ld A B C M N K (\<lambda>_ _. K)"
  have "?C ! (r * N + c) = gemm_element F lvl ld A B N K r c K" if "r < M" "c < N" for r c
    by (rule gemm_grid_elements(1) [OF len that])
  moreover have "?C ! i = C ! i" if "M * N \<le> i" "i < length C" for i
    by (rule gemm_grid_elements(2) [OF len that])
  moreover have "length ?C = length C" by (simp add: gemm_grid_def)
  ultimately show ?thesis using sgemm_impl_run [OF assms, of F lvl ld] by (auto simp: gemm_element_def)
qed

theorem tiled_product_is_plain_product_witness:
  "\<exists>C'. sgemm_impl x_ops SSE2 (\<lambda>x. x) [Fin 2, Fin 3] [Fin 5, Fin 7] [PInf, MInf] 1 1 2 = Inr C'
     \<and> C' ! 0 = Fin 31 \<and> C' ! 1 = MInf"
proof -
  have "gemm_sizes 1 1 2" "gemm_arrays 1 1 2 [Fin 2, Fin 3] [Fin 5, Fin 7] [PInf, MInf]"
    by (simp_all add: gemm_sizes_def gemm_arrays_def int32_ok_def)
  from tiled_product_is_plain_product [OF this, of x_ops SSE2 "\<lambda>x. x"] show ?thesis
    by (auto simp: gemm_step_def vector_part_def eval_simps)
qed

text \<open>C9. A linear layer is a matrix product, in every format: in exact arithmetic \<open>sgemm_nt\<close> with weights of any
  format, \<open>sgemm_nt\<close> with Q8_0 blocks and \<open>sgemm\<close> with the transposed matrix leave the same output when
  their weights stand for the same numbers \<open>W\<close>: element \<open>(m, n)\<close> is the sum of \<open>A[m,k] * W[n,k]\<close>.\<close>

theorem linear_formats_agree:
  assumes nt: "nt_sizes M N K" "nt_arrays M N K a B C" and t: "gemm_sizes M N K" "gemm_arrays M N K a Bt C"
    and q8: "q8_blocks (N * K) Bq"
    and W: "\<And>i. i < N * K \<Longrightarrow> ld (B ! i) = Fin (W i)" "\<And>i. i < N * K \<Longrightarrow> q8_element x_ops Bq i = Fin (W i)"
      "\<And>n k. n < N \<Longrightarrow> k < K \<Longrightarrow> ld' (Bt ! (k * N + n)) = Fin (W (n * K + k))"
  shows "\<exists>C'. sgemm_nt_impl x_ops lvl ld (map Fin a) B C (int M) (int N) (int K) = Inr C'
    \<and> sgemm_nt_q8 x_ops (map Fin a) Bq C (int M) (int N) (int K) = Inr C'
    \<and> sgemm_impl x_ops lvl' ld' (map Fin a) Bt C (int M) (int N) (int K) = Inr C'
    \<and> (\<forall>m < M. \<forall>n < N. C' ! (m * N + n) = Fin (\<Sum>k < K. a ! (m * K + k) * W (n * K + k)))
    \<and> (\<forall>i < length C. M * N \<le> i \<longrightarrow> C' ! i = C ! i)"
proof -
  let ?e = "\<lambda>m n. Fin (\<Sum>k < K. a ! (m * K + k) * W (n * K + k))"
  have len: "M * N \<le> length C" "M * K \<le> length a" "N * K \<le> length B" using nt(2) by (simp_all add: nt_arrays_def)
  have eq: "filled_to (of_matrix N e) (M * N) C = filled_to (of_matrix N ?e) (M * N) C"
    if "\<And>m n. m < M \<Longrightarrow> n < N \<Longrightarrow> e m n = ?e m n" for e
  proof -
    have "e (i div N) (i mod N) = ?e (i div N) (i mod N)" if "i < M * N" for i
    proof -
      have "0 < N" using that by (cases N) auto
      with that show ?thesis by (intro \<open>\<And>m n. m < M \<Longrightarrow> n < N \<Longrightarrow> e m n = ?e m n\<close>) (simp_all add: less_mult_imp_div_less)
    qed
    then show ?thesis by (simp add: filled_to_def of_matrix_def)
  qed
  have fits: "m * K + K \<le> length a" if "m < M" for m using row_fits [OF that, of K] len(2) by linarith
  have nt_exact: "nt_element x_ops lvl ld (map Fin a) B K m n = ?e m n" if "m < M" "n < N" for m n
    using W(1) that len(2,3) by (intro nt_element_exact [where W = W and M = M and N = N]) auto
  have "sgemm_nt_impl x_ops lvl ld (map Fin a) B C (int M) (int N) (int K) = Inr (filled_to (of_matrix N ?e) (M * N) C)"
    using nt by (subst sgemm_nt_impl_run) (auto simp: nt_arrays_def nt_exact intro!: eq)
  moreover have q8_exact: "q8_dot x_ops (map Fin a) Bq K m n = ?e m n" if "m < M" "n < N" for m n
    using W(2) nested_index [OF that(2)] fits [OF that(1)] by (intro q8_dot_exact) auto
  moreover have "sgemm_nt_q8 x_ops (map Fin a) Bq C (int M) (int N) (int K) = Inr (filled_to (of_matrix N ?e) (M * N) C)"
    using nt(1) len q8 by (subst sgemm_nt_q8_run) (auto simp: q8_exact intro!: eq)
  moreover have "sgemm_impl x_ops lvl' ld' (map Fin a) Bt C (int M) (int N) (int K) = Inr (filled_to (of_matrix N ?e) (M * N) C)"
  proof -
    have "gemm_arrays M N K (map Fin a) Bt C" using t(2) by (simp add: gemm_arrays_def)
    moreover have "filled_to (of_matrix N (\<lambda>r c. gemm_element x_ops lvl' ld' (map Fin a) Bt N K r c K)) (M * N) C
        = filled_to (of_matrix N ?e) (M * N) C"
      using W(3) fits by (intro eq gemm_element_exact) auto
    moreover have "gemm_grid x_ops lvl' ld' (map Fin a) Bt C M N K (\<lambda>_ _. K)
        = filled_to (of_matrix N (\<lambda>r c. gemm_element x_ops lvl' ld' (map Fin a) Bt N K r c K)) (M * N) C"
      using len(1) by (intro nth_equalityI) (simp_all add: gemm_grid_def filled_to_def of_matrix_def nth_append)
    ultimately show ?thesis by (simp add: sgemm_impl_run [OF t(1)])
  qed
  ultimately show ?thesis using matrix_elements [OF len(1), where e = ?e] by auto
qed

text \<open>One Q8_0 block with the scale 1 (0x3C00 in half precision) and the weights 2, 3, 0, ...\<close>

definition demo_block :: "8 word list" where
  "demo_block = [0, 0x3C, 2, 3] @ replicate 30 0"

lemma demo_block_elements: "i < 2 \<Longrightarrow> q8_element x_ops demo_block i = Fin ([2, 3] ! i)"
proof -
  have "q8_0_scale x_ops [0, 0x3C] = Fin 1"
    by (simp add: q8_0_scale_def f16_to_f32_def x_ldexp_def Let_def power_int_minus)
  then show "i < 2 \<Longrightarrow> q8_element x_ops demo_block i = Fin ([2, 3] ! i)"
    by (auto simp: q8_element_def demo_block_def less_Suc_eq numeral_2_eq_2)
qed

theorem linear_formats_agree_witness:
  "\<exists>C'. sgemm_nt x_ops AVX512 (map Fin [5, 7]) [Fin 2, Fin 3] [NaN] 1 1 2 = Inr C'
     \<and> sgemm_nt_q8 x_ops (map Fin [5, 7]) demo_block [NaN] 1 1 2 = Inr C' \<and> C' ! 0 = Fin 31"
proof -
  let ?a = "[5, 7] :: real list" and ?B = "[Fin 2, Fin 3]" and ?W = "\<lambda>i. [2, 3] ! i :: real"
  have "nt_sizes 1 1 2" "nt_arrays 1 1 2 ?a ?B [NaN]" "gemm_sizes 1 1 2" "gemm_arrays 1 1 2 ?a ?B [NaN]"
    "q8_blocks (1 * 2) demo_block"
    by (simp_all add: nt_sizes_def nt_arrays_def gemm_sizes_def gemm_arrays_def int32_ok_def q8_blocks_def demo_block_def)
  moreover have "?B ! i = Fin (?W i)" if "i < 2" for i using that by (auto simp: less_Suc_eq numeral_2_eq_2)
  ultimately have "\<exists>C'. sgemm_nt_impl x_ops AVX512 (\<lambda>x. x) (map Fin ?a) ?B [NaN] (int 1) (int 1) (int 2) = Inr C'
      \<and> sgemm_nt_q8 x_ops (map Fin ?a) demo_block [NaN] (int 1) (int 1) (int 2) = Inr C'
      \<and> sgemm_impl x_ops SSE2 (\<lambda>x. x) (map Fin ?a) ?B [NaN] (int 1) (int 1) (int 2) = Inr C'
      \<and> (\<forall>m < 1. \<forall>n < 1. C' ! (m * 1 + n) = Fin (\<Sum>k < 2. ?a ! (m * 2 + k) * ?W (n * 2 + k)))
      \<and> (\<forall>i < length [NaN]. 1 * 1 \<le> i \<longrightarrow> C' ! i = [NaN] ! i)"
    by (intro linear_formats_agree) (simp_all add: demo_block_elements)
  then show ?thesis by (auto simp: sgemm_nt_def numeral_2_eq_2)
qed

end
