(* ===== verification/Row_Kernels.thy ===== *)
theory Row_Kernels
  imports Attention_Kernels Linear_Kernels
begin

text \<open>
  The kernels that work row by row: normalisation, softmax and rotary positions, in exact arithmetic.
\<close>

section \<open>Loops over rows\<close>

definition row_sizes :: "simd_level \<Rightarrow> nat \<Rightarrow> nat \<Rightarrow> bool" where
  "row_sizes lvl rows w \<longleftrightarrow> int32_ok (int (rows * w)) \<and> int32_ok (int (w + simd_width lvl))"

lemma simd_bound_ok:
  assumes "int32_ok (int (w + simd_width lvl))"
  shows "simd_bound lvl (int w) = Inr (int (w div simd_width lvl * simd_width lvl + simd_width lvl))"
proof -
  have "w div simd_width lvl * simd_width lvl + simd_width lvl \<le> w + simd_width lvl" by simp
  then show ?thesis using cint32_nat [OF assms] by (simp add: simd_bound_def del: of_nat_mult of_nat_add cint32_Inr_iff)
qed

lemma row_loop:
  assumes sizes: "int32_ok (int (rows * w))" "rows * w \<le> length y"
    and body: "\<And>r z. r < rows \<Longrightarrow> length z = length y \<Longrightarrow> body (int r) (int (r * w)) z = write_at z (int (r * w)) (f r)"
    and len: "\<And>r. r < rows \<Longrightarrow> length (f r) = w"
  shows "for_range (\<lambda>r y. rbind (row_offset r (int w)) (\<lambda>off. body r off y)) 0 rows y = Inr (filled f rows w y)"
proof (rule for_range_fill [OF _ len sizes(2)])
  fix r assume r: "r < rows"
  have "row_offset (int r) (int w) = Inr (int (r * w))" using sizes(1) row_fits [OF r, of w] by (rule row_offset_fits)
  moreover have "length (filled f r w y) = length y"
    using len r sizes(2) row_fits [OF r, of w] by (intro length_filled) auto
  ultimately show "rbind (row_offset (int r) (int w)) (\<lambda>off. body (int r) off (filled f r w y))
      = write_at (filled f r w y) (int (r * w)) (f r)" using body [OF r] by (simp del: of_nat_mult)
qed

section \<open>RMSNorm\<close>

definition mean_square :: "real list \<Rightarrow> real" where
  "mean_square x = (\<Sum>i < length x. x ! i * x ! i) / length x"

lemma mean_square_nonneg: "0 \<le> mean_square x"
  by (simp add: mean_square_def sum_nonneg)

lemma rms_row_fin:
  assumes "length g = length x" and "x \<noteq> []" and "0 < mean_square x + eps"
  shows "rms_row x_ops lvl (int (length x)) (Fin eps) (map Fin x) (map Fin g)
    = map (\<lambda>i. Fin (x ! i / sqrt (mean_square x + eps) * g ! i)) [0..<length x]"
proof -
  let ?sq = "\<lambda>acc v. x_add acc (x_mul v v)"
  have "simd_reduce x_ops lvl ?sq ?sq (map Fin x) = Fin (sum_list (map (\<lambda>v. case v of Fin a \<Rightarrow> a * a) (map Fin x)))"
    by (rule simd_reduce_fin) auto
  moreover have "sum_list (map (\<lambda>v. case v of Fin a \<Rightarrow> a * a) (map Fin x)) = (\<Sum>i < length x. x ! i * x ! i)"
    by (simp add: sum_list_sum_nth atLeast0LessThan)
  ultimately have sum: "simd_reduce x_ops lvl ?sq ?sq (map Fin x) = Fin (mean_square x * length x)"
    using assms(2) by (simp add: mean_square_def)
  show ?thesis using assms sum
    by (intro nth_equalityI) (simp_all add: rms_row_def Let_def simd_map_same)
qed

text \<open>\<open>rmsnorm\<close> divides every row by the square root of its mean square plus \<open>eps\<close> and scales it by \<open>gamma\<close>,
  for whatever vector width, and writes nothing else. So with \<open>eps = 0\<close> and \<open>gamma = 1\<close> the mean square of
  every output row is 1.\<close>

theorem rmsnorm_normalises_rows:
  assumes "row_sizes lvl rows w" and "0 < w" and "rows * w \<le> length x" and "rows * w \<le> length y" and "w \<le> length g"
    and pos: "\<And>r. r < rows \<Longrightarrow> 0 < mean_square (row_at w r x) + eps"
  shows "\<exists>y'. rmsnorm x_ops lvl (map Fin x) (map Fin g) y (int rows) (int w) (Fin eps) = Inr y' \<and> length y' = length y
    \<and> (\<forall>r < rows. \<forall>i < w. y' ! (r * w + i) = Fin (row_at w r x ! i / sqrt (mean_square (row_at w r x) + eps) * g ! i))
    \<and> (\<forall>i < length y. rows * w \<le> i \<longrightarrow> y' ! i = y ! i)
    \<and> (eps = 0 \<and> (\<forall>i < w. g ! i = 1) \<longrightarrow>
         (\<forall>r < rows. simd_dot x_ops lvl (row_at w r y') (row_at w r y') = Fin (real w)))"
proof -
  let ?n = "\<lambda>r. map (\<lambda>i. row_at w r x ! i / sqrt (mean_square (row_at w r x) + eps) * g ! i) [0..<w]"
  let ?y = "filled (\<lambda>r. map Fin (?n r)) rows w y"
  have row: "length (row_at w r x) = w" "r * w + w \<le> length x" if "r < rows" for r
    using row_fits [OF that, of w] assms(3) by (simp_all add: row_at_def)
  have run: "rmsnorm x_ops lvl (map Fin x) (map Fin g) y (int rows) (int w) (Fin eps) = Inr ?y"
    unfolding rmsnorm_def nat_int
  proof (rule row_loop)
    fix r and z :: "xreal list" assume r: "r < rows"
    have "read_at (map Fin g) 0 (int w) = Inr (map Fin (take w g))"
      using assms(5) by (simp add: read_at_def read_floats_def take_map)
    moreover have "rms_row x_ops lvl (int w) (Fin eps) (map Fin (row_at w r x)) (map Fin (take w g)) = map Fin (?n r)"
    proof -
      have "row_at w r x \<noteq> []" using row(1) [OF r] assms(2) by auto
      with rms_row_fin [where g = "take w g" and x = "row_at w r x" and eps = eps and lvl = lvl] row [OF r] assms(5) pos [OF r]
      show ?thesis by (simp add: comp_def del: length_row_at cong: map_cong)
    qed
    ultimately show "rbind (simd_bound lvl (int w)) (\<lambda>_. rbind (read_at (map Fin x) (int (r * w)) (int w)) (\<lambda>xs.
        rbind (read_at (map Fin g) 0 (int w)) (\<lambda>gs. write_at z (int (r * w)) (rms_row x_ops lvl (int w) (Fin eps) xs gs))))
      = write_at z (int (r * w)) (map Fin (?n r))"
      using assms(1) row [OF r] by (simp add: row_sizes_def simd_bound_ok read_row del: of_nat_mult)
  qed (use assms in \<open>simp_all add: row_sizes_def\<close>)
  have unit: "simd_dot x_ops lvl (row_at w r ?y) (row_at w r ?y) = Fin (real w)"
    if "eps = 0" "\<forall>i < w. g ! i = 1" "r < rows" for r
  proof -
    let ?m = "mean_square (row_at w r x)"
    have "row_at w r ?y = map Fin (?n r)" using that(3) filled_nth_row [of rows "\<lambda>r. map Fin (?n r)" w r y] by (simp add: row_at_def)
    then have "simd_dot x_ops lvl (row_at w r ?y) (row_at w r ?y) = Fin (\<Sum>i < w. ?n r ! i * ?n r ! i)"
      using simd_dot_fin(1) [of "?n r" "?n r" lvl] by simp
    also have "(\<Sum>i < w. ?n r ! i * ?n r ! i) = (\<Sum>i < w. row_at w r x ! i * row_at w r x ! i / ?m)"
      using that pos [OF that(3)] by (intro sum.cong) (auto simp: real_sqrt_mult_self)
    also have "\<dots> = (\<Sum>i < w. row_at w r x ! i * row_at w r x ! i) / ?m" by (rule sum_divide_distrib [symmetric])
    also have "\<dots> = ?m * real w / ?m" using row [OF that(3)] assms(2) by (simp add: mean_square_def)
    also have "\<dots> = real w" using pos [OF that(3)] that(1) by simp
    finally show ?thesis .
  qed
  note rows = filled_rows [where f = ?n and k = rows and w = w and out = y, OF _ assms(4)]
  show ?thesis using run unit rows by (intro exI [of _ ?y]) auto
qed

theorem rmsnorm_normalises_rows_witness:
  "\<exists>y. rmsnorm x_ops AVX512 (map Fin [3, 4]) (map Fin [1, 1]) [NaN, NaN, NaN] 1 2 (Fin 0) = Inr y
     \<and> y ! 1 = Fin (4 / sqrt (25 / 2)) \<and> y ! 2 = NaN"
proof -
  have "mean_square [3, 4] = 25 / 2" by (simp add: mean_square_def)
  moreover have "row_at 2 0 [3 :: real, 4] = [3, 4]" by (simp add: row_at_def)
  ultimately show ?thesis
    using rmsnorm_normalises_rows [of AVX512 1 2 "[3, 4]" "[NaN, NaN, NaN]" "[1, 1]" 0]
    by (force simp: row_sizes_def int32_ok_def)
qed

section \<open>Rotary positions\<close>

text \<open>A row of \<open>2 * h\<close> elements turned for the position \<open>p\<close>.\<close>

definition rope_theta :: "real \<Rightarrow> nat \<Rightarrow> int \<Rightarrow> nat \<Rightarrow> real" where
  "rope_theta base h p d = base powr (- 2 * real d / real (2 * h)) * of_int p"

definition rotated :: "real \<Rightarrow> nat \<Rightarrow> int \<Rightarrow> real list \<Rightarrow> real list" where
  "rotated base h p x =
     map (\<lambda>d. x ! d * cos (rope_theta base h p d) - x ! (d + h) * sin (rope_theta base h p d)) [0..<h]
     @ map (\<lambda>d. x ! d * sin (rope_theta base h p d) + x ! (d + h) * cos (rope_theta base h p d)) [0..<h]"

lemma length_rotated [simp]: "length (rotated base h p x) = 2 * h"
  by (simp add: rotated_def)

lemma rope_angle_fin:
  "0 < base \<Longrightarrow> 0 < h \<Longrightarrow> rope_angle x_ops (Fin base) (int (2 * h)) p (int d) = Fin (rope_theta base h p d)"
  by (simp add: rope_angle_def rope_theta_def)

lemma rope_halves_fin:
  assumes "0 < base" and "length x = 2 * h"
  shows "map Fin (rotated base h p x)
    = rope_half x_ops lvl (rope_even x_ops) (rope_angle x_ops (Fin base) (int (2 * h)) p) (map Fin (take h x)) (map Fin (drop h x))
      @ rope_half x_ops lvl (rope_odd x_ops) (rope_angle x_ops (Fin base) (int (2 * h)) p) (map Fin (take h x)) (map Fin (drop h x))"
proof -
  have "rope_half x_ops lvl rot (rope_angle x_ops (Fin base) (int (2 * h)) p) (map Fin (take h x)) (map Fin (drop h x))
      = map (\<lambda>d. rot (Fin (rope_theta base h p d)) (Fin (x ! d)) (Fin (x ! (d + h)))) [0..<h]" for rot
    using assms rope_angle_fin [of base h p]
    by (intro nth_equalityI) (simp_all add: rope_half_def Let_def simd_map_same add.commute del: of_nat_mult)
  then show ?thesis by (simp add: rotated_def rope_even_def rope_odd_def)
qed

text \<open>Turning both rows by the same angles does not change their product.\<close>

lemma rotation_product:
  "(a * cos s - b * sin s) * (c * cos t - d * sin t) + (a * sin s + b * cos s) * (c * sin t + d * cos t)
    = (a * c + b * d) * cos (s - t) + (a * d - b * c) * sin (s - t)" for a b c d s t :: real
  by (simp add: cos_diff sin_diff algebra_simps)

lemma sum_halves: "(\<Sum>i < 2 * h. f i) = (\<Sum>i < h. f i + f (i + h))" for f :: "nat \<Rightarrow> real"
proof -
  have "(\<Sum>i < 2 * h. f i) = (\<Sum>i < h. f i) + (\<Sum>i = h..<2 * h. f i)"
    using sum.atLeastLessThan_concat [of 0 h "2 * h" f] by (simp add: lessThan_atLeast0)
  also have "(\<Sum>i = h..<2 * h. f i) = (\<Sum>i < h. f (i + h))"
    using sum.shift_bounds_nat_ivl [of f 0 h h] by (simp add: lessThan_atLeast0 mult_2)
  finally show ?thesis by (simp add: sum.distrib)
qed

lemma rotated_product:
  "(\<Sum>i < 2 * h. rotated base h p x ! i * rotated base h q y ! i)
    = (\<Sum>d < h. (x ! d * y ! d + x ! (d + h) * y ! (d + h)) * cos (rope_theta base h (p - q) d)
        + (x ! d * y ! (d + h) - x ! (d + h) * y ! d) * sin (rope_theta base h (p - q) d))"
proof -
  have "rope_theta base h (p - q) d = rope_theta base h p d - rope_theta base h q d" for d
    by (simp add: rope_theta_def right_diff_distrib)
  then show ?thesis
    by (simp add: sum_halves rotated_def nth_append rotation_product)
qed

lemma write_at_append:
  assumes "0 \<le> off" and "nat off + length a + length b \<le> length y" and "off' = off + int (length a)"
  shows "rbind (write_at y off a) (\<lambda>y. write_at y off' b) = write_at y off (a @ b)"
proof -
  have "nat off' = nat off + length a" using assms(1,3) by (simp add: nat_add_distrib)
  then show ?thesis using assms by (simp add: write_at_def copy_floats_def ac_simps)
qed

definition rope_sizes :: "nat \<Rightarrow> nat \<Rightarrow> int \<Rightarrow> bool" where
  "rope_sizes n h p \<longleftrightarrow> int32_ok (int (n * (2 * h))) \<and> int32_ok p \<and> int32_ok (p + int n)"

lemma apply_rope_run:
  assumes sizes: "rope_sizes n h p" and "0 < base" and len: "n * (2 * h) \<le> length x" "n * (2 * h) \<le> length y"
  shows "apply_rope x_ops lvl (map Fin x) y (int n) (int (2 * h)) (Fin base) p
    = Inr (filled (\<lambda>r. map Fin (rotated base h (p + int r) (row_at (2 * h) r x))) n (2 * h) y)"
proof -
  let ?f = "\<lambda>r. rotated base h (p + int r) (row_at (2 * h) r x)"
  let ?body = "\<lambda>s off y. rbind (cint32 (p + s)) (\<lambda>pos. rbind (read_at (map Fin x) off (int h)) (\<lambda>es.
       rbind (read_at (map Fin x) (off + int h) (int h)) (\<lambda>os.
       rbind (write_at y off (rope_half x_ops lvl (rope_even x_ops) (rope_angle x_ops (Fin base) (int (2 * h)) pos) es os)) (\<lambda>y.
       write_at y (off + int h) (rope_half x_ops lvl (rope_odd x_ops) (rope_angle x_ops (Fin base) (int (2 * h)) pos) es os)))))"
  have "?body (int r) (int (r * (2 * h))) z = write_at z (int (r * (2 * h))) (map Fin (?f r))"
    if r: "r < n" and z: "length z = length y" for r z
  proof -
    have fits: "r * (2 * h) + 2 * h \<le> length x" "r * (2 * h) + 2 * h \<le> length z"
      using row_fits [OF r, of "2 * h"] len z by linarith+
    have half: "length (rope_half x_ops lvl rot angle (map Fin (take h (row_at (2 * h) r x))) (map Fin (drop h (row_at (2 * h) r x)))) = h" for rot angle
      using fits(1) by (simp add: rope_half_def Let_def simd_map_same)
    have pos: "cint32 (p + int r) = Inr (p + int r)" using sizes r by (intro cint32_ok) (simp add: rope_sizes_def int32_ok_def)
    let ?x = "row_at (2 * h) r x"
    have "read_at (map Fin x) (int (r * (2 * h))) (int h) = Inr (map Fin (take h ?x))"
      "read_at (map Fin x) (int (r * (2 * h)) + int h) (int h) = Inr (map Fin (drop h ?x))"
      using fits by (simp_all add: read_at_def read_floats_def row_at_def nat_add_distrib take_map drop_map drop_take add.commute
        del: of_nat_mult)
    then show ?thesis using pos fits \<open>0 < base\<close> rope_halves_fin [of base ?x h "p + int r" lvl]
      by (simp add: write_at_append half del: of_nat_mult cint32_Inr_iff)
  qed
  then have "for_range (\<lambda>s y. rbind (row_offset s (int (2 * h))) (\<lambda>off. ?body s off y)) 0 n y
      = Inr (filled (\<lambda>r. map Fin (?f r)) n (2 * h) y)"
    using sizes len(2) by (intro row_loop) (simp_all add: rope_sizes_def)
  then show ?thesis by (simp add: apply_rope_def)
qed

text \<open>C10. Rotary positions encode distance. The kernel succeeds and turns the pair \<open>(d, d + h)\<close> of row \<open>i\<close> by the
  angle of position \<open>p + i\<close>, its offset plus its row, and by nothing else; so the product that attention takes of
  query row \<open>i\<close> with key row \<open>j\<close> is a sum over the pairs in which the positions occur only as the distance
  \<open>(p + i) - (q + j)\<close>, and the length of every row is kept. Elements behind the last row are not touched. Products
  are those of \<open>simd_dot\<close> on any instruction set; rows are finite numbers, arithmetic is exact, the base is positive,
  and sizes and positions are within \<open>int\<close>.\<close>

theorem rope_scores_depend_on_distance:
  assumes "rope_sizes n h p" and "rope_sizes m h q" and "0 < base"
    and "n * (2 * h) \<le> length x" "n * (2 * h) \<le> length xb" and "m * (2 * h) \<le> length y" "m * (2 * h) \<le> length yb"
  shows "\<exists>xr yr. apply_rope x_ops lvl (map Fin x) xb (int n) (int (2 * h)) (Fin base) p = Inr xr
    \<and> apply_rope x_ops lvl (map Fin y) yb (int m) (int (2 * h)) (Fin base) q = Inr yr
    \<and> (\<forall>i < n. \<forall>d < h. let u = row_at (2 * h) i x; a = base powr (- 2 * real d / real (2 * h)) * of_int (p + int i)
         in xr ! (i * (2 * h) + d) = Fin (u ! d * cos a - u ! (d + h) * sin a)
          \<and> xr ! (i * (2 * h) + (d + h)) = Fin (u ! d * sin a + u ! (d + h) * cos a))
    \<and> (\<forall>i < n. \<forall>j < m. let u = row_at (2 * h) i x; v = row_at (2 * h) j y; dist = (p + int i) - (q + int j)
         in simd_dot x_ops lvl' (row_at (2 * h) i xr) (row_at (2 * h) j yr)
           = Fin (\<Sum>d < h. (u ! d * v ! d + u ! (d + h) * v ! (d + h)) * cos (base powr (- 2 * real d / real (2 * h)) * of_int dist)
               + (u ! d * v ! (d + h) - u ! (d + h) * v ! d) * sin (base powr (- 2 * real d / real (2 * h)) * of_int dist)))
    \<and> (\<forall>i < n. simd_dot x_ops lvl' (row_at (2 * h) i xr) (row_at (2 * h) i xr)
         = simd_dot x_ops lvl' (map Fin (row_at (2 * h) i x)) (map Fin (row_at (2 * h) i x)))
    \<and> length xr = length xb \<and> (\<forall>i. n * (2 * h) \<le> i \<and> i < length xb \<longrightarrow> xr ! i = xb ! i)"
proof -
  let ?rot = "\<lambda>x p r. rotated base h (p + int r) (row_at (2 * h) r x)"
  let ?out = "\<lambda>x p n b. filled (\<lambda>r. map Fin (?rot x p r)) n (2 * h) b"
  have rows: "row_at (2 * h) r (?out x p n b) = map Fin (?rot x p r)" if "r < n" for x p r n b
    using that filled_nth_row [of n "\<lambda>r. map Fin (?rot x p r)" "2 * h" r b] by (simp add: row_at_def)
  have elem: "?out x p n xb ! (i * (2 * h) + d) = Fin (?rot x p i ! d)" if "i < n" "d < 2 * h" for i d
    using filled_rows(2) [of n "?rot x p" "2 * h" xb i d] that assms(5) by simp
  have dot: "simd_dot x_ops lvl' (map Fin (?rot x p i)) (map Fin (?rot y q j))
      = Fin (let u = row_at (2 * h) i x; v = row_at (2 * h) j y in
         (\<Sum>d < h. (u ! d * v ! d + u ! (d + h) * v ! (d + h)) * cos (rope_theta base h ((p + int i) - (q + int j)) d)
           + (u ! d * v ! (d + h) - u ! (d + h) * v ! d) * sin (rope_theta base h ((p + int i) - (q + int j)) d)))" for i j
    by (simp only: Let_def) (simp add: simd_dot_fin rotated_product)
  have norm: "simd_dot x_ops lvl' (map Fin (rotated base h p u)) (map Fin (rotated base h p u)) = simd_dot x_ops lvl' (map Fin u) (map Fin u)"
    if "length u = 2 * h" for p u
    using that by (simp add: simd_dot_fin rotated_product) (simp add: rope_theta_def sum_halves)
  have len: "length (row_at (2 * h) i x) = 2 * h" if "i < n" for i
    using row_fits [OF that, of "2 * h"] assms(4) by simp
  show ?thesis
  proof (rule exI [of _ "?out x p n xb"], rule exI [of _ "?out y q m yb"], intro conjI allI impI)
    show "apply_rope x_ops lvl (map Fin x) xb (int n) (int (2 * h)) (Fin base) p = Inr (?out x p n xb)"
      "apply_rope x_ops lvl (map Fin y) yb (int m) (int (2 * h)) (Fin base) q = Inr (?out y q m yb)"
      using apply_rope_run [OF assms(1,3-5)] apply_rope_run [OF assms(2,3,6,7)] by simp_all
  next
    fix i d assume "i < n" "d < h"
    then show "let u = row_at (2 * h) i x; a = base powr (- 2 * real d / real (2 * h)) * of_int (p + int i)
         in ?out x p n xb ! (i * (2 * h) + d) = Fin (u ! d * cos a - u ! (d + h) * sin a)
          \<and> ?out x p n xb ! (i * (2 * h) + (d + h)) = Fin (u ! d * sin a + u ! (d + h) * cos a)"
      using elem [of i d] elem [of i "d + h"] by (simp add: rotated_def rope_theta_def nth_append Let_def)
  next
    fix i j assume "i < n" "j < m"
    then show "let u = row_at (2 * h) i x; v = row_at (2 * h) j y; dist = (p + int i) - (q + int j)
         in simd_dot x_ops lvl' (row_at (2 * h) i (?out x p n xb)) (row_at (2 * h) j (?out y q m yb))
           = Fin (\<Sum>d < h. (u ! d * v ! d + u ! (d + h) * v ! (d + h)) * cos (base powr (- 2 * real d / real (2 * h)) * of_int dist)
               + (u ! d * v ! (d + h) - u ! (d + h) * v ! d) * sin (base powr (- 2 * real d / real (2 * h)) * of_int dist))"
      using dot [of i j] by (simp only: rows Let_def rope_theta_def)
  qed (use assms(5) in \<open>simp_all add: rows norm len filled_rows\<close>)
qed

theorem rope_scores_depend_on_distance_witness:
  "\<exists>xr yr. apply_rope x_ops SSE2 (map Fin [1, 2]) [NaN, NaN] 1 2 (Fin 10000) 5 = Inr xr
    \<and> apply_rope x_ops SSE2 (map Fin [3, 4]) [NaN, NaN] 1 2 (Fin 10000) 3 = Inr yr
    \<and> simd_dot x_ops AVX512 (row_at 2 0 xr) (row_at 2 0 yr) = Fin (11 * cos 2 - 2 * sin 2)"
proof -
  have "rope_sizes 1 1 5" "rope_sizes 1 1 3" by (simp_all add: rope_sizes_def int32_ok_def)
  from rope_scores_depend_on_distance [OF this, of 10000 "[1, 2]" "[NaN, NaN]" "[3, 4]" "[NaN, NaN]" SSE2 AVX512]
  show ?thesis by (auto simp: row_at_def)
qed

section \<open>Softmax\<close>

text \<open>\<open>softmax\<close> turns every row of finite numbers into its exponentials over their sum: positive
  weights that sum to 1, for any vector width, where the maximum that is subtracted first does not show.\<close>

theorem softmax_rows_are_distributions:
  assumes "row_sizes lvl rows w" and "0 < w" and "rows * w \<le> length x" and "rows * w \<le> length y"
  shows "\<exists>y'. softmax_rows x_ops lvl (map Fin x) y (int rows) (int w) = Inr y' \<and> length y' = length y
    \<and> (\<forall>r < rows. \<forall>i < w. y' ! (r * w + i) = Fin (exp (row_at w r x ! i) / (\<Sum>j < w. exp (row_at w r x ! j))))
    \<and> (\<forall>r < rows. simd_sum x_ops lvl (row_at w r y') = Fin 1)
    \<and> (\<forall>i < length y. rows * w \<le> i \<longrightarrow> y' ! i = y ! i)"
proof -
  let ?s = "\<lambda>r. softmax (\<lambda>i. row_at w r x ! i) w"
  let ?f = "\<lambda>r. map (?s r) [0..<w]"
  let ?y = "filled (\<lambda>r. map Fin (?f r)) rows w y"
  have run: "softmax_rows x_ops lvl (map Fin x) y (int rows) (int w) = Inr ?y"
    unfolding softmax_rows_def nat_int
  proof (rule row_loop)
    fix r and z :: "xreal list" assume r: "r < rows"
    have fits: "r * w + w \<le> length x" using row_fits [OF r, of w] assms(3) by linarith
    then have "map Fin (row_at w r x) = masked_scores (\<lambda>i. row_at w r x ! i) w 0 w"
      by (intro nth_equalityI) (simp_all add: masked_scores_def)
    then have "softmax_row x_ops lvl (int w) (map Fin (row_at w r x)) = map Fin (?f r)"
      using softmax_row_fin [of w w lvl "\<lambda>i. row_at w r x ! i"] by (auto intro!: map_cong)
    then show "rbind (simd_bound lvl (int w)) (\<lambda>_. rbind (read_at (map Fin x) (int (r * w)) (int w)) (\<lambda>row.
        write_at z (int (r * w)) (softmax_row x_ops lvl (int w) row))) = write_at z (int (r * w)) (map Fin (?f r))"
      using assms(1) fits by (simp add: row_sizes_def simd_bound_ok read_row del: of_nat_mult)
  qed (use assms in \<open>simp_all add: row_sizes_def\<close>)
  have "simd_sum x_ops lvl (row_at w r ?y) = Fin 1" if "r < rows" for r
  proof -
    have "row_at w r ?y = map Fin (?f r)" using that filled_nth_row [of rows "\<lambda>r. map Fin (?f r)" w r y] by (simp add: row_at_def)
    then have "simd_sum x_ops lvl (row_at w r ?y) = Fin (\<Sum>i < w. ?s r i)"
      using simd_sum_fin [of lvl "?f r"] by (simp add: sum_list_sum_nth atLeast0LessThan)
    then show ?thesis using softmax_sum [OF assms(2)] by simp
  qed
  moreover note rows = filled_rows [where f = ?f and k = rows and w = w and out = y, OF _ assms(4)]
  ultimately show ?thesis using run by (intro exI [of _ ?y]) (auto simp: softmax_def)
qed

theorem softmax_rows_are_distributions_witness:
  "\<exists>y. softmax_rows x_ops (AVX2 True) (map Fin [0, 0]) [NaN, NaN, PInf] 1 2 = Inr y \<and> y ! 1 = Fin (1 / 2) \<and> y ! 2 = PInf"
proof -
  have "row_at 2 0 [0 :: real, 0] = [0, 0]" by (simp add: row_at_def)
  with softmax_rows_are_distributions [of "AVX2 True" 1 2 "[0, 0]" "[NaN, NaN, PInf]"] show ?thesis
    by (force simp: row_sizes_def int32_ok_def numeral_2_eq_2)
qed

end
