(* ===== verification/Transpose_Kernel.thy ===== *)
theory Transpose_Kernel
  imports Linear_Kernels
begin

text \<open>
  Transposition and the fused activation, for elements and arithmetic of any kind: transposition moves the element at a
  multi-index to the exchanged multi-index, and is its own inverse.
\<close>

section \<open>Positions in a row-major array\<close>

definition in_box :: "nat list \<Rightarrow> nat list \<Rightarrow> bool" where
  "in_box ds idx \<longleftrightarrow> list_all2 (<) idx ds"

fun flat :: "nat list \<Rightarrow> nat list \<Rightarrow> nat" where
  "flat (d # ds) (i # idx) = i * prod_list ds + flat ds idx"
| "flat _ _ = 0"

fun digits :: "nat list \<Rightarrow> nat \<Rightarrow> nat list" where
  "digits [] r = []"
| "digits (d # ds) r = r div prod_list ds # digits ds (r mod prod_list ds)"

lemma in_box_simps [simp]:
  "in_box [] idx \<longleftrightarrow> idx = []" "in_box (d # ds) (i # idx) \<longleftrightarrow> i < d \<and> in_box ds idx" "\<not> in_box (d # ds) []"
  by (simp_all add: in_box_def)

lemma length_digits [simp]: "length (digits ds r) = length ds"
  by (induction ds arbitrary: r) auto

lemma in_box_pos: "in_box ds idx \<Longrightarrow> 0 < prod_list ds"
  by (induction ds arbitrary: idx; rename_tac idx, case_tac idx) auto

lemma flat_less: "in_box ds idx \<Longrightarrow> flat ds idx < prod_list ds"
proof (induction ds arbitrary: idx)
  case (Cons d ds)
  then obtain i js where idx: "idx = i # js" by (cases idx) auto
  with Cons have "i < d" "flat ds js < prod_list ds" by auto
  then have "i * prod_list ds + flat ds js < i * prod_list ds + prod_list ds" by simp
  also have "\<dots> \<le> d * prod_list ds" using \<open>i < d\<close> by (rule row_fits)
  finally show ?case by (simp add: idx)
qed simp

lemma digits_in_box: "r < prod_list ds \<Longrightarrow> in_box ds (digits ds r)"
proof (induction ds arbitrary: r)
  case (Cons d ds)
  then have "0 < prod_list ds" by (cases "prod_list ds = 0") auto
  with Cons show ?case by (simp add: div_less_iff_less_mult)
qed simp

lemma flat_digits: "r < prod_list ds \<Longrightarrow> flat ds (digits ds r) = r"
proof (induction ds arbitrary: r)
  case (Cons d ds)
  then have "0 < prod_list ds" by (cases "prod_list ds = 0") auto
  with Cons show ?case by simp
qed simp

lemma digits_flat: "in_box ds idx \<Longrightarrow> digits ds (flat ds idx) = idx"
proof (induction ds arbitrary: idx)
  case (Cons d ds)
  then obtain i js where idx: "idx = i # js" "in_box ds js" by (cases idx) auto
  then have "flat ds js < prod_list ds" by (simp add: flat_less)
  with Cons.IH [OF idx(2)] show ?case by (simp add: idx(1))
qed simp

section \<open>Strides\<close>

lemma prod_list_tail_le: "0 < prod_list (d # ds) \<Longrightarrow> prod_list ds \<le> prod_list (d # (ds :: nat list))"
  by (cases d) auto

lemma row_strides_exact:
  "0 < prod_list (d # ds) \<Longrightarrow> prod_list (d # ds) < 2 ^ 64 \<Longrightarrow> row_strides (d # ds) = prod_list ds # row_strides ds"
proof (induction ds arbitrary: d)
  case (Cons e ds)
  have pos: "0 < prod_list (e # ds)" using Cons.prems(1) by simp
  have less: "prod_list (e # ds) < 2 ^ 64" using prod_list_tail_le [OF Cons.prems(1)] Cons.prems(2) by linarith
  show ?case using Cons.IH [OF pos less] less by (simp add: Let_def mult.commute)
qed simp

lemma row_strides_tail:
  assumes "0 < prod_list (d # ds)" and "prod_list (d # ds) < (2 :: nat) ^ 64"
  shows "0 < prod_list ds" and "prod_list ds < 2 ^ 64"
proof -
  show "prod_list ds < 2 ^ 64" using prod_list_tail_le [OF assms(1)] assms(2) by linarith
qed (use assms(1) in simp)

lemma length_row_strides [simp]: "length (row_strides ds) = length ds"
  by (induction ds rule: row_strides.induct) (simp_all add: Let_def)

lemma unrank_exact:
  "0 < prod_list ds \<Longrightarrow> prod_list ds < 2 ^ 64 \<Longrightarrow> unrank (row_strides ds) r = Inr (digits ds r)"
proof (induction ds arbitrary: r)
  case (Cons d ds)
  note tail = row_strides_tail [OF Cons.prems]
  show ?case using Cons.IH [OF tail] tail by (simp add: row_strides_exact [OF Cons.prems])
qed simp

lemma rank_index_exact:
  assumes "in_box ds idx" and "prod_list ds < 2 ^ 64"
  shows "rank_index idx (row_strides ds) = flat ds idx"
proof -
  have "foldl (\<lambda>src (i, stride). wrap64 (src + i * stride)) acc (zip idx (row_strides ds)) = acc + flat ds idx"
    if "in_box ds idx" "prod_list ds < 2 ^ 64" "acc + flat ds idx < 2 ^ 64" for acc ds idx
    using that
  proof (induction ds arbitrary: acc idx)
    case (Cons d ds)
    then obtain i js where idx: "idx = i # js" "in_box ds js" by (cases idx) auto
    have "0 < prod_list (d # ds)" using Cons.prems(1) by (rule in_box_pos)
    from row_strides_exact [OF this Cons.prems(2)] row_strides_tail [OF this Cons.prems(2)]
    show ?case using Cons.IH [OF idx(2), of "acc + i * prod_list ds"] Cons.prems(3) idx by (simp add: add.assoc)
  qed simp
  from this [OF assms, of 0] flat_less [OF assms(1)] assms(2) show ?thesis by (simp add: rank_index_def)
qed

section \<open>Exchanging two axes\<close>

lemma length_swap_at [simp]: "length (swap_at i j xs) = length xs"
  by (simp add: swap_at_def)

lemma swap_at_nth:
  "i < length xs \<Longrightarrow> j < length xs \<Longrightarrow> k < length xs
    \<Longrightarrow> swap_at i j xs ! k = xs ! (if k = i then j else if k = j then i else k)"
  by (auto simp: swap_at_def nth_list_update)

lemma swap_at_twice [simp]: "i < length xs \<Longrightarrow> j < length xs \<Longrightarrow> swap_at i j (swap_at i j xs) = xs"
  by (intro nth_equalityI) (auto simp: swap_at_nth)

lemma prod_list_swap_at [simp]:
  assumes "i < length xs" and "j < length xs"
  shows "prod_list (swap_at i j xs) = prod_list (xs :: nat list)"
proof -
  have "mset (swap_at i j xs) = mset xs" using assms by (simp add: swap_at_def mset_swap)
  then show ?thesis by (metis prod_mset_prod_list)
qed

lemma in_box_swap_at:
  "in_box ds idx \<Longrightarrow> i < length ds \<Longrightarrow> j < length ds \<Longrightarrow> in_box (swap_at i j ds) (swap_at i j idx)"
  by (auto simp: in_box_def list_all2_conv_all_nth swap_at_nth)

lemma length_in_box: "in_box ds idx \<Longrightarrow> length idx = length ds"
  by (simp add: in_box_def list_all2_lengthD)

text \<open>Where the element at a position of the output comes from.\<close>

definition transposed_from :: "nat list \<Rightarrow> nat \<Rightarrow> nat \<Rightarrow> nat \<Rightarrow> nat" where
  "transposed_from ds a b l = flat ds (swap_at a b (digits (swap_at a b ds) l))"

lemma transposed_from_less:
  "a < length ds \<Longrightarrow> b < length ds \<Longrightarrow> l < prod_list ds \<Longrightarrow> transposed_from ds a b l < prod_list ds"
  unfolding transposed_from_def
  using in_box_swap_at [OF digits_in_box [of l "swap_at a b ds"], of a b] by (intro flat_less) simp

lemma transposed_from_inverse:
  assumes "a < length ds" and "b < length ds" and "l < prod_list ds"
  shows "transposed_from ds a b (transposed_from (swap_at a b ds) a b l) = l"
proof -
  have "in_box (swap_at a b ds) (swap_at a b (digits ds l))"
    using assms digits_in_box [OF assms(3)] by (intro in_box_swap_at)
  then show ?thesis using assms by (simp add: transposed_from_def digits_flat flat_digits)
qed

lemma transpose_kernel_run:
  assumes "\<forall>d \<in> set dims. 0 \<le> d \<and> d < 2 ^ 63" and "a < length dims" and "b < length dims" and "a \<noteq> b"
    and n_def: "n = prod_list (map nat dims)" and "n < 2 ^ 64" and "n \<le> length x" and "n \<le> length y"
  shows "transpose_kernel x y dims a b = Inr (filled_to (\<lambda>l. x ! transposed_from (map nat dims) a b l) n y)"
proof -
  let ?ds = "map nat dims" and ?os = "swap_at a b (map nat dims)"
  have dims: "map size_of_int dims = ?ds" using assms(1) by (auto simp: size_of_int_def)
  have prod: "prod_list ?os = n" using assms(2,3) n_def by simp
  have total: "wrap64 (?os ! 0 * row_strides ?os ! 0) = n"
  proof (cases "n = 0")
    case False
    obtain o1 os where os: "?os = o1 # os" using assms(2) by (cases ?os) (auto dest: arg_cong [of _ _ length])
    with prod False have "row_strides ?os = prod_list os # row_strides os"
      using row_strides_exact [of o1 os] assms(6) by simp
    with os prod assms(6) show ?thesis by simp
  next
    case True
    show ?thesis
    proof (cases "?os ! 0 = 0")
      case False
      obtain o1 os where os: "?os = o1 # os" using assms(2) by (cases ?os) (auto dest: arg_cong [of _ _ length])
      have "row_strides (d # ds) ! 0 = 0" if "prod_list ds = 0" for d ds
        using that
      proof (induction ds arbitrary: d)
        case (Cons e ds)
        then show ?case by (cases "e = 0") (auto simp: Let_def hd_conv_nth simp flip: length_greater_0_conv)
      qed simp
      moreover have "prod_list os = 0" using os prod True False by simp
      ultimately show ?thesis using os True by simp
    qed (simp add: True)
  qed
  let ?e = "\<lambda>l. x ! transposed_from ?ds a b l"
  let ?body = "\<lambda>linear y. rbind (unrank (row_strides ?os) (nat linear)) (\<lambda>out_index.
       rbind (read_floats x (rank_index (swap_at a b out_index) (row_strides ?ds)) 1) (\<lambda>v. write_at y linear v))"
  have "for_range ?body 0 n (filled_to ?e 0 y) = Inr (filled_to ?e (0 + n) y)"
  proof (rule for_range_fill_to)
    fix l assume l: "l < n"
    have "unrank (row_strides ?os) l = Inr (digits ?os l)" using l prod assms(6) by (intro unrank_exact) auto
    moreover have "in_box ?ds (swap_at a b (digits ?os l))"
      using in_box_swap_at [OF digits_in_box [of l ?os], of a b] l prod assms(2,3) by simp
    then have "rank_index (swap_at a b (digits ?os l)) (row_strides ?ds) = transposed_from ?ds a b l"
      using rank_index_exact assms(6) n_def by (simp add: transposed_from_def)
    moreover have "transposed_from ?ds a b l < length x"
      using transposed_from_less [of a ?ds b l] l n_def assms(2,3,7) by simp
    then have "read_floats x (transposed_from ?ds a b l) 1 = Inr [?e l]"
      using read_at_nth [of "int (transposed_from ?ds a b l)" 1 x] by (simp add: read_at_def)
    ultimately show "?body (0 + int l) (filled_to ?e (0 + l) y) = write_at (filled_to ?e (0 + l) y) (int (0 + l)) [?e (0 + l)]"
      by simp
  qed (use assms(8) in simp)
  with assms(2-4) show ?thesis by (simp add: transpose_kernel_def Let_def dims total)
qed

text \<open>Transposition of two axes: the element of the input at a multi-index is the element of the output at
  the multi-index with the two positions exchanged, and transposing the output along the same axes gives
  back the input. It holds for elements of any kind and for every shape whose number of elements fits in \<open>size_t\<close>.\<close>

theorem transpose_twice_is_identity:
  assumes "\<forall>d \<in> set dims. 0 \<le> d \<and> d < 2 ^ 63" and "a < length dims" and "b < length dims" and "a \<noteq> b"
    and "prod_list (map nat dims) < 2 ^ 64"
    and "length x = prod_list (map nat dims)" and "length y = length x" and "length z = length x"
  shows "\<exists>y'. transpose_kernel x y dims a b = Inr y'
    \<and> (\<forall>idx. in_box (map nat dims) idx \<longrightarrow>
         y' ! flat (swap_at a b (map nat dims)) (swap_at a b idx) = x ! flat (map nat dims) idx)
    \<and> transpose_kernel y' z (swap_at a b dims) a b = Inr x"
proof -
  let ?ds = "map nat dims" and ?n = "prod_list (map nat dims)"
  let ?y = "filled_to (\<lambda>l. x ! transposed_from ?ds a b l) ?n y"
  have swap: "map nat (swap_at a b dims) = swap_at a b ?ds" using assms(2,3) by (simp add: swap_at_def map_update)
  have run: "transpose_kernel x y dims a b = Inr ?y" using assms by (intro transpose_kernel_run) simp_all
  have elements: "?y ! flat (swap_at a b ?ds) (swap_at a b idx) = x ! flat ?ds idx" if "in_box ?ds idx" for idx
  proof -
    have box: "in_box (swap_at a b ?ds) (swap_at a b idx)" using that assms(2,3) by (intro in_box_swap_at) simp_all
    have "length idx = length dims" using length_in_box [OF that] by simp
    with box flat_less [OF box] assms(2,3) show ?thesis by (simp add: filled_to_nth transposed_from_def digits_flat)
  qed
  have "set (swap_at a b dims) = set dims" using assms(2,3) by (simp add: swap_at_def set_swap)
  then have "transpose_kernel ?y z (swap_at a b dims) a b
      = Inr (filled_to (\<lambda>l. ?y ! transposed_from (swap_at a b ?ds) a b l) ?n z)"
    using assms swap by (subst transpose_kernel_run [OF _ _ _ assms(4) refl]) simp_all
  also have "filled_to (\<lambda>l. ?y ! transposed_from (swap_at a b ?ds) a b l) ?n z = x"
  proof (rule nth_equalityI)
    fix l assume "l < length (filled_to (\<lambda>l. ?y ! transposed_from (swap_at a b ?ds) a b l) ?n z)"
    then have l: "l < ?n" using assms(6,8) by simp
    have "transposed_from (swap_at a b ?ds) a b l < ?n" using transposed_from_less [of a "swap_at a b ?ds" b l] l assms(2,3) by simp
    then show "filled_to (\<lambda>l. ?y ! transposed_from (swap_at a b ?ds) a b l) ?n z ! l = x ! l"
      using l assms(2,3) transposed_from_inverse [of a ?ds b l] by (simp add: filled_to_nth)
  qed (use assms(6,8) in simp)
  finally show ?thesis using run elements by blast
qed

theorem transpose_twice_is_identity_witness:
  "\<exists>y. transpose_kernel [1 :: nat, 2, 3, 4, 5, 6] [0, 0, 0, 0, 0, 0] [2, 3] 0 1 = Inr y \<and> y ! 4 = 3
     \<and> transpose_kernel y [0, 0, 0, 0, 0, 0] [3, 2] 0 1 = Inr [1, 2, 3, 4, 5, 6]"
proof -
  obtain y where y: "transpose_kernel [1 :: nat, 2, 3, 4, 5, 6] [0, 0, 0, 0, 0, 0] [2, 3] 0 1 = Inr y"
    "\<forall>idx. in_box (map nat [2, 3]) idx \<longrightarrow> y ! flat (swap_at 0 1 (map nat [2, 3])) (swap_at 0 1 idx)
       = [1, 2, 3, 4, 5, 6] ! flat (map nat [2, 3]) idx"
    "transpose_kernel y [0, 0, 0, 0, 0, 0] (swap_at 0 1 [2, 3]) 0 1 = Inr [1, 2, 3, 4, 5, 6]"
    using transpose_twice_is_identity [of "[2, 3]" 0 1 "[1 :: nat, 2, 3, 4, 5, 6]" "[0, 0, 0, 0, 0, 0]" "[0, 0, 0, 0, 0, 0]"] by auto
  from y(2) [rule_format, of "[0, 2]"] y(1,3) show ?thesis by (auto simp: swap_at_def)
qed

section \<open>The fused activation\<close>

lemma simd_map_pairs:
  "simd_map lvl (map g) f xs
    = map (\<lambda>i. if i < vector_part lvl (length xs) then g (xs ! i) else f (xs ! i)) [0..<length xs]"
  by (intro nth_equalityI) (simp_all add: simd_map_nth length_simd_map)

lemma elementwise_run:
  assumes "int32_ok (int (n + simd_width lvl))" and "n \<le> length x"
  shows "rbind (simd_bound lvl (int n)) (\<lambda>_. rbind (read_at x 0 (int n)) (\<lambda>xs. k xs)) = k (take n x)"
proof -
  have "n div simd_width lvl * simd_width lvl + simd_width lvl \<le> n + simd_width lvl" by simp
  then have "simd_bound lvl (int n) = Inr (int (n div simd_width lvl * simd_width lvl + simd_width lvl))"
    using cint32_nat [OF assms(1)] by (simp add: simd_bound_def del: of_nat_mult of_nat_add cint32_Inr_iff)
  then show ?thesis using assms(2) by (simp add: read_at_def read_floats_def)
qed

lemma read_prefix: "n \<le> length x \<Longrightarrow> read_at x 0 (int n) = Inr (take n x)"
  by (simp add: read_at_def read_floats_def)

lemma write_prefix:
  "length xs = n \<Longrightarrow> n \<le> length y \<Longrightarrow> (\<And>i. i < n \<Longrightarrow> xs ! i = e i) \<Longrightarrow> write_at y 0 xs = Inr (filled_to e n y)"
proof -
  assume len: "length xs = n" "n \<le> length y" and nth: "\<And>i. i < n \<Longrightarrow> xs ! i = e i"
  then have "xs = map e [0..<n]" by (intro nth_equalityI) simp_all
  with len write_filled_to [of 0 n y 0 e] show ?thesis by simp
qed

text \<open>C11. The fused kernel is \<open>silu\<close> followed by \<open>mul\<close>: whatever the arithmetic and its rounding, whatever
  the vector width, it leaves the very floats that the two kernels leave one after the other.\<close>

theorem fused_silu_mul_is_silu_then_mul:
  assumes "int32_ok (int (n + simd_width lvl))" and "n \<le> length gate" and "n \<le> length up" and "n \<le> length y" and "n \<le> length tmp"
  shows "\<exists>t r. silu_kernel F lvl gate tmp (int n) = Inr t \<and> mul_kernel F lvl t up y (int n) = Inr r
    \<and> fused_silu_mul F lvl gate up y (int n) = Inr r"
proof -
  let ?vec = "\<lambda>v. f_mul F v (f_div F (f_one F) (f_add F (f_one F) (f_exp F (f_mul F (f_of_int F (- 1)) v))))"
  let ?e = "\<lambda>i. if i < vector_part lvl n then ?vec (gate ! i) else silu_scalar F (gate ! i)"
  have sig: "map2 (f_mul F) vs (v_sigmoid F vs) = map ?vec vs" for vs
    by (intro nth_equalityI) (simp_all add: v_sigmoid_def v_exp_def)
  have pair: "map2 (f_mul F) (map2 (f_mul F) (map fst ps) (v_sigmoid F (map fst ps))) (map snd ps)
      = map (\<lambda>(g, u). f_mul F (?vec g) u) ps" for ps
    by (intro nth_equalityI) (simp_all add: v_sigmoid_def v_exp_def case_prod_beta)
  have "silu_kernel F lvl gate tmp (int n) = Inr (filled_to ?e n tmp)"
    using assms unfolding silu_kernel_def
    by (subst elementwise_run) (auto simp: sig simd_map_pairs intro!: write_prefix)
  moreover have "mul_kernel F lvl (filled_to ?e n tmp) up y (int n) = Inr (filled_to (\<lambda>i. f_mul F (?e i) (up ! i)) n y)"
    using assms unfolding mul_kernel_def
    by (subst elementwise_run) (auto simp: read_prefix simd_map_same filled_to_nth intro!: write_prefix)
  moreover have "fused_silu_mul F lvl gate up y (int n) = Inr (filled_to (\<lambda>i. f_mul F (?e i) (up ! i)) n y)"
    using assms unfolding fused_silu_mul_def
    by (subst elementwise_run) (auto simp: read_prefix pair simd_map_pairs intro!: write_prefix)
  ultimately show ?thesis by blast
qed

theorem fused_silu_mul_is_silu_then_mul_witness:
  "\<exists>t r. silu_kernel x_ops SSE2 [Fin 0, PInf] [NaN, NaN] 2 = Inr t \<and> mul_kernel x_ops SSE2 t [Fin 3, MInf] [NaN, NaN] 2 = Inr r
     \<and> fused_silu_mul x_ops SSE2 [Fin 0, PInf] [Fin 3, MInf] [NaN, NaN] 2 = Inr r"
  using fused_silu_mul_is_silu_then_mul [of 2 SSE2 "[Fin 0, PInf]" "[Fin 3, MInf]" "[NaN, NaN]" "[NaN, NaN]" x_ops]
  by (simp add: int32_ok_def)

end
