(* ===== verification/Sampler.thy ===== *)
theory Sampler
  imports Exact_Floats Kernel_Loops
begin

text \<open>
  The sampler (src/runtime/sampler.cpp): repetition penalty, temperature, softmax, top-k, top-p, and the choice of a token,
  greedy or by a random number. \<open>std::sort\<close> and \<open>std::partial_sort\<close> are parameters with the laws below, and so
  is \<open>uniform_real_distribution\<close> over the generator, whose state is the state of the sampler.
\<close>

section \<open>Sorting\<close>

text \<open>
  The standard requires of the comparator that it is a strict weak order on the elements, and promises
  a permutation, sorted, or sorted up to a position whose elements come before the others.
\<close>

definition strict_weak_on :: "'a set \<Rightarrow> ('a \<Rightarrow> 'a \<Rightarrow> bool) \<Rightarrow> bool" where
  "strict_weak_on A lt \<longleftrightarrow> (\<forall>a \<in> A. \<forall>b \<in> A. lt a b \<longrightarrow> \<not> lt b a)
     \<and> (\<forall>a \<in> A. \<forall>b \<in> A. \<forall>c \<in> A. \<not> lt b a \<longrightarrow> \<not> lt c b \<longrightarrow> \<not> lt c a)"

definition sort_law :: "(('a \<Rightarrow> 'a \<Rightarrow> bool) \<Rightarrow> 'a list \<Rightarrow> 'a list) \<Rightarrow> bool" where
  "sort_law srt \<longleftrightarrow> (\<forall>lt xs. strict_weak_on (set xs) lt \<longrightarrow>
     mset (srt lt xs) = mset xs \<and> sorted_wrt (\<lambda>a b. \<not> lt b a) (srt lt xs))"

definition partial_sort_law :: "(('a \<Rightarrow> 'a \<Rightarrow> bool) \<Rightarrow> nat \<Rightarrow> 'a list \<Rightarrow> 'a list) \<Rightarrow> bool" where
  "partial_sort_law psrt \<longleftrightarrow> (\<forall>lt k xs. k \<le> length xs \<longrightarrow> strict_weak_on (set xs) lt \<longrightarrow>
     mset (psrt lt k xs) = mset xs \<and> sorted_wrt (\<lambda>a b. \<not> lt b a) (take k (psrt lt k xs))
     \<and> (\<forall>a \<in> set (take k (psrt lt k xs)). \<forall>b \<in> set (drop k (psrt lt k xs)). \<not> lt b a))"

section \<open>Probabilities\<close>

record 'f sampling_config =
  sc_greedy :: bool
  sc_top_k :: int
  sc_top_p :: 'f
  sc_temperature :: 'f
  sc_repetition_penalty :: 'f

definition penalize :: "('f, 'z) float_ops_scheme \<Rightarrow> 'f \<Rightarrow> int list \<Rightarrow> 'f list \<Rightarrow> 'f list" where
  "penalize F penalty ids probs =
     foldl (\<lambda>ps i. if 0 \<le> i \<and> i < int (length ps)
                    then let p = ps ! nat i in
                         ps[nat i := if f_less F (f_zero F) p then f_div F p penalty else f_mul F p penalty]
                    else ps) probs ids"

definition apply_repetition :: "('f, 'z) cpu_ops_scheme \<Rightarrow> 'f \<Rightarrow> int list \<Rightarrow> 'f list \<Rightarrow> 'f list" where
  "apply_repetition F penalty ids probs =
     (if \<not> f_eq F penalty (f_one F) \<and> ids \<noteq> [] then penalize F penalty ids probs else probs)"

definition apply_temperature :: "('f, 'z) cpu_ops_scheme \<Rightarrow> 'f \<Rightarrow> 'f list \<Rightarrow> 'f list" where
  "apply_temperature F temperature probs =
     (if \<not> f_eq F temperature (f_one F) \<and> f_less F (f_zero F) temperature
      then let inv_temp = f_div F (f_one F) temperature in map (\<lambda>p. f_mul F p inv_temp) probs
      else probs)"

text \<open>\<open>std::max_element\<close>: the first of the largest elements; NaN is never larger.\<close>

definition max_element :: "('f, 'z) float_ops_scheme \<Rightarrow> 'f list \<Rightarrow> 'f" where
  "max_element F xs = foldl (f_max F) (hd xs) (tl xs)"

definition distribution :: "('f, 'z) cpu_ops_scheme \<Rightarrow> 'f list \<Rightarrow> 'f list" where
  "distribution F probs =
     (let uniform = replicate (length probs) (f_div F (f_one F) (f_of_int F (int (length probs))));
          max_val = max_element F probs
      in if \<not> f_isfinite F max_val then uniform
         else let exp_vals = exp_scores F probs max_val; sum = sum_floats F exp_vals
              in if \<not> f_isfinite F sum \<or> f_le F sum (f_zero F) then uniform
                 else let inv_sum = f_div F (f_one F) sum in map (\<lambda>v. f_mul F v inv_sum) exp_vals)"

section \<open>Candidates\<close>

type_synonym 'f token_prob = "int \<times> 'f"

definition candidates :: "'f list \<Rightarrow> 'f token_prob list" where
  "candidates probs = zip (map int [0..<length probs]) probs"

definition prob_greater :: "('f, 'z) float_ops_scheme \<Rightarrow> 'f token_prob \<Rightarrow> 'f token_prob \<Rightarrow> bool" where
  "prob_greater F a b = f_less F (snd b) (snd a)"

text \<open>The comparator is no strict weak order when a probability is NaN: sorting is undefined then.\<close>

definition comparable :: "('f, 'z) cpu_ops_scheme \<Rightarrow> 'f token_prob list \<Rightarrow> unit result" where
  "comparable F cs = (if list_all (\<lambda>c. f_eq F (snd c) (snd c)) cs then Inr () else Inl (UB ''comparator on NaN''))"

definition top_k_filter ::
  "('f, 'z) cpu_ops_scheme \<Rightarrow> (('f token_prob \<Rightarrow> 'f token_prob \<Rightarrow> bool) \<Rightarrow> 'f token_prob list \<Rightarrow> 'f token_prob list)
   \<Rightarrow> (('f token_prob \<Rightarrow> 'f token_prob \<Rightarrow> bool) \<Rightarrow> nat \<Rightarrow> 'f token_prob list \<Rightarrow> 'f token_prob list)
   \<Rightarrow> int \<Rightarrow> 'f token_prob list \<Rightarrow> 'f token_prob list result"
where
  "top_k_filter F srt psrt k cs = rbind (comparable F cs) (\<lambda>_.
     if 0 < k \<and> k < int (length cs) then Inr (take (nat k) (psrt (prob_greater F) (nat k) cs))
     else Inr (srt (prob_greater F) cs))"

text \<open>The loop of top-p: the candidates up to the first one where the sum reaches \<open>top_p\<close>.\<close>

fun nucleus :: "('f, 'z) float_ops_scheme \<Rightarrow> 'f \<Rightarrow> 'f \<Rightarrow> 'f token_prob list \<Rightarrow> 'f token_prob list" where
  "nucleus F p cumsum [] = []"
| "nucleus F p cumsum (c # cs) =
     (let cumsum' = f_add F cumsum (snd c)
      in if f_le F p cumsum' then [c] else c # nucleus F p cumsum' cs)"

definition top_p_filter :: "('f, 'z) float_ops_scheme \<Rightarrow> 'f \<Rightarrow> 'f token_prob list \<Rightarrow> 'f token_prob list" where
  "top_p_filter F p cs =
     (if f_less F (f_zero F) p \<and> f_less F p (f_one F) then nucleus F p (f_zero F) cs else cs)"

definition greedy_choice :: "('f, 'z) float_ops_scheme \<Rightarrow> 'f token_prob list \<Rightarrow> int result" where
  "greedy_choice F cs =
     (case cs of [] \<Rightarrow> Inl (UB ''no candidate'')
      | c # _ \<Rightarrow> Inr (fst (foldl (\<lambda>best c. if f_less F (snd best) (snd c) then c else best) c cs)))"

definition renormalize :: "('f, 'z) float_ops_scheme \<Rightarrow> 'f token_prob list \<Rightarrow> 'f token_prob list" where
  "renormalize F cs =
     (let renorm_sum = sum_floats F (map snd cs)
      in if f_le F renorm_sum (f_zero F)
         then map (\<lambda>c. (fst c, f_div F (f_one F) (f_of_int F (int (length cs))))) cs
         else let inv_renorm = f_div F (f_one F) renorm_sum in map (\<lambda>c. (fst c, f_mul F (snd c) inv_renorm)) cs)"

fun pick :: "('f, 'z) float_ops_scheme \<Rightarrow> 'f \<Rightarrow> 'f \<Rightarrow> 'f token_prob list \<Rightarrow> int result" where
  "pick F r cumsum [] = Inl (UB ''no candidate'')"
| "pick F r cumsum (c # cs) =
     (let cumsum' = f_add F cumsum (snd c)
      in if f_le F r cumsum' \<or> cs = [] then Inr (fst c) else pick F r cumsum' cs)"

definition sample ::
  "('f, 'z) cpu_ops_scheme \<Rightarrow> (('f token_prob \<Rightarrow> 'f token_prob \<Rightarrow> bool) \<Rightarrow> 'f token_prob list \<Rightarrow> 'f token_prob list)
   \<Rightarrow> (('f token_prob \<Rightarrow> 'f token_prob \<Rightarrow> bool) \<Rightarrow> nat \<Rightarrow> 'f token_prob list \<Rightarrow> 'f token_prob list) \<Rightarrow> ('g \<Rightarrow> 'f \<times> 'g)
   \<Rightarrow> 'f list option \<Rightarrow> int \<Rightarrow> 'f sampling_config \<Rightarrow> int list \<Rightarrow> 'g \<Rightarrow> int result \<times> 'g"
where
  "sample F srt psrt draw logits vocab_size cfg input_ids rng =
     (case logits of None \<Rightarrow> (Inr (- 1), rng)
      | Some ls \<Rightarrow>
         if vocab_size \<le> 0 then (Inr (- 1), rng)
         else sbind (read_at ls 0 vocab_size, rng) (\<lambda>probs rng.
           let probs = apply_repetition F (sc_repetition_penalty cfg) input_ids probs;
               probs = apply_temperature F (sc_temperature cfg) probs;
               exp_vals = distribution F probs
           in sbind (top_k_filter F srt psrt (sc_top_k cfg) (candidates exp_vals), rng) (\<lambda>cs rng.
             let cs = top_p_filter F (sc_top_p cfg) cs
             in if sc_greedy cfg then (greedy_choice F cs, rng)
                else let (r, rng') = draw rng in (pick F r (f_zero F) (renormalize F cs), rng'))))"

definition get_top_tokens ::
  "('f, 'z) cpu_ops_scheme
   \<Rightarrow> (('f token_prob \<Rightarrow> 'f token_prob \<Rightarrow> bool) \<Rightarrow> nat \<Rightarrow> 'f token_prob list \<Rightarrow> 'f token_prob list)
   \<Rightarrow> 'f list option \<Rightarrow> int \<Rightarrow> 'f sampling_config \<Rightarrow> int \<Rightarrow> 'f token_prob list result"
where
  "get_top_tokens F psrt logits vocab_size cfg top_n =
     (case logits of None \<Rightarrow> Inr []
      | Some ls \<Rightarrow>
         if vocab_size \<le> 0 \<or> top_n \<le> 0 then Inr []
         else rbind (read_at ls 0 vocab_size) (\<lambda>scaled.
           let cs = candidates (distribution F (apply_temperature F (sc_temperature cfg) scaled));
               n = nat (min top_n vocab_size)
           in rbind (comparable F cs) (\<lambda>_. Inr (take n (psrt (prob_greater F) n cs)))))"

section \<open>The laws hold of insertion sort\<close>

lemma strict_weak_on_subset: "strict_weak_on A lt \<Longrightarrow> B \<subseteq> A \<Longrightarrow> strict_weak_on B lt"
  unfolding strict_weak_on_def by (meson subsetD)

lemma strict_weak_onD:
  assumes "strict_weak_on A lt" and "a \<in> A" "b \<in> A"
  shows "lt a b \<Longrightarrow> \<not> lt b a" and "c \<in> A \<Longrightarrow> \<not> lt b a \<Longrightarrow> \<not> lt c b \<Longrightarrow> \<not> lt c a"
  using assms unfolding strict_weak_on_def by meson+

lemma insort_by_on:
  assumes "strict_weak_on (insert x (set ys)) lt" and "sorted_wrt (\<lambda>a b. \<not> lt b a) ys"
  shows "sorted_wrt (\<lambda>a b. \<not> lt b a) (insort_by lt x ys)"
  using assms
proof (induction ys)
  case (Cons y ys)
  note law = strict_weak_onD [OF Cons.prems(1)]
  show ?case
  proof (cases "lt y x")
    case True
    have "strict_weak_on (insert x (set ys)) lt" using Cons.prems(1) by (rule strict_weak_on_subset) auto
    then have "sorted_wrt (\<lambda>a b. \<not> lt b a) (insort_by lt x ys)" using Cons by simp
    moreover have "\<not> lt x y" using law(1) [of y x] True by simp
    ultimately show ?thesis using Cons.prems(2) True by simp
  next
    case False
    then have "\<not> lt z x" if "z \<in> set ys" for z
      using law(2) [of x y z] Cons.prems(2) that by simp
    with Cons.prems(2) False show ?thesis by simp
  qed
qed simp

lemma sort_law_sort_by: "sort_law sort_by"
proof -
  have "sorted_wrt (\<lambda>a b. \<not> lt b a) (sort_by lt xs)" if "strict_weak_on (set xs) lt" for lt :: "'a \<Rightarrow> 'a \<Rightarrow> bool" and xs
    using that
  proof (induction xs)
    case (Cons x xs)
    have "strict_weak_on (set xs) lt" using Cons.prems by (rule strict_weak_on_subset) auto
    then have "sorted_wrt (\<lambda>a b. \<not> lt b a) (sort_by lt xs)" by (rule Cons.IH)
    moreover have "sort_by lt (x # xs) = insort_by lt x (sort_by lt xs)" by (simp add: sort_by_def)
    ultimately show ?case using insort_by_on [of x "sort_by lt xs" lt] Cons.prems by simp
  qed (simp add: sort_by_def)
  then show ?thesis by (simp add: sort_law_def)
qed

lemma sort_then_partial_sort: "sort_law srt \<Longrightarrow> partial_sort_law (\<lambda>lt k xs. srt lt xs)"
  unfolding sort_law_def partial_sort_law_def
proof (intro allI impI conjI ballI)
  fix lt :: "'a \<Rightarrow> 'a \<Rightarrow> bool" and k xs a b
  assume *: "\<forall>lt xs. strict_weak_on (set xs) lt \<longrightarrow> mset (srt lt xs) = mset xs \<and> sorted_wrt (\<lambda>a b. \<not> lt b a) (srt lt xs)"
    "strict_weak_on (set xs) lt"
  then have sorted: "sorted_wrt (\<lambda>a b. \<not> lt b a) (take k (srt lt xs) @ drop k (srt lt xs))" by simp
  from * show "mset (srt lt xs) = mset xs" by blast
  from sorted show "sorted_wrt (\<lambda>a b. \<not> lt b a) (take k (srt lt xs))" by (simp only: sorted_wrt_append)
  assume "a \<in> set (take k (srt lt xs))" and "b \<in> set (drop k (srt lt xs))"
  with sorted [unfolded sorted_wrt_append] show "\<not> lt b a" by blast
qed

end
