(* ===== verification/Sampler_Properties.thy ===== *)
theory Sampler_Properties
  imports Sampler Linear_Kernels
begin

text \<open>
  What sampling does in exact arithmetic with infinities and NaN: it always returns a token, greedy sampling
  returns a likeliest one, and the random choice draws a token with its renormalised probability.
\<close>

section \<open>Probabilities\<close>

lemma x_add_finD: "x_add a b = Fin c \<Longrightarrow> \<exists>x y. a = Fin x \<and> b = Fin y"
  by (cases "(a, b)" rule: x_add.cases) (auto split: if_splits)

lemma sum_fin_iff: "x_finite (foldl x_add acc xs) \<Longrightarrow> \<exists>a ys. acc = Fin a \<and> xs = map Fin ys"
proof (induction xs arbitrary: acc)
  case Nil
  then show ?case by (auto simp: x_finite_def split: xreal.splits)
next
  case (Cons x xs)
  then obtain a ys where "x_add acc x = Fin a" "xs = map Fin ys" by force
  with x_add_finD [of acc x a] show ?case by (auto intro: exI [of _ "_ # ys"])
qed

lemma uniform_distribution:
  assumes "0 < n"
  defines "ps \<equiv> replicate n (1 / real n)"
  shows "replicate n (f_div x_ops (f_one x_ops) (f_of_int x_ops (int n))) = map Fin ps \<and> length ps = n
    \<and> (\<forall>p \<in> set ps. 0 \<le> p) \<and> sum_list ps = 1"
  using assms by (simp add: sum_list_replicate)

text \<open>Whatever the logits, the probabilities are numbers that sum to 1.\<close>

lemma distribution_total:
  assumes "xs \<noteq> []"
  shows "\<exists>ps. distribution x_ops xs = map Fin ps \<and> length ps = length xs \<and> (\<forall>p \<in> set ps. 0 \<le> p) \<and> sum_list ps = 1"
proof -
  define m where "m = max_element x_ops xs"
  define S where "S = sum_floats x_ops (exp_scores x_ops xs m)"
  have uniform: ?thesis if "distribution x_ops xs = replicate (length xs) (f_div x_ops (f_one x_ops) (f_of_int x_ops (int (length xs))))"
    using uniform_distribution [of "length xs"] assms that
    by (intro exI [of _ "replicate (length xs) (1 / real (length xs))"]) simp
  show ?thesis
  proof (cases "x_finite m \<and> x_finite S \<and> \<not> x_le S (Fin 0)")
    case False
    then have "distribution x_ops xs = replicate (length xs) (f_div x_ops (f_one x_ops) (f_of_int x_ops (int (length xs))))"
      unfolding distribution_def m_def [symmetric] Let_def S_def [symmetric] by (simp del: x_div.simps)
    then show ?thesis by (rule uniform)
  next
    case True
    then obtain a where m: "m = Fin a" by (auto simp: x_finite_def split: xreal.splits)
    have "x_finite (foldl x_add (Fin 0) (exp_scores x_ops xs m))" using True by (simp add: S_def sum_floats_def)
    then obtain es where es: "exp_scores x_ops xs m = map Fin es" using sum_fin_iff by blast
    have S: "S = Fin (sum_list es)" by (simp add: S_def es sum_floats_fin)
    have len: "length es = length xs" using arg_cong [OF es, of length] by (simp add: exp_scores_def)
    have nonneg: "0 \<le> e" if e: "e \<in> set es" for e
    proof -
      obtain k where k: "k < length xs" "e = es ! k"  using e len by (auto simp: in_set_conv_nth)
      have "x_exp (x_sub (xs ! k) m) = Fin e"
        using arg_cong [OF es, of "\<lambda>l. l ! k"] k len by (simp add: exp_scores_def)
      then show ?thesis by (cases "x_sub (xs ! k) m") auto
    qed
    have pos: "0 < sum_list es" using True S by simp
    have "distribution x_ops xs = map Fin (map (\<lambda>e. e / sum_list es) es)"
      unfolding distribution_def m_def [symmetric] Let_def S_def [symmetric] using True pos
      by (simp add: S es [unfolded m] m comp_def)
    moreover have "sum_list (map (\<lambda>e. e / sum_list es) es) = 1"
      using pos sum_list_mult_const [of "\<lambda>e. e" "inverse (sum_list es)" es] by (simp add: divide_inverse)
    ultimately show ?thesis using nonneg pos len by (intro exI [of _ "map (\<lambda>e. e / sum_list es) es"]) (auto simp: less_imp_le)
  qed
qed

lemma max_element_fin: "xs \<noteq> [] \<Longrightarrow> \<exists>m. max_element x_ops (map Fin xs) = Fin m"
proof -
  have "\<exists>m. foldl (f_max x_ops) (Fin a) (map Fin ys) = Fin m" for a ys
    by (induction ys arbitrary: a) auto
  then show "xs \<noteq> [] \<Longrightarrow> ?thesis" by (cases xs) (auto simp: max_element_def)
qed

lemma distribution_softmax:
  assumes "xs \<noteq> []"
  shows "distribution x_ops (map Fin xs) = map (\<lambda>i. Fin (softmax (\<lambda>i. xs ! i) (length xs) i)) [0..<length xs]"
proof -
  obtain m where m: "max_element x_ops (map Fin xs) = Fin m" using max_element_fin [OF assms] by auto
  let ?es = "map (\<lambda>x. exp (x - m)) xs"
  have es: "exp_scores x_ops (map Fin xs) (Fin m) = map Fin ?es" by (simp add: exp_scores_def)
  have sum: "sum_list ?es = (\<Sum>j < length xs. exp (xs ! j - m))" by (simp add: sum_list_sum_nth atLeast0LessThan)
  have "0 < (\<Sum>j < length xs. exp (xs ! j - m))" using assms by (intro sum_pos) auto
  then have "distribution x_ops (map Fin xs) = map Fin (map (\<lambda>e. e / sum_list ?es) ?es)"
    unfolding distribution_def Let_def length_map m es by (simp only: sum_floats_fin sum) (simp add: comp_def)
  also have "\<dots> = map (\<lambda>i. Fin (softmax (\<lambda>i. xs ! i) (length xs) i)) [0..<length xs]"
    using softmax_shift [of "\<lambda>i. xs ! i" m "length xs"] by (intro nth_equalityI) (simp_all add: sum softmax_def)
  finally show ?thesis .
qed

section \<open>Filtering\<close>

text \<open>The candidates of a list \<open>ks\<close> of tokens.\<close>

definition token_list :: "real list \<Rightarrow> nat list \<Rightarrow> xreal token_prob list" where
  "token_list ps ks = map (\<lambda>k. (int k, Fin (ps ! k))) ks"

text \<open>Distinct tokens, likelier ones first, and no token outside is likelier than one inside.\<close>

definition top_tokens :: "real list \<Rightarrow> nat list \<Rightarrow> bool" where
  "top_tokens ps ks \<longleftrightarrow> distinct ks \<and> set ks \<subseteq> {..<length ps} \<and> sorted_wrt (\<lambda>i j. ps ! j \<le> ps ! i) ks
     \<and> (\<forall>i \<in> set ks. \<forall>j < length ps. ps ! i < ps ! j \<longrightarrow> j \<in> set ks)"

lemma top_tokens_take:
  assumes "top_tokens ps ks"
  shows "top_tokens ps (take m ks)"
proof -
  have ks: "distinct (take m ks @ drop m ks)" "sorted_wrt (\<lambda>i j. ps ! j \<le> ps ! i) (take m ks @ drop m ks)"
    using assms by (simp_all add: top_tokens_def)
  have "j \<in> set (take m ks)" if "i \<in> set (take m ks)" "j < length ps" "ps ! i < ps ! j" for i j
  proof (rule ccontr)
    assume "j \<notin> set (take m ks)"
    moreover have "j \<in> set ks" using assms that in_set_takeD [OF that(1)] by (auto simp: top_tokens_def)
    ultimately have "j \<in> set (drop m ks)" by (metis Un_iff append_take_drop_id set_append)
    with ks(2) that show False unfolding sorted_wrt_append by fastforce
  qed
  with assms ks show ?thesis unfolding top_tokens_def sorted_wrt_append distinct_append by (auto dest: in_set_takeD)
qed

lemma candidates_token_list: "candidates (map Fin ps) = token_list ps [0..<length ps]"
  by (intro nth_equalityI) (simp_all add: candidates_def token_list_def)

lemma comparable_token_list [simp]: "comparable x_ops (token_list ps ks) = Inr ()"
  by (simp add: comparable_def token_list_def list_all_iff)

lemma permuted_token_list:
  assumes "mset cs = mset (token_list ps ks)"
  shows "\<exists>ks'. cs = token_list ps ks' \<and> mset ks' = mset ks"
proof -
  define ks' where "ks' = map (nat \<circ> fst) cs"
  have "c = (int (nat (fst c)), Fin (ps ! nat (fst c)))" if "c \<in> set cs" for c
    using mset_eq_setD [OF assms] that by (auto simp: token_list_def)
  then have "cs = token_list ps ks'" unfolding ks'_def token_list_def by (intro nth_equalityI) auto
  moreover have "mset ks' = image_mset (nat \<circ> fst) (mset (token_list ps ks))"
    unfolding ks'_def by (simp add: assms [symmetric])
  then have "mset ks' = mset ks" unfolding token_list_def by (simp add: image_mset.compositionality comp_def)
  ultimately show ?thesis by blast
qed

lemma prob_greater_token [simp]: "prob_greater x_ops (i, Fin a) (j, Fin b) \<longleftrightarrow> b < a"
  by (simp add: prob_greater_def)

lemma prob_greater_strict_weak: "strict_weak_on (set (token_list ps ks)) (prob_greater x_ops)"
  unfolding strict_weak_on_def token_list_def by auto

lemma sorted_token_list:
  "sorted_wrt (\<lambda>a b. \<not> prob_greater x_ops b a) (token_list ps ks) \<longleftrightarrow> sorted_wrt (\<lambda>i j. ps ! j \<le> ps ! i) ks"
  by (simp add: token_list_def sorted_wrt_map not_less)

lemma partial_sort_run:
  assumes "partial_sort_law psrt" and "k \<le> length ps"
  shows "\<exists>ks. take k (psrt (prob_greater x_ops) k (token_list ps [0..<length ps])) = token_list ps ks
    \<and> top_tokens ps ks \<and> length ks = k"
proof -
  let ?cs = "psrt (prob_greater x_ops) k (token_list ps [0..<length ps])"
  have "k \<le> length (token_list ps [0..<length ps])" using assms(2) by (simp add: token_list_def)
  then have law: "mset ?cs = mset (token_list ps [0..<length ps])"
    "sorted_wrt (\<lambda>a b. \<not> prob_greater x_ops b a) (take k ?cs)"
    "\<forall>a \<in> set (take k ?cs). \<forall>b \<in> set (drop k ?cs). \<not> prob_greater x_ops b a"
    using assms(1) prob_greater_strict_weak unfolding partial_sort_law_def by blast+
  then obtain ks where ks: "?cs = token_list ps ks" "mset ks = mset [0..<length ps]" using permuted_token_list by blast
  have set: "set ks = {..<length ps}" using mset_eq_setD [OF ks(2)] by (simp add: lessThan_atLeast0)
  have dist: "distinct (take k ks)" using mset_eq_imp_distinct_iff [OF ks(2)] by simp
  have len: "length ks = length ps" using mset_eq_length [OF ks(2)] by simp
  have take: "take k ?cs = token_list ps (take k ks)" "drop k ?cs = token_list ps (drop k ks)"
    unfolding ks(1) by (simp_all add: token_list_def take_map drop_map)
  have "j \<in> set (take k ks)" if i: "i \<in> set (take k ks)" and j: "j < length ps" "ps ! i < ps ! j" for i j
  proof (rule ccontr)
    assume "j \<notin> set (take k ks)"
    then have "j \<in> set (drop k ks)" using j(1) set by (metis Un_iff append_take_drop_id lessThan_iff set_append)
    then have "(int j, Fin (ps ! j)) \<in> set (drop k ?cs)" "(int i, Fin (ps ! i)) \<in> set (take k ?cs)"
      using i unfolding take by (auto simp: token_list_def)
    with law(3) j(2) show False by fastforce
  qed
  moreover have "set (take k ks) \<subseteq> {..<length ps}" using set set_take_subset by fast
  ultimately have "top_tokens ps (take k ks)"
    using dist law(2) unfolding top_tokens_def take sorted_token_list by blast
  with take(1) len assms(2) show ?thesis by (intro exI [of _ "take k ks"]) simp
qed

lemma top_k_filter_run:
  assumes laws: "sort_law srt" "partial_sort_law psrt" and "0 < length ps"
  shows "\<exists>ks. top_k_filter x_ops srt psrt k (token_list ps [0..<length ps]) = Inr (token_list ps ks)
    \<and> top_tokens ps ks \<and> length ks = (if 0 < k \<and> k < int (length ps) then nat k else length ps)"
proof (cases "0 < k \<and> k < int (length ps)")
  case True
  then have "nat k \<le> length ps" by linarith
  from partial_sort_run [OF laws(2) this] obtain ks where
    "take (nat k) (psrt (prob_greater x_ops) (nat k) (token_list ps [0..<length ps])) = token_list ps ks"
    "top_tokens ps ks" "length ks = nat k" by blast
  moreover have "length (token_list ps [0..<length ps]) = length ps" by (simp add: token_list_def)
  ultimately show ?thesis using True by (intro exI [of _ ks]) (simp add: top_k_filter_def)
next
  case False
  let ?cs = "srt (prob_greater x_ops) (token_list ps [0..<length ps])"
  have law: "mset ?cs = mset (token_list ps [0..<length ps])" "sorted_wrt (\<lambda>a b. \<not> prob_greater x_ops b a) ?cs"
    using laws(1) prob_greater_strict_weak unfolding sort_law_def by blast+
  then obtain ks where ks: "?cs = token_list ps ks" "mset ks = mset [0..<length ps]" using permuted_token_list by blast
  have "set ks = {..<length ps}" using mset_eq_setD [OF ks(2)] by (simp add: lessThan_atLeast0)
  moreover have "distinct ks" using mset_eq_imp_distinct_iff [OF ks(2)] by simp
  moreover have "length ks = length ps" using mset_eq_length [OF ks(2)] by simp
  moreover have "sorted_wrt (\<lambda>i j. ps ! j \<le> ps ! i) ks" using law(2) unfolding ks(1) sorted_token_list .
  moreover have "length (token_list ps [0..<length ps]) = length ps" by (simp add: token_list_def)
  then have "top_k_filter x_ops srt psrt k (token_list ps [0..<length ps]) = Inr (token_list ps ks)"
    using False by (simp only: top_k_filter_def comparable_token_list rbind_simps if_False ks(1))
  ultimately show ?thesis using False by (intro exI [of _ ks]) (auto simp: top_tokens_def)
qed

text \<open>The nucleus is a prefix, and the sum before each of its tokens is below \<open>top_p\<close>.\<close>

lemma nucleus_prefix:
  "ks \<noteq> [] \<Longrightarrow> \<exists>m. 0 < m \<and> m \<le> length ks \<and> nucleus x_ops (Fin p) (Fin a) (token_list ps ks) = token_list ps (take m ks)
    \<and> (\<forall>i < m. 0 < i \<longrightarrow> a + (\<Sum>j < i. ps ! (ks ! j)) < p) \<and> (m = length ks \<or> p \<le> a + (\<Sum>j < m. ps ! (ks ! j)))"
proof (induction ks arbitrary: a)
  case (Cons k ks)
  show ?case
  proof (cases "p \<le> a + ps ! k \<or> ks = []")
    case True
    then show ?thesis by (intro exI [of _ 1]) (auto simp: token_list_def)
  next
    case False
    with Cons.IH [of "a + ps ! k"] obtain m where m: "0 < m" "m \<le> length ks"
      "nucleus x_ops (Fin p) (Fin (a + ps ! k)) (token_list ps ks) = token_list ps (take m ks)"
      "\<forall>i < m. 0 < i \<longrightarrow> a + ps ! k + (\<Sum>j < i. ps ! (ks ! j)) < p"
      "m = length ks \<or> p \<le> a + ps ! k + (\<Sum>j < m. ps ! (ks ! j))" by blast
    have "a + (\<Sum>j < i. ps ! ((k # ks) ! j)) < p" if "i < Suc m" "0 < i" for i
    proof (cases i)
      case (Suc i')
      with m(4) that False show ?thesis by (cases i') (auto simp: sum.lessThan_Suc_shift add.assoc simp del: sum.lessThan_Suc)
    qed (use that in simp)
    moreover have "a + (\<Sum>j < Suc m. ps ! ((k # ks) ! j)) = a + ps ! k + (\<Sum>j < m. ps ! (ks ! j))"
      by (simp add: sum.lessThan_Suc_shift del: sum.lessThan_Suc)
    ultimately show ?thesis using m False
      by (intro exI [of _ "Suc m"]) (auto simp: token_list_def simp del: sum.lessThan_Suc)
  qed
qed simp

lemma top_p_filter_run:
  assumes "ks \<noteq> []"
  shows "\<exists>m. 0 < m \<and> m \<le> length ks \<and> top_p_filter x_ops p (token_list ps ks) = token_list ps (take m ks)
    \<and> (\<forall>t. p = Fin t \<longrightarrow> 0 < t \<longrightarrow> t < 1 \<longrightarrow> (\<forall>i < m. (\<Sum>j < i. ps ! (ks ! j)) < t))
    \<and> (m = length ks \<or> (\<exists>t. p = Fin t \<and> 0 < t \<and> t < 1 \<and> t \<le> (\<Sum>j < m. ps ! (ks ! j))))"
proof (cases "x_less (Fin 0) p \<and> x_less p (Fin 1)")
  case True
  then obtain t where t: "p = Fin t" "0 < t" "t < 1" by (cases p) auto
  with nucleus_prefix [OF assms, of t 0 ps] obtain m where m: "0 < m" "m \<le> length ks"
    "nucleus x_ops (Fin t) (Fin 0) (token_list ps ks) = token_list ps (take m ks)"
    "\<forall>i < m. 0 < i \<longrightarrow> (\<Sum>j < i. ps ! (ks ! j)) < t" "m = length ks \<or> t \<le> (\<Sum>j < m. ps ! (ks ! j))" by auto
  have "(\<Sum>j < i. ps ! (ks ! j)) < t" if "i < m" for i using m(4) that t(2) by (cases "i = 0") auto
  with m t show ?thesis by (intro exI [of _ m]) (simp add: top_p_filter_def)
next
  case False
  then show ?thesis using assms by (intro exI [of _ "length ks"]) (auto simp: top_p_filter_def)
qed

section \<open>Choices\<close>

lemma greedy_choice_run:
  assumes "sorted_wrt (\<lambda>i j. ps ! j \<le> ps ! i) (k # ks)"
  shows "greedy_choice x_ops (token_list ps (k # ks)) = Inr (int k)"
proof -
  have "foldl (\<lambda>best c. if x_less (snd best) (snd c) then c else best) (int k, Fin (ps ! k)) (token_list ps ks) = (int k, Fin (ps ! k))"
    using assms by (induction ks) (auto simp: token_list_def not_less)
  then show ?thesis by (simp add: greedy_choice_def token_list_def)
qed

lemma pick_run:
  "ks \<noteq> [] \<Longrightarrow> \<exists>m < length ks. pick x_ops (Fin u) (Fin a) (token_list qs ks) = Inr (int (ks ! m))
    \<and> (\<forall>j < m. a + (\<Sum>l < Suc j. qs ! (ks ! l)) < u) \<and> (u \<le> a + (\<Sum>l < Suc m. qs ! (ks ! l)) \<or> Suc m = length ks)"
proof (induction ks arbitrary: a)
  case (Cons k ks)
  show ?case
  proof (cases "u \<le> a + qs ! k \<or> ks = []")
    case True
    then show ?thesis by (intro exI [of _ 0]) (auto simp: token_list_def)
  next
    case False
    with Cons.IH [of "a + qs ! k"] obtain m where m: "m < length ks"
      "pick x_ops (Fin u) (Fin (a + qs ! k)) (token_list qs ks) = Inr (int (ks ! m))"
      "\<forall>j < m. a + qs ! k + (\<Sum>l < Suc j. qs ! (ks ! l)) < u"
      "u \<le> a + qs ! k + (\<Sum>l < Suc m. qs ! (ks ! l)) \<or> Suc m = length ks" by blast
    have shift: "a + (\<Sum>l < Suc (Suc j). qs ! ((k # ks) ! l)) = a + qs ! k + (\<Sum>l < Suc j. qs ! (ks ! l))" for j
      by (simp add: sum.lessThan_Suc_shift del: sum.lessThan_Suc)
    have "a + (\<Sum>l < Suc j. qs ! ((k # ks) ! l)) < u" if "j < Suc m" for j
    proof (cases j)
      case (Suc j')
      with m(3) that show ?thesis unfolding Suc shift by (simp del: sum.lessThan_Suc)
    qed (use False in simp)
    with m False shift [of m] show ?thesis by (intro exI [of _ "Suc m"]) (auto simp: token_list_def)
  qed
qed simp

lemma renormalize_run:
  assumes "0 < sum_list (map (\<lambda>k. ps ! k) ks)" and "set ks \<subseteq> {..<length ps}"
  shows "renormalize x_ops (token_list ps ks) = token_list (map (\<lambda>p. p / sum_list (map (\<lambda>k. ps ! k) ks)) ps) ks"
proof -
  have "map snd (token_list ps ks) = map Fin (map (\<lambda>k. ps ! k) ks)" by (simp add: token_list_def)
  then have "sum_floats x_ops (map snd (token_list ps ks)) = Fin (sum_list (map (\<lambda>k. ps ! k) ks))" by (simp only: sum_floats_fin)
  with assms show ?thesis by (auto simp: renormalize_def token_list_def)
qed

section \<open>Sampling\<close>

text \<open>What the filters keep of a distribution.\<close>

definition top_count :: "int \<Rightarrow> nat \<Rightarrow> nat" where
  "top_count k n = (if 0 < k \<and> k < int n then nat k else n)"

definition kept_tokens :: "int \<Rightarrow> xreal \<Rightarrow> real list \<Rightarrow> nat list \<Rightarrow> bool" where
  "kept_tokens k p ps ks \<longleftrightarrow> ks \<noteq> [] \<and> top_tokens ps ks
     \<and> length ks \<le> top_count k (length ps)
     \<and> (\<forall>t. p = Fin t \<longrightarrow> 0 < t \<longrightarrow> t < 1 \<longrightarrow> (\<forall>i < length ks. (\<Sum>j < i. ps ! (ks ! j)) < t))
     \<and> (length ks = top_count k (length ps) \<or> (\<exists>t. p = Fin t \<and> 0 < t \<and> t < 1 \<and> t \<le> (\<Sum>j < length ks. ps ! (ks ! j))))"

lemma filters_run:
  assumes laws: "sort_law srt" "partial_sort_law psrt" and n: "0 < length ps"
  shows "\<exists>cs ks. top_k_filter x_ops srt psrt k (candidates (map Fin ps)) = Inr cs
    \<and> top_p_filter x_ops p cs = token_list ps ks \<and> kept_tokens k p ps ks"
proof -
  obtain ks where ks: "top_k_filter x_ops srt psrt k (token_list ps [0..<length ps]) = Inr (token_list ps ks)"
    "top_tokens ps ks" "length ks = (if 0 < k \<and> k < int (length ps) then nat k else length ps)"
    using top_k_filter_run [OF laws n] by blast
  have "ks \<noteq> []" using ks(3) n by (auto split: if_splits)
  then obtain m where m: "0 < m" "m \<le> length ks" "top_p_filter x_ops p (token_list ps ks) = token_list ps (take m ks)"
    "\<forall>t. p = Fin t \<longrightarrow> 0 < t \<longrightarrow> t < 1 \<longrightarrow> (\<forall>i < m. (\<Sum>j < i. ps ! (ks ! j)) < t)"
    "m = length ks \<or> (\<exists>t. p = Fin t \<and> 0 < t \<and> t < 1 \<and> t \<le> (\<Sum>j < m. ps ! (ks ! j)))"
    using top_p_filter_run [OF \<open>ks \<noteq> []\<close>, of p ps] by (elim exE conjE)
  have "(\<Sum>j < i. ps ! (take m ks ! j)) = (\<Sum>j < i. ps ! (ks ! j))" if "i \<le> m" for i
    using that by (intro sum.cong) auto
  moreover have "length (take m ks) = m" "length ks = top_count k (length ps)" using m(2) ks(3) by (simp_all add: top_count_def)
  moreover have "take m ks \<noteq> []" using m(1) \<open>ks \<noteq> []\<close> by simp
  ultimately have "kept_tokens k p ps (take m ks)"
    using m top_tokens_take [OF ks(2), of m] unfolding kept_tokens_def by simp
  with ks(1) m(3) show ?thesis by (auto simp: candidates_token_list)
qed

text \<open>The scaled logits that are turned into probabilities.\<close>

definition scaled_logits :: "xreal sampling_config \<Rightarrow> int list \<Rightarrow> xreal list \<Rightarrow> xreal list" where
  "scaled_logits cfg ids ls =
     apply_temperature x_ops (sc_temperature cfg) (apply_repetition x_ops (sc_repetition_penalty cfg) ids ls)"

lemma length_penalize [simp]: "length (penalize F penalty ids ls) = length ls"
  unfolding penalize_def by (induction ids arbitrary: ls) (auto simp: Let_def)

lemma length_scaled_logits [simp]: "length (scaled_logits cfg ids ls) = length ls"
  by (simp add: scaled_logits_def apply_temperature_def apply_repetition_def Let_def)

lemma sample_run:
  assumes laws: "sort_law srt" "partial_sort_law psrt" and n: "0 < n" "n \<le> length ls"
    and ps: "distribution x_ops (scaled_logits cfg ids (take n ls)) = map Fin ps" "length ps = n"
  shows "\<exists>ks. kept_tokens (sc_top_k cfg) (sc_top_p cfg) ps ks
    \<and> (\<forall>draw g. sample x_ops srt psrt draw (Some ls) (int n) cfg ids g
          = (if sc_greedy cfg then (greedy_choice x_ops (token_list ps ks), g)
             else (pick x_ops (fst (draw g)) (Fin 0) (renormalize x_ops (token_list ps ks)), snd (draw g))))"
proof -
  obtain cs ks where f: "top_k_filter x_ops srt psrt (sc_top_k cfg) (candidates (map Fin ps)) = Inr cs"
    "top_p_filter x_ops (sc_top_p cfg) cs = token_list ps ks" "kept_tokens (sc_top_k cfg) (sc_top_p cfg) ps ks"
    using filters_run [OF laws, of ps] n ps(2) by blast
  have "read_at ls 0 (int n) = Inr (take n ls)" using n(2) by (simp add: read_at_def read_floats_def)
  then have "sample x_ops srt psrt draw (Some ls) (int n) cfg ids g
      = (if sc_greedy cfg then (greedy_choice x_ops (token_list ps ks), g)
         else (pick x_ops (fst (draw g)) (Fin 0) (renormalize x_ops (token_list ps ks)), snd (draw g)))" for draw g
    using n(1) f ps(1) by (simp add: sample_def scaled_logits_def Let_def case_prod_beta)
  with f(3) show ?thesis by blast
qed

lemma pick_valid: "cs \<noteq> [] \<Longrightarrow> \<exists>c \<in> set cs. pick F r a cs = Inr (fst c)"
  by (induction cs arbitrary: a) (auto simp: Let_def)

lemma set_renormalize: "fst ` set (renormalize F cs) = fst ` set cs"
  by (auto simp: renormalize_def Let_def image_image)

text \<open>C38. Sampling always gives a token: for logits of any kind, with NaN and infinities, for any configuration, penalties of zero
  included, and whatever random number is drawn, \<open>sample\<close> returns an id of the vocabulary; the comparator never sees NaN
  and no list of candidates is empty. Without logits or with an empty vocabulary the result is \<open>-1\<close>, and
  no random number is used.\<close>

theorem sampling_returns_valid_token:
  fixes draw :: "'g \<Rightarrow> xreal \<times> 'g"
  assumes "sort_law srt" and "partial_sort_law psrt"
  shows "(logits = None \<or> n \<le> 0 \<longrightarrow> sample x_ops srt psrt draw logits n cfg ids g = (Inr (- 1), g))
    \<and> (0 < n \<and> n \<le> int (length ls) \<longrightarrow>
         (\<exists>i g'. sample x_ops srt psrt draw (Some ls) n cfg ids g = (Inr i, g') \<and> 0 \<le> i \<and> i < n))"
proof (intro conjI impI)
  assume "logits = None \<or> n \<le> 0"
  then show "sample x_ops srt psrt draw logits n cfg ids g = (Inr (- 1), g)"
    by (auto simp: sample_def split: option.split)
next
  assume n: "0 < n \<and> n \<le> int (length ls)"
  define m where "m = nat n"
  have m: "int m = n" "0 < m" "m \<le> length ls" using n by (auto simp: m_def)
  have "scaled_logits cfg ids (take m ls) \<noteq> []" using m(2,3) by (simp flip: length_greater_0_conv)
  from distribution_total [OF this] obtain ps where ps: "distribution x_ops (scaled_logits cfg ids (take m ls)) = map Fin ps"
    "length ps = m" using m(3) by (elim exE conjE) simp
  obtain ks where ks: "kept_tokens (sc_top_k cfg) (sc_top_p cfg) ps ks"
    "\<forall>(draw :: 'g \<Rightarrow> xreal \<times> 'g) g. sample x_ops srt psrt draw (Some ls) (int m) cfg ids g
       = (if sc_greedy cfg then (greedy_choice x_ops (token_list ps ks), g)
          else (pick x_ops (fst (draw g)) (Fin 0) (renormalize x_ops (token_list ps ks)), snd (draw g)))"
    using sample_run [OF assms m(2,3) ps] by blast
  obtain k ks' where Cons: "ks = k # ks'" using ks(1) by (cases ks) (auto simp: kept_tokens_def)
  have sorted: "sorted_wrt (\<lambda>i j. ps ! j \<le> ps ! i) (k # ks')" and bound: "set ks \<subseteq> {..<m}"
    using ks(1) Cons ps(2) by (simp_all add: kept_tokens_def top_tokens_def)
  show "\<exists>i g'. sample x_ops srt psrt draw (Some ls) n cfg ids g = (Inr i, g') \<and> 0 \<le> i \<and> i < n"
  proof (cases "sc_greedy cfg")
    case True
    with ks(2) greedy_choice_run [OF sorted] bound Cons m(1) show ?thesis
      by (intro exI [of _ "int k"] exI [of _ g]) auto
  next
    case False
    have "renormalize x_ops (token_list ps ks) \<noteq> []" using Cons by (simp add: renormalize_def token_list_def Let_def)
    from pick_valid [OF this, of x_ops "fst (draw g)" "Fin 0"]
    obtain c where c: "c \<in> set (renormalize x_ops (token_list ps ks))"
      "pick x_ops (fst (draw g)) (Fin 0) (renormalize x_ops (token_list ps ks)) = Inr (fst c)"
      by (elim bexE)
    from c(1) have "fst c \<in> fst ` set (renormalize x_ops (token_list ps ks))" by (rule imageI)
    then have "fst c \<in> fst ` set (token_list ps ks)" by (simp only: set_renormalize)
    then obtain i where "i \<in> set ks" "fst c = int i" by (auto simp: token_list_def)
    with False ks(2) c(2) bound m(1) show ?thesis
      by (intro exI [of _ "int i"] exI [of _ "snd (draw g)"]) auto
  qed
qed

definition demo_config :: "bool \<Rightarrow> xreal sampling_config" where
  "demo_config greedy = \<lparr>sc_greedy = greedy, sc_top_k = 2, sc_top_p = NaN, sc_temperature = PInf, sc_repetition_penalty = Fin 0\<rparr>"

lemma sort_laws: "sort_law sort_by" "partial_sort_law (\<lambda>lt k xs. sort_by lt xs)"
  by (rule sort_law_sort_by, rule sort_then_partial_sort [OF sort_law_sort_by])

theorem sampling_returns_valid_token_witness:
  "\<exists>i g'. sample x_ops sort_by (\<lambda>lt k xs. sort_by lt xs) (\<lambda>g. (NaN, g)) (Some [NaN, PInf, Fin 3]) 3 (demo_config False) [0, 7, - 1] ()
     = (Inr i, g') \<and> 0 \<le> i \<and> i < 3"
  using sampling_returns_valid_token [OF sort_laws, of None 3 "\<lambda>g. (NaN, g)" "demo_config False" "[0, 7, - 1]" "()" "[NaN, PInf, Fin 3]"]
  by simp

text \<open>The sums of the likelier tokens.\<close>

lemma kept_mass_above:
  assumes kept: "kept_tokens k p ps ks" and nonneg: "\<forall>q \<in> set ps. 0 \<le> q" and m: "m < length ks"
  shows "(\<Sum>j \<in> {j. j < length ps \<and> ps ! (ks ! m) < ps ! j}. ps ! j) \<le> (\<Sum>j < m. ps ! (ks ! j))"
    and "card {j. j < length ps \<and> ps ! (ks ! m) < ps ! j} \<le> m"
proof -
  let ?A = "{j. j < length ps \<and> ps ! (ks ! m) < ps ! j}"
  have ks: "distinct ks" "set ks \<subseteq> {..<length ps}" "sorted_wrt (\<lambda>i j. ps ! j \<le> ps ! i) ks"
    "\<forall>i \<in> set ks. \<forall>j < length ps. ps ! i < ps ! j \<longrightarrow> j \<in> set ks"
    using kept by (simp_all add: kept_tokens_def top_tokens_def)
  have sub: "?A \<subseteq> (\<lambda>j. ks ! j) ` {..<m}"
  proof
    fix j assume j: "j \<in> ?A"
    then have "j \<in> set ks" using ks(4) m by auto
    then obtain i where i: "i < length ks" "j = ks ! i" by (auto simp: in_set_conv_nth)
    have "i < m"
    proof (rule ccontr)
      assume "\<not> i < m"
      then have "ps ! (ks ! i) \<le> ps ! (ks ! m)"
        using sorted_wrt_nth_less [OF ks(3), of m i] i(1) by (cases "i = m") auto
      with j i(2) show False by simp
    qed
    with i(2) show "j \<in> (\<lambda>j. ks ! j) ` {..<m}" by simp
  qed
  have inj: "inj_on (\<lambda>j. ks ! j) {..<m}" using ks(1) m by (intro inj_on_nth) auto
  have "(\<Sum>j \<in> ?A. ps ! j) \<le> (\<Sum>j \<in> (\<lambda>j. ks ! j) ` {..<m}. ps ! j)"
  proof (rule sum_mono2 [OF _ sub])
    fix j assume "j \<in> (\<lambda>j. ks ! j) ` {..<m} - ?A"
    then have "j < length ps" using ks(2) m by (auto simp: subset_eq)
    then show "0 \<le> ps ! j" using nonneg by simp
  qed simp
  then show "(\<Sum>j \<in> ?A. ps ! j) \<le> (\<Sum>j < m. ps ! (ks ! j))" by (simp add: sum.reindex [OF inj])
  show "card ?A \<le> m" using card_mono [OF _ sub] card_image_le [of "{..<m}" "\<lambda>j. ks ! j"] by simp
qed

text \<open>The interval of a kept token.\<close>

definition mass_before :: "real list \<Rightarrow> nat list \<Rightarrow> nat \<Rightarrow> real" where
  "mass_before ps ks i = sum_list (map (\<lambda>k. ps ! k) (takeWhile (\<lambda>k. k \<noteq> i) ks)) / sum_list (map (\<lambda>k. ps ! k) ks)"

lemma mass_before_nth:
  assumes "distinct ks" and "m < length ks"
  shows "mass_before ps ks (ks ! m) = (\<Sum>j < m. ps ! (ks ! j)) / sum_list (map (\<lambda>k. ps ! k) ks)"
proof -
  have "takeWhile (\<lambda>k. k \<noteq> ks ! m) ks = take m ks"
    using assms by (intro takeWhile_eq_take_P_nth) (auto simp: nth_eq_iff_index_eq)
  then show ?thesis using assms(2) by (simp add: mass_before_def sum_list_sum_nth atLeast0LessThan)
qed

lemma kept_mass_pos:
  assumes kept: "kept_tokens k p ps ks" and nonneg: "\<forall>q \<in> set ps. 0 \<le> q" and sum: "sum_list ps = 1"
  shows "0 < sum_list (map (\<lambda>k. ps ! k) ks)"
proof -
  obtain i ks' where ks: "ks = i # ks'" using kept by (cases ks) (auto simp: kept_tokens_def)
  have i: "i < length ps" "\<forall>k \<in> set ks. k < length ps" using kept ks by (auto simp: kept_tokens_def top_tokens_def)
  have "0 < ps ! i"
  proof (rule ccontr)
    assume "\<not> 0 < ps ! i"
    moreover have "0 \<le> ps ! i" using nonneg i(1) by simp
    ultimately have zero: "ps ! i = 0" by simp
    have "ps ! j = 0" if "j < length ps" for j
    proof (rule ccontr)
      assume "ps ! j \<noteq> 0"
      moreover have "0 \<le> ps ! j" using nonneg that by simp
      ultimately have "0 < ps ! j" by simp
      with kept ks zero that have "j \<in> set (i # ks')" "j \<noteq> i" by (auto simp: kept_tokens_def top_tokens_def)
      with kept ks zero \<open>0 < ps ! j\<close> show False by (auto simp: kept_tokens_def top_tokens_def)
    qed
    then have "sum_list ps = 0" by (simp add: sum_list_sum_nth)
    with sum show False by simp
  qed
  moreover have "0 \<le> sum_list (map (\<lambda>k. ps ! k) ks')" using nonneg i(2) ks by (intro sum_list_nonneg) auto
  ultimately show ?thesis by (simp add: ks)
qed

lemma pick_interval:
  assumes kept: "kept_tokens k p ps ks" and nonneg: "\<forall>q \<in> set ps. 0 \<le> q" and sum: "sum_list ps = 1" and u: "0 < u" "u \<le> 1"
  defines "S \<equiv> sum_list (map (\<lambda>k. ps ! k) ks)"
  shows "\<exists>i \<in> set ks. pick x_ops (Fin u) (Fin 0) (renormalize x_ops (token_list ps ks)) = Inr (int i)
    \<and> (\<forall>i' \<in> set ks. i' = i \<longleftrightarrow> mass_before ps ks i' < u \<and> u \<le> mass_before ps ks i' + ps ! i' / S)"
proof -
  have S: "0 < S" unfolding S_def by (rule kept_mass_pos [OF kept nonneg sum])
  have ks: "distinct ks" "set ks \<subseteq> {..<length ps}" "ks \<noteq> []" using kept by (simp_all add: kept_tokens_def top_tokens_def)
  define cum where "cum m = (\<Sum>j < m. ps ! (ks ! j)) / S" for m
  have cum_Suc: "cum (Suc m) = cum m + ps ! (ks ! m) / S" for m by (simp add: cum_def add_divide_distrib)
  have cum_mono: "cum a \<le> cum b" if "a \<le> b" "b \<le> length ks" for a b
  proof -
    have "0 \<le> ps ! (ks ! j)" if "j < b" for j using nonneg ks(2) that \<open>b \<le> length ks\<close> by (auto simp: subset_eq)
    then show ?thesis using S that(1) unfolding cum_def by (intro divide_right_mono sum_mono2) auto
  qed
  have cum_all: "cum (length ks) = 1" using S by (simp add: cum_def S_def sum_list_sum_nth atLeast0LessThan)
  have mass: "mass_before ps ks (ks ! m) = cum m" if "m < length ks" for m
    using mass_before_nth [OF ks(1) that, of ps] by (simp add: cum_def S_def)
  let ?qs = "map (\<lambda>p. p / S) ps"
  have qs: "(\<Sum>l < m. ?qs ! (ks ! l)) = cum m" if "m \<le> length ks" for m
    using that ks(2) unfolding cum_def sum_divide_distrib by (intro sum.cong) (auto simp: subset_eq)
  have "renormalize x_ops (token_list ps ks) = token_list ?qs ks"
    using renormalize_run [of ps ks] S ks(2) by (simp add: S_def)
  moreover obtain m where m: "m < length ks" "pick x_ops (Fin u) (Fin 0) (token_list ?qs ks) = Inr (int (ks ! m))"
    "\<forall>j < m. 0 + (\<Sum>l < Suc j. ?qs ! (ks ! l)) < u" "u \<le> 0 + (\<Sum>l < Suc m. ?qs ! (ks ! l)) \<or> Suc m = length ks"
    using pick_run [OF ks(3), of u 0 ?qs] by blast
  have lower: "cum m < u"
  proof (cases m)
    case (Suc j)
    with m(3) [rule_format, of j] qs [of "Suc j"] m(1) show ?thesis by (simp del: sum.lessThan_Suc)
  qed (use u(1) in \<open>simp add: cum_def\<close>)
  have upper: "u \<le> cum (Suc m)" using m(1,4) qs [of "Suc m"] cum_all u(2) by (auto simp del: sum.lessThan_Suc)
  have "i' = ks ! m \<longleftrightarrow> mass_before ps ks i' < u \<and> u \<le> mass_before ps ks i' + ps ! i' / S" if i': "i' \<in> set ks" for i'
  proof -
    obtain l where l: "l < length ks" "i' = ks ! l" using i' by (auto simp: in_set_conv_nth)
    have "l = m" if "cum l < u" "u \<le> cum (Suc l)"
    proof (rule linorder_cases [of l m])
      assume "l < m"
      then have "cum (Suc l) \<le> cum m" using m(1) by (intro cum_mono) auto
      with lower that(2) show ?thesis by simp
    next
      assume "m < l"
      then have "cum (Suc m) \<le> cum l" using l(1) by (intro cum_mono) auto
      with upper that(1) show ?thesis by simp
    qed
    then show ?thesis using lower upper l m(1) ks(1) mass [OF l(1)] cum_Suc [of l] by (auto simp: nth_eq_iff_index_eq)
  qed
  ultimately show ?thesis using m(1,2) by (intro bexI [of _ "ks ! m"]) auto
qed

lemma softmax_mono: "softmax s n i < softmax s n j \<longleftrightarrow> s i < s j" if "0 < n"
proof -
  have "0 < (\<Sum>j < n. exp (s j))" using that by (intro sum_pos) auto
  then show ?thesis by (simp add: softmax_def divide_less_cancel)
qed

lemma softmax_list:
  assumes "0 < n" and "length zs = n"
  defines "ps \<equiv> map (softmax (\<lambda>i. zs ! i) n) [0..<n]"
  shows "distribution x_ops (map Fin zs) = map Fin ps" and "length ps = n" and "\<forall>q \<in> set ps. 0 \<le> q" and "sum_list ps = 1"
    and "i < n \<Longrightarrow> j < n \<Longrightarrow> ps ! i < ps ! j \<longleftrightarrow> zs ! i < zs ! j"
  using assms distribution_softmax [of zs] softmax_sum [of n "\<lambda>i. zs ! i"] softmax_mono [of n]
  by (auto simp: sum_list_sum_nth atLeast0LessThan softmax_def sum_nonneg)

text \<open>C39. Greedy sampling is the argmax when every logit, after penalty and temperature, is a finite number and arithmetic
  is exact: then it returns a token with the largest scaled logit, whatever top-k and top-p are set to, and uses no
  random number. Neither condition can be dropped: with an infinite logit the code falls back to equal probabilities
  (\<open>greedy_misses_infinite_logit\<close> below), and in \<open>float\<close> the exponentials of logits that are close may round to
  the same probability, the only thing that is compared.\<close>

theorem greedy_sampling_is_argmax:
  fixes draw :: "'g \<Rightarrow> xreal \<times> 'g"
  assumes "sort_law srt" and "partial_sort_law psrt" and "0 < n" and "n \<le> length ls" and "sc_greedy cfg"
    and "scaled_logits cfg ids (take n ls) = map Fin zs"
  shows "\<exists>i < n. sample x_ops srt psrt draw (Some ls) (int n) cfg ids g = (Inr (int i), g) \<and> (\<forall>j < n. zs ! j \<le> zs ! i)"
proof -
  have len: "length zs = n" using arg_cong [OF assms(6), of length] assms(4) by simp
  note ps = softmax_list [OF assms(3) len]
  let ?ps = "map (softmax (\<lambda>i. zs ! i) n) [0..<n]"
  obtain ks where "kept_tokens (sc_top_k cfg) (sc_top_p cfg) ?ps ks"
    "\<forall>(draw :: 'g \<Rightarrow> xreal \<times> 'g) g. sample x_ops srt psrt draw (Some ls) (int n) cfg ids g
       = (if sc_greedy cfg then (greedy_choice x_ops (token_list ?ps ks), g)
          else (pick x_ops (fst (draw g)) (Fin 0) (renormalize x_ops (token_list ?ps ks)), snd (draw g)))"
    using sample_run [OF assms(1-4) ps(1) [folded assms(6)] ps(2)] by blast
  then have ks: "kept_tokens (sc_top_k cfg) (sc_top_p cfg) ?ps ks"
    "sample x_ops srt psrt draw (Some ls) (int n) cfg ids g = (greedy_choice x_ops (token_list ?ps ks), g)"
    using assms(5) by auto
  obtain i ks' where Cons: "ks = i # ks'" using ks(1) by (cases ks) (auto simp: kept_tokens_def)
  have top: "i < n" "sorted_wrt (\<lambda>i j. ?ps ! j \<le> ?ps ! i) (i # ks')" "set ks' \<subseteq> {..<n}"
    "\<forall>j < n. ?ps ! i < ?ps ! j \<longrightarrow> j = i \<or> j \<in> set ks'"
    using ks(1) unfolding kept_tokens_def top_tokens_def Cons by auto
  have "zs ! j \<le> zs ! i" if j: "j < n" for j
  proof (rule ccontr)
    assume "\<not> zs ! j \<le> zs ! i"
    then have "?ps ! i < ?ps ! j" using ps(5) [OF top(1) j] by simp
    moreover from this top(4) j have "j \<in> set ks'" by auto
    then have "?ps ! j \<le> ?ps ! i" using top(2) by simp
    ultimately show False by simp
  qed
  with ks(2) greedy_choice_run [OF top(2)] top(1) Cons show ?thesis by auto
qed

theorem greedy_sampling_is_argmax_witness:
  "\<exists>i < 2. sample x_ops sort_by (\<lambda>lt k xs. sort_by lt xs) (\<lambda>g. (NaN, g)) (Some [Fin 2, Fin 3]) 2
       \<lparr>sc_greedy = True, sc_top_k = 1, sc_top_p = Fin (1 / 2), sc_temperature = Fin 2, sc_repetition_penalty = Fin 6\<rparr> [1] ()
     = (Inr (int i), ()) \<and> (\<forall>j < 2. [1, 1 / 4] ! j \<le> ([1, 1 / 4] ! i :: real))"
proof -
  let ?cfg = "\<lparr>sc_greedy = True, sc_top_k = 1, sc_top_p = Fin (1 / 2), sc_temperature = Fin 2, sc_repetition_penalty = Fin 6\<rparr>"
  have "scaled_logits ?cfg [1] (take 2 [Fin 2, Fin 3]) = map Fin [1, 1 / 4]"
    by (simp add: scaled_logits_def apply_repetition_def penalize_def apply_temperature_def Let_def)
  from greedy_sampling_is_argmax [OF sort_laws _ _ _ this, of "\<lambda>g. (NaN, g)" "()"] show ?thesis by simp
qed

text \<open>A logit of plus infinity is the largest, but then the maximum is not finite, every token gets the same
  probability, and greedy sampling returns whichever token the sort puts first.\<close>

theorem greedy_misses_infinite_logit:
  "sample x_ops sort_by (\<lambda>lt k xs. sort_by lt xs) (\<lambda>g. (NaN, g)) (Some [Fin 0, PInf]) 2
     \<lparr>sc_greedy = True, sc_top_k = 0, sc_top_p = Fin 1, sc_temperature = Fin 1, sc_repetition_penalty = Fin 1\<rparr> [] ()
   = (Inr 0, ())"
proof -
  have "distribution x_ops [Fin 0, PInf] = [Fin (1 / 2), Fin (1 / 2)]"
    by (simp add: distribution_def max_element_def f_max_def x_finite_def numeral_2_eq_2 Let_def)
  then show ?thesis
    by (simp add: sample_def read_at_def read_floats_def apply_repetition_def apply_temperature_def candidates_def
        top_k_filter_def comparable_def sort_by_def prob_greater_def top_p_filter_def greedy_choice_def Let_def)
qed

text \<open>C40. Random sampling draws from the softmax: there is a set \<open>K\<close> of kept tokens such that a number \<open>u\<close>
  drawn from the unit interval gives the token \<open>i\<close> of \<open>K\<close> exactly when it lies in an interval whose length is the
  probability of \<open>i\<close> over the probability of \<open>K\<close>, and never a token outside. \<open>K\<close> holds the likeliest
  tokens, at most \<open>top_k\<close>; the tokens likelier than one of \<open>K\<close> have together less than \<open>top_p\<close>; and unless
  \<open>K\<close> has \<open>top_p\<close> of the probability, it has \<open>top_k\<close> tokens, or all.\<close>

theorem sampling_draws_from_softmax:
  fixes g :: 'g
  assumes "sort_law srt" and "partial_sort_law psrt" and "0 < n" and "n \<le> length ls" and "\<not> sc_greedy cfg"
    and "scaled_logits cfg ids (take n ls) = map Fin zs"
  defines "prob \<equiv> softmax (\<lambda>i. zs ! i) n" and "kmax \<equiv> top_count (sc_top_k cfg) n"
  shows "\<exists>K before. K \<subseteq> {..<n} \<and> K \<noteq> {}
    \<and> (\<forall>u g'. 0 < u \<longrightarrow> u \<le> 1 \<longrightarrow> (\<exists>i \<in> K.
         sample x_ops srt psrt (\<lambda>_. (Fin u, g')) (Some ls) (int n) cfg ids g = (Inr (int i), g')
         \<and> (\<forall>i' \<in> K. i' = i \<longleftrightarrow> before i' < u \<and> u \<le> before i' + prob i' / sum prob K)))
    \<and> (\<forall>i \<in> K. \<forall>j < n. zs ! i < zs ! j \<longrightarrow> j \<in> K)
    \<and> card K \<le> kmax
    \<and> (\<forall>t. sc_top_p cfg = Fin t \<longrightarrow> 0 < t \<longrightarrow> t < 1 \<longrightarrow> (\<forall>i \<in> K. (\<Sum>j \<in> {j. j < n \<and> zs ! i < zs ! j}. prob j) < t))
    \<and> (card K = kmax \<or> (\<exists>t. sc_top_p cfg = Fin t \<and> 0 < t \<and> t < 1 \<and> t \<le> sum prob K))"
proof -
  have len: "length zs = n" using arg_cong [OF assms(6), of length] assms(4) by simp
  note ps = softmax_list [OF assms(3) len, folded prob_def]
  let ?ps = "map prob [0..<n]"
  obtain ks where ks: "kept_tokens (sc_top_k cfg) (sc_top_p cfg) ?ps ks"
    "\<forall>(draw :: 'g \<Rightarrow> xreal \<times> 'g) g. sample x_ops srt psrt draw (Some ls) (int n) cfg ids g
       = (if sc_greedy cfg then (greedy_choice x_ops (token_list ?ps ks), g)
          else (pick x_ops (fst (draw g)) (Fin 0) (renormalize x_ops (token_list ?ps ks)), snd (draw g)))"
    using sample_run [OF assms(1-4) ps(1) [folded assms(6)] ps(2)] by blast
  have top: "distinct ks" "set ks \<subseteq> {..<n}" "ks \<noteq> []" "\<forall>i \<in> set ks. \<forall>j < n. ?ps ! i < ?ps ! j \<longrightarrow> j \<in> set ks"
    using ks(1) by (auto simp: kept_tokens_def top_tokens_def)
  have nth: "?ps ! i = prob i" if "i \<in> set ks" for i using top(2) that by (auto simp: subset_eq)
  have mass: "sum_list (map (\<lambda>k. ?ps ! k) ks) = sum prob (set ks)"
    using top(1) nth by (simp add: sum.distinct_set_conv_list cong: map_cong)
  have mass': "(\<Sum>j < length ks. ?ps ! (ks ! j)) = sum prob (set ks)"
    using mass by (simp add: sum_list_sum_nth atLeast0LessThan)
  have draws: "\<exists>i \<in> set ks. sample x_ops srt psrt (\<lambda>_. (Fin u, g')) (Some ls) (int n) cfg ids g = (Inr (int i), g')
      \<and> (\<forall>i' \<in> set ks. i' = i \<longleftrightarrow> mass_before ?ps ks i' < u \<and> u \<le> mass_before ?ps ks i' + prob i' / sum prob (set ks))"
    if "0 < u" "u \<le> 1" for u g'
    using pick_interval [OF ks(1) ps(3,4) that] ks(2) assms(5) nth mass by auto
  have likelier: "(\<Sum>j \<in> {j. j < n \<and> zs ! i < zs ! j}. prob j) < t"
    if t: "sc_top_p cfg = Fin t" "0 < t" "t < 1" and i: "i \<in> set ks" for t i
  proof -
    obtain m where m: "m < length ks" "i = ks ! m" using i by (auto simp: in_set_conv_nth)
    have "i < n" using i top(2) by auto
    then have "{j. j < n \<and> zs ! i < zs ! j} = {j. j < length ?ps \<and> ?ps ! (ks ! m) < ?ps ! j}"
      using ps(5) m(2) by (auto simp del: nth_map_upt)
    then have "(\<Sum>j \<in> {j. j < n \<and> zs ! i < zs ! j}. prob j) = (\<Sum>j \<in> {j. j < length ?ps \<and> ?ps ! (ks ! m) < ?ps ! j}. ?ps ! j)"
      by (intro sum.cong) auto
    also have "\<dots> \<le> (\<Sum>j < m. ?ps ! (ks ! j))" by (rule kept_mass_above(1) [OF ks(1) ps(3) m(1)])
    also have "\<dots> < t" using ks(1) t m(1) by (simp add: kept_tokens_def)
    finally show ?thesis .
  qed
  have "card (set ks) = length ks" using top(1) by (rule distinct_card)
  moreover have "\<forall>i \<in> set ks. \<forall>j < n. zs ! i < zs ! j \<longrightarrow> j \<in> set ks"
    using top(2,4) ps(5) by (auto simp del: nth_map_upt)
  moreover have "length ks \<le> kmax" "length ks = kmax \<or> (\<exists>t. sc_top_p cfg = Fin t \<and> 0 < t \<and> t < 1 \<and> t \<le> sum prob (set ks))"
    using ks(1) mass' by (auto simp: kept_tokens_def kmax_def)
  ultimately show ?thesis using top(2,3) draws likelier
    by (intro exI [of _ "set ks"] exI [of _ "mass_before ?ps ks"] conjI) simp_all
qed

theorem sampling_draws_from_softmax_witness:
  "\<exists>i \<in> {..<2}. sample x_ops sort_by (\<lambda>lt k xs. sort_by lt xs) (\<lambda>_. (Fin (1 / 3), ())) (Some [Fin 2, Fin 3]) 2
       \<lparr>sc_greedy = False, sc_top_k = 0, sc_top_p = Fin (1 / 2), sc_temperature = Fin 2, sc_repetition_penalty = Fin 1\<rparr> [1] ()
     = (Inr (int i), ())"
proof -
  let ?cfg = "\<lparr>sc_greedy = False, sc_top_k = 0, sc_top_p = Fin (1 / 2), sc_temperature = Fin 2, sc_repetition_penalty = Fin 1\<rparr>"
  have "scaled_logits ?cfg [1] (take 2 [Fin 2, Fin 3]) = map Fin [1, 3 / 2]"
    by (simp add: scaled_logits_def apply_repetition_def penalize_def apply_temperature_def Let_def)
  from sampling_draws_from_softmax [OF sort_laws _ _ _ this, of "()"]
  obtain K before where "K \<subseteq> {..<2}" and "\<forall>u g'. 0 < u \<longrightarrow> u \<le> 1 \<longrightarrow> (\<exists>i \<in> K.
      sample x_ops sort_by (\<lambda>lt k xs. sort_by lt xs) (\<lambda>_. (Fin u, g')) (Some [Fin 2, Fin 3]) (int 2) ?cfg [1] () = (Inr (int i), g')
      \<and> (\<forall>i' \<in> K. i' = i \<longleftrightarrow> before i' < u \<and> u \<le> before i' + softmax (\<lambda>i. [1, 3 / 2] ! i) 2 i' / sum (softmax (\<lambda>i. [1, 3 / 2] ! i) 2) K))"
    by auto
  from this(1) this(2) [rule_format, of "1 / 3" "()"] show ?thesis by auto
qed

text \<open>\<open>get_top_tokens\<close> gives the likeliest tokens with their probabilities, which are those after the
  temperature only: top-k, top-p and the repetition penalty are not applied.\<close>

theorem top_tokens_are_likeliest:
  assumes "partial_sort_law psrt" and "0 < n" and "n \<le> length ls" and "0 < top_n"
    and "apply_temperature x_ops (sc_temperature cfg) (take n ls) = map Fin zs"
  shows "\<exists>ks. get_top_tokens x_ops psrt (Some ls) (int n) cfg top_n
      = Inr (map (\<lambda>k. (int k, Fin (softmax (\<lambda>i. zs ! i) n k))) ks)
    \<and> length ks = min (nat top_n) n \<and> distinct ks \<and> set ks \<subseteq> {..<n} \<and> sorted_wrt (\<lambda>i j. zs ! j \<le> zs ! i) ks
    \<and> (\<forall>i \<in> set ks. \<forall>j < n. zs ! i < zs ! j \<longrightarrow> j \<in> set ks)"
proof -
  have len: "length zs = n" using arg_cong [OF assms(5), of length] assms(3) by (simp add: apply_temperature_def Let_def split: if_splits)
  note ps = softmax_list [OF assms(2) len]
  let ?ps = "map (softmax (\<lambda>i. zs ! i) n) [0..<n]" and ?m = "nat (min top_n (int n))"
  have m: "?m = min (nat top_n) n" by linarith
  then have "?m \<le> length ?ps" by simp
  from partial_sort_run [OF assms(1) this] obtain ks where
    ks: "take ?m (psrt (prob_greater x_ops) ?m (token_list ?ps [0..<length ?ps])) = token_list ?ps ks" "top_tokens ?ps ks" "length ks = ?m"
    by blast
  have top: "distinct ks" "set ks \<subseteq> {..<n}" using ks(2) by (auto simp: top_tokens_def)
  have "read_at ls 0 (int n) = Inr (take n ls)" using assms(3) by (simp add: read_at_def read_floats_def)
  then have "get_top_tokens x_ops psrt (Some ls) (int n) cfg top_n = Inr (token_list ?ps ks)"
    using assms(2,4,5) ps(1) ks(1) candidates_token_list [of ?ps] by (simp add: get_top_tokens_def Let_def)
  moreover have "token_list ?ps ks = map (\<lambda>k. (int k, Fin (softmax (\<lambda>i. zs ! i) n k))) ks"
    using top(2) by (auto simp: token_list_def subset_eq)
  moreover have order: "zs ! j \<le> zs ! i" if "?ps ! j \<le> ?ps ! i" "i \<in> set ks" "j \<in> set ks" for i j
    using ps(5) [of i j] that top(2) by (meson lessThan_iff linorder_not_less subsetD)
  have "sorted_wrt (\<lambda>i j. ?ps ! j \<le> ?ps ! i) ks" using ks(2) by (simp add: top_tokens_def)
  then have "sorted_wrt (\<lambda>i j. zs ! j \<le> zs ! i) ks" by (rule sorted_wrt_mono_rel [rotated]) (rule order)
  moreover have "\<forall>i \<in> set ks. \<forall>j < n. zs ! i < zs ! j \<longrightarrow> j \<in> set ks"
    using ks(2) top(2) ps(5) by (auto simp: top_tokens_def simp del: nth_map_upt)
  ultimately show ?thesis using top ks(3) m by (intro exI [of _ ks]) simp
qed

end
