(* ===== verification/Weight_Conversion.thy ===== *)
theory Weight_Conversion
  imports Gguf_Format Linear_Kernels
begin

text \<open>
  The conversion of GGUF weights to floats (src/io/gguf_weight_loader.cpp): half precision and bfloat16 by
  moving bits, Q8_0 blocks by multiplication. A float in memory is its four bytes, low byte first.
  \<open>to_bits\<close> is \<open>std::bit_cast<uint32_t>\<close> of a float.
\<close>

unbundle bit_operations_syntax

section \<open>Bits\<close>

definition f32_bytes :: "32 word \<Rightarrow> octet list" where
  "f32_bytes w = [ucast w, ucast (drop_bit 8 w), ucast (drop_bit 16 w), ucast (drop_bit 24 w)]"

definition u16_of :: "octet list \<Rightarrow> 16 word" where
  "u16_of b = ucast (b ! 0) OR push_bit 8 (ucast (b ! 1))"

definition u32_of :: "octet list \<Rightarrow> 32 word" where
  "u32_of b = ucast (b ! 0) OR push_bit 8 (ucast (b ! 1)) OR push_bit 16 (ucast (b ! 2)) OR push_bit 24 (ucast (b ! 3))"

definition countl_zero :: "32 word \<Rightarrow> nat" where
  "countl_zero w = length (takeWhile (\<lambda>i. \<not> bit w i) (rev [0..<32]))"

text \<open>The mantissa of a subnormal number is shifted until its leading bit is bit 10; its exponent is an unsigned
  number that wraps below zero before 112 is added.\<close>

definition f16_bits :: "16 word \<Rightarrow> 32 word" where
  "f16_bits bits =
     (let sign = ucast (drop_bit 15 bits AND 1) :: 32 word; e = ucast (drop_bit 10 bits AND 0x1F) :: 32 word;
          mant = ucast (bits AND 0x3FF) :: 32 word
      in if e = 0 then
           if mant = 0 then push_bit 31 sign
           else let shift = int (countl_zero mant) - 21; mant = push_bit (nat shift) mant; e = word_of_int (1 - shift)
                in push_bit 31 sign OR push_bit 23 (e + 112) OR push_bit 13 (mant AND 0x3FF)
         else if e = 31 then push_bit 31 sign OR 0x7F800000 OR (if mant \<noteq> 0 then 0x400000 else 0)
         else push_bit 31 sign OR push_bit 23 (e + 112) OR push_bit 13 mant)"

definition bf16_bits :: "16 word \<Rightarrow> 32 word" where
  "bf16_bits bits = push_bit 16 (ucast bits)"

section \<open>Dequantisation\<close>

text \<open>The bytes that \<open>dequantize_to_f32\<close> writes for \<open>n\<close> elements.\<close>

definition convert_u16 :: "(16 word \<Rightarrow> 32 word) \<Rightarrow> octet list \<Rightarrow> nat \<Rightarrow> octet list result" where
  "convert_u16 conv src n =
     for_range (\<lambda>i dst. rbind (read_floats src (2 * nat i) 2) (\<lambda>b. Inr (dst @ f32_bytes (conv (u16_of b))))) 0 n []"

definition dequantize_block ::
  "('f, 'z) cpu_ops_scheme \<Rightarrow> ('f \<Rightarrow> 32 word) \<Rightarrow> octet list \<Rightarrow> nat \<Rightarrow> nat \<Rightarrow> octet list \<Rightarrow> octet list result"
where
  "dequantize_block F to_bits src n b dst =
     (let block = wrap64 (b * 34) in
      rbind (read_floats src block 2) (\<lambda>sc.
      let scale = f_of_bits F (f16_bits (u16_of sc)) in
      for_range (\<lambda>i dst. rbind (read_floats src (block + 2 + nat i) 1) (\<lambda>q.
          Inr (dst @ f32_bytes (to_bits (f_mul F (f_of_int F (sint (q ! 0))) scale)))))
        0 (min 32 (n - b * 32)) dst))"

definition dequantize_to_f32 ::
  "('f, 'z) cpu_ops_scheme \<Rightarrow> ('f \<Rightarrow> 32 word) \<Rightarrow> ggml_type \<Rightarrow> octet list \<Rightarrow> nat \<Rightarrow> octet list result"
where
  "dequantize_to_f32 F to_bits ty src n = (case ty of
     GT_F32 \<Rightarrow> read_floats src 0 (wrap64 (n * 4))
   | GT_F16 \<Rightarrow> convert_u16 f16_bits src n
   | GT_BF16 \<Rightarrow> convert_u16 bf16_bits src n
   | GT_Q8_0 \<Rightarrow> for_range (\<lambda>b. dequantize_block F to_bits src n (nat b)) 0 (wrap64 (n + 31) div 32) []
   | _ \<Rightarrow> Inl (unsupported (''cannot dequantize GGML dtype '' @ ggml_dtype_name ty)))"

section \<open>Fields of a float\<close>

lemma float_fields:
  fixes S E M :: "32 word"
  assumes "S = take_bit 1 S" and "E = take_bit 8 E" and "M = take_bit 23 M"
  defines "w \<equiv> push_bit 31 S OR push_bit 23 E OR M"
  shows "drop_bit 23 w AND 0xFF = E" and "w AND 0x7FFFFF = M" and "bit w 31 \<longleftrightarrow> S \<noteq> 0"
proof -
  have S: "bit S n \<Longrightarrow> n = 0" for n using assms(1) by (metis bit_take_bit_iff less_one)
  have E: "bit E n \<Longrightarrow> n < 8" for n using assms(2) by (metis bit_take_bit_iff)
  have M: "bit M n \<Longrightarrow> n < 23" for n using assms(3) by (metis bit_take_bit_iff)
  have mask: "(0xFF :: 32 word) = mask 8" "(0x7FFFFF :: 32 word) = mask 23" by (simp_all add: mask_eq_exp_minus_1)
  show "drop_bit 23 w AND 0xFF = E" unfolding mask
    by (rule bit_word_eqI) (use S E M in \<open>auto simp: w_def bit_simps\<close>, fastforce+)
  show "w AND 0x7FFFFF = M" unfolding mask
    by (rule bit_word_eqI) (use M in \<open>auto simp: w_def bit_simps\<close>)
  have "bit S 0 \<longleftrightarrow> S \<noteq> 0" using S by (metis bit_word_eqI bit_0_eq bot_apply bot_bool_def less_numeral_extra(3))
  then show "bit w 31 \<longleftrightarrow> S \<noteq> 0" using E [of 8] M [of 31] by (auto simp: w_def bit_simps)
qed

lemma take_bit_unat_eq: "unat w < 2 ^ n \<Longrightarrow> take_bit n w = w" for w :: "'a::len word"
  by (simp add: word_unat_eq_iff unsigned_take_bit_eq take_bit_nat_eq_self)

definition x_value :: "nat \<Rightarrow> nat \<Rightarrow> xreal" where
  "x_value e m =
     (if e = 255 then (if m = 0 then PInf else NaN)
      else if e = 0 then Fin (real m * 2 powi - 149)
      else Fin (real (2 ^ 23 + m) * 2 powi (int e - 150)))"

lemma x_of_bits_fields:
  fixes S E M :: "32 word"
  assumes "unat S < 2" and "unat E < 256" and "unat M < 2 ^ 23"
  shows "x_of_bits (push_bit 31 S OR push_bit 23 E OR M)
    = (if S \<noteq> 0 then x_neg (x_value (unat E) (unat M)) else x_value (unat E) (unat M))"
proof -
  note fields = float_fields [of S E M, OF take_bit_unat_eq [symmetric] take_bit_unat_eq [symmetric] take_bit_unat_eq [symmetric]]
  show ?thesis using fields assms by (simp add: x_of_bits_def x_value_def Let_def)
qed

lemma countl_zero_eq:
  assumes "2 ^ k \<le> unat w" and "unat w < 2 ^ Suc k"
  shows "countl_zero w = 31 - k"
proof -
  have "unat w < 2 ^ 32" using unsigned_less [of w, where ?'a = nat] by simp
  then have "(2 :: nat) ^ k < 2 ^ 32" using assms(1) by linarith
  then have k: "k < 32" by (rule power_less_imp_less_exp [rotated]) simp
  have bits: "bit w i \<longleftrightarrow> odd (unat w div 2 ^ i)" for i
  proof -
    have "bit w i = bit (unat w) i" by (simp add: bit_unsigned_iff)
    then show ?thesis by (simp only: bit_iff_odd)
  qed
  have "unat w div 2 ^ k = 1" using assms by (intro div_nat_eqI) auto
  then have top: "bit w k" by (simp add: bits)
  have above: "\<not> bit w i" if "k < i" for i
  proof -
    have "(2 :: nat) ^ Suc k \<le> 2 ^ i" using that by (intro power_increasing) auto
    then have "unat w div 2 ^ i = 0" using assms(2) by simp
    then show ?thesis by (simp add: bits)
  qed
  have split: "rev [0..<32] = rev [Suc k..<32] @ k # rev [0..<k]"
  proof -
    have "[0..<32] = [0..<k] @ [k..<32]" using upt_add_eq_append [of 0 k "32 - k"] k by simp
    moreover have "[k..<32] = k # [Suc k..<32]" using k by (rule upt_conv_Cons)
    ultimately show ?thesis by simp
  qed
  have "takeWhile (\<lambda>i. \<not> bit w i) (rev [0..<32]) = rev [Suc k..<32]"
    unfolding split using top above by (subst takeWhile_append2) auto
  then show ?thesis by (simp add: countl_zero_def)
qed

section \<open>Half precision\<close>

lemma f16_fields:
  fixes bits :: "16 word"
  shows "unat (ucast (drop_bit 15 bits AND 1) :: 32 word) < 2"
    and "(ucast (drop_bit 15 bits AND 1) :: 32 word) \<noteq> 0 \<longleftrightarrow> bits AND 0x8000 \<noteq> 0"
    and "unat (ucast (drop_bit 10 bits AND 0x1F) :: 32 word) = unat (drop_bit 10 bits AND 0x1F)" and "unat (drop_bit 10 bits AND 0x1F) < 32"
    and "unat (ucast (bits AND 0x3FF) :: 32 word) = unat (bits AND 0x3FF)" and "unat (bits AND 0x3FF) < 1024"
proof -
  have mask: "(1 :: 16 word) = mask 1" "(0x1F :: 16 word) = mask 5" "(0x3FF :: 16 word) = mask 10" by (simp_all add: mask_eq_exp_minus_1)
  have less: "unat (take_bit n w) < 2 ^ n" for n and w :: "16 word" by (simp add: unsigned_take_bit_eq)
  show "unat (drop_bit 10 bits AND 0x1F) < 32" "unat (bits AND 0x3FF) < 1024"
    using less [of 5 "drop_bit 10 bits"] less [of 10 bits] unfolding mask take_bit_eq_mask [symmetric] by simp_all
  have cast: "unat (ucast w :: 32 word) = unat w" for w :: "16 word" 
  proof -
    have "unat w < 2 ^ 32" using unsigned_less [of w, where ?'a = nat] by simp
    then show ?thesis by (simp add: unsigned_ucast_eq take_bit_nat_eq_self)
  qed
  then show "unat (ucast (drop_bit 10 bits AND 0x1F) :: 32 word) = unat (drop_bit 10 bits AND 0x1F)"
    "unat (ucast (bits AND 0x3FF) :: 32 word) = unat (bits AND 0x3FF)" by this+
  show "unat (ucast (drop_bit 15 bits AND 1) :: 32 word) < 2"
    using less [of 1 "drop_bit 15 bits"] unfolding cast mask take_bit_eq_mask [symmetric] by simp
  have "bits AND 0x8000 \<noteq> 0 \<longleftrightarrow> bit bits 15"
    using and_exp_eq_0_iff_not_bit [of bits 15] by simp
  moreover have "(ucast (drop_bit 15 bits AND 1) :: 32 word) \<noteq> 0 \<longleftrightarrow> unat (drop_bit 15 bits AND 1) \<noteq> 0"
    using cast [of "drop_bit 15 bits AND 1"] by (simp add: unat_eq_0 [symmetric])
  moreover have "drop_bit 15 bits AND 1 = of_bool (bit bits 15)" by (simp add: and_one_eq bit_iff_odd_drop_bit odd_iff_mod_2_eq_one)
  ultimately show "(ucast (drop_bit 15 bits AND 1) :: 32 word) \<noteq> 0 \<longleftrightarrow> bits AND 0x8000 \<noteq> 0" by simp
qed

lemma leading_bit:
  fixes m :: nat
  assumes "0 < m" and "m < 2 ^ n"
  shows "\<exists>k < n. 2 ^ k \<le> m \<and> m < 2 ^ Suc k"
  using assms
proof (induction n)
  case (Suc n)
  then show ?case by (cases "m < 2 ^ n") (auto intro: exI [of _ n] less_SucI)
qed simp

text \<open>The value of a subnormal number after its mantissa has been shifted.\<close>

lemma subnormal_bits:
  fixes mant :: "32 word"
  assumes "0 < unat mant" and "unat mant < 1024"
  defines "shift \<equiv> int (countl_zero mant) - 21"
  shows "unat (word_of_int (1 - shift) + 112 :: 32 word) < 256"
    and "unat (push_bit 13 (push_bit (nat shift) mant AND 0x3FF)) < 2 ^ 23"
    and "x_value (unat (word_of_int (1 - shift) + 112 :: 32 word)) (unat (push_bit 13 (push_bit (nat shift) mant AND 0x3FF)))
      = Fin (real (unat mant) * 2 powi - 24)"
proof -
  obtain k where k: "k < 10" "2 ^ k \<le> unat mant" "unat mant < 2 ^ Suc k"
    using leading_bit [of "unat mant" 10] assms(1,2) by (auto simp del: power_Suc)
  have shift: "shift = 10 - int k" using countl_zero_eq [OF k(2,3)] k(1) by (simp add: shift_def)
  then have nat_shift: "nat shift = 10 - k" by linarith
  have e: "word_of_int (1 - shift) + 112 = (word_of_nat (103 + k) :: 32 word)" by (simp add: shift)
  have "unat (word_of_nat (103 + k) :: 32 word) = (103 + k) mod 2 ^ 32" by (simp only: unat_of_nat) simp
  also have "\<dots> = 103 + k" using k(1) by (intro mod_less) simp
  finally have E: "unat (word_of_int (1 - shift) + 112 :: 32 word) = 103 + k" unfolding e .
  have pow: "(2 :: nat) ^ k * 2 ^ (10 - k) = 1024" "(2 :: nat) ^ Suc k * 2 ^ (10 - k) = 2048"
    using k(1) power_add [of "2 :: nat" k "10 - k"] by simp_all
  have big: "unat mant * 2 ^ (10 - k) < 2048" "1024 \<le> unat mant * 2 ^ (10 - k)"
    using mult_less_mono1 [OF k(3), of "2 ^ (10 - k)"] mult_le_mono1 [OF k(2), of "2 ^ (10 - k)"] unfolding pow by simp_all
  have "unat (push_bit (10 - k) mant) = take_bit 32 (push_bit (10 - k) (unat mant))" by (simp add: unsigned_push_bit_eq)
  also have "\<dots> = unat mant * 2 ^ (10 - k)" using big(1) by (simp add: push_bit_eq_mult take_bit_nat_eq_self)
  finally have P: "unat (push_bit (10 - k) mant) = unat mant * 2 ^ (10 - k)" .
  have mask: "(0x3FF :: 32 word) = mask 10" by (simp add: mask_eq_exp_minus_1)
  have "unat (push_bit (10 - k) mant AND 0x3FF) = unat mant * 2 ^ (10 - k) mod 1024"
    unfolding mask take_bit_eq_mask [symmetric] unsigned_take_bit_eq P by (simp add: take_bit_eq_mod)
  also have "\<dots> = unat mant * 2 ^ (10 - k) - 1024" using big by (simp add: mod_if)
  finally have M: "unat (push_bit (10 - k) mant AND 0x3FF) = unat mant * 2 ^ (10 - k) - 1024" .
  have "unat (push_bit 13 (push_bit (10 - k) mant AND 0x3FF)) = take_bit 32 (push_bit 13 (unat mant * 2 ^ (10 - k) - 1024))"
    unfolding unsigned_push_bit_eq M by simp
  also have "\<dots> = (unat mant * 2 ^ (10 - k) - 1024) * 2 ^ 13" using big(1) by (simp add: push_bit_eq_mult take_bit_nat_eq_self)
  finally have F: "unat (push_bit 13 (push_bit (nat shift) mant AND 0x3FF)) = (unat mant * 2 ^ (10 - k) - 1024) * 2 ^ 13"
    by (simp add: nat_shift)
  show "unat (word_of_int (1 - shift) + 112 :: 32 word) < 256" unfolding E using k(1) by simp
  show "unat (push_bit 13 (push_bit (nat shift) mant AND 0x3FF)) < 2 ^ 23" unfolding F using big(1) by simp
  have "(2 :: nat) ^ 23 + (unat mant * 2 ^ (10 - k) - 1024) * 2 ^ 13 = unat mant * 2 ^ (10 - k) * 2 ^ 13" using big(2) by simp
  then have "x_value (103 + k) ((unat mant * 2 ^ (10 - k) - 1024) * 2 ^ 13)
      = Fin (real (unat mant * 2 ^ (10 - k) * 2 ^ 13) * 2 powi (int (103 + k) - 150))" using k(1) by (simp add: x_value_def)
  also have "real (unat mant * 2 ^ (10 - k) * 2 ^ 13) * 2 powi (int (103 + k) - 150)
      = real (unat mant) * (2 powi int (10 - k) * 2 powi 13 * 2 powi (int (103 + k) - 150))"
    by (simp only: power_int_of_nat of_nat_mult of_nat_power of_nat_numeral) simp
  also have "2 powi int (10 - k) * 2 powi 13 * 2 powi (int (103 + k) - 150) = (2 :: real) powi - 24"
    using k(1) by (simp flip: power_int_add)
  finally show "x_value (unat (word_of_int (1 - shift) + 112 :: 32 word)) (unat (push_bit 13 (push_bit (nat shift) mant AND 0x3FF)))
      = Fin (real (unat mant) * 2 powi - 24)" unfolding E F .
qed

text \<open>The number that the kernels compute, by the fields of the pattern.\<close>

definition half_value :: "nat \<Rightarrow> nat \<Rightarrow> xreal" where
  "half_value e m =
     (if e = 0 then if m = 0 then Fin 0 else Fin (real m * 2 powi - 24)
      else if e = 31 then if m = 0 then PInf else NaN else Fin (real (1024 + m) * 2 powi (int e - 25)))"

lemma f16_to_f32_value:
  "f16_to_f32 x_ops b = (let v = half_value (unat (drop_bit 10 b AND 0x1F)) (unat (b AND 0x3FF))
     in if b AND 0x8000 \<noteq> 0 then x_neg v else v)"
proof -
  define m where "m = unat (b AND 0x3FF)"
  define e where "e = unat (drop_bit 10 b AND 0x1F)"
  have m: "m < 1024" unfolding m_def by (rule f16_fields)
  have e: "e < 32" "uint (drop_bit 10 b AND 0x1F) = int e" unfolding e_def by (rule f16_fields) simp
  have "\<not> bit (0x400 :: 16 word) i \<or> \<not> bit (b AND 0x3FF) i" for i
  proof -
    have eq: "(0x400 :: 16 word) = push_bit 10 1" "(0x3FF :: 16 word) = mask 10" by (simp_all add: mask_eq_exp_minus_1)
    show ?thesis unfolding eq bit_and_iff bit_push_bit_iff bit_mask_iff bit_1_iff by auto
  qed
  then have "0x400 OR (b AND 0x3FF) = 0x400 + (b AND 0x3FF)" by (rule disjunctive_add [symmetric])
  moreover have "uint (0x400 + (b AND 0x3FF)) = 1024 + int m"
  proof -
    have "unat (0x400 + (b AND 0x3FF)) = 1024 + m" using m unfolding m_def by (subst unat_add_lem [THEN iffD1]) simp_all
    then have "int (unat (0x400 + (b AND 0x3FF))) = int (1024 + m)" by (rule arg_cong)
    then show ?thesis unfolding of_nat_unat by simp
  qed
  ultimately have normal: "uint (0x400 OR (b AND 0x3FF)) = 1024 + int m" by simp
  have mant: "uint (b AND 0x3FF) = int m" "b AND 0x3FF = 0 \<longleftrightarrow> m = 0" by (simp_all add: m_def unat_0_iff)
  show ?thesis using e(1)
    by (simp add: f16_to_f32_def half_value_def Let_def e_def [symmetric] m_def [symmetric] e(2) normal mant x_ldexp_def)
qed

lemma half_bits_value: "x_of_bits (f16_bits b) = f16_to_f32 x_ops b"
proof -
  define sign where "sign = (ucast (drop_bit 15 b AND 1) :: 32 word)"
  define e where "e = unat (drop_bit 10 b AND 0x1F)"
  define m where "m = (ucast (b AND 0x3FF) :: 32 word)"
  have sign: "unat sign < 2" "sign \<noteq> 0 \<longleftrightarrow> b AND 0x8000 \<noteq> 0" unfolding sign_def by (rule f16_fields)+
  have e: "(ucast (drop_bit 10 b AND 0x1F) :: 32 word) = word_of_nat e" "e < 32"
    using f16_fields(3,4) [of b] by (simp_all add: e_def word_unat_eq_iff unat_of_nat)
  have m: "unat m = unat (b AND 0x3FF)" "unat m < 1024" using f16_fields(5,6) [of b] by (simp_all add: m_def)
  have m0: "m = 0 \<longleftrightarrow> unat m = 0" by (simp add: unat_0_iff)
  have kernel: "f16_to_f32 x_ops b = (if sign \<noteq> 0 then x_neg (half_value e (unat m)) else half_value e (unat m))"
    by (simp add: f16_to_f32_value sign(2) m(1) e_def Let_def)
  have loader: "f16_bits b = (if e = 0 then
      if m = 0 then push_bit 31 sign
      else push_bit 31 sign OR push_bit 23 (word_of_int (1 - (int (countl_zero m) - 21)) + 112)
             OR push_bit 13 (push_bit (nat (int (countl_zero m) - 21)) m AND 0x3FF)
    else if e = 31 then push_bit 31 sign OR 0x7F800000 OR (if m \<noteq> 0 then 0x400000 else 0)
    else push_bit 31 sign OR push_bit 23 (word_of_nat e + 112) OR push_bit 13 m)"
  proof -
    have "(word_of_nat e :: 32 word) = 0 \<longleftrightarrow> e = 0" "(word_of_nat e :: 32 word) = 31 \<longleftrightarrow> e = 31"
      using e(2) by (simp_all add: word_unat_eq_iff unat_of_nat)
    then show ?thesis by (simp only: f16_bits_def Let_def sign_def [symmetric] m_def [symmetric] e(1))
  qed
  have v: "x_of_bits (push_bit 31 sign OR push_bit 23 E OR M) = (if sign \<noteq> 0 then x_neg (x_value (unat E) (unat M)) else x_value (unat E) (unat M))"
    if "unat E < 256" "unat M < 2 ^ 23" for E M :: "32 word" by (rule x_of_bits_fields [OF sign(1) that])
  consider "e = 0" "m = 0" | "e = 0" "m \<noteq> 0" | "e = 31" | "e \<noteq> 0" "e < 31" using e(2) by linarith
  then show ?thesis
  proof cases
    case 1
    then show ?thesis using v [of 0 0] by (simp add: kernel loader x_value_def half_value_def)
  next
    case 2
    then have pos: "0 < unat m" by (simp add: m0)
    note sub = subnormal_bits [OF pos m(2)]
    have "half_value e (unat m) = Fin (real (unat m) * 2 powi - 24)" using 2 pos by (simp add: half_value_def)
    with 2 v [OF sub(1,2)] show ?thesis unfolding kernel loader sub(3) by simp
  next
    case 3
    have "x_of_bits (push_bit 31 sign OR push_bit 23 0xFF OR (if m \<noteq> 0 then 0x400000 else 0))
        = (if sign \<noteq> 0 then x_neg (if m = 0 then PInf else NaN) else (if m = 0 then PInf else NaN))"
      using v [of "0xFF" 0] v [of "0xFF" "0x400000"] by (cases "sign = 0") (simp_all add: x_value_def)
    moreover have "push_bit 23 0xFF = (0x7F800000 :: 32 word)" by simp
    ultimately show ?thesis using 3 unfolding kernel loader half_value_def m0 [symmetric] by simp
  next
    case 4
    have "word_of_nat e + 112 = (word_of_nat (e + 112) :: 32 word)" by simp
    then have E: "unat (word_of_nat e + 112 :: 32 word) = e + 112" using 4(2) by (simp only: unat_of_nat) simp
    have M: "unat (push_bit 13 m) = unat m * 2 ^ 13"
      unfolding unsigned_push_bit_eq using m(2) by (simp add: push_bit_eq_mult take_bit_nat_eq_self)
    have "x_value (e + 112) (unat m * 2 ^ 13) = Fin (real (2 ^ 23 + unat m * 2 ^ 13) * 2 powi (int (e + 112) - 150))"
      using 4 by (simp add: x_value_def)
    also have "real (2 ^ 23 + unat m * 2 ^ 13) * 2 powi (int (e + 112) - 150) = real (1024 + unat m) * (2 powi 13 * 2 powi (int (e + 112) - 150))"
      by (simp add: distrib_right)
    also have "2 powi 13 * 2 powi (int (e + 112) - 150) = (2 :: real) powi (13 + (int (e + 112) - 150))"
      by (rule power_int_add [symmetric]) simp
    also have "13 + (int (e + 112) - 150) = int e - 25" by simp
    finally have val: "x_value (e + 112) (unat m * 2 ^ 13) = half_value e (unat m)" using 4 by (simp add: half_value_def)
    have "unat (word_of_nat e + 112 :: 32 word) < 256" "unat (push_bit 13 m) < 2 ^ 23" using 4(2) m(2) unfolding E M by simp_all
    from v [OF this] show ?thesis using 4 unfolding kernel loader E M val by simp
  qed
qed

text \<open>Two conversions, one number: the loader expands half precision by moving bits, shifting the leading bit of a
  subnormal number into place; the kernels compute it as a mantissa times a power of two. For all 65536
  patterns, zeros, subnormal numbers, infinities and NaN included, both give the same number.\<close>

theorem half_precision_conversions_agree: "x_of_bits (f16_bits b) = f16_to_f32 x_ops b"
  by (rule half_bits_value)

section \<open>Exactness of Q8_0\<close>

text \<open>Every product of an 8-bit weight and a half-precision scale is a float: the multiplication does not round.\<close>

definition representable :: "xreal \<Rightarrow> bool" where
  "representable x \<longleftrightarrow> (\<exists>w. x_of_bits w = x)"

lemma representable_value:
  assumes "e < 256" and "m < 2 ^ 23"
  shows "representable (x_value e m)" and "representable (x_neg (x_value e m))"
proof -
  have u: "unat (word_of_nat e :: 32 word) = e" "unat (word_of_nat m :: 32 word) = m"
    using assms by (simp_all add: unat_of_nat)
  show "representable (x_value e m)" unfolding representable_def
    using x_of_bits_fields [of 0 "word_of_nat e" "word_of_nat m"] assms u by (intro exI) auto
  show "representable (x_neg (x_value e m))" unfolding representable_def
    using x_of_bits_fields [of 1 "word_of_nat e" "word_of_nat m"] assms u by (intro exI) auto
qed

lemma representable_special [simp]:
  "representable (Fin 0)" "representable PInf" "representable MInf" "representable NaN"
  using representable_value(1) [of 0 0] representable_value [of 255 0] representable_value(1) [of 255 1]
  by (simp_all add: x_value_def)

lemma representable_scaled:
  fixes n :: int
  assumes "\<bar>n\<bar> < 2 ^ 18" and "- 24 \<le> E" and "E \<le> 5"
  shows "representable (Fin (of_int n * 2 powi E))"
proof (cases "n = 0")
  case False
  define a where "a = nat \<bar>n\<bar>"
  obtain k where k: "k < 18" "2 ^ k \<le> a" "a < 2 ^ Suc k"
    using leading_bit [of a 18] False assms(1) unfolding a_def by fastforce
  define M where "M = a * 2 ^ (23 - k)"
  have pow: "(2 :: nat) ^ k * 2 ^ (23 - k) = 2 ^ 23" "(2 :: nat) ^ Suc k * 2 ^ (23 - k) = 2 ^ 24"
    using k(1) power_add [of "2 :: nat" k "23 - k"] by simp_all
  have M: "2 ^ 23 \<le> M" "M < 2 ^ 24"
    using mult_less_mono1 [OF k(3), of "2 ^ (23 - k)"] mult_le_mono1 [OF k(2), of "2 ^ (23 - k)"] unfolding pow M_def by simp_all
  define e where "e = nat (E - int (23 - k) + 150)"
  have e: "int e = E - int (23 - k) + 150" "0 < e" "e < 255" using assms(2,3) k(1) by (auto simp: e_def of_nat_diff)
  have "x_value e (M - 2 ^ 23) = Fin (real M * 2 powi (int e - 150))" using e M(1) by (simp add: x_value_def of_nat_diff)
  also have "real M * 2 powi (int e - 150) = real a * (2 powi int (23 - k) * 2 powi (int e - 150))"
    by (simp add: M_def)
  also have "2 powi int (23 - k) * 2 powi (int e - 150) = (2 :: real) powi (int (23 - k) + (int e - 150))"
    by (rule power_int_add [symmetric]) simp
  also have "int (23 - k) + (int e - 150) = E" unfolding e(1) by simp
  finally have v: "x_value e (M - 2 ^ 23) = Fin (real a * 2 powi E)" .
  have "representable (Fin (real a * 2 powi E))" "representable (x_neg (Fin (real a * 2 powi E)))"
    using representable_value [of e "M - 2 ^ 23"] e M unfolding v by simp_all
  moreover have "of_int n = real a \<or> of_int n = - real a" by (auto simp: a_def)
  ultimately show ?thesis by auto
qed simp

lemma half_value_cases:
  assumes "m < 1024" and "e < 32"
  shows "half_value e m \<in> {PInf, NaN} \<or> (\<exists>E. half_value e m = Fin (of_int (int (if e = 0 then m else 1024 + m)) * 2 powi E) \<and> - 24 \<le> E \<and> E \<le> 5)"
proof -
  consider "e = 0" | "e = 31" | "0 < e" "e < 31" using assms(2) by linarith
  then show ?thesis
  proof cases
    case 1
    then show ?thesis by (intro disjI2 exI [of _ "- 24"]) (simp add: half_value_def)
  next
    case 3
    then show ?thesis by (intro disjI2 exI [of _ "int e - 25"]) (simp add: half_value_def)
  qed (simp add: half_value_def)
qed

lemma representable_product: "representable (x_mul (f16_to_f32 x_ops h) (Fin (of_int (sint (q :: 8 word)))))"
proof -
  define m where "m = unat (h AND 0x3FF)"
  define e where "e = unat (drop_bit 10 h AND 0x1F)"
  have bounds: "m < 1024" "e < 32" unfolding m_def e_def by (rule f16_fields)+
  have q: "\<bar>sint q\<bar> \<le> 2 ^ 7" using sint_greater_eq [of q] sint_less [of q] by (simp add: abs_le_iff)
  have product: "representable (Fin (of_int n * 2 powi E * of_int (sint q)))" if "\<bar>n\<bar> < 2 ^ 11" "- 24 \<le> E" "E \<le> 5" for n E
  proof -
    have "\<bar>n * sint q\<bar> \<le> \<bar>n\<bar> * 2 ^ 7" using q by (simp add: abs_mult mult_left_mono)
    then have "\<bar>n * sint q\<bar> < 2 ^ 18" using that(1) by simp
    from representable_scaled [OF this that(2,3)] show ?thesis by (simp add: mult.assoc mult.commute [of "2 powi E"])
  qed
  have special: "representable (x_mul x (Fin r))" if "x \<in> {PInf, MInf, NaN}" for x r
    using that by (auto simp: inf_of_def)
  have val: "f16_to_f32 x_ops h = half_value e m \<or> f16_to_f32 x_ops h = x_neg (half_value e m)"
    by (simp add: f16_to_f32_value e_def m_def Let_def)
  from half_value_cases [OF bounds] show ?thesis
  proof (elim disjE exE conjE)
    assume "half_value e m \<in> {PInf, NaN}"
    with val have "f16_to_f32 x_ops h \<in> {PInf, MInf, NaN}" by auto
    then show ?thesis by (rule special)
  next
    fix E assume E: "half_value e m = Fin (of_int (int (if e = 0 then m else 1024 + m)) * 2 powi E)" "- 24 \<le> E" "E \<le> 5"
    have n: "\<bar>int (if e = 0 then m else 1024 + m)\<bar> < 2 ^ 11" using bounds(1) by simp
    from product [OF n E(2,3)] product [of "- int (if e = 0 then m else 1024 + m)", OF _ E(2,3)] n val E(1)
    show ?thesis by auto
  qed
qed

section \<open>Dequantised weights\<close>

lemma length_f32_bytes [simp]: "length (f32_bytes w) = 4"
  by (simp add: f32_bytes_def)

lemma u32_of_f32_bytes [simp]: "u32_of (f32_bytes w) = w"
proof (rule bit_word_eqI)
  fix n :: nat
  assume "n < LENGTH(32)"
  then consider "n < 8" | "8 \<le> n" "n < 16" | "16 \<le> n" "n < 24" | "24 \<le> n" "n < 32" by fastforce
  then show "bit (u32_of (f32_bytes w)) n = bit w n"
    by cases (auto simp: u32_of_def f32_bytes_def bit_simps)
qed

text \<open>The bits of the \<open>i\<close>-th float, and of the \<open>i\<close>-th half, of an array in memory.\<close>

definition u32_at :: "octet list \<Rightarrow> nat \<Rightarrow> 32 word" where
  "u32_at xs i = u32_of (take 4 (drop (i * 4) xs))"

definition u16_at :: "octet list \<Rightarrow> nat \<Rightarrow> 16 word" where
  "u16_at xs i = u16_of (take 2 (drop (i * 2) xs))"

lemma float_array:
  "length (concat (map (\<lambda>i. f32_bytes (w i)) [0..<n])) = n * 4"
  "i < n \<Longrightarrow> u32_at (concat (map (\<lambda>i. f32_bytes (w i)) [0..<n])) i = w i"
  using filled_nth_row [of n "\<lambda>i. f32_bytes (w i)" 4 i "[]"]
  by (simp_all add: length_concat_rows [where w = 4] u32_at_def filled_def)

lemma convert_u16_run:
  assumes "n * 2 \<le> length src"
  shows "convert_u16 conv src n = Inr (concat (map (\<lambda>i. f32_bytes (conv (u16_at src i))) [0..<n]))"
proof -
  let ?body = "\<lambda>i dst. rbind (read_floats src (2 * nat i) 2) (\<lambda>b. Inr (dst @ f32_bytes (conv (u16_of b))))"
  let ?g = "\<lambda>k. concat (map (\<lambda>i. f32_bytes (conv (u16_at src i))) [0..<k])"
  have "?body (0 + int k) (?g k) = Inr (?g (Suc k))" if "k < n" for k
    using row_fits [OF that, of 2] assms by (simp add: read_floats_def u16_at_def mult.commute)
  from for_range_states [where g = ?g and body = ?body and i = 0 and n = n, OF this]
  show ?thesis by (simp add: convert_u16_def)
qed

definition q8_bits :: "('f, 'z) cpu_ops_scheme \<Rightarrow> ('f \<Rightarrow> 32 word) \<Rightarrow> octet list \<Rightarrow> nat \<Rightarrow> 32 word" where
  "q8_bits F to_bits src i =
     to_bits (f_mul F (f_of_int F (sint (src ! (i div 32 * 34 + 2 + i mod 32))))
       (f_of_bits F (f16_bits (u16_of (take 2 (drop (i div 32 * 34) src))))))"

lemma dequantize_block_run:
  assumes src: "(n + 31) div 32 * 34 \<le> length src" and n: "n < 2 ^ 31" and b: "b < (n + 31) div 32"
  shows "dequantize_block F to_bits src n b (concat (map (\<lambda>i. f32_bytes (q8_bits F to_bits src i)) [0..<b * 32]))
    = Inr (concat (map (\<lambda>i. f32_bytes (q8_bits F to_bits src i)) [0..<min n (Suc b * 32)]))"
proof -
  let ?g = "\<lambda>k. concat (map (\<lambda>i. f32_bytes (q8_bits F to_bits src i)) [0..<b * 32 + k])"
  let ?scale = "f_of_bits F (f16_bits (u16_of (take 2 (drop (b * 34) src))))"
  let ?body = "\<lambda>i dst. rbind (read_floats src (b * 34 + 2 + nat i) 1) (\<lambda>q.
       Inr (dst @ f32_bytes (to_bits (f_mul F (f_of_int F (sint (q ! 0))) ?scale))))"
  have fits: "b * 34 + 34 \<le> length src" using row_fits [OF b, of 34] src by linarith
  have "b * 32 < n" using b by linarith
  then have less: "b * 34 < 2 ^ 64" using n by simp
  have "?body (0 + int k) (?g k) = Inr (?g (Suc k))" if "k < min 32 (n - b * 32)" for k
    using that fits by (simp add: read_floats_def q8_bits_def)
  from for_range_states [where g = ?g and body = ?body and i = 0 and n = "min 32 (n - b * 32)", OF this]
  have "for_range ?body 0 (min 32 (n - b * 32)) (?g 0) = Inr (?g (min 32 (n - b * 32)))" .
  moreover have "b * 32 + min 32 (n - b * 32) = min n (Suc b * 32)" using \<open>b * 32 < n\<close> by simp
  ultimately show ?thesis using fits less by (simp add: dequantize_block_def Let_def read_floats_def)
qed

lemma dequantize_q8_run:
  assumes "(n + 31) div 32 * 34 \<le> length src" and "n < 2 ^ 31"
  shows "dequantize_to_f32 F to_bits GT_Q8_0 src n = Inr (concat (map (\<lambda>i. f32_bytes (q8_bits F to_bits src i)) [0..<n]))"
proof -
  let ?g = "\<lambda>b. concat (map (\<lambda>i. f32_bytes (q8_bits F to_bits src i)) [0..<min n (b * 32)])"
  let ?body = "\<lambda>b. dequantize_block F to_bits src n (nat b)"
  have "?body (0 + int b) (?g b) = Inr (?g (Suc b))" if b: "b < (n + 31) div 32" for b
  proof -
    have "min n (b * 32) = b * 32" using b by linarith
    then show ?thesis using dequantize_block_run [OF assms b, of F to_bits] by simp
  qed
  from for_range_states [where g = ?g and body = ?body and i = 0 and n = "(n + 31) div 32", OF this]
  have "for_range ?body 0 ((n + 31) div 32) [] = Inr (?g ((n + 31) div 32))" by simp
  moreover have "min n ((n + 31) div 32 * 32) = n" by linarith
  moreover have "wrap64 (n + 31) = n + 31" using assms(2) by simp
  ultimately show ?thesis by (simp add: dequantize_to_f32_def)
qed

text \<open>The bytes of \<open>n\<close> weights in a file, and the number that the \<open>i\<close>-th of them stands for to the kernels. No kernel
  takes half-precision weights; for them it is the conversion by which the kernels read the half-precision scales of
  Q8_0 blocks.\<close>

fun raw_bytes :: "ggml_type \<Rightarrow> nat \<Rightarrow> nat" where
  "raw_bytes GT_F32 n = n * 4"
| "raw_bytes GT_Q8_0 n = (n + 31) div 32 * 34"
| "raw_bytes ty n = n * 2"

fun kernel_weight :: "ggml_type \<Rightarrow> octet list \<Rightarrow> nat \<Rightarrow> xreal" where
  "kernel_weight GT_F32 src i = x_of_bits (u32_at src i)"
| "kernel_weight GT_F16 src i = f16_to_f32 x_ops (u16_at src i)"
| "kernel_weight GT_BF16 src i = bf16_to_float x_ops (u16_at src i)"
| "kernel_weight GT_Q8_0 src i = q8_element x_ops src i"
| "kernel_weight ty src i = NaN"

lemma dequantized_kernel_weights:
  assumes "ty \<in> {GT_F32, GT_F16, GT_BF16, GT_Q8_0}" and "n < 2 ^ 31" and "raw_bytes ty n \<le> length src"
    and "\<And>w. x_of_bits (to_bits (x_of_bits w)) = x_of_bits w"
  shows "\<exists>dst. dequantize_to_f32 x_ops to_bits ty src n = Inr dst \<and> length dst = n * 4
    \<and> (\<forall>i < n. x_of_bits (u32_at dst i) = kernel_weight ty src i)"
proof -
  have mul_commute: "x_mul a b = x_mul b a" for a b by (cases a; cases b) (auto simp: mult.commute)
  have q8: "x_of_bits (q8_bits x_ops to_bits src i) = q8_element x_ops src i" for i
  proof -
    let ?h = "u16_of (take 2 (drop (i div 32 * 34) src))" and ?q = "src ! (i div 32 * 34 + 2 + i mod 32)"
    have "q8_0_scale x_ops (take 2 (drop (i div 32 * 34) src)) = f16_to_f32 x_ops ?h" by (simp add: q8_0_scale_def u16_of_def)
    moreover obtain w where "x_of_bits w = x_mul (f16_to_f32 x_ops ?h) (Fin (of_int (sint ?q)))"
      using representable_product unfolding representable_def by blast
    ultimately show ?thesis using assms(4) [of w]
      by (simp add: q8_bits_def q8_element_def half_bits_value mul_commute [of "Fin _"])
  qed
  consider "ty = GT_F32" | "ty = GT_F16" | "ty = GT_BF16" | "ty = GT_Q8_0" using assms(1) by blast
  then show ?thesis
  proof cases
    case 1
    have "u32_at (take (n * 4) src) i = u32_at src i" if "i < n" for i
      using row_fits [OF that, of 4] by (simp add: u32_at_def min_def drop_take)
    with 1 show ?thesis using assms(2,3) by (simp add: dequantize_to_f32_def read_floats_def)
  next
    case 4
    with q8 show ?thesis using assms(2,3) by (simp add: dequantize_q8_run float_array)
  qed (use assms(3) in \<open>simp_all add: dequantize_to_f32_def convert_u16_run float_array half_bits_value bf16_to_float_def bf16_bits_def\<close>)
qed

text \<open>C20. Expanding weights when they are loaded gives the numbers that the kernels compute from the packed weights:
  for each of the four formats \<open>dequantize_to_f32\<close> writes exactly four bytes per element, and the float at place
  \<open>i\<close> is the weight \<open>i\<close>. For Q8_0 this needs of the bits of a float only that a number that is a float keeps its
  value: the products of scales and 8-bit weights are exact.\<close>

theorem dequantized_weights_are_kernel_weights:
  assumes "ty \<in> {GT_F32, GT_F16, GT_BF16, GT_Q8_0}" and "n < 2 ^ 31" and "raw_bytes ty n \<le> length src"
    and "\<And>w. x_of_bits (to_bits (x_of_bits w)) = x_of_bits w"
  shows "\<exists>dst. dequantize_to_f32 x_ops to_bits ty src n = Inr dst \<and> length dst = n * 4
    \<and> (\<forall>i < n. x_of_bits (u32_at dst i) = kernel_weight ty src i)"
  using assms by (rule dequantized_kernel_weights)

text \<open>One block with scale 1 and first weight 3.\<close>

definition one_block :: "octet list" where
  "one_block = [0x00, 0x3C, 3] @ replicate 31 0"

lemma dequantized_weights_are_kernel_weights_witness:
  "\<exists>dst. dequantize_to_f32 x_ops (inv x_of_bits) GT_Q8_0 one_block 1 = Inr dst \<and> length dst = 4 \<and> x_of_bits (u32_at dst 0) = Fin 3"
proof -
  have "raw_bytes GT_Q8_0 1 \<le> length one_block" by (simp add: one_block_def)
  moreover have "x_of_bits (inv x_of_bits (x_of_bits w)) = x_of_bits w" for w by (rule f_inv_into_f) simp
  ultimately obtain dst where "dequantize_to_f32 x_ops (inv x_of_bits) GT_Q8_0 one_block 1 = Inr dst" "length dst = 4"
    "x_of_bits (u32_at dst 0) = kernel_weight GT_Q8_0 one_block 0"
    using dequantized_weights_are_kernel_weights [of GT_Q8_0 1 one_block "inv x_of_bits"] by auto
  moreover have "kernel_weight GT_Q8_0 one_block 0 = Fin 3"
    by (simp add: q8_element_def one_block_def q8_0_scale_def f16_to_f32_value half_value_def Let_def power_int_minus)
  ultimately show ?thesis by auto
qed

end
