(* ===== verification/Weight_Names.thy ===== *)
theory Weight_Names
  imports Gguf_Format Transformer_Builder
begin

text \<open>
  What \<open>WeightLoader\<close> takes from the header of a GGUF file (src/io/gguf_weight_loader.cpp): the configuration
  of the transformer and the names of its weights. The main fact joins it to the graph builder: every weight
  that the graph declares has a GGUF name. \<open>'d\<close> is \<open>double\<close>; its conversions are parameters.
\<close>

section \<open>Names\<close>

abbreviation char_code :: "char \<Rightarrow> nat" where
  "char_code \<equiv> of_char"

definition is_space :: "char \<Rightarrow> bool" where
  "is_space c \<longleftrightarrow> char_code c \<in> {32, 9, 10, 11, 12, 13}"

definition is_digit :: "char \<Rightarrow> bool" where
  "is_digit c \<longleftrightarrow> 48 \<le> char_code c \<and> char_code c \<le> 57"

definition digits_value :: "string \<Rightarrow> int" where
  "digits_value ds = foldl (\<lambda>v c. 10 * v + (int (char_code c) - 48)) 0 ds"

text \<open>\<open>std::stoi\<close>: leading spaces, a sign, digits; the number and how many characters it took, or an exception.\<close>

definition stoi :: "string \<Rightarrow> (int \<times> nat) option" where
  "stoi s =
     (let body = dropWhile is_space s;
          neg = (body \<noteq> [] \<and> hd body = CHR ''-'');
          body = (if body \<noteq> [] \<and> (hd body = CHR ''-'' \<or> hd body = CHR ''+'') then tl body else body);
          ds = takeWhile is_digit body;
          v = (if neg then - digits_value ds else digits_value ds)
      in if ds = [] \<or> v < - (2 ^ 31) \<or> 2 ^ 31 - 1 < v then None
         else Some (v, length s - length body + length ds))"

definition layer_suffixes :: "(string \<times> string) list" where
  "layer_suffixes =
     [(''attn_norm.weight'', ''attn_norm.weight''), (''attn_q.weight'', ''q_proj.weight''),
      (''attn_k.weight'', ''k_proj.weight''), (''attn_v.weight'', ''v_proj.weight''),
      (''attn_q_norm.weight'', ''q_norm.weight''), (''attn_k_norm.weight'', ''k_norm.weight''),
      (''attn_output.weight'', ''o_proj.weight''), (''ffn_norm.weight'', ''ffn_norm.weight''),
      (''ffn_gate.weight'', ''gate_proj.weight''), (''ffn_up.weight'', ''up_proj.weight''),
      (''ffn_down.weight'', ''down_proj.weight'')]"

definition global_suffixes :: "(string \<times> string) list" where
  "global_suffixes =
     [(''token_embd.weight'', ''tok_embeddings.weight''), (''output_norm.weight'', ''output_norm.weight''),
      (''output.weight'', ''lm_head.weight'')]"

text \<open>The name of a layer's weight; \<open>None\<close> when the name is not of a known layer weight.\<close>

definition layer_value_name :: "string \<Rightarrow> string option result" where
  "layer_value_name nm =
     (let idx_str = takeWhile (\<lambda>c. c \<noteq> CHR ''.'') (drop 4 nm) in
      if take 4 nm \<noteq> ''blk.'' \<or> CHR ''.'' \<notin> set (drop 4 nm) then Inr None
      else case stoi idx_str of
        None \<Rightarrow> Inl (invalid_argument (''invalid layer index in GGUF tensor: '' @ nm))
      | Some (layer, pos) \<Rightarrow>
          if pos \<noteq> length idx_str then Inl (invalid_argument (''non-numeric layer index in GGUF tensor: '' @ nm))
          else Inr (map_option (\<lambda>w. ''layer_'' @ int_to_string layer @ ''.'' @ w)
                 (map_of layer_suffixes (drop (4 + length idx_str + 1) nm))))"

definition gguf_name_to_value_name :: "string \<Rightarrow> string result" where
  "gguf_name_to_value_name nm = rbind (layer_value_name nm) (\<lambda>r. case r of
     Some w \<Rightarrow> Inr w
   | None \<Rightarrow> (case map_of global_suffixes nm of
       Some w \<Rightarrow> Inr w
     | None \<Rightarrow> Inl (not_found (''no mapping for GGUF tensor: '' @ nm))))"

text \<open>The maps of a file: a later tensor replaces an earlier one; a missing output matrix is the embedding's.\<close>

definition mapped_names :: "tensor_info list \<Rightarrow> string \<Rightarrow> string option" where
  "mapped_names tis = foldl (\<lambda>m ti. case gguf_name_to_value_name (ti_name ti) of
     Inr w \<Rightarrow> m(w \<mapsto> ti_name ti) | Inl e \<Rightarrow> m) Map.empty tis"

definition build_value_to_gguf_map :: "gguf_file \<Rightarrow> string \<Rightarrow> string option" where
  "build_value_to_gguf_map f =
     (let m = mapped_names (gf_tensor_infos f) in
      if m ''lm_head.weight'' = None \<and> m ''tok_embeddings.weight'' \<noteq> None
      then m(''lm_head.weight'' := m ''tok_embeddings.weight'') else m)"

definition build_gguf_tensor_map :: "gguf_file \<Rightarrow> string \<Rightarrow> tensor_info option" where
  "build_gguf_tensor_map f = foldl (\<lambda>m ti. m(ti_name ti \<mapsto> ti)) Map.empty (gf_tensor_infos f)"

section \<open>The configuration\<close>

fun get_if_int :: "metadata_value \<Rightarrow> int option" where
  "get_if_int (MInt32 w) = Some (sint w)"
| "get_if_int (MUInt32 w) = Some (uint w)"
| "get_if_int (MInt64 w) = Some (sint w)"
| "get_if_int (MUInt64 w) = Some (sint w)"
| "get_if_int v = None"

text \<open>The value of the first key whose value \<open>get_if\<close> takes.\<close>

fun first_of :: "(metadata_value \<Rightarrow> 'a option) \<Rightarrow> metadata \<Rightarrow> string list \<Rightarrow> 'a \<Rightarrow> 'a" where
  "first_of get_if m [] default_val = default_val"
| "first_of get_if m (k # ks) default_val = (case Option.bind (m k) get_if of
     Some x \<Rightarrow> x | None \<Rightarrow> first_of get_if m ks default_val)"

fun get_if_string :: "metadata_value \<Rightarrow> string option" where
  "get_if_string (MString s) = Some s"
| "get_if_string v = None"

text \<open>\<open>narrow\<close> is the conversion of the bits of a \<open>double\<close> to those of a \<open>float\<close>.\<close>

fun get_if_real :: "(64 word \<Rightarrow> 32 word) \<Rightarrow> metadata_value \<Rightarrow> 32 word option" where
  "get_if_real narrow (MFloat32 w) = Some w"
| "get_if_real narrow (MFloat64 w) = Some (narrow w)"
| "get_if_real narrow v = None"

definition read_int :: "metadata \<Rightarrow> string \<Rightarrow> string \<Rightarrow> int \<Rightarrow> int" where
  "read_int m prefix key default_val = first_of get_if_int m [prefix @ key, ''llama.'' @ key] default_val"

definition infer_vocab_size :: "tensor_info list \<Rightarrow> int \<Rightarrow> int" where
  "infer_vocab_size tis default_val =
     (case filter (\<lambda>ti. ti_name ti = ''token_embd.weight'' \<and> ti_dimensions ti \<noteq> []) tis of
        [] \<Rightarrow> default_val
      | ti # _ \<Rightarrow> hd (ti_dimensions ti))"

text \<open>\<open>of_f32\<close> widens a float to a \<open>double\<close>, \<open>of_int64\<close> converts an integer; 0x358637BD are the bits of 1e-6f and
  32000 is the vocabulary size that the configuration starts with.\<close>

definition extract_config ::
  "(32 word \<Rightarrow> 'd) \<Rightarrow> (int \<Rightarrow> 'd) \<Rightarrow> (64 word \<Rightarrow> 32 word) \<Rightarrow> gguf_file \<Rightarrow> 'd transformer_config"
where
  "extract_config of_f32 of_int64 narrow f =
     (let m = gf_metadata f;
          prefix = get_metadata_or get_if_string m ''general.architecture'' ''llama'' @ ''.'';
          eps = first_of (get_if_real narrow) m
            [prefix @ ''attention.layer_norm_rms_epsilon'', ''llama.attention.layer_norm_rms_epsilon''] 0x358637BD
      in \<lparr>tc_batch_size = 1,
          tc_seq_len = -1,
          tc_vocab_size = (case get_metadata_array_size m ''tokenizer.ggml.tokens'' of
             Inr n \<Rightarrow> int n | Inl e \<Rightarrow> infer_vocab_size (gf_tensor_infos f) 32000),
          tc_hidden_size = read_int m prefix ''embedding_length'' 768,
          tc_intermediate_size = read_int m prefix ''feed_forward_length'' 2048,
          tc_num_layers = read_int m prefix ''block_count'' 1,
          tc_num_heads = read_int m prefix ''attention.head_count'' 12,
          tc_num_kv_heads = read_int m prefix ''attention.head_count_kv'' 12,
          tc_head_dim = read_int m prefix ''attention.key_length'' 64,
          tc_rms_norm_eps = of_f32 eps,
          tc_rope_base = of_int64 (read_int m prefix ''attention.rope.freq_base'' 10000),
          tc_use_qk_norm = list_ex (\<lambda>ti. ti_name ti = ''blk.0.attn_q_norm.weight'') (gf_tensor_infos f),
          tc_dtype = Float32,
          tc_device = device_cpu\<rparr>)"

section \<open>Numbers in names\<close>

lemma char_code_digit [simp]: "d < 10 \<Longrightarrow> char_code (digit_char d) = 48 + d"
  by (simp add: digit_char_def)

lemma digit_char_class:
  assumes "d < 10"
  shows "is_digit (digit_char d)" "\<not> is_space (digit_char d)"
    "digit_char d \<noteq> CHR ''-''" "digit_char d \<noteq> CHR ''+''" "digit_char d \<noteq> CHR ''.''"
proof -
  have code: "char_code (digit_char d) = 48 + d" by (rule char_code_digit [OF assms])
  then show "is_digit (digit_char d)" "\<not> is_space (digit_char d)" using assms by (auto simp: is_digit_def is_space_def)
  have "digit_char d \<noteq> c" if "char_code c < 48" for c using that code by auto
  from this [of "CHR ''-''"] this [of "CHR ''+''"] this [of "CHR ''.''"]
  show "digit_char d \<noteq> CHR ''-''" "digit_char d \<noteq> CHR ''+''" "digit_char d \<noteq> CHR ''.''" by simp_all
qed

lemma digits_value_snoc: "digits_value (ds @ [c]) = 10 * digits_value ds + (int (char_code c) - 48)"
  by (simp add: digits_value_def)

lemma nat_to_string_digits:
  "\<forall>c \<in> set (nat_to_string n). \<exists>d < 10. c = digit_char d" "digits_value (nat_to_string n) = int n"
proof (induction n rule: nat_to_string.induct)
  case (1 n)
  {
    case 1
    show ?case
    proof (cases "n < 10")
      case False
      then show ?thesis using "1.IH"(1) [OF False] by (subst nat_to_string.simps) (auto intro: exI [of _ "n mod 10"])
    qed (auto simp: nat_to_string.simps [of n])
  next
    case 2
    show ?case
    proof (cases "n < 10")
      case True
      then show ?thesis by (simp add: nat_to_string.simps [of n] digits_value_def)
    next
      case False
      have "10 * int (n div 10) + int (n mod 10) = int n" using mult_div_mod_eq [of 10 n] by linarith
      then show ?thesis using False "1.IH"(2) [OF False]
        by (subst nat_to_string.simps) (simp add: digits_value_snoc)
    qed
  }
qed

lemma nat_to_string_class:
  assumes "c \<in> set (nat_to_string n)"
  shows "is_digit c" "\<not> is_space c" "c \<noteq> CHR ''-''" "c \<noteq> CHR ''+''" "c \<noteq> CHR ''.''"
proof -
  obtain d where "d < 10" "c = digit_char d" using nat_to_string_digits(1) assms by blast
  then show "is_digit c" "\<not> is_space c" "c \<noteq> CHR ''-''" "c \<noteq> CHR ''+''" "c \<noteq> CHR ''.''"
    using digit_char_class by simp_all
qed

lemma stoi_nat_to_string:
  assumes "n < 2 ^ 31"
  shows "stoi (nat_to_string n) = Some (int n, length (nat_to_string n))"
proof -
  let ?s = "nat_to_string n"
  have s: "?s = hd ?s # tl ?s" by simp
  then have hd: "hd ?s \<in> set ?s" by (metis list.set_intros(1))
  have dw: "dropWhile is_space ?s = ?s" using nat_to_string_class(2) [OF hd] by (simp add: dropWhile_eq_self_iff)
  have tw: "takeWhile is_digit ?s = ?s" using nat_to_string_class(1) by (simp add: takeWhile_eq_all_conv)
  show ?thesis using nat_to_string_class(3,4) [OF hd] assms
    by (simp add: stoi_def Let_def dw tw nat_to_string_digits(2))
qed

lemma layer_name_maps:
  assumes "n < 2 ^ 31" and "(a, b) \<in> set layer_suffixes"
  shows "gguf_name_to_value_name (''blk.'' @ nat_to_string n @ ''.'' @ a) = Inr (''layer_'' @ nat_to_string n @ ''.'' @ b)"
proof -
  let ?nm = "''blk.'' @ nat_to_string n @ ''.'' @ a"
  have "takeWhile (\<lambda>c. c \<noteq> CHR ''.'') (drop 4 ?nm) = nat_to_string n"
    using nat_to_string_class(5) by (simp add: takeWhile_append2)
  moreover have "map_of layer_suffixes a = Some b"
    using assms(2) by (intro map_of_is_SomeI) (simp_all add: layer_suffixes_def)
  moreover have "drop (4 + length (nat_to_string n) + 1) ?nm = a" by (simp add: drop_Cons')
  ultimately show ?thesis using stoi_nat_to_string [OF assms(1)]
    by (simp add: gguf_name_to_value_name_def layer_value_name_def Let_def int_to_string_def del: drop_append)
qed

lemma global_name_maps: "(a, b) \<in> set global_suffixes \<Longrightarrow> gguf_name_to_value_name a = Inr b"
  by (auto simp: global_suffixes_def gguf_name_to_value_name_def layer_value_name_def Let_def)

section \<open>The weights of a graph have names in a file\<close>

text \<open>The pairs of a GGUF name and a value name of a model.\<close>

definition weight_names :: "nat \<Rightarrow> (string \<times> string) list" where
  "weight_names layers = global_suffixes @
     concat (map (\<lambda>l. map (\<lambda>(a, b). (''blk.'' @ nat_to_string l @ ''.'' @ a, ''layer_'' @ nat_to_string l @ ''.'' @ b))
       layer_suffixes) [0..<layers])"

lemma weight_names_map: "layers \<le> 2 ^ 31 \<Longrightarrow> (a, b) \<in> set (weight_names layers) \<Longrightarrow> gguf_name_to_value_name a = Inr b"
  using layer_name_maps global_name_maps unfolding weight_names_def by fastforce

definition names_only :: "string set \<Rightarrow> 'd graph \<Rightarrow> bool" where
  "names_only N g \<longleftrightarrow> (\<forall>v \<in> set (g_values g). v_kind v = KConstant \<longrightarrow> v_name v \<in> N)"

lemma names_bind:
  assumes "names_only N (snd m)" and "\<And>x g. names_only N g \<Longrightarrow> names_only N (snd (f x g))"
  shows "names_only N (snd (sbind m f))"
  using assms by (cases m; cases "fst m") auto

lemma names_step:
  "names_only N g \<Longrightarrow> (\<And>x. names_only N (snd (f x))) \<Longrightarrow> names_only N (snd (step_result r g f))"
  by (cases r) auto

lemma names_emit: "names_only N g \<Longrightarrow> names_only N (snd (emit op nm ins sh t d attrs g))"
  by (auto simp: emit_eq emitted_def names_only_def)

lemma names_calls:
  assumes "names_only N g"
  shows "names_only N (snd (b_embedding i w nm g))" "names_only N (snd (b_linear x w b nm g))"
    "names_only N (snd (b_add x y nm g))" "names_only N (snd (b_swiglu x y nm g))"
    "names_only N (snd (b_rope x nh hdim base nm g))" "names_only N (snd (b_attention q k v c nh nkv hdim l nm g))"
    "names_only N (snd (b_qk_norm x w eps nh hdim nm g))" "names_only N (snd (b_rms_norm x w eps nm g))"
  unfolding builder_defs by (intro names_step names_emit assms)+

lemma names_input: "names_only N g \<Longrightarrow> names_only N (snd (b_input nm sh t d g))"
  by (auto simp: b_input_def add_value_def names_only_def Let_def)

lemma names_output:
  assumes "names_only N g"
  shows "names_only N (snd (b_output x nm g))"
proof -
  have "names_only N (snd (mutable_value x (\<lambda>v. v\<lparr>v_kind := KOutput\<rparr>) g))"
    using assms set_update_subset_insert [of "g_values g" x] by (fastforce simp: mutable_value_def names_only_def)
  then show ?thesis using assms unfolding b_output_def by (intro names_step names_bind) auto
qed

lemma names_weight: "names_only N g \<Longrightarrow> nm \<in> N \<Longrightarrow> names_only N (snd (weight cfg nm ds g))"
  unfolding weight_def b_constant_def by (intro names_step) (auto simp: add_value_def names_only_def Let_def)

lemma names_return: "names_only N g \<Longrightarrow> names_only N (snd (r, g))"
  by simp

lemma names_norm_weights:
  assumes "names_only N g" and "prefix @ ''q_norm.weight'' \<in> N" and "prefix @ ''k_norm.weight'' \<in> N"
  shows "names_only N (snd (norm_weights cfg prefix use g))"
  using assms unfolding norm_weights_def by (auto intro!: names_bind names_weight names_return)

lemma names_declare:
  assumes "names_only N g" and "\<forall>b \<in> snd ` set layer_suffixes. prefix @ b \<in> N"
  shows "names_only N (snd (declare_layer cfg prefix use g))"
proof -
  note N = assms(2) [unfolded layer_suffixes_def, simplified list.set image_insert image_empty snd_conv ball_simps]
  show ?thesis unfolding declare_layer_def
    by (intro names_bind names_weight names_norm_weights) (use assms(1) N in \<open>auto intro!: names_bind names_weight\<close>)
qed

lemma names_norm_qk: "names_only N g \<Longrightarrow> names_only N (snd (norm_qk cfg prefix ws q k g))"
  unfolding norm_qk_def by (auto intro!: names_bind names_calls split: option.splits)

lemma names_attend: "names_only N g \<Longrightarrow> names_only N (snd (attend cfg prefix layer ws hidden v qk g))"
  unfolding attend_def by (intro names_bind names_calls)

lemma names_attention: "names_only N g \<Longrightarrow> names_only N (snd (attention_block cfg prefix layer ws hidden g))"
  unfolding attention_block_def by (intro names_bind names_calls names_norm_qk names_attend)

lemma names_ffn: "names_only N g \<Longrightarrow> names_only N (snd (ffn_block cfg prefix ws add1 g))"
  unfolding ffn_block_def by (intro names_bind names_calls)

lemma names_layer:
  assumes "names_only N g" and "\<forall>b \<in> snd ` set layer_suffixes. (''layer_'' @ int_to_string layer @ ''.'') @ b \<in> N"
  shows "names_only N (snd (transformer_layer cfg layer hidden g))"
  using assms unfolding transformer_layer_def Let_def by (intro names_bind names_declare names_attention names_ffn)

lemma names_layers:
  assumes "names_only N g" and "0 \<le> layer"
    and "\<forall>l < nat layer + n. \<forall>b \<in> snd ` set layer_suffixes. (''layer_'' @ nat_to_string l @ ''.'') @ b \<in> N"
  shows "names_only N (snd (transformer_layers cfg n layer hidden g))"
  using assms
proof (induction n arbitrary: layer hidden g)
  case (Suc n)
  have "\<forall>b \<in> snd ` set layer_suffixes. (''layer_'' @ int_to_string layer @ ''.'') @ b \<in> N"
    using Suc.prems(2,3) by (simp add: int_to_string_def)
  moreover have "nat (layer + 1) + n = nat layer + Suc n" using Suc.prems(2) by simp
  ultimately show ?case unfolding transformer_layers.simps
    using Suc.prems Suc.IH [of _ "layer + 1"] by (intro names_bind names_layer) auto
qed simp

lemma names_transformer:
  "names_only (snd ` set (weight_names (nat (tc_num_layers cfg)))) (snd (build_transformer cfg empty_graph))"
proof -
  let ?N = "snd ` set (weight_names (nat (tc_num_layers cfg)))"
  have globals: "''tok_embeddings.weight'' \<in> ?N" "''lm_head.weight'' \<in> ?N" "''output_norm.weight'' \<in> ?N"
    by (simp_all add: weight_names_def global_suffixes_def image_Un)
  have layers: "\<forall>l < nat 0 + nat (tc_num_layers cfg). \<forall>b \<in> snd ` set layer_suffixes. (''layer_'' @ nat_to_string l @ ''.'') @ b \<in> ?N"
    by (force simp: weight_names_def)
  have "names_only ?N (empty_graph :: 'a graph)" by (simp add: names_only_def empty_graph_def)
  then show ?thesis unfolding build_transformer_def
    by (intro names_bind names_step names_input names_calls names_weight names_layers names_output globals) (use layers in auto)
qed

text \<open>C24. Every weight of a transformer has a name in a GGUF file: whatever the configuration (up to the \<open>2^31\<close> layers
  that \<open>stoi\<close> can number), each constant that \<open>build_transformer\<close> declares, QK-norm weights included, is the value
  name that \<open>gguf_name_to_value_name\<close> gives to \<open>token_embd.weight\<close>, \<open>output.weight\<close>, \<open>output_norm.weight\<close> or
  \<open>blk.<l>.<suffix>\<close> with \<open>l\<close> below the number of layers.\<close>

theorem graph_weights_have_gguf_names:
  assumes "tc_num_layers cfg \<le> 2 ^ 31"
    and "v \<in> set (g_values (snd (build_transformer cfg empty_graph)))" and "v_kind v = KConstant"
  shows "\<exists>nm. (nm, v_name v) \<in> set (weight_names (nat (tc_num_layers cfg))) \<and> gguf_name_to_value_name nm = Inr (v_name v)"
proof -
  have "v_name v \<in> snd ` set (weight_names (nat (tc_num_layers cfg)))"
    using names_transformer [of cfg] assms(2,3) by (simp add: names_only_def)
  then obtain nm where nm: "(nm, v_name v) \<in> set (weight_names (nat (tc_num_layers cfg)))" by auto
  moreover have "nat (tc_num_layers cfg) \<le> 2 ^ 31" using assms(1) by simp
  ultimately show ?thesis using weight_names_map by blast
qed

text \<open>The output norm of a model without layers.\<close>

lemma graph_weights_have_gguf_names_witness:
  "gguf_name_to_value_name ''output_norm.weight'' = Inr (v_name (g_values (snd (build_transformer (small_config\<lparr>tc_num_layers := 0\<rparr>) empty_graph)) ! 4))"
proof -
  let ?g = "snd (build_transformer (small_config\<lparr>tc_num_layers := 0\<rparr>) empty_graph)"
  have len: "4 < length (g_values ?g)" by code_simp
  have const: "v_kind (g_values ?g ! 4) = KConstant" by code_simp
  have nm: "v_name (g_values ?g ! 4) = ''output_norm.weight''" by code_simp
  have "tc_num_layers (small_config\<lparr>tc_num_layers := 0\<rparr>) \<le> 2 ^ 31" by code_simp
  from graph_weights_have_gguf_names [OF this nth_mem [OF len] const] show ?thesis
    unfolding nm by (simp add: weight_names_def global_suffixes_def small_config_def)
qed

end
