(* ===== verification/Weight_Loader.thy ===== *)
theory Weight_Loader
  imports Weight_Conversion Weight_Names Runtime_Context
begin

text \<open>
  Loading the weights of a GGUF file into tensors (include/minillm/io/gguf_weight_loader.h,
  src/io/gguf_weight_loader.cpp), in the build without CUDA: \<open>load_weights\<close> fills the tensors of a context;
  \<open>load_shared_weights\<close> fills one tensor per GGUF tensor, which \<open>SharedWeightStore::bind\<close> gives to several
  contexts. The bytes behind an external tensor are in a memory of bytes by address.
\<close>

section \<open>One tensor\<close>

text \<open>The loader's path, and what the file system gives by reading and by mapping.\<close>

record weight_loader =
  wl_path :: string
  wl_fs :: "string \<Rightarrow> octet list option"
  wl_mmap :: "string \<Rightarrow> octet list option"

type_synonym byte_memory = "nat \<Rightarrow> octet"

definition ggml_to_dtype :: "ggml_type \<Rightarrow> dtype" where
  "ggml_to_dtype t = (case t of
     GT_F32 \<Rightarrow> Float32 | GT_F16 \<Rightarrow> Float32 | GT_BF16 \<Rightarrow> BFloat16 | GT_Q8_0 \<Rightarrow> Q8_0 | _ \<Rightarrow> Float32)"

text \<open>The bytes of a tensor in the mapped file, or read into a buffer where there is no mapping.\<close>

definition tensor_raw_view :: "weight_loader \<Rightarrow> gguf_file \<Rightarrow> tensor_info \<Rightarrow> octet list result" where
  "tensor_raw_view L f ti = (case tensor_view f ti of
     Inr raw \<Rightarrow> Inr raw
   | Inl (Err Unsupported m) \<Rightarrow> rbind (tensor_bytes ti) (\<lambda>n.
       case read_tensor_data (wl_fs L) (wl_mmap L) (wl_path L) (gf_data_offset f) (ti_offset ti) n (replicate n 0) of
         (Inl e, _) \<Rightarrow> Inl e
       | (Inr _, buf) \<Rightarrow> Inr buf)
   | Inl e \<Rightarrow> Inl e)"

text \<open>\<open>memcpy\<close>, or a loop of stores, from the start of \<open>tensor.data()\<close>.\<close>

definition write_data :: "octet list \<Rightarrow> tensor \<times> byte_memory \<Rightarrow> unit result \<times> (tensor \<times> byte_memory)" where
  "write_data bs s = (case s of (t, mem) \<Rightarrow>
     if allocated_bytes t < length bs then (Inl (UB ''write past the end of the tensor''), (t, mem))
     else case tensor_data t of
       NullPtr \<Rightarrow> (make_ok, (t, mem))
     | External a \<Rightarrow> (make_ok, (t, \<lambda>p. if a \<le> p \<and> p < a + length bs then bs ! (p - a) else mem p))
     | OwnStorage \<Rightarrow> (make_ok, (t\<lparr>storage := fill_front bs (storage t)\<rparr>, mem)))"

text \<open>A copy of packed weights, whose size is checked.\<close>

definition copy_packed ::
  "string \<Rightarrow> octet list \<Rightarrow> nat \<Rightarrow> tensor \<times> byte_memory \<Rightarrow> unit result \<times> (tensor \<times> byte_memory)"
where
  "copy_packed what raw expected s =
     (if length raw < expected then
        (Inl (out_of_range (what @ '' raw view too small for tensor '' @ t_name (fst s))), s)
      else if allocated_bytes (fst s) < expected then
        (Inl (out_of_range (what @ '' tensor storage too small for '' @ t_name (fst s))), s)
      else write_data (take expected raw) s)"

text \<open>What follows the lookup of the bytes and of the number of elements.\<close>

definition store_weights ::
  "('f, 'z) cpu_ops_scheme \<Rightarrow> ('f \<Rightarrow> 32 word) \<Rightarrow> tensor_info \<Rightarrow> octet list \<Rightarrow> nat \<Rightarrow> tensor \<times> byte_memory
   \<Rightarrow> unit result \<times> (tensor \<times> byte_memory)"
where
  "store_weights F to_bits ti raw num_el s =
     (let t = fst s in
      if dev_type (t_device t) = CUDA then
        (Inl (unsupported ''cannot load GGUF weights into CUDA tensor without CUDA support''), s)
      else if ti_dtype ti = GT_Q8_0 \<and> t_dtype t = Q8_0 then
        step_result (tensor_bytes ti) s (\<lambda>expected. copy_packed ''Q8_0'' raw expected s)
      else if ti_dtype ti = GT_BF16 \<and> t_dtype t = BFloat16 then
        (if size_max div 2 < num_el then
           (Inl (invalid_argument (''BF16 weight byte size overflow for tensor '' @ t_name t)), s)
         else copy_packed ''BF16'' raw (wrap64 (num_el * 2)) s)
      else step_result (dequantize_to_f32 F to_bits (ti_dtype ti) raw num_el) s (\<lambda>bs. write_data bs s))"

definition load_tensor_from_gguf ::
  "('f, 'z) cpu_ops_scheme \<Rightarrow> ('f \<Rightarrow> 32 word) \<Rightarrow> weight_loader \<Rightarrow> gguf_file \<Rightarrow> tensor_info \<Rightarrow> tensor \<times> byte_memory
   \<Rightarrow> unit result \<times> (tensor \<times> byte_memory)"
where
  "load_tensor_from_gguf F to_bits L f ti s =
     (if \<not> is_allocated (fst s) then (Inl (runtime_error (''tensor not allocated: '' @ t_name (fst s))), s)
      else step_result (tensor_raw_view L f ti) s (\<lambda>raw.
        step_result (num_elements ti) s (\<lambda>num_el. store_weights F to_bits ti raw num_el s)))"

lemmas load_tensor_defs = load_tensor_from_gguf_def store_weights_def

definition check_compatible_weight :: "tensor \<Rightarrow> graph_value \<Rightarrow> unit result" where
  "check_compatible_weight t v =
     (if t_shape t \<noteq> v_shape v then
        Inl (shape_mismatch (''shared weight shape mismatch for '' @ v_name v @ '': tensor '' @
          shape_to_string (t_shape t) @ '' vs value '' @ shape_to_string (v_shape v)))
      else if \<not> (t_dtype t = v_dtype v \<or> t_dtype t = BFloat16 \<and> v_dtype v = Float32
                 \<or> t_dtype t = Q8_0 \<and> v_dtype v = Float32) then
        Inl (type_error (''shared weight dtype mismatch for '' @ v_name v))
      else if dev_type (t_device t) \<noteq> dev_type (v_device v) \<or> dev_index (t_device t) \<noteq> dev_index (v_device v) then
        Inl (runtime_error (''shared weight device mismatch for '' @ v_name v @ '': tensor '' @
          device_to_string (t_device t) @ '' vs value '' @ device_to_string (v_device v)))
      else make_ok)"

section \<open>The tensors of a context\<close>

fun load_values ::
  "('f, 'z) cpu_ops_scheme \<Rightarrow> ('f \<Rightarrow> 32 word) \<Rightarrow> weight_loader \<Rightarrow> gguf_file \<Rightarrow> graph_value list
   \<Rightarrow> 'k runtime_context \<times> byte_memory \<Rightarrow> unit result \<times> ('k runtime_context \<times> byte_memory)"
where
  "load_values F to_bits L f [] s = (make_ok, s)"
| "load_values F to_bits L f (v # vs) (rc, mem) =
     (if v_kind v \<noteq> KConstant then load_values F to_bits L f vs (rc, mem)
      else case build_value_to_gguf_map f (v_name v) of
        None \<Rightarrow> load_values F to_bits L f vs (rc, mem)
      | Some nm \<Rightarrow> (case build_gguf_tensor_map f nm of
          None \<Rightarrow> (Inl (Thrown ''unordered_map::at''), (rc, mem))
        | Some ti \<Rightarrow> (case rc_get (v_id v) rc of
            None \<Rightarrow> (Inl (runtime_error (''tensor not found in RuntimeContext for value: '' @ v_name v)), (rc, mem))
          | Some r \<Rightarrow> (case load_tensor_from_gguf F to_bits L f ti (rc_tensors rc ! r, mem) of
              (st, (t, mem')) \<Rightarrow>
                (let s' = (rc\<lparr>rc_tensors := (rc_tensors rc)[r := t]\<rparr>, mem') in
                 case st of Inl e \<Rightarrow> (Inl e, s') | Inr _ \<Rightarrow> load_values F to_bits L f vs s')))))"

definition load_weights ::
  "('f, 'z) cpu_ops_scheme \<Rightarrow> ('f \<Rightarrow> 32 word) \<Rightarrow> weight_loader \<Rightarrow> gguf_file \<Rightarrow> 'd graph
   \<Rightarrow> 'k runtime_context \<times> byte_memory \<Rightarrow> unit result \<times> ('k runtime_context \<times> byte_memory)"
where
  "load_weights F to_bits L f g s = load_values F to_bits L f (g_values g) s"

section \<open>Shared weights\<close>

text \<open>The owned tensors by GGUF name; an alias is the position of its tensor.\<close>

record weight_store =
  ws_storage :: "(string \<times> tensor) list"
  ws_aliases :: "(string \<times> nat) list"
  ws_total_bytes :: nat

definition empty_store :: weight_store where
  "empty_store = \<lparr>ws_storage = [], ws_aliases = [], ws_total_bytes = 0\<rparr>"

definition ws_find :: "string \<Rightarrow> weight_store \<Rightarrow> nat option" where
  "ws_find nm st =
     (let i = length (takeWhile (\<lambda>(k, _). k \<noteq> nm) (ws_storage st))
      in if i < length (ws_storage st) then Some i else None)"

definition ws_get :: "string \<Rightarrow> weight_store \<Rightarrow> nat option" where
  "ws_get nm st = map_of (ws_aliases st) nm"

definition tensor_count :: "weight_store \<Rightarrow> nat" where
  "tensor_count st = length (ws_storage st)"

definition alias_count :: "weight_store \<Rightarrow> nat" where
  "alias_count st = length (ws_aliases st)"

text \<open>The allocation of a shared tensor and the bytes it counts for.\<close>

definition allocate_shared :: "tensor_info \<Rightarrow> graph_value \<Rightarrow> (tensor \<times> nat) result" where
  "allocate_shared ti v =
     (let dt = ggml_to_dtype (ti_dtype ti);
          cuda = (dev_type (v_device v) = CUDA);
          dt = (if cuda \<and> dt \<noteq> BFloat16 \<and> dt \<noteq> Q8_0 then Float32 else dt);
          t = new_tensor (v_name v) (v_shape v) dt (v_device v)
      in if dt = Q8_0 then
           rbind (tensor_bytes ti) (\<lambda>n.
             case (if cuda then allocate_cuda_bytes n t else allocate_cpu_bytes n t) of
               (Inl e, _) \<Rightarrow> Inl e | (Inr _, t') \<Rightarrow> Inr (t', n))
         else
           (case (if cuda then allocate_cuda t else allocate_cpu t) of
              (Inl e, _) \<Rightarrow> Inl e | (Inr _, t') \<Rightarrow> rbind (nbytes t') (\<lambda>n. Inr (t', n))))"

definition share_value ::
  "('f, 'z) cpu_ops_scheme \<Rightarrow> ('f \<Rightarrow> 32 word) \<Rightarrow> weight_loader \<Rightarrow> gguf_file \<Rightarrow> graph_value
   \<Rightarrow> weight_store \<times> byte_memory \<Rightarrow> (weight_store \<times> byte_memory) result"
where
  "share_value F to_bits L f v s = (case s of (st, mem) \<Rightarrow>
     if v_kind v \<noteq> KConstant then Inr s
     else case build_value_to_gguf_map f (v_name v) of
       None \<Rightarrow> Inr s
     | Some nm \<Rightarrow> (case build_gguf_tensor_map f nm of
         None \<Rightarrow> Inl (not_found (''GGUF tensor not found for value: '' @ v_name v))
       | Some ti \<Rightarrow> (case ws_find nm st of
           None \<Rightarrow> rbind (allocate_shared ti v) (\<lambda>(t, loaded_bytes).
             case load_tensor_from_gguf F to_bits L f ti (t, mem) of
               (Inl e, _) \<Rightarrow> Inl e
             | (Inr _, (t', mem')) \<Rightarrow>
                 Inr (\<lparr>ws_storage = ws_storage st @ [(nm, t')],
                       ws_aliases = AList.update (v_name v) (length (ws_storage st)) (ws_aliases st),
                       ws_total_bytes = wrap64 (ws_total_bytes st + loaded_bytes)\<rparr>, mem'))
         | Some r \<Rightarrow> rbind (check_compatible_weight (snd (ws_storage st ! r)) v) (\<lambda>_.
             Inr (st\<lparr>ws_aliases := AList.update (v_name v) r (ws_aliases st)\<rparr>, mem)))))"

fun share_values ::
  "('f, 'z) cpu_ops_scheme \<Rightarrow> ('f \<Rightarrow> 32 word) \<Rightarrow> weight_loader \<Rightarrow> gguf_file \<Rightarrow> graph_value list
   \<Rightarrow> weight_store \<times> byte_memory \<Rightarrow> (weight_store \<times> byte_memory) result"
where
  "share_values F to_bits L f [] s = Inr s"
| "share_values F to_bits L f (v # vs) s = rbind (share_value F to_bits L f v s) (share_values F to_bits L f vs)"

definition load_shared_weights ::
  "('f, 'z) cpu_ops_scheme \<Rightarrow> ('f \<Rightarrow> 32 word) \<Rightarrow> weight_loader \<Rightarrow> gguf_file \<Rightarrow> 'd graph \<Rightarrow> byte_memory
   \<Rightarrow> (weight_store \<times> byte_memory) result"
where
  "load_shared_weights F to_bits L f g mem = share_values F to_bits L f (g_values g) (empty_store, mem)"

text \<open>\<open>bind\<close>: the tensors of the store are the objects from \<open>base\<close> on.\<close>

fun bind_values ::
  "weight_store \<Rightarrow> nat \<Rightarrow> graph_value list \<Rightarrow> 'k runtime_context \<Rightarrow> unit result \<times> 'k runtime_context"
where
  "bind_values st base [] rc = (make_ok, rc)"
| "bind_values st base (v # vs) rc =
     (if v_kind v \<noteq> KConstant then bind_values st base vs rc
      else case ws_get (v_name v) st of
        None \<Rightarrow> bind_values st base vs rc
      | Some r \<Rightarrow> step_result (check_compatible_weight (snd (ws_storage st ! r)) v) rc (\<lambda>_.
          sbind (rc_bind (v_id v) (Some (base + r)) rc) (\<lambda>_ rc'. bind_values st base vs rc')))"

definition bind_shared :: "weight_store \<Rightarrow> nat \<Rightarrow> 'd graph \<Rightarrow> 'k runtime_context \<Rightarrow> unit result \<times> 'k runtime_context" where
  "bind_shared st base g rc = bind_values st base (g_values g) rc"

end
