(* ===== verification/Shared_Weights.thy ===== *)
theory Shared_Weights
  imports Weight_Loader
begin

text \<open>
  What the weight loader promises: what it reads is as long as the tensor, what it stores are the weights that the
  kernels would compute from the file, shared tensors are one per GGUF tensor, and a graph whose weights were
  loaded can be bound.
\<close>

section \<open>What is read\<close>

lemma length_fill_front: "length xs \<le> length ys \<Longrightarrow> length (fill_front xs ys) = length ys"
  by (simp add: fill_front_def)

lemma tensor_raw_view_length:
  assumes "tensor_raw_view L f ti = Inr raw"
  shows "tensor_bytes ti = Inr (length raw)"
proof (cases "tensor_view f ti")
  case (Inr view)
  then show ?thesis using assms
    by (auto simp: tensor_raw_view_def tensor_view_def Let_def rbind_Inr_iff split: option.splits if_splits)
next
  case (Inl e)
  with assms obtain n buf where n: "tensor_bytes ti = Inr n"
    and buf: "read_tensor_data (wl_fs L) (wl_mmap L) (wl_path L) (gf_data_offset f) (ti_offset ti) n (replicate n 0) = (make_ok, raw)"
    by (auto simp: tensor_raw_view_def split: failure.splits error_code.splits sum.splits prod.splits)
  then have "length raw = n"
    by (auto simp: read_tensor_data_def copy_from_view_def copy_from_stream_def Let_def fill_front_def
        split: option.splits if_splits)
  with n show ?thesis by simp
qed

lemma tensor_bytes_raw:
  assumes "tensor_bytes ti = Inr k" and "num_elements ti = Inr n" and "n < 2 ^ 31"
  shows "ti_dtype ti \<in> {GT_F32, GT_F16, GT_BF16, GT_Q8_0}" and "raw_bytes (ti_dtype ti) n = k"
  using assms by (cases "ti_dtype ti"; auto simp: tensor_bytes_def Let_def split: if_splits)+

section \<open>What is stored\<close>

text \<open>The number that the kernels read at place \<open>i\<close> of a weight tensor.\<close>

definition stored_weight :: "tensor \<Rightarrow> nat \<Rightarrow> xreal" where
  "stored_weight t i = (case t_dtype t of
     BFloat16 \<Rightarrow> bf16_to_float x_ops (u16_at (storage t) i)
   | Q8_0 \<Rightarrow> q8_element x_ops (storage t) i
   | _ \<Rightarrow> x_of_bits (u32_at (storage t) i))"

lemma write_data_own:
  assumes "external_data t = None" and "write_data bs (t, mem) = (r, (t', mem'))"
  shows "mem' = mem" and "\<exists>xs. length xs = length (storage t) \<and> t' = t\<lparr>storage := xs\<rparr>"
    and "r = make_ok \<Longrightarrow> t' = t\<lparr>storage := fill_front bs (storage t)\<rparr> \<and> length bs \<le> length (storage t)"
proof -
  have out: "mem' = mem \<and> (t' = t \<and> r \<noteq> make_ok \<or> t' = t\<lparr>storage := fill_front bs (storage t)\<rparr> \<and> length bs \<le> length (storage t))"
    using assms by (auto simp: write_data_def allocated_bytes_def tensor_data_def fill_front_def split: if_splits)
  then show "mem' = mem" by blast
  from out show "\<exists>xs. length xs = length (storage t) \<and> t' = t\<lparr>storage := xs\<rparr>"
    using length_fill_front by (metis tensor.surjective tensor.update_convs(5))
  from out show "t' = t\<lparr>storage := fill_front bs (storage t)\<rparr> \<and> length bs \<le> length (storage t)" if "r = make_ok"
    using that by blast
qed

lemma load_tensor_own:
  assumes "external_data t = None" and "load_tensor_from_gguf F to_bits L f ti (t, mem) = (r, (t', mem'))"
  shows "mem' = mem" and "\<exists>xs. length xs = length (storage t) \<and> t' = t\<lparr>storage := xs\<rparr>"
proof -
  have refused: "mem' = mem \<and> (\<exists>xs. length xs = length (storage t) \<and> t' = t\<lparr>storage := xs\<rparr>)"
    if "(t', mem') = (t, mem)" using that by (auto intro!: exI [of _ "storage t"])
  have "(t', mem') = (t, mem) \<or> (\<exists>bs. write_data bs (t, mem) = (r, (t', mem')))"
    using assms(2)
    by (auto simp: load_tensor_defs step_result_def sbind_def copy_packed_def Let_def split: if_splits sum.splits)
  then show "mem' = mem" "\<exists>xs. length xs = length (storage t) \<and> t' = t\<lparr>storage := xs\<rparr>"
    using refused write_data_own [OF assms(1)] by metis+
qed

lemma element_prefix:
  "i * 4 + 4 \<le> length xs \<Longrightarrow> u32_at (xs @ ys) i = u32_at xs i"
  "i * 2 + 2 \<le> length xs \<Longrightarrow> u16_at (xs @ ys) i = u16_at xs i"
  "i div 32 * 34 + 34 \<le> length xs \<Longrightarrow> q8_element F (xs @ ys) i = q8_element F xs i"
proof -
  assume "i div 32 * 34 + 34 \<le> length xs"
  moreover have "i mod 32 < 32" by simp
  ultimately have "i div 32 * 34 + 2 + i mod 32 < length xs" "i div 32 * 34 + 2 \<le> length xs" by linarith+
  then show "q8_element F (xs @ ys) i = q8_element F xs i" by (simp add: q8_element_def nth_append)
qed (simp_all add: u32_at_def u16_at_def)

lemma q8_block_fits: "i < n \<Longrightarrow> i div 32 * 34 + 34 \<le> (n + 31) div 32 * (34 :: nat)"
proof -
  assume "i < n"
  then have "Suc (i div 32) \<le> (n + 31) div 32" by linarith
  then show ?thesis using mult_le_mono1 [of "Suc (i div 32)" "(n + 31) div 32" 34] by simp
qed

lemma loaded_weights:
  assumes own: "external_data t = None" and dt: "t_dtype t = ggml_to_dtype (ti_dtype ti)"
    and load: "load_tensor_from_gguf x_ops to_bits L f ti (t, mem) = (make_ok, (t', mem'))"
    and n: "num_elements ti = Inr n" "n < 2 ^ 31"
    and bits: "\<And>w. x_of_bits (to_bits (x_of_bits w)) = x_of_bits w"
  shows "\<exists>raw. tensor_raw_view L f ti = Inr raw \<and> (\<forall>i < n. stored_weight t' i = kernel_weight (ti_dtype ti) raw i)"
proof -
  obtain raw where raw: "tensor_raw_view L f ti = Inr raw"
    using load by (cases "tensor_raw_view L f ti") (auto simp: load_tensor_defs Let_def split: if_splits)
  note fmt = tensor_bytes_raw [OF tensor_raw_view_length [OF raw] n]
  have packed: "t' = t\<lparr>storage := raw @ drop (length raw) (storage t)\<rparr>"
    if "write_data (take (length raw) raw) (t, mem) = (make_ok, (t', mem'))"
    using write_data_own(3) [OF own that] by (simp add: fill_front_def)
  consider (Q8) "ti_dtype ti = GT_Q8_0" | (BF16) "ti_dtype ti = GT_BF16" | (F) "ti_dtype ti = GT_F32 \<or> ti_dtype ti = GT_F16"
    using fmt(1) by blast
  then have "\<forall>i < n. stored_weight t' i = kernel_weight (ti_dtype ti) raw i"
  proof cases
    case Q8
    have "write_data (take (length raw) raw) (t, mem) = (make_ok, (t', mem'))"
      using load Q8 dt n(1) tensor_raw_view_length [OF raw]
      by (auto simp: load_tensor_defs ggml_to_dtype_def raw copy_packed_def Let_def split: if_splits)
    then have t': "t' = t\<lparr>storage := raw @ drop (length raw) (storage t)\<rparr>" by (rule packed)
    have "i div 32 * 34 + 34 \<le> length raw" if "i < n" for i using q8_block_fits [OF that] fmt(2) Q8 by simp
    then show ?thesis using Q8 dt by (simp add: t' stored_weight_def ggml_to_dtype_def element_prefix)
  next
    case BF16
    have "wrap64 (n * 2) = length raw" using fmt(2) n(2) BF16 by simp
    then have "write_data (take (length raw) raw) (t, mem) = (make_ok, (t', mem'))"
      using load BF16 dt n(1)
      by (auto simp: load_tensor_defs ggml_to_dtype_def raw copy_packed_def Let_def split: if_splits)
    then have t': "t' = t\<lparr>storage := raw @ drop (length raw) (storage t)\<rparr>" by (rule packed)
    have "i * 2 + 2 \<le> length raw" if "i < n" for i using that fmt(2) BF16 by simp
    then show ?thesis using BF16 dt by (simp add: t' stored_weight_def ggml_to_dtype_def element_prefix)
  next
    case F
    obtain dst where dst: "dequantize_to_f32 x_ops to_bits (ti_dtype ti) raw n = Inr dst" "length dst = n * 4"
      "\<forall>i < n. x_of_bits (u32_at dst i) = kernel_weight (ti_dtype ti) raw i"
      using dequantized_kernel_weights [OF fmt(1) n(2) _ bits] fmt(2) by auto
    have "write_data dst (t, mem) = (make_ok, (t', mem'))"
      using load F n(1) dst(1) by (auto simp: load_tensor_defs raw Let_def split: if_splits)
    then have t': "t' = t\<lparr>storage := dst @ drop (length dst) (storage t)\<rparr>"
      using write_data_own(3) [OF own] by (simp add: fill_front_def)
    have "i * 4 + 4 \<le> length dst" if "i < n" for i using that dst(2) by simp
    then show ?thesis using F dt dst(3) by (auto simp: t' stored_weight_def ggml_to_dtype_def element_prefix)
  qed
  with raw show ?thesis by blast
qed

section \<open>The store\<close>

lemma ws_find_Some:
  "ws_find nm st = Some i \<Longrightarrow> i < length (ws_storage st) \<and> fst (ws_storage st ! i) = nm"
  using nth_length_takeWhile [of "\<lambda>(k, _). k \<noteq> nm" "ws_storage st"]
  by (auto simp: ws_find_def Let_def split: if_splits)

lemma ws_find_None: "ws_find nm st = None \<Longrightarrow> nm \<notin> fst ` set (ws_storage st)"
proof -
  assume "ws_find nm st = None"
  then have "length (ws_storage st) \<le> length (takeWhile (\<lambda>(k, _). k \<noteq> nm) (ws_storage st))"
    by (simp add: ws_find_def Let_def split: if_splits)
  then have "takeWhile (\<lambda>(k, _). k \<noteq> nm) (ws_storage st) = ws_storage st"
    by (metis length_takeWhile_le le_antisym takeWhile_eq_take take_all order_refl)
  then show ?thesis by (auto simp: takeWhile_eq_all_conv)
qed

text \<open>The invariant: one tensor per GGUF name, each filled from that tensor of the file and living on the CPU; an
  alias is a value name of its tensor's GGUF name; the bytes are counted.\<close>

definition filled_from ::
  "('f, 'z) cpu_ops_scheme \<Rightarrow> ('f \<Rightarrow> 32 word) \<Rightarrow> weight_loader \<Rightarrow> gguf_file \<Rightarrow> tensor_info \<Rightarrow> tensor \<Rightarrow> bool"
where
  "filled_from F to_bits L f ti t \<longleftrightarrow> (\<exists>t0 mem. external_data t0 = None \<and> t_dtype t0 = ggml_to_dtype (ti_dtype ti)
     \<and> t_device t0 = device_cpu \<and> load_tensor_from_gguf F to_bits L f ti (t0, mem) = (make_ok, (t, mem)))"

definition store_ok ::
  "('f, 'z) cpu_ops_scheme \<Rightarrow> ('f \<Rightarrow> 32 word) \<Rightarrow> weight_loader \<Rightarrow> gguf_file \<Rightarrow> weight_store \<Rightarrow> bool"
where
  "store_ok F to_bits L f st \<longleftrightarrow> distinct (map fst (ws_storage st))
     \<and> (\<forall>(nm, t) \<in> set (ws_storage st). \<exists>ti. build_gguf_tensor_map f nm = Some ti \<and> filled_from F to_bits L f ti t)
     \<and> (\<forall>w r. ws_get w st = Some r \<longrightarrow> r < tensor_count st
          \<and> build_value_to_gguf_map f w = Some (fst (ws_storage st ! r)))
     \<and> ws_total_bytes st = wrap64 (\<Sum>(nm, t) \<leftarrow> ws_storage st. allocated_bytes t)"

lemma store_tensor:
  assumes "store_ok F to_bits L f st" and "r < tensor_count st"
  shows "\<exists>ti. build_gguf_tensor_map f (fst (ws_storage st ! r)) = Some ti \<and> filled_from F to_bits L f ti (snd (ws_storage st ! r))"
proof -
  have "\<forall>p \<in> set (ws_storage st). \<exists>ti. build_gguf_tensor_map f (fst p) = Some ti \<and> filled_from F to_bits L f ti (snd p)"
    using assms(1) unfolding store_ok_def case_prod_unfold by blast
  then show ?thesis using assms(2) unfolding tensor_count_def by (metis nth_mem)
qed

text \<open>A store grows by tensors and names.\<close>

definition store_grows :: "weight_store \<Rightarrow> weight_store \<Rightarrow> bool" where
  "store_grows st st' \<longleftrightarrow> (\<exists>xs. ws_storage st' = ws_storage st @ xs) \<and> (\<forall>w r. ws_get w st = Some r \<longrightarrow> ws_get w st' = Some r)"

lemma store_grows_refl: "store_grows st st"
  by (simp add: store_grows_def)

lemma store_grows_trans: "store_grows a b \<Longrightarrow> store_grows b c \<Longrightarrow> store_grows a c"
  by (auto simp: store_grows_def)

lemma allocate_cpu_done:
  assumes "allocate_cpu t = (make_ok, t')"
  shows "\<exists>n. nbytes t = Inr n \<and> t' = t\<lparr>external_data := None, external_bytes := 0, storage := replicate n 0, t_device := device_cpu\<rparr>"
  using assms by (auto simp: allocate_cpu_def release_def split: if_splits sum.splits)

lemma allocate_shared_done:
  assumes "allocate_shared ti v = Inr (t, n)"
  shows "external_data t = None" "t_dtype t = ggml_to_dtype (ti_dtype ti)" "t_device t = device_cpu"
    "t_shape t = v_shape v" "length (storage t) = n"
proof -
  have "allocate_cuda t0 \<noteq> (make_ok, t1)" for t0 t1
    by (auto simp: allocate_cuda_def release_def split: sum.splits)
  then have "dev_type (v_device v) \<noteq> CUDA"
    using assms by (auto simp: allocate_shared_def Let_def allocate_cuda_bytes_def release_def
        split: if_splits sum.splits prod.splits)
  then show "external_data t = None" "t_dtype t = ggml_to_dtype (ti_dtype ti)" "t_device t = device_cpu"
    "t_shape t = v_shape v" "length (storage t) = n"
    using assms
    by (auto simp: allocate_shared_def Let_def allocate_cpu_bytes_def release_def new_tensor_def rbind_Inr_iff nbytes_def
        split: if_splits sum.splits prod.splits dest!: allocate_cpu_done)
qed

lemma ws_get_update:
  "ws_get w (st\<lparr>ws_aliases := AList.update nm r (ws_aliases st)\<rparr>) = (if w = nm then Some r else ws_get w st)"
  by (simp add: ws_get_def update_conv')

lemma share_value_ok:
  assumes ok: "store_ok F to_bits L f st" and share: "share_value F to_bits L f v (st, mem) = Inr (st', mem')"
  shows "mem' = mem \<and> store_ok F to_bits L f st' \<and> store_grows st st'
    \<and> (v_kind v = KConstant \<longrightarrow> build_value_to_gguf_map f (v_name v) \<noteq> None
        \<longrightarrow> (\<exists>r. ws_get (v_name v) st' = Some r \<and> t_shape (snd (ws_storage st' ! r)) = v_shape v))"
proof (cases "v_kind v = KConstant \<and> build_value_to_gguf_map f (v_name v) \<noteq> None")
  case False
  then have "st' = st" "mem' = mem" using share by (auto simp: share_value_def split: if_splits)
  with ok store_grows_refl False show ?thesis by auto
next
  case True
  then obtain nm where nm: "build_value_to_gguf_map f (v_name v) = Some nm" by auto
  with share True obtain ti where ti: "build_gguf_tensor_map f nm = Some ti" by (auto simp: share_value_def split: option.splits)
  have named: "r < tensor_count st" "fst (ws_storage st ! r) = nm" if "ws_get (v_name v) st = Some r" for r
    using ok that nm by (auto simp: store_ok_def)
  show ?thesis
  proof (cases "ws_find nm st")
    case (Some r)
    note r = ws_find_Some [OF Some]
    have compat: "check_compatible_weight (snd (ws_storage st ! r)) v = make_ok"
      and st': "st' = st\<lparr>ws_aliases := AList.update (v_name v) r (ws_aliases st)\<rparr>" "mem' = mem"
      using share True nm ti Some by (auto simp: share_value_def)
    have same: "r' = r" if "ws_get (v_name v) st = Some r'" for r'
      using named [OF that] r ok nth_eq_iff_index_eq [of "map fst (ws_storage st)" r' r]
      by (simp add: store_ok_def tensor_count_def)
    have "store_ok F to_bits L f st'" using ok r nm unfolding st'(1) store_ok_def ws_get_update
      by (auto simp: tensor_count_def split: if_splits)
    moreover have "store_grows st st'" using same unfolding st'(1) store_grows_def ws_get_update by auto
    moreover have "t_shape (snd (ws_storage st ! r)) = v_shape v"
      using compat by (simp add: check_compatible_weight_def split: if_splits)
    ultimately show ?thesis using st'(2) by (auto simp: st'(1) ws_get_update)
  next
    case None
    with share True nm ti obtain t0 n where alloc: "allocate_shared ti v = Inr (t0, n)"
      by (auto simp: share_value_def rbind_Inr_iff)
    obtain res t mem1 where out: "load_tensor_from_gguf F to_bits L f ti (t0, mem) = (res, (t, mem1))"
      by (metis prod.exhaust)
    then have load: "load_tensor_from_gguf F to_bits L f ti (t0, mem) = (make_ok, (t, mem'))"
      and st': "st' = \<lparr>ws_storage = ws_storage st @ [(nm, t)],
         ws_aliases = AList.update (v_name v) (length (ws_storage st)) (ws_aliases st),
         ws_total_bytes = wrap64 (ws_total_bytes st + n)\<rparr>"
      using share True nm ti None alloc by (cases res; auto simp: share_value_def)+
    note t0 = allocate_shared_done [OF alloc]
    obtain xs where mem: "mem' = mem" and t: "t = t0\<lparr>storage := xs\<rparr>" "length xs = length (storage t0)"
      using load_tensor_own [OF t0(1) load] by blast
    have get: "ws_get w st' = (if w = v_name v then Some (length (ws_storage st)) else ws_get w st)" for w
      by (simp add: st' ws_get_def update_conv')
    have unnamed: "ws_get (v_name v) st = None"
      using named ws_find_None [OF None] by (metis image_eqI not_None_eq nth_mem tensor_count_def)
    have filled: "filled_from F to_bits L f ti t" using t0(1-3) load mem by (auto simp: filled_from_def)
    have bytes: "allocated_bytes t = n" using t0(1,5) t by (simp add: allocated_bytes_def)
    have "store_ok F to_bits L f st'" unfolding store_ok_def get
    proof (intro conjI allI impI)
      show "distinct (map fst (ws_storage st'))" using ok ws_find_None [OF None] by (simp add: store_ok_def st')
      show "\<forall>(nm, t) \<in> set (ws_storage st'). \<exists>ti. build_gguf_tensor_map f nm = Some ti \<and> filled_from F to_bits L f ti t"
        using ok ti filled by (auto simp: store_ok_def st')
      show "ws_total_bytes st' = wrap64 (\<Sum>(nm, t) \<leftarrow> ws_storage st'. allocated_bytes t)"
        using ok bytes by (simp add: store_ok_def st' wrap64_def mod_add_left_eq)
      fix w r assume "(if w = v_name v then Some (length (ws_storage st)) else ws_get w st) = Some r"
      then show "r < tensor_count st'" "build_value_to_gguf_map f w = Some (fst (ws_storage st' ! r))"
        using ok nm by (auto simp: store_ok_def st' tensor_count_def nth_append split: if_splits intro: less_SucI)
    qed
    moreover have "store_grows st st'" unfolding store_grows_def get using unnamed by (simp add: st')
    ultimately show ?thesis using mem t0(4) t(1) get by (simp add: st')
  qed
qed

lemma share_values_ok:
  assumes "store_ok F to_bits L f st" and "share_values F to_bits L f vs (st, mem) = Inr (st', mem')"
  shows "mem' = mem \<and> store_ok F to_bits L f st' \<and> store_grows st st'
    \<and> (\<forall>v \<in> set vs. v_kind v = KConstant \<longrightarrow> build_value_to_gguf_map f (v_name v) \<noteq> None
        \<longrightarrow> (\<exists>r. ws_get (v_name v) st' = Some r \<and> t_shape (snd (ws_storage st' ! r)) = v_shape v))"
  using assms
proof (induction vs arbitrary: st mem)
  case Nil
  then show ?case by (simp add: store_grows_refl)
next
  case (Cons v vs)
  from Cons.prems(2) obtain st1 mem1 where step: "share_value F to_bits L f v (st, mem) = Inr (st1, mem1)"
    and rest: "share_values F to_bits L f vs (st1, mem1) = Inr (st', mem')"
    by (auto simp: rbind_Inr_iff)
  note one = share_value_ok [OF Cons.prems(1) step]
  then have IH: "mem' = mem1" "store_ok F to_bits L f st'" "store_grows st1 st'"
    "\<forall>v \<in> set vs. v_kind v = KConstant \<longrightarrow> build_value_to_gguf_map f (v_name v) \<noteq> None
        \<longrightarrow> (\<exists>r. ws_get (v_name v) st' = Some r \<and> t_shape (snd (ws_storage st' ! r)) = v_shape v)"
    using Cons.IH [OF _ rest] by blast+
  have kept: "ws_get w st' = Some r \<and> ws_storage st' ! r = ws_storage st1 ! r" if "ws_get w st1 = Some r" for w r
  proof -
    have "r < length (ws_storage st1)" using one that by (simp add: store_ok_def tensor_count_def)
    then show ?thesis using IH(3) that by (auto simp: store_grows_def nth_append)
  qed
  have "\<exists>r. ws_get (v_name v) st' = Some r \<and> t_shape (snd (ws_storage st' ! r)) = v_shape v"
    if "v_kind v = KConstant" "build_value_to_gguf_map f (v_name v) \<noteq> None"
    using one that kept by (metis (no_types, lifting))
  then show ?case using one IH store_grows_trans by auto
qed

lemma load_shared_ok:
  assumes "load_shared_weights F to_bits L f g mem = Inr (st, mem')"
  shows "mem' = mem" and "store_ok F to_bits L f st"
    and "v \<in> set (g_values g) \<Longrightarrow> v_kind v = KConstant \<Longrightarrow> build_value_to_gguf_map f (v_name v) \<noteq> None
      \<Longrightarrow> \<exists>r. ws_get (v_name v) st = Some r \<and> t_shape (snd (ws_storage st ! r)) = v_shape v"
proof -
  have "store_ok F to_bits L f empty_store" by (simp add: store_ok_def empty_store_def ws_get_def)
  from share_values_ok [OF this assms [unfolded load_shared_weights_def]]
  show "mem' = mem" "store_ok F to_bits L f st"
    "v \<in> set (g_values g) \<Longrightarrow> v_kind v = KConstant \<Longrightarrow> build_value_to_gguf_map f (v_name v) \<noteq> None
      \<Longrightarrow> \<exists>r. ws_get (v_name v) st = Some r \<and> t_shape (snd (ws_storage st ! r)) = v_shape v" by blast+
qed

text \<open>C21. Shared weights are the file's weights: when \<open>load_shared_weights\<close> succeeds, every constant of the graph that the
  file has a tensor for has an entry whose tensor has the constant's shape and holds, bit for bit or converted,
  the numbers that the kernels compute from that GGUF tensor's bytes (tensors below \<open>2^31\<close> elements). The
  store holds one tensor per GGUF tensor, however many constants share it, and counts exactly their bytes.\<close>

theorem shared_weights_hold_the_file:
  assumes "load_shared_weights x_ops to_bits L f g mem = Inr (st, mem')"
    and "v \<in> set (g_values g)" and "v_kind v = KConstant" and "build_value_to_gguf_map f (v_name v) = Some nm"
    and "\<And>w. x_of_bits (to_bits (x_of_bits w)) = x_of_bits w"
  shows "(\<exists>r t ti raw. ws_get (v_name v) st = Some r \<and> r < tensor_count st \<and> ws_storage st ! r = (nm, t)
      \<and> t_shape t = v_shape v \<and> build_gguf_tensor_map f nm = Some ti \<and> tensor_raw_view L f ti = Inr raw
      \<and> (\<forall>n i. num_elements ti = Inr n \<longrightarrow> n < 2 ^ 31 \<longrightarrow> i < n \<longrightarrow> stored_weight t i = kernel_weight (ti_dtype ti) raw i))
    \<and> distinct (map fst (ws_storage st)) \<and> mem' = mem
    \<and> ws_total_bytes st = wrap64 (\<Sum>(nm, t) \<leftarrow> ws_storage st. allocated_bytes t)"
proof -
  have ok: "store_ok x_ops to_bits L f st" by (rule load_shared_ok [OF assms(1)])
  obtain r where r: "ws_get (v_name v) st = Some r" "t_shape (snd (ws_storage st ! r)) = v_shape v"
    using load_shared_ok(3) [OF assms(1-3)] assms(4) by auto
  then have r': "r < tensor_count st" "fst (ws_storage st ! r) = nm" using ok assms(4) by (auto simp: store_ok_def)
  obtain t where t: "ws_storage st ! r = (nm, t)" using r'(2) by (metis prod.collapse)
  then obtain ti where ti: "build_gguf_tensor_map f nm = Some ti" "filled_from x_ops to_bits L f ti t"
    using store_tensor [OF ok r'(1)] by auto
  from ti(2) obtain t0 m where t0: "external_data t0 = None" "t_dtype t0 = ggml_to_dtype (ti_dtype ti)"
    "load_tensor_from_gguf x_ops to_bits L f ti (t0, m) = (make_ok, (t, m))" by (auto simp: filled_from_def)
  then obtain raw where raw: "tensor_raw_view L f ti = Inr raw"
    by (cases "tensor_raw_view L f ti") (auto simp: load_tensor_defs Let_def split: if_splits)
  have "stored_weight t i = kernel_weight (ti_dtype ti) raw i" if "num_elements ti = Inr n" "n < 2 ^ 31" "i < n" for n i
    using loaded_weights [OF t0 that(1,2) assms(5)] raw that(3) by auto
  then have "\<exists>r t ti raw. ws_get (v_name v) st = Some r \<and> r < tensor_count st \<and> ws_storage st ! r = (nm, t)
      \<and> t_shape t = v_shape v \<and> build_gguf_tensor_map f nm = Some ti \<and> tensor_raw_view L f ti = Inr raw
      \<and> (\<forall>n i. num_elements ti = Inr n \<longrightarrow> n < 2 ^ 31 \<longrightarrow> i < n \<longrightarrow> stored_weight t i = kernel_weight (ti_dtype ti) raw i)"
    using r r' t ti(1) raw by auto
  then show ?thesis using ok load_shared_ok(1) [OF assms(1)] by (simp add: store_ok_def)
qed

section \<open>Binding\<close>

lemma filled_device:
  assumes "filled_from F to_bits L f ti t"
  shows "t_dtype t = ggml_to_dtype (ti_dtype ti)" "t_device t = device_cpu"
proof -
  from assms obtain t0 m where t0: "external_data t0 = None" "t_dtype t0 = ggml_to_dtype (ti_dtype ti)"
    "t_device t0 = device_cpu" "load_tensor_from_gguf F to_bits L f ti (t0, m) = (make_ok, (t, m))" by (auto simp: filled_from_def)
  then show "t_dtype t = ggml_to_dtype (ti_dtype ti)" "t_device t = device_cpu" using load_tensor_own(2) [OF t0(1,4)] by auto
qed

lemma filled_compatible:
  assumes "filled_from F to_bits L f ti t" and "t_shape t = v_shape v" and "v_dtype v = Float32" and "v_device v = device_cpu"
  shows "check_compatible_weight t v = make_ok"
  using assms filled_device [OF assms(1)]
  by (auto simp: check_compatible_weight_def ggml_to_dtype_def split: ggml_type.splits)

lemma bind_values_ok:
  assumes "\<forall>v \<in> set vs. v_kind v = KConstant \<longrightarrow>
      (\<forall>r. ws_get (v_name v) st = Some r \<longrightarrow> check_compatible_weight (snd (ws_storage st ! r)) v = make_ok)"
    and "distinct (map v_id vs)"
  shows "\<exists>rc'. bind_values st base vs rc = (make_ok, rc')
    \<and> (\<forall>v \<in> set vs. rc_bindings rc' (v_id v) = (if v_kind v = KConstant \<and> ws_get (v_name v) st \<noteq> None
          then map_option ((+) base) (ws_get (v_name v) st) else rc_bindings rc (v_id v)))
    \<and> (\<forall>i. i \<notin> v_id ` set vs \<longrightarrow> rc_bindings rc' i = rc_bindings rc i) \<and> rc_tensors rc' = rc_tensors rc"
  using assms
proof (induction vs arbitrary: rc)
  case (Cons v vs)
  define bs where "bs = (if v_kind v = KConstant \<and> ws_get (v_name v) st \<noteq> None
    then (rc_bindings rc)(v_id v := map_option ((+) base) (ws_get (v_name v) st)) else rc_bindings rc)"
  have step: "bind_values st base (v # vs) rc = bind_values st base vs (rc\<lparr>rc_bindings := bs\<rparr>)"
    using Cons.prems(1) by (auto simp: bs_def rc_bind_def split: option.splits)
  have fresh: "v_id v \<notin> v_id ` set vs" using Cons.prems(2) by auto
  define rc1 where "rc1 = rc\<lparr>rc_bindings := bs\<rparr>"
  have rc1: "rc_bindings rc1 = bs" "rc_tensors rc1 = rc_tensors rc" by (simp_all add: rc1_def)
  have "\<forall>v \<in> set vs. v_kind v = KConstant \<longrightarrow>
      (\<forall>r. ws_get (v_name v) st = Some r \<longrightarrow> check_compatible_weight (snd (ws_storage st ! r)) v = make_ok)"
    "distinct (map v_id vs)" using Cons.prems by simp_all
  from Cons.IH [OF this, of rc1, unfolded rc1] obtain rc' where rc': "bind_values st base vs rc1 = (make_ok, rc')"
    "\<forall>v \<in> set vs. rc_bindings rc' (v_id v) = (if v_kind v = KConstant \<and> ws_get (v_name v) st \<noteq> None
          then map_option ((+) base) (ws_get (v_name v) st) else bs (v_id v))"
    "\<forall>i. i \<notin> v_id ` set vs \<longrightarrow> rc_bindings rc' i = bs i" "rc_tensors rc' = rc_tensors rc"
    by blast
  have "bs i = rc_bindings rc i" if "i \<noteq> v_id v" for i using that by (simp add: bs_def)
  moreover have "bs (v_id v) = (if v_kind v = KConstant \<and> ws_get (v_name v) st \<noteq> None
          then map_option ((+) base) (ws_get (v_name v) st) else rc_bindings rc (v_id v))" by (auto simp: bs_def)
  moreover have "v_id u \<noteq> v_id v" if "u \<in> set vs" for u using fresh that by (metis imageI)
  ultimately have "\<forall>u \<in> set (v # vs). rc_bindings rc' (v_id u) = (if v_kind u = KConstant \<and> ws_get (v_name u) st \<noteq> None
          then map_option ((+) base) (ws_get (v_name u) st) else rc_bindings rc (v_id u))"
    "\<forall>i. i \<notin> v_id ` set (v # vs) \<longrightarrow> rc_bindings rc' i = rc_bindings rc i"
    using rc'(2,3) fresh by auto
  with step rc'(1,4) show ?case unfolding rc1_def by auto
qed simp

text \<open>C22. A graph whose weights were loaded can be bound: on a graph with distinct value ids whose constants are Float32 on
  the CPU, as the transformer builder makes them, \<open>bind\<close> after \<open>load_shared_weights\<close> never fails, and gives each
  constant that the file has a tensor for exactly the shared tensor of its GGUF name; every other binding
  of the context, an input's or one of a constant the file lacks, stays.\<close>

theorem loaded_weights_can_be_bound:
  assumes load: "load_shared_weights F to_bits L f g mem = Inr (st, mem')" and ids: "distinct (map v_id (g_values g))"
    and floats: "\<forall>v \<in> set (g_values g). v_kind v = KConstant \<longrightarrow> v_dtype v = Float32 \<and> v_device v = device_cpu"
  shows "\<exists>rc'. bind_shared st base g rc = (make_ok, rc')
    \<and> (\<forall>v \<in> set (g_values g). \<forall>nm. v_kind v = KConstant \<longrightarrow> build_value_to_gguf_map f (v_name v) = Some nm \<longrightarrow>
         (\<exists>r < tensor_count st. rc_bindings rc' (v_id v) = Some (base + r) \<and> fst (ws_storage st ! r) = nm))
    \<and> (\<forall>v \<in> set (g_values g). v_kind v \<noteq> KConstant \<or> build_value_to_gguf_map f (v_name v) = None \<longrightarrow>
         rc_bindings rc' (v_id v) = rc_bindings rc (v_id v))"
proof -
  have ok: "store_ok F to_bits L f st" by (rule load_shared_ok [OF load])
  note got = load_shared_ok(3) [OF load]
  have entry: "r < tensor_count st \<and> build_value_to_gguf_map f w = Some (fst (ws_storage st ! r))" if "ws_get w st = Some r" for w r
    using ok that by (simp add: store_ok_def)
  have "check_compatible_weight (snd (ws_storage st ! r)) v = make_ok"
    if v: "v \<in> set (g_values g)" "v_kind v = KConstant" and r: "ws_get (v_name v) st = Some r" for v r
  proof -
    have "t_shape (snd (ws_storage st ! r)) = v_shape v" using got [OF v] entry [OF r] r by auto
    moreover obtain ti where "filled_from F to_bits L f ti (snd (ws_storage st ! r))"
      using store_tensor [OF ok] entry [OF r] by blast
    ultimately show ?thesis using floats v by (intro filled_compatible) auto
  qed
  from bind_values_ok [OF _ ids] this obtain rc' where rc': "bind_values st base (g_values g) rc = (make_ok, rc')"
    "\<forall>v \<in> set (g_values g). rc_bindings rc' (v_id v) = (if v_kind v = KConstant \<and> ws_get (v_name v) st \<noteq> None
          then map_option ((+) base) (ws_get (v_name v) st) else rc_bindings rc (v_id v))" by blast
  have "\<exists>r < tensor_count st. rc_bindings rc' (v_id v) = Some (base + r) \<and> fst (ws_storage st ! r) = nm"
    if m: "v \<in> set (g_values g)" "v_kind v = KConstant" "build_value_to_gguf_map f (v_name v) = Some nm" for v nm
  proof -
    obtain r where "ws_get (v_name v) st = Some r" using got [OF m(1,2)] m(3) by auto
    then show ?thesis using entry rc'(2) m by auto
  qed
  moreover have "rc_bindings rc' (v_id v) = rc_bindings rc (v_id v)"
    if "v \<in> set (g_values g)" "v_kind v \<noteq> KConstant \<or> build_value_to_gguf_map f (v_name v) = None" for v
    using rc'(2) that entry by (cases "ws_get (v_name v) st") auto
  ultimately show ?thesis using rc'(1) unfolding bind_shared_def by blast
qed

section \<open>Memory safety\<close>

lemma dequantize_length:
  assumes "ty \<in> {GT_F32, GT_F16, GT_BF16, GT_Q8_0}" and "n < 2 ^ 31" and "raw_bytes ty n \<le> length src"
  shows "\<exists>dst. dequantize_to_f32 F to_bits ty src n = Inr dst \<and> length dst = n * 4"
proof -
  consider "ty = GT_F32" | "ty = GT_F16 \<or> ty = GT_BF16" | "ty = GT_Q8_0" using assms(1) by blast
  then show ?thesis
  proof cases
    case 1
    with assms(2,3) show ?thesis by (simp add: dequantize_to_f32_def read_floats_def)
  next
    case 2
    with assms(3) show ?thesis by (auto simp: dequantize_to_f32_def convert_u16_run float_array)
  next
    case 3
    with assms(2,3) show ?thesis by (simp add: dequantize_q8_run float_array)
  qed
qed

lemma write_data_unsafe: "(\<exists>m s'. write_data bs (t, mem) = (Inl (UB m), s')) \<longleftrightarrow> allocated_bytes t < length bs"
  by (auto simp: write_data_def split: data_ptr.splits)

text \<open>C23. Loading a tensor is memory safe exactly when it fits. A packed copy, of Q8_0 or of bfloat16 into a tensor of
  that type, compares sizes first and never writes past the end. The path that expands to floats does not:
  it is undefined behaviour as soon as the tensor has fewer than four bytes for each element of the GGUF tensor,
  which the shape in the file decides and not the shape in the graph.\<close>

theorem weight_loading_is_safe_iff_it_fits:
  assumes "is_allocated t" and "dev_type (t_device t) \<noteq> CUDA" and "tensor_raw_view L f ti = Inr raw"
    and "num_elements ti = Inr n" and "n < 2 ^ 31"
  shows "(\<exists>m s'. load_tensor_from_gguf F to_bits L f ti (t, mem) = (Inl (UB m), s')) \<longleftrightarrow>
    \<not> (ti_dtype ti = GT_Q8_0 \<and> t_dtype t = Q8_0) \<and> \<not> (ti_dtype ti = GT_BF16 \<and> t_dtype t = BFloat16)
    \<and> allocated_bytes t < n * 4"
proof -
  note view = tensor_raw_view_length [OF assms(3)]
  note fmt = tensor_bytes_raw [OF view assms(4,5)]
  have packed: "\<not> (\<exists>m s'. copy_packed what raw k (t, mem) = (Inl (UB m), s'))" for what k
    using write_data_unsafe [of "take k raw" t mem] by (auto simp: copy_packed_def out_of_range_def)
  obtain dst where dst: "dequantize_to_f32 F to_bits (ti_dtype ti) raw n = Inr dst" "length dst = n * 4"
    using dequantize_length [OF fmt(1) assms(5), of raw F to_bits] fmt(2) by auto
  have load: "load_tensor_from_gguf F to_bits L f ti (t, mem) =
    (if ti_dtype ti = GT_Q8_0 \<and> t_dtype t = Q8_0 then copy_packed ''Q8_0'' raw (length raw) (t, mem)
     else if ti_dtype ti = GT_BF16 \<and> t_dtype t = BFloat16 then copy_packed ''BF16'' raw (wrap64 (n * 2)) (t, mem)
     else write_data dst (t, mem))"
    using assms view dst(1) by (simp add: load_tensor_defs Let_def)
  show ?thesis
  proof (cases "ti_dtype ti = GT_Q8_0 \<and> t_dtype t = Q8_0 \<or> ti_dtype ti = GT_BF16 \<and> t_dtype t = BFloat16")
    case True
    then show ?thesis using packed unfolding load by auto
  next
    case False
    then have "load_tensor_from_gguf F to_bits L f ti (t, mem) = write_data dst (t, mem)" unfolding load by auto
    with False show ?thesis using write_data_unsafe [of dst t mem] dst(2) by auto
  qed
qed

section \<open>A file of one weight\<close>

definition weight_info :: "int list \<Rightarrow> tensor_info" where
  "weight_info ds = \<lparr>ti_name = ''output_norm.weight'', ti_dtype = GT_F32, ti_dimensions = ds, ti_offset = 0\<rparr>"

definition weight_file :: "int list \<Rightarrow> octet list \<Rightarrow> gguf_file" where
  "weight_file ds bs = \<lparr>gf_version = 3, gf_tensor_count = 1, gf_metadata_kv_count = 0, gf_data_offset = 0,
     gf_source_path = ''m.gguf'', gf_memory_view = Some bs, gf_metadata = Map.empty, gf_tensor_infos = [weight_info ds]\<rparr>"

definition weight_graph :: "unit graph" where
  "weight_graph = \<lparr>g_values = [\<lparr>v_id = 0, v_name = ''output_norm.weight'', v_shape = Shape [1], v_dtype = Float32,
     v_device = device_cpu, v_kind = KConstant\<rparr>], g_nodes = []\<rparr>"

definition any_loader :: weight_loader where
  "any_loader = \<lparr>wl_path = ''m.gguf'', wl_fs = Map.empty, wl_mmap = Map.empty\<rparr>"

lemma weight_view: "ds = [1] \<or> ds = [2] \<Longrightarrow> length bs = 8 \<Longrightarrow>
    tensor_raw_view L (weight_file ds bs) (weight_info ds) = Inr (take (nat (hd ds) * 4) bs)"
  by (auto simp: tensor_raw_view_def tensor_view_def weight_file_def weight_info_def tensor_bytes_def num_elements_def
      size_of_int_def Let_def)

lemma weight_loading_is_safe_iff_it_fits_witness:
  "\<exists>m s'. load_tensor_from_gguf x_ops (inv x_of_bits) any_loader (weight_file [2] [0,0,128,63,0,0,128,63]) (weight_info [2])
     ((new_tensor ''output_norm.weight'' (Shape [1]) Float32 device_cpu)\<lparr>storage := [0,0,0,0]\<rparr>, \<lambda>_. 0) = (Inl (UB m), s')"
proof -
  let ?t = "(new_tensor ''output_norm.weight'' (Shape [1]) Float32 device_cpu)\<lparr>storage := [0,0,0,0]\<rparr>"
  have t: "is_allocated ?t" "dev_type (t_device ?t) \<noteq> CUDA" "allocated_bytes ?t = 4" "t_dtype ?t = Float32"
    by (simp_all add: is_allocated_def new_tensor_def device_cpu_def allocated_bytes_def)
  have n: "num_elements (weight_info [2]) = Inr 2" by (simp add: num_elements_def weight_info_def size_of_int_def)
  show ?thesis
    using weight_loading_is_safe_iff_it_fits [OF t(1,2) weight_view [of "[2]" "[0,0,128,63,0,0,128,63]"] n] t(3,4) by simp
qed

lemma weight_maps:
  "build_value_to_gguf_map (weight_file ds bs) = [''output_norm.weight'' \<mapsto> ''output_norm.weight'']"
  "build_gguf_tensor_map (weight_file ds bs) = [''output_norm.weight'' \<mapsto> weight_info ds]"
  by (auto simp: build_value_to_gguf_map_def mapped_names_def build_gguf_tensor_map_def weight_file_def weight_info_def
      gguf_name_to_value_name_def layer_value_name_def global_suffixes_def Let_def)

definition one_weight :: "octet list" where
  "one_weight = [0, 0, 128, 63, 0, 0, 0, 0]"

lemma weight_loaded:
  "load_shared_weights F to_bits any_loader (weight_file [1] one_weight) weight_graph mem =
     Inr (\<lparr>ws_storage = [(''output_norm.weight'',
         (new_tensor ''output_norm.weight'' (Shape [1]) Float32 device_cpu)\<lparr>storage := [0, 0, 128, 63]\<rparr>)],
       ws_aliases = [(''output_norm.weight'', 0)], ws_total_bytes = 4\<rparr>, mem)"
proof -
  let ?t = "(new_tensor ''output_norm.weight'' (Shape [1]) Float32 device_cpu)\<lparr>storage := [0, 0, 0, 0]\<rparr>"
  let ?v = "hd (g_values weight_graph)"
  have four: "replicate 4 x = [x, x, x, x]" for x :: octet by (simp add: numeral_eq_Suc)
  have alloc: "allocate_shared (weight_info [1]) ?v = Inr (?t, 4)"
    by (simp add: allocate_shared_def weight_graph_def weight_info_def ggml_to_dtype_def allocate_cpu_def new_tensor_def
        has_dynamic_dim_def nbytes_def numel_def release_def device_cpu_def Let_def four eval_simps)
  have view: "tensor_raw_view any_loader (weight_file [1] one_weight) (weight_info [1]) = Inr [0, 0, 128, 63]"
    using weight_view [of "[1]" one_weight] by (simp add: one_weight_def numeral_eq_Suc)
  have n: "num_elements (weight_info [1]) = Inr 1" by (simp add: num_elements_def weight_info_def size_of_int_def)
  have ty: "ti_dtype (weight_info [1]) = GT_F32" by (simp add: weight_info_def)
  have t: "is_allocated ?t" "dev_type (t_device ?t) = CPU" "allocated_bytes ?t = 4" "tensor_data ?t = OwnStorage"
    by (simp_all add: is_allocated_def allocated_bytes_def tensor_data_def new_tensor_def device_cpu_def)
  have "load_tensor_from_gguf F to_bits any_loader (weight_file [1] one_weight) (weight_info [1]) (?t, mem)
    = (make_ok, (?t\<lparr>storage := [0, 0, 128, 63]\<rparr>, mem))"
    using t by (simp add: load_tensor_defs view n ty dequantize_to_f32_def read_floats_def write_data_def
        fill_front_def Let_def)
  then have "share_value F to_bits any_loader (weight_file [1] one_weight) ?v (empty_store, mem) =
     Inr (\<lparr>ws_storage = [(''output_norm.weight'', ?t\<lparr>storage := [0, 0, 128, 63]\<rparr>)],
       ws_aliases = [(''output_norm.weight'', 0)], ws_total_bytes = 4\<rparr>, mem)"
    using alloc by (simp add: share_value_def weight_maps weight_graph_def empty_store_def ws_find_def)
  then show ?thesis by (simp add: load_shared_weights_def weight_graph_def)
qed

text \<open>The weight 1.\<close>

lemma shared_weights_hold_the_file_witness:
  "\<exists>st mem. load_shared_weights x_ops (inv x_of_bits) any_loader (weight_file [1] one_weight) weight_graph (\<lambda>_. 0) = Inr (st, mem)
     \<and> (\<exists>t. ws_storage st ! 0 = (''output_norm.weight'', t) \<and> stored_weight t 0 = Fin 1)"
proof -
  have round: "x_of_bits (inv x_of_bits (x_of_bits w)) = x_of_bits w" for w by (rule f_inv_into_f) simp
  obtain v where v: "v \<in> set (g_values weight_graph)" "v_kind v = KConstant" "v_name v = ''output_norm.weight''"
    by (simp add: weight_graph_def)
  then have nm: "build_value_to_gguf_map (weight_file [1] one_weight) (v_name v) = Some ''output_norm.weight''"
    by (simp add: weight_maps)
  have n: "num_elements (weight_info [1]) = Inr 1" by (simp add: num_elements_def weight_info_def size_of_int_def)
  have view: "tensor_raw_view any_loader (weight_file [1] one_weight) (weight_info [1]) = Inr [0, 0, 128, 63]"
    using weight_view [of "[1]" one_weight] by (simp add: one_weight_def numeral_eq_Suc)
  have one: "x_of_bits (u32_at [0, 0, 128, 63] 0) = Fin 1"
    by (simp add: u32_at_def u32_of_def x_of_bits_def Let_def power_int_minus)
  let ?st = "\<lparr>ws_storage = [(''output_norm.weight'',
         (new_tensor ''output_norm.weight'' (Shape [1]) Float32 device_cpu)\<lparr>storage := [0, 0, 128, 63]\<rparr>)],
       ws_aliases = [(''output_norm.weight'', 0)], ws_total_bytes = 4\<rparr>"
  obtain r t ti raw where r: "r < tensor_count ?st" "ws_storage ?st ! r = (''output_norm.weight'', t)"
    and ti: "build_gguf_tensor_map (weight_file [1] one_weight) ''output_norm.weight'' = Some ti"
      "tensor_raw_view any_loader (weight_file [1] one_weight) ti = Inr raw"
    and w: "\<forall>n i. num_elements ti = Inr n \<longrightarrow> n < 2 ^ 31 \<longrightarrow> i < n \<longrightarrow> stored_weight t i = kernel_weight (ti_dtype ti) raw i"
    using shared_weights_hold_the_file [OF weight_loaded v(1,2) nm round] by blast
  have ti': "ti = weight_info [1]" "raw = [0, 0, 128, 63]" using ti view by (simp_all add: weight_maps)
  have r0: "r = 0" using r(1) by (simp add: tensor_count_def)
  have "stored_weight t 0 = Fin 1" using w n one by (simp add: ti' weight_info_def)
  then show ?thesis unfolding weight_loaded using r(2) by (simp add: r0)
qed

lemma loaded_weights_can_be_bound_witness:
  "\<exists>st mem rc'. load_shared_weights x_ops (inv x_of_bits) any_loader (weight_file [1] one_weight) weight_graph (\<lambda>_. 0) = Inr (st, mem)
     \<and> bind_shared st 7 weight_graph (new_context [] :: unit runtime_context) = (make_ok, rc') \<and> rc_bindings rc' 0 = Some 7"
proof -
  have "distinct (map v_id (g_values weight_graph))"
    "\<forall>v \<in> set (g_values weight_graph). v_kind v = KConstant \<longrightarrow> v_dtype v = Float32 \<and> v_device v = device_cpu"
    by (simp_all add: weight_graph_def)
  from loaded_weights_can_be_bound [OF weight_loaded this, of 7 "new_context []"]
  show ?thesis unfolding weight_loaded by (auto simp: weight_graph_def weight_maps tensor_count_def)
qed

end
