(* ===== verification/Spec2Isabelle.thy ===== *)
theory Spec2Isabelle
  imports Attention_Batches KV_Cache Tensor Batch_Scheduler_Properties Transformer_Builder Bpe_Roundtrip Planned_Execution Gguf_Properties
    Row_Kernels Transpose_Kernel Sampler_Properties Shared_Weights
begin

text \<open>
  MiniLLMEngine, a CPU-first inference engine for language models in C++23 (include/minillm, src).

  \<^bold>\<open>The program.\<close> A model file (GGUF) is parsed; its weights go into tensors; a transformer graph is built by
  \<open>GraphBuilder\<close> with shape inference; \<open>MemoryPlanner\<close> gives the intermediate values of the graph
  buffers that are reused; \<open>RuntimeContext\<close> owns the memory and binds tensors to values;
  \<open>CpuExecutor\<close> compiles the graph (validation, topological order, kernel lookup) and runs its nodes. Text becomes
  token ids and back in \<open>BPETokenizer\<close>. Keys and values of past tokens live in \<open>KVCache\<close> or, in
  blocks shared by many sequences, in \<open>PagedKVCache\<close>; \<open>PagedAttentionScheduler\<close> makes batches of block
  tables and decodes them, and \<open>ContinuousBatchScheduler\<close> admits and evicts requests.

  \<^bold>\<open>Conventions\<close> (\<open>Prelude\<close>). Every fallible function returns a sum: \<open>Err\<close> is a \<open>Status\<close>,
  \<open>Thrown\<close> an escaping exception, \<open>UB\<close> undefined behaviour, so that theorems about success also exclude
  the last two. \<open>int\<close> and \<open>int64_t\<close> are \<open>int\<close> with a checked overflow, \<open>size_t\<close> is
  \<open>nat\<close> with \<open>wrap64\<close> written out, wire integers are words. State is a record that operations return updated,
  also when they fail. Floats are a type parameter with an operations record (\<open>float_ops\<close>); statements about
  numbers take the reals. A loop that is not structural carries a measure, or fuel that a theorem shows to be
  enough: the length of the stream for nested metadata (\<open>read_metadata_value\<close>), the square of the number of symbols for
  the merge loop (\<open>bpe\<close>), the length of the text for \<open>encode\<close>.

  \<^bold>\<open>Parameters\<close>: \<open>std::sort\<close> and \<open>std::partial_sort\<close> (\<open>std_sort_law\<close>, \<open>sort_law\<close>, \<open>partial_sort_law\<close>),
  the iteration order of hash maps, where \<open>new\<close> places a block, what the file system gives for a name by reading and by
  mapping, what \<open>isalpha\<close> answers above 255, the random number of the sampler, the kernels that the executor calls
  (functions on a node and the state), the instruction set of the build (\<open>simd_level\<close>) and float arithmetic with the
  bits of a float and the conversions of \<open>double\<close>. Equalities of kernels that hold for any arithmetic say so; what
  a kernel computes is stated in \<open>x_ops\<close>, the reals with infinities and NaN and without rounding.

  \<^bold>\<open>What callers must keep to.\<close> Each component with runs has a predicate on calls that the code does not check itself:
  \<open>paged_call_ok\<close> (sums of lengths within \<open>int\<close>, rows given), \<open>batch_call_ok\<close> (progress and writes for
  sequences of the batch, no reuse of the id of a collected request that is still in the batch; the order of
  \<open>collect_finished\<close> and \<open>evict_finished\<close> is free), \<open>builder_call_ok\<close> (well-formed shapes; the weight
  of \<open>rms_norm\<close> exists). Theorems next to them say what happens beyond.

  \<^bold>\<open>Theories and code.\<close>
  \<^item> \<open>Core_Types\<close>, \<open>Tensor\<close>: src/core (status, dtype, device, shape, tensor). Element counts are exact or an error;
    a tensor has one owner of its storage.
  \<^item> \<open>State_Machine\<close>: the interface of a component with runs; an invariant of the start and of every call holds in
    every reachable state. Each stateful component interprets it.
  \<^item> \<open>Paged_KV_Cache\<close>, \<open>Paged_Cache_Invariant\<close>, \<open>Paged_Cache_Tokens\<close>, \<open>Paged_Cache_Writes\<close>,
    \<open>Paged_Cache_Runs\<close>, \<open>Paged_Cache_Properties\<close>: runtime/cache/paged_kv_cache.cpp. Conservation of blocks, writes
    against the abstract view \<open>token_row\<close>, all-or-nothing reservation.
  \<^item> \<open>Paged_Attention\<close>, \<open>Softmax_Attention\<close>: \<open>paged_attention_decode\<close>; over the reals it is softmax
    attention.
  \<^item> \<open>KV_Cache\<close>: runtime/cache/kv_cache.cpp. Bounds and saturation of the cached length.
  \<^item> \<open>Attention_Scheduler\<close>, \<open>Attention_Batches\<close>: runtime/cache/paged_attention_scheduler.cpp. The flattened
    block tables refine the block tables of the cache; a decoded batch is attention per sequence.
  \<^item> \<open>Batch_Scheduler\<close>, \<open>Batch_Scheduler_Invariant\<close>, \<open>Batch_Scheduler_Runs\<close>, \<open>Batch_Scheduler_Properties\<close>:
    runtime/continuous_batch_scheduler.cpp together with the cache. Invariant of continuous batching, FIFO and maximal
    admission, no writes that fail for lack of blocks, blocking by an infeasible request.
  \<^item> \<open>Graph_IR\<close>, \<open>Graph_Order\<close>: src/graph/graph.cpp, node.cpp. Kahn's algorithm sorts exactly the acyclic graphs.
  \<^item> \<open>Shape_Infer\<close>, \<open>Graph_Builder\<close>, \<open>Transformer_Builder\<close>: shape_infer.cpp, graph_builder.cpp,
    model/transformer_graph_builder.cpp. Every graph that is built is valid and sorts; failing calls change nothing; a sensible
    configuration gives logits of the right shape with the exact number of nodes.
  \<^item> \<open>Memory_Planner\<close>, \<open>Memory_Lifetimes\<close>, \<open>Memory_Reuse\<close>, \<open>Memory_Arenas\<close>, \<open>Memory_Plan_Properties\<close>:
    runtime/memory_planner.cpp. Values in one buffer are never in use together, arenas are disjoint, planned bytes are exact.
  \<^item> \<open>Runtime_Context\<close>, \<open>Planned_Memory\<close>, \<open>Executor\<close>, \<open>Memory_Reuse_Execution\<close>, \<open>Planned_Execution\<close>:
    runtime_context.cpp, kernel_registry.cpp, backend.cpp, executor.cpp. The composition: a planned, compiled graph run in
    reused memory computes what it computes with memory of its own for every value.
  \<^item> \<open>Gguf_Format\<close>, \<open>Gguf_Termination\<close>, \<open>Gguf_Roundtrip\<close>, \<open>Gguf_Properties\<close>: io/gguf_format.cpp,
    gguf_parser.cpp. Parsing inverts an encoder, reading ends on every input, tensor bytes are found exactly when they lie in
    the file.
  \<^item> \<open>Byte_Unicode\<close>, \<open>Pre_Tokenize\<close>, \<open>Bpe_Merge\<close>, \<open>Bpe_Merge_Correct\<close>, \<open>Bpe_Tokenizer\<close>,
    \<open>Bpe_Properties\<close>, \<open>Bpe_Roundtrip\<close>: io/bpe_tokenizer.cpp. Pieces make up the text, the array of linked
    symbols does byte-pair merging, hash order does not show, an encoded text decodes to itself.

  \<^item> \<open>Cpu_Simd\<close>, \<open>Exact_Floats\<close>, \<open>Kernel_Loops\<close>: runtime/kernels/cpu_simd.h, utils/bfloat16.hpp; vectors as lists of
    lanes for every instruction set, exact arithmetic with infinities and NaN, loops over buffers with checked accesses.
  \<^item> \<open>Cpu_Attention\<close>, \<open>Flash_Attention\<close>, \<open>Attention_Equivalence\<close>, \<open>Attention_Kernels\<close>: the attention kernels of
    runtime/kernels/cpu_kernels.cpp. Plain and flash kernels leave softmax attention; paged decoding is contiguous decoding.
  \<^item> \<open>Cpu_Kernels\<close>, \<open>Gemm_Tiling\<close>, \<open>Linear_Kernels\<close>, \<open>Row_Kernels\<close>, \<open>Transpose_Kernel\<close>: its other kernels. The tiled
    product is the plain one, weight formats agree, rotary positions encode distance, transposition is its own inverse.
  \<^item> \<open>Sampler\<close>, \<open>Sampler_Properties\<close>: runtime/sampler.cpp. Always a valid token; greedy is the argmax of finite logits; random
    choice draws from the softmax of the kept tokens.
  \<^item> \<open>Weight_Conversion\<close>, \<open>Weight_Names\<close>, \<open>Weight_Loader\<close>, \<open>Shared_Weights\<close>: io/gguf_weight_loader.cpp. Conversions give
    the weights of the kernels, every weight of a built graph has a GGUF name, shared weights hold the file and can be
    bound, and exactly when the float path stays within its target.

  \<^bold>\<open>Not modelled\<close>: the CUDA build (kernels, adapters, \<open>CudaExecutor\<close>, device pools), which the default build
  leaves out; the CPU kernel adapters, which check arguments and pass the pointers of tensors to the kernels; threads (the
  OpenMP loops write disjoint parts and are sequential here), the rounding of float, running out of memory or call
  stack, and the alignment of addresses; the classes around \<open>mmap\<close> and file handles (what they give
  is a parameter); textual reports with floating-point formatting; examples, tools, scripts and tests.
\<close>

end
